(* ===== verification/XP_Prelude.thy ===== *)
theory XP_Prelude
  imports Main "HOL-Library.Word" "HOL-Library.Monad_Syntax"
begin

text \<open>
  Shared vocabulary of the development: the machine types of the server's C code, checked
  access to memory blocks, C's truncating division, and generic list lemmas.

  Undefined behaviour of the C program (an access outside a block, a dereference of a null
  or freed pointer, a bad variadic argument) is the value \<open>None\<close> of an option; a function
  that cannot meet it returns its result directly. \<open>Some\<close> therefore always means that the
  code ran to its return statement without undefined behaviour. The status codes the code
  itself returns (-1, 0, a count) are ordinary results inside \<open>Some\<close>.
\<close>

unbundle bit_operations_syntax

type_synonym byte = "8 word"
type_synonym i16 = "16 word"
type_synonym i32 = "32 word"

text \<open>Lemma collections: memory access, and the word arithmetic of the encoders.\<close>

named_theorems cmem_simps
named_theorems codec_simps

subsection \<open>Checked access to memory blocks\<close>

text \<open>\<open>memcpy(dst + off, src, length src)\<close> into a block.\<close>

definition buf_put :: "int \<Rightarrow> 'a list \<Rightarrow> 'a list \<Rightarrow> 'a list option" where
  "buf_put off src dst =
     (if 0 \<le> off \<and> off + int (length src) \<le> int (length dst)
      then Some (take (nat off) dst @ src @ drop (nat off + length src) dst)
      else None)"

text \<open>The \<open>n\<close> elements of a block from offset \<open>off\<close>.\<close>

definition buf_get :: "int \<Rightarrow> int \<Rightarrow> 'a list \<Rightarrow> 'a list option" where
  "buf_get off n b =
     (if 0 \<le> off \<and> 0 \<le> n \<and> off + n \<le> int (length b)
      then Some (take (nat n) (drop (nat off) b)) else None)"

definition buf_at :: "int \<Rightarrow> 'a list \<Rightarrow> 'a option" where
  "buf_at i b = (if 0 \<le> i \<and> i < int (length b) then Some (b ! nat i) else None)"

definition buf_set :: "int \<Rightarrow> 'a \<Rightarrow> 'a list \<Rightarrow> 'a list option" where
  "buf_set i x b = (if 0 \<le> i \<and> i < int (length b) then Some (b[nat i := x]) else None)"

lemma buf_put_length: "buf_put off src dst = Some d \<Longrightarrow> length d = length dst"
  by (auto simp: buf_put_def split: if_splits)

lemma buf_set_length: "buf_set i x b = Some c \<Longrightarrow> length c = length b"
  by (auto simp: buf_set_def split: if_splits)

lemma buf_put_ok [cmem_simps]:
  "0 \<le> off \<Longrightarrow> off + int (length src) \<le> int (length dst) \<Longrightarrow>
   buf_put off src dst = Some (take (nat off) dst @ src @ drop (nat off + length src) dst)"
  by (simp add: buf_put_def)

lemma buf_get_ok [cmem_simps]:
  "0 \<le> off \<Longrightarrow> 0 \<le> n \<Longrightarrow> off + n \<le> int (length b) \<Longrightarrow>
   buf_get off n b = Some (take (nat n) (drop (nat off) b))"
  by (simp add: buf_get_def)

lemma buf_at_ok [cmem_simps]:
  "0 \<le> i \<Longrightarrow> i < int (length b) \<Longrightarrow> buf_at i b = Some (b ! nat i)"
  by (simp add: buf_at_def)

lemma buf_set_ok [cmem_simps]:
  "0 \<le> i \<Longrightarrow> i < int (length b) \<Longrightarrow> buf_set i x b = Some (b[nat i := x])"
  by (simp add: buf_set_def)

lemma buf_put_take:
  assumes "buf_put off src dst = Some d"
  shows "take (nat off + length src) d = take (nat off) dst @ src"
proof -
  from assms have "nat off \<le> length dst"
    and d: "d = take (nat off) dst @ src @ drop (nat off + length src) dst"
    by (auto simp: buf_put_def split: if_splits)
  then show ?thesis by simp
qed

lemma buf_put_take_before:
  assumes "buf_put off src dst = Some d" "n \<le> nat off"
  shows "take n d = take n dst"
  using assms by (auto simp: buf_put_def min_def split: if_splits)

subsection \<open>C arithmetic\<close>

text \<open>Division and remainder of C truncate towards zero.\<close>

definition c_div :: "int \<Rightarrow> int \<Rightarrow> int" where
  "c_div a b = sgn a * sgn b * (\<bar>a\<bar> div \<bar>b\<bar>)"

definition c_mod :: "int \<Rightarrow> int \<Rightarrow> int" where
  "c_mod a b = a - b * c_div a b"

lemma c_div_nonneg: "0 \<le> a \<Longrightarrow> 0 < b \<Longrightarrow> c_div a b = a div b"
  by (cases "a = 0") (simp_all add: c_div_def)

lemma c_mod_nonneg: "0 \<le> a \<Longrightarrow> 0 < b \<Longrightarrow> c_mod a b = a mod b"
  by (simp add: c_mod_def c_div_nonneg minus_mult_div_eq_mod)

lemma c_div_neg: "a < 0 \<Longrightarrow> 0 < b \<Longrightarrow> c_div a b = - ((- a) div b)"
  by (simp add: c_div_def)

lemma c_mod_neg_bounds:
  assumes "a < 0" "0 < b"
  shows "- b < c_mod a b" "c_mod a b \<le> 0"
proof -
  have "c_mod a b = - ((- a) mod b)"
    using assms by (simp add: c_mod_def c_div_neg) (simp add: minus_div_mult_eq_mod [symmetric] algebra_simps)
  with assms show "- b < c_mod a b" "c_mod a b \<le> 0"
    by (simp_all add: pos_mod_bound)
qed

text \<open>The value of an expression of type \<open>int32_t\<close>; a signed overflow is undefined behaviour.\<close>

definition int32_of :: "int \<Rightarrow> int option" where
  "int32_of x = (if - (2 ^ 31) \<le> x \<and> x < 2 ^ 31 then Some x else None)"

lemma int32_of_ok [cmem_simps]: "- (2 ^ 31) \<le> x \<Longrightarrow> x < 2 ^ 31 \<Longrightarrow> int32_of x = Some x"
  by (simp add: int32_of_def)

lemma sint_i32_bounds: "- (2 ^ 31) \<le> sint (w :: i32)" "sint (w :: i32) < 2 ^ 31"
  using sint_greater_eq [of w] sint_less [of w] by simp_all

lemma sint_i32_of_int: "- (2 ^ 31) \<le> x \<Longrightarrow> x < 2 ^ 31 \<Longrightarrow> sint (word_of_int x :: i32) = x"
  by (simp add: signed_of_int signed_take_bit_int_eq_self)

text \<open>A flag test \<open>BIT(w, m) != 0\<close> of \<open>bit.h\<close>.\<close>

definition has_bit :: "i32 \<Rightarrow> i32 \<Rightarrow> bool" where
  "has_bit w m \<longleftrightarrow> w AND m \<noteq> 0"

lemma has_bit_or: "has_bit w (m OR n) \<longleftrightarrow> has_bit w m \<or> has_bit w n"
  by (simp add: has_bit_def bit.conj_disj_distrib or_eq_0_iff)

text \<open>Constants that the connections and the players share (\<open>serverconst.h\<close>, \<open>netserver.h\<close>).\<close>

definition MAX_PAUSED_PLAYERS :: int where "MAX_PAUSED_PLAYERS = 8"
definition PL_SEND_GENERAL :: i32 where "PL_SEND_GENERAL = 2"
definition PL_SEND_SCORE :: i32 where "PL_SEND_SCORE = 4"
definition PL_SEND_BASE :: i32 where "PL_SEND_BASE = 8"

subsection \<open>Options and lists\<close>

lemma bind_SomeE:
  assumes "m \<bind> f = Some y"
  obtains x where "m = Some x" "f x = Some y"
  using assms by (cases m) auto

lemma take_append_drop_eq:
  "take n xs = take n ys \<Longrightarrow> m \<le> n \<Longrightarrow> take m xs = take m ys"
  by (metis min.absorb1 take_take)

lemma nth_take_drop: "i < n \<Longrightarrow> k + i < length xs \<Longrightarrow> take n (drop k xs) ! i = xs ! (k + i)"
  by simp

end
