(* ===== verification/Linked_List.thy ===== *)
theory Linked_List
  imports XP_Prelude
begin

text \<open>
  The doubly linked lists of \<open>common/list.c\<close>, as a program over a heap of nodes.

  An address is a number; a pointer is an optional address (\<open>None\<close> is NULL). A \<open>TList\<close> is the
  address of its header: the header starts with the sentinel node \<open>Tail\<close>, so \<open>&list->Tail\<close> is
  the same address in the node heap, and its \<open>Size\<close> field is kept in \<open>sizes\<close>. Data blocks are
  byte lists in a heap of their own. The allocator hands out the fresh address \<open>brk\<close> or fails, as
  the script \<open>mallocs\<close> says (an exhausted script succeeds). \<open>None\<close> as a result is undefined
  behaviour, or a loop that does not return. The \<open>ASSERT\<close> macro is empty in the shipped
  configuration and is not modelled.
\<close>

subsection \<open>Heap\<close>

record lnode =
  Next :: "nat option"
  Prev :: "nat option"
  Data :: "nat option"

record lheap =
  nodes :: "nat \<rightharpoonup> lnode"
  sizes :: "nat \<rightharpoonup> int"
  blocks :: "nat \<rightharpoonup> byte list"
  brk :: nat
  mallocs :: "bool list"
  NumLists :: int
  NumNodes :: int

definition malloc_addr :: "lheap \<Rightarrow> nat option \<times> lheap" where
  "malloc_addr h =
     (case mallocs h of
        False # r \<Rightarrow> (None, h\<lparr>mallocs := r\<rparr>)
      | _ \<Rightarrow> (Some (brk h), h\<lparr>mallocs := tl (mallocs h), brk := Suc (brk h)\<rparr>))"

definition load :: "nat option \<Rightarrow> lheap \<Rightarrow> lnode option" where
  "load p h = do { a \<leftarrow> p; nodes h a }"

definition set_next :: "nat option \<Rightarrow> nat option \<Rightarrow> lheap \<Rightarrow> lheap option" where
  "set_next p v h = do { a \<leftarrow> p; n \<leftarrow> nodes h a; Some (h\<lparr>nodes := (nodes h)(a \<mapsto> n\<lparr>Next := v\<rparr>)\<rparr>) }"

definition set_prev :: "nat option \<Rightarrow> nat option \<Rightarrow> lheap \<Rightarrow> lheap option" where
  "set_prev p v h = do { a \<leftarrow> p; n \<leftarrow> nodes h a; Some (h\<lparr>nodes := (nodes h)(a \<mapsto> n\<lparr>Prev := v\<rparr>)\<rparr>) }"

definition add_size :: "nat \<Rightarrow> int \<Rightarrow> lheap \<Rightarrow> lheap option" where
  "add_size l k h = do { z \<leftarrow> sizes h l; Some (h\<lparr>sizes := (sizes h)(l \<mapsto> z + k)\<rparr>) }"

text \<open>\<open>free\<close> of a data block; freeing NULL does nothing, freeing twice is undefined.\<close>

definition free_block :: "nat option \<Rightarrow> lheap \<Rightarrow> lheap option" where
  "free_block p h =
     (case p of None \<Rightarrow> Some h
      | Some d \<Rightarrow> (if blocks h d = None then None else Some (h\<lparr>blocks := (blocks h)(d := None)\<rparr>)))"

subsection \<open>Operations\<close>

definition LIST_New :: "lheap \<Rightarrow> nat option \<times> lheap" where
  "LIST_New h =
     (case malloc_addr h of
        (None, h1) \<Rightarrow> (None, h1)
      | (Some l, h1) \<Rightarrow>
          (Some l, h1\<lparr>NumLists := NumLists h1 + 1,
                     nodes := (nodes h1)(l \<mapsto> \<lparr>Next = Some l, Prev = Some l, Data = None\<rparr>),
                     sizes := (sizes h1)(l \<mapsto> 0)\<rparr>))"

definition LIST_GetFirstItem :: "nat \<Rightarrow> lheap \<Rightarrow> nat option option" where
  "LIST_GetFirstItem l h = map_option Next (nodes h l)"

definition LIST_GetLastItem :: "nat \<Rightarrow> nat" where
  "LIST_GetLastItem l = l"

definition LIST_GetLastData :: "nat \<Rightarrow> lheap \<Rightarrow> nat option option" where
  "LIST_GetLastData l h = do { t \<leftarrow> nodes h l; n \<leftarrow> load (Prev t) h; Some (Data n) }"

definition LIST_GetFirstData :: "nat \<Rightarrow> lheap \<Rightarrow> nat option option" where
  "LIST_GetFirstData l h = do { t \<leftarrow> nodes h l; n \<leftarrow> load (Next t) h; Some (Data n) }"

definition LIST_IsEmpty :: "nat \<Rightarrow> lheap \<Rightarrow> bool option" where
  "LIST_IsEmpty l h = map_option (\<lambda>z. z = 0) (sizes h l)"

definition LIST_GetItemCount :: "nat \<Rightarrow> lheap \<Rightarrow> int option" where
  "LIST_GetItemCount l h = sizes h l"

definition LIST_ForwardIter :: "nat \<Rightarrow> lheap \<Rightarrow> nat option option" where
  "LIST_ForwardIter pos h = map_option Next (nodes h pos)"

definition LIST_BackIter :: "nat \<Rightarrow> lheap \<Rightarrow> nat option option" where
  "LIST_BackIter pos h = map_option Prev (nodes h pos)"

definition LIST_GetItemData :: "nat \<Rightarrow> lheap \<Rightarrow> nat option option" where
  "LIST_GetItemData pos h = map_option Data (nodes h pos)"

definition LIST_RemoveItem :: "nat \<Rightarrow> nat \<Rightarrow> lheap \<Rightarrow> (nat \<times> lheap) option" where
  "LIST_RemoveItem l pos h =
     (if pos = l then Some (LIST_GetLastItem l, h)
      else do {
        n \<leftarrow> nodes h pos;
        h1 \<leftarrow> set_next (Prev n) (Next n) h;
        h2 \<leftarrow> set_prev (Next n) (Prev n) h1;
        h3 \<leftarrow> add_size l (-1) h2;
        nxt \<leftarrow> Next n;
        Some (nxt, h3\<lparr>nodes := (nodes h3)(pos := None), NumNodes := NumNodes h3 - 1\<rparr>) })"

definition LIST_RemoveFirstItem :: "nat \<Rightarrow> lheap \<Rightarrow> (nat option \<times> lheap) option" where
  "LIST_RemoveFirstItem l h =
     do { t \<leftarrow> nodes h l;
          n \<leftarrow> load (Next t) h;
          pos \<leftarrow> Next t;
          (_, h1) \<leftarrow> LIST_RemoveItem l pos h;
          Some (Data n, h1) }"

definition LIST_RemoveLastItem :: "nat \<Rightarrow> lheap \<Rightarrow> (nat option \<times> lheap) option" where
  "LIST_RemoveLastItem l h =
     do { t \<leftarrow> nodes h l;
          n \<leftarrow> load (Prev t) h;
          pos \<leftarrow> Prev t;
          (_, h1) \<leftarrow> LIST_RemoveItem l pos h;
          Some (Data n, h1) }"

partial_function (option) LIST_Clear :: "nat \<Rightarrow> lheap \<Rightarrow> lheap option" where
  "LIST_Clear l h =
     do { e \<leftarrow> LIST_IsEmpty l h;
          if e then Some h
          else do { (d, h1) \<leftarrow> LIST_RemoveFirstItem l h;
                    h2 \<leftarrow> free_block d h1;
                    LIST_Clear l h2 } }"

definition free_header :: "nat \<Rightarrow> lheap \<Rightarrow> lheap" where
  "free_header l h =
     h\<lparr>nodes := (nodes h)(l := None), sizes := (sizes h)(l := None), NumLists := NumLists h - 1\<rparr>"

definition LIST_Delete :: "nat \<Rightarrow> lheap \<Rightarrow> lheap option" where
  "LIST_Delete l h = do { h1 \<leftarrow> LIST_Clear l h; _ \<leftarrow> nodes h1 l; Some (free_header l h1) }"

definition LIST_DeleteNodesOnly :: "nat \<Rightarrow> lheap \<Rightarrow> lheap option" where
  "LIST_DeleteNodesOnly l h = do { _ \<leftarrow> nodes h l; Some (free_header l h) }"

text \<open>After each removal the code frees the data of the item the iterator now points to.\<close>

partial_function (option) LIST_RemoveItemRange ::
  "nat \<Rightarrow> nat \<Rightarrow> nat \<Rightarrow> lheap \<Rightarrow> (nat \<times> lheap) option" where
  "LIST_RemoveItemRange l frm til h =
     (if frm = til then Some (frm, h)
      else do { (nxt, h1) \<leftarrow> LIST_RemoveItem l frm h;
                n \<leftarrow> nodes h1 nxt;
                h2 \<leftarrow> free_block (Data n) h1;
                LIST_RemoveItemRange l nxt til h2 })"

definition LIST_AddItem ::
  "nat \<Rightarrow> nat option \<Rightarrow> nat option \<Rightarrow> lheap \<Rightarrow> (nat option \<times> lheap) option" where
  "LIST_AddItem l pos data h =
     (case malloc_addr h of
        (None, h1) \<Rightarrow> Some (None, h1)
      | (Some a, h1) \<Rightarrow> do {
          p \<leftarrow> load pos h1;
          h2 \<leftarrow> Some (h1\<lparr>nodes := (nodes h1)(a \<mapsto> \<lparr>Next = pos, Prev = Prev p, Data = data\<rparr>)\<rparr>);
          h3 \<leftarrow> set_next (Prev p) (Some a) h2;
          h4 \<leftarrow> set_prev pos (Some a) h3;
          h5 \<leftarrow> add_size l 1 h4;
          Some (Some a, h5\<lparr>NumNodes := NumNodes h5 + 1\<rparr>) })"

definition LIST_AddItemTop :: "nat \<Rightarrow> nat option \<Rightarrow> lheap \<Rightarrow> (nat option \<times> lheap) option" where
  "LIST_AddItemTop l data h = do { t \<leftarrow> nodes h l; LIST_AddItem l (Next t) data h }"

definition LIST_AddItemBottom :: "nat \<Rightarrow> nat option \<Rightarrow> lheap \<Rightarrow> (nat option \<times> lheap) option" where
  "LIST_AddItemBottom l data h = LIST_AddItem l (Some l) data h"

definition LIST_MoveItemTop :: "nat \<Rightarrow> nat \<Rightarrow> lheap \<Rightarrow> lheap option" where
  "LIST_MoveItemTop l it h =
     do { t \<leftarrow> nodes h l;
          n \<leftarrow> nodes h it;
          if Prev n = Some l then Some h
          else do { h1 \<leftarrow> set_next (Prev n) (Next n) h;
                    h2 \<leftarrow> set_prev (Next n) (Prev n) h1;
                    h3 \<leftarrow> set_next (Some it) (Next t) h2;
                    h4 \<leftarrow> set_prev (Next t) (Some it) h3;
                    h5 \<leftarrow> set_prev (Some it) (Some l) h4;
                    set_next (Some l) (Some it) h5 } }"

definition LIST_MoveItemBottom :: "nat \<Rightarrow> nat \<Rightarrow> lheap \<Rightarrow> lheap option" where
  "LIST_MoveItemBottom l it h =
     do { n \<leftarrow> nodes h it;
          if Next n = Some l then Some h
          else do { h1 \<leftarrow> set_next (Prev n) (Next n) h;
                    h2 \<leftarrow> set_prev (Next n) (Prev n) h1;
                    h3 \<leftarrow> set_next (Some it) (Some l) h2;
                    t \<leftarrow> nodes h3 l;
                    h4 \<leftarrow> set_prev (Some it) (Prev t) h3;
                    h5 \<leftarrow> set_prev (Some l) (Some it) h4;
                    set_next (Prev t) (Some it) h5 } }"

definition LIST_SetIterFirst :: "nat \<Rightarrow> nat \<Rightarrow> lheap \<Rightarrow> lheap option" where
  "LIST_SetIterFirst l it h =
     do { t \<leftarrow> nodes h l;
          let old_top = Next t;
          top \<leftarrow> load old_top h;
          let tmp = Next top;
          n \<leftarrow> nodes h it;
          h1 \<leftarrow> set_next old_top (Next n) h;
          n1 \<leftarrow> nodes h1 it;
          h2 \<leftarrow> set_prev old_top (Prev n1) h1;
          h3 \<leftarrow> set_next (Some l) (Some it) h2;
          h4 \<leftarrow> set_prev (Some it) (Some l) h3;
          set_next (Some it) tmp h4 }"

text \<open>\<open>bcmp(pos->Data + offset, data, size) != 0\<close>; \<open>data\<close> holds the \<open>size\<close> bytes compared.\<close>

definition block_differs :: "nat option \<Rightarrow> int \<Rightarrow> byte list \<Rightarrow> lheap \<Rightarrow> bool option" where
  "block_differs p off data h =
     do { a \<leftarrow> p; b \<leftarrow> blocks h a; c \<leftarrow> buf_get off (int (length data)) b; Some (c \<noteq> data) }"

partial_function (option) find_loop ::
  "nat option \<Rightarrow> nat option \<Rightarrow> bool \<Rightarrow> byte list \<Rightarrow> int \<Rightarrow> lheap \<Rightarrow> (nat option \<times> bool) option" where
  "find_loop pos til not_found data off h =
     (if pos \<noteq> til \<and> not_found then
        do { n \<leftarrow> load pos h;
             nf \<leftarrow> block_differs (Data n) off data h;
             find_loop (Next n) til nf data off h }
      else Some (pos, not_found))"

definition LIST_FindItemRange ::
  "nat option \<Rightarrow> nat option \<Rightarrow> byte list \<Rightarrow> int \<Rightarrow> lheap \<Rightarrow> nat option option" where
  "LIST_FindItemRange frm til data off h =
     do { (pos, not_found) \<leftarrow> find_loop frm til True data off h;
          if not_found then Some None else do { n \<leftarrow> load pos h; Some (Prev n) } }"

definition LIST_FindItem :: "nat \<Rightarrow> byte list \<Rightarrow> int \<Rightarrow> lheap \<Rightarrow> nat option option" where
  "LIST_FindItem l data off h =
     do { f \<leftarrow> LIST_GetFirstItem l h;
          LIST_FindItemRange f (Some (LIST_GetLastItem l)) data off h }"

partial_function (option) copy_out ::
  "nat option \<Rightarrow> nat \<Rightarrow> byte list \<Rightarrow> int \<Rightarrow> int \<Rightarrow> lheap \<Rightarrow> byte list option" where
  "copy_out p bottom buf pos item_size h =
     (if p = Some bottom then Some buf
      else do { n \<leftarrow> load p h;
                d \<leftarrow> Data n;
                b \<leftarrow> blocks h d;
                c \<leftarrow> buf_get 0 item_size b;
                buf' \<leftarrow> buf_put pos c buf;
                copy_out (Next n) bottom buf' (pos + item_size) item_size h })"

definition LIST_GetItemsToBuffer ::
  "nat \<Rightarrow> byte list \<Rightarrow> int \<Rightarrow> lheap \<Rightarrow> byte list option" where
  "LIST_GetItemsToBuffer l buf item_size h =
     do { t \<leftarrow> nodes h l; copy_out (Next t) l buf 0 item_size h }"

text \<open>The new block is filled from the buffer; its allocation is not checked.\<close>

definition add_one_from_buffer :: "nat \<Rightarrow> byte list \<Rightarrow> lheap \<Rightarrow> lheap option" where
  "add_one_from_buffer l item h =
     (case malloc_addr h of
        (None, _) \<Rightarrow> None
      | (Some d, h1) \<Rightarrow>
          map_option snd (LIST_AddItemBottom l (Some d) (h1\<lparr>blocks := (blocks h1)(d \<mapsto> item)\<rparr>)))"

fun LIST_AddItemsFromBuffer :: "nat \<Rightarrow> byte list \<Rightarrow> int \<Rightarrow> int \<Rightarrow> nat \<Rightarrow> lheap \<Rightarrow> lheap option" where
  "LIST_AddItemsFromBuffer l buf pos item_size 0 h = Some h"
| "LIST_AddItemsFromBuffer l buf pos item_size (Suc k) h =
     do { item \<leftarrow> buf_get pos item_size buf;
          h1 \<leftarrow> add_one_from_buffer l item h;
          LIST_AddItemsFromBuffer l buf (pos + item_size) item_size k h1 }"

subsection \<open>Chains\<close>

text \<open>A chain is a path through one of the two link fields; a list is a forward chain and a
  backward chain through the sentinel over the same distinct nodes.\<close>

definition nextf :: "lheap \<Rightarrow> nat \<Rightarrow> nat option" where
  "nextf h a = (case nodes h a of None \<Rightarrow> None | Some n \<Rightarrow> Next n)"

definition prevf :: "lheap \<Rightarrow> nat \<Rightarrow> nat option" where
  "prevf h a = (case nodes h a of None \<Rightarrow> None | Some n \<Rightarrow> Prev n)"

definition dataf :: "lheap \<Rightarrow> nat \<Rightarrow> nat option" where
  "dataf h a = (case nodes h a of None \<Rightarrow> None | Some n \<Rightarrow> Data n)"

fun chain :: "(nat \<Rightarrow> nat option) \<Rightarrow> nat list \<Rightarrow> bool" where
  "chain f (a # b # r) \<longleftrightarrow> f a = Some b \<and> chain f (b # r)"
| "chain f _ \<longleftrightarrow> True"

lemma chain_append: "chain f (xs @ a # ys) \<longleftrightarrow> chain f (xs @ [a]) \<and> chain f (a # ys)"
proof (induction xs)
  case Nil
  then show ?case by simp
next
  case (Cons x xs)
  then show ?case by (cases xs) auto
qed

lemma chain_upd: "a \<notin> set (butlast ps) \<Longrightarrow> chain (f(a := v)) ps = chain f ps"
  by (induction f ps rule: chain.induct) auto

lemma chain_upd_outside: "a \<notin> set ps \<Longrightarrow> chain (f(a := v)) ps = chain f ps"
  by (meson chain_upd in_set_butlastD)

lemma chain_insert:
  assumes "chain f (l # as @ bs @ [l])" "distinct (l # as @ bs)" "n \<notin> set (l # as @ bs)"
  shows "chain (f(n := Some (hd (bs @ [l])), last (l # as) := Some n)) (l # as @ n # bs @ [l])"
proof -
  obtain us p where us: "l # as = us @ [p]" by (metis append_butlast_last_id list.distinct(1))
  have split: "l # as @ xs = us @ p # xs" for xs
  proof -
    have "l # as @ xs = (l # as) @ xs" by simp
    then show ?thesis unfolding us by simp
  qed
  have last: "last (l # as) = p" unfolding us by simp
  have p: "p \<notin> set us" "p \<notin> set bs" "n \<noteq> p" "n \<notin> set us" "n \<notin> set bs"
    using assms(2,3) unfolding split by auto
  define f' where "f' = f(n := Some (hd (bs @ [l])), p := Some n)"
  have c: "chain f (us @ [p])" "chain f (p # bs @ [l])"
    using assms(1) chain_append [of f us p "bs @ [l]"] unfolding split by simp_all
  have "chain f' (us @ [p])"
    unfolding f'_def using c(1) p by (simp add: chain_upd)
  moreover have "chain f' (p # n # bs @ [l])"
  proof -
    have "chain f' (bs @ [l]) = chain f (bs @ [l])"
      unfolding f'_def using p by (simp add: chain_upd)
    moreover have "chain f (bs @ [l])" using c(2) by (cases bs) auto
    ultimately show ?thesis using p(3) by (cases bs) (auto simp: f'_def)
  qed
  ultimately have "chain f' (us @ p # n # bs @ [l])"
    using chain_append [of f' us p "n # bs @ [l]"] by simp
  then show ?thesis unfolding split last by (simp add: f'_def)
qed

lemma chain_remove:
  assumes "chain f (l # as @ n # bs @ [l])" "distinct (l # as @ n # bs)"
  shows "chain (f(last (l # as) := Some (hd (bs @ [l])))) (l # as @ bs @ [l])"
    "f n = Some (hd (bs @ [l]))" "f (last (l # as)) = Some n"
proof -
  obtain us p where us: "l # as = us @ [p]" by (metis append_butlast_last_id list.distinct(1))
  have split: "l # as @ xs = us @ p # xs" for xs
  proof -
    have "l # as @ xs = (l # as) @ xs" by simp
    then show ?thesis unfolding us by simp
  qed
  have last: "last (l # as) = p" unfolding us by simp
  have p: "p \<notin> set us" "p \<notin> set bs" "n \<noteq> p"
    using assms(2) unfolding split by auto
  have c: "chain f (us @ [p])" "chain f (p # n # bs @ [l])"
    using assms(1) chain_append [of f us p "n # bs @ [l]"] unfolding split by simp_all
  show "f n = Some (hd (bs @ [l]))" "f (last (l # as)) = Some n"
    using c(2) unfolding last by (cases bs; simp)+
  define f' where "f' = f(p := Some (hd (bs @ [l])))"
  have "chain f' (us @ [p])"
    unfolding f'_def using c(1) p by (simp add: chain_upd)
  moreover have "chain f' (p # bs @ [l])"
  proof -
    have "chain f' (bs @ [l]) = chain f (bs @ [l])"
      unfolding f'_def using p by (simp add: chain_upd)
    moreover have "chain f (bs @ [l])" using c(2) by (cases bs) auto
    ultimately show ?thesis by (cases bs) (auto simp: f'_def)
  qed
  ultimately have "chain f' (us @ p # bs @ [l])"
    using chain_append [of f' us p "bs @ [l]"] by simp
  then show "chain (f(last (l # as) := Some (hd (bs @ [l])))) (l # as @ bs @ [l])"
    unfolding split last by (simp add: f'_def)
qed

subsection \<open>Heaps that hold a list\<close>

definition dll :: "lheap \<Rightarrow> nat \<Rightarrow> nat list \<Rightarrow> bool" where
  "dll h l xs \<longleftrightarrow>
     distinct (l # xs) \<and> set (l # xs) \<subseteq> dom (nodes h) \<and>
     chain (nextf h) (l # xs @ [l]) \<and> chain (prevf h) (l # rev xs @ [l]) \<and>
     sizes h l = Some (int (length xs))"

text \<open>Every allocated address lies below the allocator's next fresh one.\<close>

definition fresh_above :: "lheap \<Rightarrow> bool" where
  "fresh_above h \<longleftrightarrow> (\<forall>a \<in> dom (nodes h) \<union> dom (blocks h) \<union> dom (sizes h). a < brk h)"

lemma hd_rev_last: "hd (rev xs @ [l]) = last (l # xs)"
  by (cases xs rule: rev_cases) auto

lemma last_rev_hd: "last (l # rev xs) = hd (xs @ [l])"
  by (cases xs) auto

lemma set_next_ok:
  assumes "a \<in> dom (nodes h)"
  obtains h' where "set_next (Some a) v h = Some h'" "nextf h' = (nextf h)(a := v)"
    "prevf h' = prevf h" "dataf h' = dataf h" "dom (nodes h') = dom (nodes h)"
    "\<And>x. x \<noteq> a \<Longrightarrow> nodes h' x = nodes h x"
    "sizes h' = sizes h" "blocks h' = blocks h" "brk h' = brk h" "mallocs h' = mallocs h"
    "NumLists h' = NumLists h" "NumNodes h' = NumNodes h"
proof -
  from assms obtain n where n: "nodes h a = Some n" by auto
  show ?thesis
    by (rule that [of "h\<lparr>nodes := (nodes h)(a \<mapsto> n\<lparr>Next := v\<rparr>)\<rparr>"])
       (auto simp: set_next_def n nextf_def prevf_def dataf_def fun_eq_iff)
qed

lemma set_prev_ok:
  assumes "a \<in> dom (nodes h)"
  obtains h' where "set_prev (Some a) v h = Some h'" "prevf h' = (prevf h)(a := v)"
    "nextf h' = nextf h" "dataf h' = dataf h" "dom (nodes h') = dom (nodes h)"
    "\<And>x. x \<noteq> a \<Longrightarrow> nodes h' x = nodes h x"
    "sizes h' = sizes h" "blocks h' = blocks h" "brk h' = brk h" "mallocs h' = mallocs h"
    "NumLists h' = NumLists h" "NumNodes h' = NumNodes h"
proof -
  from assms obtain n where n: "nodes h a = Some n" by auto
  show ?thesis
    by (rule that [of "h\<lparr>nodes := (nodes h)(a \<mapsto> n\<lparr>Prev := v\<rparr>)\<rparr>"])
       (auto simp: set_prev_def n nextf_def prevf_def dataf_def fun_eq_iff)
qed

lemma dll_node:
  assumes "dll h l (as @ n # bs)"
  obtains nd where "nodes h n = Some nd" "Next nd = Some (hd (bs @ [l]))"
    "Prev nd = Some (last (l # as))"
proof -
  from assms have d: "distinct (l # as @ n # bs)" "chain (nextf h) (l # as @ n # bs @ [l])"
    "chain (prevf h) (l # rev bs @ n # rev as @ [l])" "n \<in> dom (nodes h)"
    by (auto simp: dll_def)
  have d': "distinct (l # rev bs @ n # rev as)" using d(1) by auto
  from d(4) obtain nd where "nodes h n = Some nd" by auto
  with chain_remove(2) [OF d(2,1)] chain_remove(2) [OF d(3) d'] show ?thesis
    by (intro that [of nd]) (simp_all add: nextf_def prevf_def hd_rev_last del: last.simps)
qed

lemma dll_ends_in_dom:
  assumes "dll h l (as @ bs)"
  shows "last (l # as) \<in> dom (nodes h)" "hd (bs @ [l]) \<in> dom (nodes h)"
proof -
  have "last (l # as) \<in> set (l # as)" by (rule last_in_set) simp
  moreover have "hd (bs @ [l]) \<in> set (bs @ [l])" by (rule hd_in_set) simp
  ultimately show "last (l # as) \<in> dom (nodes h)" "hd (bs @ [l]) \<in> dom (nodes h)"
    using assms unfolding dll_def by (auto simp del: last.simps)
qed

text \<open>
  Removing a node: the list without it, its address free, everything outside the node and its
  neighbours untouched.
\<close>

lemma LIST_RemoveItem_ok:
  assumes "dll h l (as @ n # bs)"
  obtains h' where "LIST_RemoveItem l n h = Some (hd (bs @ [l]), h')" "dll h' l (as @ bs)"
    "nodes h' n = None" "dataf h' = (dataf h)(n := None)" "blocks h' = blocks h"
    "\<And>x. x \<notin> {n, last (l # as), hd (bs @ [l])} \<Longrightarrow> nodes h' x = nodes h x"
    "\<And>x. x \<noteq> l \<Longrightarrow> sizes h' x = sizes h x"
    "brk h' = brk h" "mallocs h' = mallocs h" "NumNodes h' = NumNodes h - 1"
    "NumLists h' = NumLists h" "dom (nodes h') = dom (nodes h) - {n}" "dom (sizes h') = dom (sizes h)"
proof -
  define p q where "p = last (l # as)" and "q = hd (bs @ [l])"
  from assms have d: "distinct (l # as @ n # bs)" "chain (nextf h) (l # as @ n # bs @ [l])"
    "chain (prevf h) (l # rev bs @ n # rev as @ [l])" "set (l # as @ n # bs) \<subseteq> dom (nodes h)"
    "sizes h l = Some (int (length (as @ n # bs)))"
    by (auto simp: dll_def)
  have d': "distinct (l # rev bs @ n # rev as)" using d(1) by auto
  from dll_node [OF assms] obtain nd where nd: "nodes h n = Some nd" "Next nd = Some q"
    "Prev nd = Some p" unfolding p_def q_def by blast
  have pq: "p \<in> dom (nodes h)" "q \<in> dom (nodes h)"
    using dll_ends_in_dom(1) [of h l as "n # bs"] dll_ends_in_dom(2) [of h l "as @ [n]" bs] assms
    unfolding p_def q_def by simp_all
  have "p \<in> set (l # as)" "q \<in> set (bs @ [l])"
    unfolding p_def q_def by (rule last_in_set, simp, rule hd_in_set, simp)
  then have ne: "p \<noteq> n" "q \<noteq> n" using d(1) by auto
  from set_next_ok [OF pq(1), of "Some q"] obtain h1 where
    h1: "set_next (Some p) (Some q) h = Some h1" "nextf h1 = (nextf h)(p := Some q)"
      "prevf h1 = prevf h" "dataf h1 = dataf h" "dom (nodes h1) = dom (nodes h)"
      "\<And>x. x \<noteq> p \<Longrightarrow> nodes h1 x = nodes h x"
      "sizes h1 = sizes h" "blocks h1 = blocks h" "brk h1 = brk h" "mallocs h1 = mallocs h"
      "NumLists h1 = NumLists h" "NumNodes h1 = NumNodes h" by blast
  from pq(2) h1(5) have "q \<in> dom (nodes h1)" by simp
  from set_prev_ok [OF this, of "Some p"] obtain h2 where
    h2: "set_prev (Some q) (Some p) h1 = Some h2" "prevf h2 = (prevf h1)(q := Some p)"
      "nextf h2 = nextf h1" "dataf h2 = dataf h1" "dom (nodes h2) = dom (nodes h1)"
      "\<And>x. x \<noteq> q \<Longrightarrow> nodes h2 x = nodes h1 x"
      "sizes h2 = sizes h1" "blocks h2 = blocks h1" "brk h2 = brk h1" "mallocs h2 = mallocs h1"
      "NumLists h2 = NumLists h1" "NumNodes h2 = NumNodes h1" by blast
  define h' where "h' = h2\<lparr>sizes := (sizes h2)(l \<mapsto> int (length (as @ bs))),
      nodes := (nodes h2)(n := None), NumNodes := NumNodes h2 - 1\<rparr>"
  have fs: "nextf h' = ((nextf h)(p := Some q))(n := None)"
    "prevf h' = ((prevf h)(q := Some p))(n := None)" "dataf h' = (dataf h)(n := None)"
    using h1(2-4) h2(2-4) by (auto simp: h'_def nextf_def prevf_def dataf_def fun_eq_iff)
  have "chain ((nextf h)(p := Some q)) (l # as @ bs @ [l])"
    using chain_remove(1) [OF d(2,1)] unfolding p_def q_def .
  moreover have "chain ((prevf h)(q := Some p)) (l # rev bs @ rev as @ [l])"
    using chain_remove(1) [OF d(3) d'] unfolding p_def q_def by (simp only: last_rev_hd hd_rev_last)
  moreover have "n \<notin> set (l # as @ bs @ [l])" "n \<notin> set (l # rev bs @ rev as @ [l])"
    using d(1) by auto
  ultimately have "chain (nextf h') (l # as @ bs @ [l])" "chain (prevf h') (l # rev bs @ rev as @ [l])"
    unfolding fs by (metis chain_upd_outside)+
  then have dll': "dll h' l (as @ bs)"
    using d h1(5) h2(5) by (auto simp: dll_def h'_def)
  have run: "LIST_RemoveItem l n h = Some (q, h')"
    using d(1,5) nd h1(1,7) h2(1,7) by (simp add: LIST_RemoveItem_def add_size_def h'_def)
  show ?thesis
    by (rule that [of h'])
       (use run dll' fs(3) h1 h2 d(5) in \<open>auto simp: h'_def p_def q_def simp del: last.simps\<close>)
qed

text \<open>Inserting a node before the position \<open>hd (bs @ [l])\<close>, when the allocator succeeds.\<close>

lemma LIST_AddItem_ok:
  assumes "dll h l (as @ bs)" "fresh_above h" "hd (mallocs h @ [True])"
  obtains h' where "LIST_AddItem l (Some (hd (bs @ [l]))) data h = Some (Some (brk h), h')"
    "dll h' l (as @ brk h # bs)" "fresh_above h'" "dataf h' = (dataf h)(brk h := data)"
    "blocks h' = blocks h"
    "\<And>x. x \<notin> {brk h, last (l # as), hd (bs @ [l])} \<Longrightarrow> nodes h' x = nodes h x"
    "\<And>x. x \<noteq> l \<Longrightarrow> sizes h' x = sizes h x"
    "brk h' = Suc (brk h)" "mallocs h' = tl (mallocs h)" "NumNodes h' = NumNodes h + 1"
    "NumLists h' = NumLists h" "dom (nodes h') = insert (brk h) (dom (nodes h))"
proof -
  define a p q where "a = brk h" and "p = last (l # as)" and "q = hd (bs @ [l])"
  from assms(1) have d: "distinct (l # as @ bs)" "chain (nextf h) (l # as @ bs @ [l])"
    "chain (prevf h) (l # rev bs @ rev as @ [l])" "set (l # as @ bs) \<subseteq> dom (nodes h)"
    "sizes h l = Some (int (length (as @ bs)))"
    by (auto simp: dll_def)
  have d': "distinct (l # rev bs @ rev as)" using d(1) by auto
  have fresh: "a \<notin> set (l # as @ bs)" "a \<notin> dom (nodes h)"
    using d(4) assms(2) unfolding fresh_above_def a_def by (auto simp: subset_iff)
  have fresh': "a \<notin> set (l # rev bs @ rev as)" using fresh(1) by auto
  have pq: "p \<in> dom (nodes h)" "q \<in> dom (nodes h)"
    using dll_ends_in_dom [OF assms(1)] unfolding p_def q_def by simp_all
  then have ne: "p \<noteq> a" "q \<noteq> a" using fresh(2) by auto
  obtain qn where qn: "nodes h q = Some qn" using pq(2) by auto
  have prev_q: "Prev qn = Some p"
  proof -
    have "prevf h q = Some p"
    proof (cases bs)
      case Nil
      then show ?thesis using d(3) unfolding p_def q_def
        by (cases as rule: rev_cases) auto
    next
      case (Cons b cs)
      then have "chain (prevf h) ((l # rev cs) @ b # rev as @ [l])" using d(3) by simp
      then have "chain (prevf h) (b # rev as @ [l])"
        using chain_append [of "prevf h" "l # rev cs" b "rev as @ [l]"] by simp
      then show ?thesis using Cons unfolding p_def q_def
        by (cases as rule: rev_cases) auto
    qed
    then show ?thesis using qn by (simp add: prevf_def)
  qed
  define h0 where "h0 = h\<lparr>mallocs := tl (mallocs h), brk := Suc (brk h)\<rparr>"
  have alloc: "malloc_addr h = (Some a, h0)"
    using assms(3) unfolding malloc_addr_def h0_def a_def
    by (cases "mallocs h") (auto split: bool.splits)
  define h2 where "h2 = h0\<lparr>nodes := (nodes h0)(a \<mapsto> \<lparr>Next = Some q, Prev = Some p, Data = data\<rparr>)\<rparr>"
  have f2: "nextf h2 = (nextf h)(a := Some q)" "prevf h2 = (prevf h)(a := Some p)"
    "dataf h2 = (dataf h)(a := data)" "dom (nodes h2) = insert a (dom (nodes h))"
    "\<And>x. x \<noteq> a \<Longrightarrow> nodes h2 x = nodes h x"
    by (auto simp: h2_def h0_def nextf_def prevf_def dataf_def fun_eq_iff)
  have "p \<in> dom (nodes h2)" using pq(1) f2(4) by simp
  from set_next_ok [OF this, of "Some a"] obtain h3 where
    h3: "set_next (Some p) (Some a) h2 = Some h3" "nextf h3 = (nextf h2)(p := Some a)"
      "prevf h3 = prevf h2" "dataf h3 = dataf h2" "dom (nodes h3) = dom (nodes h2)"
      "\<And>x. x \<noteq> p \<Longrightarrow> nodes h3 x = nodes h2 x"
      "sizes h3 = sizes h2" "blocks h3 = blocks h2" "brk h3 = brk h2" "mallocs h3 = mallocs h2"
      "NumLists h3 = NumLists h2" "NumNodes h3 = NumNodes h2" by blast
  have "q \<in> dom (nodes h3)" using pq(2) f2(4) h3(5) by simp
  from set_prev_ok [OF this, of "Some a"] obtain h4 where
    h4: "set_prev (Some q) (Some a) h3 = Some h4" "prevf h4 = (prevf h3)(q := Some a)"
      "nextf h4 = nextf h3" "dataf h4 = dataf h3" "dom (nodes h4) = dom (nodes h3)"
      "\<And>x. x \<noteq> q \<Longrightarrow> nodes h4 x = nodes h3 x"
      "sizes h4 = sizes h3" "blocks h4 = blocks h3" "brk h4 = brk h3" "mallocs h4 = mallocs h3"
      "NumLists h4 = NumLists h3" "NumNodes h4 = NumNodes h3" by blast
  define h' where "h' = h4\<lparr>sizes := (sizes h4)(l \<mapsto> int (length (as @ a # bs))),
      NumNodes := NumNodes h4 + 1\<rparr>"
  have fs: "nextf h' = (nextf h)(a := Some q, p := Some a)"
    "prevf h' = (prevf h)(a := Some p, q := Some a)" "dataf h' = (dataf h)(a := data)"
    using h3(2-4) h4(2-4) f2 by (auto simp: h'_def nextf_def prevf_def dataf_def fun_eq_iff)
  have "chain (nextf h') (l # as @ a # bs @ [l])"
    unfolding fs p_def q_def by (rule chain_insert [OF d(2,1) fresh(1)])
  moreover have "chain (prevf h') (l # rev bs @ a # rev as @ [l])"
    using chain_insert [OF d(3) d' fresh'] unfolding fs p_def q_def
    by (simp only: last_rev_hd hd_rev_last)
  ultimately have dll': "dll h' l (as @ a # bs)"
    using d fresh h3(5) h4(5) f2(4) by (auto simp: dll_def h'_def)
  have run: "LIST_AddItem l (Some q) data h = Some (Some a, h')"
    using alloc qn prev_q h3(1,7) h4(1,7) d(5)
    by (simp add: LIST_AddItem_def load_def add_size_def h'_def h2_def h0_def add.commute)
  have dom': "dom (nodes h') = insert a (dom (nodes h))"
    using h3(5) h4(5) f2(4) by (simp add: h'_def)
  have fresh_h': "fresh_above h'"
    using assms(2) dom' h3 h4 d(5) unfolding fresh_above_def
    by (auto simp: h'_def h2_def h0_def a_def less_Suc_eq)
  show ?thesis
    by (rule that [of h'])
       (use run dll' fs(3) fresh_h' dom' h3 h4 f2(5) in
         \<open>auto simp: h'_def h2_def h0_def a_def p_def q_def simp del: last.simps\<close>)
qed

text \<open>Nodes outside the touched ones carry every other list of the heap along.\<close>

lemma chain_cong:
  "(\<And>x. x \<in> set ps \<Longrightarrow> f x = g x) \<Longrightarrow> chain f ps = chain g ps"
  by (induction f ps rule: chain.induct) auto

lemma dll_frame:
  assumes "dll h l2 ys" "\<And>x. x \<in> set (l2 # ys) \<Longrightarrow> nodes h' x = nodes h x"
    "sizes h' l2 = sizes h l2"
  shows "dll h' l2 ys" "map (dataf h') ys = map (dataf h) ys"
proof -
  have "nextf h' x = nextf h x" "prevf h' x = prevf h x" "dataf h' x = dataf h x"
    if "x \<in> set (l2 # ys)" for x
    using assms(2) [OF that] by (simp_all add: nextf_def prevf_def dataf_def)
  moreover from this have "chain (nextf h') (l2 # ys @ [l2]) = chain (nextf h) (l2 # ys @ [l2])"
    "chain (prevf h') (l2 # rev ys @ [l2]) = chain (prevf h) (l2 # rev ys @ [l2])"
    by (auto intro!: chain_cong)
  moreover have "set (l2 # ys) \<subseteq> dom (nodes h')"
  proof
    fix x
    assume "x \<in> set (l2 # ys)"
    then show "x \<in> dom (nodes h')" using assms(1,2) unfolding dll_def by force
  qed
  ultimately show "dll h' l2 ys" "map (dataf h') ys = map (dataf h) ys"
    using assms(1,3) by (auto simp: dll_def)
qed

lemma ends_in_list: "last (l # as) \<in> set (l # as @ bs)" "hd (bs @ [l]) \<in> set (l # as @ bs)"
proof -
  have "last (l # as) \<in> set (l # as)" "hd (bs @ [l]) \<in> set (bs @ [l])"
    by (rule last_in_set, simp, rule hd_in_set, simp)
  then show "last (l # as) \<in> set (l # as @ bs)" "hd (bs @ [l]) \<in> set (l # as @ bs)" by auto
qed

definition others_kept :: "lheap \<Rightarrow> lheap \<Rightarrow> nat set \<Rightarrow> bool" where
  "others_kept h h' used \<longleftrightarrow>
     (\<forall>l2 ys. dll h l2 ys \<longrightarrow> set (l2 # ys) \<inter> used = {} \<longrightarrow>
        dll h' l2 ys \<and> map (dataf h') ys = map (dataf h) ys)"

subsection \<open>Properties of insertion and removal\<close>

text \<open>C35. Inserting into a well-formed list at any of its positions (before any element, or before
  the sentinel for the end), when the allocator succeeds, returns the new position and gives the
  well-formed list with exactly that element added there, data in the same order; every other list
  of the heap is untouched.\<close>

theorem LIST_AddItem_inserts:
  assumes "dll h l (as @ bs)" "fresh_above h" "hd (mallocs h @ [True])"
  shows "\<exists>a h'. LIST_AddItem l (Some (hd (bs @ [l]))) data h = Some (Some a, h') \<and>
     dll h' l (as @ a # bs) \<and> fresh_above h' \<and>
     map (dataf h') (as @ a # bs) = map (dataf h) as @ data # map (dataf h) bs \<and>
     others_kept h h' (set (l # as @ bs))"
proof -
  obtain h' where h': "LIST_AddItem l (Some (hd (bs @ [l]))) data h = Some (Some (brk h), h')"
    "dll h' l (as @ brk h # bs)" "fresh_above h'" "dataf h' = (dataf h)(brk h := data)"
    "\<And>x. x \<notin> {brk h, last (l # as), hd (bs @ [l])} \<Longrightarrow> nodes h' x = nodes h x"
    "\<And>x. x \<noteq> l \<Longrightarrow> sizes h' x = sizes h x"
    using LIST_AddItem_ok [OF assms] by metis
  have "brk h \<notin> set (as @ bs)" using h'(2) by (auto simp: dll_def)
  then have data: "map (dataf h') (as @ brk h # bs) = map (dataf h) as @ data # map (dataf h) bs"
    using h'(4) by simp
  have "others_kept h h' (set (l # as @ bs))"
    unfolding others_kept_def
  proof (intro allI impI)
    fix l2 ys
    assume l2: "dll h l2 ys" and dis: "set (l2 # ys) \<inter> set (l # as @ bs) = {}"
    have "brk h \<notin> dom (nodes h)" using assms(2) by (auto simp: fresh_above_def)
    with l2 have "brk h \<notin> set (l2 # ys)" by (auto simp: dll_def)
    then have "nodes h' x = nodes h x" if "x \<in> set (l2 # ys)" for x
      using that dis ends_in_list [where l = l and as = as and bs = bs]
      by (intro h'(5)) (auto simp del: last.simps)
    moreover have "sizes h' l2 = sizes h l2" using dis by (intro h'(6)) auto
    ultimately show "dll h' l2 ys \<and> map (dataf h') ys = map (dataf h) ys"
      using dll_frame [OF l2, of h'] by blast
  qed
  with h' data show ?thesis by blast
qed

text \<open>Removing any element of a well-formed list returns the position after it and gives the
  well-formed list without it, the other elements and their data in the same order, the node freed
  and counted off; every other list of the heap is untouched.\<close>

theorem LIST_RemoveItem_removes:
  assumes "dll h l (as @ n # bs)"
  shows "\<exists>h'. LIST_RemoveItem l n h = Some (hd (bs @ [l]), h') \<and> dll h' l (as @ bs) \<and>
     nodes h' n = None \<and> NumNodes h' = NumNodes h - 1 \<and>
     map (dataf h') (as @ bs) = map (dataf h) (as @ bs) \<and>
     others_kept h h' (set (l # as @ n # bs))"
proof -
  obtain h' where h': "LIST_RemoveItem l n h = Some (hd (bs @ [l]), h')" "dll h' l (as @ bs)"
    "nodes h' n = None" "dataf h' = (dataf h)(n := None)"
    "\<And>x. x \<notin> {n, last (l # as), hd (bs @ [l])} \<Longrightarrow> nodes h' x = nodes h x"
    "\<And>x. x \<noteq> l \<Longrightarrow> sizes h' x = sizes h x" "NumNodes h' = NumNodes h - 1"
    using LIST_RemoveItem_ok [OF assms] by metis
  have "n \<notin> set (as @ bs)" using assms by (auto simp: dll_def)
  then have data: "map (dataf h') (as @ bs) = map (dataf h) (as @ bs)" using h'(4) by auto
  have "others_kept h h' (set (l # as @ n # bs))"
    unfolding others_kept_def
  proof (intro allI impI)
    fix l2 ys
    assume l2: "dll h l2 ys" and dis: "set (l2 # ys) \<inter> set (l # as @ n # bs) = {}"
    have "nodes h' x = nodes h x" if "x \<in> set (l2 # ys)" for x
      using that dis ends_in_list [where l = l and as = as and bs = bs]
      by (intro h'(5)) (auto simp del: last.simps)
    moreover have "sizes h' l2 = sizes h l2" using dis by (intro h'(6)) auto
    ultimately show "dll h' l2 ys \<and> map (dataf h') ys = map (dataf h) ys"
      using dll_frame [OF l2, of h'] by blast
  qed
  with h' data show ?thesis by blast
qed

text \<open>A list of three elements, for the witnesses.\<close>

definition demo_heap :: lheap where
  "demo_heap = \<lparr>
     nodes = [0 \<mapsto> \<lparr>Next = Some 1, Prev = Some 3, Data = None\<rparr>,
              1 \<mapsto> \<lparr>Next = Some 2, Prev = Some 0, Data = Some 11\<rparr>,
              2 \<mapsto> \<lparr>Next = Some 3, Prev = Some 1, Data = Some 12\<rparr>,
              3 \<mapsto> \<lparr>Next = Some 0, Prev = Some 2, Data = Some 13\<rparr>],
     sizes = [0 \<mapsto> 3],
     blocks = [11 \<mapsto> [1, 2], 12 \<mapsto> [3, 4], 13 \<mapsto> [5, 6]],
     brk = 20, mallocs = [], NumLists = 1, NumNodes = 3\<rparr>"

lemma demo_dll: "dll demo_heap 0 [1, 2, 3]"
  by (auto simp: dll_def demo_heap_def nextf_def prevf_def)

lemma demo_fresh: "fresh_above demo_heap"
  by (auto simp: fresh_above_def demo_heap_def split: if_splits)

theorem LIST_AddItem_inserts_witness:
  "\<exists>a h'. LIST_AddItem 0 (Some (hd ([2, 3] @ [0]))) (Some 12) demo_heap = Some (Some a, h') \<and>
     dll h' 0 ([1] @ a # [2, 3]) \<and> fresh_above h' \<and>
     map (dataf h') ([1] @ a # [2, 3]) =
       map (dataf demo_heap) [1] @ Some 12 # map (dataf demo_heap) [2, 3] \<and>
     others_kept demo_heap h' (set (0 # [1] @ [2, 3]))"
  by (rule LIST_AddItem_inserts) (use demo_dll demo_fresh in \<open>simp_all add: demo_heap_def\<close>)

theorem LIST_RemoveItem_removes_witness:
  "\<exists>h'. LIST_RemoveItem 0 2 demo_heap = Some (hd ([3] @ [0]), h') \<and> dll h' 0 ([1] @ [3]) \<and>
     nodes h' 2 = None \<and> NumNodes h' = NumNodes demo_heap - 1 \<and>
     map (dataf h') ([1] @ [3]) = map (dataf demo_heap) ([1] @ [3]) \<and>
     others_kept demo_heap h' (set (0 # [1] @ 2 # [3]))"
  by (rule LIST_RemoveItem_removes) (use demo_dll in simp)

end
