(* ===== verification/List_Laws.thy ===== *)
theory List_Laws
  imports Linked_List
begin

text \<open>
  What the clients of \<open>common/list.c\<close> rely on, above the node level of \<open>Linked_List\<close>: the list
  seen as the sequence of its data pointers. The interface is a locale, \<open>data_deque\<close>, whose laws the
  list operations are shown to satisfy; clearing, searching and the two buffer transfers are
  characterised on that view.
\<close>

subsection \<open>Operations at the two ends\<close>

lemma dll_ends:
  assumes "dll h l xs"
  obtains t where "nodes h l = Some t" "Next t = Some (hd (xs @ [l]))" "Prev t = Some (last (l # xs))"
proof -
  from assms obtain t where t: "nodes h l = Some t" by (auto simp: dll_def)
  have c: "chain (nextf h) (l # xs @ [l])" "chain (prevf h) (l # rev xs @ [l])"
    using assms by (simp_all add: dll_def)
  have "nextf h l = Some (hd (xs @ [l]))" using c(1) by (cases xs) auto
  moreover have "prevf h l = Some (last (l # xs))"
    using c(2) by (cases xs rule: rev_cases) auto
  ultimately show ?thesis using that t by (simp add: nextf_def prevf_def)
qed

lemma dataf_load: "x \<in> dom (nodes h) \<Longrightarrow> \<exists>n. nodes h x = Some n \<and> Data n = dataf h x"
  by (auto simp: dataf_def)

lemma dll_in_dom: "dll h l xs \<Longrightarrow> x \<in> set xs \<Longrightarrow> x \<in> dom (nodes h)"
  by (auto simp: dll_def)

lemma LIST_RemoveFirstItem_ok:
  assumes "dll h l (x # xs)"
  obtains h' where "LIST_RemoveFirstItem l h = Some (dataf h x, h')" "dll h' l xs"
    "dataf h' = (dataf h)(x := None)" "blocks h' = blocks h" "brk h' = brk h"
    "mallocs h' = mallocs h" "NumNodes h' = NumNodes h - 1" "dom (nodes h') = dom (nodes h) - {x}"
    "dom (sizes h') = dom (sizes h)"
proof -
  obtain t where t: "nodes h l = Some t" "Next t = Some x" using dll_ends [OF assms] by force
  obtain n where n: "nodes h x = Some n" "Data n = dataf h x"
    using dataf_load [OF dll_in_dom [OF assms]] by auto
  show ?thesis
    by (rule LIST_RemoveItem_ok [of h l "[]" x xs])
       (use assms t n that in \<open>auto simp: LIST_RemoveFirstItem_def load_def\<close>)
qed

lemma LIST_RemoveLastItem_ok:
  assumes "dll h l (xs @ [x])"
  obtains h' where "LIST_RemoveLastItem l h = Some (dataf h x, h')" "dll h' l xs"
    "dataf h' = (dataf h)(x := None)" "blocks h' = blocks h" "brk h' = brk h"
    "mallocs h' = mallocs h" "NumNodes h' = NumNodes h - 1" "dom (nodes h') = dom (nodes h) - {x}"
    "dom (sizes h') = dom (sizes h)"
proof -
  obtain t where t: "nodes h l = Some t" "Prev t = Some x" using dll_ends [OF assms] by force
  obtain n where n: "nodes h x = Some n" "Data n = dataf h x"
    using dataf_load [OF dll_in_dom [OF assms]] by auto
  show ?thesis
    by (rule LIST_RemoveItem_ok [of h l xs x "[]"])
       (use assms t n that in \<open>auto simp: LIST_RemoveLastItem_def load_def\<close>)
qed

lemma LIST_RemoveFirstItem_empty:
  assumes "dll h l []"
  shows "LIST_RemoveFirstItem l h = Some (dataf h l, h)" "LIST_RemoveLastItem l h = Some (dataf h l, h)"
proof -
  obtain t where t: "nodes h l = Some t" "Next t = Some l" "Prev t = Some l"
    using dll_ends [OF assms] by force
  then show "LIST_RemoveFirstItem l h = Some (dataf h l, h)" "LIST_RemoveLastItem l h = Some (dataf h l, h)"
    by (simp_all add: LIST_RemoveFirstItem_def LIST_RemoveLastItem_def load_def LIST_RemoveItem_def
        dataf_def)
qed

lemma LIST_IsEmpty_iff: "dll h l xs \<Longrightarrow> LIST_IsEmpty l h = Some (xs = [])"
  by (auto simp: LIST_IsEmpty_def dll_def)

lemma LIST_GetItemCount_eq: "dll h l xs \<Longrightarrow> LIST_GetItemCount l h = Some (int (length xs))"
  by (simp add: LIST_GetItemCount_def dll_def)

subsection \<open>The list as a deque of data pointers\<close>

text \<open>Runs of one operation.\<close>

primrec push_all :: "('d \<Rightarrow> 's \<Rightarrow> 's option) \<Rightarrow> 'd list \<Rightarrow> 's \<Rightarrow> 's option" where
  "push_all f [] s = Some s"
| "push_all f (d # ds) s = f d s \<bind> push_all f ds"

primrec pops :: "('s \<Rightarrow> ('d \<times> 's) option) \<Rightarrow> nat \<Rightarrow> 's \<Rightarrow> ('d list \<times> 's) option" where
  "pops f 0 s = Some ([], s)"
| "pops f (Suc k) s = do { (d, s1) \<leftarrow> f s; (ds, s2) \<leftarrow> pops f k s1; Some (d # ds, s2) }"

text \<open>The interface: what the clients push and pop. A popped empty list yields the sentinel's data,
  NULL.\<close>

locale data_deque =
  fixes holds :: "'s \<Rightarrow> 'd list \<Rightarrow> bool"
    and push_top :: "'d \<Rightarrow> 's \<Rightarrow> 's option"
    and push_bottom :: "'d \<Rightarrow> 's \<Rightarrow> 's option"
    and pop_top :: "'s \<Rightarrow> ('d \<times> 's) option"
    and pop_bottom :: "'s \<Rightarrow> ('d \<times> 's) option"
  assumes push_top_law: "holds s ds \<Longrightarrow> \<exists>s'. push_top d s = Some s' \<and> holds s' (d # ds)"
    and push_bottom_law: "holds s ds \<Longrightarrow> \<exists>s'. push_bottom d s = Some s' \<and> holds s' (ds @ [d])"
    and pop_top_law: "holds s (d # ds) \<Longrightarrow> \<exists>s'. pop_top s = Some (d, s') \<and> holds s' ds"
    and pop_bottom_law: "holds s (ds @ [d]) \<Longrightarrow> \<exists>s'. pop_bottom s = Some (d, s') \<and> holds s' ds"
begin

lemma push_all_holds: "holds s es \<Longrightarrow> \<exists>s'. push_all push_bottom ds s = Some s' \<and> holds s' (es @ ds)"
proof (induction ds arbitrary: s es)
  case Nil
  then show ?case by simp
next
  case (Cons d ds)
  from push_bottom_law [OF Cons.prems, of d] obtain s1 where
    "push_bottom d s = Some s1" "holds s1 (es @ [d])" by blast
  with Cons.IH [OF this(2)] show ?case by simp
qed

lemma pops_top: "holds s (ds @ es) \<Longrightarrow> \<exists>s'. pops pop_top (length ds) s = Some (ds, s') \<and> holds s' es"
proof (induction ds arbitrary: s)
  case Nil
  then show ?case by simp
next
  case (Cons d ds)
  from Cons.prems have "holds s (d # (ds @ es))" by simp
  from pop_top_law [OF this] obtain s1 where
    "pop_top s = Some (d, s1)" "holds s1 (ds @ es)" by blast
  with Cons.IH [OF this(2)] show ?case by force
qed

lemma pops_bottom:
  "holds s (es @ rev ds) \<Longrightarrow> \<exists>s'. pops pop_bottom (length ds) s = Some (ds, s') \<and> holds s' es"
proof (induction ds arbitrary: s)
  case Nil
  then show ?case by simp
next
  case (Cons d ds)
  from Cons.prems have "holds s ((es @ rev ds) @ [d])" by simp
  from pop_bottom_law [OF this] obtain s1 where
    "pop_bottom s = Some (d, s1)" "holds s1 (es @ rev ds)" by blast
  with Cons.IH [OF this(2)] show ?case by force
qed

text \<open>First in, first out; and last in, first out from the other end.\<close>

lemma fifo:
  assumes "holds s []"
  shows "\<exists>s1 s2. push_all push_bottom ds s = Some s1 \<and> pops pop_top (length ds) s1 = Some (ds, s2) \<and> holds s2 []"
proof -
  from push_all_holds [OF assms, of ds] obtain s1 where
    s1: "push_all push_bottom ds s = Some s1" "holds s1 (ds @ [])" by auto
  from pops_top [OF s1(2)] s1(1) show ?thesis by blast
qed

lemma lifo:
  assumes "holds s []"
  shows "\<exists>s1 s2. push_all push_bottom ds s = Some s1 \<and> pops pop_bottom (length ds) s1 = Some (rev ds, s2) \<and> holds s2 []"
proof -
  from push_all_holds [OF assms, of ds] obtain s1 where
    s1: "push_all push_bottom ds s = Some s1" "holds s1 ([] @ rev (rev ds))" by auto
  from pops_bottom [OF s1(2)] s1(1) show ?thesis by auto
qed

end

text \<open>The heap holds, in the list at \<open>l\<close>, these data pointers; the allocator does not fail.\<close>

definition list_holds :: "nat \<Rightarrow> lheap \<Rightarrow> nat option list \<Rightarrow> bool" where
  "list_holds l h ds \<longleftrightarrow>
     (\<exists>xs. dll h l xs \<and> map (dataf h) xs = ds) \<and> fresh_above h \<and> mallocs h = []"

definition list_push_top :: "nat \<Rightarrow> nat option \<Rightarrow> lheap \<Rightarrow> lheap option" where
  "list_push_top l d h = map_option snd (LIST_AddItemTop l d h)"

definition list_push_bottom :: "nat \<Rightarrow> nat option \<Rightarrow> lheap \<Rightarrow> lheap option" where
  "list_push_bottom l d h = map_option snd (LIST_AddItemBottom l d h)"

lemma fresh_above_sub:
  assumes "fresh_above h" "dom (nodes h') \<subseteq> dom (nodes h)" "blocks h' = blocks h"
    "dom (sizes h') = dom (sizes h)" "brk h' = brk h"
  shows "fresh_above h'"
  using assms unfolding fresh_above_def by (metis Un_iff subsetD)

lemma list_add_holds:
  assumes "dll h l (as @ bs)" "fresh_above h" "mallocs h = []"
  shows "\<exists>a h'. LIST_AddItem l (Some (hd (bs @ [l]))) d h = Some (Some a, h') \<and>
    list_holds l h' (map (dataf h) as @ d # map (dataf h) bs)"
proof -
  have m: "hd (mallocs h @ [True])" using assms(3) by simp
  obtain h' where h': "LIST_AddItem l (Some (hd (bs @ [l]))) d h = Some (Some (brk h), h')"
    "dll h' l (as @ brk h # bs)" "fresh_above h'" "dataf h' = (dataf h)(brk h := d)"
    "mallocs h' = tl (mallocs h)"
    using LIST_AddItem_ok [OF assms(1,2) m] by metis
  have "brk h \<notin> set (as @ bs)" using h'(2) by (auto simp: dll_def)
  then have "map (dataf h') (as @ brk h # bs) = map (dataf h) as @ d # map (dataf h) bs"
    using h'(4) by simp
  then show ?thesis using h' assms(3) unfolding list_holds_def by auto
qed

interpretation data_list: data_deque "list_holds l" "list_push_top l" "list_push_bottom l"
  "LIST_RemoveFirstItem l" "LIST_RemoveLastItem l" for l
proof
  fix h ds d
  assume "list_holds l h ds"
  then obtain xs where xs: "dll h l xs" "map (dataf h) xs = ds" "fresh_above h" "mallocs h = []"
    by (auto simp: list_holds_def)
  obtain t where t: "nodes h l = Some t" "Next t = Some (hd (xs @ [l]))"
    using dll_ends [OF xs(1)] by metis
  show "\<exists>h'. list_push_top l d h = Some h' \<and> list_holds l h' (d # ds)"
    using list_add_holds [of h l "[]" xs d] xs t
    by (auto simp: list_push_top_def LIST_AddItemTop_def)
  show "\<exists>h'. list_push_bottom l d h = Some h' \<and> list_holds l h' (ds @ [d])"
    using list_add_holds [of h l xs "[]" d] xs
    by (auto simp: list_push_bottom_def LIST_AddItemBottom_def)
next
  fix h d ds
  assume "list_holds l h (d # ds)"
  then obtain x xs where xs: "dll h l (x # xs)" "dataf h x = d" "map (dataf h) xs = ds"
    "fresh_above h" "mallocs h = []"
    by (auto simp: list_holds_def)
  obtain h' where h': "LIST_RemoveFirstItem l h = Some (dataf h x, h')" "dll h' l xs"
    "dataf h' = (dataf h)(x := None)" "blocks h' = blocks h" "brk h' = brk h"
    "mallocs h' = mallocs h" "dom (nodes h') = dom (nodes h) - {x}" "dom (sizes h') = dom (sizes h)"
    using LIST_RemoveFirstItem_ok [OF xs(1)] by metis
  have "fresh_above h'" using fresh_above_sub [OF xs(4), of h'] h' by auto
  moreover have "map (dataf h') xs = ds" using h'(3) xs(1,3) by (auto simp: dll_def)
  ultimately show "\<exists>h'. LIST_RemoveFirstItem l h = Some (d, h') \<and> list_holds l h' ds"
    using h' xs by (auto simp: list_holds_def)
next
  fix h ds d
  assume "list_holds l h (ds @ [d])"
  then obtain ys where ys: "dll h l ys" "map (dataf h) ys = ds @ [d]"
    "fresh_above h" "mallocs h = []"
    by (auto simp: list_holds_def)
  obtain xs x where yx: "ys = xs @ [x]" "dataf h x = d" "map (dataf h) xs = ds"
    using ys(2) by (cases ys rule: rev_cases) auto
  with ys have xs: "dll h l (xs @ [x])" by simp
  obtain h' where h': "LIST_RemoveLastItem l h = Some (dataf h x, h')" "dll h' l xs"
    "dataf h' = (dataf h)(x := None)" "blocks h' = blocks h" "brk h' = brk h"
    "mallocs h' = mallocs h" "dom (nodes h') = dom (nodes h) - {x}" "dom (sizes h') = dom (sizes h)"
    using LIST_RemoveLastItem_ok [OF xs] by metis
  have "fresh_above h'" using fresh_above_sub [OF ys(3), of h'] h' by auto
  moreover have "map (dataf h') xs = ds" using h'(3) xs yx by (auto simp: dll_def)
  ultimately show "\<exists>h'. LIST_RemoveLastItem l h = Some (d, h') \<and> list_holds l h' ds"
    using h' ys yx by (auto simp: list_holds_def)
qed


text \<open>C24. A list is a queue and a stack: items added at its bottom come off its top in the order
  they went in, and off its bottom in the reverse order, and the list ends empty.\<close>

theorem LIST_queue_and_stack:
  assumes "list_holds l h []"
  shows "\<exists>h1 h2 h3. push_all (\<lambda>d s. map_option snd (LIST_AddItemBottom l d s)) ds h = Some h1 \<and>
     pops (LIST_RemoveFirstItem l) (length ds) h1 = Some (ds, h2) \<and> LIST_IsEmpty l h2 = Some True \<and>
     pops (LIST_RemoveLastItem l) (length ds) h1 = Some (rev ds, h3) \<and> LIST_IsEmpty l h3 = Some True"
proof -
  have push: "list_push_bottom l = (\<lambda>d s. map_option snd (LIST_AddItemBottom l d s))"
    by (simp add: list_push_bottom_def fun_eq_iff)
  have empty: "LIST_IsEmpty l h' = Some True" if "list_holds l h' []" for h'
    using that by (auto simp: list_holds_def LIST_IsEmpty_iff)
  show ?thesis
    using data_list.fifo [OF assms, of ds] data_list.lifo [OF assms, of ds] empty unfolding push by force
qed

definition demo_empty :: lheap where
  "demo_empty = snd (LIST_New \<lparr>nodes = Map.empty, sizes = Map.empty, blocks = Map.empty,
     brk = 0, mallocs = [], NumLists = 0, NumNodes = 0\<rparr>)"

lemma demo_empty_holds: "list_holds 0 demo_empty []"
  by (auto simp: list_holds_def demo_empty_def LIST_New_def malloc_addr_def dll_def nextf_def
      prevf_def fresh_above_def)

theorem LIST_queue_and_stack_witness:
  "\<exists>h1 h2 h3. push_all (\<lambda>d s. map_option snd (LIST_AddItemBottom 0 d s)) [Some 7, Some 8] demo_empty = Some h1 \<and>
     pops (LIST_RemoveFirstItem 0) (length [Some (7 :: nat), Some 8]) h1 = Some ([Some 7, Some 8], h2) \<and>
     LIST_IsEmpty 0 h2 = Some True \<and>
     pops (LIST_RemoveLastItem 0) (length [Some (7 :: nat), Some 8]) h1 = Some (rev [Some 7, Some 8], h3) \<and>
     LIST_IsEmpty 0 h3 = Some True"
  by (rule LIST_queue_and_stack) (rule demo_empty_holds)

subsection \<open>Clearing and deleting\<close>

text \<open>The list owns its data: every item points to a live block and no two to the same one.\<close>

definition owns_data :: "lheap \<Rightarrow> nat list \<Rightarrow> bool" where
  "owns_data h xs \<longleftrightarrow>
     (\<forall>x \<in> set xs. \<exists>d \<in> dom (blocks h). dataf h x = Some d) \<and> distinct (map (dataf h) xs)"

definition data_addrs :: "lheap \<Rightarrow> nat list \<Rightarrow> nat set" where
  "data_addrs h xs = {d. Some d \<in> dataf h ` set xs}"

lemma free_block_ok:
  "blocks h d \<noteq> None \<Longrightarrow> free_block (Some d) h = Some (h\<lparr>blocks := (blocks h)(d := None)\<rparr>)"
  by (auto simp: free_block_def)

lemma dataf_blocks [simp]: "dataf (h\<lparr>blocks := b\<rparr>) = dataf h"
  by (simp add: dataf_def fun_eq_iff)

lemma dll_blocks [simp]: "dll (h\<lparr>blocks := b\<rparr>) l xs = dll h l xs"
proof -
  have "nextf (h\<lparr>blocks := b\<rparr>) = nextf h" "prevf (h\<lparr>blocks := b\<rparr>) = prevf h"
    by (simp_all add: nextf_def prevf_def fun_eq_iff)
  then show ?thesis by (simp add: dll_def)
qed

lemma LIST_Clear_ok:
  assumes "dll h l xs" "owns_data h xs"
  shows "\<exists>h'. LIST_Clear l h = Some h' \<and> dll h' l [] \<and>
    blocks h' = blocks h |` (- data_addrs h xs) \<and> dom (nodes h') = dom (nodes h) - set xs \<and>
    NumNodes h' = NumNodes h - int (length xs)"
  using assms
proof (induction xs arbitrary: h)
  case Nil
  then show ?case
    by (subst LIST_Clear.simps) (simp add: LIST_IsEmpty_iff data_addrs_def restrict_map_def)
next
  case (Cons x xs)
  obtain d where d: "dataf h x = Some d" "blocks h d \<noteq> None"
    using Cons.prems(2) unfolding owns_data_def by auto
  obtain h1 where h1: "LIST_RemoveFirstItem l h = Some (dataf h x, h1)" "dll h1 l xs"
    "dataf h1 = (dataf h)(x := None)" "blocks h1 = blocks h" "NumNodes h1 = NumNodes h - 1"
    "dom (nodes h1) = dom (nodes h) - {x}"
    using LIST_RemoveFirstItem_ok [OF Cons.prems(1)] by metis
  define h2 where "h2 = h1\<lparr>blocks := (blocks h1)(d := None)\<rparr>"
  have x: "x \<notin> set xs" using Cons.prems(1) by (auto simp: dll_def)
  then have same: "dataf h2 y = dataf h y" if "y \<in> set xs" for y
    using that h1(3) unfolding h2_def by auto
  have "dll h2 l xs" using h1(2) by (simp add: h2_def)
  moreover have "owns_data h2 xs"
    unfolding owns_data_def
  proof (intro conjI ballI)
    fix y
    assume y: "y \<in> set xs"
    with Cons.prems(2) obtain e where "e \<in> dom (blocks h)" "dataf h y = Some e"
      unfolding owns_data_def by (metis list.set_intros(2))
    moreover have "dataf h y \<noteq> Some d" using Cons.prems(2) y d(1) unfolding owns_data_def by force
    ultimately show "\<exists>e \<in> dom (blocks h2). dataf h2 y = Some e"
      using same [OF y] h1(4) by (auto simp: h2_def)
  next
    show "distinct (map (dataf h2) xs)"
      using Cons.prems(2) same by (simp add: owns_data_def cong: map_cong)
  qed
  ultimately obtain h' where h': "LIST_Clear l h2 = Some h'" "dll h' l []"
    "blocks h' = blocks h2 |` (- data_addrs h2 xs)" "dom (nodes h') = dom (nodes h2) - set xs"
    "NumNodes h' = NumNodes h2 - int (length xs)"
    using Cons.IH by metis
  have "data_addrs h (x # xs) = insert d (data_addrs h2 xs)"
    using d(1) same by (auto simp: data_addrs_def image_iff)
  then have "blocks h' = blocks h |` (- data_addrs h (x # xs))"
    using h'(3) h1(4) by (auto simp: h2_def fun_eq_iff restrict_map_def)
  moreover have "LIST_Clear l h = Some h'"
    using h1(1,4) d h'(1) Cons.prems(1)
    by (subst LIST_Clear.simps) (simp add: LIST_IsEmpty_iff free_block_ok h2_def)
  ultimately show ?case using h' h1 by (auto simp: h2_def)
qed

text \<open>Clearing a list that owns its data ends, leaves the list empty, frees each of its data
  blocks and no other block, and frees each of its nodes and no other node.\<close>

theorem LIST_Clear_frees:
  assumes "dll h l xs" "owns_data h xs"
  shows "\<exists>h'. LIST_Clear l h = Some h' \<and> LIST_IsEmpty l h' = Some True \<and>
    blocks h' = blocks h |` (- {d. Some d \<in> dataf h ` set xs}) \<and>
    dom (nodes h') = dom (nodes h) - set xs \<and> NumNodes h' = NumNodes h - int (length xs)"
  using LIST_Clear_ok [OF assms] unfolding data_addrs_def by (force simp: LIST_IsEmpty_iff)

theorem LIST_Clear_frees_witness:
  "\<exists>h'. LIST_Clear 0 demo_heap = Some h' \<and> LIST_IsEmpty 0 h' = Some True \<and>
    blocks h' = blocks demo_heap |` (- {d. Some d \<in> dataf demo_heap ` set [1, 2, 3]}) \<and>
    dom (nodes h') = dom (nodes demo_heap) - set [1, 2, 3] \<and>
    NumNodes h' = NumNodes demo_heap - int (length [1 :: nat, 2, 3])"
  by (rule LIST_Clear_frees [OF demo_dll]) (auto simp: owns_data_def demo_heap_def dataf_def)


subsection \<open>Searching\<close>

text \<open>The comparison the search makes at an item.\<close>

definition item_matches :: "lheap \<Rightarrow> byte list \<Rightarrow> int \<Rightarrow> nat \<Rightarrow> bool" where
  "item_matches h data off x =
     (case dataf h x of None \<Rightarrow> False
      | Some d \<Rightarrow> (case blocks h d of None \<Rightarrow> False
                   | Some b \<Rightarrow> take (length data) (drop (nat off) b) = data))"

definition items_hold :: "lheap \<Rightarrow> nat list \<Rightarrow> int \<Rightarrow> bool" where
  "items_hold h xs n \<longleftrightarrow>
     (\<forall>x \<in> set xs. \<exists>d b. dataf h x = Some d \<and> blocks h d = Some b \<and> n \<le> int (length b))"

lemma find_loop_ok:
  assumes "chain (nextf h) (xs @ [l])" "l \<notin> set xs" "set xs \<subseteq> dom (nodes h)" "0 \<le> off"
    "items_hold h xs (off + int (length data))"
  shows "find_loop (Some (hd (xs @ [l]))) (Some l) True data off h =
    Some (case dropWhile (\<lambda>x. \<not> item_matches h data off x) xs of
            [] \<Rightarrow> (Some l, True) | x # r \<Rightarrow> (Some (hd (r @ [l])), False))"
  using assms
proof (induction xs)
  case Nil
  then show ?case by (subst find_loop.simps) simp
next
  case (Cons x xs)
  have stop: "find_loop p t False data off h = Some (p, False)" for p t
    by (subst find_loop.simps) simp
  obtain n where n: "nodes h x = Some n" using Cons.prems(3) by auto
  then have "nextf h x = Next n" "dataf h x = Data n" by (simp_all add: nextf_def dataf_def)
  moreover have "nextf h x = Some (hd (xs @ [l]))" using Cons.prems(1) by (cases xs) auto
  moreover obtain d b where db: "dataf h x = Some d" "blocks h d = Some b"
    "off + int (length data) \<le> int (length b)"
    using Cons.prems(5) by (auto simp: items_hold_def)
  ultimately have nd: "Next n = Some (hd (xs @ [l]))" "Data n = Some d" by simp_all
  have m: "item_matches h data off x \<longleftrightarrow> take (length data) (drop (nat off) b) = data"
    by (simp add: item_matches_def db)
  have differs: "block_differs (Some d) off data h = Some (\<not> item_matches h data off x)"
    using db Cons.prems(4) unfolding m by (simp add: block_differs_def cmem_simps)
  have "chain (nextf h) (xs @ [l])" using Cons.prems(1) by (cases xs) auto
  with Cons have ih: "find_loop (Some (hd (xs @ [l]))) (Some l) True data off h =
    Some (case dropWhile (\<lambda>x. \<not> item_matches h data off x) xs of
            [] \<Rightarrow> (Some l, True) | x # r \<Rightarrow> (Some (hd (r @ [l])), False))"
    by (simp add: items_hold_def)
  have "find_loop (Some x) (Some l) True data off h =
      find_loop (Some (hd (xs @ [l]))) (Some l) (\<not> item_matches h data off x) data off h"
    using Cons.prems(2) by (subst find_loop.simps) (simp add: load_def n nd differs)
  then show ?case using ih stop by simp
qed

text \<open>Searching a list whose data blocks are large enough returns the first item whose bytes at
  the offset equal the pattern, and NULL exactly when there is none.\<close>

theorem LIST_FindItem_first:
  assumes "dll h l xs" "0 \<le> off" "items_hold h xs (off + int (length data))"
  shows "LIST_FindItem l data off h = Some (find (item_matches h data off) xs)"
proof -
  obtain t where t: "nodes h l = Some t" "Next t = Some (hd (xs @ [l]))"
    using dll_ends [OF assms(1)] by metis
  have c: "chain (nextf h) (xs @ [l])" using assms(1) by (cases xs) (auto simp: dll_def)
  have d: "l \<notin> set xs" "set xs \<subseteq> dom (nodes h)" using assms(1) by (auto simp: dll_def)
  let ?dw = "dropWhile (\<lambda>x. \<not> item_matches h data off x) xs"
  have fl: "find_loop (Some (hd (xs @ [l]))) (Some l) True data off h =
    Some (case ?dw of [] \<Rightarrow> (Some l, True) | x # r \<Rightarrow> (Some (hd (r @ [l])), False))"
    by (rule find_loop_ok [OF c d assms(2,3)])
  have fd: "find (item_matches h data off) xs = (case ?dw of [] \<Rightarrow> None | x # r \<Rightarrow> Some x)"
    by (simp add: find_dropWhile comp_def)
  show ?thesis
  proof (cases ?dw)
    case Nil
    show ?thesis using fl [unfolded Nil] fd [unfolded Nil] t
      by (simp add: LIST_FindItem_def LIST_FindItemRange_def LIST_GetFirstItem_def LIST_GetLastItem_def)
  next
    case (Cons x r)
    have xs: "xs = takeWhile (\<lambda>x. \<not> item_matches h data off x) xs @ x # r"
      using Cons takeWhile_dropWhile_id by metis
    obtain as where as: "xs = as @ x # r" using xs by blast
    have "dll h l ((as @ [x]) @ r)" using assms(1) as by simp
    then have "chain (prevf h) (l # rev r @ x # rev as @ [l])" by (simp add: dll_def)
    then have "prevf h (hd (r @ [l])) = Some x"
      using chain_append [of "prevf h" "l # rev (tl r)" "hd (r @ [l])" "x # rev as @ [l]"]
      by (cases r) auto
    moreover have "hd (r @ [l]) \<in> dom (nodes h)"
      using d(2) t(1) as by (cases r) auto
    ultimately show ?thesis using fl [unfolded Cons] fd [unfolded Cons] t
      by (auto simp: LIST_FindItem_def LIST_FindItemRange_def LIST_GetFirstItem_def
          LIST_GetLastItem_def load_def prevf_def)
  qed
qed

theorem LIST_FindItem_first_witness:
  "LIST_FindItem 0 [4] 1 demo_heap = Some (find (item_matches demo_heap [4] 1) [1, 2, 3]) \<and>
   find (item_matches demo_heap [4] 1) [1, 2, 3] = Some 2"
proof
  show "LIST_FindItem 0 [4] 1 demo_heap = Some (find (item_matches demo_heap [4] 1) [1, 2, 3])"
    by (rule LIST_FindItem_first [OF demo_dll]) (simp_all add: items_hold_def demo_heap_def dataf_def)
qed (simp add: item_matches_def demo_heap_def dataf_def)

subsection \<open>Transfer to and from a buffer\<close>

definition item_bytes :: "lheap \<Rightarrow> nat \<Rightarrow> byte list" where
  "item_bytes h x = (case dataf h x of None \<Rightarrow> []
     | Some d \<Rightarrow> (case blocks h d of None \<Rightarrow> [] | Some b \<Rightarrow> b))"

lemma copy_out_ok:
  assumes "chain (nextf h) (xs @ [l])" "l \<notin> set xs" "set xs \<subseteq> dom (nodes h)" "0 \<le> sz"
    "items_hold h xs sz" "length pre + nat sz * length xs \<le> length pre + length buf"
  shows "copy_out (Some (hd (xs @ [l]))) l (pre @ buf) (int (length pre)) sz h =
    Some (pre @ concat (map (take (nat sz) \<circ> item_bytes h) xs) @ drop (nat sz * length xs) buf)"
  using assms
proof (induction xs arbitrary: pre buf)
  case Nil
  then show ?case by (subst copy_out.simps) simp
next
  case (Cons x xs)
  obtain n where n: "nodes h x = Some n" using Cons.prems(3) by auto
  then have nf: "nextf h x = Next n" "dataf h x = Data n" by (simp_all add: nextf_def dataf_def)
  have nx: "nextf h x = Some (hd (xs @ [l]))" using Cons.prems(1) by (cases xs) auto
  obtain d b where db: "dataf h x = Some d" "blocks h d = Some b" "sz \<le> int (length b)"
    using Cons.prems(5) by (auto simp: items_hold_def)
  have nd: "Next n = Some (hd (xs @ [l]))" "Data n = Some d" using nf nx db(1) by simp_all
  have c: "chain (nextf h) (xs @ [l])" using Cons.prems(1) by (cases xs) auto
  define item where "item = take (nat sz) b"
  have len: "length item = nat sz" using db(3) by (simp add: item_def)
  have room: "nat sz \<le> length buf" "nat sz * length xs \<le> length (drop (nat sz) buf)"
    using Cons.prems(6) by auto
  have put: "buf_put (int (length pre)) item (pre @ buf) = Some ((pre @ item) @ drop (nat sz) buf)"
    using len room(1) Cons.prems(4) by (simp add: cmem_simps)
  have ih: "copy_out (Some (hd (xs @ [l]))) l ((pre @ item) @ drop (nat sz) buf)
      (int (length (pre @ item))) sz h =
    Some ((pre @ item) @ concat (map (take (nat sz) \<circ> item_bytes h) xs) @
          drop (nat sz * length xs) (drop (nat sz) buf))"
    by (rule Cons.IH) (use Cons.prems c room in \<open>auto simp: items_hold_def\<close>)
  have "take (nat sz) (item_bytes h x) = item" using db by (simp add: item_bytes_def item_def)
  moreover have "int (length pre) + sz = int (length (pre @ item))" using len Cons.prems(4) by simp
  ultimately show ?case
    using ih put n nd db Cons.prems(2,4)
    by (subst copy_out.simps) (simp add: load_def cmem_simps item_def add.commute)
qed

lemma LIST_GetItemsToBuffer_ok:
  assumes "dll h l xs" "0 \<le> sz" "items_hold h xs sz" "nat sz * length xs \<le> length buf"
  shows "LIST_GetItemsToBuffer l buf sz h =
    Some (concat (map (take (nat sz) \<circ> item_bytes h) xs) @ drop (nat sz * length xs) buf)"
proof -
  obtain t where t: "nodes h l = Some t" "Next t = Some (hd (xs @ [l]))"
    using dll_ends [OF assms(1)] by metis
  have "chain (nextf h) (xs @ [l])" using assms(1) by (cases xs) (auto simp: dll_def)
  moreover have "l \<notin> set xs" "set xs \<subseteq> dom (nodes h)" using assms(1) by (auto simp: dll_def)
  ultimately show ?thesis
    using copy_out_ok [of h xs l sz "[]" buf] assms t by (simp add: LIST_GetItemsToBuffer_def)
qed

text \<open>A fresh data block and a fresh node at the bottom leave the items already listed as they are.\<close>

lemma add_one_from_buffer_ok:
  assumes "dll h l xs" "fresh_above h" "mallocs h = []" "items_hold h xs n" "n \<le> int (length item)"
  obtains y h' where "add_one_from_buffer l item h = Some h'" "dll h' l (xs @ [y])" "fresh_above h'"
    "mallocs h' = []" "items_hold h' (xs @ [y]) n"
    "map (item_bytes h') (xs @ [y]) = map (item_bytes h) xs @ [item]"
proof -
  define d where "d = brk h"
  define h1 where "h1 = h\<lparr>mallocs := [], brk := Suc d, blocks := (blocks h)(d \<mapsto> item)\<rparr>"
  have "nextf h1 = nextf h" "prevf h1 = prevf h"
    by (simp_all add: h1_def nextf_def prevf_def fun_eq_iff)
  then have dll1: "dll h1 l (xs @ [])" using assms(1) by (simp add: dll_def h1_def)
  have fresh1: "fresh_above h1"
    using assms(2) by (auto simp: fresh_above_def h1_def d_def less_Suc_eq)
  have "hd (mallocs h1 @ [True])" by (simp add: h1_def)
  from LIST_AddItem_ok [OF dll1 fresh1 this, of "Some d"] obtain h' where
    h': "LIST_AddItem l (Some l) (Some d) h1 = Some (Some (brk h1), h')" "dll h' l (xs @ [brk h1])"
      "fresh_above h'" "dataf h' = (dataf h1)(brk h1 := Some d)" "blocks h' = blocks h1"
      "mallocs h' = tl (mallocs h1)"
    by (metis append_Nil list.sel(1))
  define y where "y = brk h1"
  have y: "y \<notin> set xs" using h'(2) by (auto simp: dll_def y_def)
  have "dataf h1 = dataf h" by (simp add: h1_def dataf_def fun_eq_iff)
  then have df: "dataf h' = (dataf h)(y := Some d)" using h'(4) by (simp add: y_def)
  have data: "dataf h' y = Some d" "blocks h' d = Some item"
    using df h'(5) by (simp_all add: h1_def y_def)
  have old: "dataf h' x = dataf h x \<and> (\<forall>e. dataf h x = Some e \<longrightarrow> blocks h' e = blocks h e)"
    if "x \<in> set xs" for x
  proof (intro conjI allI impI)
    show "dataf h' x = dataf h x"
      using that y df by auto
    fix e
    assume "dataf h x = Some e"
    with assms(4) that obtain b where "blocks h e = Some b" by (auto simp: items_hold_def)
    then have "e \<noteq> d" using assms(2) by (auto simp: fresh_above_def d_def)
    then show "blocks h' e = blocks h e" using h'(5) by (simp add: h1_def)
  qed
  show ?thesis
  proof
    show "add_one_from_buffer l item h = Some h'"
      using h'(1) assms(3)
      by (simp add: add_one_from_buffer_def malloc_addr_def LIST_AddItemBottom_def h1_def d_def)
    show "dll h' l (xs @ [y])" using h'(2) by (simp add: y_def)
    show "fresh_above h'" by (rule h'(3))
    show "mallocs h' = []" using h'(6) by (simp add: h1_def)
    show "items_hold h' (xs @ [y]) n"
      using assms(4,5) old data by (auto simp: items_hold_def)
    have "item_bytes h' x = item_bytes h x" if "x \<in> set xs" for x
      using old [OF that] by (auto simp: item_bytes_def split: option.splits)
    then show "map (item_bytes h') (xs @ [y]) = map (item_bytes h) xs @ [item]"
      using data by (simp add: item_bytes_def)
  qed
qed

lemma LIST_AddItemsFromBuffer_ok:
  assumes "dll h l xs" "fresh_above h" "mallocs h = []" "items_hold h xs sz"
    "\<And>i. i \<in> set items \<Longrightarrow> int (length i) = sz"
  shows "\<exists>ys h'. LIST_AddItemsFromBuffer l (pre @ concat items @ post) (int (length pre)) sz (length items) h = Some h' \<and>
     dll h' l (xs @ ys) \<and> map (item_bytes h') (xs @ ys) = map (item_bytes h) xs @ items"
  using assms
proof (induction items arbitrary: h xs pre)
  case Nil
  then show ?case by (auto intro!: exI [of _ "[]"])
next
  case (Cons i items)
  have len: "int (length i) = sz" using Cons.prems(5) by simp
  from add_one_from_buffer_ok [OF Cons.prems(1-4), of i] len obtain y h1 where
    h1: "add_one_from_buffer l i h = Some h1" "dll h1 l (xs @ [y])" "fresh_above h1" "mallocs h1 = []"
      "items_hold h1 (xs @ [y]) sz" "map (item_bytes h1) (xs @ [y]) = map (item_bytes h) xs @ [i]"
    by (metis order_refl)
  have rest: "\<And>j. j \<in> set items \<Longrightarrow> int (length j) = sz" using Cons.prems(5) by simp
  obtain ys h' where
    h': "LIST_AddItemsFromBuffer l ((pre @ i) @ concat items @ post) (int (length (pre @ i))) sz
        (length items) h1 = Some h'"
      "dll h' l ((xs @ [y]) @ ys)"
      "map (item_bytes h') ((xs @ [y]) @ ys) = map (item_bytes h1) (xs @ [y]) @ items"
    using Cons.IH [OF h1(2-5) rest, of "pre @ i"] by blast
  have "buf_get (int (length pre)) sz (pre @ concat (i # items) @ post) = Some i"
    using len by (auto simp: buf_get_def)
  then have "LIST_AddItemsFromBuffer l (pre @ concat (i # items) @ post) (int (length pre)) sz
      (length (i # items)) h = Some h'"
    using h1(1) h'(1) len by simp
  then show ?case using h'(2,3) h1(6) by (intro exI [of _ "y # ys"] exI [of _ h']) simp
qed

text \<open>Writing the items of one list to a buffer and adding items from that buffer to an empty
  list makes the second list hold the same items in the same order, each cut to the item size.\<close>

theorem LIST_buffer_roundtrip:
  assumes "dll h l xs" "0 \<le> sz" "items_hold h xs sz" "nat sz * length xs \<le> length buf"
    "dll h l2 []" "fresh_above h" "mallocs h = []"
  shows "\<exists>buf' ys h'. LIST_GetItemsToBuffer l buf sz h = Some buf' \<and>
     LIST_AddItemsFromBuffer l2 buf' 0 sz (length xs) h = Some h' \<and> dll h' l2 ys \<and>
     map (item_bytes h') ys = map (take (nat sz) \<circ> item_bytes h) xs"
proof -
  let ?items = "map (take (nat sz) \<circ> item_bytes h) xs"
  have "int (length i) = sz" if "i \<in> set ?items" for i
    using that assms(2,3) by (auto simp: items_hold_def item_bytes_def)
  then have "\<exists>ys h'. LIST_AddItemsFromBuffer l2 ([] @ concat ?items @ drop (nat sz * length xs) buf)
      (int (length ([] :: byte list))) sz (length ?items) h = Some h' \<and>
     dll h' l2 ([] @ ys) \<and> map (item_bytes h') ([] @ ys) = map (item_bytes h) [] @ ?items"
    by (intro LIST_AddItemsFromBuffer_ok [OF assms(5-7)]) (auto simp: items_hold_def)
  then show ?thesis using LIST_GetItemsToBuffer_ok [OF assms(1-4)] by simp
qed

definition demo_two :: lheap where
  "demo_two = demo_heap\<lparr>nodes := (nodes demo_heap)(4 \<mapsto> \<lparr>Next = Some 4, Prev = Some 4, Data = None\<rparr>),
     sizes := (sizes demo_heap)(4 \<mapsto> 0)\<rparr>"

lemma demo_two: "dll demo_two 0 [1, 2, 3]" "dll demo_two 4 []" "fresh_above demo_two"
  by (auto simp: dll_def demo_two_def demo_heap_def nextf_def prevf_def fresh_above_def split: if_splits)

theorem LIST_buffer_roundtrip_witness:
  "\<exists>buf' ys h'. LIST_GetItemsToBuffer 0 [9, 9, 9, 9, 9, 9, 9] 2 demo_two = Some buf' \<and>
     LIST_AddItemsFromBuffer 4 buf' 0 2 (length [1 :: nat, 2, 3]) demo_two = Some h' \<and> dll h' 4 ys \<and>
     map (item_bytes h') ys = map (take (nat 2) \<circ> item_bytes demo_two) [1, 2, 3]"
  by (rule LIST_buffer_roundtrip [OF demo_two(1) _ _ _ demo_two(2,3)])
     (simp_all add: demo_two_def demo_heap_def items_hold_def dataf_def)

subsection \<open>Two operations that break the list\<close>

text \<open>Removing a range frees the data of the item after each removed one instead of the data
  of the removed item: on a list that owns its data, the first item of the range keeps its block,
  and the item after the range loses its own while it stays in the list.\<close>

theorem LIST_RemoveItemRange_frees_next:
  assumes "dll h l (as @ x # y # bs)" "owns_data h (as @ x # y # bs)"
  shows "\<exists>h'. LIST_RemoveItemRange l x y h = Some (y, h') \<and> dll h' l (as @ y # bs) \<and>
    (\<exists>d. dataf h x = Some d \<and> blocks h' d = blocks h d \<and> d \<in> dom (blocks h')) \<and>
    (\<exists>e. dataf h' y = Some e \<and> e \<notin> dom (blocks h'))"
proof -
  obtain h1 where h1: "LIST_RemoveItem l x h = Some (hd ((y # bs) @ [l]), h1)" "dll h1 l (as @ y # bs)"
    "dataf h1 = (dataf h)(x := None)" "blocks h1 = blocks h"
    using LIST_RemoveItem_ok [OF assms(1)] by metis
  have xy: "x \<noteq> y" using assms(1) by (auto simp: dll_def)
  obtain d e where de: "dataf h x = Some d" "dataf h y = Some e" "d \<in> dom (blocks h)"
    "e \<in> dom (blocks h)" "d \<noteq> e"
    using assms(2) by (force simp: owns_data_def)
  have y: "dataf h1 y = Some e" using h1(3) de(2) xy by simp
  then obtain n where n: "nodes h1 y = Some n" "Data n = Some e"
    by (auto simp: dataf_def split: option.splits)
  define h' where "h' = h1\<lparr>blocks := (blocks h1)(e := None)\<rparr>"
  have "LIST_RemoveItemRange l y y h' = Some (y, h')"
    by (subst LIST_RemoveItemRange.simps) simp
  then have "LIST_RemoveItemRange l x y h = Some (y, h')"
    using h1(1,4) n de(4) xy
    by (subst LIST_RemoveItemRange.simps) (auto simp: free_block_ok h'_def)
  moreover have "dataf h' y = Some e" using y by (simp add: h'_def)
  ultimately show ?thesis
    using h1 de by (intro exI [of _ h']) (auto simp: h'_def)
qed

theorem LIST_RemoveItemRange_frees_next_witness:
  "\<exists>h'. LIST_RemoveItemRange 0 1 2 demo_heap = Some (2, h') \<and> dll h' 0 ([] @ 2 # [3]) \<and>
    (\<exists>d. dataf demo_heap 1 = Some d \<and> blocks h' d = blocks demo_heap d \<and> d \<in> dom (blocks h')) \<and>
    (\<exists>e. dataf h' 2 = Some e \<and> e \<notin> dom (blocks h'))"
  by (rule LIST_RemoveItemRange_frees_next)
     (use demo_dll in \<open>auto simp: owns_data_def demo_heap_def dataf_def\<close>)

end
