(* ===== verification/Random_MT.thy ===== *)
theory Random_MT
  imports XP_Prelude Complex_Main
begin

text \<open>
  The pseudo-random generator of \<open>common/randommt.c\<close>, and \<open>rfrac\<close> of \<open>common/math.c\<close> on top
  of it.

  The file's static variables are the record \<open>mt\<close>; the pointer \<open>next\<close> is an index into
  \<open>state\<close>. The in-place reload is the code's three phases, its array accesses checked. It is
  proved equal to the Mersenne Twister recurrence \<open>mt_seq\<close>, which knows nothing of the
  array, the reload or the countdown \<open>left\<close>.
\<close>

record mt =
  state :: "i32 list"
  next_ix :: int
  left :: int

definition hiBit :: "i32 \<Rightarrow> i32" where "hiBit u = u AND 0x80000000"
definition loBit :: "i32 \<Rightarrow> i32" where "loBit u = u AND 0x00000001"
definition loBits :: "i32 \<Rightarrow> i32" where "loBits u = u AND 0x7FFFFFFF"
definition mixBits :: "i32 \<Rightarrow> i32 \<Rightarrow> i32" where "mixBits u v = hiBit u OR loBits v"

text \<open>The value a reload step stores, and the mixing of a value on its way out.\<close>

definition twist :: "i32 \<Rightarrow> i32 \<Rightarrow> i32 \<Rightarrow> i32" where
  "twist m s0 s1 = (m XOR drop_bit 1 (mixBits s0 s1)) XOR (if loBit s1 \<noteq> 0 then 0x9908B0DF else 0)"

definition temper :: "i32 \<Rightarrow> i32" where
  "temper y0 =
     (let y1 = y0 XOR drop_bit 11 y0;
          y2 = y1 XOR (push_bit 7 y1 AND 0x9D2C5680);
          y3 = y2 XOR (push_bit 15 y2 AND 0xEFC60000)
      in y3 XOR drop_bit 18 y3)"

fun seed_loop :: "nat \<Rightarrow> int \<Rightarrow> i32 \<Rightarrow> i32 list \<Rightarrow> i32 list option" where
  "seed_loop 0 s x st = Some st"
| "seed_loop (Suc j) s x st =
     do { st' \<leftarrow> buf_set s (x * 69069) st; seed_loop j (s + 1) (x * 69069) st' }"

definition seedMT :: "i32 \<Rightarrow> mt \<Rightarrow> mt option" where
  "seedMT seed g =
     do { let x = (seed OR 1) AND 0xFFFFFFFF;
          st \<leftarrow> buf_set 0 x (state g);
          st' \<leftarrow> seed_loop 623 1 x st;
          Some (g\<lparr>left := 0, state := st'\<rparr>) }"

fun reload_loop ::
  "nat \<Rightarrow> int \<Rightarrow> int \<Rightarrow> int \<Rightarrow> i32 \<Rightarrow> i32 \<Rightarrow> i32 list \<Rightarrow> (int \<times> int \<times> int \<times> i32 \<times> i32 \<times> i32 list) option" where
  "reload_loop 0 p0 p2 pM s0 s1 st = Some (p0, p2, pM, s0, s1, st)"
| "reload_loop (Suc j) p0 p2 pM s0 s1 st =
     do { m \<leftarrow> buf_at pM st;
          st' \<leftarrow> buf_set p0 (twist m s0 s1) st;
          s \<leftarrow> buf_at p2 st';
          reload_loop j (p0 + 1) (p2 + 1) (pM + 1) s1 s st' }"

text \<open>\<open>for (j = N - M + 1; --j; ...)\<close> runs 227 times, \<open>for (j = M; --j; ...)\<close> 396 times.\<close>

definition reloadMT :: "mt \<Rightarrow> (i32 \<times> mt) option" where
  "reloadMT g =
     do { g0 \<leftarrow> (if left g < -1 then seedMT 4357 g else Some g);
          s0 \<leftarrow> buf_at 0 (state g0);
          s1 \<leftarrow> buf_at 1 (state g0);
          (p0, p2, pM, s0, s1, st) \<leftarrow> reload_loop 227 0 2 397 s0 s1 (state g0);
          (p0, p2, pM, s0, s1, st) \<leftarrow> reload_loop 396 p0 p2 0 s0 s1 st;
          s1 \<leftarrow> buf_at 0 st;
          m \<leftarrow> buf_at pM st;
          st \<leftarrow> buf_set p0 (twist m s0 s1) st;
          Some (temper s1, g0\<lparr>left := 623, next_ix := 1, state := st\<rparr>) }"

definition randomMT :: "mt \<Rightarrow> (i32 \<times> mt) option" where
  "randomMT g =
     do { let g1 = g\<lparr>left := left g - 1\<rparr>;
          if left g1 < 0 then reloadMT g1
          else do { y \<leftarrow> buf_at (next_ix g1) (state g1);
                    Some (temper y, g1\<lparr>next_ix := next_ix g1 + 1\<rparr>) } }"

text \<open>The constant of the code is exactly \<open>2 ^ -32\<close>, and the product fits the mantissa of a double.\<close>

definition rfrac :: "mt \<Rightarrow> (real \<times> mt) option" where
  "rfrac g = do { (y, g') \<leftarrow> randomMT g; Some (real_of_int (uint y) * (1 / 2 ^ 32), g') }"

lemma rfrac_constant: "0.00000000023283064365386962890625 = (1 / 2 ^ 32 :: real)"
  by simp

subsection \<open>The recurrence\<close>

text \<open>The seed sequence \<open>x * 69069 ^ i\<close>, continued by the Mersenne Twister recurrence
  of degree 624 with middle term 397.\<close>

function mt_seq :: "i32 \<Rightarrow> nat \<Rightarrow> i32" where
  "mt_seq x i =
     (if i < 624 then x * 69069 ^ i
      else twist (mt_seq x (i - 227)) (mt_seq x (i - 624)) (mt_seq x (i - 623)))"
  by pat_completeness auto
termination by (relation "measure snd") auto

declare mt_seq.simps [simp del]

lemma mt_seq_seed: "i < 624 \<Longrightarrow> mt_seq x i = x * 69069 ^ i"
  by (simp add: mt_seq.simps)

lemma mt_seq_step: "mt_seq x (624 + i) = twist (mt_seq x (397 + i)) (mt_seq x i) (mt_seq x (1 + i))"
proof -
  have "624 + i - 227 = 397 + i" "624 + i - 624 = i" "624 + i - 623 = 1 + i" by simp_all
  then show ?thesis by (subst mt_seq.simps) simp
qed

subsection \<open>Seeding\<close>

lemma seed_loop_ok:
  assumes "length pre + j \<le> 624" "length rest = 625 - length pre"
  shows "seed_loop j (int (length pre)) x (pre @ rest) =
    Some (pre @ map (\<lambda>i. x * 69069 ^ Suc i) [0..<j] @ drop j rest)"
  using assms
proof (induction j arbitrary: pre x rest)
  case 0
  then show ?case by simp
next
  case (Suc j)
  then obtain r rs where rest: "rest = r # rs" by (cases rest) auto
  have "seed_loop j (int (length (pre @ [x * 69069]))) (x * 69069) ((pre @ [x * 69069]) @ rs) =
    Some ((pre @ [x * 69069]) @ map (\<lambda>i. x * 69069 * 69069 ^ Suc i) [0..<j] @ drop j rs)"
    by (rule Suc.IH) (use Suc.prems rest in auto)
  moreover have "map (\<lambda>i. x * 69069 ^ Suc i) [0..<Suc j] =
      x * 69069 # map (\<lambda>i. x * 69069 * 69069 ^ Suc i) [0..<j]"
    unfolding map_upt_Suc by (simp add: mult.assoc)
  ultimately show ?case
    using rest by (simp add: cmem_simps add.commute del: upt_Suc)
qed

text \<open>The array holding 624 values of the sequence from index \<open>b\<close>.\<close>

definition holds_window :: "i32 \<Rightarrow> nat \<Rightarrow> i32 list \<Rightarrow> bool" where
  "holds_window x b st \<longleftrightarrow> length st = 625 \<and> (\<forall>i < 624. st ! i = mt_seq x (b + i))"

lemma seedMT_ok:
  assumes "length (state g) = 625"
  obtains g' where "seedMT seed g = Some g'" "left g' = 0" "holds_window (seed OR 1) 0 (state g')"
proof -
  define x where "x = seed OR 1"
  have mask: "(seed OR 1) AND 0xFFFFFFFF = x"
  proof -
    have "(0xFFFFFFFF :: i32) = - 1" by simp
    then show ?thesis unfolding x_def by (simp only: and.right_neutral)
  qed
  obtain r rs where st: "state g = r # rs" "length rs = 624"
    using assms by (cases "state g") auto
  have "seed_loop 623 (int (length [x])) x ([x] @ rs) =
    Some ([x] @ map (\<lambda>i. x * 69069 ^ Suc i) [0..<623] @ drop 623 rs)"
    by (rule seed_loop_ok) (simp_all add: st)
  then have run: "seedMT seed g =
      Some (g\<lparr>left := 0, state := x # map (\<lambda>i. x * 69069 ^ Suc i) [0..<623] @ drop 623 rs\<rparr>)"
    unfolding seedMT_def Let_def mask by (simp add: st cmem_simps del: upt_Suc)
  show ?thesis
  proof (rule that [OF run])
    show "holds_window (seed OR 1) 0
      (state (g\<lparr>left := 0, state := x # map (\<lambda>i. x * 69069 ^ Suc i) [0..<623] @ drop 623 rs\<rparr>))"
      using st by (auto simp: holds_window_def mt_seq_seed x_def [symmetric] nth_Cons nth_append
          simp del: upt_Suc split: nat.splits)
  qed simp
qed

subsection \<open>Reloading in place\<close>

text \<open>After \<open>j\<close> stores the first \<open>j\<close> entries are already those of the next window.\<close>

definition half_reloaded :: "i32 \<Rightarrow> nat \<Rightarrow> nat \<Rightarrow> i32 list \<Rightarrow> bool" where
  "half_reloaded x b j st \<longleftrightarrow> length st = 625 \<and>
     (\<forall>i < 624. st ! i = mt_seq x (if i < j then b + 624 + i else b + i))"

lemma reload_store:
  assumes "half_reloaded x b j st" "j < 624" "v = mt_seq x (b + 624 + j)"
  shows "half_reloaded x b (Suc j) (st[j := v])"
  using assms by (auto simp: half_reloaded_def nth_list_update)

lemma reload_loop_ok:
  assumes "half_reloaded x b j st" "j + k \<le> 623"
    "\<And>i. j \<le> i \<Longrightarrow> i < j + k \<Longrightarrow> int (length st) > pM + (int i - int j) \<and> pM \<ge> 0 \<and>
       (if i < 227 then pM + (int i - int j) = 397 + int i else pM + (int i - int j) = int i - 227)"
    "s0 = mt_seq x (b + j)" "s1 = mt_seq x (b + j + 1)"
  obtains s0' s1' st' where
    "reload_loop k (int j) (int j + 2) pM s0 s1 st =
       Some (int (j + k), int (j + k) + 2, pM + int k, s0', s1', st')"
    "half_reloaded x b (j + k) st'" "s0' = mt_seq x (b + j + k)"
    "j + k < 623 \<Longrightarrow> s1' = mt_seq x (b + j + k + 1)"
  using assms
proof (induction k arbitrary: j pM s0 s1 st thesis)
  case 0
  then show ?case by simp
next
  case (Suc k)
  have hr: "half_reloaded x b j st" and jk: "j + Suc k \<le> 623" by (rule Suc.prems)+
  have len: "length st = 625" using hr by (simp add: half_reloaded_def)
  have pM: "pM < 625" "0 \<le> pM" "if j < 227 then pM = 397 + int j else pM = int j - 227"
    using Suc.prems(4) [of j] len by (simp_all split: if_splits)
  define m where "m = st ! nat pM"
  have m: "m = mt_seq x (b + 397 + j)"
  proof (cases "j < 227")
    case True
    then have "nat pM = 397 + j" using pM by simp
    then show ?thesis using hr True by (simp add: half_reloaded_def m_def add.assoc)
  next
    case False
    then have "nat pM = j - 227" "j - 227 < j" "j - 227 < 624" "b + 624 + (j - 227) = b + 397 + j"
      using pM jk by auto
    then show ?thesis using hr by (simp add: half_reloaded_def m_def add.commute add.left_commute)
  qed
  define v where "v = twist m s0 s1"
  have v: "v = mt_seq x (b + 624 + j)"
    using mt_seq_step [of x "b + j"] m Suc.prems(5,6) by (simp add: v_def ac_simps)
  have hr': "half_reloaded x b (Suc j) (st[j := v])"
    by (rule reload_store [OF hr _ v]) (use jk in simp)
  define s where "s = st[j := v] ! (j + 2)"
  have s: "s = mt_seq x (b + Suc j + 1)" if "Suc j < 623"
    using spec [OF conjunct2 [OF hr' [unfolded half_reloaded_def]], of "j + 2"] that
    by (simp add: s_def)
  have step: "reload_loop (Suc k) (int j) (int j + 2) pM s0 s1 st =
      reload_loop k (int (Suc j)) (int (Suc j) + 2) (pM + 1) s1 s (st[j := v])"
    using pM len jk
    by (simp add: cmem_simps m_def [symmetric] v_def [symmetric] s_def nat_add_distrib
        ac_simps)
  show ?case
  proof (cases k)
    case 0
    then show ?thesis
      using Suc.prems(1) [of s1 s "st[j := v]"] step hr' s Suc.prems(6) by simp
  next
    case (Suc k')
    show ?thesis
    proof (rule Suc.IH [of "Suc j" "pM + 1" s1 s "st[j := v]"])
      show "half_reloaded x b (Suc j) (st[j := v])" by (rule hr')
      show "Suc j + k \<le> 623" using jk by simp
      show "s = mt_seq x (b + Suc j + 1)" using s jk Suc by simp
      show "s1 = mt_seq x (b + Suc j)" using Suc.prems(6) by simp
      show "int (length (st[j := v])) > pM + 1 + (int i - int (Suc j)) \<and> pM + 1 \<ge> 0 \<and>
        (if i < 227 then pM + 1 + (int i - int (Suc j)) = 397 + int i
         else pM + 1 + (int i - int (Suc j)) = int i - 227)"
        if "Suc j \<le> i" "i < Suc j + k" for i
        using Suc.prems(4) [of i] that by auto
    qed (use Suc.prems(1) step in \<open>simp_all\<close>)
  qed
qed

lemma holds_half: "holds_window x b st \<longleftrightarrow> half_reloaded x b 0 st"
  by (auto simp: holds_window_def half_reloaded_def)

lemma half_holds: "half_reloaded x b 624 st \<Longrightarrow> holds_window x (b + 624) st"
  by (auto simp: holds_window_def half_reloaded_def)

lemma reloadMT_ok:
  assumes "holds_window x b (state g)" "- 1 \<le> left g"
  obtains g' where "reloadMT g = Some (temper (mt_seq x (b + 624)), g')"
    "holds_window x (b + 624) (state g')" "left g' = 623" "next_ix g' = 1"
proof -
  have hr: "half_reloaded x b 0 (state g)" using assms(1) by (simp add: holds_half)
  have len: "length (state g) = 625" using assms(1) by (simp add: holds_window_def)
  have s: "state g ! 0 = mt_seq x (b + 0)" "state g ! 1 = mt_seq x (b + 0 + 1)"
    using assms(1) by (simp_all add: holds_window_def)
  obtain s0 s1 st where 1:
    "reload_loop 227 (int 0) (int 0 + 2) 397 (state g ! 0) (state g ! 1) (state g) =
       Some (int (0 + 227), int (0 + 227) + 2, 397 + int 227, s0, s1, st)"
    "half_reloaded x b (0 + 227) st" "s0 = mt_seq x (b + 0 + 227)"
    "0 + 227 < (623 :: nat) \<Longrightarrow> s1 = mt_seq x (b + 0 + 227 + 1)"
    by (rule reload_loop_ok [OF hr _ _ s, of 227 397]) (use len in auto)
  have len1: "length st = 625" using 1(2) by (simp add: half_reloaded_def)
  obtain t0 t1 st' where 2:
    "reload_loop 396 (int 227) (int 227 + 2) 0 s0 s1 st =
       Some (int (227 + 396), int (227 + 396) + 2, 0 + int 396, t0, t1, st')"
    "half_reloaded x b (227 + 396) st'" "t0 = mt_seq x (b + 227 + 396)"
    by (rule reload_loop_ok [of x b 227 st 396 0 s0 s1]) (use 1 len1 in auto)
  have hr2: "half_reloaded x b 623 st'" using 2(2) by simp
  have len2: "length st' = 625" using 2(2) by (simp add: half_reloaded_def)
  have e0: "st' ! 0 = mt_seq x (b + 624)" and e396: "st' ! 396 = mt_seq x (b + 1020)"
    using hr2 by (simp_all add: half_reloaded_def add.commute add.left_commute)
  define v where "v = twist (st' ! 396) t0 (st' ! 0)"
  have v: "v = mt_seq x (b + 624 + 623)"
    using mt_seq_step [of x "b + 623"] e0 e396 2(3) by (simp add: v_def ac_simps)
  have hr3: "half_reloaded x b 624 (st'[623 := v])"
    using reload_store [OF hr2 _ v] by (simp add: eval_nat_numeral)
  have b0: "buf_at 0 (state g) = Some (state g ! 0)" "buf_at 1 (state g) = Some (state g ! 1)"
    "buf_at 0 st' = Some (st' ! 0)" "buf_at 396 st' = Some (st' ! 396)"
    "buf_set 623 v st' = Some (st'[623 := v])"
    using len len2 by (simp_all add: cmem_simps)
  have "reloadMT g = Some (temper (st' ! 0), g\<lparr>left := 623, next_ix := 1, state := st'[623 := v]\<rparr>)"
    using assms(2) 1(1) 2(1) b0 by (simp add: reloadMT_def v_def)
  then show ?thesis
    by (rule that [unfolded e0 [symmetric]]) (use half_holds [OF hr3] in simp_all)
qed

subsection \<open>The outputs\<close>

text \<open>The generator has produced \<open>n\<close> numbers since it was seeded with \<open>x\<close>: the array holds the
  window from \<open>624 * b\<close>, and the next number comes from index \<open>624 + n\<close>.\<close>

definition mt_after :: "i32 \<Rightarrow> nat \<Rightarrow> mt \<Rightarrow> bool" where
  "mt_after x n g \<longleftrightarrow>
     (\<exists>b. holds_window x (624 * b) (state g) \<and> 0 \<le> left g \<and> left g \<le> 623 \<and>
        (left g > 0 \<longrightarrow> next_ix g = 624 - left g) \<and> 624 * int b + 624 - left g = 624 + int n)"

lemma randomMT_ok:
  assumes "mt_after x n g"
  obtains g' where "randomMT g = Some (temper (mt_seq x (624 + n)), g')" "mt_after x (Suc n) g'"
proof -
  obtain b where b: "holds_window x (624 * b) (state g)" "0 \<le> left g" "left g \<le> 623"
    "left g > 0 \<Longrightarrow> next_ix g = 624 - left g" "624 * int b + 624 - left g = 624 + int n"
    using assms by (auto simp: mt_after_def)
  have len: "length (state g) = 625" using b(1) by (simp add: holds_window_def)
  show ?thesis
  proof (cases "left g = 0")
    case True
    then have n: "624 * b = n" using b(5) by simp
    define g1 where "g1 = g\<lparr>left := left g - 1\<rparr>"
    have "holds_window x (624 * b) (state g1)" "- 1 \<le> left g1"
      using b(1) True by (simp_all add: g1_def)
    from reloadMT_ok [OF this] obtain g' where
      g': "reloadMT g1 = Some (temper (mt_seq x (624 * b + 624)), g')"
        "holds_window x (624 * b + 624) (state g')" "left g' = 623" "next_ix g' = 1"
      by blast
    have "mt_after x (Suc n) g'"
      unfolding mt_after_def using g' n by (intro exI [of _ "Suc b"]) (simp add: add.commute)
    moreover have "randomMT g = Some (temper (mt_seq x (624 + n)), g')"
      using g'(1) True n by (simp add: randomMT_def g1_def add.commute)
    ultimately show ?thesis using that by blast
  next
    case False
    then have ix: "next_ix g = 624 - left g" "left g > 0" using b(2,4) by simp_all
    define i where "i = nat (624 - left g)"
    have i: "i < 624" "624 * b + i = 624 + n" using b(2,3,5) ix(2) by (simp_all add: i_def)
    have "state g ! i = mt_seq x (624 + n)"
      using b(1) i by (simp add: holds_window_def)
    then have "randomMT g = Some (temper (mt_seq x (624 + n)),
        g\<lparr>left := left g - 1, next_ix := next_ix g + 1\<rparr>)"
      using ix b(3) len by (simp add: randomMT_def cmem_simps i_def)
    moreover have "mt_after x (Suc n) (g\<lparr>left := left g - 1, next_ix := next_ix g + 1\<rparr>)"
      unfolding mt_after_def using b ix by (intro exI [of _ b]) auto
    ultimately show ?thesis using that by blast
  qed
qed

fun randoms :: "nat \<Rightarrow> mt \<Rightarrow> (i32 list \<times> mt) option" where
  "randoms 0 g = Some ([], g)"
| "randoms (Suc n) g = do { (y, g1) \<leftarrow> randomMT g; (ys, g2) \<leftarrow> randoms n g1; Some (y # ys, g2) }"

lemma randoms_ok:
  "mt_after x k g \<Longrightarrow>
   \<exists>g'. randoms n g = Some (map (\<lambda>i. temper (mt_seq x (624 + i))) [k..<k + n], g') \<and> mt_after x (k + n) g'"
proof (induction n arbitrary: k g)
  case 0
  then show ?case by simp
next
  case (Suc n)
  from randomMT_ok [OF Suc.prems] obtain g1 where
    g1: "randomMT g = Some (temper (mt_seq x (624 + k)), g1)" "mt_after x (Suc k) g1" by blast
  from Suc.IH [OF g1(2)] g1(1) show ?case by (auto simp: upt_conv_Cons simp del: upt_Suc)
qed

text \<open>C25. After seeding, any number of calls returns exactly the tempered Mersenne Twister sequence
  of the seed from index 624 on: no reload skips, repeats or reorders a number, and no array access
  is out of range.\<close>

theorem randomMT_sequence:
  assumes "length (state g) = 625"
  shows "\<exists>g1 g2. seedMT seed g = Some g1 \<and>
    randoms n g1 = Some (map (\<lambda>i. temper (mt_seq (seed OR 1) (624 + i))) [0..<n], g2)"
proof -
  obtain g1 where g1: "seedMT seed g = Some g1" "left g1 = 0" "holds_window (seed OR 1) 0 (state g1)"
    by (rule seedMT_ok [OF assms])
  then have "mt_after (seed OR 1) 0 g1" by (auto simp: mt_after_def intro: exI [of _ 0])
  from randoms_ok [OF this, of n] g1(1) show ?thesis by auto
qed

definition mt_initial :: mt where
  "mt_initial = \<lparr>state = replicate 625 0, next_ix = 0, left = -1\<rparr>"

theorem randomMT_sequence_witness:
  "\<exists>g1 g2. seedMT 4357 mt_initial = Some g1 \<and>
    randoms 2002 g1 = Some (map (\<lambda>i. temper (mt_seq (4357 OR 1) (624 + i))) [0..<2002], g2)"
  by (rule randomMT_sequence) (simp add: mt_initial_def)

text \<open>A program that never seeds gets, from its very first call on, the numbers of the seed 4357:
  the first call seeds by itself and later calls never reseed.\<close>

lemma randomMT_unseeded:
  assumes "length (state g) = 625" "left g = -1" "0 < n"
  shows "\<exists>g2. randoms n g = Some (map (\<lambda>i. temper (mt_seq 4357 (624 + i))) [0..<n], g2)"
proof -
  define g1 where "g1 = g\<lparr>left := -2\<rparr>"
  have "length (state g1) = 625" using assms(1) by (simp add: g1_def)
  then obtain g2 where g2: "seedMT 4357 g1 = Some g2" "left g2 = 0"
    "holds_window (4357 OR 1) 0 (state g2)" by (rule seedMT_ok)
  have "(4357 OR 1 :: i32) = 4357" by simp
  with g2 have inv: "mt_after 4357 0 g2" by (auto simp: mt_after_def intro: exI [of _ 0])
  have "randomMT g2 = reloadMT (g2\<lparr>left := -1\<rparr>)" using g2(2) by (simp add: randomMT_def)
  also have "\<dots> = reloadMT g1"
    using g2 by (simp add: reloadMT_def g1_def cong: option.case_cong)
  also have "\<dots> = randomMT g" using assms(2) by (simp add: randomMT_def g1_def)
  finally have "randomMT g = randomMT g2" by simp
  then have "randoms n g = randoms n g2" using assms(3) by (cases n) simp_all
  with randoms_ok [OF inv, of n] show ?thesis by auto
qed

end
