(* ===== verification/C_Strings.thy ===== *)
theory C_Strings
  imports XP_Prelude
begin

text \<open>
  The C string routines of \<open>common/strlcpy.c\<close> and \<open>common/strcasecmp.c\<close>, and the integer helpers
  of \<open>common/math.c\<close>.

  A \<open>char *\<close> is the list of the bytes from where it points to the end of its block, so advancing
  the pointer takes the tail, and reading or writing at the empty list is out of the block
  (\<open>None\<close>). A destination is returned as the bytes it holds afterwards. \<open>cstr\<close> is the string
  before the terminating NUL.
\<close>

definition cstr :: "byte list \<Rightarrow> byte list" where
  "cstr b = takeWhile (\<lambda>c. c \<noteq> 0) b"

definition terminated :: "byte list \<Rightarrow> bool" where
  "terminated b \<longleftrightarrow> 0 \<in> set b"

lemma terminated_simps [simp]:
  "\<not> terminated []" "terminated (c # b) \<longleftrightarrow> c = 0 \<or> terminated b"
  "terminated (a @ b) \<longleftrightarrow> terminated a \<or> terminated b"
  by (auto simp: terminated_def)

lemma cstr_simps [simp]: "cstr [] = []" "cstr (c # b) = (if c = 0 then [] else c # cstr b)"
  by (simp_all add: cstr_def)

lemma cstr_nonzero: "c \<in> set (cstr b) \<Longrightarrow> c \<noteq> 0"
  by (auto simp: cstr_def dest: set_takeWhileD)

lemma cstr_append: "0 \<notin> set a \<Longrightarrow> cstr (a @ b) = a @ cstr b"
  by (induction a) auto

lemma cstr_stop: "0 \<notin> set a \<Longrightarrow> cstr (a @ 0 # b) = a"
  by (simp add: cstr_append)

lemma terminated_split: "terminated b \<Longrightarrow> \<exists>r. b = cstr b @ 0 # r"
  by (induction b) auto

lemma not_terminated_cstr: "\<not> terminated b \<Longrightarrow> cstr b = b"
  by (induction b) auto

lemma length_cstr_less: "terminated b \<Longrightarrow> length (cstr b) < length b"
  by (induction b) auto

subsection \<open>Bounded copying\<close>

text \<open>\<open>while (*s && d < maxd)\<close> followed by \<open>*d = '\\0'\<close>; \<open>room\<close> is \<open>maxd - d\<close>. The result is the
  source where the copy stopped and the destination.\<close>

fun copy_loop :: "byte list \<Rightarrow> byte list \<Rightarrow> nat \<Rightarrow> (byte list \<times> byte list) option" where
  "copy_loop (c # s) (x # d) room =
     (if c \<noteq> 0 \<and> 0 < room
      then do { (s', d') \<leftarrow> copy_loop s d (room - 1); Some (s', c # d') }
      else Some (c # s, 0 # d))"
| "copy_loop _ _ _ = None"

text \<open>\<open>while (*s) s++\<close>.\<close>

fun skip_string :: "byte list \<Rightarrow> byte list option" where
  "skip_string (c # s) = (if c \<noteq> 0 then skip_string s else Some (c # s))"
| "skip_string [] = None"

definition strlcpy :: "byte list \<Rightarrow> byte list \<Rightarrow> nat \<Rightarrow> (nat \<times> byte list) option" where
  "strlcpy dest src sz =
     do { (s, dest') \<leftarrow> (if sz > 0 then copy_loop src dest (sz - 1) else Some (src, dest));
          s' \<leftarrow> skip_string s;
          Some (length src - length s', dest') }"

text \<open>\<open>while (*d && d < maxd) d++\<close>: the bytes passed over and the rest.\<close>

fun find_end :: "byte list \<Rightarrow> nat \<Rightarrow> (byte list \<times> byte list \<times> nat) option" where
  "find_end (c # d) room =
     (if c \<noteq> 0 \<and> 0 < room
      then do { (p, d', r) \<leftarrow> find_end d (room - 1); Some (c # p, d', r) }
      else Some ([], c # d, room))"
| "find_end [] _ = None"

definition strlcat :: "byte list \<Rightarrow> byte list \<Rightarrow> nat \<Rightarrow> (nat \<times> byte list) option" where
  "strlcat dest src sz =
     do { (dlen, s, dest') \<leftarrow>
            (if sz > 0
             then do { (p, d, room) \<leftarrow> find_end dest (sz - 1);
                       (s, d') \<leftarrow> copy_loop src d room;
                       Some (length p, s, p @ d') }
             else Some (0, src, dest));
          s' \<leftarrow> skip_string s;
          Some (dlen + (length src - length s'), dest') }"

lemma skip_string_ok: "terminated s \<Longrightarrow> \<exists>r. skip_string s = Some (0 # r) \<and> s = cstr s @ 0 # r"
  by (induction s) auto

lemma copy_loop_ok:
  assumes "terminated src" "room < length dest"
  shows "\<exists>s. copy_loop src dest room =
     Some (s, take room (cstr src) @ 0 # drop (Suc (length (take room (cstr src)))) dest) \<and>
     src = take room (cstr src) @ s \<and> terminated s"
  using assms
proof (induction src dest room rule: copy_loop.induct)
  case (1 c s x d room)
  show ?case
  proof (cases "c \<noteq> 0 \<and> 0 < room")
    case True
    then obtain k where k: "room = Suc k" by (cases room) auto
    with True 1 obtain s' where "copy_loop s d k =
        Some (s', take k (cstr s) @ 0 # drop (Suc (length (take k (cstr s)))) d)"
      "s = take k (cstr s) @ s'" "terminated s'"
      by auto
    with True k show ?thesis by simp
  next
    case False
    with 1 show ?thesis by auto
  qed
qed auto

lemma find_end_ok:
  assumes "room < length d"
  shows "find_end d room = Some (take room (cstr d), drop (length (take room (cstr d))) d,
    room - length (take room (cstr d)))"
  using assms
proof (induction d room rule: find_end.induct)
  case (1 c d room)
  then show ?case by (cases room) auto
qed auto

text \<open>The length of a string that stops at \<open>s'\<close>.\<close>

lemma skip_rest:
  assumes "src = t @ s" "terminated s" "0 \<notin> set t"
  shows "\<exists>s'. skip_string s = Some s' \<and> length src - length s' = length (cstr src)"
proof -
  obtain r where r: "skip_string s = Some (0 # r)" "s = cstr s @ 0 # r"
    using skip_string_ok [OF assms(2)] by blast
  have "length s = length (cstr s) + Suc (length r)" using r(2) by (metis length_append length_Cons)
  moreover have "cstr src = t @ cstr s" using assms(1,3) by (simp add: cstr_append)
  ultimately show ?thesis using r(1) assms(1) by simp
qed

lemma no_nul_take: "0 \<notin> set (take n (cstr b))"
  by (auto dest: in_set_takeD cstr_nonzero)

text \<open>Copying a string returns its full length; a destination of at least \<open>sz\<close> bytes,
  \<open>sz\<close> not zero, then holds a terminated string, the longest prefix of the source that fits
  in \<open>sz - 1\<close> bytes; bytes beyond the terminator are untouched, and a \<open>sz\<close> of zero changes
  nothing.\<close>

theorem strlcpy_correct:
  assumes "terminated src" "sz \<le> length dest"
  shows "\<exists>dest'. strlcpy dest src sz = Some (length (cstr src), dest') \<and>
    length dest' = length dest \<and>
    (if sz = 0 then dest' = dest
     else terminated dest' \<and> cstr dest' = take (sz - 1) (cstr src) \<and>
       drop (Suc (length (cstr dest'))) dest' = drop (Suc (length (cstr dest'))) dest)"
proof (cases "sz = 0")
  case True
  then show ?thesis using skip_rest [of src "[]" src] assms(1) by (auto simp: strlcpy_def)
next
  case False
  define t where "t = take (sz - 1) (cstr src)"
  define dest' where "dest' = t @ 0 # drop (Suc (length t)) dest"
  have nt: "0 \<notin> set t" unfolding t_def by (rule no_nul_take)
  have room: "sz - 1 < length dest" using assms(2) False by simp
  obtain s where s: "copy_loop src dest (sz - 1) = Some (s, dest')" "src = t @ s" "terminated s"
    using copy_loop_ok [OF assms(1) room] unfolding t_def dest'_def by blast
  obtain s' where s': "skip_string s = Some s'" "length src - length s' = length (cstr src)"
    using skip_rest [OF s(2,3) nt] by blast
  have "length t \<le> sz - 1" by (simp add: t_def)
  then have "length dest' = length dest" using assms(2) False by (simp add: dest'_def)
  moreover have "cstr dest' = t" using nt by (simp add: dest'_def cstr_stop)
  moreover have "terminated dest'" by (simp add: dest'_def)
  moreover have "drop (Suc (length t)) dest' = drop (Suc (length t)) dest" by (simp add: dest'_def)
  moreover have "strlcpy dest src sz = Some (length (cstr src), dest')"
    using False s(1) s' by (simp add: strlcpy_def)
  ultimately show ?thesis using False by (simp add: t_def)
qed

theorem strlcpy_correct_witness:
  "\<exists>dest'. strlcpy [9, 9, 9, 9, 9] [65, 66, 67, 0] 3 = Some (length (cstr [65, 66, 67, 0]), dest') \<and>
    length dest' = length [9 :: byte, 9, 9, 9, 9] \<and>
    (if (3 :: nat) = 0 then dest' = [9, 9, 9, 9, 9]
     else terminated dest' \<and> cstr dest' = take (3 - 1) (cstr [65, 66, 67, 0]) \<and>
       drop (Suc (length (cstr dest'))) dest' = drop (Suc (length (cstr dest'))) [9, 9, 9, 9, 9])"
  by (rule strlcpy_correct) simp_all

text \<open>Appending keeps the destination's string, adds the longest prefix of the source that still
  fits in \<open>sz - 1\<close> bytes, and returns the length the whole string would have; a destination that
  was full already is cut to \<open>sz - 1\<close> bytes first.\<close>

theorem strlcat_correct:
  assumes "terminated src" "0 < sz" "sz \<le> length dest"
  shows "\<exists>dest'. strlcat dest src sz =
      Some (min (length (cstr dest)) (sz - 1) + length (cstr src), dest') \<and>
    length dest' = length dest \<and> terminated dest' \<and>
    cstr dest' = take (sz - 1) (cstr dest @ cstr src)"
proof -
  define p where "p = take (sz - 1) (cstr dest)"
  define room where "room = sz - 1 - length p"
  define d where "d = drop (length p) dest"
  define t where "t = take room (cstr src)"
  have np: "0 \<notin> set p" and nt: "0 \<notin> set t" unfolding p_def t_def by (rule no_nul_take)+
  have fe: "find_end dest (sz - 1) = Some (p, d, room)"
    unfolding p_def d_def room_def by (rule find_end_ok) (use assms in simp)
  have lp: "length p \<le> sz - 1" by (simp add: p_def)
  then have room: "room < length d" using assms by (simp add: room_def d_def)
  obtain s where s: "copy_loop src d room = Some (s, t @ 0 # drop (Suc (length t)) d)"
    "src = t @ s" "terminated s"
    using copy_loop_ok [OF assms(1) room] unfolding t_def by auto
  obtain s' where s': "skip_string s = Some s'" "length src - length s' = length (cstr src)"
    using skip_rest [OF s(2,3) nt] by blast
  define dest' where "dest' = p @ t @ 0 # drop (Suc (length t)) d"
  have "length t \<le> room" by (simp add: t_def)
  then have "length dest' = length dest" using room lp assms by (simp add: dest'_def d_def)
  moreover have "cstr dest' = p @ t"
    using cstr_stop [of "p @ t"] np nt by (simp add: dest'_def)
  moreover have "p @ t = take (sz - 1) (cstr dest @ cstr src)"
    by (simp add: p_def t_def room_def min_def)
  moreover have "length p = min (length (cstr dest)) (sz - 1)" by (simp add: p_def)
  moreover have "strlcat dest src sz = Some (length p + length (cstr src), dest')"
    using assms(2) fe s(1) s' by (simp add: strlcat_def dest'_def)
  ultimately show ?thesis by (simp add: dest'_def)
qed

theorem strlcat_correct_witness:
  "\<exists>dest'. strlcat [65, 0, 9, 9, 9] [66, 67, 68, 0] 4 =
      Some (min (length (cstr [65, 0, 9, 9, 9])) (4 - 1) + length (cstr [66, 67, 68, 0]), dest') \<and>
    length dest' = length [65 :: byte, 0, 9, 9, 9] \<and> terminated dest' \<and>
    cstr dest' = take (4 - 1) (cstr [65, 0, 9, 9, 9] @ cstr [66, 67, 68, 0])"
  by (rule strlcat_correct) simp_all

subsection \<open>Comparison without case\<close>

text \<open>The C library's \<open>tolower\<close> in the C locale, on the value of a signed \<open>char\<close>.\<close>

definition tolower :: "int \<Rightarrow> int" where
  "tolower c = (if 65 \<le> c \<and> c \<le> 90 then c + 32 else c)"

definition lower :: "byte \<Rightarrow> int" where
  "lower c = tolower (sint c)"

fun strcasecmp :: "byte list \<Rightarrow> byte list \<Rightarrow> int option" where
  "strcasecmp (a # s) (b # t) =
     (if lower a = lower b \<and> lower a \<noteq> 0 then strcasecmp s t else Some (lower a - lower b))"
| "strcasecmp _ _ = None"

fun strncasecmp :: "byte list \<Rightarrow> byte list \<Rightarrow> nat \<Rightarrow> int option" where
  "strncasecmp _ _ 0 = Some 0"
| "strncasecmp (a # s) (b # t) (Suc n) =
     (if lower a = lower b \<and> lower a \<noteq> 0 then strncasecmp s t n else Some (lower a - lower b))"
| "strncasecmp _ _ (Suc n) = None"

lemma lower_zero [simp]: "lower c = 0 \<longleftrightarrow> c = 0"
proof -
  have "sint c = 0 \<longleftrightarrow> c = 0" by (rule signed_eq_0_iff)
  then show ?thesis by (auto simp: lower_def tolower_def)
qed

lemma lower_0 [simp]: "lower 0 = 0"
  by simp

text \<open>Two terminated strings compare equal exactly when their lower-case forms are, and comparing
  the other way round negates the result.\<close>

lemma strncasecmp_ok:
  assumes "terminated s" "terminated t"
  shows "\<exists>r. strncasecmp s t n = Some r \<and> strncasecmp t s n = Some (- r) \<and>
    (r = 0 \<longleftrightarrow> map lower (take n (cstr s)) = map lower (take n (cstr t)))"
  using assms
proof (induction s t n rule: strncasecmp.induct)
  case (2 a s b t n)
  show ?case
  proof (cases "lower a = lower b \<and> lower a \<noteq> 0")
    case True
    then have "a \<noteq> 0" "b \<noteq> 0" by (metis lower_zero)+
    with True 2 show ?thesis by simp
  next
    case False
    then have run: "strncasecmp (a # s) (b # t) (Suc n) = Some (lower a - lower b)"
      "strncasecmp (b # t) (a # s) (Suc n) = Some (- (lower a - lower b))"
      by (auto simp del: lower_zero)
    have "lower a = lower b \<longleftrightarrow>
        map lower (take (Suc n) (cstr (a # s))) = map lower (take (Suc n) (cstr (b # t)))"
      using False lower_zero [of a] lower_zero [of b] by (cases "a = 0"; cases "b = 0") simp_all
    with run show ?thesis by (intro exI [of _ "lower a - lower b"]) (simp del: lower_zero)
  qed
qed simp_all

lemma strncasecmp_long:
  assumes "terminated s" "length (cstr s) < n"
  shows "strncasecmp s t n = strcasecmp s t"
  using assms
proof (induction s arbitrary: t n)
  case (Cons a s)
  then obtain m where m: "n = Suc m" by (cases n) auto
  show ?case
  proof (cases t)
    case Nil
    then show ?thesis by (simp add: m)
  next
    case (Cons b t')
    show ?thesis
    proof (cases "lower a = lower b \<and> lower a \<noteq> 0")
      case True
      then have "a \<noteq> 0" by simp
      with True Cons m Cons.IH [of m t'] Cons.prems show ?thesis by simp
    next
      case False
      then show ?thesis by (auto simp: m Cons simp del: lower_zero)
    qed
  qed
qed simp

lemma strcasecmp_strings:
  assumes "0 \<notin> set x" "0 \<notin> set y"
  shows "\<exists>r. strcasecmp (x @ [0]) (y @ [0]) = Some r \<and> (r = 0 \<longleftrightarrow> map lower x = map lower y)"
proof -
  define n where "n = Suc (length x + length y)"
  have str: "terminated (x @ [0])" "terminated (y @ [0])" "cstr (x @ [0]) = x" "cstr (y @ [0]) = y"
    using assms by (simp_all add: cstr_append)
  obtain r where "strncasecmp (x @ [0]) (y @ [0]) n = Some r"
    "r = 0 \<longleftrightarrow> map lower (take n x) = map lower (take n y)"
    using strncasecmp_ok [OF str(1,2), of n] str(3,4) by auto
  moreover have "strncasecmp (x @ [0]) (y @ [0]) n = strcasecmp (x @ [0]) (y @ [0])"
    using str by (simp add: strncasecmp_long n_def)
  ultimately have "strcasecmp (x @ [0]) (y @ [0]) = Some r" "r = 0 \<longleftrightarrow> map lower x = map lower y"
    by (simp_all add: n_def)
  then show ?thesis by blast
qed

text \<open>Comparing without case: for terminated strings both routines stop inside them, the result is
  zero exactly when the strings (their first \<open>n\<close> bytes) agree up to case, comparing the other way
  round negates it, and the bounded comparison of whole strings is the unbounded one.\<close>

theorem strcasecmp_correct:
  assumes "terminated s" "terminated t"
  shows "\<exists>r k. strcasecmp s t = Some r \<and> strcasecmp t s = Some (- r) \<and>
    (r = 0 \<longleftrightarrow> map lower (cstr s) = map lower (cstr t)) \<and>
    strncasecmp s t n = Some k \<and> strncasecmp t s n = Some (- k) \<and>
    (k = 0 \<longleftrightarrow> map lower (take n (cstr s)) = map lower (take n (cstr t)))"
proof -
  define m where "m = Suc (length (cstr s) + length (cstr t))"
  have "length (cstr s) < m" "length (cstr t) < m" by (simp_all add: m_def)
  then have long: "strncasecmp s t m = strcasecmp s t" "strncasecmp t s m = strcasecmp t s"
    "take m (cstr s) = cstr s" "take m (cstr t) = cstr t"
    using assms by (simp_all add: strncasecmp_long)
  show ?thesis
    using strncasecmp_ok [OF assms, of m] strncasecmp_ok [OF assms, of n] unfolding long by blast
qed

theorem strcasecmp_correct_witness:
  "\<exists>r k. strcasecmp [79, 78, 0] [111, 110, 0] = Some r \<and> strcasecmp [111, 110, 0] [79, 78, 0] = Some (- r) \<and>
    (r = 0 \<longleftrightarrow> map lower (cstr [79, 78, 0]) = map lower (cstr [111, 110, 0])) \<and>
    strncasecmp [79, 78, 0] [111, 110, 0] 1 = Some k \<and> strncasecmp [111, 110, 0] [79, 78, 0] 1 = Some (- k) \<and>
    (k = 0 \<longleftrightarrow> map lower (take 1 (cstr [79, 78, 0])) = map lower (take 1 (cstr [111, 110, 0])))"
  by (rule strcasecmp_correct) simp_all

subsection \<open>Truth values of options\<close>

definition c_true :: "byte list" where "c_true = [116, 114, 117, 101, 0]"
definition c_on :: "byte list" where "c_on = [111, 110, 0]"
definition c_yes :: "byte list" where "c_yes = [121, 101, 115, 0]"
definition c_false :: "byte list" where "c_false = [102, 97, 108, 115, 101, 0]"
definition c_off :: "byte list" where "c_off = [111, 102, 102, 0]"
definition c_no :: "byte list" where "c_no = [110, 111, 0]"

text \<open>C's \<open>||\<close> stops at the first operand that holds.\<close>

fun matches_any :: "byte list \<Rightarrow> (byte list \<times> nat) list \<Rightarrow> bool option" where
  "matches_any s [] = Some False"
| "matches_any s ((t, n) # r) =
     do { k \<leftarrow> strncasecmp s t n; if k = 0 then Some True else matches_any s r }"

definition string_is_true :: "byte list \<Rightarrow> bool option" where
  "string_is_true optval = matches_any optval [(c_true, 4), (c_on, 2), (c_yes, 3)]"

definition string_is_false :: "byte list \<Rightarrow> bool option" where
  "string_is_false optval = matches_any optval [(c_false, 5), (c_off, 3), (c_no, 2)]"

lemma matches_any_ok:
  assumes "terminated s" "\<forall>(t, n) \<in> set r. terminated t"
  shows "matches_any s r =
    Some (\<exists>(t, n) \<in> set r. map lower (take n (cstr s)) = map lower (take n (cstr t)))"
  using assms(2)
proof (induction r)
  case (Cons p r)
  obtain t n where p: "p = (t, n)" by (cases p)
  then obtain k where "strncasecmp s t n = Some k"
    "k = 0 \<longleftrightarrow> map lower (take n (cstr s)) = map lower (take n (cstr t))"
    using strncasecmp_ok [OF assms(1), of t n] Cons.prems by auto
  with Cons p show ?case by auto
qed simp

text \<open>The two option tests always answer, and never both say yes: no value is taken for true and
  for false.\<close>

lemma string_true_false_exclusive:
  assumes "terminated optval"
  shows "\<exists>t f. string_is_true optval = Some t \<and> string_is_false optval = Some f \<and> \<not> (t \<and> f)"
proof -
  define l where "l = map lower (cstr optval)"
  have lits: "map lower (take 4 (cstr c_true)) = [116, 114, 117, 101]"
    "map lower (take 2 (cstr c_on)) = [111, 110]" "map lower (take 3 (cstr c_yes)) = [121, 101, 115]"
    "map lower (take 5 (cstr c_false)) = [102, 97, 108, 115, 101]"
    "map lower (take 3 (cstr c_off)) = [111, 102, 102]" "map lower (take 2 (cstr c_no)) = [110, 111]"
    by (simp_all add: c_true_def c_on_def c_yes_def c_false_def c_off_def c_no_def lower_def
        tolower_def signed_numeral)
  have t: "string_is_true optval = Some (take 4 l = [116, 114, 117, 101] \<or> take 2 l = [111, 110] \<or>
      take 3 l = [121, 101, 115])"
    unfolding string_is_true_def
    by (subst matches_any_ok [OF assms])
       (simp_all add: lits take_map l_def, simp_all add: c_true_def c_on_def c_yes_def)
  have f: "string_is_false optval = Some (take 5 l = [102, 97, 108, 115, 101] \<or>
      take 3 l = [111, 102, 102] \<or> take 2 l = [110, 111])"
    unfolding string_is_false_def
    by (subst matches_any_ok [OF assms])
       (simp_all add: lits take_map l_def, simp_all add: c_false_def c_off_def c_no_def)
  have two: "take 2 l = take 2 w" if "take n l = w" "2 \<le> n" for n w
    using that by (metis min.absorb1 take_take)
  have "take 2 l \<in> {[116, 114], [111, 110], [121, 101]}"
    if "take 4 l = [116, 114, 117, 101] \<or> take 2 l = [111, 110] \<or> take 3 l = [121, 101, 115]"
    using that two [of 4 "[116, 114, 117, 101]"] two [of 3 "[121, 101, 115]"] by auto
  moreover have "take 2 l \<in> {[102, 97], [111, 102], [110, 111]}"
    if "take 5 l = [102, 97, 108, 115, 101] \<or> take 3 l = [111, 102, 102] \<or> take 2 l = [110, 111]"
    using that two [of 5 "[102, 97, 108, 115, 101]"] two [of 3 "[111, 102, 102]"] by auto
  ultimately have
    "\<not> ((take 4 l = [116, 114, 117, 101] \<or> take 2 l = [111, 110] \<or> take 3 l = [121, 101, 115]) \<and>
      (take 5 l = [102, 97, 108, 115, 101] \<or> take 3 l = [111, 102, 102] \<or> take 2 l = [110, 111]))"
    by auto
  then show ?thesis unfolding t f by blast
qed

subsection \<open>Remainders\<close>

text \<open>\<open>mod\<close> of \<open>math.c\<close>; division truncates.\<close>

definition mod_c :: "int \<Rightarrow> int \<Rightarrow> int" where
  "mod_c x y =
     (let x1 = (if x \<ge> y \<or> x < 0 then x - y * c_div x y else x)
      in if x1 < 0 then x1 + y else x1)"

text \<open>For a positive modulus \<open>mod\<close> is the mathematical remainder, for negative arguments too:
  it lies in \<open>0 .. y - 1\<close> and differs from the argument by a multiple of \<open>y\<close>.\<close>

lemma mod_is_remainder:
  assumes "0 < y"
  shows "mod_c x y = x mod y"
proof (cases "x < 0")
  case True
  define r where "r = c_mod x y"
  have r: "- y < r" "r \<le> 0" "x - y * c_div x y = r"
    using c_mod_neg_bounds [OF True assms] by (simp_all add: r_def c_mod_def)
  have cong: "r mod y = x mod y" unfolding r(3) [symmetric]
    by (metis add_uminus_conv_diff mult_minus_right mod_mult_self2)
  show ?thesis
  proof (cases "r < 0")
    case neg: True
    have "r mod y = r + y" using r neg mod_pos_pos_trivial [of "r + y" y] by simp
    then show ?thesis using cong True neg r(3) by (simp add: mod_c_def Let_def)
  next
    case False
    then show ?thesis using cong True r by (simp add: mod_c_def Let_def)
  qed
next
  case False
  then show ?thesis
    using assms
    by (simp add: mod_c_def c_div_nonneg minus_mult_div_eq_mod Let_def not_less)
qed

end
