(* ===== verification/Id_Queue.thy ===== *)
theory Id_Queue
  imports XP_Prelude
begin

text \<open>
  The object identifiers of \<open>server/id.c\<close>: a ring buffer of the free identifiers with two counters
  that are never reduced and wrap around at \<open>2 ^ 32\<close>, and a table of the identifiers in use.

  The static variables are the record \<open>ids\<close>. A call of \<open>exit\<close> and an access outside an array are
  \<open>None\<close>. The contract is the locale \<open>id_pool\<close>: the identifiers in use and the free ones are always
  exactly \<open>1 .. 256\<close>, and they are handed out in the order they became free.
\<close>

definition NUM_IDS :: i32 where "NUM_IDS = 256"

record ids =
  ID_queue :: "int list"
  ID_inuse :: "int list"
  ID_inited :: bool
  get_ID :: i32
  put_ID :: i32

text \<open>The initialisation loop, from index \<open>i\<close> with identifier \<open>i + 1\<close>.\<close>

fun init_loop :: "nat \<Rightarrow> int \<Rightarrow> int list \<Rightarrow> int list \<Rightarrow> (int list \<times> int list) option" where
  "init_loop 0 i q u = Some (q, u)"
| "init_loop (Suc k) i q u =
     do { q' \<leftarrow> buf_set i (i + 1) q; u' \<leftarrow> buf_set (i + 1) 0 u; init_loop k (i + 1) q' u' }"

definition init_ID :: "ids \<Rightarrow> ids option" where
  "init_ID s =
     do { s1 \<leftarrow> (if \<not> ID_inited s
                 then do { (q, u) \<leftarrow> init_loop (unat NUM_IDS) 0 (ID_queue s) (ID_inuse s);
                           Some (s\<lparr>ID_inited := True, ID_queue := q, ID_inuse := u,
                                  get_ID := 0, put_ID := NUM_IDS\<rparr>) }
                 else Some s);
          if put_ID s1 - get_ID s1 > NUM_IDS then None else Some s1 }"

definition peek_ID :: "ids \<Rightarrow> (int \<times> ids) option" where
  "peek_ID s =
     do { s1 \<leftarrow> init_ID s;
          if get_ID s1 = put_ID s1 then Some (0, s1)
          else do { i \<leftarrow> buf_at (uint (get_ID s1 mod NUM_IDS)) (ID_queue s1); Some (i, s1) } }"

definition request_ID :: "ids \<Rightarrow> (int \<times> ids) option" where
  "request_ID s =
     do { (i, s1) \<leftarrow> peek_ID s;
          if i \<noteq> 0
          then do { u \<leftarrow> buf_set i 1 (ID_inuse s1);
                    Some (i, s1\<lparr>get_ID := get_ID s1 + 1, ID_inuse := u\<rparr>) }
          else Some (i, s1) }"

definition release_ID :: "int \<Rightarrow> ids \<Rightarrow> ids option" where
  "release_ID i s =
     do { s1 \<leftarrow> init_ID s;
          if put_ID s1 - get_ID s1 = NUM_IDS \<or> i \<le> 0 \<or> i > uint NUM_IDS then None
          else do {
            b \<leftarrow> buf_at i (ID_inuse s1);
            if b \<noteq> 1 then None
            else do {
              q \<leftarrow> buf_set (uint (put_ID s1 mod NUM_IDS)) i (ID_queue s1);
              u \<leftarrow> buf_set i 0 (ID_inuse s1);
              Some (s1\<lparr>ID_queue := q, put_ID := put_ID s1 + 1, ID_inuse := u\<rparr>) } } }"

definition ids_initial :: ids where
  "ids_initial = \<lparr>ID_queue = replicate 256 0, ID_inuse = replicate 257 0, ID_inited = False,
     get_ID = 0, put_ID = 0\<rparr>"

subsection \<open>The contract\<close>

text \<open>The specification: a queue of free identifiers and the set of those in use. A request takes the
  oldest free identifier, or yields 0; releasing an identifier that is not in use is fatal.\<close>

datatype id_event = Request | Release int

fun pool_run :: "id_event list \<Rightarrow> int list \<Rightarrow> int set \<Rightarrow> (int list \<times> int list \<times> int set) option" where
  "pool_run [] fr us = Some ([], fr, us)"
| "pool_run (Request # es) [] us = do { (out, r) \<leftarrow> pool_run es [] us; Some (0 # out, r) }"
| "pool_run (Request # es) (i # fr) us =
     do { (out, r) \<leftarrow> pool_run es fr (insert i us); Some (i # out, r) }"
| "pool_run (Release i # es) fr us =
     (if i \<in> us then pool_run es (fr @ [i]) (us - {i}) else None)"

text \<open>A run of an implementation.\<close>

primrec id_run ::
  "('s \<Rightarrow> (int \<times> 's) option) \<Rightarrow> (int \<Rightarrow> 's \<Rightarrow> 's option) \<Rightarrow> id_event list \<Rightarrow> 's \<Rightarrow> (int list \<times> 's) option" where
  "id_run request release [] s = Some ([], s)"
| "id_run request release (e # es) s =
     (case e of
        Request \<Rightarrow> do { (i, s1) \<leftarrow> request s; (out, s2) \<leftarrow> id_run request release es s1; Some (i # out, s2) }
      | Release i \<Rightarrow> do { s1 \<leftarrow> release i s; id_run request release es s1 })"

locale id_pool =
  fixes holds :: "'s \<Rightarrow> int list \<Rightarrow> int set \<Rightarrow> bool"
    and request :: "'s \<Rightarrow> (int \<times> 's) option"
    and release :: "int \<Rightarrow> 's \<Rightarrow> 's option"
  assumes request_some: "holds s (i # fr) us \<Longrightarrow> \<exists>s'. request s = Some (i, s') \<and> holds s' fr (insert i us)"
    and request_none: "holds s [] us \<Longrightarrow> \<exists>s'. request s = Some (0, s') \<and> holds s' [] us"
    and release_used: "holds s fr us \<Longrightarrow> i \<in> us \<Longrightarrow>
      \<exists>s'. release i s = Some s' \<and> holds s' (fr @ [i]) (us - {i})"
    and release_unused: "holds s fr us \<Longrightarrow> i \<notin> us \<Longrightarrow> release i s = None"
begin

lemma run_refines:
  assumes "holds s fr us"
  shows "map_option fst (id_run request release es s) = map_option fst (pool_run es fr us) \<and>
    (\<forall>out fr' us'. pool_run es fr us = Some (out, fr', us') \<longrightarrow>
       (\<exists>s'. id_run request release es s = Some (out, s') \<and> holds s' fr' us'))"
  using assms
proof (induction es fr us arbitrary: s rule: pool_run.induct)
  case (2 es us)
  from request_none [OF 2(2)] obtain s1 where "request s = Some (0, s1)" "holds s1 [] us" by blast
  with 2(1) [of s1] show ?case
    by (cases "pool_run es [] us"; cases "id_run request release es s1") auto
next
  case (3 es i fr us)
  from request_some [OF 3(2)] obtain s1 where "request s = Some (i, s1)" "holds s1 fr (insert i us)"
    by blast
  with 3(1) [of s1] show ?case
    by (cases "pool_run es fr (insert i us)"; cases "id_run request release es s1") auto
next
  case (4 i es fr us)
  show ?case
  proof (cases "i \<in> us")
    case True
    from release_used [OF 4(2) True] obtain s1 where
      "release i s = Some s1" "holds s1 (fr @ [i]) (us - {i})" by blast
    with 4(1) True show ?thesis by simp
  next
    case False
    then show ?thesis using release_unused [OF 4(2)] by simp
  qed
qed simp

end

subsection \<open>The ring buffer implements the queue\<close>

definition ring :: "ids \<Rightarrow> int list \<Rightarrow> int set \<Rightarrow> bool" where
  "ring s fr us \<longleftrightarrow> ID_inited s \<and> length (ID_queue s) = 256 \<and> length (ID_inuse s) = 257 \<and>
     length fr \<le> 256 \<and> put_ID s = get_ID s + of_nat (length fr) \<and>
     (\<forall>k < length fr. ID_queue s ! ((unat (get_ID s) + k) mod 256) = fr ! k) \<and>
     distinct fr \<and> set fr \<inter> us = {} \<and> set fr \<union> us = {1..256} \<and>
     (\<forall>i \<in> {1..256}. ID_inuse s ! nat i = (if i \<in> us then 1 else 0))"

definition ids_hold :: "ids \<Rightarrow> int list \<Rightarrow> int set \<Rightarrow> bool" where
  "ids_hold s fr us \<longleftrightarrow> (\<exists>s1. init_ID s = Some s1 \<and> ring s1 fr us)"

lemma len_word:
  assumes "n \<le> 256"
  shows "(of_nat n :: i32) \<le> NUM_IDS" "(of_nat n :: i32) = NUM_IDS \<longleftrightarrow> n = 256"
    "(of_nat n :: i32) = 0 \<longleftrightarrow> n = 0"
proof -
  have u: "unat (of_nat n :: i32) = n" using assms by (simp add: unat_of_nat)
  then show "(of_nat n :: i32) \<le> NUM_IDS" using assms by (simp add: word_le_nat_alt NUM_IDS_def)
  show "(of_nat n :: i32) = NUM_IDS \<longleftrightarrow> n = 256" "(of_nat n :: i32) = 0 \<longleftrightarrow> n = 0"
    unfolding word_unat_eq_iff u by (simp_all add: NUM_IDS_def)
qed

text \<open>256 divides \<open>2 ^ 32\<close>, so the ring position survives the wrap-around of the counters.\<close>

lemma ring_index: "uint ((g + of_nat n :: i32) mod NUM_IDS) = int ((unat g + n) mod 256)"
proof -
  have "unat ((g + of_nat n :: i32) mod NUM_IDS) = (unat g + n) mod 2 ^ 32 mod 256"
    by (simp add: unat_mod NUM_IDS_def unat_word_ariths unat_of_nat mod_simps)
  also have "\<dots> = (unat g + n) mod 256" by (rule mod_mod_cancel) simp
  finally show ?thesis by (metis uint_nat)
qed

lemma ring_next: "(unat (g + 1 :: i32) + k) mod 256 = (unat g + Suc k) mod 256"
proof -
  have "unat (g + 1) mod 256 = (unat g + 1) mod 256"
    using ring_index [of g 1] ring_index [of "g + 1" 0] by simp
  then have "(unat (g + 1) + k) mod 256 = ((unat g + 1) + k) mod 256" by (metis mod_add_left_eq)
  then show ?thesis by simp
qed

lemma init_ring: "ring s fr us \<Longrightarrow> init_ID s = Some s"
  using len_word(1) [of "length fr"] by (auto simp: ring_def init_ID_def)

lemma ids_hold_ring: "ring s fr us \<Longrightarrow> ids_hold s fr us"
  using init_ring by (auto simp: ids_hold_def)

lemma init_loop_ok:
  assumes "length rq = k" "length ru = k" "length pu = Suc (length pq)"
  shows "init_loop k (int (length pq)) (pq @ rq) (pu @ ru) =
    Some (pq @ map int [Suc (length pq)..<Suc (length pq + k)], pu @ replicate k 0)"
  using assms
proof (induction k arbitrary: pq pu rq ru)
  case 0
  then show ?case by simp
next
  case (Suc k)
  then obtain x xs y ys where r: "rq = x # xs" "ru = y # ys" "length xs = k" "length ys = k"
    by (auto simp: length_Suc_conv)
  define v where "v = 1 + int (length pq)"
  have "init_loop k (int (length (pq @ [v]))) ((pq @ [v]) @ xs) ((pu @ [0]) @ ys) =
    Some ((pq @ [v]) @ map int [Suc (length (pq @ [v]))..<Suc (length (pq @ [v]) + k)],
          (pu @ [0]) @ replicate k 0)"
    by (rule Suc.IH) (use r Suc.prems(3) in simp_all)
  then have ih: "init_loop k v (pq @ v # xs) (pu @ 0 # ys) =
    Some (pq @ v # map int [Suc (Suc (length pq))..<Suc (Suc (length pq) + k)], pu @ 0 # replicate k 0)"
    by (simp add: v_def)
  have "buf_set (int (length pq)) v (pq @ x # xs) = Some (pq @ v # xs)" by (simp add: cmem_simps)
  moreover have "buf_set v 0 (pu @ y # ys) = Some (pu @ 0 # ys)"
    using Suc.prems(3) by (simp add: cmem_simps v_def nat_add_distrib list_update_append)
  ultimately have "init_loop (Suc k) (int (length pq)) (pq @ rq) (pu @ ru) =
    Some (pq @ v # map int [Suc (Suc (length pq))..<Suc (Suc (length pq) + k)], pu @ 0 # replicate k 0)"
    using ih r(1,2) by (simp add: v_def add.commute)
  moreover have "map int [Suc (length pq)..<Suc (length pq + Suc k)] =
      v # map int [Suc (Suc (length pq))..<Suc (Suc (length pq) + k)]"
    by (subst upt_rec) (simp add: v_def)
  ultimately show ?case by simp
qed

text \<open>An uninitialised queue, whatever its arrays hold, holds all identifiers in order.\<close>

lemma initial_holds:
  assumes "\<not> ID_inited s" "length (ID_queue s) = 256" "length (ID_inuse s) = 257"
  shows "ids_hold s (map int [1..<257]) {}"
proof -
  obtain y ru where u: "ID_inuse s = [y] @ ru" "length ru = 256"
    using assms(3) by (cases "ID_inuse s") auto
  have "init_loop 256 (int (length ([] :: int list))) ([] @ ID_queue s) ([y] @ ru) =
    Some ([] @ map int [Suc (length ([] :: int list))..<Suc (length ([] :: int list) + 256)], [y] @ replicate 256 0)"
    by (rule init_loop_ok) (use assms(2) u in simp_all)
  then have loop: "init_loop 256 0 (ID_queue s) (ID_inuse s) =
    Some (map int [1..<257], y # replicate 256 0)"
    by (simp add: u(1) del: upt_Suc upt_conv_Cons_Cons)
  define s1 where "s1 = s\<lparr>ID_inited := True, ID_queue := map int [1..<257],
    ID_inuse := y # replicate 256 0, get_ID := 0, put_ID := NUM_IDS\<rparr>"
  have "init_ID s = Some s1"
    using assms(1) loop by (simp add: init_ID_def s1_def NUM_IDS_def)
  moreover have "ring s1 (map int [1..<257]) {}"
  proof -
    have "set (map int [1..<257]) = {1..256}"
    proof -
      have "int ` {1..<257} = {1..256}"
        by (simp add: image_int_atLeastLessThan) auto
      then show ?thesis by simp
    qed
    moreover have "distinct (map int [1..<257])" by (simp add: distinct_map)
    moreover have "(y # replicate 256 0) ! nat i = (0 :: int)" if "i \<in> {1..256}" for i
      using that by (cases "nat i") auto
    ultimately show ?thesis
      by (simp add: ring_def s1_def NUM_IDS_def del: set_map upt_Suc)
  qed
  ultimately show ?thesis by (auto simp: ids_hold_def)
qed

lemma request_first:
  assumes "ring s (i # fr) us"
  obtains s' where "request_ID s = Some (i, s')" "ring s' fr (insert i us)"
proof -
  have r: "length (ID_queue s) = 256" "length (ID_inuse s) = 257" "Suc (length fr) \<le> 256"
    "put_ID s = get_ID s + of_nat (Suc (length fr))"
    "\<forall>k < Suc (length fr). ID_queue s ! ((unat (get_ID s) + k) mod 256) = (i # fr) ! k"
    "i \<notin> us" "i \<notin> set fr" "distinct fr" "set fr \<inter> us = {}" "insert i (set fr) \<union> us = {1..256}"
    "\<forall>j \<in> {1..256}. ID_inuse s ! nat j = (if j \<in> us then 1 else 0)" "ID_inited s"
    using assms by (auto simp: ring_def)
  have i: "i \<in> {1..256}" using r(10) by blast
  define s' where "s' = s\<lparr>get_ID := get_ID s + 1, ID_inuse := (ID_inuse s)[nat i := 1]\<rparr>"
  have "get_ID s \<noteq> put_ID s" using len_word(3) [OF r(3)] r(4) by (metis add_cancel_left_right nat.distinct(1))
  moreover have "buf_at (uint (get_ID s mod NUM_IDS)) (ID_queue s) = Some i"
  proof -
    have "uint (get_ID s mod NUM_IDS) = int (unat (get_ID s) mod 256)"
      using ring_index [of "get_ID s" 0] by simp
    moreover have "ID_queue s ! (unat (get_ID s) mod 256) = i"
      using spec [OF r(5), of 0] by simp
    ultimately show ?thesis using r(1) by (simp add: buf_at_def)
  qed
  moreover have "buf_set i 1 (ID_inuse s) = Some ((ID_inuse s)[nat i := 1])"
    using i r(2) by (simp add: cmem_simps)
  ultimately have "request_ID s = Some (i, s')"
    using init_ring [OF assms] i by (simp add: request_ID_def peek_ID_def s'_def)
  moreover have "ring s' fr (insert i us)"
  proof -
    have "ID_queue s ! ((unat (get_ID s + 1) + k) mod 256) = fr ! k" if "k < length fr" for k
      using spec [OF r(5), of "Suc k"] that by (simp only: ring_next) simp
    moreover have "(ID_inuse s)[nat i := 1] ! nat j = (if j \<in> insert i us then 1 else 0)"
      if "j \<in> {1..256}" for j
      using that r(2,11) i by (auto simp: nth_list_update nat_eq_iff)
    moreover have "get_ID s + of_nat (Suc (length fr)) = get_ID s + 1 + of_nat (length fr)" by simp
    ultimately show ?thesis using r by (auto simp: ring_def s'_def)
  qed
  ultimately show ?thesis using that by blast
qed

lemma request_empty:
  assumes "ring s [] us"
  shows "request_ID s = Some (0, s)"
  using assms init_ring [OF assms] by (simp add: request_ID_def peek_ID_def ring_def)

lemma release_in_use:
  assumes "ring s fr us" "i \<in> us"
  obtains s' where "release_ID i s = Some s'" "ring s' (fr @ [i]) (us - {i})"
proof -
  have r: "length (ID_queue s) = 256" "length (ID_inuse s) = 257" "length fr \<le> 256"
    "put_ID s = get_ID s + of_nat (length fr)"
    "\<forall>k < length fr. ID_queue s ! ((unat (get_ID s) + k) mod 256) = fr ! k"
    "distinct fr" "set fr \<inter> us = {}" "set fr \<union> us = {1..256}"
    "\<forall>j \<in> {1..256}. ID_inuse s ! nat j = (if j \<in> us then 1 else 0)" "ID_inited s"
    using assms by (auto simp: ring_def)
  have i: "i \<in> {1..256}" "i \<notin> set fr" using assms(2) r(7,8) by auto
  have "insert i (set fr) \<subseteq> {1..256}" using i r(8) by blast
  then have "card (insert i (set fr)) \<le> card {1..256 :: int}" by (rule card_mono [rotated]) simp
  then have len: "length fr < 256" using i(2) r(6) by (simp add: distinct_card)
  define pos where "pos = (unat (get_ID s) + length fr) mod 256"
  have pos: "uint (put_ID s mod NUM_IDS) = int pos" "pos < 256"
    unfolding r(4) pos_def by (rule ring_index) simp
  define s' where "s' = s\<lparr>ID_queue := (ID_queue s)[pos := i], put_ID := put_ID s + 1,
    ID_inuse := (ID_inuse s)[nat i := 0]\<rparr>"
  have "put_ID s - get_ID s \<noteq> NUM_IDS" using len_word(2) [of "length fr"] len r(4) by simp
  moreover have "buf_at i (ID_inuse s) = Some 1"
    using i r(2) bspec [OF r(9) i(1)] assms(2) by (simp add: cmem_simps)
  moreover have "buf_set i 0 (ID_inuse s) = Some ((ID_inuse s)[nat i := 0])"
    using i r(2) by (simp add: cmem_simps)
  moreover have "buf_set (int pos) i (ID_queue s) = Some ((ID_queue s)[pos := i])"
    using pos(2) r(1) by (simp add: cmem_simps)
  ultimately have "release_ID i s = Some s'"
    using init_ring [OF assms(1)] i pos(1) by (simp add: release_ID_def s'_def NUM_IDS_def)
  moreover have "ring s' (fr @ [i]) (us - {i})"
  proof -
    have q: "(ID_queue s)[pos := i] ! ((unat (get_ID s) + k) mod 256) = (fr @ [i]) ! k"
      if "k < Suc (length fr)" for k
    proof (cases "k = length fr")
      case True
      then show ?thesis using pos r(1) by (simp add: pos_def)
    next
      case False
      with that have k: "k < length fr" by simp
      have "(unat (get_ID s) + k) mod 256 \<noteq> pos"
      proof
        assume "(unat (get_ID s) + k) mod 256 = pos"
        then have "256 dvd (unat (get_ID s) + length fr) - (unat (get_ID s) + k)"
          unfolding pos_def by (intro mod_eq_dvd_iff_nat [THEN iffD1]) (use k in auto)
        then have "256 dvd length fr - k" by simp
        then show False using len k by (auto dest: dvd_imp_le)
      qed
      then show ?thesis using r(5) k by (simp add: nth_append)
    qed
    have u: "(ID_inuse s)[nat i := 0] ! nat j = (if j \<in> us - {i} then 1 else 0)" if "j \<in> {1..256}" for j
      using that r(2,9) i by (auto simp: nth_list_update nat_eq_iff)
    show ?thesis using q u r i assms(2) len by (auto simp: ring_def s'_def)
  qed
  ultimately show ?thesis using that by blast
qed

lemma release_not_in_use:
  assumes "ring s fr us" "i \<notin> us"
  shows "release_ID i s = None"
proof (cases "i \<in> {1..256}")
  case True
  then have "buf_at i (ID_inuse s) = Some 0"
    using assms by (auto simp: ring_def cmem_simps)
  then show ?thesis using init_ring [OF assms(1)] by (simp add: release_ID_def)
next
  case False
  then show ?thesis using init_ring [OF assms(1)] by (auto simp: release_ID_def NUM_IDS_def)
qed

text \<open>Every operation begins with \<open>init_ID\<close>, so a state behaves as its initialised form.\<close>

lemma after_init:
  assumes "init_ID s = Some s1" "init_ID s1 = Some s1"
  shows "request_ID s = request_ID s1" "release_ID i s = release_ID i s1"
  using assms by (simp_all add: request_ID_def peek_ID_def release_ID_def)

interpretation object_ids: id_pool ids_hold request_ID release_ID
proof
  fix s i fr us
  assume "ids_hold s (i # fr) us"
  then obtain s1 where s1: "init_ID s = Some s1" "ring s1 (i # fr) us" by (auto simp: ids_hold_def)
  show "\<exists>s'. request_ID s = Some (i, s') \<and> ids_hold s' fr (insert i us)"
    using after_init(1) [OF s1(1) init_ring [OF s1(2)]] request_first [OF s1(2)] ids_hold_ring by metis
next
  fix s us
  assume "ids_hold s [] us"
  then obtain s1 where s1: "init_ID s = Some s1" "ring s1 [] us" by (auto simp: ids_hold_def)
  show "\<exists>s'. request_ID s = Some (0, s') \<and> ids_hold s' [] us"
    using after_init(1) [OF s1(1) init_ring [OF s1(2)]] request_empty [OF s1(2)] ids_hold_ring [OF s1(2)]
    by metis
next
  fix s fr us i
  assume "ids_hold s fr us"
  then obtain s1 where s1: "init_ID s = Some s1" "ring s1 fr us" by (auto simp: ids_hold_def)
  note same = after_init(2) [OF s1(1) init_ring [OF s1(2)]]
  show "\<exists>s'. release_ID i s = Some s' \<and> ids_hold s' (fr @ [i]) (us - {i})" if "i \<in> us"
    unfolding same using release_in_use [OF s1(2) that] ids_hold_ring by metis
  show "release_ID i s = None" if "i \<notin> us"
    unfolding same using release_not_in_use [OF s1(2) that] .
qed

subsection \<open>Properties\<close>

text \<open>C20. From the program's start, any sequence of requests and releases behaves as the specified pool
  over the identifiers 1 to 256 does: identifiers are handed out in the order they became free, 0
  exactly when all 256 are in use, and releasing an identifier that is not in use, or is out of
  range, ends the program; this holds however often the counters wrap around.\<close>

theorem id_pool_refined:
  assumes "\<not> ID_inited s" "length (ID_queue s) = 256" "length (ID_inuse s) = 257"
  shows "map_option fst (id_run request_ID release_ID es s) =
         map_option fst (pool_run es (map int [1..<257]) {})"
  using object_ids.run_refines [OF initial_holds [OF assms]] by blast

theorem id_pool_refined_witness:
  "map_option fst (id_run request_ID release_ID [Request, Request, Release 1, Request] ids_initial) =
   map_option fst (pool_run [Request, Request, Release 1, Request] (map int [1..<257]) {})"
  by (rule id_pool_refined) (simp_all add: ids_initial_def)

text \<open>The specified pool never hands out an identifier in use and never loses one.\<close>

lemma pool_run_partition:
  assumes "pool_run es fr us = Some (out, fr', us')"
    "distinct fr" "set fr \<inter> us = {}" "set fr \<union> us = U"
  shows "distinct fr' \<and> set fr' \<inter> us' = {} \<and> set fr' \<union> us' = U"
  using assms
proof (induction es fr us arbitrary: out rule: pool_run.induct)
  case (4 i es fr us)
  then show ?case by (auto split: if_splits)
qed (auto elim!: bind_SomeE)

text \<open>At any moment the identifiers in use and the free ones are exactly 1 to 256: a request returns
  an identifier of that range that is not in use, or 0 only when all 256 are in use; so no two
  objects share an identifier and a released one is never lost.\<close>

theorem request_ID_unique:
  assumes "\<not> ID_inited s" "length (ID_queue s) = 256" "length (ID_inuse s) = 257"
    "id_run request_ID release_ID es s = Some (out, s1)" "request_ID s1 = Some (i, s2)"
  shows "\<exists>fr us. pool_run es (map int [1..<257]) {} = Some (out, fr, us) \<and>
    set fr \<union> us = {1..256} \<and> i \<notin> us \<and> (i = 0 \<longrightarrow> us = {1..256}) \<and> (i \<noteq> 0 \<longrightarrow> i \<in> {1..256})"
proof -
  note ref = object_ids.run_refines [OF initial_holds [OF assms(1-3)], of es]
  then obtain fr us where p: "pool_run es (map int [1..<257]) {} = Some (out, fr, us)"
    using assms(4) by (cases "pool_run es (map int [1..<257]) {}") auto
  with ref assms(4) have h: "ids_hold s1 fr us" by auto
  then obtain s' where "ring s' fr us" by (auto simp: ids_hold_def)
  then have u: "set fr \<union> us = {1..256}" "set fr \<inter> us = {}" by (auto simp: ring_def)
  show ?thesis
  proof (cases fr)
    case Nil
    then have "i = 0" using object_ids.request_none h assms(5) by fastforce
    then show ?thesis using p u Nil by auto
  next
    case (Cons j r)
    then have "i = j" using object_ids.request_some h assms(5) by fastforce
    moreover from this have "i \<in> {1..256}" using u Cons by auto
    ultimately show ?thesis using p u Cons by auto
  qed
qed

theorem request_ID_unique_witness:
  "\<exists>out s1 i s2. id_run request_ID release_ID [Request] ids_initial = Some (out, s1) \<and>
     request_ID s1 = Some (i, s2) \<and>
     (\<exists>fr us. pool_run [Request] (map int [1..<257]) {} = Some (out, fr, us) \<and>
       set fr \<union> us = {1..256} \<and> i \<notin> us \<and> (i = 0 \<longrightarrow> us = {1..256}) \<and> (i \<noteq> 0 \<longrightarrow> i \<in> {1..256}))"
proof -
  have init: "\<not> ID_inited ids_initial" "length (ID_queue ids_initial) = 256"
    "length (ID_inuse ids_initial) = 257"
    by (simp_all add: ids_initial_def)
  have u: "map int [1..<257] = 1 # 2 # map int [3..<257]"
    by code_simp
  have "ids_hold ids_initial (1 # 2 # map int [3..<257]) {}"
    using initial_holds [OF init] by (simp only: u)
  from object_ids.request_some [OF this] obtain s1 where
    s1: "request_ID ids_initial = Some (1, s1)" "ids_hold s1 (2 # map int [3..<257]) {1}" by blast
  from object_ids.request_some [OF s1(2)] obtain s2 where s2: "request_ID s1 = Some (2, s2)" by blast
  have "id_run request_ID release_ID [Request] ids_initial = Some ([1], s1)" using s1(1) by simp
  with request_ID_unique [OF init this s2] s2 show ?thesis by blast
qed

end
