(* ===== verification/Sockbuf.thy ===== *)
theory Sockbuf
  imports XP_Prelude
begin

text \<open>
  The socket buffers of \<open>common/net.c\<close> and the two system calls under them.

  A \<open>sockbuf_t\<close> is the record \<open>sockbuf\<close>: \<open>sb_buf\<close> is the allocated block (\<open>None\<close> for the
  null pointer), \<open>sb_ptr\<close> the offset of the read pointer from the start of the block. The
  operating system is the record \<open>os\<close>: the results that the coming \<open>send\<close>, \<open>recv\<close> and
  \<open>getsockopt\<close> calls will return, in order, the value of \<open>errno\<close> and the log of the
  payloads accepted for transmission. A theorem holds for every such script, so for every
  behaviour of the network. A call after the end of its script finds a non-blocking socket
  that is not ready (\<open>EWOULDBLOCK\<close>, or no pending error). Diagnostic output by \<open>error()\<close>
  and the static counters that only throttle it are not modelled.
\<close>

subsection \<open>Data\<close>

definition SOCKBUF_READ :: i32 where "SOCKBUF_READ = 0x01"
definition SOCKBUF_WRITE :: i32 where "SOCKBUF_WRITE = 0x02"
definition SOCKBUF_LOCK :: i32 where "SOCKBUF_LOCK = 0x04"
definition SOCKBUF_DGRAM :: i32 where "SOCKBUF_DGRAM = 0x10"

definition SOCKBUF_WRITE_SPARE :: int where "SOCKBUF_WRITE_SPARE = 8"
definition MAX_SOCKBUF_RETRIES :: int where "MAX_SOCKBUF_RETRIES = 2"

record sockbuf =
  sb_sock :: int
  sb_buf :: "byte list option"
  sb_size :: int
  sb_len :: int
  sb_ptr :: int
  sb_state :: i32

datatype errno = ENONE | EWOULDBLOCK | EAGAIN | EINTR | EOTHER

datatype send_res = SendOk nat | SendErr errno
datatype recv_res = RecvData "byte list" | RecvErr errno

record os =
  os_errno :: errno
  os_sends :: "send_res list"
  os_recvs :: "recv_res list"
  os_sockerrs :: "errno option list"
  os_sent :: "byte list list"

subsection \<open>System calls\<close>

text \<open>\<open>send\<close> accepts at most the given bytes; a positive count is logged.\<close>

definition DgramWrite :: "byte list \<Rightarrow> os \<Rightarrow> int \<times> os" where
  "DgramWrite d s =
     (case os_sends s of
        [] \<Rightarrow> (-1, s\<lparr>os_errno := EWOULDBLOCK\<rparr>)
      | SendOk n # r \<Rightarrow>
          (let k = min n (length d) in
           (int k, s\<lparr>os_sends := r,
                     os_sent := os_sent s @ (if k = 0 then [] else [take k d])\<rparr>))
      | SendErr e # r \<Rightarrow> (-1, s\<lparr>os_sends := r, os_errno := e\<rparr>))"

text \<open>\<open>recv\<close> delivers at most \<open>n\<close> bytes.\<close>

definition DgramRead :: "int \<Rightarrow> os \<Rightarrow> (int \<times> byte list) \<times> os" where
  "DgramRead n s =
     (case os_recvs s of
        [] \<Rightarrow> ((-1, []), s\<lparr>os_errno := EWOULDBLOCK\<rparr>)
      | RecvData d # r \<Rightarrow>
          (let d' = take (nat n) d in ((int (length d'), d'), s\<lparr>os_recvs := r\<rparr>))
      | RecvErr e # r \<Rightarrow> ((-1, []), s\<lparr>os_recvs := r, os_errno := e\<rparr>))"

definition GetSocketError :: "os \<Rightarrow> int \<times> os" where
  "GetSocketError s =
     (case os_sockerrs s of
        [] \<Rightarrow> (0, s\<lparr>os_errno := ENONE\<rparr>)
      | None # r \<Rightarrow> (-1, s\<lparr>os_sockerrs := r\<rparr>)
      | Some e # r \<Rightarrow> (0, s\<lparr>os_sockerrs := r, os_errno := e\<rparr>))"

subsection \<open>Buffer operations\<close>

text \<open>The allocator either fails or hands out a block with arbitrary contents \<open>g\<close>.\<close>

definition Sockbuf_init ::
  "sockbuf \<Rightarrow> int \<Rightarrow> int \<Rightarrow> i32 \<Rightarrow> (nat \<Rightarrow> byte) option \<Rightarrow> int \<times> sockbuf" where
  "Sockbuf_init sb sock sz st mem =
     (case mem of
        None \<Rightarrow> (-1, sb\<lparr>sb_buf := None, sb_ptr := 0\<rparr>)
      | Some g \<Rightarrow>
          (0, sb\<lparr>sb_buf := Some (map g [0..<nat sz]), sb_sock := sock, sb_state := st,
                 sb_len := 0, sb_size := sz, sb_ptr := 0\<rparr>))"

definition Sockbuf_cleanup :: "sockbuf \<Rightarrow> sockbuf" where
  "Sockbuf_cleanup sb =
     sb\<lparr>sb_buf := None, sb_ptr := 0, sb_size := 0, sb_len := 0, sb_state := 0\<rparr>"

definition Sockbuf_clear :: "sockbuf \<Rightarrow> sockbuf" where
  "Sockbuf_clear sb = sb\<lparr>sb_len := 0, sb_ptr := 0\<rparr>"

definition Sockbuf_advance :: "int \<Rightarrow> sockbuf \<Rightarrow> sockbuf option" where
  "Sockbuf_advance n sb =
     (let sb1 = (if sb_ptr sb > sb_len sb then sb\<lparr>sb_ptr := sb_len sb\<rparr> else sb);
          sb2 = (if sb_ptr sb1 < 0 then sb1\<lparr>sb_ptr := 0\<rparr> else sb1);
          sb3 = (if sb_len sb2 > sb_size sb2 then sb2\<lparr>sb_len := sb_size sb2\<rparr> else sb2);
          sb4 = (if sb_len sb3 < 0 then sb3\<lparr>sb_len := 0\<rparr> else sb3)
      in if n \<le> 0 then Some sb4
         else if n \<ge> sb_len sb4 then Some (sb4\<lparr>sb_len := 0, sb_ptr := 0\<rparr>)
         else do {
           b \<leftarrow> sb_buf sb4;
           rest \<leftarrow> buf_get n (sb_len sb4 - n) b;
           b' \<leftarrow> buf_put 0 rest b;
           Some (sb4\<lparr>sb_buf := Some b', sb_len := sb_len sb4 - n,
                     sb_ptr := (if sb_ptr sb4 \<le> n then 0 else sb_ptr sb4 - n)\<rparr>)
         })"

text \<open>The retry loop of a datagram \<open>send\<close>: how it left the loop.\<close>

datatype io_end = IoDone int | IoAgain | IoFailed bool
  \<comment> \<open>\<open>IoFailed True\<close>: retries used up; \<open>IoFailed False\<close>: the socket error could not be read\<close>

lemma DgramWrite_fewer:
  assumes "DgramWrite d s = (n, s1)" "os_errno s1 \<noteq> EWOULDBLOCK"
  shows "length (os_sends s1) < length (os_sends s)"
  using assms by (auto simp: DgramWrite_def Let_def split: list.splits send_res.splits)

lemma DgramRead_fewer:
  assumes "DgramRead k s = ((n, d), s1)" "os_errno s1 \<noteq> EWOULDBLOCK"
  shows "length (os_recvs s1) < length (os_recvs s)"
  using assms by (auto simp: DgramRead_def Let_def split: list.splits recv_res.splits)

lemma GetSocketError_scripts [simp]:
  "GetSocketError s = (r, s1) \<Longrightarrow> os_sends s1 = os_sends s"
  "GetSocketError s = (r, s1) \<Longrightarrow> os_recvs s1 = os_recvs s"
  "GetSocketError s = (r, s1) \<Longrightarrow> os_sent s1 = os_sent s"
  by (auto simp: GetSocketError_def split: list.splits option.splits)

function flush_dgram :: "byte list \<Rightarrow> int \<Rightarrow> os \<Rightarrow> io_end \<times> os" where
  "flush_dgram d i s =
     (case DgramWrite d s of (n, s1) \<Rightarrow>
        if n > 0 then (IoDone n, s1)
        else if n = 0 \<or> os_errno s1 = EWOULDBLOCK \<or> os_errno s1 = EAGAIN then (IoAgain, s1)
        else if os_errno s1 = EINTR then flush_dgram d i (s1\<lparr>os_errno := ENONE\<rparr>)
        else if i + 1 > MAX_SOCKBUF_RETRIES then (IoFailed True, s1)
        else (case GetSocketError s1 of (r, s2) \<Rightarrow>
                if r = -1 then (IoFailed False, s2)
                else flush_dgram d (i + 1) (s2\<lparr>os_errno := ENONE\<rparr>)))"
  by pat_completeness auto
termination
  by (relation "measure (\<lambda>(d, i, s). length (os_sends s))")
     (auto dest!: DgramWrite_fewer [OF sym] dest: sym)

declare flush_dgram.simps [simp del]

text \<open>The loop of a stream \<open>send\<close>; only an interrupted call is repeated.\<close>

function flush_stream :: "byte list \<Rightarrow> os \<Rightarrow> io_end \<times> os" where
  "flush_stream d s =
     (case DgramWrite d s of (n, s1) \<Rightarrow>
        if n > 0 then (IoDone n, s1)
        else if os_errno s1 = EINTR then flush_stream d (s1\<lparr>os_errno := ENONE\<rparr>)
        else if os_errno s1 \<noteq> EWOULDBLOCK \<and> os_errno s1 \<noteq> EAGAIN then (IoFailed True, s1)
        else (IoAgain, s1))"
  by pat_completeness auto
termination
  by (relation "measure (\<lambda>(d, s). length (os_sends s))")
     (auto dest!: DgramWrite_fewer [OF sym])

declare flush_stream.simps [simp del]

definition Sockbuf_flush :: "sockbuf \<Rightarrow> os \<Rightarrow> (int \<times> sockbuf \<times> os) option" where
  "Sockbuf_flush sb s =
     (if \<not> has_bit (sb_state sb) SOCKBUF_WRITE then Some (-1, sb, s\<lparr>os_errno := ENONE\<rparr>)
      else if has_bit (sb_state sb) SOCKBUF_LOCK then Some (-1, sb, s\<lparr>os_errno := ENONE\<rparr>)
      else if sb_len sb < 0 then Some (0, Sockbuf_clear sb, s\<lparr>os_errno := ENONE\<rparr>)
      else if sb_len sb = 0 then Some (0, sb, s)
      else do {
        b \<leftarrow> sb_buf sb;
        d \<leftarrow> buf_get 0 (sb_len sb) b;
        if has_bit (sb_state sb) SOCKBUF_DGRAM then
          (case flush_dgram d 0 (s\<lparr>os_errno := ENONE\<rparr>) of
             (IoDone n, s1) \<Rightarrow>
               Some (n, Sockbuf_clear sb,
                     if n \<noteq> sb_len sb then s1\<lparr>os_errno := ENONE\<rparr> else s1)
           | (IoAgain, s1) \<Rightarrow> Some (0, Sockbuf_clear sb, s1)
           | (IoFailed retries, s1) \<Rightarrow>
               Some (-1, if retries then Sockbuf_clear sb else sb, s1))
        else
          (case flush_stream d (s\<lparr>os_errno := ENONE\<rparr>) of
             (IoDone n, s1) \<Rightarrow>
               (case Sockbuf_advance n sb of None \<Rightarrow> None | Some sb1 \<Rightarrow> Some (n, sb1, s1))
           | (IoAgain, s1) \<Rightarrow> Some (0, sb, s1)
           | (IoFailed _, s1) \<Rightarrow> Some (-1, sb, s1))
      })"

text \<open>
  \<open>Sockbuf_write(sbuf, buf, len)\<close>: the list \<open>d\<close> is the caller's block, \<open>len\<close> its length.
\<close>

definition sockbuf_append :: "byte list \<Rightarrow> sockbuf \<Rightarrow> sockbuf option" where
  "sockbuf_append d sb =
     do { b \<leftarrow> sb_buf sb;
          b' \<leftarrow> buf_put (sb_len sb) d b;
          Some (sb\<lparr>sb_buf := Some b', sb_len := sb_len sb + int (length d)\<rparr>) }"

definition Sockbuf_write ::
  "byte list \<Rightarrow> sockbuf \<Rightarrow> os \<Rightarrow> (int \<times> sockbuf \<times> os) option" where
  "Sockbuf_write d sb s =
     (if \<not> has_bit (sb_state sb) SOCKBUF_WRITE then Some (-1, sb, s\<lparr>os_errno := ENONE\<rparr>)
      else if sb_size sb - sb_len sb < int (length d) then
        (if has_bit (sb_state sb) (SOCKBUF_LOCK OR SOCKBUF_DGRAM)
         then Some (-1, sb, s\<lparr>os_errno := ENONE\<rparr>)
         else
           do { (r, sb1, s1) \<leftarrow> Sockbuf_flush sb s;
                if r = -1 then Some (-1, sb1, s1)
                else if sb_size sb1 - sb_len sb1 < int (length d) then Some (0, sb1, s1)
                else do { sb2 \<leftarrow> sockbuf_append d sb1; Some (int (length d), sb2, s1) } })
      else do { sb2 \<leftarrow> sockbuf_append d sb; Some (int (length d), sb2, s) })"

text \<open>The receive loops: the count and the bytes \<open>recv\<close> stored, or how they gave up.\<close>

datatype recv_end = RecvDone "byte list" | RecvNothing | RecvFailed

function read_dgram :: "int \<Rightarrow> int \<Rightarrow> os \<Rightarrow> recv_end \<times> os" where
  "read_dgram k i s =
     (case DgramRead k s of ((n, d), s1) \<Rightarrow>
        if n > 0 then (RecvDone d, s1)
        else if n = 0 then (RecvNothing, s1)
        else if os_errno s1 = EINTR then read_dgram k i (s1\<lparr>os_errno := ENONE\<rparr>)
        else if os_errno s1 = EWOULDBLOCK \<or> os_errno s1 = EAGAIN then (RecvNothing, s1)
        else if i + 1 > MAX_SOCKBUF_RETRIES then (RecvFailed, s1)
        else (case GetSocketError s1 of (r, s2) \<Rightarrow>
                if r = -1 then (RecvFailed, s2)
                else read_dgram k (i + 1) (s2\<lparr>os_errno := ENONE\<rparr>)))"
  by pat_completeness auto
termination
  by (relation "measure (\<lambda>(k, i, s). length (os_recvs s))")
     (auto dest!: DgramRead_fewer [OF sym] dest: sym)

declare read_dgram.simps [simp del]

function read_stream :: "int \<Rightarrow> os \<Rightarrow> recv_end \<times> os" where
  "read_stream k s =
     (case DgramRead k s of ((n, d), s1) \<Rightarrow>
        if n > 0 then (RecvDone d, s1)
        else if n = 0 then (RecvNothing, s1)
        else if os_errno s1 = EINTR then read_stream k (s1\<lparr>os_errno := ENONE\<rparr>)
        else if os_errno s1 \<noteq> EWOULDBLOCK \<and> os_errno s1 \<noteq> EAGAIN then (RecvFailed, s1)
        else (RecvNothing, s1))"
  by pat_completeness auto
termination
  by (relation "measure (\<lambda>(k, s). length (os_recvs s))")
     (auto dest!: DgramRead_fewer [OF sym])

declare read_stream.simps [simp del]

definition Sockbuf_read :: "sockbuf \<Rightarrow> os \<Rightarrow> (int \<times> sockbuf \<times> os) option" where
  "Sockbuf_read sb s =
     (if \<not> has_bit (sb_state sb) SOCKBUF_READ then Some (-1, sb, s\<lparr>os_errno := ENONE\<rparr>)
      else if has_bit (sb_state sb) SOCKBUF_LOCK then Some (0, sb, s)
      else do {
        sb1 \<leftarrow> (if sb_ptr sb > 0 then Sockbuf_advance (sb_ptr sb) sb else Some sb);
        if sb_size sb1 - sb_len sb1 \<le> 0 then Some (-1, sb1, s\<lparr>os_errno := ENONE\<rparr>)
        else
          (case (if has_bit (sb_state sb1) SOCKBUF_DGRAM
                 then read_dgram (sb_size sb1 - sb_len sb1) 0 (s\<lparr>os_errno := ENONE\<rparr>)
                 else read_stream (sb_size sb1 - sb_len sb1) (s\<lparr>os_errno := ENONE\<rparr>)) of
             (RecvNothing, s1) \<Rightarrow> Some (0, sb1, s1)
           | (RecvFailed, s1) \<Rightarrow> Some (-1, sb1, s1)
           | (RecvDone d, s1) \<Rightarrow>
               do { sb2 \<leftarrow> sockbuf_append d sb1; Some (sb_len sb2, sb2, s1) })
      })"

definition Sockbuf_copy :: "sockbuf \<Rightarrow> sockbuf \<Rightarrow> int \<Rightarrow> (int \<times> sockbuf) option" where
  "Sockbuf_copy dest src n =
     (if n < sb_size dest - sb_len dest then Some (-1, dest)
      else if n < sb_len src then Some (-1, dest)
      else do { sbf \<leftarrow> sb_buf src;
                d \<leftarrow> buf_get 0 n sbf;
                b \<leftarrow> sb_buf dest;
                b' \<leftarrow> buf_put (sb_len dest) d b;
                Some (n, dest\<lparr>sb_buf := Some b', sb_len := sb_len dest + n\<rparr>) })"

subsection \<open>Well-formed buffers and what they hold\<close>

definition wf_sockbuf :: "sockbuf \<Rightarrow> bool" where
  "wf_sockbuf sb \<longleftrightarrow>
     (case sb_buf sb of None \<Rightarrow> False | Some b \<Rightarrow> int (length b) = sb_size sb) \<and>
     0 \<le> sb_len sb \<and> sb_len sb \<le> sb_size sb \<and> 0 \<le> sb_ptr sb \<and> sb_ptr sb \<le> sb_len sb"

definition contents :: "sockbuf \<Rightarrow> byte list" where
  "contents sb = (case sb_buf sb of None \<Rightarrow> [] | Some b \<Rightarrow> take (nat (sb_len sb)) b)"

definition unread :: "sockbuf \<Rightarrow> byte list" where
  "unread sb = drop (nat (sb_ptr sb)) (contents sb)"

lemma wf_sockbufE:
  assumes "wf_sockbuf sb"
  obtains b where "sb_buf sb = Some b" "int (length b) = sb_size sb" "0 \<le> sb_len sb"
    "sb_len sb \<le> sb_size sb" "0 \<le> sb_ptr sb" "sb_ptr sb \<le> sb_len sb"
    "contents sb = take (nat (sb_len sb)) b"
  using assms by (auto simp: wf_sockbuf_def contents_def split: option.splits)

lemma length_contents: "wf_sockbuf sb \<Longrightarrow> int (length (contents sb)) = sb_len sb"
  by (elim wf_sockbufE) auto

lemma length_unread: "wf_sockbuf sb \<Longrightarrow> int (length (unread sb)) = sb_len sb - sb_ptr sb"
  using length_contents [of sb] by (auto simp: unread_def wf_sockbuf_def)

lemma wf_Sockbuf_clear: "wf_sockbuf sb \<Longrightarrow> wf_sockbuf (Sockbuf_clear sb)"
  by (auto simp: wf_sockbuf_def Sockbuf_clear_def split: option.splits)

lemma contents_Sockbuf_clear [simp]: "contents (Sockbuf_clear sb) = []"
  by (simp add: contents_def Sockbuf_clear_def split: option.splits)

lemma Sockbuf_clear_sels [simp]:
  "sb_sock (Sockbuf_clear sb) = sb_sock sb" "sb_buf (Sockbuf_clear sb) = sb_buf sb"
  "sb_size (Sockbuf_clear sb) = sb_size sb" "sb_state (Sockbuf_clear sb) = sb_state sb"
  "sb_len (Sockbuf_clear sb) = 0" "sb_ptr (Sockbuf_clear sb) = 0"
  by (simp_all add: Sockbuf_clear_def)

lemma sockbuf_append_ok:
  assumes "wf_sockbuf sb" "int (length d) \<le> sb_size sb - sb_len sb"
  obtains sb' where "sockbuf_append d sb = Some sb'" "wf_sockbuf sb'"
    "contents sb' = contents sb @ d" "sb_len sb' = sb_len sb + int (length d)"
    "sb_ptr sb' = sb_ptr sb" "sb_size sb' = sb_size sb" "sb_state sb' = sb_state sb"
    "sb_sock sb' = sb_sock sb"
proof -
  from assms(1) obtain b where b: "sb_buf sb = Some b" "int (length b) = sb_size sb"
    "0 \<le> sb_len sb" "0 \<le> sb_ptr sb" "sb_ptr sb \<le> sb_len sb"
    "contents sb = take (nat (sb_len sb)) b"
    by (elim wf_sockbufE)
  with assms(2) obtain b' where b': "buf_put (sb_len sb) d b = Some b'"
    by (simp add: cmem_simps)
  note l = buf_put_length [OF b'] and t = buf_put_take [OF b']
  show ?thesis
    using b b' l t assms(2)
    by (intro that [of "sb\<lparr>sb_buf := Some b', sb_len := sb_len sb + int (length d)\<rparr>"])
       (auto simp: sockbuf_append_def wf_sockbuf_def contents_def nat_add_distrib)
qed

lemma Sockbuf_advance_ok:
  assumes "wf_sockbuf sb" "0 \<le> n"
  obtains sb' where "Sockbuf_advance n sb = Some sb'" "wf_sockbuf sb'"
    "contents sb' = drop (nat n) (contents sb)"
    "sb_ptr sb' = (if n \<ge> sb_len sb \<and> n > 0 then 0 else max 0 (sb_ptr sb - n))"
    "sb_size sb' = sb_size sb" "sb_state sb' = sb_state sb" "sb_sock sb' = sb_sock sb"
proof -
  from assms(1) obtain b where b: "sb_buf sb = Some b" "int (length b) = sb_size sb"
    "0 \<le> sb_len sb" "sb_len sb \<le> sb_size sb" "0 \<le> sb_ptr sb" "sb_ptr sb \<le> sb_len sb"
    "contents sb = take (nat (sb_len sb)) b"
    by (elim wf_sockbufE)
  consider "n = 0" | "n > 0" "n \<ge> sb_len sb" | "n > 0" "n < sb_len sb"
    using assms(2) by linarith
  then show ?thesis
  proof cases
    case 1
    with b assms(1) show ?thesis
      by (intro that [of sb]) (auto simp: Sockbuf_advance_def)
  next
    case 2
    with b show ?thesis
      by (intro that [of "sb\<lparr>sb_len := 0, sb_ptr := 0\<rparr>"])
         (auto simp: Sockbuf_advance_def wf_sockbuf_def contents_def)
  next
    case 3
    define rest where "rest = take (nat (sb_len sb - n)) (drop (nat n) b)"
    have g: "buf_get n (sb_len sb - n) b = Some rest"
      using 3 b by (simp add: buf_get_ok rest_def)
    have len: "int (length rest) = sb_len sb - n"
      using 3 b by (simp add: rest_def)
    obtain b' where b': "buf_put 0 rest b = Some b'"
      using len 3 b by (simp add: buf_put_ok)
    note l = buf_put_length [OF b'] and t = buf_put_take [OF b']
    have "take (nat (sb_len sb - n)) b' = rest"
      using t len by simp (metis nat_int)
    then have "take (nat (sb_len sb - n)) b' = drop (nat n) (take (nat (sb_len sb)) b)"
      using 3 by (simp add: rest_def drop_take nat_diff_distrib)
    with b b' g l 3 show ?thesis
      by (intro that [of "sb\<lparr>sb_buf := Some b', sb_len := sb_len sb - n,
                  sb_ptr := (if sb_ptr sb \<le> n then 0 else sb_ptr sb - n)\<rparr>"])
         (auto simp: Sockbuf_advance_def wf_sockbuf_def contents_def)
  qed
qed

subsection \<open>The I/O loops\<close>

lemma DgramWrite_sent:
  assumes "DgramWrite d s = (n, s1)"
  shows "(0 < n \<and> n \<le> int (length d) \<and> os_sent s1 = os_sent s @ [take (nat n) d]) \<or>
         (n \<le> 0 \<and> os_sent s1 = os_sent s)"
  using assms
  by (auto simp: DgramWrite_def Let_def min_def split: list.splits send_res.splits if_splits)

definition io_logged :: "byte list \<Rightarrow> io_end \<Rightarrow> os \<Rightarrow> os \<Rightarrow> bool" where
  "io_logged d e s s1 \<longleftrightarrow>
     (case e of
        IoDone n \<Rightarrow> 0 < n \<and> n \<le> int (length d) \<and> os_sent s1 = os_sent s @ [take (nat n) d]
      | _ \<Rightarrow> os_sent s1 = os_sent s)"

lemma io_logged_upd [simp]: "io_logged d e (s\<lparr>os_errno := x\<rparr>) s1 = io_logged d e s s1"
  by (simp add: io_logged_def split: io_end.splits)

lemma flush_dgram_logged: "flush_dgram d i s = (e, s1) \<Longrightarrow> io_logged d e s s1"
proof (induction d i s arbitrary: e s1 rule: flush_dgram.induct)
  case (1 d i s)
  obtain n sa where w: "DgramWrite d s = (n, sa)" by fastforce
  obtain r sb where g: "GetSocketError sa = (r, sb)" by fastforce
  have sent: "(0 < n \<and> n \<le> int (length d) \<and> os_sent sa = os_sent s @ [take (nat n) d]) \<or>
     (n \<le> 0 \<and> os_sent sa = os_sent s)" by (rule DgramWrite_sent [OF w])
  have logged_step: "io_logged d e sa s1 \<Longrightarrow> n \<le> 0 \<Longrightarrow> io_logged d e s s1"
    using sent by (auto simp: io_logged_def split: io_end.splits)
  consider (sent) "n > 0"
    | (again) "n \<le> 0" "n = 0 \<or> os_errno sa = EWOULDBLOCK \<or> os_errno sa = EAGAIN"
    | (intr) "n < 0" "os_errno sa = EINTR"
    | (failed) "n < 0" "os_errno sa \<notin> {EWOULDBLOCK, EAGAIN, EINTR}"
        "i + 1 > MAX_SOCKBUF_RETRIES \<or> r = -1"
    | (retry) "n < 0" "os_errno sa \<notin> {EWOULDBLOCK, EAGAIN, EINTR}"
        "\<not> i + 1 > MAX_SOCKBUF_RETRIES" "r \<noteq> -1"
    by fastforce
  then show ?case
  proof cases
    case intr
    with "1.IH"(1) [OF w [symmetric]] "1.prems" w
    have "io_logged d e sa s1" by (simp add: flush_dgram.simps [of d i s])
    with intr logged_step show ?thesis by simp
  next
    case retry
    with "1.IH"(2) [OF w [symmetric] _ _ _ _ g [symmetric]] "1.prems" w g
    have "io_logged d e sb s1" by (simp add: flush_dgram.simps [of d i s])
    with g have "io_logged d e sa s1" by (simp add: io_logged_def split: io_end.splits)
    with retry logged_step show ?thesis by simp
  qed (use "1.prems" w g sent in
        \<open>auto simp: flush_dgram.simps [of d i s] io_logged_def split: if_splits\<close>)
qed

lemma flush_stream_logged: "flush_stream d s = (e, s1) \<Longrightarrow> io_logged d e s s1"
proof (induction d s arbitrary: e s1 rule: flush_stream.induct)
  case (1 d s)
  obtain n sa where w: "DgramWrite d s = (n, sa)" by fastforce
  have sent: "(0 < n \<and> n \<le> int (length d) \<and> os_sent sa = os_sent s @ [take (nat n) d]) \<or>
     (n \<le> 0 \<and> os_sent sa = os_sent s)" by (rule DgramWrite_sent [OF w])
  show ?case
  proof (cases "n \<le> 0 \<and> os_errno sa = EINTR")
    case True
    with "1.IH" [OF w [symmetric]] "1.prems" w
    have "io_logged d e sa s1" by (simp add: flush_stream.simps [of d s])
    with True sent show ?thesis by (auto simp: io_logged_def split: io_end.splits)
  next
    case False
    with "1.prems" w sent show ?thesis
      by (auto simp: flush_stream.simps [of d s] io_logged_def split: if_splits)
  qed
qed

definition recv_fits :: "int \<Rightarrow> recv_end \<Rightarrow> bool" where
  "recv_fits k e \<longleftrightarrow> (case e of RecvDone d \<Rightarrow> d \<noteq> [] \<and> int (length d) \<le> k | _ \<Rightarrow> True)"

lemma DgramRead_fits:
  "DgramRead k s = ((n, d), s1) \<Longrightarrow> 0 \<le> k \<Longrightarrow> n > 0 \<Longrightarrow> d \<noteq> [] \<and> int (length d) \<le> k"
  by (auto simp: DgramRead_def Let_def split: list.splits recv_res.splits)

lemma read_dgram_fits: "read_dgram k i s = (e, s1) \<Longrightarrow> 0 \<le> k \<Longrightarrow> recv_fits k e"
proof (induction k i s arbitrary: e s1 rule: read_dgram.induct)
  case (1 k i s)
  obtain n d sa where w: "DgramRead k s = ((n, d), sa)" by (metis surj_pair)
  obtain r sb where g: "GetSocketError sa = (r, sb)" by fastforce
  show ?case
    using "1.prems" w g "1.IH"(1) [OF w [symmetric] refl]
      "1.IH"(2) [OF w [symmetric] refl _ _ _ _ _ g [symmetric]]
      DgramRead_fits [OF w]
    by (auto simp: read_dgram.simps [of k i s] recv_fits_def split: if_splits)
qed

lemma read_stream_fits: "read_stream k s = (e, s1) \<Longrightarrow> 0 \<le> k \<Longrightarrow> recv_fits k e"
proof (induction k s arbitrary: e s1 rule: read_stream.induct)
  case (1 k s)
  obtain n d sa where w: "DgramRead k s = ((n, d), sa)" by (metis surj_pair)
  show ?case
    using "1.prems" w "1.IH" [OF w [symmetric] refl] DgramRead_fits [OF w]
    by (auto simp: read_stream.simps [of k s] recv_fits_def split: if_splits)
qed

lemma Sockbuf_flush_cases:
  assumes "wf_sockbuf sb" "has_bit (sb_state sb) SOCKBUF_WRITE"
    "\<not> has_bit (sb_state sb) SOCKBUF_LOCK"
  obtains (empty) "contents sb = []" "Sockbuf_flush sb s = Some (0, sb, s)"
  | (dgram) e s1 where "has_bit (sb_state sb) SOCKBUF_DGRAM" "io_logged (contents sb) e s s1"
      "flush_dgram (contents sb) 0 (s\<lparr>os_errno := ENONE\<rparr>) = (e, s1)"
      "Sockbuf_flush sb s =
         (case e of IoDone n \<Rightarrow> Some (n, Sockbuf_clear sb,
                     if n \<noteq> sb_len sb then s1\<lparr>os_errno := ENONE\<rparr> else s1)
          | IoAgain \<Rightarrow> Some (0, Sockbuf_clear sb, s1)
          | IoFailed r \<Rightarrow> Some (-1, if r then Sockbuf_clear sb else sb, s1))"
  | (stream) e s1 where "\<not> has_bit (sb_state sb) SOCKBUF_DGRAM" "io_logged (contents sb) e s s1"
      "Sockbuf_flush sb s =
         (case e of IoDone n \<Rightarrow>
            (case Sockbuf_advance n sb of None \<Rightarrow> None | Some sb1 \<Rightarrow> Some (n, sb1, s1))
          | IoAgain \<Rightarrow> Some (0, sb, s1)
          | IoFailed r \<Rightarrow> Some (-1, sb, s1))"
proof -
  from assms(1) obtain b where b: "sb_buf sb = Some b" "int (length b) = sb_size sb"
    "0 \<le> sb_len sb" "sb_len sb \<le> sb_size sb" "contents sb = take (nat (sb_len sb)) b"
    by (elim wf_sockbufE)
  have get: "buf_get 0 (sb_len sb) b = Some (contents sb)"
    using b by (simp add: buf_get_ok)
  show ?thesis
  proof (cases "sb_len sb = 0")
    case True
    with b assms empty show ?thesis by (simp add: Sockbuf_flush_def)
  next
    case len: False
    show ?thesis
    proof (cases "has_bit (sb_state sb) SOCKBUF_DGRAM")
      case True
      obtain e s1 where f: "flush_dgram (contents sb) 0 (s\<lparr>os_errno := ENONE\<rparr>) = (e, s1)"
        by fastforce
      show ?thesis
        using True len assms b(1,3) get f flush_dgram_logged [OF f]
        by (intro dgram [of e s1]) (auto simp: Sockbuf_flush_def split: io_end.splits)
    next
      case False
      obtain e s1 where f: "flush_stream (contents sb) (s\<lparr>os_errno := ENONE\<rparr>) = (e, s1)"
        by fastforce
      show ?thesis
        using False len assms b(1,3) get f flush_stream_logged [OF f]
        by (intro stream [of e s1]) (auto simp: Sockbuf_flush_def split: io_end.splits)
    qed
  qed
qed

lemma Sockbuf_flush_stream:
  assumes "wf_sockbuf sb" "has_bit (sb_state sb) SOCKBUF_WRITE"
    "\<not> has_bit (sb_state sb) SOCKBUF_LOCK" "\<not> has_bit (sb_state sb) SOCKBUF_DGRAM"
  obtains r sb' s' where "Sockbuf_flush sb s = Some (r, sb', s')" "wf_sockbuf sb'"
    "concat (os_sent s') @ contents sb' = concat (os_sent s) @ contents sb"
    "sb_size sb' = sb_size sb" "sb_state sb' = sb_state sb"
  using assms(1-3)
proof (cases rule: Sockbuf_flush_cases [of _ s])
  case empty
  with assms(1) show ?thesis by (intro that) auto
next
  case (stream e s1)
  show ?thesis
  proof (cases e)
    case (IoDone n)
    with stream(2) have n: "0 < n" "os_sent s1 = os_sent s @ [take (nat n) (contents sb)]"
      by (auto simp: io_logged_def)
    from Sockbuf_advance_ok [OF assms(1), of n] n obtain sb1 where
      "Sockbuf_advance n sb = Some sb1" "wf_sockbuf sb1"
      "contents sb1 = drop (nat n) (contents sb)" "sb_size sb1 = sb_size sb"
      "sb_state sb1 = sb_state sb"
      by (metis order_less_imp_le)
    with n stream IoDone show ?thesis by (intro that [of n sb1 s1]) auto
  next
    case IoAgain
    with stream assms(1) show ?thesis by (intro that [of 0 sb s1]) (auto simp: io_logged_def)
  next
    case (IoFailed x)
    with stream assms(1) show ?thesis by (intro that [of "-1" sb s1]) (auto simp: io_logged_def)
  qed
qed (use assms in simp)

subsection \<open>A buffer as a window of a byte stream\<close>

text \<open>
  The contract the reliable transport relies on: bytes are pushed at the end and dropped from
  the front. Its client lemma: whatever mixture of pushes and drops has been executed, the
  queue holds the written stream from the dropped position on. A connection keeps its
  acknowledged position in \<open>reliable_offset\<close>; \<open>off\<close> plays that role here.
\<close>

locale byte_window =
  fixes inv :: "'q \<Rightarrow> bool"
    and items :: "'q \<Rightarrow> byte list"
    and room :: "'q \<Rightarrow> int"
    and push :: "byte list \<Rightarrow> 'q \<Rightarrow> 'q option"
    and drop_front :: "int \<Rightarrow> 'q \<Rightarrow> 'q option"
  assumes push_ok: "inv q \<Longrightarrow> int (length d) \<le> room q \<Longrightarrow>
      \<exists>q'. push d q = Some q' \<and> inv q' \<and> items q' = items q @ d"
    and drop_ok: "inv q \<Longrightarrow> 0 \<le> n \<Longrightarrow>
      \<exists>q'. drop_front n q = Some q' \<and> inv q' \<and> items q' = drop (nat n) (items q)"

context byte_window
begin

definition holds_window :: "byte list \<Rightarrow> int \<Rightarrow> 'q \<Rightarrow> bool" where
  "holds_window stream off q \<longleftrightarrow>
     inv q \<and> 0 \<le> off \<and> off \<le> int (length stream) \<and> items q = drop (nat off) stream"

lemma push_window:
  assumes "holds_window stream off q" "int (length d) \<le> room q"
  shows "\<exists>q'. push d q = Some q' \<and> holds_window (stream @ d) off q'"
  using push_ok [of q d] assms by (auto simp: holds_window_def)

lemma drop_window:
  assumes "holds_window stream off q" "0 \<le> n" "n \<le> int (length (items q))"
  shows "\<exists>q'. drop_front n q = Some q' \<and> holds_window stream (off + n) q'"
proof -
  from assms(1) have "inv q" by (simp add: holds_window_def)
  from drop_ok [OF this assms(2)] obtain q' where
    "drop_front n q = Some q'" "inv q'" "items q' = drop (nat n) (items q)" by blast
  with assms show ?thesis
    by (auto simp: holds_window_def nat_add_distrib add.commute)
qed

lemma window_slice:
  assumes "holds_window stream off q" "0 \<le> i" "0 \<le> n" "i + n \<le> int (length (items q))"
  shows "take (nat n) (drop (nat i) (items q)) = take (nat n) (drop (nat (off + i)) stream)"
  using assms by (auto simp: holds_window_def nat_add_distrib add.commute)

end

interpretation sockbuf_window: byte_window wf_sockbuf contents
  "\<lambda>sb. sb_size sb - sb_len sb" sockbuf_append Sockbuf_advance
proof
  fix q and d :: "byte list"
  assume "wf_sockbuf q" "int (length d) \<le> sb_size q - sb_len q"
  then show "\<exists>q'. sockbuf_append d q = Some q' \<and> wf_sockbuf q' \<and> contents q' = contents q @ d"
    by (rule sockbuf_append_ok) blast
next
  fix q and n :: int
  assume "wf_sockbuf q" "0 \<le> n"
  then show "\<exists>q'. Sockbuf_advance n q = Some q' \<and> wf_sockbuf q' \<and>
      contents q' = drop (nat n) (contents q)"
    by (rule Sockbuf_advance_ok) blast
qed

subsection \<open>Properties of the buffers\<close>

text \<open>Concrete buffers for the witnesses: a datagram buffer with two bytes to write, and a
  locked buffer as a connection keeps for its reliable data; a network that interrupts the
  first \<open>send\<close> and delivers three bytes.\<close>

definition demo_w :: sockbuf where
  "demo_w = \<lparr>sb_sock = 3, sb_buf = Some [1, 2, 0, 0], sb_size = 4, sb_len = 2, sb_ptr = 0,
             sb_state = 0x12\<rparr>"

definition demo_c :: sockbuf where
  "demo_c = \<lparr>sb_sock = -1, sb_buf = Some [1, 2, 3, 4, 0, 0, 0, 0], sb_size = 8, sb_len = 4,
             sb_ptr = 1, sb_state = 0x07\<rparr>"

definition demo_r :: sockbuf where
  "demo_r = \<lparr>sb_sock = 3, sb_buf = Some [1, 2, 3, 4, 0, 0, 0, 0], sb_size = 8, sb_len = 4,
             sb_ptr = 1, sb_state = 0x11\<rparr>"

definition demo_os :: os where
  "demo_os = \<lparr>os_errno = ENONE, os_sends = [SendErr EINTR, SendOk 9],
              os_recvs = [RecvErr EINTR, RecvData [7, 8, 9]], os_sockerrs = [], os_sent = []\<rparr>"

lemmas demo_simps = demo_w_def demo_c_def demo_r_def demo_os_def wf_sockbuf_def has_bit_def
  SOCKBUF_READ_def SOCKBUF_WRITE_def SOCKBUF_LOCK_def SOCKBUF_DGRAM_def contents_def

text \<open>A datagram flush hands the whole buffer to \<open>send\<close> in one piece: if it reports
  \<open>r > 0\<close> then exactly the first \<open>r\<close> buffered bytes were transmitted, as one datagram, and the
  buffer is empty; if it reports 0 or -1 then nothing was transmitted by it, and the buffer is
  either emptied (the datagram is dropped) or, after an unreadable socket error, unchanged.
  It never meets undefined behaviour and keeps the buffer well formed.\<close>

theorem Sockbuf_flush_datagram:
  assumes "wf_sockbuf sb" "has_bit (sb_state sb) SOCKBUF_WRITE"
    "\<not> has_bit (sb_state sb) SOCKBUF_LOCK" "has_bit (sb_state sb) SOCKBUF_DGRAM"
  shows "\<exists>r sb' s'. Sockbuf_flush sb s = Some (r, sb', s') \<and> wf_sockbuf sb' \<and>
     (if 0 < r
      then os_sent s' = os_sent s @ [take (nat r) (contents sb)] \<and> contents sb' = []
      else os_sent s' = os_sent s \<and> (contents sb' = [] \<or> r = -1 \<and> sb' = sb))"
  using assms(1-3)
proof (cases rule: Sockbuf_flush_cases [of _ s])
  case empty
  with assms(1) show ?thesis by simp
next
  case (dgram e s1)
  then show ?thesis
    by (cases e) (simp_all add: io_logged_def wf_Sockbuf_clear assms(1))
qed (use assms in simp)

theorem Sockbuf_flush_datagram_witness:
  "\<exists>r sb' s'. Sockbuf_flush demo_w demo_os = Some (r, sb', s') \<and> wf_sockbuf sb' \<and>
     (if 0 < r
      then os_sent s' = os_sent demo_os @ [take (nat r) (contents demo_w)] \<and> contents sb' = []
      else os_sent s' = os_sent demo_os \<and> (contents sb' = [] \<or> r = -1 \<and> sb' = demo_w))"
  by (rule Sockbuf_flush_datagram) (simp_all add: demo_simps)

lemma Sockbuf_write_flushes:
  assumes "wf_sockbuf sb" "has_bit (sb_state sb) SOCKBUF_WRITE" "\<not> has_bit (sb_state sb) SOCKBUF_DGRAM"
    "\<not> has_bit (sb_state sb) SOCKBUF_LOCK" "d \<noteq> []" "\<not> int (length d) \<le> sb_size sb - sb_len sb"
  obtains r sb' s' where "Sockbuf_write d sb s = Some (r, sb', s')" "wf_sockbuf sb'"
    "if r = int (length d) then concat (os_sent s') @ contents sb' = concat (os_sent s) @ contents sb @ d
     else r \<in> {-1, 0} \<and> concat (os_sent s') @ contents sb' = concat (os_sent s) @ contents sb"
proof -
  obtain r sb1 s1 where f: "Sockbuf_flush sb s = Some (r, sb1, s1)" "wf_sockbuf sb1"
    "concat (os_sent s1) @ contents sb1 = concat (os_sent s) @ contents sb"
    by (rule Sockbuf_flush_stream [OF assms(1,2,4,3)])
  show ?thesis
  proof (cases "r \<noteq> -1 \<and> int (length d) \<le> sb_size sb1 - sb_len sb1")
    case True
    with f(2) obtain sb2 where sb2: "sockbuf_append d sb1 = Some sb2" "wf_sockbuf sb2"
      "contents sb2 = contents sb1 @ d" by (metis sockbuf_append_ok)
    have "concat (os_sent s1) @ contents sb2 = concat (os_sent s) @ contents sb @ d"
      using f(3) sb2(3) by (metis append_assoc)
    moreover have "Sockbuf_write d sb s = Some (int (length d), sb2, s1)"
      using True f(1) assms sb2(1) by (simp add: Sockbuf_write_def has_bit_or)
    ultimately show ?thesis using sb2(2) by (intro that [of "int (length d)" sb2 s1]) simp_all
  next
    case False
    then have "Sockbuf_write d sb s = Some (if r = -1 then -1 else 0, sb1, s1)"
      using f(1) assms by (auto simp: Sockbuf_write_def has_bit_or)
    with f(2,3) assms(5) show ?thesis
      by (intro that [of "if r = -1 then -1 else 0" sb1 s1]) auto
  qed
qed

text \<open>C21. \<open>Sockbuf_write\<close> on a writable buffer never meets undefined behaviour, and no
  byte is lost, duplicated or reordered on a buffer that is not a datagram one: what has been
  transmitted followed by what is still buffered grows by exactly the written bytes when the
  call returns their number, and does not change when it returns 0 or -1.\<close>

theorem Sockbuf_write_lossless:
  assumes "wf_sockbuf sb" "has_bit (sb_state sb) SOCKBUF_WRITE"
    "\<not> has_bit (sb_state sb) SOCKBUF_DGRAM" "d \<noteq> []"
  shows "\<exists>r sb' s'. Sockbuf_write d sb s = Some (r, sb', s') \<and> wf_sockbuf sb' \<and>
     (if r = int (length d)
      then concat (os_sent s') @ contents sb' = concat (os_sent s) @ contents sb @ d
      else r \<in> {-1, 0} \<and>
           concat (os_sent s') @ contents sb' = concat (os_sent s) @ contents sb)"
proof -
  consider (fits) "int (length d) \<le> sb_size sb - sb_len sb"
    | (locked) "\<not> int (length d) \<le> sb_size sb - sb_len sb" "has_bit (sb_state sb) (SOCKBUF_LOCK OR SOCKBUF_DGRAM)"
    | (flush) "\<not> int (length d) \<le> sb_size sb - sb_len sb" "\<not> has_bit (sb_state sb) (SOCKBUF_LOCK OR SOCKBUF_DGRAM)"
    by blast
  then show ?thesis
  proof cases
    case fits
    obtain sb' where "sockbuf_append d sb = Some sb'" "wf_sockbuf sb'"
      "contents sb' = contents sb @ d"
      using sockbuf_append_ok [OF assms(1) fits] by blast
    with fits assms show ?thesis by (auto simp: Sockbuf_write_def)
  next
    case locked
    with assms show ?thesis by (auto simp: Sockbuf_write_def)
  next
    case flush
    then have "\<not> has_bit (sb_state sb) SOCKBUF_LOCK" by (simp add: has_bit_or)
    from Sockbuf_write_flushes [OF assms(1-3) this assms(4) flush(1)] show ?thesis by metis
  qed
qed

theorem Sockbuf_write_lossless_witness:
  "\<exists>r sb' s'. Sockbuf_write [5, 6] demo_c demo_os = Some (r, sb', s') \<and> wf_sockbuf sb' \<and>
     (if r = int (length [5 :: byte, 6])
      then concat (os_sent s') @ contents sb' =
           concat (os_sent demo_os) @ contents demo_c @ [5, 6]
      else r \<in> {-1, 0} \<and>
           concat (os_sent s') @ contents sb' = concat (os_sent demo_os) @ contents demo_c)"
  by (rule Sockbuf_write_lossless) (simp_all add: demo_simps)

lemma Sockbuf_read_front:
  assumes "wf_sockbuf sb" "has_bit (sb_state sb) SOCKBUF_READ" "\<not> has_bit (sb_state sb) SOCKBUF_LOCK"
    "sb_ptr sb = 0"
  obtains r sb' s' d where "Sockbuf_read sb s = Some (r, sb', s')" "wf_sockbuf sb'" "sb_ptr sb' = 0"
    "sb_size sb' = sb_size sb" "sb_state sb' = sb_state sb" "contents sb' = contents sb @ d"
    "if d = [] then r \<in> {-1, 0} else r = sb_len sb'"
proof (cases "sb_size sb - sb_len sb \<le> 0")
  case True
  then show ?thesis
    using assms that [of "-1" sb "s\<lparr>os_errno := ENONE\<rparr>" "[]"] by (simp add: Sockbuf_read_def)
next
  case False
  define k where "k = sb_size sb - sb_len sb"
  define res where "res = (if has_bit (sb_state sb) SOCKBUF_DGRAM
               then read_dgram k 0 (s\<lparr>os_errno := ENONE\<rparr>) else read_stream k (s\<lparr>os_errno := ENONE\<rparr>))"
  obtain e s1 where e: "res = (e, s1)" by fastforce
  with False have fits: "recv_fits k e"
    using read_dgram_fits [of k 0 "s\<lparr>os_errno := ENONE\<rparr>" e s1]
      read_stream_fits [of k "s\<lparr>os_errno := ENONE\<rparr>" e s1]
    by (auto simp: res_def k_def split: if_splits)
  have run: "Sockbuf_read sb s = (case (e, s1) of
           (RecvNothing, s1) \<Rightarrow> Some (0, sb, s1)
         | (RecvFailed, s1) \<Rightarrow> Some (-1, sb, s1)
         | (RecvDone d, s1) \<Rightarrow> do { sb2 \<leftarrow> sockbuf_append d sb; Some (sb_len sb2, sb2, s1) })"
    using assms(2-4) False unfolding e [symmetric] res_def k_def by (simp add: Sockbuf_read_def)
  show ?thesis
  proof (cases e)
    case (RecvDone d)
    with fits have d: "d \<noteq> []" "int (length d) \<le> sb_size sb - sb_len sb"
      by (simp_all add: recv_fits_def k_def)
    obtain sb2 where "sockbuf_append d sb = Some sb2" "wf_sockbuf sb2" "contents sb2 = contents sb @ d"
      "sb_ptr sb2 = sb_ptr sb" "sb_size sb2 = sb_size sb" "sb_state sb2 = sb_state sb"
      by (rule sockbuf_append_ok [OF assms(1) d(2)])
    with run RecvDone d(1) assms(4) show ?thesis
      by (intro that [of "sb_len sb2" sb2 s1 d]) simp_all
  next
    case RecvNothing
    with run assms show ?thesis by (intro that [of 0 sb s1 "[]"]) simp_all
  next
    case RecvFailed
    with run assms show ?thesis by (intro that [of "-1" sb s1 "[]"]) simp_all
  qed
qed

text \<open>The first step of a read moves the unread bytes to the front.\<close>

lemma Sockbuf_read_advances:
  assumes "wf_sockbuf sb"
  obtains sb1 where "wf_sockbuf sb1" "contents sb1 = unread sb" "sb_ptr sb1 = 0" "sb_size sb1 = sb_size sb"
    "sb_state sb1 = sb_state sb" "\<not> has_bit (sb_state sb) SOCKBUF_LOCK \<Longrightarrow>
      has_bit (sb_state sb) SOCKBUF_READ \<Longrightarrow> Sockbuf_read sb s = Sockbuf_read sb1 s"
proof (cases "sb_ptr sb > 0")
  case True
  obtain sb1 where sb1: "Sockbuf_advance (sb_ptr sb) sb = Some sb1" "wf_sockbuf sb1"
    "contents sb1 = drop (nat (sb_ptr sb)) (contents sb)"
    "sb_ptr sb1 = (if sb_ptr sb \<ge> sb_len sb \<and> sb_ptr sb > 0 then 0 else max 0 (sb_ptr sb - sb_ptr sb))"
    "sb_size sb1 = sb_size sb" "sb_state sb1 = sb_state sb"
    using Sockbuf_advance_ok [OF assms, of "sb_ptr sb"] True by (metis order_less_imp_le)
  then have "sb_ptr sb1 = 0" by (simp split: if_splits)
  with True sb1 show ?thesis by (intro that [of sb1]) (simp_all add: unread_def Sockbuf_read_def)
next
  case False
  with assms have "sb_ptr sb = 0" by (simp add: wf_sockbuf_def)
  with assms show ?thesis by (intro that [of sb]) (simp_all add: unread_def)
qed

text \<open>\<open>Sockbuf_read\<close> on a readable, unlocked buffer never meets undefined behaviour: the
  bytes not yet scanned stay, in order, at the front of the buffer with the read pointer reset,
  and at most one \<open>recv\<close> result is appended; the call returns the new length exactly when
  something was received, otherwise 0 or -1. The buffer never grows past its size.\<close>

theorem Sockbuf_read_appends:
  assumes "wf_sockbuf sb" "has_bit (sb_state sb) SOCKBUF_READ"
    "\<not> has_bit (sb_state sb) SOCKBUF_LOCK"
  shows "\<exists>r sb' s' d. Sockbuf_read sb s = Some (r, sb', s') \<and> wf_sockbuf sb' \<and>
     sb_ptr sb' = 0 \<and> sb_size sb' = sb_size sb \<and> unread sb' = unread sb @ d \<and>
     (if d = [] then r \<in> {-1, 0} else r = sb_len sb')"
proof -
  obtain sb1 where sb1: "wf_sockbuf sb1" "contents sb1 = unread sb" "sb_ptr sb1 = 0" "sb_size sb1 = sb_size sb"
    "sb_state sb1 = sb_state sb" "Sockbuf_read sb s = Sockbuf_read sb1 s"
    using Sockbuf_read_advances [OF assms(1)] assms(2,3) by metis
  have flags: "has_bit (sb_state sb1) SOCKBUF_READ" "\<not> has_bit (sb_state sb1) SOCKBUF_LOCK"
    using assms(2,3) sb1(5) by simp_all
  obtain r sb' s' d where "Sockbuf_read sb1 s = Some (r, sb', s')" "wf_sockbuf sb'" "sb_ptr sb' = 0"
    "sb_size sb' = sb_size sb1" "contents sb' = contents sb1 @ d"
    "if d = [] then r \<in> {-1, 0} else r = sb_len sb'"
    by (rule Sockbuf_read_front [OF sb1(1) flags sb1(3)])
  with sb1 show ?thesis
    by (intro exI [of _ r] exI [of _ sb'] exI [of _ s'] exI [of _ d]) (simp add: unread_def)
qed

theorem Sockbuf_read_appends_witness:
  "\<exists>r sb' s' d. Sockbuf_read demo_r demo_os = Some (r, sb', s') \<and> wf_sockbuf sb' \<and>
     sb_ptr sb' = 0 \<and> sb_size sb' = sb_size demo_r \<and> unread sb' = unread demo_r @ d \<and>
     (if d = [] then r \<in> {-1, 0} else r = sb_len sb')"
  by (rule Sockbuf_read_appends) (simp_all add: demo_simps)

text \<open>The guard of \<open>Sockbuf_copy\<close> is inverted: the call fails whenever the copy would
  leave room in the destination, and a copy that does not fit is not refused but writes past
  the end of the destination block. It succeeds only when the length is exactly the free room.\<close>

theorem Sockbuf_copy_guard_inverted:
  assumes "wf_sockbuf dest" "wf_sockbuf src" "0 \<le> n" "n \<le> sb_size src"
  shows "Sockbuf_copy dest src n =
     (if n < sb_size dest - sb_len dest \<or> n < sb_len src then Some (-1, dest)
      else if n = sb_size dest - sb_len dest
      then Some (n, dest\<lparr>sb_buf := Some (contents dest @ take (nat n) (the (sb_buf src))),
                        sb_len := sb_size dest\<rparr>)
      else None)"
proof -
  from assms(2) obtain sbf where sbf: "sb_buf src = Some sbf" "int (length sbf) = sb_size src"
    by (elim wf_sockbufE)
  from assms(1) obtain b where b: "sb_buf dest = Some b" "int (length b) = sb_size dest"
    "0 \<le> sb_len dest" "contents dest = take (nat (sb_len dest)) b"
    by (elim wf_sockbufE)
  have get: "buf_get 0 n sbf = Some (take (nat n) sbf)"
    using assms sbf by (simp add: buf_get_ok)
  have len: "int (length (take (nat n) sbf)) = n" using assms sbf by simp
  show ?thesis
    using sbf b get len
    by (auto simp: Sockbuf_copy_def buf_put_def)
qed

theorem Sockbuf_copy_guard_inverted_witness:
  "Sockbuf_copy demo_w demo_c 5 = None \<and> Sockbuf_copy demo_w demo_c 1 = Some (-1, demo_w)"
  using Sockbuf_copy_guard_inverted [of demo_w demo_c 5]
    Sockbuf_copy_guard_inverted [of demo_w demo_c 1]
  by (simp add: demo_simps)

end
