(* ===== verification/Packet.thy ===== *)
theory Packet
  imports Sockbuf
begin

text \<open>
  The wire encoder and decoder of \<open>common/net.c\<close>: \<open>Packet_printf\<close> and \<open>Packet_scanf\<close>.

  A format is the character list of the C literal and is walked as the C loop walks it; the
  variadic arguments are a list of \<open>parg\<close>, the values stored through the pointer arguments of
  \<open>Packet_scanf\<close> a list of \<open>sarg\<close>. The conversions \<open>%d %u %ld %lu\<close> move the same four bytes and
  \<open>%hd %hu\<close> the same two, since the bytes stored are the value modulo 256 whatever its sign; they
  are one directive each here. The reference encoding \<open>encode\<close> is the specification both sides
  are proved against.
\<close>

subsection \<open>Byte order\<close>

definition MAX_CHARS :: nat where "MAX_CHARS = 80"
definition MSG_LEN :: nat where "MSG_LEN = 256"

definition be32 :: "i32 \<Rightarrow> byte list" where
  "be32 w = [ucast (drop_bit 24 w), ucast (drop_bit 16 w), ucast (drop_bit 8 w), ucast w]"

definition be16 :: "i16 \<Rightarrow> byte list" where
  "be16 w = [ucast (drop_bit 8 w), ucast w]"

definition un_be32 :: "byte list \<Rightarrow> i32" where
  "un_be32 bs = push_bit 24 (ucast (bs ! 0)) OR push_bit 16 (ucast (bs ! 1))
     OR push_bit 8 (ucast (bs ! 2)) OR ucast (bs ! 3)"

definition un_be16 :: "byte list \<Rightarrow> i16" where
  "un_be16 bs = push_bit 8 (ucast (bs ! 0)) OR ucast (bs ! 1)"

lemma length_be [simp]: "length (be32 w) = 4" "length (be16 v) = 2"
  by (simp_all add: be32_def be16_def)

lemma un_be32_be32 [codec_simps]: "un_be32 (be32 w) = w"
proof (rule bit_word_eqI)
  fix n
  assume "n < LENGTH(32)"
  then consider "n < 8" | "8 \<le> n" "n < 16" | "16 \<le> n" "n < 24" | "24 \<le> n" "n < 32"
    by fastforce
  then show "bit (un_be32 (be32 w)) n = bit w n"
    by cases (auto simp: un_be32_def be32_def bit_simps)
qed

lemma un_be16_be16 [codec_simps]: "un_be16 (be16 w) = w"
  by (rule bit_word_eqI) (auto simp: un_be16_def be16_def bit_simps)

subsection \<open>Arguments and directives\<close>

datatype parg = AInt i32 | AStr "byte list"
  \<comment> \<open>a string argument without its terminating NUL\<close>

datatype sarg = OChar byte | OInt i32 | OShort i16 | OStr "byte list"

datatype directive = DChar | DInt | DShort | DStr | DBigStr

definition max_str_size :: "directive \<Rightarrow> nat" where
  "max_str_size d = (if d = DBigStr then MSG_LEN else MAX_CHARS)"

subsection \<open>Packet_printf\<close>

datatype pf_failure = PfOk | PRINTF_FMT | PRINTF_SIZE

text \<open>The copy loop of a string argument; the list carries the terminating NUL.\<close>

fun pf_str :: "byte list \<Rightarrow> int \<Rightarrow> byte list \<Rightarrow> int \<Rightarrow> (byte list \<times> int) option" where
  "pf_str [] stop b pos = None"
| "pf_str (c # cs) stop b pos =
     (if pos \<ge> stop then Some (b, pos)
      else do { b' \<leftarrow> buf_set pos c b;
                if c = 0 then Some (b', pos + 1) else pf_str cs stop b' (pos + 1) })"

text \<open>Where a string argument must stop: its size limit or the end of the usable space.\<close>

definition str_stop :: "directive \<Rightarrow> int \<Rightarrow> int \<Rightarrow> int" where
  "str_stop d en pos =
     (if pos + int (max_str_size d) \<ge> en then en else pos + int (max_str_size d))"

text \<open>One conversion: \<open>en\<close> is the \<open>end\<close> of the usable space, \<open>pos\<close> the write position.\<close>

fun pf_act ::
  "directive \<Rightarrow> parg list \<Rightarrow> int \<Rightarrow> byte list \<Rightarrow> int \<Rightarrow>
   (pf_failure \<times> parg list \<times> byte list \<times> int) option" where
  "pf_act DChar args en b pos =
     (if pos + 1 \<ge> en then Some (PRINTF_SIZE, args, b, pos)
      else (case args of
              AInt v # as \<Rightarrow> do { b' \<leftarrow> buf_put pos [ucast v] b; Some (PfOk, as, b', pos + 1) }
            | _ \<Rightarrow> None))"
| "pf_act DInt args en b pos =
     (if pos + 4 \<ge> en then Some (PRINTF_SIZE, args, b, pos)
      else (case args of
              AInt v # as \<Rightarrow> do { b' \<leftarrow> buf_put pos (be32 v) b; Some (PfOk, as, b', pos + 4) }
            | _ \<Rightarrow> None))"
| "pf_act DShort args en b pos =
     (if pos + 2 \<ge> en then Some (PRINTF_SIZE, args, b, pos)
      else (case args of
              AInt v # as \<Rightarrow>
                do { b' \<leftarrow> buf_put pos (be16 (ucast v)) b; Some (PfOk, as, b', pos + 2) }
            | _ \<Rightarrow> None))"
| "pf_act d args en b pos =
     (case args of
        AStr str # as \<Rightarrow>
          (let stop = str_stop d en pos in
           do { (b', pos') \<leftarrow> pf_str (str @ [0]) stop b pos;
                Some (if pos' > stop then PRINTF_SIZE else PfOk, as, b', pos') })
      | _ \<Rightarrow> None)"

text \<open>The dispatch on the characters after \<open>%\<close>; the rest of the format is returned.\<close>

definition pf_dir ::
  "char \<Rightarrow> string \<Rightarrow> parg list \<Rightarrow> int \<Rightarrow> byte list \<Rightarrow> int \<Rightarrow>
   (string \<times> (pf_failure \<times> parg list \<times> byte list \<times> int)) option" where
  "pf_dir k fs args en b pos =
     (let two = (\<lambda>n d.
            if pos + n \<ge> en then Some (fs, PRINTF_SIZE, args, b, pos)
            else (case fs of
                    [] \<Rightarrow> Some (fs, PRINTF_FMT, args, b, pos)
                  | k2 # fs2 \<Rightarrow>
                      if k2 = CHR ''d'' \<or> k2 = CHR ''u''
                      then map_option (Pair fs2) (pf_act d args en b pos)
                      else Some (fs2, PRINTF_FMT, args, b, pos)))
      in if k = CHR ''c'' then map_option (Pair fs) (pf_act DChar args en b pos)
         else if k = CHR ''d'' \<or> k = CHR ''u'' then map_option (Pair fs) (pf_act DInt args en b pos)
         else if k = CHR ''h'' then two 2 DShort
         else if k = CHR ''l'' then two 4 DInt
         else if k = CHR ''S'' then map_option (Pair fs) (pf_act DBigStr args en b pos)
         else if k = CHR ''s'' then map_option (Pair fs) (pf_act DStr args en b pos)
         else Some (fs, PRINTF_FMT, args, b, pos))"

lemma pf_dir_shorter: "pf_dir k fs args en b pos = Some (fs', r) \<Longrightarrow> length fs' \<le> length fs"
  by (auto simp: pf_dir_def Let_def split: if_splits list.splits)

function pf_loop ::
  "string \<Rightarrow> parg list \<Rightarrow> int \<Rightarrow> byte list \<Rightarrow> int \<Rightarrow>
   (pf_failure \<times> byte list \<times> int) option" where
  "pf_loop [] args en b pos = Some (PfOk, b, pos)"
| "pf_loop (c # fs) args en b pos =
     (if c \<noteq> CHR ''%'' then Some (PRINTF_FMT, b, pos)
      else (case fs of
              [] \<Rightarrow> Some (PRINTF_FMT, b, pos)
            | k # fs1 \<Rightarrow>
                (case pf_dir k fs1 args en b pos of
                   None \<Rightarrow> None
                 | Some (fs2, f, args2, b2, pos2) \<Rightarrow>
                     if f = PfOk then pf_loop fs2 args2 en b2 pos2 else Some (f, b2, pos2))))"
  by pat_completeness auto
termination
  by (relation "measure (\<lambda>(fs, args, en, b, pos). length fs)")
     (auto dest!: pf_dir_shorter)

declare pf_loop.simps(2) [simp del]

text \<open>
  \<open>last_packet\<close> is the global \<open>last_packet_of_frame\<close>. The result is the count and the buffer;
  only a completed conversion of the whole format commits \<open>len\<close>.
\<close>

definition Packet_printf ::
  "bool \<Rightarrow> sockbuf \<Rightarrow> string \<Rightarrow> parg list \<Rightarrow> (int \<times> sockbuf) option" where
  "Packet_printf last_packet sb fmt args =
     do { b \<leftarrow> sb_buf sb;
          (f, b', pos) \<leftarrow> pf_loop fmt args
             (if last_packet then sb_size sb else sb_size sb - SOCKBUF_WRITE_SPARE) b (sb_len sb);
          (case f of
             PfOk \<Rightarrow> Some (pos - sb_len sb, sb\<lparr>sb_buf := Some b', sb_len := pos\<rparr>)
           | PRINTF_SIZE \<Rightarrow>
               Some (if has_bit (sb_state sb) SOCKBUF_DGRAM then 0 else -1, sb\<lparr>sb_buf := Some b'\<rparr>)
           | PRINTF_FMT \<Rightarrow> Some (-1, sb\<lparr>sb_buf := Some b'\<rparr>)) }"

subsection \<open>Packet_scanf\<close>

datatype sc_failure = ScOk | ScFmt | ScRead | ScShort

text \<open>The test for \<open>n\<close> bytes at offset \<open>j\<close> from the read pointer, refilling a stream buffer.\<close>

definition sc_need ::
  "int \<Rightarrow> int \<Rightarrow> sockbuf \<Rightarrow> os \<Rightarrow> (sc_failure \<times> sockbuf \<times> os) option" where
  "sc_need n j sb s =
     (if sb_len sb < sb_ptr sb + j + n then
        (if has_bit (sb_state sb) (SOCKBUF_DGRAM OR SOCKBUF_LOCK) then Some (ScShort, sb, s)
         else do { (r, sb1, s1) \<leftarrow> Sockbuf_read sb s;
                   if r = -1 then Some (ScRead, sb1, s1)
                   else if sb_len sb1 < sb_ptr sb1 + j + n then Some (ScShort, sb1, s1)
                   else Some (ScOk, sb1, s1) })
      else Some (ScOk, sb, s))"

definition sc_bytes :: "int \<Rightarrow> int \<Rightarrow> sockbuf \<Rightarrow> byte list option" where
  "sc_bytes n j sb = do { b \<leftarrow> sb_buf sb; buf_get (sb_ptr sb + j) n b }"

text \<open>
  The string loop: \<open>left\<close> is \<open>max_str_size - k\<close>. An overlong string fails the scan; on a locked
  buffer the failure is the hard one.
\<close>

fun sc_str ::
  "nat \<Rightarrow> byte list \<Rightarrow> int \<Rightarrow> sockbuf \<Rightarrow> os \<Rightarrow>
   (sc_failure \<times> byte list \<times> int \<times> sockbuf \<times> os) option" where
  "sc_str 0 str j sb s = None"
| "sc_str (Suc left) str j sb s =
     do { (f, sb1, s1) \<leftarrow> sc_need 1 j sb s;
          if f \<noteq> ScOk then Some (f, str, j, sb1, s1)
          else do {
            cs \<leftarrow> sc_bytes 1 j sb1;
            let c = hd cs in
            if c = 0 then Some (ScOk, str, j + 1, sb1, s1)
            else if left = 0 then
              Some (if has_bit (sb_state sb1) SOCKBUF_LOCK then ScRead else ScShort,
                    str @ [c], j + 1, sb1, s1)
            else sc_str left (str @ [c]) (j + 1) sb1 s1 } }"

definition ErRoR :: "byte list" where
  "ErRoR = [0x45, 0x72, 0x52, 0x6f, 0x52]"

fun sc_act ::
  "directive \<Rightarrow> int \<Rightarrow> sockbuf \<Rightarrow> os \<Rightarrow>
   (sc_failure \<times> sarg list \<times> int \<times> sockbuf \<times> os) option" where
  "sc_act DChar j sb s =
     do { (f, sb1, s1) \<leftarrow> sc_need 1 j sb s;
          if f \<noteq> ScOk then Some (f, [], j, sb1, s1)
          else do { bs \<leftarrow> sc_bytes 1 j sb1; Some (ScOk, [OChar (hd bs)], j + 1, sb1, s1) } }"
| "sc_act DInt j sb s =
     do { (f, sb1, s1) \<leftarrow> sc_need 4 j sb s;
          if f \<noteq> ScOk then Some (f, [], j, sb1, s1)
          else do { bs \<leftarrow> sc_bytes 4 j sb1; Some (ScOk, [OInt (un_be32 bs)], j + 4, sb1, s1) } }"
| "sc_act DShort j sb s =
     do { (f, sb1, s1) \<leftarrow> sc_need 2 j sb s;
          if f \<noteq> ScOk then Some (f, [], j, sb1, s1)
          else do { bs \<leftarrow> sc_bytes 2 j sb1; Some (ScOk, [OShort (un_be16 bs)], j + 2, sb1, s1) } }"
| "sc_act d j sb s =
     do { (f, str, j1, sb1, s1) \<leftarrow> sc_str (max_str_size d) [] j sb s;
          Some (f, [OStr (if f = ScOk then str else ErRoR)], j1, sb1, s1) }"

definition sc_dir ::
  "char \<Rightarrow> string \<Rightarrow> int \<Rightarrow> sockbuf \<Rightarrow> os \<Rightarrow>
   (string \<times> (sc_failure \<times> sarg list \<times> int \<times> sockbuf \<times> os)) option" where
  "sc_dir k fs j sb s =
     (let two = (\<lambda>n d.
            (case sc_need n j sb s of
               None \<Rightarrow> None
             | Some (f, sb1, s1) \<Rightarrow>
                 if f \<noteq> ScOk then Some (fs, f, [], j, sb1, s1)
                 else (case fs of
                         [] \<Rightarrow> Some (fs, ScFmt, [], j, sb1, s1)
                       | k2 # fs2 \<Rightarrow>
                           if k2 = CHR ''d'' \<or> k2 = CHR ''u''
                           then map_option (Pair fs2) (sc_act d j sb1 s1)
                           else Some (fs2, ScFmt, [], j, sb1, s1))))
      in if k = CHR ''c'' then map_option (Pair fs) (sc_act DChar j sb s)
         else if k = CHR ''d'' \<or> k = CHR ''u'' then map_option (Pair fs) (sc_act DInt j sb s)
         else if k = CHR ''h'' then two 2 DShort
         else if k = CHR ''l'' then two 4 DInt
         else if k = CHR ''S'' then map_option (Pair fs) (sc_act DBigStr j sb s)
         else if k = CHR ''s'' then map_option (Pair fs) (sc_act DStr j sb s)
         else Some (fs, ScFmt, [], j, sb, s))"

lemma sc_dir_shorter: "sc_dir k fs j sb s = Some (fs', r) \<Longrightarrow> length fs' \<le> length fs"
  by (auto simp: sc_dir_def Let_def split: if_splits list.splits option.splits prod.splits)

function sc_loop ::
  "string \<Rightarrow> int \<Rightarrow> sarg list \<Rightarrow> int \<Rightarrow> sockbuf \<Rightarrow> os \<Rightarrow>
   (sc_failure \<times> int \<times> sarg list \<times> int \<times> sockbuf \<times> os) option" where
  "sc_loop [] count outs j sb s = Some (ScOk, count, outs, j, sb, s)"
| "sc_loop (c # fs) count outs j sb s =
     (if c \<noteq> CHR ''%'' then Some (ScFmt, count, outs, j, sb, s)
      else (case fs of
              [] \<Rightarrow> Some (ScFmt, count + 1, outs, j, sb, s)
            | k # fs1 \<Rightarrow>
                (case sc_dir k fs1 j sb s of
                   None \<Rightarrow> None
                 | Some (fs2, f, os2, j2, sb2, s2) \<Rightarrow>
                     if f = ScOk then sc_loop fs2 (count + 1) (outs @ os2) j2 sb2 s2
                     else Some (f, count + 1, outs @ os2, j2, sb2, s2))))"
  by pat_completeness auto
termination
  by (relation "measure (\<lambda>(fs, count, outs, j, sb, s). length fs)")
     (auto dest!: sc_dir_shorter)

declare sc_loop.simps(2) [simp del]

definition Packet_scanf ::
  "sockbuf \<Rightarrow> string \<Rightarrow> os \<Rightarrow> (int \<times> sarg list \<times> sockbuf \<times> os) option" where
  "Packet_scanf sb fmt s =
     do { (f, count, outs, j, sb1, s1) \<leftarrow> sc_loop fmt 0 [] 0 sb s;
          (case f of
             ScFmt \<Rightarrow> Some (-1, outs, sb1, s1)
           | ScRead \<Rightarrow> Some (-1, outs, sb1, s1)
           | ScShort \<Rightarrow> Some (0, outs, sb1, s1)
           | ScOk \<Rightarrow>
               if sb_len sb1 < sb_ptr sb1 + j then Some (-1, outs, sb1, s1)
               else Some (count, outs, sb1\<lparr>sb_ptr := sb_ptr sb1 + j\<rparr>, s1)) }"

subsection \<open>The reference encoding\<close>

fun parse_dir :: "string \<Rightarrow> (directive \<times> string) option" where
  "parse_dir [] = None"
| "parse_dir (k # fs) =
     (if k = CHR ''c'' then Some (DChar, fs)
      else if k = CHR ''d'' \<or> k = CHR ''u'' then Some (DInt, fs)
      else if k = CHR ''h'' \<or> k = CHR ''l'' then
        (case fs of
           [] \<Rightarrow> None
         | k2 # fs2 \<Rightarrow>
             if k2 = CHR ''d'' \<or> k2 = CHR ''u''
             then Some (if k = CHR ''h'' then DShort else DInt, fs2) else None)
      else if k = CHR ''S'' then Some (DBigStr, fs)
      else if k = CHR ''s'' then Some (DStr, fs)
      else None)"

lemma parse_dir_shorter: "parse_dir fs = Some (d, fs') \<Longrightarrow> length fs' < length fs"
  by (cases fs) (auto split: if_splits list.splits)

function parse_fmt :: "string \<Rightarrow> directive list option" where
  "parse_fmt [] = Some []"
| "parse_fmt (c # fs) =
     (if c \<noteq> CHR ''%'' then None
      else (case parse_dir fs of
              None \<Rightarrow> None
            | Some (d, fs') \<Rightarrow> map_option (Cons d) (parse_fmt fs')))"
  by pat_completeness auto
termination
  by (relation "measure length") (auto dest!: parse_dir_shorter)

fun encode_arg :: "directive \<Rightarrow> parg \<Rightarrow> byte list option" where
  "encode_arg DChar (AInt v) = Some [ucast v]"
| "encode_arg DInt (AInt v) = Some (be32 v)"
| "encode_arg DShort (AInt v) = Some (be16 (ucast v))"
| "encode_arg DStr (AStr s) =
     (if length s < MAX_CHARS \<and> 0 \<notin> set s then Some (s @ [0]) else None)"
| "encode_arg DBigStr (AStr s) =
     (if length s < MSG_LEN \<and> 0 \<notin> set s then Some (s @ [0]) else None)"
| "encode_arg _ _ = None"

fun encode :: "directive list \<Rightarrow> parg list \<Rightarrow> byte list option" where
  "encode [] [] = Some []"
| "encode (d # ds) (a # as) =
     do { x \<leftarrow> encode_arg d a; y \<leftarrow> encode ds as; Some (x @ y) }"
| "encode _ _ = None"

fun decoded_arg :: "directive \<Rightarrow> parg \<Rightarrow> sarg" where
  "decoded_arg DChar (AInt v) = OChar (ucast v)"
| "decoded_arg DInt (AInt v) = OInt v"
| "decoded_arg DShort (AInt v) = OShort (ucast v)"
| "decoded_arg _ (AStr s) = OStr s"
| "decoded_arg _ (AInt v) = OStr []"

fun typed_arg :: "directive \<Rightarrow> parg \<Rightarrow> bool" where
  "typed_arg d (AInt v) \<longleftrightarrow> d \<in> {DChar, DInt, DShort}"
| "typed_arg d (AStr s) \<longleftrightarrow> d \<in> {DStr, DBigStr}"

subsection \<open>The encoder loop over directives\<close>

fun pf_run ::
  "directive list \<Rightarrow> parg list \<Rightarrow> int \<Rightarrow> byte list \<Rightarrow> int \<Rightarrow>
   (pf_failure \<times> byte list \<times> int) option" where
  "pf_run [] args en b pos = Some (PfOk, b, pos)"
| "pf_run (d # ds) args en b pos =
     (case pf_act d args en b pos of
        None \<Rightarrow> None
      | Some (f, args2, b2, pos2) \<Rightarrow>
          if f = PfOk then pf_run ds args2 en b2 pos2 else Some (f, b2, pos2))"

declare parse_dir.simps(2) [simp del]

lemma parse_dir_cases:
  assumes "parse_dir (k # fs) = Some (d, fs2)"
  obtains (char) "k = CHR ''c''" "d = DChar" "fs2 = fs"
  | (int) "k = CHR ''d'' \<or> k = CHR ''u''" "d = DInt" "fs2 = fs"
  | (short) k2 where "k = CHR ''h''" "d = DShort" "fs = k2 # fs2" "k2 = CHR ''d'' \<or> k2 = CHR ''u''"
  | (long) k2 where "k = CHR ''l''" "d = DInt" "fs = k2 # fs2" "k2 = CHR ''d'' \<or> k2 = CHR ''u''"
  | (big) "k = CHR ''S''" "d = DBigStr" "fs2 = fs"
  | (str) "k = CHR ''s''" "d = DStr" "fs2 = fs"
  using assms by (auto simp: parse_dir.simps(2) [of k fs] split: if_splits list.splits)

lemma pf_dir_parse:
  assumes "parse_dir (k # fs) = Some (d, fs2)"
  shows "(pf_act d args en b pos = None \<and> pf_dir k fs args en b pos = None) \<or>
    (\<exists>f r fs'. pf_act d args en b pos = Some (f, r) \<and>
       pf_dir k fs args en b pos = Some (fs', f, r) \<and> (f = PfOk \<longrightarrow> fs' = fs2))"
  using assms
proof (cases rule: parse_dir_cases)
  case short
  then show ?thesis
    by (cases "pos + 2 \<ge> en"; cases "pf_act d args en b pos") (auto simp: pf_dir_def)
next
  case long
  then show ?thesis
    by (cases "pos + 4 \<ge> en"; cases "pf_act d args en b pos") (auto simp: pf_dir_def)
qed (cases "pf_act d args en b pos"; auto simp: pf_dir_def)+

lemma pf_loop_run:
  "parse_fmt fmt = Some ds \<Longrightarrow> pf_loop fmt args en b pos = pf_run ds args en b pos"
proof (induction fmt arbitrary: ds args b pos rule: parse_fmt.induct)
  case 1
  then show ?case by simp
next
  case (2 c fs)
  from "2.prems" obtain d fs2 ds2 where p: "c = CHR ''%''" "parse_dir fs = Some (d, fs2)"
    "parse_fmt fs2 = Some ds2" "ds = d # ds2"
    by (auto split: if_splits option.splits)
  then obtain k fs1 where fs: "fs = k # fs1" by (cases fs) auto
  have IH: "pf_loop fs2 args en b pos = pf_run ds2 args en b pos" for args b pos
    using "2.IH" [OF _ p(2) refl p(3)] p(1) by blast
  from p(2) fs have "parse_dir (k # fs1) = Some (d, fs2)" by simp
  from pf_dir_parse [OF this, of args en b pos] show ?case
    unfolding p(1,4) fs by (subst pf_loop.simps(2)) (auto simp: IH)
qed

lemma pf_str_safe:
  assumes "0 \<in> set cs" "0 \<le> pos" "stop \<le> int (length b)"
  shows "\<exists>b' pos'. pf_str cs stop b pos = Some (b', pos') \<and> length b' = length b \<and>
    take (nat pos) b' = take (nat pos) b \<and> pos \<le> pos' \<and>
    (if stop \<le> pos then pos' = pos else pos' \<le> stop)"
  using assms
proof (induction cs arbitrary: b pos)
  case Nil
  then show ?case by simp
next
  case (Cons c cs)
  show ?case
  proof (cases "stop \<le> pos \<or> c = 0")
    case True
    with Cons.prems show ?thesis by (auto simp: buf_set_ok)
  next
    case False
    with Cons.prems have s: "buf_set pos c b = Some (b[nat pos := c])" by (simp add: buf_set_ok)
    from False Cons.prems Cons.IH [of "pos + 1" "b[nat pos := c]"] obtain b' pos' where
      IH: "pf_str cs stop (b[nat pos := c]) (pos + 1) = Some (b', pos')"
        "length b' = length b" "take (nat (pos + 1)) b' = take (nat (pos + 1)) (b[nat pos := c])"
        "pos + 1 \<le> pos'" "if stop \<le> pos + 1 then pos' = pos + 1 else pos' \<le> stop"
      by auto
    from IH(3) have "take (nat pos) b' = take (nat pos) (b[nat pos := c])"
      by (rule take_append_drop_eq) (use Cons.prems in simp)
    with False s IH show ?thesis by (auto split: if_splits)
  qed
qed

lemma pf_str_whole:
  assumes "0 \<notin> set str" "0 \<le> pos" "stop \<le> int (length b)" "pos + int (length str) + 1 \<le> stop"
  shows "\<exists>b'. pf_str (str @ [0]) stop b pos = Some (b', pos + int (length str) + 1) \<and>
    length b' = length b \<and>
    take (nat pos + length str + 1) b' = take (nat pos) b @ str @ [0]"
  using assms
proof (induction str arbitrary: b pos)
  case Nil
  then show ?case by (auto simp: buf_set_ok take_Suc_conv_app_nth)
next
  case (Cons c cs)
  from Cons.prems have s: "buf_set pos c b = Some (b[nat pos := c])" "c \<noteq> 0" "\<not> stop \<le> pos"
    by (auto simp: buf_set_ok)
  from Cons.prems Cons.IH [of "pos + 1" "b[nat pos := c]"] obtain b' where
    IH: "pf_str (cs @ [0]) stop (b[nat pos := c]) (pos + 1) = Some (b', pos + 1 + int (length cs) + 1)"
      "length b' = length b"
      "take (nat (pos + 1) + length cs + 1) b' = take (nat (pos + 1)) (b[nat pos := c]) @ cs @ [0]"
    by auto
  have "nat (pos + 1) = Suc (nat pos)" using Cons.prems by simp
  then have "take (nat (pos + 1)) (b[nat pos := c]) = take (nat pos) b @ [c]"
    using Cons.prems by (simp add: take_Suc_conv_app_nth)
  with s IH \<open>nat (pos + 1) = Suc (nat pos)\<close> show ?case
    by (intro exI [of _ b']) (simp add: algebra_simps)
qed

lemma pf_act_string:
  assumes "d = DStr \<or> d = DBigStr" "pf_str (str @ [0]) (str_stop d en pos) b pos = Some (b', pos')"
  shows "pf_act d (AStr str # as) en b pos =
    Some (if pos' > str_stop d en pos then PRINTF_SIZE else PfOk, as, b', pos')"
  using assms by auto

lemma str_stop_le: "str_stop d en pos \<le> en"
  by (simp add: str_stop_def)

lemma pf_act_safe:
  assumes "typed_arg d a" "0 \<le> pos" "en \<le> int (length b)"
  shows "\<exists>f as' b' pos'. pf_act d (a # as) en b pos = Some (f, as', b', pos') \<and>
    length b' = length b \<and> take (nat pos) b' = take (nat pos) b \<and> pos \<le> pos' \<and>
    f \<in> {PfOk, PRINTF_SIZE} \<and> (f = PfOk \<longrightarrow> as' = as \<and> pos' \<le> en)"
proof (cases a)
  case (AInt v)
  with assms show ?thesis by (cases d) (auto simp: buf_put_ok)
next
  case (AStr str)
  with assms(1) have d: "d = DStr \<or> d = DBigStr" by simp
  have "str_stop d en pos \<le> int (length b)" using assms str_stop_le order_trans by blast
  with pf_str_safe [of "str @ [0]" pos "str_stop d en pos" b] assms obtain b' pos' where
    r: "pf_str (str @ [0]) (str_stop d en pos) b pos = Some (b', pos')" "length b' = length b"
      "take (nat pos) b' = take (nat pos) b" "pos \<le> pos'" by auto
  from pf_act_string [OF d r(1)] AStr r(2-4) str_stop_le [of d en pos] show ?thesis by auto
qed

lemma pf_run_safe:
  assumes "list_all2 typed_arg ds args" "0 \<le> pos" "en \<le> int (length b)"
  shows "\<exists>f b' pos'. pf_run ds args en b pos = Some (f, b', pos') \<and>
    length b' = length b \<and> take (nat pos) b' = take (nat pos) b \<and> pos \<le> pos' \<and>
    f \<in> {PfOk, PRINTF_SIZE} \<and> (f = PfOk \<longrightarrow> pos' \<le> max pos en)"
  using assms
proof (induction ds arbitrary: args b pos)
  case Nil
  then show ?case by simp
next
  case (Cons d ds)
  from Cons.prems(1) obtain a as where args: "args = a # as" "typed_arg d a" "list_all2 typed_arg ds as"
    by (auto simp: list_all2_Cons1)
  from pf_act_safe [OF args(2) Cons.prems(2,3), of as] obtain f as' b' pos' where
    act: "pf_act d (a # as) en b pos = Some (f, as', b', pos')" "length b' = length b"
      "take (nat pos) b' = take (nat pos) b" "pos \<le> pos'" "f \<in> {PfOk, PRINTF_SIZE}"
      "f = PfOk \<Longrightarrow> as' = as \<and> pos' \<le> en" by blast
  show ?case
  proof (cases "f = PfOk")
    case False
    with act args(1) show ?thesis by auto
  next
    case True
    with Cons.IH [OF args(3), of pos' b'] Cons.prems act obtain g b2 pos2 where
      IH: "pf_run ds as en b' pos' = Some (g, b2, pos2)" "length b2 = length b'"
        "take (nat pos') b2 = take (nat pos') b'" "pos' \<le> pos2" "g \<in> {PfOk, PRINTF_SIZE}"
        "g = PfOk \<Longrightarrow> pos2 \<le> max pos' en" by auto
    have "take (nat pos) b2 = take (nat pos) b'"
      by (rule take_append_drop_eq [OF IH(3)]) (use act(4) in simp)
    with IH act True args(1) show ?thesis by (auto simp: max_def)
  qed
qed

lemma encode_arg_typed: "encode_arg d a = Some bs \<Longrightarrow> typed_arg d a"
  by (cases d; cases a) (auto split: if_splits)

lemma pf_act_encodes:
  assumes "encode_arg d a = Some bs" "0 \<le> pos" "pos + int (length bs) < en"
    "en \<le> int (length b)"
  shows "\<exists>b'. pf_act d (a # as) en b pos = Some (PfOk, as, b', pos + int (length bs)) \<and>
    length b' = length b \<and> take (nat pos + length bs) b' = take (nat pos) b @ bs"
proof (cases a)
  case (AInt v)
  with assms obtain b' where put: "buf_put pos bs b = Some b'" by (simp add: buf_put_ok)
  from AInt put buf_put_length [OF put] buf_put_take [OF put] assms show ?thesis
    by (cases d) (auto simp: be32_def be16_def)
next
  case (AStr str)
  with encode_arg_typed [OF assms(1)] have d: "d = DStr \<or> d = DBigStr" by auto
  with assms(1) AStr have bs: "bs = str @ [0]" "0 \<notin> set str" "length bs \<le> max_str_size d"
    by (auto simp: max_str_size_def split: if_splits)
  then have "pos + int (length str) + 1 \<le> str_stop d en pos"
    using assms(3) by (simp add: str_stop_def)
  with pf_str_whole [OF bs(2) assms(2), of "str_stop d en pos" b] str_stop_le [of d en pos] assms(4)
  obtain b' where b': "pf_str (str @ [0]) (str_stop d en pos) b pos =
        Some (b', pos + int (length str) + 1)" "length b' = length b"
      "take (nat pos + length str + 1) b' = take (nat pos) b @ str @ [0]"
    by auto
  from pf_act_string [OF d b'(1)] AStr b'(2,3) bs(1)
    \<open>pos + int (length str) + 1 \<le> str_stop d en pos\<close>
  show ?thesis by (auto simp: algebra_simps)
qed

lemma pf_run_encodes:
  assumes "encode ds args = Some bs" "0 \<le> pos" "pos + int (length bs) < en"
    "en \<le> int (length b)"
  shows "\<exists>b'. pf_run ds args en b pos = Some (PfOk, b', pos + int (length bs)) \<and>
    length b' = length b \<and> take (nat pos + length bs) b' = take (nat pos) b @ bs"
  using assms
proof (induction ds args arbitrary: bs b pos rule: encode.induct)
  case (2 d ds a as)
  from "2.prems"(1) obtain x y where xy: "encode_arg d a = Some x" "encode ds as = Some y"
    "bs = x @ y" by (auto elim!: bind_SomeE)
  with "2.prems" pf_act_encodes [OF xy(1), of pos en b as] obtain b1 where
    act: "pf_act d (a # as) en b pos = Some (PfOk, as, b1, pos + int (length x))"
      "length b1 = length b" "take (nat pos + length x) b1 = take (nat pos) b @ x" by auto
  with "2.prems" xy "2.IH" [OF xy(1), of y "pos + int (length x)" b1] obtain b2 where
    run: "pf_run ds as en b1 (pos + int (length x)) =
        Some (PfOk, b2, pos + int (length x) + int (length y))" "length b2 = length b1"
      "take (nat (pos + int (length x)) + length y) b2 = take (nat (pos + int (length x))) b1 @ y"
    by auto
  have "nat (pos + int (length x)) = nat pos + length x" using "2.prems"(2) by simp
  with act run xy(3) show ?case by (auto simp: algebra_simps)
qed auto

definition pf_end :: "bool \<Rightarrow> sockbuf \<Rightarrow> int" where
  "pf_end last_packet sb =
     (if last_packet then sb_size sb else sb_size sb - SOCKBUF_WRITE_SPARE)"

lemma pf_end_le: "pf_end last_packet sb \<le> sb_size sb"
  by (simp add: pf_end_def SOCKBUF_WRITE_SPARE_def)

lemma Packet_printf_run:
  assumes "sb_buf sb = Some b" "parse_fmt fmt = Some ds"
    "pf_run ds args (pf_end l sb) b (sb_len sb) = Some (f, b', pos)"
  shows "Packet_printf l sb fmt args =
    (case f of
       PfOk \<Rightarrow> Some (pos - sb_len sb, sb\<lparr>sb_buf := Some b', sb_len := pos\<rparr>)
     | PRINTF_SIZE \<Rightarrow>
         Some (if has_bit (sb_state sb) SOCKBUF_DGRAM then 0 else -1, sb\<lparr>sb_buf := Some b'\<rparr>)
     | PRINTF_FMT \<Rightarrow> Some (-1, sb\<lparr>sb_buf := Some b'\<rparr>))"
  using assms(1,3)
  by (simp add: Packet_printf_def pf_loop_run [OF assms(2)] pf_end_def)

lemma Packet_printf_ok:
  assumes "wf_sockbuf sb" "parse_fmt fmt = Some ds" "encode ds args = Some bs"
    "sb_len sb + int (length bs) < pf_end l sb"
  obtains sb' where "Packet_printf l sb fmt args = Some (int (length bs), sb')"
    "wf_sockbuf sb'" "contents sb' = contents sb @ bs" "sb_ptr sb' = sb_ptr sb"
    "sb_size sb' = sb_size sb" "sb_state sb' = sb_state sb" "sb_len sb' = sb_len sb + int (length bs)"
    "sb_sock sb' = sb_sock sb"
proof -
  from assms(1) obtain b where b: "sb_buf sb = Some b" "int (length b) = sb_size sb"
    "0 \<le> sb_len sb" "0 \<le> sb_ptr sb" "sb_ptr sb \<le> sb_len sb"
    "contents sb = take (nat (sb_len sb)) b" by (elim wf_sockbufE)
  from pf_run_encodes [where b = b, OF assms(3) b(3) assms(4)] pf_end_le [of l sb] b(2) obtain b' where
    r: "pf_run ds args (pf_end l sb) b (sb_len sb) = Some (PfOk, b', sb_len sb + int (length bs))"
      "length b' = length b"
      "take (nat (sb_len sb) + length bs) b' = take (nat (sb_len sb)) b @ bs" by auto
  show ?thesis
  proof (rule that)
    show "Packet_printf l sb fmt args = Some (int (length bs),
        sb\<lparr>sb_buf := Some b', sb_len := sb_len sb + int (length bs)\<rparr>)"
      using Packet_printf_run [OF b(1) assms(2) r(1)] by simp
  qed (use b r assms(4) pf_end_le [of l sb] in
        \<open>auto simp: wf_sockbuf_def contents_def nat_add_distrib\<close>)
qed

lemma Packet_printf_total:
  assumes "wf_sockbuf sb" "parse_fmt fmt = Some ds" "list_all2 typed_arg ds args"
  obtains r sb' d where "Packet_printf l sb fmt args = Some (r, sb')" "wf_sockbuf sb'"
    "contents sb' = contents sb @ d" "int (length d) = max 0 r" "-1 \<le> r"
    "sb_size sb' = sb_size sb" "sb_state sb' = sb_state sb" "sb_ptr sb' = sb_ptr sb"
    "sb_sock sb' = sb_sock sb" "sb_len sb' \<le> max (sb_len sb) (pf_end l sb)"
proof -
  from assms(1) obtain b where b: "sb_buf sb = Some b" "int (length b) = sb_size sb"
    "0 \<le> sb_len sb" "sb_len sb \<le> sb_size sb" "0 \<le> sb_ptr sb" "sb_ptr sb \<le> sb_len sb"
    "contents sb = take (nat (sb_len sb)) b" by (elim wf_sockbufE)
  from pf_run_safe [OF assms(3) b(3), of "pf_end l sb" b] pf_end_le [of l sb] b(2) obtain f b' pos
    where r: "pf_run ds args (pf_end l sb) b (sb_len sb) = Some (f, b', pos)" "length b' = length b"
      "take (nat (sb_len sb)) b' = take (nat (sb_len sb)) b" "sb_len sb \<le> pos"
      "f \<in> {PfOk, PRINTF_SIZE}" "f = PfOk \<Longrightarrow> pos \<le> max (sb_len sb) (pf_end l sb)" by auto
  note run = Packet_printf_run [OF b(1) assms(2) r(1)]
  show ?thesis
  proof (cases "f = PfOk")
    case True
    define d where "d = drop (nat (sb_len sb)) (take (nat pos) b')"
    have "pos \<le> sb_size sb" using r(6) True b(4) pf_end_le [of l sb] by auto
    have "take (nat (sb_len sb)) (take (nat pos) b') = take (nat (sb_len sb)) b"
      using r(3,4) by (simp add: min_def)
    then have "take (nat pos) b' = take (nat (sb_len sb)) b @ d"
      unfolding d_def by (metis append_take_drop_id)
    then show ?thesis
      using True run r b \<open>pos \<le> sb_size sb\<close>
      by (intro that [of "pos - sb_len sb" "sb\<lparr>sb_buf := Some b', sb_len := pos\<rparr>" d])
         (auto simp: wf_sockbuf_def contents_def d_def)
  next
    case False
    with r(5) have "f = PRINTF_SIZE" by simp
    then show ?thesis
      using run r b
      by (intro that [of "if has_bit (sb_state sb) SOCKBUF_DGRAM then 0 else -1"
            "sb\<lparr>sb_buf := Some b'\<rparr>" "[]"])
         (auto simp: wf_sockbuf_def contents_def)
  qed
qed

subsection \<open>The decoder loop over directives\<close>

fun sc_run ::
  "directive list \<Rightarrow> int \<Rightarrow> sarg list \<Rightarrow> int \<Rightarrow> sockbuf \<Rightarrow> os \<Rightarrow>
   (sc_failure \<times> int \<times> sarg list \<times> int \<times> sockbuf \<times> os) option" where
  "sc_run [] count outs j sb s = Some (ScOk, count, outs, j, sb, s)"
| "sc_run (d # ds) count outs j sb s =
     (case sc_act d j sb s of
        None \<Rightarrow> None
      | Some (f, os2, j2, sb2, s2) \<Rightarrow>
          if f = ScOk then sc_run ds (count + 1) (outs @ os2) j2 sb2 s2
          else Some (f, count + 1, outs @ os2, j2, sb2, s2))"

text \<open>The buffers of the server are datagram or locked ones: scanning never refills them.\<close>

definition no_refill :: "sockbuf \<Rightarrow> bool" where
  "no_refill sb \<longleftrightarrow> has_bit (sb_state sb) (SOCKBUF_DGRAM OR SOCKBUF_LOCK)"

lemma sc_need_no_refill:
  "no_refill sb \<Longrightarrow> sc_need n j sb s =
     Some (if sb_len sb < sb_ptr sb + j + n then ScShort else ScOk, sb, s)"
  by (simp add: sc_need_def no_refill_def)

lemma sc_dir_parse:
  assumes "parse_dir (k # fs) = Some (d, fs2)" "no_refill sb"
  shows "(sc_act d j sb s = None \<and> sc_dir k fs j sb s = None) \<or>
    (\<exists>f r fs'. sc_act d j sb s = Some (f, r) \<and>
       sc_dir k fs j sb s = Some (fs', f, r) \<and> (f = ScOk \<longrightarrow> fs' = fs2))"
  using assms(1)
proof (cases rule: parse_dir_cases)
  case short
  with assms(2) show ?thesis
    by (cases "sb_len sb < sb_ptr sb + j + 2"; cases "sc_act d j sb s")
       (auto simp: sc_dir_def sc_need_no_refill)
next
  case long
  with assms(2) show ?thesis
    by (cases "sb_len sb < sb_ptr sb + j + 4"; cases "sc_act d j sb s")
       (auto simp: sc_dir_def sc_need_no_refill)
qed (cases "sc_act d j sb s"; auto simp: sc_dir_def)+

lemma sc_bytes_ok:
  assumes "wf_sockbuf sb" "0 \<le> j" "0 \<le> n" "sb_ptr sb + j + n \<le> sb_len sb"
  shows "sc_bytes n j sb = Some (take (nat n) (drop (nat j) (unread sb)))"
proof -
  from assms(1) obtain b where b: "sb_buf sb = Some b" "int (length b) = sb_size sb"
    "0 \<le> sb_len sb" "sb_len sb \<le> sb_size sb" "0 \<le> sb_ptr sb"
    "contents sb = take (nat (sb_len sb)) b" by (elim wf_sockbufE)
  have eq: "take (nat n) (drop (nat (sb_ptr sb + j)) b) =
      take (nat n) (drop (nat j) (drop (nat (sb_ptr sb)) (take (nat (sb_len sb)) b)))"
    using b assms
    by (simp add: drop_take nat_add_distrib add.commute min_def)
  show ?thesis
    using b assms eq by (simp add: sc_bytes_def buf_get_ok unread_def)
qed

lemma sc_str_no_refill:
  assumes "wf_sockbuf sb" "no_refill sb" "0 \<le> j" "0 < left" "sb_ptr sb + j \<le> sb_len sb"
  shows "\<exists>f str' j'. sc_str left str j sb s = Some (f, str', j', sb, s) \<and> j \<le> j' \<and>
    sb_ptr sb + j' \<le> sb_len sb"
  using assms
proof (induction left arbitrary: str j)
  case 0
  then show ?case by simp
next
  case (Suc left)
  show ?case
  proof (cases "sb_len sb < sb_ptr sb + j + 1")
    case True
    with Suc.prems show ?thesis by (auto simp: sc_need_no_refill Let_def)
  next
    case False
    with Suc.prems sc_bytes_ok [of sb j 1] obtain cs where cs: "sc_bytes 1 j sb = Some cs" by auto
    show ?thesis
    proof (cases "hd cs = 0 \<or> left = 0")
      case True
      with False cs Suc.prems show ?thesis by (auto simp: sc_need_no_refill Let_def)
    next
      case go: False
      with Suc.IH [of "j + 1" "str @ [hd cs]"] Suc.prems False obtain f str' j' where
        "sc_str left (str @ [hd cs]) (j + 1) sb s = Some (f, str', j', sb, s)" "j + 1 \<le> j'"
        "sb_ptr sb + j' \<le> sb_len sb" by auto
      with go False cs Suc.prems show ?thesis by (auto simp: sc_need_no_refill Let_def)
    qed
  qed
qed

lemma sc_act_no_refill:
  assumes "wf_sockbuf sb" "no_refill sb" "0 \<le> j" "sb_ptr sb + j \<le> sb_len sb"
  shows "\<exists>f outs j'. sc_act d j sb s = Some (f, outs, j', sb, s) \<and> j \<le> j' \<and>
    sb_ptr sb + j' \<le> sb_len sb"
proof (cases "d = DStr \<or> d = DBigStr")
  case True
  then have "0 < max_str_size d" by (simp add: max_str_size_def MAX_CHARS_def MSG_LEN_def)
  from sc_str_no_refill [OF assms(1-3) this assms(4), of "[]" s] True show ?thesis
    by (auto; force)
next
  case False
  then show ?thesis
    using assms sc_bytes_ok [of sb j 1] sc_bytes_ok [of sb j 2] sc_bytes_ok [of sb j 4]
    by (cases d) (auto simp: sc_need_no_refill)
qed

lemma sc_loop_run:
  assumes "parse_fmt fmt = Some ds" "wf_sockbuf sb" "no_refill sb" "0 \<le> j"
    "sb_ptr sb + j \<le> sb_len sb"
  shows "sc_loop fmt count outs j sb s = sc_run ds count outs j sb s"
  using assms
proof (induction fmt arbitrary: ds count outs j rule: parse_fmt.induct)
  case 1
  then show ?case by simp
next
  case (2 c fs)
  from "2.prems"(1) obtain d fs2 ds2 where p: "c = CHR ''%''" "parse_dir fs = Some (d, fs2)"
    "parse_fmt fs2 = Some ds2" "ds = d # ds2"
    by (auto split: if_splits option.splits)
  then obtain k fs1 where fs: "fs = k # fs1" by (cases fs) auto
  note IH = "2.IH" [OF _ p(2) refl p(3) "2.prems"(2,3)]
  from p(2) fs have d: "parse_dir (k # fs1) = Some (d, fs2)" by simp
  from sc_act_no_refill [OF "2.prems"(2-5)] obtain f os2 j2 where
    act: "sc_act d j sb s = Some (f, os2, j2, sb, s)" "j \<le> j2" "sb_ptr sb + j2 \<le> sb_len sb"
    by blast
  with sc_dir_parse [OF d "2.prems"(3), of j s] obtain fs' where
    "sc_dir k fs1 j sb s = Some (fs', f, os2, j2, sb, s)" "f = ScOk \<Longrightarrow> fs' = fs2" by auto
  then show ?case
    unfolding p(1,4) fs using act IH [of j2] p(1) "2.prems"(4)
    by (subst sc_loop.simps(2)) auto
qed

lemma length_drop_unread:
  "wf_sockbuf sb \<Longrightarrow> 0 \<le> j \<Longrightarrow> sb_ptr sb + j \<le> sb_len sb \<Longrightarrow>
   int (length (drop (nat j) (unread sb))) = sb_len sb - sb_ptr sb - j"
  using length_unread [of sb] by simp

lemma drop_append_eq:
  "drop k xs = as @ bs \<Longrightarrow> drop (k + length as) xs = bs"
  by (metis add.commute append_eq_conv_conj drop_drop)

lemma sc_str_decodes:
  assumes "wf_sockbuf sb" "no_refill sb" "0 \<le> j" "sb_ptr sb + j \<le> sb_len sb"
    "0 \<notin> set str" "length str < left" "drop (nat j) (unread sb) = str @ 0 # rest"
  shows "sc_str left acc j sb s = Some (ScOk, acc @ str, j + int (length str) + 1, sb, s)"
  using assms
proof (induction str arbitrary: left acc j)
  case Nil
  then obtain n where "left = Suc n" by (cases left) auto
  with Nil length_drop_unread [OF Nil(1,3,4)] sc_bytes_ok [OF Nil(1,3), of 1] show ?case
    by (simp add: sc_need_no_refill)
next
  case (Cons c str)
  then obtain n where n: "left = Suc n" "n \<noteq> 0" by (cases left) auto
  have len: "sb_ptr sb + (j + 1) \<le> sb_len sb"
    using Cons.prems length_drop_unread [OF Cons.prems(1,3,4)] by simp
  have "nat (j + 1) = nat j + length [c]" using Cons.prems(3) by simp
  then have rest: "drop (nat (j + 1)) (unread sb) = str @ 0 # rest"
    using drop_append_eq [of "nat j" "unread sb" "[c]" "str @ 0 # rest"] Cons.prems(7) by simp
  have "sc_str n (acc @ [c]) (j + 1) sb s =
      Some (ScOk, (acc @ [c]) @ str, j + 1 + int (length str) + 1, sb, s)"
    by (rule Cons.IH) (use Cons.prems n len rest in auto)
  with Cons.prems n len sc_bytes_ok [OF Cons.prems(1,3), of 1] show ?case
    by (simp add: sc_need_no_refill algebra_simps)
qed

lemma sc_act_decodes:
  assumes "wf_sockbuf sb" "no_refill sb" "0 \<le> j" "sb_ptr sb + j \<le> sb_len sb"
    "encode_arg d a = Some bs" "drop (nat j) (unread sb) = bs @ rest"
  shows "sc_act d j sb s = Some (ScOk, [decoded_arg d a], j + int (length bs), sb, s)"
proof -
  have len: "sb_ptr sb + j + int (length bs) \<le> sb_len sb"
    using assms(6) length_drop_unread [OF assms(1,3,4)] by simp
  show ?thesis
  proof (cases a)
    case (AInt v)
    with assms len sc_bytes_ok [OF assms(1,3), of "int (length bs)"] show ?thesis
      by (cases d) (auto simp: sc_need_no_refill codec_simps)
  next
    case (AStr str)
    with encode_arg_typed [OF assms(5)] have d: "d = DStr \<or> d = DBigStr" by auto
    with assms(5) AStr have bs: "bs = str @ [0]" "0 \<notin> set str" "length str < max_str_size d"
      by (auto simp: max_str_size_def split: if_splits)
    from sc_str_decodes [OF assms(1-4) bs(2,3), of rest "[]" s] assms(6) bs(1) d AStr show ?thesis
      by (auto simp: algebra_simps)
  qed
qed

lemma sc_run_decodes:
  assumes "encode ds args = Some bs" "wf_sockbuf sb" "no_refill sb" "0 \<le> j"
    "sb_ptr sb + j \<le> sb_len sb" "drop (nat j) (unread sb) = bs @ rest"
  shows "sc_run ds count outs j sb s =
    Some (ScOk, count + int (length ds), outs @ map2 decoded_arg ds args, j + int (length bs), sb, s)"
  using assms
proof (induction ds args arbitrary: bs count outs j rule: encode.induct)
  case (2 d ds a as)
  from "2.prems"(1) obtain x y where xy: "encode_arg d a = Some x" "encode ds as = Some y"
    "bs = x @ y" by (auto elim!: bind_SomeE)
  from "2.prems"(6) xy(3) have xr: "drop (nat j) (unread sb) = x @ (y @ rest)" by simp
  have len: "sb_ptr sb + (j + int (length x)) \<le> sb_len sb"
    using xr length_drop_unread [OF "2.prems"(2,4,5)] by simp
  have "nat (j + int (length x)) = nat j + length x" using "2.prems"(4) by simp
  with drop_append_eq [OF xr] have yr: "drop (nat (j + int (length x))) (unread sb) = y @ rest"
    by simp
  have "sc_run ds (count + 1) (outs @ [decoded_arg d a]) (j + int (length x)) sb s =
    Some (ScOk, count + 1 + int (length ds), (outs @ [decoded_arg d a]) @ map2 decoded_arg ds as,
          j + int (length x) + int (length y), sb, s)"
    by (rule "2.IH" [OF xy(1,2) "2.prems"(2,3) _ len yr]) (use "2.prems"(4) in simp)
  with sc_act_decodes [OF "2.prems"(2-5) xy(1) xr] xy(3) show ?case
    by (simp add: algebra_simps)
qed auto

subsection \<open>Incomplete packets\<close>

lemma Packet_scanf_decodes:
  assumes "parse_fmt fmt = Some ds" "encode ds args = Some bs" "wf_sockbuf r" "no_refill r"
    "unread r = bs @ rest"
  shows "Packet_scanf r fmt s = Some (int (length ds), map2 decoded_arg ds args,
    r\<lparr>sb_ptr := sb_ptr r + int (length bs)\<rparr>, s)"
proof -
  have start: "sb_ptr r + 0 \<le> sb_len r" using assms(3) by (simp add: wf_sockbuf_def)
  have len: "sb_ptr r + int (length bs) \<le> sb_len r"
    using assms(5) length_unread [OF assms(3)] by simp
  have "sc_loop fmt 0 [] 0 r s =
      Some (ScOk, int (length ds), map2 decoded_arg ds args, int (length bs), r, s)"
    using sc_loop_run [OF assms(1,3,4) _ start, of 0 "[]" s]
      sc_run_decodes [OF assms(2-4) _ start, of rest 0 "[]" s] assms(5) by simp
  with len show ?thesis by (simp add: Packet_scanf_def)
qed

text \<open>A successful conversion consumes input and yields a value of the kind of its directive.\<close>

fun typed_out :: "directive \<Rightarrow> sarg \<Rightarrow> bool" where
  "typed_out DChar (OChar _) \<longleftrightarrow> True"
| "typed_out DInt (OInt _) \<longleftrightarrow> True"
| "typed_out DShort (OShort _) \<longleftrightarrow> True"
| "typed_out DStr (OStr _) \<longleftrightarrow> True"
| "typed_out DBigStr (OStr _) \<longleftrightarrow> True"
| "typed_out _ _ \<longleftrightarrow> False"

lemma sc_str_progress: "sc_str left str j sb s = Some (ScOk, str', j', sb1, s1) \<Longrightarrow> j < j'"
proof (induction left arbitrary: str j sb s)
  case (Suc left)
  from Suc.prems obtain f sb2 s2 where need: "sc_need 1 j sb s = Some (f, sb2, s2)"
    by (auto elim!: bind_SomeE)
  with Suc.prems have f: "f = ScOk" by (auto split: if_splits)
  with Suc.prems need obtain cs where cs: "sc_bytes 1 j sb2 = Some cs" by (auto elim!: bind_SomeE)
  show ?case
    using Suc.prems Suc.IH [of "str @ [hd cs]" "j + 1" sb2 s2] need f cs
    by (auto simp: Let_def split: if_splits)
qed simp

lemma sc_act_shape:
  assumes "sc_act d j sb s = Some (ScOk, outs, j', sb1, s1)"
  shows "j < j' \<and> (\<exists>x. outs = [x] \<and> typed_out d x)"
  using assms by (cases d) (auto elim!: bind_SomeE dest!: sc_str_progress split: if_splits)

lemma sc_run_total:
  assumes "wf_sockbuf r" "no_refill r" "0 \<le> j" "sb_ptr r + j \<le> sb_len r"
  shows "\<exists>f c outs' j'. sc_run ds count outs j r s = Some (f, c, outs @ outs', j', r, s) \<and>
    sb_ptr r + j' \<le> sb_len r \<and> (f = ScOk \<longrightarrow> c = count + int (length ds) \<and> j + int (length ds) \<le> j' \<and>
      list_all2 typed_out ds outs')"
  using assms(3,4)
proof (induction ds arbitrary: count outs j)
  case Nil
  then show ?case by simp
next
  case (Cons d ds)
  from sc_act_no_refill [OF assms(1,2) Cons.prems, of d s] obtain f os2 j2 where
    act: "sc_act d j r s = Some (f, os2, j2, r, s)" "j \<le> j2" "sb_ptr r + j2 \<le> sb_len r"
    by blast
  show ?case
  proof (cases "f = ScOk")
    case True
    with sc_act_shape act(1) obtain x where x: "os2 = [x]" "typed_out d x" "j < j2" by blast
    have "0 \<le> j2" using act(2) Cons.prems(1) by simp
    from Cons.IH [OF this act(3), of "count + 1" "outs @ [x]"] obtain f' c outs' j' where
      "sc_run ds (count + 1) (outs @ [x]) j2 r s = Some (f', c, (outs @ [x]) @ outs', j', r, s)"
      "sb_ptr r + j' \<le> sb_len r"
      "f' = ScOk \<longrightarrow> c = count + 1 + int (length ds) \<and> j2 + int (length ds) \<le> j' \<and> list_all2 typed_out ds outs'"
      by blast
    then show ?thesis
      using True act(1) x by (intro exI [of _ f'] exI [of _ c] exI [of _ "x # outs'"] exI [of _ j']) auto
  next
    case False
    with act show ?thesis by auto
  qed
qed

lemma Packet_scanf_total:
  assumes "wf_sockbuf r" "no_refill r" "parse_fmt fmt = Some ds"
  obtains (read) outs p where
      "Packet_scanf r fmt s = Some (int (length ds), outs, r\<lparr>sb_ptr := p\<rparr>, s)"
      "p \<le> sb_len r" "sb_ptr r + int (length ds) \<le> p" "list_all2 typed_out ds outs"
  | (failed) n outs where "Packet_scanf r fmt s = Some (n, outs, r, s)" "n = 0 \<or> n = -1"
proof -
  have start: "sb_ptr r + 0 \<le> sb_len r" using assms(1) by (simp add: wf_sockbuf_def)
  from sc_run_total [OF assms(1,2) order.refl start, of ds 0 "[]" s]
    sc_loop_run [OF assms(3,1,2) order.refl start, of 0 "[]" s]
  obtain f c outs' j' where loop: "sc_loop fmt 0 [] 0 r s = Some (f, c, outs', j', r, s)"
    "sb_ptr r + j' \<le> sb_len r"
    "f = ScOk \<longrightarrow> c = int (length ds) \<and> int (length ds) \<le> j' \<and> list_all2 typed_out ds outs'"
    by auto
  show ?thesis
  proof (cases "f = ScOk")
    case True
    then have "Packet_scanf r fmt s = Some (int (length ds), outs', r\<lparr>sb_ptr := sb_ptr r + j'\<rparr>, s)"
      using loop by (simp add: Packet_scanf_def)
    then show ?thesis by (rule read) (use loop True in simp_all)
  next
    case False
    then obtain n where "Packet_scanf r fmt s = Some (n, outs', r, s)" "n = 0 \<or> n = -1"
      using loop(1) by (cases f) (auto simp: Packet_scanf_def)
    then show ?thesis by (rule failed)
  qed
qed

lemma sc_str_short:
  assumes "wf_sockbuf sb" "no_refill sb" "0 \<le> j" "sb_ptr sb + j \<le> sb_len sb"
    "0 \<notin> set p" "length p < left" "drop (nat j) (unread sb) = p"
  shows "\<exists>str j'. sc_str left acc j sb s = Some (ScShort, str, j', sb, s)"
  using assms
proof (induction p arbitrary: left acc j)
  case Nil
  then obtain n where "left = Suc n" by (cases left) auto
  moreover have "sb_len sb < sb_ptr sb + j + 1"
    using Nil length_drop_unread [OF Nil(1,3,4)] by simp
  ultimately show ?case using Nil by (simp add: sc_need_no_refill)
next
  case (Cons c p)
  then obtain n where n: "left = Suc n" "n \<noteq> 0" by (cases left) auto
  have len: "sb_ptr sb + (j + 1) \<le> sb_len sb"
    using Cons.prems length_drop_unread [OF Cons.prems(1,3,4)] by simp
  have "nat (j + 1) = nat j + length [c]" using Cons.prems(3) by simp
  then have rest: "drop (nat (j + 1)) (unread sb) = p"
    using drop_append_eq [of "nat j" "unread sb" "[c]" p] Cons.prems(7) by simp
  have "\<exists>str j'. sc_str n (acc @ [c]) (j + 1) sb s = Some (ScShort, str, j', sb, s)"
    by (rule Cons.IH) (use Cons.prems n len rest in auto)
  with Cons.prems n len sc_bytes_ok [OF Cons.prems(1,3), of 1] show ?case
    by (simp add: sc_need_no_refill)
qed

lemma encode_arg_int_length:
  "encode_arg d (AInt v) = Some x \<Longrightarrow>
   length x = (case d of DChar \<Rightarrow> 1 | DInt \<Rightarrow> 4 | DShort \<Rightarrow> 2 | _ \<Rightarrow> length x)"
  by (cases d) auto

lemma append_eq_split:
  assumes "p @ q = x @ y"
  obtains (inside) us where "x = p @ us" "us \<noteq> []" | (past) us where "p = x @ us" "us @ q = y"
  using assms by (auto simp: append_eq_append_conv2) (metis append_Nil append_Nil2)

lemma sc_act_short:
  assumes "wf_sockbuf sb" "no_refill sb" "0 \<le> j" "sb_ptr sb + j \<le> sb_len sb"
    "encode_arg d a = Some (p @ q)" "q \<noteq> []" "drop (nat j) (unread sb) = p"
  shows "\<exists>outs j'. sc_act d j sb s = Some (ScShort, outs, j', sb, s)"
proof -
  have len: "sb_len sb < sb_ptr sb + j + int (length (p @ q))"
    using assms(6,7) length_drop_unread [OF assms(1,3,4)] by simp
  show ?thesis
  proof (cases a)
    case (AInt v)
    with assms(5) have "length (p @ q) =
        (case d of DChar \<Rightarrow> 1 | DInt \<Rightarrow> 4 | DShort \<Rightarrow> 2 | _ \<Rightarrow> length (p @ q))"
      using encode_arg_int_length by blast
    with AInt assms len show ?thesis
      by (cases d) (auto simp: sc_need_no_refill simp del: length_append)
  next
    case (AStr str)
    with encode_arg_typed [OF assms(5)] have d: "d = DStr \<or> d = DBigStr" by auto
    with assms(5) AStr have bs: "p @ q = str @ [0]" "0 \<notin> set str" "length str < max_str_size d"
      by (auto simp: max_str_size_def split: if_splits)
    then have "\<exists>r. str = p @ r" using assms(6)
      by (metis append_butlast_last_id butlast_append butlast_snoc)
    with bs have p: "0 \<notin> set p" "length p < max_str_size d" by auto
    from sc_str_short [OF assms(1-4) p assms(7), of "[]" s] d show ?thesis by auto
  qed
qed

lemma sc_run_short:
  assumes "encode ds args = Some (p @ q)" "q \<noteq> []" "wf_sockbuf sb" "no_refill sb" "0 \<le> j"
    "sb_ptr sb + j \<le> sb_len sb" "drop (nat j) (unread sb) = p"
  shows "\<exists>count' outs' j'. sc_run ds count outs j sb s = Some (ScShort, count', outs', j', sb, s)"
  using assms
proof (induction ds args arbitrary: p count outs j rule: encode.induct)
  case (2 d ds a as)
  from "2.prems"(1) obtain x y where xy: "encode_arg d a = Some x" "encode ds as = Some y"
    "p @ q = x @ y" by (auto elim!: bind_SomeE)
  from xy(3) show ?case
  proof (cases rule: append_eq_split)
    case (inside z)
    from sc_act_short [OF "2.prems"(3-6) _ inside(2) "2.prems"(7), of d a s] xy(1) inside(1)
    show ?thesis by auto
  next
    case (past p2)
    note p2 = this
    from "2.prems"(7) p2(1) have xr: "drop (nat j) (unread sb) = x @ p2" by simp
    have len: "sb_ptr sb + (j + int (length x)) \<le> sb_len sb"
      using xr length_drop_unread [OF "2.prems"(3,5,6)] by simp
    have "nat (j + int (length x)) = nat j + length x" using "2.prems"(5) by simp
    with drop_append_eq [OF xr] have yr: "drop (nat (j + int (length x))) (unread sb) = p2"
      by simp
    have "\<exists>count' outs' j'. sc_run ds (count + 1) (outs @ [decoded_arg d a]) (j + int (length x)) sb s
        = Some (ScShort, count', outs', j', sb, s)"
      by (rule "2.IH" [OF xy(1) _ "2.prems"(2-4) _ len yr]) (use xy(2) p2(2) "2.prems"(5) in simp_all)
    with sc_act_decodes [OF "2.prems"(3-6) xy(1) xr] show ?thesis by simp
  qed
qed auto

subsection \<open>Overlong strings\<close>

lemma pf_str_cut:
  assumes "0 \<notin> set str" "0 \<le> pos" "k \<le> length str" "pos + int k \<le> int (length b)"
  shows "\<exists>b'. pf_str (str @ [0]) (pos + int k) b pos = Some (b', pos + int k) \<and>
    length b' = length b \<and> take (nat pos + k) b' = take (nat pos) b @ take k str"
  using assms
proof (induction k arbitrary: str b pos)
  case 0
  then show ?case by (cases str) auto
next
  case (Suc k)
  then obtain c cs where str: "str = c # cs" by (cases str) auto
  with Suc.prems have s: "buf_set pos c b = Some (b[nat pos := c])" "c \<noteq> 0"
    by (auto simp: buf_set_ok)
  have stop: "pos + int (Suc k) = (pos + 1) + int k" by simp
  have np: "nat (pos + 1) = Suc (nat pos)" using Suc.prems by simp
  obtain b' where IH: "pf_str (cs @ [0]) (pos + 1 + int k) (b[nat pos := c]) (pos + 1) =
        Some (b', pos + 1 + int k)" "length b' = length b"
      "take (nat (pos + 1) + k) b' = take (nat (pos + 1)) (b[nat pos := c]) @ take k cs"
    using Suc.IH [of cs "pos + 1" "b[nat pos := c]"] Suc.prems str by auto
  have "take (nat (pos + 1)) (b[nat pos := c]) = take (nat pos) b @ [c]"
    using Suc.prems np by (simp add: take_Suc_conv_app_nth)
  with s IH str np show ?case
    unfolding stop by (intro exI [of _ b']) simp
qed

lemma sc_str_overflow:
  assumes "wf_sockbuf sb" "no_refill sb" "0 \<le> j" "sb_ptr sb + j \<le> sb_len sb"
    "0 \<notin> set str" "str \<noteq> []" "drop (nat j) (unread sb) = str @ rest"
  shows "\<exists>out j'. sc_str (length str) acc j sb s =
    Some (if has_bit (sb_state sb) SOCKBUF_LOCK then ScRead else ScShort, out, j', sb, s)"
  using assms
proof (induction str arbitrary: acc j)
  case Nil
  then show ?case by simp
next
  case (Cons c str)
  have len: "sb_ptr sb + (j + 1) \<le> sb_len sb"
    using Cons.prems length_drop_unread [OF Cons.prems(1,3,4)] by simp
  have "nat (j + 1) = nat j + length [c]" using Cons.prems(3) by simp
  then have rest: "drop (nat (j + 1)) (unread sb) = str @ rest"
    using drop_append_eq [of "nat j" "unread sb" "[c]" "str @ rest"] Cons.prems(7) by simp
  show ?case
  proof (cases "str = []")
    case True
    with Cons.prems len sc_bytes_ok [OF Cons.prems(1,3), of 1] show ?thesis
      by (simp add: sc_need_no_refill)
  next
    case False
    have "\<exists>out j'. sc_str (length str) (acc @ [c]) (j + 1) sb s =
        Some (if has_bit (sb_state sb) SOCKBUF_LOCK then ScRead else ScShort, out, j', sb, s)"
      by (rule Cons.IH) (use Cons.prems len rest False in auto)
    with Cons.prems len False sc_bytes_ok [OF Cons.prems(1,3), of 1] show ?thesis
      by (simp add: sc_need_no_refill)
  qed
qed

subsection \<open>What a packet is cut to\<close>

text \<open>The bytes an argument asks for: an integer's reference encoding; of a string, everything up
  to and with its NUL, but at most the size limit of its directive.\<close>

fun shown_arg :: "directive \<Rightarrow> parg \<Rightarrow> byte list" where
  "shown_arg DChar (AInt v) = [ucast v]"
| "shown_arg DInt (AInt v) = be32 v"
| "shown_arg DShort (AInt v) = be16 (ucast v)"
| "shown_arg d (AStr str) = take (max_str_size d) (takeWhile (\<lambda>c. c \<noteq> 0) str @ [0])"
| "shown_arg _ (AInt v) = []"

fun shown :: "directive list \<Rightarrow> parg list \<Rightarrow> byte list" where
  "shown (d # ds) (a # as) = shown_arg d a @ shown ds as"
| "shown _ _ = []"

lemma takeWhile_no_nul: "0 \<notin> set str \<Longrightarrow> takeWhile (\<lambda>c. c \<noteq> 0) str = str"
  for str :: "byte list"
  by (induction str) auto

lemma shown_arg_encode: "encode_arg d a = Some bs \<Longrightarrow> shown_arg d a = bs"
  by (cases d; cases a) (auto simp: max_str_size_def takeWhile_no_nul split: if_splits)

lemma shown_encode: "encode ds as = Some bs \<Longrightarrow> shown ds as = bs"
  by (induction ds as arbitrary: bs rule: encode.induct)
     (auto elim!: bind_SomeE dest: shown_arg_encode)

text \<open>The copy loop writes the string up to and with its NUL, or until it meets its stop.\<close>

lemma pf_str_prefix:
  assumes "0 \<le> pos" "stop \<le> int (length b)"
    and k: "k = min (length (takeWhile (\<lambda>c. c \<noteq> 0) str) + 1) (nat (stop - pos))"
  shows "\<exists>b'. pf_str (str @ [0]) stop b pos = Some (b', pos + int k) \<and> length b' = length b \<and>
    take (nat pos + k) b' = take (nat pos) b @ take k (takeWhile (\<lambda>c. c \<noteq> 0) str @ [0])"
  using assms
proof (induction str arbitrary: b pos k)
  case Nil
  then show ?case
    by (cases "stop \<le> pos") (auto simp: buf_set_ok take_Suc_conv_app_nth min_def)
next
  case (Cons c cs)
  show ?case
  proof (cases "stop \<le> pos \<or> c = 0")
    case True
    with Cons.prems show ?thesis
      by (cases "stop \<le> pos") (auto simp: buf_set_ok take_Suc_conv_app_nth min_def)
  next
    case False
    define k' where "k' = min (length (takeWhile (\<lambda>c. c \<noteq> 0) cs) + 1) (nat (stop - (pos + 1)))"
    have kk: "k = Suc k'" using False Cons.prems(3) by (auto simp: k'_def min_def)
    have np: "nat (pos + 1) = Suc (nat pos)" using Cons.prems by simp
    from False Cons.prems have s: "buf_set pos c b = Some (b[nat pos := c])" by (simp add: buf_set_ok)
    obtain b' where IH: "pf_str (cs @ [0]) stop (b[nat pos := c]) (pos + 1) =
          Some (b', pos + 1 + int k')" "length b' = length b"
        "take (nat (pos + 1) + k') b' = take (nat (pos + 1)) (b[nat pos := c]) @
           take k' (takeWhile (\<lambda>c. c \<noteq> 0) cs @ [0])"
      using Cons.IH [of "pos + 1" "b[nat pos := c]" k', OF _ _ k'_def] Cons.prems by auto
    have "nat pos < length b" using Cons.prems(1,2) False by linarith
    then have "take (nat (pos + 1)) (b[nat pos := c]) = take (nat pos) b @ [c]"
      using np by (simp add: take_Suc_conv_app_nth)
    with s IH False np show ?thesis
      by (intro exI [of _ b']) (simp add: kk algebra_simps)
  qed
qed

text \<open>A conversion that succeeds has written all its bytes, or is a string that filled the usable
  space; one whose bytes end before the usable space does always succeeds.\<close>

lemma pf_act_shown:
  assumes "typed_arg d a" "0 \<le> pos" "en \<le> int (length b)"
  shows "\<exists>f b' k. pf_act d (a # as) en b pos =
      Some (f, if f = PRINTF_SIZE \<and> d \<notin> {DStr, DBigStr} then a # as else as, b', pos + int k) \<and>
    length b' = length b \<and> k \<le> length (shown_arg d a) \<and>
    (f = PfOk \<longrightarrow> take (nat pos + k) b' = take (nat pos) b @ take k (shown_arg d a) \<and>
       (k < length (shown_arg d a) \<longrightarrow> pos + int k = en \<and> d \<in> {DStr, DBigStr})) \<and>
    (pos + int (length (shown_arg d a)) < en \<longrightarrow> f = PfOk)"
proof (cases a)
  case (AInt v)
  then have d: "d = DChar \<or> d = DInt \<or> d = DShort" using assms(1) by auto
  show ?thesis
  proof (cases "pos + int (length (shown_arg d a)) < en")
    case True
    with assms AInt obtain b' where put: "buf_put pos (shown_arg d a) b = Some b'"
      by (simp add: buf_put_ok)
    have "pf_act d (a # as) en b pos =
        Some (PfOk, as, b', pos + int (length (shown_arg d a)))"
      using d AInt put True by auto
    with buf_put_length [OF put] buf_put_take [OF put] show ?thesis
      by (intro exI [of _ PfOk] exI [of _ b'] exI [of _ "length (shown_arg d a)"]) auto
  next
    case False
    with d AInt show ?thesis
      by (intro exI [of _ PRINTF_SIZE] exI [of _ b] exI [of _ 0]) auto
  qed
next
  case (AStr str)
  then have d: "d = DStr \<or> d = DBigStr" using assms(1) by simp
  define x where "x = takeWhile (\<lambda>c. c \<noteq> 0) str @ [0]"
  define stop where "stop = str_stop d en pos"
  define k where "k = min (length x) (nat (stop - pos))"
  have sh: "shown_arg d a = take (max_str_size d) x" using d AStr by (auto simp: x_def)
  have le: "stop \<le> en" "stop \<le> pos + int (max_str_size d)"
    unfolding stop_def by (auto simp: str_stop_def)
  have mx: "0 < max_str_size d" by (simp add: max_str_size_def MSG_LEN_def MAX_CHARS_def)
  have x0: "0 < length x" by (simp add: x_def)
  obtain b' where b': "pf_str (str @ [0]) stop b pos = Some (b', pos + int k)"
      "length b' = length b" "take (nat pos + k) b' = take (nat pos) b @ take k x"
    using pf_str_prefix [OF assms(2), of stop b k str] le assms(3) by (auto simp: k_def x_def)
  have act: "pf_act d (a # as) en b pos =
      Some (if pos + int k > stop then PRINTF_SIZE else PfOk, as, b', pos + int k)"
    using pf_act_string [OF d] b'(1) AStr unfolding stop_def by simp
  have km: "k \<le> max_str_size d" using le(2) by (auto simp: k_def)
  then have tk: "take k (shown_arg d a) = take k x" by (simp add: sh min_def)
  have kl: "k \<le> length (shown_arg d a)" using km by (simp add: sh k_def)
  have cut: "pos + int k = en" if "k < length (shown_arg d a)" "\<not> pos + int k > stop"
  proof -
    from that(1) have "k < length x" "k < max_str_size d" by (auto simp: sh)
    then have "k = nat (stop - pos)" by (simp add: k_def min_def split: if_splits)
    moreover have "pos \<le> stop" using that(2) by simp
    ultimately have "pos + int k = stop" by simp
    moreover have "stop = en" using \<open>k < max_str_size d\<close> \<open>pos + int k = stop\<close>
      by (auto simp: stop_def str_stop_def split: if_splits)
    ultimately show ?thesis by simp
  qed
  have fits: "\<not> pos + int k > stop" if "pos + int (length (shown_arg d a)) < en"
  proof -
    have "pos \<le> stop" using that by (auto simp: stop_def str_stop_def)
    then show ?thesis by (simp add: k_def)
  qed
  show ?thesis
  proof (intro exI [of _ "if pos + int k > stop then PRINTF_SIZE else PfOk"] exI [of _ b'] exI [of _ k]
      conjI impI)
    show "pf_act d (a # as) en b pos = Some (if pos + int k > stop then PRINTF_SIZE else PfOk,
        if (if pos + int k > stop then PRINTF_SIZE else PfOk) = PRINTF_SIZE \<and>
           d \<notin> {DStr, DBigStr} then a # as else as, b', pos + int k)"
      using act d by auto
  qed (use b' kl tk cut fits d in \<open>auto split: if_splits\<close>)
qed

lemma pf_run_shown:
  assumes "list_all2 typed_arg ds args" "0 \<le> pos" "en \<le> int (length b)"
    "pf_run ds args en b pos = Some (f, b', pos')"
  shows "(f = PfOk \<longrightarrow> (\<exists>k \<le> length (shown ds args). pos' = pos + int k \<and> length b' = length b \<and>
       take (nat pos + k) b' = take (nat pos) b @ take k (shown ds args) \<and>
       (k < length (shown ds args) \<longrightarrow> pos' = en \<and> (\<exists>d \<in> set ds. d \<in> {DStr, DBigStr})))) \<and>
    (pos + int (length (shown ds args)) < en \<longrightarrow> f = PfOk)"
  using assms
proof (induction ds arbitrary: args b pos)
  case Nil
  then show ?case by auto
next
  case (Cons d ds)
  from Cons.prems(1) obtain a as where args: "args = a # as" "typed_arg d a" "list_all2 typed_arg ds as"
    by (auto simp: list_all2_Cons1)
  define x y where "x = shown_arg d a" and "y = shown ds as"
  have sh: "shown (d # ds) args = x @ y" by (simp add: args(1) x_def y_def)
  obtain g as2 b1 k1 where act: "pf_act d (a # as) en b pos = Some (g, as2, b1, pos + int k1)"
      "length b1 = length b" "k1 \<le> length x"
    and g: "g = PfOk \<Longrightarrow> as2 = as" 
      "g = PfOk \<Longrightarrow> take (nat pos + k1) b1 = take (nat pos) b @ take k1 x"
      "g = PfOk \<Longrightarrow> k1 < length x \<Longrightarrow> pos + int k1 = en \<and> d \<in> {DStr, DBigStr}"
    and fits: "pos + int (length x) < en \<Longrightarrow> g = PfOk"
    using pf_act_shown [OF args(2) Cons.prems(2,3), of as] unfolding x_def by fastforce
  show ?case
  proof (cases "g = PfOk")
    case False
    then have "\<not> pos + int (length x) < en" using fits by blast
    then have "\<not> pos + int (length (x @ y)) < en" by simp
    moreover have "f \<noteq> PfOk" using False act(1) args(1) Cons.prems(4) by auto
    ultimately show ?thesis unfolding sh by blast
  next
    case True
    have run: "pf_run ds as en b1 (pos + int k1) = Some (f, b', pos')"
      using Cons.prems(4) act(1) args(1) True g(1) by simp
    have p1: "0 \<le> pos + int k1" "en \<le> int (length b1)" using Cons.prems act(2) by auto
    have np: "nat (pos + int k1) = nat pos + k1" using Cons.prems(2) by simp
    note IH = Cons.IH [OF args(3) p1 run, folded y_def, unfolded np]
    show ?thesis
    proof (cases "f = PfOk")
      case False
      then have "\<not> pos + int k1 + int (length y) < en" using IH by blast
      moreover have "k1 \<le> length x" by (rule act(3))
      ultimately show ?thesis using False by (auto simp: sh)
    next
      case fok: True
      with IH obtain k2 where k2: "k2 \<le> length y" "pos' = pos + int k1 + int k2"
          "length b' = length b1"
          "take (nat pos + k1 + k2) b' = take (nat pos + k1) b1 @ take k2 y"
          "k2 < length y \<Longrightarrow> pos' = en \<and> (\<exists>d \<in> set ds. d \<in> {DStr, DBigStr})" by blast
      have all: "take (nat pos + (k1 + k2)) b' = take (nat pos) b @ take k1 x @ take k2 y"
        using k2(4) g(2) [OF True] by (simp add: add.assoc)
      have k20: "k2 = 0" if "k1 < length x"
      proof -
        have "pos + int k1 = en" using g(3) [OF True that] by simp
        moreover have "pos' \<le> max (pos + int k1) en"
          using pf_run_safe [OF args(3) p1] run fok by auto
        ultimately show ?thesis using k2(2) by simp
      qed
      show ?thesis
      proof (rule conjI, rule impI, rule exI [of _ "k1 + k2"], intro conjI impI)
        show "k1 + k2 \<le> length (shown (d # ds) args)" using act(3) k2(1) by (simp add: sh)
        show "pos' = pos + int (k1 + k2)" using k2(2) by simp
        show "length b' = length b" using k2(3) act(2) by simp
        show "take (nat pos + (k1 + k2)) b' = take (nat pos) b @ take (k1 + k2) (shown (d # ds) args)"
          using all k20 act(3) by (cases "k1 < length x") (auto simp: sh)
        assume less: "k1 + k2 < length (shown (d # ds) args)"
        show "pos' = en" using less g(3) [OF True] k20 k2(2,5) act(3)
          by (cases "k1 < length x") (auto simp: sh)
        show "\<exists>d \<in> set (d # ds). d \<in> {DStr, DBigStr}" using less g(3) [OF True] k2(5) act(3)
          by (cases "k1 < length x") (auto simp: sh)
      qed (use fok in simp)
    qed
  qed
qed

lemma Packet_printf_shown:
  assumes "wf_sockbuf sb" "parse_fmt fmt = Some ds" "list_all2 typed_arg ds args"
  shows "\<exists>n sb' d. Packet_printf l sb fmt args = Some (n, sb') \<and> wf_sockbuf sb' \<and>
    contents sb' = contents sb @ d \<and> -1 \<le> n \<and> int (length d) = max 0 n \<and>
    sb_len sb' \<le> max (sb_len sb) (pf_end l sb) \<and> d = take (length d) (shown ds args) \<and>
    (sb_len sb + int (length (shown ds args)) < pf_end l sb \<longrightarrow> d = shown ds args) \<and>
    (d \<noteq> [] \<and> d \<noteq> shown ds args \<longrightarrow>
       sb_len sb' = pf_end l sb \<and> (DStr \<in> set ds \<or> DBigStr \<in> set ds))"
proof -
  from assms(1) obtain b where b: "sb_buf sb = Some b" "int (length b) = sb_size sb"
    "0 \<le> sb_len sb" "sb_len sb \<le> sb_size sb" "contents sb = take (nat (sb_len sb)) b"
    by (elim wf_sockbufE)
  have en: "pf_end l sb \<le> int (length b)" using pf_end_le [of l sb] b(2) by simp
  from pf_run_safe [OF assms(3) b(3) en] obtain f b' pos where
    r: "pf_run ds args (pf_end l sb) b (sb_len sb) = Some (f, b', pos)" by blast
  note run = Packet_printf_run [OF b(1) assms(2) r]
  note sh = pf_run_shown [OF assms(3) b(3) en r]
  obtain n sb' d where t: "Packet_printf l sb fmt args = Some (n, sb')" "wf_sockbuf sb'"
    "contents sb' = contents sb @ d" "int (length d) = max 0 n" "-1 \<le> n"
    "sb_len sb' \<le> max (sb_len sb) (pf_end l sb)"
    using Packet_printf_total [OF assms, of l] by metis
  show ?thesis
  proof (cases "f = PfOk")
    case False
    have "n = 0 \<or> n = -1" using t(1) run False
      by (cases f) (auto split: if_splits)
    then have d: "d = []" using t(4) by auto
    have "\<not> sb_len sb + int (length (shown ds args)) < pf_end l sb" using sh False by blast
    with t d show ?thesis
      by (intro exI [of _ n] exI [of _ sb'] exI [of _ d] conjI impI) simp_all
  next
    case True
    with sh obtain k where k: "k \<le> length (shown ds args)" "pos = sb_len sb + int k"
        "length b' = length b"
        "take (nat (sb_len sb) + k) b' = take (nat (sb_len sb)) b @ take k (shown ds args)"
        "k < length (shown ds args) \<Longrightarrow> pos = pf_end l sb \<and> (\<exists>d \<in> set ds. d \<in> {DStr, DBigStr})"
      by blast
    have n: "n = int k" "sb' = sb\<lparr>sb_buf := Some b', sb_len := pos\<rparr>" using t(1) run True k(2) by auto
    have "contents sb' = contents sb @ take k (shown ds args)"
      using k(2,4) b(3,5) n(2) by (simp add: contents_def nat_add_distrib)
    with t(3) have d: "d = take k (shown ds args)" by simp
    have ld: "length d = k" using d k(1) by simp
    have len: "sb_len sb' = pos" using n(2) by simp
    have "d = take (length d) (shown ds args)" using d ld by simp
    moreover have "d = shown ds args" if "sb_len sb + int (length (shown ds args)) < pf_end l sb"
      using k(1,2,5) d that by (cases "k < length (shown ds args)") auto
    moreover have "sb_len sb' = pf_end l sb \<and> (DStr \<in> set ds \<or> DBigStr \<in> set ds)"
      if "d \<noteq> []" "d \<noteq> shown ds args"
      using k(1,5) d len that by (cases "k < length (shown ds args)") auto
    ultimately show ?thesis using t by blast
  qed
qed

subsection \<open>Properties of the wire format\<close>

lemma demo_fmt: "parse_fmt ''%c%hd%ld%s'' = Some [DChar, DShort, DInt, DStr]"
  by (simp add: parse_dir.simps(2))

lemma demo_encode:
  "encode [DChar, DShort, DInt, DStr] [AInt 51, AInt (-2), AInt 258, AStr [0x61, 0x62]] =
   Some [51, 255, 254, 0, 0, 1, 2, 0x61, 0x62, 0]"
  by (simp add: be32_def be16_def MAX_CHARS_def)

definition demo_send :: sockbuf where
  "demo_send = \<lparr>sb_sock = 3, sb_buf = Some (replicate 32 0), sb_size = 32, sb_len = 0,
                sb_ptr = 0, sb_state = 0x12\<rparr>"

definition demo_recv :: sockbuf where
  "demo_recv = \<lparr>sb_sock = 4, sb_buf = Some ([51, 255, 254, 0, 0, 1, 2, 0x61, 0x62, 0] @ [9, 9]),
                sb_size = 12, sb_len = 12, sb_ptr = 0, sb_state = 0x11\<rparr>"

text \<open>C9. Whatever \<open>Packet_printf\<close> is asked to encode, if its string arguments have no NUL inside
  and respect the size limit of their directive and the packet ends before the usable space does,
  it returns the number of bytes of the reference encoding and appends exactly those bytes; and a
  peer whose unread input starts with the bytes so produced gets, from \<open>Packet_scanf\<close> with the
  same format, all the values back (each integer cut to the width of its directive), the number of
  directives as the result, and its read pointer just past the packet.\<close>

theorem Packet_roundtrip:
  assumes "wf_sockbuf w" "parse_fmt fmt = Some ds" "encode ds args = Some bs"
    "sb_len w + int (length bs) < pf_end l w"
    "wf_sockbuf r" "no_refill r" "unread r = bs @ rest"
  shows "\<exists>w'. Packet_printf l w fmt args = Some (int (length bs), w') \<and>
     contents w' = contents w @ bs \<and>
     Packet_scanf r fmt s =
       Some (int (length ds), map2 decoded_arg ds args,
             r\<lparr>sb_ptr := sb_ptr r + int (length bs)\<rparr>, s)"
proof -
  obtain w' where w': "Packet_printf l w fmt args = Some (int (length bs), w')"
    "contents w' = contents w @ bs"
    using Packet_printf_ok [OF assms(1-4)] by metis
  then show ?thesis using Packet_scanf_decodes [OF assms(2,3,5-7)] by blast
qed

theorem Packet_roundtrip_witness:
  "\<exists>w'. Packet_printf False demo_send ''%c%hd%ld%s''
        [AInt 51, AInt (-2), AInt 258, AStr [0x61, 0x62]] =
      Some (int (length [51 :: byte, 255, 254, 0, 0, 1, 2, 0x61, 0x62, 0]), w') \<and>
     contents w' = contents demo_send @ [51, 255, 254, 0, 0, 1, 2, 0x61, 0x62, 0] \<and>
     Packet_scanf demo_recv ''%c%hd%ld%s'' demo_os =
       Some (int (length [DChar, DShort, DInt, DStr]),
             map2 decoded_arg [DChar, DShort, DInt, DStr]
               [AInt 51, AInt (-2), AInt 258, AStr [0x61, 0x62]],
             demo_recv\<lparr>sb_ptr := sb_ptr demo_recv +
               int (length [51 :: byte, 255, 254, 0, 0, 1, 2, 0x61, 0x62, 0])\<rparr>, demo_os)"
  by (rule Packet_roundtrip [where l = False and rest = "[9, 9]", OF _ demo_fmt demo_encode])
     (simp_all add: demo_send_def demo_recv_def wf_sockbuf_def pf_end_def SOCKBUF_WRITE_SPARE_def
        no_refill_def has_bit_def SOCKBUF_DGRAM_def SOCKBUF_LOCK_def unread_def contents_def)

text \<open>C11. Scanning is safe on any input: for every well-formed datagram or locked buffer with
  arbitrary bytes and every legal format, \<open>Packet_scanf\<close> returns without reading outside the
  received bytes, leaves the buffer contents alone, and returns either the number of directives
  with the read pointer moved forward inside the data, or 0 or -1 with the buffer unchanged.\<close>

theorem Packet_scanf_safe:
  assumes "wf_sockbuf r" "no_refill r" "parse_fmt fmt = Some ds"
  shows "\<exists>n outs r'. Packet_scanf r fmt s = Some (n, outs, r', s) \<and> wf_sockbuf r' \<and>
     contents r' = contents r \<and>
     (if n = int (length ds) then sb_ptr r \<le> sb_ptr r' else n \<in> {0, -1} \<and> r' = r)"
proof (rule Packet_scanf_total [OF assms, of s])
  fix outs p
  assume "Packet_scanf r fmt s = Some (int (length ds), outs, r\<lparr>sb_ptr := p\<rparr>, s)" "p \<le> sb_len r"
    "sb_ptr r + int (length ds) \<le> p"
  then show ?thesis using assms(1) by (auto simp: wf_sockbuf_def contents_def split: option.splits)
next
  fix n outs
  assume "Packet_scanf r fmt s = Some (n, outs, r, s)" "n = 0 \<or> n = -1"
  then show ?thesis using assms(1) by auto
qed

theorem Packet_scanf_safe_witness:
  "\<exists>n outs r'. Packet_scanf demo_recv ''%c%hd%ld%s'' demo_os = Some (n, outs, r', demo_os) \<and>
     wf_sockbuf r' \<and> contents r' = contents demo_recv \<and>
     (if n = int (length [DChar, DShort, DInt, DStr]) then sb_ptr demo_recv \<le> sb_ptr r'
      else n \<in> {0, -1} \<and> r' = demo_recv)"
  by (rule Packet_scanf_safe [OF _ _ demo_fmt])
     (simp_all add: demo_recv_def wf_sockbuf_def no_refill_def has_bit_def SOCKBUF_DGRAM_def
        SOCKBUF_LOCK_def)

text \<open>A packet that has only partly arrived is left for later: when the unread input is a
  proper prefix of an encoding, \<open>Packet_scanf\<close> returns 0 and neither the read pointer nor the
  buffer changes.\<close>

lemma Packet_scanf_incomplete:
  assumes "wf_sockbuf r" "no_refill r" "parse_fmt fmt = Some ds"
    "encode ds args = Some (unread r @ q)" "q \<noteq> []"
  shows "\<exists>outs. Packet_scanf r fmt s = Some (0, outs, r, s)"
proof -
  have start: "sb_ptr r + 0 \<le> sb_len r" using assms(1) by (simp add: wf_sockbuf_def)
  from sc_run_short [OF assms(4,5,1,2) order.refl start, of 0 "[]" s]
    sc_loop_run [OF assms(3,1,2) order.refl start, of 0 "[]" s]
  show ?thesis by (auto simp: Packet_scanf_def)
qed

definition demo_part :: sockbuf where
  "demo_part = demo_recv\<lparr>sb_len := 8\<rparr>"

text \<open>C12. What \<open>Packet_printf\<close> writes, exactly. For a legal format with arguments of the right
  kinds (strings of any length) the bytes asked for are \<open>shown\<close>: the integers' encodings and each
  string up to and with its NUL, or up to its size limit. The call never leaves its block, and
  unless it is writing the last packet of a frame it never enters the last
  \<open>SOCKBUF_WRITE_SPARE\<close> bytes of the buffer. It returns the number of bytes appended, or 0 or -1
  with the buffered bytes unchanged; what it appends is a prefix of the bytes asked for, and all of
  them when they end before the usable space does. Only a string that runs into the end of the
  usable space is cut, and then the packet fills that space to its last byte: a packet of numbers
  is written whole or not at all, one with strings is not.\<close>

theorem Packet_printf_exact:
  assumes "wf_sockbuf w" "parse_fmt fmt = Some ds" "list_all2 typed_arg ds args"
    and en: "en = (if l then sb_size w else sb_size w - SOCKBUF_WRITE_SPARE)"
  shows "\<exists>n w' d. Packet_printf l w fmt args = Some (n, w') \<and> wf_sockbuf w' \<and>
     contents w' = contents w @ d \<and> -1 \<le> n \<and> int (length d) = max 0 n \<and>
     sb_len w' \<le> max (sb_len w) en \<and> d = take (length d) (shown ds args) \<and>
     (sb_len w + int (length (shown ds args)) < en \<longrightarrow> d = shown ds args) \<and>
     (d \<noteq> [] \<and> d \<noteq> shown ds args \<longrightarrow>
        sb_len w' = en \<and> (DStr \<in> set ds \<or> DBigStr \<in> set ds))"
proof -
  have "en = pf_end l w" by (simp add: en pf_end_def)
  with Packet_printf_shown [OF assms(1-3), of l] show ?thesis by simp
qed

definition demo_args :: "parg list" where
  "demo_args = [AInt 51, AInt (-2), AInt 258, AStr (replicate 81 65)]"

theorem Packet_printf_exact_witness:
  "\<exists>n w' d. Packet_printf False demo_send ''%c%hd%ld%s'' demo_args = Some (n, w') \<and>
     wf_sockbuf w' \<and> contents w' = contents demo_send @ d \<and> -1 \<le> n \<and> int (length d) = max 0 n \<and>
     sb_len w' \<le> max (sb_len demo_send) 24 \<and>
     d = take (length d) (shown [DChar, DShort, DInt, DStr] demo_args) \<and>
     (sb_len demo_send + int (length (shown [DChar, DShort, DInt, DStr] demo_args)) < 24 \<longrightarrow>
        d = shown [DChar, DShort, DInt, DStr] demo_args) \<and>
     (d \<noteq> [] \<and> d \<noteq> shown [DChar, DShort, DInt, DStr] demo_args \<longrightarrow>
        sb_len w' = 24 \<and> (DStr \<in> set [DChar, DShort, DInt, DStr] \<or>
          DBigStr \<in> set [DChar, DShort, DInt, DStr]))"
proof (rule Packet_printf_exact [where l = False, OF _ demo_fmt])
  show "wf_sockbuf demo_send" by (simp add: demo_send_def wf_sockbuf_def)
  show "list_all2 typed_arg [DChar, DShort, DInt, DStr] demo_args" by (simp add: demo_args_def)
  show "24 = (if False then sb_size demo_send else sb_size demo_send - SOCKBUF_WRITE_SPARE)"
    by (simp add: demo_send_def SOCKBUF_WRITE_SPARE_def)
qed

text \<open>A \<open>%s\<close> argument of \<open>MAX_CHARS\<close> or more characters is not refused: \<open>Packet_printf\<close>
  reports success after writing its first \<open>MAX_CHARS\<close> characters without a terminating NUL, and a
  peer whose input starts with these bytes cannot scan them back: its \<open>Packet_scanf\<close> returns 0
  on a datagram buffer, -1 on a locked one, and the packet is stuck in its buffer.\<close>

theorem Packet_printf_cuts_strings:
  assumes "wf_sockbuf w" "0 \<notin> set str" "MAX_CHARS \<le> length str"
    "sb_len w + int MAX_CHARS < pf_end l w"
    "wf_sockbuf r" "no_refill r" "unread r = take MAX_CHARS str @ rest"
  shows "\<exists>w' outs. Packet_printf l w ''%s'' [AStr str] = Some (int MAX_CHARS, w') \<and>
     contents w' = contents w @ take MAX_CHARS str \<and>
     Packet_scanf r ''%s'' s =
       Some (if has_bit (sb_state r) SOCKBUF_LOCK then -1 else 0, outs, r, s)"
proof -
  have fmt: "parse_fmt ''%s'' = Some [DStr]" by (simp add: parse_dir.simps(2))
  from assms(1) obtain b where b: "sb_buf w = Some b" "int (length b) = sb_size w"
    "0 \<le> sb_len w" "sb_len w \<le> sb_size w" "contents w = take (nat (sb_len w)) b"
    by (elim wf_sockbufE)
  have stop: "str_stop DStr (pf_end l w) (sb_len w) = sb_len w + int MAX_CHARS"
    using assms(4) by (simp add: str_stop_def max_str_size_def)
  obtain b' where b': "pf_str (str @ [0]) (sb_len w + int MAX_CHARS) b (sb_len w) =
        Some (b', sb_len w + int MAX_CHARS)" "length b' = length b"
      "take (nat (sb_len w) + MAX_CHARS) b' = take (nat (sb_len w)) b @ take MAX_CHARS str"
    using pf_str_cut [OF assms(2) b(3) assms(3), of b] assms(4) pf_end_le [of l w] b(2) by auto
  have "pf_run [DStr] [AStr str] (pf_end l w) b (sb_len w) =
      Some (PfOk, b', sb_len w + int MAX_CHARS)"
    using b'(1) stop by simp
  from Packet_printf_run [OF b(1) fmt this]
  have p: "Packet_printf l w ''%s'' [AStr str] =
      Some (int MAX_CHARS, w\<lparr>sb_buf := Some b', sb_len := sb_len w + int MAX_CHARS\<rparr>)" by simp
  have c: "contents (w\<lparr>sb_buf := Some b', sb_len := sb_len w + int MAX_CHARS\<rparr>) =
      contents w @ take MAX_CHARS str"
    using b b' by (simp add: contents_def nat_add_distrib)
  have start: "sb_ptr r + 0 \<le> sb_len r" using assms(5) by (simp add: wf_sockbuf_def)
  have "0 \<notin> set (take MAX_CHARS str)" using assms(2) by (meson in_set_takeD)
  moreover have "take MAX_CHARS str \<noteq> []" "length (take MAX_CHARS str) = MAX_CHARS"
    using assms(3) by (auto simp: MAX_CHARS_def)
  ultimately obtain out j' where "sc_str MAX_CHARS [] 0 r s =
      Some (if has_bit (sb_state r) SOCKBUF_LOCK then ScRead else ScShort, out, j', r, s)"
    using sc_str_overflow [OF assms(5,6) order.refl start, of "take MAX_CHARS str" rest "[]" s]
      assms(7) by auto
  then have "\<exists>outs. Packet_scanf r ''%s'' s =
       Some (if has_bit (sb_state r) SOCKBUF_LOCK then -1 else 0, outs, r, s)"
    using sc_loop_run [OF fmt assms(5,6) order.refl start, of 0 "[]" s]
    by (auto simp: Packet_scanf_def max_str_size_def)
  with p c show ?thesis by blast
qed

theorem Packet_printf_cuts_strings_witness:
  "\<exists>w' outs. Packet_printf False
        (demo_send\<lparr>sb_buf := Some (replicate 100 0), sb_size := 100\<rparr>) ''%s'' [AStr (replicate 81 65)] =
      Some (int MAX_CHARS, w') \<and>
     contents w' = contents (demo_send\<lparr>sb_buf := Some (replicate 100 0), sb_size := 100\<rparr>) @
       take MAX_CHARS (replicate 81 65) \<and>
     Packet_scanf (demo_recv\<lparr>sb_buf := Some (replicate 80 65), sb_size := 80, sb_len := 80\<rparr>)
         ''%s'' demo_os =
       Some (if has_bit (sb_state (demo_recv\<lparr>sb_buf := Some (replicate 80 65), sb_size := 80,
                 sb_len := 80\<rparr>)) SOCKBUF_LOCK then -1 else 0, outs,
             demo_recv\<lparr>sb_buf := Some (replicate 80 65), sb_size := 80, sb_len := 80\<rparr>, demo_os)"
  by (rule Packet_printf_cuts_strings [where l = False and rest = "[]"])
     (simp_all add: demo_send_def demo_recv_def wf_sockbuf_def pf_end_def SOCKBUF_WRITE_SPARE_def
        MAX_CHARS_def no_refill_def has_bit_def SOCKBUF_DGRAM_def SOCKBUF_LOCK_def unread_def
        contents_def)

end
