(* ===== verification/Check_Names.thy ===== *)
theory Check_Names
  imports C_Strings
begin

text \<open>
  The name checks of \<open>common/checknames.c\<close>: the server passes every name a client or a map file
  supplies through a \<open>Fix_\<close> routine before it uses it.

  Names are C strings in a block, as in \<open>C_Strings\<close>. A \<open>Fix_\<close> routine overwrites bytes in place
  and looks ahead only at bytes it has not changed yet, so it maps the block from the front.
\<close>

definition MAX_NAME_LEN :: nat where "MAX_NAME_LEN = 16"
definition MAX_HOST_LEN :: nat where "MAX_HOST_LEN = 64"
definition NAME_OK :: int where "NAME_OK = 1"
definition NAME_ERROR :: int where "NAME_ERROR = 0"

text \<open>The character classes of the C library in the C locale.\<close>

definition isgraph :: "byte \<Rightarrow> bool" where "isgraph c \<longleftrightarrow> 33 \<le> c \<and> c \<le> 126"
definition isprint :: "byte \<Rightarrow> bool" where "isprint c \<longleftrightarrow> 32 \<le> c \<and> c \<le> 126"
definition isupper :: "byte \<Rightarrow> bool" where "isupper c \<longleftrightarrow> 65 \<le> c \<and> c \<le> 90"
definition islower :: "byte \<Rightarrow> bool" where "islower c \<longleftrightarrow> 97 \<le> c \<and> c \<le> 122"
definition isspace :: "byte \<Rightarrow> bool" where "isspace c \<longleftrightarrow> c = 32 \<or> (9 \<le> c \<and> c \<le> 13)"
definition toupper :: "byte \<Rightarrow> byte" where "toupper c = (if islower c then c - 32 else c)"

definition is_alpha_numeric :: "byte \<Rightarrow> bool" where
  "is_alpha_numeric c \<longleftrightarrow> (65 \<le> c \<and> c \<le> 90) \<or> (97 \<le> c \<and> c \<le> 122) \<or> (48 \<le> c \<and> c \<le> 57)"

lemmas class_defs = isgraph_def isprint_def isupper_def islower_def isspace_def toupper_def
  is_alpha_numeric_def

subsection \<open>Loops\<close>

text \<open>\<open>for (; *str; str++) if (!p( *str)) return NAME_ERROR\<close>: whether all bytes pass.\<close>

fun all_chars :: "(byte \<Rightarrow> bool) \<Rightarrow> byte list \<Rightarrow> bool option" where
  "all_chars p (c # s) = (if c = 0 then Some True else if \<not> p c then Some False else all_chars p s)"
| "all_chars p [] = None"

text \<open>\<open>for (; *str; str++) if (!p( *str)) *str = 'x'\<close>.\<close>

fun fix_chars :: "(byte \<Rightarrow> bool) \<Rightarrow> byte list \<Rightarrow> byte list option" where
  "fix_chars p (c # s) =
     (if c = 0 then Some (c # s)
      else do { s' \<leftarrow> fix_chars p s; Some ((if \<not> p c then 120 else c) # s') })"
| "fix_chars p [] = None"

text \<open>The last byte before the terminator, \<open>--str\<close> after the loop.\<close>

fun last_char :: "byte list \<Rightarrow> byte option" where
  "last_char (c # d # s) = (if d = 0 then Some c else last_char (d # s))"
| "last_char _ = None"

subsection \<open>Real and display names\<close>

definition Check_real_name :: "byte list \<Rightarrow> (int \<times> byte list) option" where
  "Check_real_name name =
     do { name1 \<leftarrow> buf_set (int (MAX_NAME_LEN - 1)) 0 name;
          c \<leftarrow> buf_at 0 name1;
          if c = 0 then Some (NAME_ERROR, name1)
          else do { ok \<leftarrow> all_chars isgraph name1;
                    Some (if ok then NAME_OK else NAME_ERROR, name1) } }"

definition Fix_real_name :: "byte list \<Rightarrow> byte list option" where
  "Fix_real_name name =
     do { name1 \<leftarrow> buf_set (int (MAX_NAME_LEN - 1)) 0 name;
          c \<leftarrow> buf_at 0 name1;
          if c = 0 then buf_put 0 [88, 0] name1 else fix_chars isgraph name1 }"

definition Check_disp_name :: "byte list \<Rightarrow> (int \<times> byte list) option" where
  "Check_disp_name name =
     do { name1 \<leftarrow> buf_set (int MAX_NAME_LEN) 0 name;
          ok \<leftarrow> all_chars isgraph name1;
          Some (if ok then NAME_OK else NAME_ERROR, name1) }"

definition Fix_disp_name :: "byte list \<Rightarrow> byte list option" where
  "Fix_disp_name name =
     do { name1 \<leftarrow> buf_set (int MAX_NAME_LEN) 0 name; fix_chars isgraph name1 }"

subsection \<open>Nick names\<close>

definition Check_nick_name :: "byte list \<Rightarrow> (int \<times> byte list) option" where
  "Check_nick_name name =
     do { name1 \<leftarrow> buf_set (int (MAX_NAME_LEN - 1)) 0 name;
          c \<leftarrow> buf_at 0 name1;
          if c = 0 then Some (NAME_ERROR, name1)
          else if \<not> isupper c then Some (NAME_ERROR, name1)
          else do { ok \<leftarrow> all_chars isprint name1;
                    if \<not> ok then Some (NAME_ERROR, name1)
                    else do { l \<leftarrow> last_char name1;
                              Some (if isspace l then NAME_ERROR else NAME_OK, name1) } } }"

text \<open>\<open>while (isspace( *str)) *str-- = 0\<close>, on the bytes before the terminator in reverse.\<close>

fun strip_back :: "byte list \<Rightarrow> byte list option" where
  "strip_back (c # s) = (if isspace c then do { s' \<leftarrow> strip_back s; Some (0 # s') } else Some (c # s))"
| "strip_back [] = None"

text \<open>\<open>sprintf\<close> of an \<open>int\<close> with \<open>%d\<close>.\<close>

fun decimal :: "nat \<Rightarrow> byte list" where
  "decimal n = (if n < 10 then [of_nat (48 + n)] else decimal (n div 10) @ [of_nat (48 + n mod 10)])"

declare decimal.simps [simp del]

definition format_int :: "i32 \<Rightarrow> byte list" where
  "format_int n = (if sint n < 0 then 45 # decimal (nat (- sint n)) else decimal (nat (sint n)))"

text \<open>The static counter \<open>n\<close> of unnamed players is passed in and returned.\<close>

definition Fix_nick_name :: "byte list \<Rightarrow> i32 \<Rightarrow> (byte list \<times> i32) option" where
  "Fix_nick_name name n =
     do { name1 \<leftarrow> buf_set (int (MAX_NAME_LEN - 1)) 0 name;
          c \<leftarrow> buf_at 0 name1;
          if c = 0 then do { name2 \<leftarrow> buf_put 0 (88 # format_int n @ [0]) name1; Some (name2, n + 1) }
          else do {
            let c' = (if \<not> isupper c then (if islower c then toupper c else 88) else c);
            name2 \<leftarrow> buf_set 0 c' name1;
            name3 \<leftarrow> fix_chars isprint name2;
            back \<leftarrow> strip_back (rev (cstr name3));
            Some (rev back @ drop (length (cstr name3)) name3, n) } }"

subsection \<open>Host names\<close>

text \<open>A dot or a dash must not be followed by a dot, a dash or the end.\<close>

definition host_sep :: "byte \<Rightarrow> bool" where
  "host_sep c \<longleftrightarrow> c = 46 \<or> c = 45"

fun check_host_chars :: "byte list \<Rightarrow> bool option" where
  "check_host_chars (c # s) =
     (if c = 0 then Some True
      else if \<not> is_alpha_numeric c then
        (if host_sep c then do { d \<leftarrow> buf_at 0 s;
                                 if host_sep d \<or> d = 0 then Some False else check_host_chars s }
         else Some False)
      else check_host_chars s)"
| "check_host_chars [] = None"

fun fix_host_chars :: "byte list \<Rightarrow> byte list option" where
  "fix_host_chars (c # s) =
     (if c = 0 then Some (c # s)
      else do {
        c' \<leftarrow> (if \<not> is_alpha_numeric c then
                (if host_sep c then do { d \<leftarrow> buf_at 0 s; Some (if host_sep d \<or> d = 0 then 120 else c) }
                 else Some 120)
               else Some c);
        s' \<leftarrow> fix_host_chars s;
        Some (c' # s') })"
| "fix_host_chars [] = None"

definition Check_host_name :: "byte list \<Rightarrow> (int \<times> byte list) option" where
  "Check_host_name name =
     do { name1 \<leftarrow> buf_set (int (MAX_HOST_LEN - 1)) 0 name;
          c \<leftarrow> buf_at 0 name1;
          if \<not> is_alpha_numeric c then Some (NAME_ERROR, name1)
          else do { ok \<leftarrow> check_host_chars name1;
                    Some (if ok then NAME_OK else NAME_ERROR, name1) } }"

definition Fix_host_name :: "byte list \<Rightarrow> byte list option" where
  "Fix_host_name name =
     do { name1 \<leftarrow> buf_set (int (MAX_HOST_LEN - 1)) 0 name;
          c \<leftarrow> buf_at 0 name1;
          if \<not> is_alpha_numeric c then buf_put 0 [120, 120, 120, 46, 120, 120, 120, 0] name1
          else fix_host_chars name1 }"

subsection \<open>Fixed names pass their checks\<close>

text \<open>The interface of a kind of name: a fixer whose results the checker accepts and that leaves
  accepted names as they are.\<close>

locale name_filter =
  fixes fix_name :: "byte list \<Rightarrow> byte list option"
    and check_name :: "byte list \<Rightarrow> (int \<times> byte list) option"
    and room :: nat
  assumes fix_accepted: "room \<le> length b \<Longrightarrow>
      \<exists>b'. fix_name b = Some b' \<and> length b' = length b \<and> check_name b' = Some (NAME_OK, b')"
    and accepted_kept: "check_name b = Some (NAME_OK, b') \<Longrightarrow> fix_name b = Some b'"
begin

lemma fix_twice:
  assumes "room \<le> length b" "fix_name b = Some b'"
  shows "fix_name b' = Some b'"
proof -
  from fix_accepted [OF assms(1)] assms(2) have "check_name b' = Some (NAME_OK, b')" by auto
  then show ?thesis by (rule accepted_kept)
qed

end

lemma x_classes [simp]: "isgraph 120" "isprint 120" "is_alpha_numeric 120" "\<not> host_sep 120"
  by (simp_all add: class_defs host_sep_def)

lemma fix_chars_ok:
  assumes "terminated s" "p 120"
  shows "\<exists>s'. fix_chars p s = Some s' \<and> length s' = length s \<and> all_chars p s' = Some True \<and>
    (\<forall>i < length s. (s' ! i = 0) = (s ! i = 0)) \<and> terminated s' \<and>
    cstr s' = map (\<lambda>c. if \<not> p c then 120 else c) (cstr s) \<and>
    drop (length (cstr s)) s' = drop (length (cstr s)) s"
  using assms
proof (induction s)
  case (Cons c s)
  then show ?case by (auto simp: nth_Cons split: nat.splits)
qed simp

lemma fix_chars_id: "all_chars p s = Some True \<Longrightarrow> fix_chars p s = Some s"
  by (induction p s rule: all_chars.induct) (auto split: if_splits)

lemma set_terminates: "n < length b \<Longrightarrow> terminated (b[n := 0])"
  by (auto simp: terminated_def set_update_memI)

lemma buf_set_twice:
  "buf_set i v b = Some b1 \<Longrightarrow> length b' = length b \<Longrightarrow> b' ! nat i = v \<Longrightarrow> buf_set i v b' = Some b'"
  by (auto simp: buf_set_def list_update_id split: if_splits)

lemma fix_host_chars_ok:
  assumes "terminated s"
  shows "\<exists>s'. fix_host_chars s = Some s' \<and> length s' = length s \<and> check_host_chars s' = Some True \<and>
    (\<forall>i < length s. s ! i = 0 \<longrightarrow> s' ! i = 0) \<and>
    (hd s = 0 \<longleftrightarrow> hd s' = 0) \<and> (host_sep (hd s') \<longrightarrow> host_sep (hd s)) \<and>
    (is_alpha_numeric (hd s) \<longrightarrow> hd s' = hd s)"
  using assms
proof (induction s)
  case (Cons c s)
  show ?case
  proof (cases "c = 0")
    case True
    then show ?thesis by simp
  next
    case False
    with Cons obtain s' where s': "fix_host_chars s = Some s'" "length s' = length s"
      "check_host_chars s' = Some True" "\<forall>i < length s. s ! i = 0 \<longrightarrow> s' ! i = 0"
      "hd s = 0 \<longleftrightarrow> hd s' = 0" "host_sep (hd s') \<longrightarrow> host_sep (hd s)"
      by auto
    from False Cons.prems obtain d r where s: "s = d # r" by (cases s) auto
    with s'(2) obtain d' r' where s'_eq: "s' = d' # r'" by (cases s') auto
    have at: "buf_at 0 s = Some d" "buf_at 0 s' = Some d'" by (simp_all add: s s'_eq cmem_simps)
    have hd: "d = 0 \<longleftrightarrow> d' = 0" "host_sep d' \<Longrightarrow> host_sep d" using s' s s'_eq by auto
    have zeros: "\<forall>i < length (c # s). (c # s) ! i = 0 \<longrightarrow> (v # s') ! i = 0" for v
      using False s'(4) by (auto simp: nth_Cons split: nat.splits)
    consider "is_alpha_numeric c" | "\<not> is_alpha_numeric c" "host_sep c" "\<not> (host_sep d \<or> d = 0)"
      | "\<not> is_alpha_numeric c" "host_sep c" "host_sep d \<or> d = 0"
      | "\<not> is_alpha_numeric c" "\<not> host_sep c" by blast
    then show ?thesis
      using False s'(1-3) at hd zeros by cases auto
  qed
qed simp

lemma fix_host_chars_id: "check_host_chars s = Some True \<Longrightarrow> fix_host_chars s = Some s"
proof (induction s rule: check_host_chars.induct)
  case (1 c s)
  show ?case
  proof (cases "c = 0 \<or> is_alpha_numeric c")
    case True
    then show ?thesis using 1 by (auto split: if_splits)
  next
    case False
    with "1.prems" obtain d where "host_sep c" "buf_at 0 s = Some d" "\<not> (host_sep d \<or> d = 0)"
      "check_host_chars s = Some True"
      by (auto split: if_splits elim!: bind_SomeE)
    with 1 False show ?thesis by auto
  qed
qed simp

lemma all_chars_cstr: "terminated s \<Longrightarrow> all_chars p s = Some (list_all p (cstr s))"
  by (induction s) auto

lemma last_char_cstr: "terminated s \<Longrightarrow> cstr s \<noteq> [] \<Longrightarrow> last_char s = Some (last (cstr s))"
  by (induction s rule: last_char.induct) auto

lemma strip_back_ok:
  "\<exists>c \<in> set s. \<not> isspace c \<Longrightarrow>
   strip_back s = Some (map (\<lambda>_. 0) (takeWhile isspace s) @ dropWhile isspace s)"
  by (induction s) auto

lemma first_set:
  assumes "0 < n" "n < length b"
  shows "buf_set (int n) 0 b = Some (b[n := 0])" "buf_at 0 (b[n := 0]) = Some (hd b)"
    "hd (b[n := 0]) = hd b" "terminated (b[n := 0])" "b[n := 0] ! n = 0"
proof -
  from assms have "b \<noteq> []" by auto
  with assms show "buf_set (int n) 0 b = Some (b[n := 0])" "buf_at 0 (b[n := 0]) = Some (hd b)"
    "hd (b[n := 0]) = hd b" "terminated (b[n := 0])" "b[n := 0] ! n = 0"
    by (auto simp: cmem_simps set_terminates hd_conv_nth)
qed

lemma keep_terminator:
  "n < length b \<Longrightarrow> b ! n = 0 \<Longrightarrow> buf_set (int n) 0 b = Some b"
  by (simp add: cmem_simps list_update_same_conv)

lemma hd_nth0: "b \<noteq> [] \<Longrightarrow> buf_at 0 b = Some (hd b)"
  by (simp add: cmem_simps hd_conv_nth)

interpretation real_names: name_filter Fix_real_name Check_real_name MAX_NAME_LEN
proof
  fix b :: "byte list"
  assume "MAX_NAME_LEN \<le> length b"
  then have len: "15 < length b" by (simp add: MAX_NAME_LEN_def)
  note fs = first_set [of 15 b, OF _ len, simplified]
  show "\<exists>b'. Fix_real_name b = Some b' \<and> length b' = length b \<and> Check_real_name b' = Some (NAME_OK, b')"
  proof (cases "hd b = 0")
    case True
    define b' where "b' = 88 # 0 # drop (length [88, 0 :: byte]) (b[15 := 0])"
    have l: "length b' = length b" "b' ! 15 = 0" using len by (simp_all add: b'_def nth_Cons')
    have "buf_put 0 [88, 0] (b[15 := 0]) = Some b'" using len by (simp add: cmem_simps b'_def)
    then have "Fix_real_name b = Some b'"
      using fs True by (simp add: Fix_real_name_def MAX_NAME_LEN_def)
    moreover have "Check_real_name b' = Some (NAME_OK, b')"
      using keep_terminator [of 15 b'] l len
      by (simp add: Check_real_name_def MAX_NAME_LEN_def hd_nth0 b'_def isgraph_def)
    ultimately show ?thesis using l by blast
  next
    case False
    obtain b' where b': "fix_chars isgraph (b[15 := 0]) = Some b'" "length b' = length b"
      "all_chars isgraph b' = Some True" "\<forall>i < length b. (b' ! i = 0) = (b[15 := 0] ! i = 0)"
      using fix_chars_ok [OF fs(4), of isgraph] by auto
    have "b[15 := 0] ! 0 \<noteq> 0" "b' \<noteq> []"
      using fs(3) False len b'(2) by (cases b; auto)+
    then have "b' ! 15 = 0" "b' ! 0 \<noteq> 0" "b' \<noteq> []"
      using spec [OF b'(4), of 0] spec [OF b'(4), of 15] fs(5) len by auto
    then have "Check_real_name b' = Some (NAME_OK, b')"
      using keep_terminator [of 15 b'] b' len
      by (simp add: Check_real_name_def MAX_NAME_LEN_def hd_nth0 hd_conv_nth)
    moreover have "Fix_real_name b = Some b'"
      using fs False b'(1) by (simp add: Fix_real_name_def MAX_NAME_LEN_def)
    ultimately show ?thesis using b'(2) by blast
  qed
next
  fix b b' :: "byte list"
  assume "Check_real_name b = Some (NAME_OK, b')"
  then show "Fix_real_name b = Some b'"
    by (auto simp: Check_real_name_def Fix_real_name_def NAME_OK_def NAME_ERROR_def
        elim!: bind_SomeE split: if_splits intro!: fix_chars_id)
qed

interpretation disp_names: name_filter Fix_disp_name Check_disp_name "Suc MAX_NAME_LEN"
proof
  fix b :: "byte list"
  assume "Suc MAX_NAME_LEN \<le> length b"
  then have len: "16 < length b" by (simp add: MAX_NAME_LEN_def)
  note fs = first_set [of 16 b, OF _ len, simplified]
  obtain b' where b': "fix_chars isgraph (b[16 := 0]) = Some b'" "length b' = length b"
    "all_chars isgraph b' = Some True" "\<forall>i < length b. (b' ! i = 0) = (b[16 := 0] ! i = 0)"
    using fix_chars_ok [OF fs(4), of isgraph] by auto
  have "b' ! 16 = 0" using b'(2,4) len by auto
  then have "Check_disp_name b' = Some (NAME_OK, b')"
    using keep_terminator [of 16 b'] b' len by (simp add: Check_disp_name_def MAX_NAME_LEN_def)
  moreover have "Fix_disp_name b = Some b'"
    using fs b'(1) by (simp add: Fix_disp_name_def MAX_NAME_LEN_def)
  ultimately show "\<exists>b'. Fix_disp_name b = Some b' \<and> length b' = length b \<and> Check_disp_name b' = Some (NAME_OK, b')"
    using b'(2) by blast
next
  fix b b' :: "byte list"
  assume "Check_disp_name b = Some (NAME_OK, b')"
  then show "Fix_disp_name b = Some b'"
    by (auto simp: Check_disp_name_def Fix_disp_name_def NAME_OK_def NAME_ERROR_def
        elim!: bind_SomeE split: if_splits intro!: fix_chars_id)
qed

interpretation host_names: name_filter Fix_host_name Check_host_name MAX_HOST_LEN
proof
  fix b :: "byte list"
  assume "MAX_HOST_LEN \<le> length b"
  then have len: "63 < length b" by (simp add: MAX_HOST_LEN_def)
  note fs = first_set [of 63 b, OF _ len, simplified]
  show "\<exists>b'. Fix_host_name b = Some b' \<and> length b' = length b \<and> Check_host_name b' = Some (NAME_OK, b')"
  proof (cases "is_alpha_numeric (hd b)")
    case False
    define b' where "b' = [120, 120, 120, 46, 120, 120, 120, 0] @
      drop (length [120, 120, 120, 46, 120, 120, 120, 0 :: byte]) (b[63 := 0])"
    have l: "length b' = length b" "b' ! 63 = 0" using len by (simp_all add: b'_def nth_Cons')
    have "buf_put 0 [120, 120, 120, 46, 120, 120, 120, 0] (b[63 := 0]) = Some b'"
      using len by (simp add: cmem_simps b'_def)
    then have fixed: "Fix_host_name b = Some b'"
      using fs False by (simp add: Fix_host_name_def MAX_HOST_LEN_def)
    have "check_host_chars b' = Some True"
      by (simp add: b'_def is_alpha_numeric_def host_sep_def cmem_simps)
    moreover have ne: "b' \<noteq> []" "hd b' = 120" by (simp_all add: b'_def)
    ultimately have "Check_host_name b' = Some (NAME_OK, b')"
      using keep_terminator [of 63 b'] l len
      by (simp add: Check_host_name_def MAX_HOST_LEN_def hd_nth0 is_alpha_numeric_def)
    then show ?thesis using l fixed by blast
  next
    case True
    obtain b' where b': "fix_host_chars (b[63 := 0]) = Some b'" "length b' = length b"
      "check_host_chars b' = Some True" "\<forall>i < length b. b[63 := 0] ! i = 0 \<longrightarrow> b' ! i = 0" "hd b' = hd b"
      using fix_host_chars_ok [OF fs(4)] True fs(3) by auto
    have "b' ! 63 = 0" "b' \<noteq> []" using b'(2,4) len by auto
    then have "Check_host_name b' = Some (NAME_OK, b')"
      using keep_terminator [of 63 b'] b' len True
      by (simp add: Check_host_name_def MAX_HOST_LEN_def hd_nth0)
    moreover have "Fix_host_name b = Some b'"
      using fs True b'(1) by (simp add: Fix_host_name_def MAX_HOST_LEN_def)
    ultimately show ?thesis using b'(2) by blast
  qed
next
  fix b b' :: "byte list"
  assume "Check_host_name b = Some (NAME_OK, b')"
  then show "Fix_host_name b = Some b'"
    by (auto simp: Check_host_name_def Fix_host_name_def NAME_OK_def NAME_ERROR_def
        elim!: bind_SomeE split: if_splits intro!: fix_host_chars_id)
qed

subsection \<open>The nick name filter\<close>

lemma decimal_length: "n < 10 ^ Suc k \<Longrightarrow> length (decimal n) \<le> Suc k"
proof (induction k arbitrary: n)
  case 0
  then show ?case by (simp add: decimal.simps)
next
  case (Suc k)
  show ?case
  proof (cases "n < 10")
    case True
    then show ?thesis by (simp add: decimal.simps)
  next
    case False
    have "n div 10 < 10 ^ Suc k" using Suc.prems by (simp add: div_less_iff_less_mult)
    then have "length (decimal (n div 10)) \<le> Suc k" by (rule Suc.IH)
    then show ?thesis using False by (subst decimal.simps) simp
  qed
qed

definition plain :: "byte \<Rightarrow> bool" where "plain c \<longleftrightarrow> c \<noteq> 0 \<and> isprint c \<and> \<not> isspace c"

lemma digit_plain: "k < 10 \<Longrightarrow> plain (of_nat (48 + k))"
proof -
  have "list_all (\<lambda>k. plain (of_nat (48 + k))) [0..<10]"
    by (simp add: plain_def isprint_def isspace_def upt_rec)
  then show "k < 10 \<Longrightarrow> ?thesis" by (simp add: list_all_iff)
qed

lemma decimal_plain: "list_all plain (decimal n)"
proof (induction n rule: decimal.induct)
  case (1 n)
  show ?case
  proof (cases "n < 10")
    case True
    then show ?thesis using digit_plain [of n] by (simp add: decimal.simps)
  next
    case False
    then show ?thesis using 1 digit_plain [of "n mod 10"] by (subst decimal.simps) simp
  qed
qed

lemma decimal_nonempty: "decimal n \<noteq> []"
  by (subst decimal.simps) simp

lemma format_int_ok: "length (format_int n) \<le> 11" "list_all plain (format_int n)" "format_int n \<noteq> []"
proof -
  have "- 2147483648 \<le> sint n" "sint n < 2147483648"
    using sint_greater_eq [of n] sint_less [of n] by simp_all
  then have "nat (sint n) < 10 ^ Suc 9" "nat (- sint n) < 10 ^ Suc 9" by simp_all
  from this [THEN decimal_length] show "length (format_int n) \<le> 11" by (auto simp: format_int_def)
  show "list_all plain (format_int n)"
    using decimal_plain by (simp add: format_int_def plain_def isprint_def isspace_def)
  show "format_int n \<noteq> []" by (simp add: format_int_def decimal_nonempty)
qed

lemma plain_string:
  assumes "list_all plain s"
  shows "0 \<notin> set s" "list_all isprint s" "s \<noteq> [] \<Longrightarrow> \<not> isspace (last s)"
  using assms by (auto simp: list_all_iff plain_def)

text \<open>What the checker asks of the string in the block.\<close>

lemma Check_nick_name_ok:
  assumes "15 < length b" "b ! 15 = 0" "cstr b \<noteq> []" "isupper (hd (cstr b))"
    "list_all isprint (cstr b)" "\<not> isspace (last (cstr b))"
  shows "Check_nick_name b = Some (NAME_OK, b)"
proof -
  have b: "b \<noteq> []" "hd b = hd (cstr b)" "hd b \<noteq> 0" using assms(3) by (cases b; auto split: if_splits)+
  have "terminated b" unfolding terminated_def using assms(1,2) by (metis nth_mem)
  then have "all_chars isprint b = Some True" "last_char b = Some (last (cstr b))"
    using assms by (simp_all add: all_chars_cstr last_char_cstr)
  then show ?thesis
    using assms b keep_terminator [of 15 b]
    by (simp add: Check_nick_name_def MAX_NAME_LEN_def hd_nth0)
qed

lemma Check_nick_name_okD:
  assumes "Check_nick_name b = Some (NAME_OK, b')"
  shows "b' = b[15 := 0]" "15 < length b" "hd b \<noteq> 0" "isupper (hd b)"
    "all_chars isprint b' = Some True" "\<exists>l. last_char b' = Some l \<and> \<not> isspace l"
proof -
  from assms have len: "15 < length b"
    by (auto simp: Check_nick_name_def MAX_NAME_LEN_def buf_set_def elim!: bind_SomeE split: if_splits)
  note fs = first_set [of 15 b, OF _ len, simplified]
  show "15 < length b" by (rule len)
  show "b' = b[15 := 0]" "hd b \<noteq> 0" "isupper (hd b)" "all_chars isprint b' = Some True"
    "\<exists>l. last_char b' = Some l \<and> \<not> isspace l"
    using assms fs
    by (auto simp: Check_nick_name_def MAX_NAME_LEN_def NAME_OK_def NAME_ERROR_def
        elim!: bind_SomeE split: if_splits)
qed

lemma fixed_first:
  "isupper (if \<not> isupper c then (if islower c then toupper c else 88) else c)"
proof (cases "islower c \<and> \<not> isupper c")
  case True
  then have "unat (c - 32) = unat c - 32" "97 \<le> unat c" "unat c \<le> 122"
    by (auto simp: islower_def word_le_nat_alt unat_sub)
  then show ?thesis using True by (simp add: isupper_def toupper_def word_le_nat_alt) arith
qed (auto simp: isupper_def)

lemma isupper_classes: "isupper c \<Longrightarrow> c \<noteq> 0 \<and> isprint c \<and> \<not> isspace c"
  by (auto simp: isupper_def isprint_def isspace_def word_le_nat_alt)

interpretation nick_names: name_filter "\<lambda>b. map_option fst (Fix_nick_name b n)" Check_nick_name
  MAX_NAME_LEN for n
proof
  fix b :: "byte list"
  assume "MAX_NAME_LEN \<le> length b"
  then have len: "15 < length b" by (simp add: MAX_NAME_LEN_def)
  note fs = first_set [of 15 b, OF _ len, simplified]
  define b1 where "b1 = b[15 := 0]"
  show "\<exists>b'. map_option fst (Fix_nick_name b n) = Some b' \<and> length b' = length b \<and>
      Check_nick_name b' = Some (NAME_OK, b')"
  proof (cases "hd b = 0")
    case True
    define t where "t = 88 # format_int n"
    define b' where "b' = t @ 0 # drop (Suc (length t)) b1"
    have lt: "length t \<le> 12" using format_int_ok(1) [of n] by (simp add: t_def)
    have t: "list_all plain t" using format_int_ok(2) by (simp add: t_def plain_def isprint_def isspace_def)
    note ps = plain_string [OF t]
    have l: "length b' = length b" using lt len by (simp add: b'_def b1_def)
    have z: "b' ! 15 = 0" using lt len fs(5) by (auto simp: b'_def b1_def nth_append nth_Cons')
    have "cstr b' = t" using cstr_stop [OF ps(1)] by (simp add: b'_def)
    then have "Check_nick_name b' = Some (NAME_OK, b')"
      using ps(2,3) l z len by (intro Check_nick_name_ok) (simp_all add: t_def isupper_def)
    moreover have "buf_put 0 (88 # format_int n @ [0]) b1 = Some b'"
      using lt len by (simp add: cmem_simps b'_def t_def b1_def)
    then have "map_option fst (Fix_nick_name b n) = Some b'"
      using fs True by (simp add: Fix_nick_name_def MAX_NAME_LEN_def b1_def)
    ultimately show ?thesis using l by blast
  next
    case False
    define c' where "c' = (if \<not> isupper (hd b) then (if islower (hd b) then toupper (hd b) else 88) else hd b)"
    have c': "isupper c'" unfolding c'_def by (rule fixed_first)
    define b2 where "b2 = b1[0 := c']"
    have t2: "terminated b2"
      unfolding terminated_def b2_def b1_def using len
      by (metis fs(5) length_list_update nth_list_update_neq nth_mem zero_neq_numeral)
    obtain b3 where b3: "fix_chars isprint b2 = Some b3" "length b3 = length b2" "terminated b3"
      "\<forall>i < length b2. (b3 ! i = 0) = (b2 ! i = 0)"
      "cstr b3 = map (\<lambda>c. if \<not> isprint c then 120 else c) (cstr b2)"
      using fix_chars_ok [OF t2, of isprint] by auto
    obtain r where b2: "b2 = c' # r" unfolding b2_def b1_def using len by (cases b) auto
    have "list_all isprint (map (\<lambda>c. if \<not> isprint c then 120 else c) t)" for t
      by (induction t) simp_all
    then have printable: "list_all isprint (cstr b3)" unfolding b3(5) .
    have "cstr b2 = c' # cstr r" using isupper_classes [OF c'] by (simp add: b2)
    then have "\<exists>u. cstr b3 = c' # u" unfolding b3(5) using isupper_classes [OF c'] by simp
    with printable obtain u where u: "cstr b3 = c' # u" "list_all isprint (cstr b3)" by blast
    define core where "core = rev (dropWhile isspace (rev (cstr b3)))"
    define k where "k = length (takeWhile isspace (rev (cstr b3)))"
    have "\<exists>c \<in> set (rev (cstr b3)). \<not> isspace c" using u isupper_classes [OF c'] by auto
    from strip_back_ok [OF this]
    have strip: "strip_back (rev (cstr b3)) = Some (replicate k 0 @ rev core)"
      by (simp add: core_def k_def map_replicate_const)
    have split: "cstr b3 = core @ rev (takeWhile isspace (rev (cstr b3)))"
      unfolding core_def by (metis rev_append rev_rev_ident takeWhile_dropWhile_id)
    have core: "core \<noteq> []" "\<not> isspace (last core)"
      using \<open>\<exists>c \<in> set (rev (cstr b3)). \<not> isspace c\<close> hd_dropWhile [of isspace "rev (cstr b3)"]
      unfolding core_def by (auto simp: dropWhile_eq_Nil_conv last_rev)
    have hd_core: "hd core = c'" using split core(1) u(1) by (metis hd_append2 list.sel(1))
    obtain rest where rest: "b3 = cstr b3 @ 0 # rest" using terminated_split [OF b3(3)] by blast
    define b' where "b' = core @ replicate k 0 @ 0 # rest"
    have lk: "length (cstr b3) = length core + k" by (subst split) (simp add: k_def)
    have nz: "0 \<notin> set core" using split cstr_nonzero [of 0 b3] by (metis Un_iff set_append)
    have cs: "cstr b' = core"
    proof (cases k)
      case 0
      then show ?thesis using cstr_stop [OF nz] by (simp add: b'_def)
    next
      case (Suc m)
      then show ?thesis using cstr_stop [OF nz] by (simp add: b'_def)
    qed
    have l: "length b' = length b"
    proof -
      have "length b' = length b3" by (subst rest) (simp add: b'_def lk)
      then show ?thesis using b3(2) by (simp add: b2_def b1_def)
    qed
    have z3: "b3 ! 15 = 0" using b3(4) len fs(5) by (simp add: b2_def b1_def)
    have "b' ! 15 = 0"
    proof (cases "15 < length core + k")
      case True
      then have "b3 ! 15 = cstr b3 ! 15" by (subst rest) (simp add: nth_append lk)
      then have "0 \<in> set (cstr b3)" using z3 True lk by (metis nth_mem)
      then show ?thesis using cstr_nonzero by blast
    next
      case False
      then have "b' ! 15 = (0 # rest) ! (15 - (length core + k))" by (simp add: b'_def nth_append)
      also have "\<dots> = b3 ! 15" using False by (subst rest) (simp add: nth_append lk)
      finally show ?thesis using z3 by simp
    qed
    moreover have "list_all isprint core" using u(2) split by (metis list_all_append)
    ultimately have "Check_nick_name b' = Some (NAME_OK, b')"
      using cs core hd_core c' l len by (intro Check_nick_name_ok) simp_all
    moreover have "b \<noteq> []" using len by auto
    then have "buf_set 0 c' (b[15 := 0]) = Some b2"
      by (simp add: cmem_simps b2_def b1_def)
    then have "map_option fst (Fix_nick_name b n) = Some b'"
      using fs False b3(1) strip rest
      by (simp add: Fix_nick_name_def MAX_NAME_LEN_def Let_def c'_def [symmetric] b'_def)
         (metis append_eq_conv_conj)
    ultimately show ?thesis using l by blast
  qed
next
  fix b b' :: "byte list"
  assume "Check_nick_name b = Some (NAME_OK, b')"
  note c = Check_nick_name_okD [OF this]
  note fs = first_set [of 15 b, OF _ c(2), simplified]
  obtain l where l: "last_char b' = Some l" "\<not> isspace l" using c(6) by blast
  have t: "terminated b'" using fs(4) c(1) by simp
  obtain r where r: "b' = hd b # r" using fs(3) c(1,2) by (cases b) auto
  have b2: "buf_set 0 (hd b) (b[15 := 0]) = Some b'"
    using arg_cong [OF r, of "buf_set 0 (hd b)"] c(1) r by (simp add: buf_set_def)
  have ne: "cstr b' \<noteq> []" using r c(3) by simp
  then obtain u where u: "rev (cstr b') = l # u"
    using last_char_cstr [OF t] l(1) by (cases "rev (cstr b')") (auto simp: last_rev [symmetric] simp del: last_rev)
  have "strip_back (rev (cstr b')) = Some (rev (cstr b'))" unfolding u using l(2) by simp
  moreover obtain rest where "b' = cstr b' @ 0 # rest" using terminated_split [OF t] by blast
  then have "cstr b' @ drop (length (cstr b')) b' = b'" by (metis append_eq_conv_conj)
  moreover have "buf_set 15 0 b = Some b'" "buf_at 0 b' = Some (hd b)" "buf_set 0 (hd b) b' = Some b'"
    using fs(1,2) b2 unfolding c(1) by simp_all
  ultimately show "map_option fst (Fix_nick_name b n) = Some b'"
    using c(3,4) fix_chars_id [OF c(5)] by (simp add: Fix_nick_name_def MAX_NAME_LEN_def)
qed

subsection \<open>Properties\<close>

text \<open>C34. Whatever bytes a name buffer of at least 16 bytes holds, terminated or not, fixing it as a
  nick name stays inside the buffer and gives a name the nick name check accepts: at most 15
  printable characters, the first an upper-case letter and the last not a space. A name the check
  accepts is left as it is, so fixing twice changes nothing more.\<close>

theorem Fix_nick_name_correct:
  assumes "16 \<le> length b"
  shows "\<exists>b' m. Fix_nick_name b n = Some (b', m) \<and> length b' = length b \<and>
    Check_nick_name b' = Some (NAME_OK, b') \<and> (\<exists>m'. Fix_nick_name b' k = Some (b', m')) \<and>
    (Check_nick_name b = Some (NAME_OK, b) \<longrightarrow> b' = b)"
proof -
  have room: "MAX_NAME_LEN \<le> length b" using assms by (simp add: MAX_NAME_LEN_def)
  from nick_names.fix_accepted [OF room, of n] obtain b' where
    b': "map_option fst (Fix_nick_name b n) = Some b'" "length b' = length b"
      "Check_nick_name b' = Some (NAME_OK, b')" by blast
  then obtain m where "Fix_nick_name b n = Some (b', m)" by auto
  moreover obtain m' where "Fix_nick_name b' k = Some (b', m')"
    using nick_names.accepted_kept [OF b'(3), of k] by auto
  moreover have "Check_nick_name b = Some (NAME_OK, b) \<longrightarrow> b' = b"
    using nick_names.accepted_kept [of b b n] b'(1) by auto
  ultimately show ?thesis using b' by auto
qed

definition demo_name :: "byte list" where
  "demo_name = [98, 111, 7, 98, 32, 32, 0] @ replicate 9 200"

theorem Fix_nick_name_correct_witness:
  "\<exists>b' m. Fix_nick_name demo_name 3 = Some (b', m) \<and> length b' = length demo_name \<and>
    Check_nick_name b' = Some (NAME_OK, b') \<and> (\<exists>m'. Fix_nick_name b' 3 = Some (b', m')) \<and>
    (Check_nick_name demo_name = Some (NAME_OK, demo_name) \<longrightarrow> b' = demo_name)"
  by (rule Fix_nick_name_correct) (simp add: demo_name_def)

text \<open>Fixing any buffer of the sizes the server uses as a real, host or display name stays inside
  it and gives a name the corresponding check accepts; accepted names are left as they are.\<close>

theorem Fix_names_correct:
  assumes "64 \<le> length b"
  shows
    "(\<exists>b'. Fix_real_name b = Some b' \<and> length b' = length b \<and>
        Check_real_name b' = Some (NAME_OK, b') \<and> Fix_real_name b' = Some b') \<and>
     (\<exists>b'. Fix_host_name b = Some b' \<and> length b' = length b \<and>
        Check_host_name b' = Some (NAME_OK, b') \<and> Fix_host_name b' = Some b') \<and>
     (\<exists>b'. Fix_disp_name b = Some b' \<and> length b' = length b \<and>
        Check_disp_name b' = Some (NAME_OK, b') \<and> Fix_disp_name b' = Some b')"
proof (intro conjI)
  have room: "MAX_NAME_LEN \<le> length b" "MAX_HOST_LEN \<le> length b" "Suc MAX_NAME_LEN \<le> length b"
    using assms by (simp_all add: MAX_NAME_LEN_def MAX_HOST_LEN_def)
  show "\<exists>b'. Fix_real_name b = Some b' \<and> length b' = length b \<and>
      Check_real_name b' = Some (NAME_OK, b') \<and> Fix_real_name b' = Some b'"
    using real_names.fix_accepted [OF room(1)] real_names.fix_twice [OF room(1)] by blast
  show "\<exists>b'. Fix_host_name b = Some b' \<and> length b' = length b \<and>
      Check_host_name b' = Some (NAME_OK, b') \<and> Fix_host_name b' = Some b'"
    using host_names.fix_accepted [OF room(2)] host_names.fix_twice [OF room(2)] by blast
  show "\<exists>b'. Fix_disp_name b = Some b' \<and> length b' = length b \<and>
      Check_disp_name b' = Some (NAME_OK, b') \<and> Fix_disp_name b' = Some b'"
    using disp_names.fix_accepted [OF room(3)] disp_names.fix_twice [OF room(3)] by blast
qed

definition demo_host :: "byte list" where
  "demo_host = [97, 46, 46, 98, 45, 0] @ replicate 60 1"

theorem Fix_names_correct_witness:
    "(\<exists>b'. Fix_real_name demo_host = Some b' \<and> length b' = length demo_host \<and>
        Check_real_name b' = Some (NAME_OK, b') \<and> Fix_real_name b' = Some b') \<and>
     (\<exists>b'. Fix_host_name demo_host = Some b' \<and> length b' = length demo_host \<and>
        Check_host_name b' = Some (NAME_OK, b') \<and> Fix_host_name b' = Some b') \<and>
     (\<exists>b'. Fix_disp_name demo_host = Some b' \<and> length b' = length demo_host \<and>
        Check_disp_name b' = Some (NAME_OK, b') \<and> Fix_disp_name b' = Some b')"
  by (rule Fix_names_correct) (simp add: demo_host_def)

end
