(* ===== verification/Sched_Input.thy ===== *)
theory Sched_Input
  imports XP_Prelude
begin

text \<open>
  The input side of \<open>server/sched.c\<close>: the table of input handlers per file descriptor, and the
  scheduler's select loop. The signal and timer calls are not modelled.

  The static variables are the record \<open>inputs\<close>; an \<open>fd_set\<close> is a set of descriptors, defined
  for descriptors below \<open>FD_SETSIZE\<close>. A function pointer is a value of the type \<open>'f\<close>, with
  \<open>None\<close> for \<open>io_dummy\<close>; what calling it does to the program is the parameter \<open>call\<close>. The results
  of \<open>select\<close> are a script. \<open>Inl\<close> is a call of \<open>ServerExit\<close>, which does not return.
\<close>

definition NUM_SELECT_FD :: int where "NUM_SELECT_FD = 32"
definition FD_SETSIZE :: int where "FD_SETSIZE = 1024"

record ('f, 'a) io_handler =
  fd :: int
  func :: "'f option"
  arg :: "'a option"

record ('f, 'a) inputs =
  input_handlers :: "('f, 'a) io_handler list"
  input_mask :: "int set"
  max_fd :: int
  min_fd :: int
  input_inited :: bool

datatype sched_error = Illegal_fd | Busy_fd | Undefined_fd

definition no_handler :: "('f, 'a) io_handler" where
  "no_handler = \<lparr>fd = -1, func = None, arg = None\<rparr>"

definition init_inputs :: "int \<Rightarrow> ('f, 'a) inputs \<Rightarrow> ('f, 'a) inputs" where
  "init_inputs f s =
     (if \<not> input_inited s
      then s\<lparr>input_inited := True, input_mask := {}, min_fd := f, max_fd := f,
             input_handlers := replicate (length (input_handlers s)) no_handler\<rparr>
      else s)"

definition install_input ::
  "'f option \<Rightarrow> int \<Rightarrow> 'a option \<Rightarrow> ('f, 'a) inputs \<Rightarrow> sched_error + ('f, 'a) inputs" where
  "install_input g f a s =
     (let s1 = init_inputs f s in
      if f < min_fd s1 \<or> f \<ge> min_fd s1 + NUM_SELECT_FD then Inl Illegal_fd
      else if \<not> (0 \<le> f \<and> f < FD_SETSIZE) then Inl Undefined_fd
      else if f \<in> input_mask s1 then Inl Busy_fd
      else Inr (s1\<lparr>input_handlers := (input_handlers s1)
                      [nat (f - min_fd s1) := \<lparr>fd = f, func = g, arg = a\<rparr>],
                   input_mask := insert f (input_mask s1),
                   max_fd := (if f > max_fd s1 then f else max_fd s1)\<rparr>))"

text \<open>\<open>while (--i >= min_fd) if (FD_ISSET(i, ...)) { max_fd = i; break; }\<close>; \<open>k\<close> is \<open>i - min_fd\<close>.\<close>

fun scan_down :: "int set \<Rightarrow> int \<Rightarrow> nat \<Rightarrow> int" where
  "scan_down m lo 0 = -1"
| "scan_down m lo (Suc k) = (if lo + int k \<in> m then lo + int k else scan_down m lo k)"

definition remove_input :: "int \<Rightarrow> ('f, 'a) inputs \<Rightarrow> sched_error + ('f, 'a) inputs" where
  "remove_input f s =
     (if f < min_fd s \<or> f \<ge> min_fd s + NUM_SELECT_FD then Inl Illegal_fd
      else if \<not> (0 \<le> f \<and> f < FD_SETSIZE) then Inl Undefined_fd
      else if f \<in> input_mask s
      then (let m = input_mask s - {f} in
            Inr (s\<lparr>input_handlers := (input_handlers s)[nat (f - min_fd s) := no_handler],
                   input_mask := m,
                   max_fd := (if f = max_fd s then scan_down m (min_fd s) (nat (f - min_fd s))
                              else max_fd s)\<rparr>))
      else Inr s)"

text \<open>The program around the scheduler: its inputs, the flag \<open>sched_running\<close> and everything else.\<close>

record ('f, 'a, 'e) world =
  wi :: "('f, 'a) inputs"
  sched_running :: bool
  env :: 'e

definition stop_sched :: "('f, 'a, 'e) world \<Rightarrow> ('f, 'a, 'e) world" where
  "stop_sched w = w\<lparr>sched_running := False\<rparr>"

type_synonym ('f, 'a, 'e) handler_call =
  "'f option \<Rightarrow> int \<Rightarrow> 'a option \<Rightarrow> ('f, 'a, 'e) world \<Rightarrow> ('f, 'a, 'e) world option"

text \<open>\<open>for (i = max_fd; i >= min_fd; i--)\<close>; handlers may change the table while it is served.\<close>

fun dispatch ::
  "('f, 'a, 'e) handler_call \<Rightarrow> int set \<Rightarrow> int \<Rightarrow> nat \<Rightarrow> ('f, 'a, 'e) world \<Rightarrow> ('f, 'a, 'e) world option" where
  "dispatch call readmask i 0 w = Some w"
| "dispatch call readmask i (Suc k) w =
     do { w1 \<leftarrow> (if i \<in> readmask
                  then do { h \<leftarrow> buf_at (i - min_fd (wi w)) (input_handlers (wi w));
                            call (func h) (fd h) (arg h) w }
                  else Some w);
          dispatch call readmask (i - 1) k w1 }"

definition serve :: "('f, 'a, 'e) handler_call \<Rightarrow> int set \<Rightarrow> ('f, 'a, 'e) world \<Rightarrow> ('f, 'a, 'e) world option" where
  "serve call readmask w =
     dispatch call readmask (max_fd (wi w)) (nat (max_fd (wi w) - min_fd (wi w) + 1)) w"

text \<open>The loop, one scripted \<open>select\<close> per round: \<open>None\<close> is -1, otherwise the ready descriptors. When
  the script ends before the scheduler is stopped it is still waiting, and the state is returned.\<close>

fun sched_loop ::
  "('f, 'a, 'e) handler_call \<Rightarrow> int set option list \<Rightarrow> ('f, 'a, 'e) world \<Rightarrow> ('f, 'a, 'e) world option" where
  "sched_loop call [] w = Some w"
| "sched_loop call (r # rs) w =
     (if \<not> sched_running w then Some w
      else case r of
             None \<Rightarrow> sched_loop call rs w
           | Some ready \<Rightarrow>
               do { w1 \<leftarrow> serve call (ready \<inter> input_mask (wi w)) w; sched_loop call rs w1 })"

definition sched ::
  "('f, 'a, 'e) handler_call \<Rightarrow> int set option list \<Rightarrow> ('f, 'a, 'e) world \<Rightarrow> ('f, 'a, 'e) world option" where
  "sched call script w =
     (if sched_running w then None else sched_loop call script (w\<lparr>sched_running := True\<rparr>))"

subsection \<open>The handler table as a map\<close>

text \<open>What is installed: descriptor to function and argument.\<close>

definition installed :: "('f, 'a) inputs \<Rightarrow> int \<rightharpoonup> 'f option \<times> 'a option" where
  "installed s f =
     (if f \<in> input_mask s
      then Some (func (input_handlers s ! nat (f - min_fd s)), arg (input_handlers s ! nat (f - min_fd s)))
      else None)"

definition inputs_ok :: "('f, 'a) inputs \<Rightarrow> bool" where
  "inputs_ok s \<longleftrightarrow>
     length (input_handlers s) = 32 \<and> input_inited s \<and> 0 \<le> min_fd s \<and>
     input_mask s \<subseteq> {min_fd s ..< min_fd s + NUM_SELECT_FD} \<and>
     (\<forall>f \<in> input_mask s. fd (input_handlers s ! nat (f - min_fd s)) = f) \<and>
     (\<forall>i < 32. min_fd s + int i \<notin> input_mask s \<longrightarrow> input_handlers s ! i = no_handler) \<and>
     (if input_mask s = {} then max_fd s = -1
      else max_fd s \<in> input_mask s \<and> (\<forall>f \<in> input_mask s. f \<le> max_fd s))"

lemma scan_down_ok:
  assumes "\<forall>f \<in> m. lo \<le> f \<and> f < lo + int k"
  shows "if m = {} then scan_down m lo k = -1
    else scan_down m lo k \<in> m \<and> (\<forall>f \<in> m. f \<le> scan_down m lo k)"
  using assms
proof (induction k)
  case 0
  then show ?case by (auto split: if_splits)
next
  case (Suc k)
  show ?case
  proof (cases "lo + int k \<in> m")
    case True
    then show ?thesis using Suc.prems by auto
  next
    case False
    have "f < lo + int k" if "f \<in> m" for f
      using bspec [OF Suc.prems that] False that by (cases "f = lo + int k") auto
    then show ?thesis using Suc False by auto
  qed
qed

lemma slot_range:
  "inputs_ok s \<Longrightarrow> f \<in> input_mask s \<Longrightarrow> min_fd s \<le> f \<and> f < min_fd s + NUM_SELECT_FD"
  unfolding inputs_ok_def by (meson atLeastLessThan_iff subsetD)

lemma other_slot:
  assumes "inputs_ok s" "e \<in> input_mask s" "e \<noteq> f" "min_fd s \<le> f"
  shows "(input_handlers s)[nat (f - min_fd s) := h] ! nat (e - min_fd s) =
    input_handlers s ! nat (e - min_fd s)"
proof -
  have "nat (f - min_fd s) \<noteq> nat (e - min_fd s)"
    using slot_range [OF assms(1,2)] assms(3,4) by auto
  then show ?thesis by simp
qed

lemma install_ok:
  assumes "inputs_ok s" "min_fd s \<le> f" "f < min_fd s + NUM_SELECT_FD" "f < FD_SETSIZE"
    "f \<notin> input_mask s"
  shows "\<exists>s'. install_input g f a s = Inr s' \<and> inputs_ok s' \<and>
    installed s' = (installed s)(f \<mapsto> (g, a)) \<and> min_fd s' = min_fd s"
proof -
  let ?i = "nat (f - min_fd s)"
  have i: "?i < 32" using assms(2,3) by (auto simp: NUM_SELECT_FD_def)
  have len: "length (input_handlers s) = 32" using assms(1) by (simp add: inputs_ok_def)
  define s' where "s' = s\<lparr>input_handlers := (input_handlers s)[?i := \<lparr>fd = f, func = g, arg = a\<rparr>],
    input_mask := insert f (input_mask s), max_fd := (if f > max_fd s then f else max_fd s)\<rparr>"
  have other: "(input_handlers s)[?i := h] ! nat (e - min_fd s) = input_handlers s ! nat (e - min_fd s)"
    if "e \<in> input_mask s" for e h
    using other_slot [OF assms(1) that _ assms(2)] that assms(5) by blast
  have "install_input g f a s = Inr s'"
    using assms by (auto simp: install_input_def init_inputs_def Let_def inputs_ok_def s'_def)
  moreover have "installed s' = (installed s)(f \<mapsto> (g, a))"
    using i len assms(5) other by (auto simp: installed_def s'_def fun_eq_iff)
  moreover have "inputs_ok s'"
    unfolding inputs_ok_def
  proof (intro conjI)
    show "\<forall>e \<in> input_mask s'. fd (input_handlers s' ! nat (e - min_fd s')) = e"
      using i len other assms(1) by (auto simp: s'_def inputs_ok_def)
    show "\<forall>k < 32. min_fd s' + int k \<notin> input_mask s' \<longrightarrow> input_handlers s' ! k = no_handler"
      using assms(1,2) i len by (auto simp: s'_def inputs_ok_def nth_list_update)
    show "if input_mask s' = {} then max_fd s' = -1
      else max_fd s' \<in> input_mask s' \<and> (\<forall>f \<in> input_mask s'. f \<le> max_fd s')"
    proof -
      have "if input_mask s = {} then max_fd s = -1
        else max_fd s \<in> input_mask s \<and> (\<forall>f \<in> input_mask s. f \<le> max_fd s)" "0 \<le> min_fd s"
        using assms(1) by (simp_all add: inputs_ok_def)
      with assms(2) show ?thesis by (auto simp: s'_def split: if_splits)
    qed
  qed (use assms in \<open>auto simp: s'_def inputs_ok_def\<close>)
  ultimately show ?thesis by (intro exI [of _ s']) (simp add: s'_def)
qed

lemma remove_ok:
  assumes "inputs_ok s" "min_fd s \<le> f" "f < min_fd s + NUM_SELECT_FD" "f < FD_SETSIZE"
  shows "\<exists>s'. remove_input f s = Inr s' \<and> inputs_ok s' \<and>
    installed s' = (installed s)(f := None) \<and> min_fd s' = min_fd s"
proof (cases "f \<in> input_mask s")
  case False
  then have "(installed s)(f := None) = installed s" by (auto simp: installed_def fun_eq_iff)
  moreover have "remove_input f s = Inr s"
    using assms False by (simp add: remove_input_def inputs_ok_def)
  ultimately show ?thesis using assms(1) by auto
next
  case True
  let ?i = "nat (f - min_fd s)"
  let ?m = "input_mask s - {f}"
  have i: "?i < 32" using assms(2,3) by (auto simp: NUM_SELECT_FD_def)
  have len: "length (input_handlers s) = 32" using assms(1) by (simp add: inputs_ok_def)
  define s' where "s' = s\<lparr>input_handlers := (input_handlers s)[?i := no_handler], input_mask := ?m,
    max_fd := (if f = max_fd s then scan_down ?m (min_fd s) ?i else max_fd s)\<rparr>"
  have other: "(input_handlers s)[?i := h] ! nat (e - min_fd s) = input_handlers s ! nat (e - min_fd s)"
    if "e \<in> ?m" for e h
    using other_slot [OF assms(1) _ _ assms(2)] that by blast
  have "remove_input f s = Inr s'"
    using assms True by (simp add: remove_input_def Let_def inputs_ok_def s'_def)
  moreover have "installed s' = (installed s)(f := None)"
    using other by (auto simp: installed_def s'_def fun_eq_iff)
  moreover have "inputs_ok s'"
    unfolding inputs_ok_def
  proof (intro conjI)
    show "\<forall>e \<in> input_mask s'. fd (input_handlers s' ! nat (e - min_fd s')) = e"
      using other assms(1) by (auto simp: s'_def inputs_ok_def)
    show "\<forall>k < 32. min_fd s' + int k \<notin> input_mask s' \<longrightarrow> input_handlers s' ! k = no_handler"
      using assms(1,2) i len by (auto simp: s'_def inputs_ok_def nth_list_update)
    show "if input_mask s' = {} then max_fd s' = -1
      else max_fd s' \<in> input_mask s' \<and> (\<forall>f \<in> input_mask s'. f \<le> max_fd s')"
    proof (cases "f = max_fd s")
      case True
      then have "\<forall>e \<in> ?m. min_fd s \<le> e \<and> e < min_fd s + int ?i"
        using assms(1,2) by (force simp: inputs_ok_def split: if_splits)
      from scan_down_ok [OF this] True show ?thesis by (simp add: s'_def split: if_splits)
    next
      case False
      then show ?thesis using assms(1) True by (auto simp: s'_def inputs_ok_def split: if_splits)
    qed
  qed (use assms in \<open>auto simp: s'_def inputs_ok_def\<close>)
  ultimately show ?thesis by (intro exI [of _ s']) (simp add: s'_def)
qed

subsection \<open>The contract of the table\<close>

locale handler_table =
  fixes holds :: "'s \<Rightarrow> (int \<rightharpoonup> 'h) \<Rightarrow> bool"
    and install :: "int \<Rightarrow> 'h \<Rightarrow> 's \<Rightarrow> sched_error + 's"
    and remove :: "int \<Rightarrow> 's \<Rightarrow> sched_error + 's"
    and range :: "int \<Rightarrow> bool"
  assumes install_free: "holds s m \<Longrightarrow> range f \<Longrightarrow> m f = None \<Longrightarrow>
      \<exists>s'. install f h s = Inr s' \<and> holds s' (m(f \<mapsto> h))"
    and install_busy: "holds s m \<Longrightarrow> range f \<Longrightarrow> m f \<noteq> None \<Longrightarrow> install f h s = Inl Busy_fd"
    and remove_any: "holds s m \<Longrightarrow> range f \<Longrightarrow> \<exists>s'. remove f s = Inr s' \<and> holds s' (m(f := None))"
begin

lemma install_remove:
  assumes "holds s m" "range f" "m f = None"
  shows "\<exists>s1 s2. install f h s = Inr s1 \<and> remove f s1 = Inr s2 \<and> holds s2 m"
proof -
  from install_free [OF assms, of h] obtain s1 where
    s1: "install f h s = Inr s1" "holds s1 (m(f \<mapsto> h))" by blast
  from remove_any [OF s1(2) assms(2)] obtain s2 where
    "remove f s1 = Inr s2" "holds s2 ((m(f \<mapsto> h))(f := None))" by blast
  moreover have "(m(f \<mapsto> h))(f := None) = m" using assms(3) by auto
  ultimately show ?thesis using s1(1) by auto
qed

text \<open>A descriptor that is closed and opened again gets its new handler.\<close>

lemma replace_handler:
  assumes "holds s m" "range f"
  shows "\<exists>s1 s2. remove f s = Inr s1 \<and> install f h s1 = Inr s2 \<and> holds s2 (m(f \<mapsto> h))"
proof -
  from remove_any [OF assms] obtain s1 where
    s1: "remove f s = Inr s1" "holds s1 (m(f := None))" by blast
  from install_free [OF s1(2) assms(2), of h] obtain s2 where
    "install f h s1 = Inr s2" "holds s2 ((m(f := None))(f \<mapsto> h))" by auto
  then show ?thesis using s1(1) by auto
qed

end

text \<open>The table whose first descriptor was \<open>lo\<close>.\<close>

definition table_holds :: "int \<Rightarrow> ('f, 'a) inputs \<Rightarrow> (int \<rightharpoonup> 'f option \<times> 'a option) \<Rightarrow> bool" where
  "table_holds lo s m \<longleftrightarrow> inputs_ok s \<and> min_fd s = lo \<and> installed s = m"

definition in_table :: "int \<Rightarrow> int \<Rightarrow> bool" where
  "in_table lo f \<longleftrightarrow> lo \<le> f \<and> f < lo + NUM_SELECT_FD \<and> f < FD_SETSIZE"

definition install_entry ::
  "int \<Rightarrow> 'f option \<times> 'a option \<Rightarrow> ('f, 'a) inputs \<Rightarrow> sched_error + ('f, 'a) inputs" where
  "install_entry f h s = install_input (fst h) f (snd h) s"

interpretation input_table: handler_table "table_holds lo" install_entry
  remove_input "in_table lo" for lo
proof
  fix s m f h
  assume h: "table_holds lo s m" and f: "in_table lo f"
  note hs = h [unfolded table_holds_def] f [unfolded in_table_def]
  show "\<exists>s'. install_entry f h s = Inr s' \<and> table_holds lo s' (m(f \<mapsto> h))"
    if "m f = None"
  proof -
    have "f \<notin> input_mask s" using that hs by (auto simp: installed_def split: if_splits)
    with install_ok [of s f "fst h" "snd h"] hs show ?thesis
      by (auto simp: install_entry_def table_holds_def)
  qed
  show "install_entry f h s = Inl Busy_fd" if "m f \<noteq> None"
  proof -
    have "f \<in> input_mask s" using that hs by (auto simp: installed_def split: if_splits)
    then show ?thesis using hs by (auto simp: install_entry_def install_input_def init_inputs_def inputs_ok_def)
  qed
  show "\<exists>s'. remove_input f s = Inr s' \<and> table_holds lo s' (m(f := None))"
    using remove_ok [of s f] hs by (auto simp: table_holds_def)
qed

lemma first_install:
  assumes "\<not> input_inited s" "length (input_handlers s) = 32" "0 \<le> f" "f < FD_SETSIZE"
  shows "\<exists>s'. install_input g f a s = Inr s' \<and> table_holds f s' [f \<mapsto> (g, a)]"
proof -
  define s' where "s' = (init_inputs f s)\<lparr>input_handlers :=
      (replicate 32 no_handler)[0 := \<lparr>fd = f, func = g, arg = a\<rparr>], input_mask := {f}\<rparr>"
  have "install_input g f a s = Inr s'"
    using assms by (simp add: install_input_def init_inputs_def s'_def NUM_SELECT_FD_def)
  moreover have "table_holds f s' [f \<mapsto> (g, a)]"
    using assms
    by (auto simp: table_holds_def inputs_ok_def installed_def s'_def init_inputs_def
        NUM_SELECT_FD_def fun_eq_iff nth_Cons split: nat.splits)
  ultimately show ?thesis by blast
qed

text \<open>C23. The first installation fixes the lowest descriptor the table can serve; from then on
  installing a handler for a free descriptor among the 32 from there on adds exactly it, installing
  one for a busy descriptor ends the server, and removing one takes out exactly it, whichever
  others are installed; installing and removing again restores the table.\<close>

theorem input_table_is_map:
  assumes "table_holds lo s m" "in_table lo f"
  shows "(m f = None \<longrightarrow> (\<exists>s1. install_input g f a s = Inr s1 \<and> table_holds lo s1 (m(f \<mapsto> (g, a))) \<and>
            (\<exists>s2. remove_input f s1 = Inr s2 \<and> table_holds lo s2 m))) \<and>
     (m f \<noteq> None \<longrightarrow> install_input g f a s = Inl Busy_fd) \<and>
     (\<exists>s1. remove_input f s = Inr s1 \<and> table_holds lo s1 (m(f := None)) \<and>
        (\<exists>s2. install_input g f a s1 = Inr s2 \<and> table_holds lo s2 (m(f \<mapsto> (g, a)))))"
proof (intro conjI impI)
  show "\<exists>s1. install_input g f a s = Inr s1 \<and> table_holds lo s1 (m(f \<mapsto> (g, a))) \<and>
      (\<exists>s2. remove_input f s1 = Inr s2 \<and> table_holds lo s2 m)" if "m f = None"
    using input_table.install_free [OF assms that, of "(g, a)"]
      input_table.install_remove [OF assms that, of "(g, a)"] by (auto simp: install_entry_def)
  show "install_input g f a s = Inl Busy_fd" if "m f \<noteq> None"
    using input_table.install_busy [OF assms that, of "(g, a)"] by (simp add: install_entry_def)
  show "\<exists>s1. remove_input f s = Inr s1 \<and> table_holds lo s1 (m(f := None)) \<and>
      (\<exists>s2. install_input g f a s1 = Inr s2 \<and> table_holds lo s2 (m(f \<mapsto> (g, a))))"
    using input_table.remove_any [OF assms] input_table.replace_handler [OF assms, of "(g, a)"]
    by (auto simp: install_entry_def)
qed

definition no_inputs :: "(nat, nat) inputs" where
  "no_inputs = \<lparr>input_handlers = replicate 32 no_handler, input_mask = {}, max_fd = 0, min_fd = 0,
     input_inited = False\<rparr>"

definition demo_inputs :: "(nat, nat) inputs" where
  "demo_inputs = (case install_input (Some 7) 3 None no_inputs of Inr s \<Rightarrow> s | Inl _ \<Rightarrow> no_inputs)"

lemma demo_inputs: "table_holds 3 demo_inputs [3 \<mapsto> (Some 7, None)]"
  using first_install [of no_inputs 3 "Some 7" None]
  by (auto simp: demo_inputs_def no_inputs_def FD_SETSIZE_def)

theorem input_table_is_map_witness:
  "(\<exists>s1. install_input (Some 8) 5 None demo_inputs = Inr s1 \<and>
      table_holds 3 s1 ([3 \<mapsto> (Some 7, None)](5 \<mapsto> (Some 8, None))) \<and>
      (\<exists>s2. remove_input 5 s1 = Inr s2 \<and> table_holds 3 s2 [3 \<mapsto> (Some 7, None)])) \<and>
   install_input (Some 8) 3 None demo_inputs = Inl Busy_fd \<and>
   (\<exists>s1. remove_input 3 demo_inputs = Inr s1 \<and> table_holds 3 s1 ([3 \<mapsto> (Some 7, None)](3 := None)))"
proof -
  have "in_table 3 5" "in_table 3 3"
    by (simp_all add: in_table_def NUM_SELECT_FD_def FD_SETSIZE_def)
  from this [THEN input_table_is_map [OF demo_inputs]] show ?thesis by fastforce
qed

subsection \<open>Serving the ready descriptors\<close>

text \<open>The ready descriptors in the order the scheduler serves them.\<close>

definition served :: "int set \<Rightarrow> int \<Rightarrow> nat \<Rightarrow> int list" where
  "served ready i k = filter (\<lambda>f. f \<in> ready) (map (\<lambda>j. i - int j) [0..<k])"

lemma served_simps [simp]:
  "served ready i 0 = []"
  "served ready i (Suc k) = (if i \<in> ready then i # served ready (i - 1) k else served ready (i - 1) k)"
proof -
  have "map (\<lambda>j. i - int j) [0..<Suc k] = i # map (\<lambda>j. i - 1 - int j) [0..<k]"
    unfolding map_upt_Suc by simp
  then show "served ready i (Suc k) =
      (if i \<in> ready then i # served ready (i - 1) k else served ready (i - 1) k)"
    unfolding served_def by simp
qed (simp add: served_def)

text \<open>A handler that records its call and leaves the table alone.\<close>

definition log_call :: "('f, 'a, ('f option \<times> int \<times> 'a option) list) handler_call" where
  "log_call g f a w = Some (w\<lparr>env := env w @ [(g, f, a)]\<rparr>)"

lemma dispatch_ok:
  assumes "inputs_ok (wi w)" "ready \<subseteq> input_mask (wi w)"
  shows "dispatch log_call ready i k w =
    Some (w\<lparr>env := env w @ map (\<lambda>f. case the (installed (wi w) f) of (g, a) \<Rightarrow> (g, f, a)) (served ready i k)\<rparr>)"
  using assms
proof (induction k arbitrary: i w)
  case (Suc k)
  show ?case
  proof (cases "i \<in> ready")
    case True
    then have m: "i \<in> input_mask (wi w)" using Suc.prems(2) by blast
    let ?h = "input_handlers (wi w) ! nat (i - min_fd (wi w))"
    have "buf_at (i - min_fd (wi w)) (input_handlers (wi w)) = Some ?h" "fd ?h = i"
      using slot_range [OF Suc.prems(1) m] Suc.prems(1) m
      by (auto simp: buf_at_def inputs_ok_def NUM_SELECT_FD_def)
    moreover have "installed (wi w) i = Some (func ?h, arg ?h)" using m by (simp add: installed_def)
    ultimately show ?thesis
      using Suc.IH [of "w\<lparr>env := env w @ [(func ?h, i, arg ?h)]\<rparr>" "i - 1"] Suc.prems True
      by (simp add: log_call_def)
  next
    case False
    then show ?thesis using Suc by simp
  qed
qed simp

text \<open>In one round the scheduler calls, for each descriptor that is both ready and installed, its
  own function with its descriptor and its own argument, exactly once, the highest descriptor
  first, and nothing else.\<close>

theorem sched_serves_ready:
  assumes "inputs_ok (wi w)"
  shows "\<exists>calls. serve log_call (ready \<inter> input_mask (wi w)) w = Some (w\<lparr>env := env w @ calls\<rparr>) \<and>
    map (\<lambda>(g, f, a). f) calls = rev (sorted_list_of_set (ready \<inter> input_mask (wi w))) \<and>
    (\<forall>(g, f, a) \<in> set calls. installed (wi w) f = Some (g, a))"
proof -
  let ?s = "wi w" and ?r = "ready \<inter> input_mask (wi w)"
  let ?fs = "served ?r (max_fd ?s) (nat (max_fd ?s - min_fd ?s + 1))"
  define calls where "calls = map (\<lambda>f. case the (installed ?s f) of (g, a) \<Rightarrow> (g, f, a)) ?fs"
  have mem: "set ?fs = ?r"
  proof -
    have "f \<in> set ?fs" if "f \<in> ?r" for f
    proof -
      have "min_fd ?s \<le> f" "f \<le> max_fd ?s"
        using slot_range [OF assms, of f] assms that by (auto simp: inputs_ok_def split: if_splits)
      then have "f = max_fd ?s - int (nat (max_fd ?s - f))"
        "nat (max_fd ?s - f) < nat (max_fd ?s - min_fd ?s + 1)" by auto
      then have "f \<in> set (map (\<lambda>j. max_fd ?s - int j) [0..<nat (max_fd ?s - min_fd ?s + 1)])"
        unfolding set_map set_upt by (intro image_eqI [of _ _ "nat (max_fd ?s - f)"]) auto
      then show ?thesis using that by (simp add: served_def)
    qed
    then show ?thesis by (auto simp: served_def)
  qed
  have "sorted_wrt (>) (map (\<lambda>j. i - int j) [0..<k])" for i k
    by (simp add: sorted_wrt_map sorted_wrt_upt [THEN sorted_wrt_mono_rel [rotated]])
  then have "sorted_wrt (>) ?fs" unfolding served_def by (rule sorted_wrt_filter)
  then have "sorted_wrt (<) (rev ?fs)" by (simp add: sorted_wrt_rev)
  then have "rev ?fs = sorted_list_of_set ?r"
    using mem by (metis sorted_list_of_set.idem_if_sorted_distinct set_rev strict_sorted_iff)
  then have fs: "?fs = rev (sorted_list_of_set ?r)" by (metis rev_rev_ident)
  have "map (\<lambda>(g, f, a). f) calls = ?fs"
    unfolding calls_def by (simp add: comp_def case_prod_unfold)
  moreover have "\<forall>(g, f, a) \<in> set calls. installed ?s f = Some (g, a)"
    using mem unfolding calls_def by (auto simp: installed_def)
  moreover have "serve log_call ?r w = Some (w\<lparr>env := env w @ calls\<rparr>)"
    unfolding serve_def calls_def by (rule dispatch_ok [OF assms]) blast
  ultimately show ?thesis using fs by auto
qed

theorem sched_serves_ready_witness:
  "\<exists>calls. serve log_call ({3, 4} \<inter> input_mask demo_inputs)
      \<lparr>wi = demo_inputs, sched_running = True, env = []\<rparr> =
      Some (\<lparr>wi = demo_inputs, sched_running = True, env = []\<rparr>\<lparr>env := [] @ calls\<rparr>) \<and>
    map (\<lambda>(g, f, a). f) calls = rev (sorted_list_of_set ({3, 4} \<inter> input_mask demo_inputs)) \<and>
    (\<forall>(g, f, a) \<in> set calls. installed demo_inputs f = Some (g, a))"
  using sched_serves_ready [of "\<lparr>wi = demo_inputs, sched_running = True, env = []\<rparr>" "{3, 4}"]
    demo_inputs
  by (simp add: table_holds_def)

end
