(* ===== verification/Map_Setup.thy ===== *)
theory Map_Setup
  imports C_Strings
begin

text \<open>
  The map as the client gets it: \<open>Compress_map\<close> and \<open>Init_setup\<close> of \<open>server/netserver.c\<close>.

  \<open>Compress_map\<close> works in place on one block; it is proved equal to a run-length encoder on lists
  and inverted by the decoder that \<open>common/setup.h\<close> describes. \<open>Init_setup\<close> translates the world's
  blocks to the setup codes, compresses them and fills in the \<open>setup_t\<close> structure, here the record
  \<open>setup\<close>. The outcomes of its three allocations are arguments.
\<close>

definition SETUP_COMPRESSED :: byte where "SETUP_COMPRESSED = 0x80"
definition SETUP_MAP_ORDER_XY :: int where "SETUP_MAP_ORDER_XY = 1"
definition SETUP_MAP_UNCOMPRESSED :: int where "SETUP_MAP_UNCOMPRESSED = 3"

subsection \<open>In-place run-length encoding\<close>

text \<open>\<open>for (k = 2; i + k < size; k++)\<close>: the length of the run at \<open>i\<close>.\<close>

function run_len :: "byte list \<Rightarrow> nat \<Rightarrow> nat \<Rightarrow> nat \<Rightarrow> nat option" where
  "run_len m sz i k =
     (if i + k < sz then
        (case (buf_at (int i) m, buf_at (int (i + k)) m) of
           (Some a, Some b) \<Rightarrow>
             if a \<noteq> b then Some k else if k = 255 then Some k else run_len m sz i (k + 1)
         | _ \<Rightarrow> None)
      else Some k)"
  by pat_completeness auto
termination by (relation "measure (\<lambda>(m, sz, i, k). sz - (i + k))") auto

declare run_len.simps [simp del]

lemma run_len_ge: "run_len m sz i k = Some n \<Longrightarrow> k \<le> n"
proof (induction m sz i k rule: run_len.induct)
  case (1 m sz i k)
  from 1(2) show ?case
    by (subst (asm) run_len.simps) (auto split: if_splits option.splits dest!: 1(1))
qed

function compress_loop :: "byte list \<Rightarrow> nat \<Rightarrow> nat \<Rightarrow> nat \<Rightarrow> (byte list \<times> nat) option" where
  "compress_loop m sz i j =
     (if i < sz then
        (case buf_at (int i) m of
           None \<Rightarrow> None
         | Some a \<Rightarrow>
             (case (if i + 1 < sz then map_option ((=) a) (buf_at (int (i + 1)) m) else Some False) of
                None \<Rightarrow> None
              | Some True \<Rightarrow>
                  (case run_len m sz i 2 of
                     None \<Rightarrow> None
                   | Some k \<Rightarrow>
                       (case buf_set (int j) (a OR SETUP_COMPRESSED) m \<bind>
                             buf_set (int (j + 1)) (of_nat k) of
                          None \<Rightarrow> None
                        | Some m1 \<Rightarrow> compress_loop m1 sz (i + k) (j + 2)))
              | Some False \<Rightarrow>
                  (case buf_set (int j) a m of
                     None \<Rightarrow> None
                   | Some m1 \<Rightarrow> compress_loop m1 sz (i + 1) (j + 1))))
      else Some (m, j))"
  by pat_completeness auto
termination
  by (relation "measure (\<lambda>(m, sz, i, j). sz - i)") (auto dest: run_len_ge)

declare compress_loop.simps [simp del]

definition Compress_map :: "byte list \<Rightarrow> nat \<Rightarrow> (nat \<times> byte list) option" where
  "Compress_map m sz = map_option (\<lambda>(m', j). (j, m')) (compress_loop m sz 0 0)"

subsection \<open>The encoding on lists\<close>

definition run_of :: "byte list \<Rightarrow> nat" where
  "run_of xs = min 255 (length (takeWhile ((=) (hd xs)) xs))"

lemma run_of_pos: "xs \<noteq> [] \<Longrightarrow> 0 < run_of xs"
  by (cases xs) (auto simp: run_of_def)

lemma run_of_le: "run_of xs \<le> length xs"
  by (simp add: run_of_def length_takeWhile_le min.coboundedI2)

function rle :: "byte list \<Rightarrow> byte list" where
  "rle [] = []"
| "rle (x # xs) =
     (if 1 < run_of (x # xs)
      then (x OR SETUP_COMPRESSED) # of_nat (run_of (x # xs)) # rle (drop (run_of (x # xs)) (x # xs))
      else x # rle xs)"
  by pat_completeness auto
termination by (relation "measure length") auto

declare rle.simps(2) [simp del]

fun unrle :: "byte list \<Rightarrow> byte list option" where
  "unrle [] = Some []"
| "unrle (c # cs) =
     (if c AND SETUP_COMPRESSED \<noteq> 0 then
        (case cs of [] \<Rightarrow> None
         | n # r \<Rightarrow> map_option ((@) (replicate (unat n) (c AND NOT SETUP_COMPRESSED))) (unrle r))
      else map_option ((#) c) (unrle cs))"

lemma takeWhile_replicate: "takeWhile ((=) x) xs = replicate (length (takeWhile ((=) x) xs)) x"
  by (rule replicate_eqI) (auto dest: set_takeWhileD)

lemma run_of_take: "xs \<noteq> [] \<Longrightarrow> take (run_of xs) xs = replicate (run_of xs) (hd xs)"
proof -
  let ?t = "takeWhile ((=) (hd xs)) xs"
  have "take (run_of xs) xs = take (run_of xs) ?t"
  proof -
    have "take (run_of xs) xs = take (run_of xs) (?t @ dropWhile ((=) (hd xs)) xs)" by simp
    also have "\<dots> = take (run_of xs) ?t" by (simp only: take_append) (simp add: run_of_def)
    finally show ?thesis .
  qed
  also have "\<dots> = take (run_of xs) (replicate (length ?t) (hd xs))" by (metis takeWhile_replicate)
  also have "\<dots> = replicate (run_of xs) (hd xs)" by (simp add: run_of_def)
  finally show ?thesis .
qed

lemma flag_bits:
  assumes "x < SETUP_COMPRESSED"
  shows "x AND SETUP_COMPRESSED = 0" "(x OR SETUP_COMPRESSED) AND SETUP_COMPRESSED \<noteq> 0"
    "(x OR SETUP_COMPRESSED) AND NOT SETUP_COMPRESSED = x"
proof -
  have x: "unat x < 2 ^ 7" using assms by (simp add: word_less_nat_alt SETUP_COMPRESSED_def)
  have bit: "bit SETUP_COMPRESSED n \<longleftrightarrow> n = 7" for n
  proof -
    have e: "SETUP_COMPRESSED = push_bit 7 1" by (simp add: SETUP_COMPRESSED_def)
    show ?thesis unfolding e bit_push_bit_iff bit_1_iff by auto
  qed
  have "\<not> bit x 7"
  proof
    assume "bit x 7"
    then have "bit (unat x) 7" by (simp add: bit_unsigned_iff)
    then show False using x by (simp add: bit_iff_odd)
  qed
  then show "x AND SETUP_COMPRESSED = 0" "(x OR SETUP_COMPRESSED) AND NOT SETUP_COMPRESSED = x"
    by (auto intro!: bit_word_eqI simp: bit_simps bit)
  show "(x OR SETUP_COMPRESSED) AND SETUP_COMPRESSED \<noteq> 0"
    by (metis bit bit_and_iff bit_or_iff bit_0_eq bot_apply bot_bool_def)
qed

lemma unrle_rle: "\<forall>x \<in> set xs. x < SETUP_COMPRESSED \<Longrightarrow> unrle (rle xs) = Some xs"
proof (induction xs rule: rle.induct)
  case (2 x xs)
  let ?k = "run_of (x # xs)"
  have x: "x < SETUP_COMPRESSED" using "2.prems" by simp
  show ?case
  proof (cases "1 < ?k")
    case True
    have "?k < 256" by (simp add: run_of_def)
    then have "unat (of_nat ?k :: byte) = ?k" by (simp only: unat_of_nat) simp
    moreover have "unrle (rle (drop ?k (x # xs))) = Some (drop ?k (x # xs))"
      using 2(1) [OF True] "2.prems" by (meson in_set_dropD)
    moreover have "replicate ?k x @ drop ?k (x # xs) = x # xs"
      using run_of_take [of "x # xs"] append_take_drop_id [of ?k "x # xs"] by simp
    ultimately show ?thesis using True flag_bits [OF x] by (simp add: rle.simps(2))
  next
    case False
    then show ?thesis using 2 flag_bits [OF x] by (simp add: rle.simps(2))
  qed
qed simp

lemma rle_length: "length (rle xs) \<le> length xs"
proof (induction xs rule: rle.induct)
  case (2 x xs)
  then show ?case
    using run_of_le [of "x # xs"] by (cases "1 < run_of (x # xs)") (auto simp: rle.simps(2))
qed simp

subsection \<open>The in-place loop computes the list encoding\<close>

text \<open>The scan has seen \<open>k\<close> equal elements from \<open>i\<close> on and stops at the end of the run.\<close>

lemma run_len_ok:
  assumes "length m = sz" "i + k \<le> sz" "2 \<le> k" "k \<le> run_of (drop i m)"
  shows "run_len m sz i k = Some (run_of (drop i m))"
  using assms
proof (induction m sz i k rule: run_len.induct)
  case (1 m sz i k)
  define xs where "xs = drop i m"
  define t where "t = takeWhile ((=) (hd xs)) xs"
  have k: "k \<le> 255" "k \<le> length t" using "1.prems"(4) by (simp_all add: run_of_def xs_def t_def)
  have xs: "length xs = sz - i" "i < sz" using "1.prems" by (simp_all add: xs_def)
  have hd: "m ! i = hd xs" using "1.prems"(1) xs(2) by (simp add: xs_def hd_drop_conv_nth)
  have run: "run_of xs = min 255 (length t)" by (simp add: run_of_def t_def)
  have lt: "length t \<le> length xs" by (simp add: t_def length_takeWhile_le)
  show ?case
  proof (cases "i + k < sz")
    case False
    then have "length t = k" using k lt xs "1.prems"(2) by simp
    then have "run_of (drop i m) = k" using k(1) run unfolding xs_def by simp
    moreover have "run_len m sz i k = Some k" using False by (subst run_len.simps) simp
    ultimately show ?thesis by simp
  next
    case True
    then have at: "buf_at (int i) m = Some (hd xs)" "buf_at (int (i + k)) m = Some (xs ! k)"
      using "1.prems"(1) hd by (simp_all add: buf_at_def xs_def nat_add_distrib del: of_nat_add)
    have kx: "k < length xs" using True xs by simp
    show ?thesis
    proof (cases "hd xs = xs ! k")
      case False
      have "length t \<le> k"
      proof (rule ccontr)
        assume "\<not> length t \<le> k"
        then have kt: "k < length t" by simp
        then have "t ! k = xs ! k" unfolding t_def by (rule takeWhile_nth)
        moreover have "t ! k \<in> set t" using kt by (rule nth_mem)
        then have "hd xs = t ! k" unfolding t_def by (auto dest: set_takeWhileD)
        ultimately show False using \<open>hd xs \<noteq> xs ! k\<close> by simp
      qed
      then have "run_of (drop i m) = k" using k run unfolding xs_def by simp
      moreover have "run_len m sz i k = Some k" using at True False by (subst run_len.simps) simp
      ultimately show ?thesis by simp
    next
      case eq: True
      have "k < length t"
      proof (rule ccontr)
        assume "\<not> k < length t"
        then have l: "length t = k" using k by simp
        then have "\<not> (=) (hd xs) (xs ! length t)"
          using nth_length_takeWhile [of "(=) (hd xs)" xs] kx unfolding t_def by simp
        then show False using eq l by simp
      qed
      then show ?thesis
      proof (cases "k = 255")
        case True
        then have "run_of (drop i m) = k" using \<open>k < length t\<close> run unfolding xs_def by simp
        moreover have "run_len m sz i k = Some k"
          using at eq True \<open>i + k < sz\<close> by (subst run_len.simps) simp
        ultimately show ?thesis by simp
      next
        case False
        have "run_len m sz i (k + 1) = Some (run_of (drop i m))"
          by (rule "1.IH" [OF True refl at _ False])
             (use eq "1.prems" \<open>k < length t\<close> k False True run in \<open>simp_all add: xs_def [symmetric]\<close>)
        moreover have "run_len m sz i k = run_len m sz i (k + 1)"
          using at eq False True by (subst run_len.simps) simp
        ultimately show ?thesis by simp
      qed
    qed
  qed
qed

lemma rle_step:
  assumes "xs \<noteq> []"
  shows "rle xs =
    (if 1 < run_of xs then (hd xs OR SETUP_COMPRESSED) # of_nat (run_of xs) # rle (drop (run_of xs) xs)
     else hd xs # rle (tl xs))"
  using assms by (cases xs) (auto simp: rle.simps(2))

lemma run_of_two: "1 < run_of xs \<longleftrightarrow> (\<exists>a r. xs = a # a # r)"
  by (cases xs; cases "tl xs") (auto simp: run_of_def)

lemma drop_after_writes:
  assumes "j \<le> i" "1 \<le> n"
  shows "drop (i + n) (m[j := x]) = drop (i + n) m" "take j (m[j := x]) = take j m"
  using assms by (simp_all add: drop_update_cancel)

lemma compress_loop_ok:
  assumes "length m = sz" "j \<le> i" "i \<le> sz"
  shows "\<exists>m'. compress_loop m sz i j = Some (m', j + length (rle (drop i m))) \<and> length m' = sz \<and>
     take (j + length (rle (drop i m))) m' = take j m @ rle (drop i m)"
  using assms
proof (induction m sz i j rule: compress_loop.induct)
  case (1 m sz i j)
  define xs where "xs = drop i m"
  have len: "length m = sz" and ji: "j \<le> i" by (rule "1.prems")+
  show ?case
  proof (cases "i < sz")
    case False
    then have "xs = []" using "1.prems" by (simp add: xs_def)
    then show ?thesis using False len by (subst compress_loop.simps) (simp add: xs_def [symmetric])
  next
    case True
    have ne: "xs \<noteq> []" using True len by (simp add: xs_def)
    have lx: "length xs = sz - i" using len by (simp add: xs_def)
    have a: "buf_at (int i) m = Some (hd xs)"
      using True len by (simp add: buf_at_def xs_def hd_drop_conv_nth)
    have test: "(if i + 1 < sz then map_option ((=) (hd xs)) (buf_at (int (i + 1)) m) else Some False) =
        Some (1 < run_of xs)"
    proof (cases "i + 1 < sz")
      case False
      then have "length xs = 1" using lx True by simp
      then have "\<not> 1 < run_of xs" unfolding run_of_two by auto
      then show ?thesis using False by simp
    next
      case i1: True
      then obtain b c r where "xs = b # c # r" using lx by (cases xs; cases "tl xs") auto
      moreover from this have "buf_at (int (i + 1)) m = Some c"
        using i1 len nth_drop [of i m 1] by (simp add: buf_at_def xs_def nat_add_distrib)
      ultimately show ?thesis using i1 unfolding run_of_two by auto
    qed
    show ?thesis
    proof (cases "1 < run_of xs")
      case run: True
      define k where "k = run_of xs"
      have k: "1 < k" "i + k \<le> sz" using run run_of_le [of xs] lx True by (simp_all add: k_def)
      have rl: "run_len m sz i 2 = Some k"
        using run_len_ok [of m sz i 2] len k run by (simp add: xs_def [symmetric] k_def)
      define m1 where "m1 = m[j := hd xs OR SETUP_COMPRESSED, j + 1 := of_nat k]"
      have put: "buf_set (int j) (hd xs OR SETUP_COMPRESSED) m \<bind> buf_set (int (j + 1)) (of_nat k) = Some m1"
        using ji k len True by (simp add: buf_set_def m1_def nat_add_distrib)
      have rest: "drop (i + k) m1 = drop k xs"
        using drop_after_writes(1) [of j i k m] drop_after_writes(1) [of "j + 1" "i + 1" "k - 1"] ji k
        by (simp add: m1_def xs_def add.commute)
      have "take (j + 2) m1 = take j m @ [hd xs OR SETUP_COMPRESSED, of_nat k]"
        using ji k len by (simp add: m1_def take_Suc_conv_app_nth nth_append numeral_2_eq_2)
      moreover have "\<exists>m'. compress_loop m1 sz (i + k) (j + 2) =
          Some (m', (j + 2) + length (rle (drop (i + k) m1))) \<and> length m' = sz \<and>
          take ((j + 2) + length (rle (drop (i + k) m1))) m' = take (j + 2) m1 @ rle (drop (i + k) m1)"
        by (rule "1.IH"(1) [OF True a test [THEN trans] _ rl put])
           (use run k ji len in \<open>auto simp: m1_def\<close>)
      moreover have "compress_loop m sz i j = compress_loop m1 sz (i + k) (j + 2)"
        using True a test rl put run by (subst compress_loop.simps) simp
      moreover have "rle xs = (hd xs OR SETUP_COMPRESSED) # of_nat k # rle (drop k xs)"
        using rle_step [OF ne] run by (simp add: k_def)
      ultimately show ?thesis unfolding rest xs_def [symmetric] by simp
    next
      case single: False
      define m1 where "m1 = m[j := hd xs]"
      have put: "buf_set (int j) (hd xs) m = Some m1"
        using ji len True by (simp add: buf_set_def m1_def)
      have rest: "drop (i + 1) m1 = tl xs"
        using drop_after_writes(1) [of j i 1 m] ji by (simp add: m1_def xs_def tl_drop drop_Suc)
      have "take (j + 1) m1 = take j m @ [hd xs]"
        using ji True len by (simp add: m1_def take_Suc_conv_app_nth)
      moreover have "\<exists>m'. compress_loop m1 sz (i + 1) (j + 1) =
          Some (m', (j + 1) + length (rle (drop (i + 1) m1))) \<and> length m' = sz \<and>
          take ((j + 1) + length (rle (drop (i + 1) m1))) m' = take (j + 1) m1 @ rle (drop (i + 1) m1)"
        by (rule "1.IH"(2) [OF True a test [THEN trans] _ put])
           (use single True ji len in \<open>auto simp: m1_def\<close>)
      moreover have "compress_loop m sz i j = compress_loop m1 sz (i + 1) (j + 1)"
        using True a test put single by (subst compress_loop.simps) simp
      moreover have "rle xs = hd xs # rle (tl xs)"
        using rle_step [OF ne] single by simp
      ultimately show ?thesis unfolding rest xs_def [symmetric] by simp
    qed
  qed
qed

lemma Compress_map_ok:
  assumes "\<forall>x \<in> set m. x < SETUP_COMPRESSED"
  shows "\<exists>j m'. Compress_map m (length m) = Some (j, m') \<and> length m' = length m \<and> j \<le> length m \<and>
     take j m' = rle m \<and> unrle (take j m') = Some m"
proof -
  obtain m' where m': "compress_loop m (length m) 0 0 = Some (m', length (rle m))"
    "length m' = length m" "take (length (rle m)) m' = rle m"
    using compress_loop_ok [of m "length m" 0 0] by auto
  then show ?thesis using unrle_rle [OF assms] rle_length [of m] by (simp add: Compress_map_def)
qed

text \<open>C22. Compressing a map in place stays inside its block, yields at most as many bytes as it was
  given, and those bytes are the run-length encoding of the map: decoding them as the client is told
  to gives back the map, provided no map code uses the high bit.\<close>

theorem Compress_map_roundtrip:
  assumes "\<forall>x \<in> set m. x < SETUP_COMPRESSED"
  shows "\<exists>j m'. Compress_map m (length m) = Some (j, m') \<and> length m' = length m \<and> j \<le> length m \<and>
     take j m' = rle m \<and> unrle (take j m') = Some m"
  by (rule Compress_map_ok [OF assms])

theorem Compress_map_roundtrip_witness:
  "\<exists>j m'. Compress_map [1, 1, 1, 5, 0, 0] (length [1 :: byte, 1, 1, 5, 0, 0]) = Some (j, m') \<and>
     length m' = length [1 :: byte, 1, 1, 5, 0, 0] \<and> j \<le> length [1 :: byte, 1, 1, 5, 0, 0] \<and>
     take j m' = rle [1, 1, 1, 5, 0, 0] \<and> unrle (take j m') = Some [1, 1, 1, 5, 0, 0]"
  by (rule Compress_map_roundtrip) (simp add: SETUP_COMPRESSED_def)

subsection \<open>Init_setup\<close>

definition SPACE :: int where "SPACE = 0"
definition BASE :: int where "BASE = 1"
definition FILLED :: int where "FILLED = 2"
definition REC_LU :: int where "REC_LU = 3"
definition REC_LD :: int where "REC_LD = 4"
definition REC_RU :: int where "REC_RU = 5"
definition REC_RD :: int where "REC_RD = 6"
definition FUEL :: int where "FUEL = 7"
definition TREASURE :: int where "TREASURE = 15"

definition DIR_RIGHT :: int where "DIR_RIGHT = 0"
definition DIR_UP :: int where "DIR_UP = 32"
definition DIR_LEFT :: int where "DIR_LEFT = 64"
definition DIR_DOWN :: int where "DIR_DOWN = 96"

lemmas block_defs = SPACE_def BASE_def FILLED_def REC_LU_def REC_LD_def REC_RU_def REC_RD_def
  FUEL_def TREASURE_def
lemmas dir_defs = DIR_RIGHT_def DIR_UP_def DIR_LEFT_def DIR_DOWN_def

text \<open>A team is represented by its number; a base without a team has \<open>None\<close>.\<close>

record base_t =
  base_id :: int
  base_dir :: int
  base_team :: "int option"

record fuel_t =
  fuel_id :: int
  fuel_amount :: int
  conn_mask :: i32
  last_change :: int

record world_map =
  World_x :: nat
  World_y :: nat
  World_block :: "int list list"
  World_treasures :: "int list"
  World_base :: "base_t list"
  World_fuel :: "fuel_t list"
  World_lives :: int
  World_mode :: i32
  World_name :: "byte list"
  World_author :: "byte list"

record setup_t =
  setup_size :: int
  map_data_len :: int
  s_mode :: i32
  s_lives :: int
  s_x :: int
  s_y :: int
  frames_per_second :: int
  map_order :: int
  s_name :: "byte list"
  s_author :: "byte list"
  map_data :: "byte list"

text \<open>\<open>offsetof(setup_t, map_data)\<close>: three \<open>int32_t\<close>, seven \<open>int16_t\<close> and two names.\<close>

definition SETUP_HEADER :: int where "SETUP_HEADER = 3 * 4 + 7 * 2 + 2 * 80"

definition base_setup :: "int \<Rightarrow> int option" where
  "base_setup dir =
     (if dir = DIR_UP then Some 30 else if dir = DIR_RIGHT then Some 40
      else if dir = DIR_DOWN then Some 50 else if dir = DIR_LEFT then Some 60 else None)"

text \<open>One cell, with the counters of the treasures and bases met so far. The inner \<open>None\<close> is the
  error return for a bad base.\<close>

definition setup_cell :: "world_map \<Rightarrow> int \<Rightarrow> nat \<Rightarrow> nat \<Rightarrow> (byte option \<times> nat \<times> nat) option" where
  "setup_cell W ty treasure base =
     (if ty = SPACE then Some (Some 0, treasure, base)
      else if ty = FILLED then Some (Some 1, treasure, base)
      else if ty = REC_RU then Some (Some 4, treasure, base)
      else if ty = REC_RD then Some (Some 5, treasure, base)
      else if ty = REC_LU then Some (Some 6, treasure, base)
      else if ty = REC_LD then Some (Some 7, treasure, base)
      else if ty = FUEL then Some (Some 3, treasure, base)
      else if ty = TREASURE then
        do { t \<leftarrow> buf_at (int treasure) (World_treasures W);
             Some (Some (word_of_int (20 + t)), treasure + 1, base) }
      else if ty = BASE then
        do { b \<leftarrow> buf_at (int base) (World_base W);
             let team = (case base_team b of None \<Rightarrow> 0 | Some t \<Rightarrow> t);
             Some (map_option (\<lambda>c. word_of_int (c + team)) (base_setup (base_dir b)), treasure, base + 1) }
      else Some (Some 0, treasure, base))"

fun setup_cells :: "world_map \<Rightarrow> int list \<Rightarrow> nat \<Rightarrow> nat \<Rightarrow> byte list option option" where
  "setup_cells W [] treasure base = Some (Some [])"
| "setup_cells W (ty # tys) treasure base =
     do { (c, t, b) \<leftarrow> setup_cell W ty treasure base;
          (case c of
             None \<Rightarrow> Some None
           | Some code \<Rightarrow>
               do { rest \<leftarrow> setup_cells W tys t b; Some (map_option ((#) code) rest) }) }"

text \<open>The blocks in the order of the two nested loops.\<close>

definition world_blocks :: "world_map \<Rightarrow> int list option" where
  "world_blocks W =
     those (map (\<lambda>(x, y). do { col \<leftarrow> buf_at (int x) (World_block W); buf_at (int y) col })
       (List.product [0..<World_x W] [0..<World_y W]))"

definition Init_setup ::
  "world_map \<Rightarrow> int \<Rightarrow> bool \<Rightarrow> bool \<times> bool \<times> bool \<Rightarrow> (int \<times> setup_t option) option" where
  "Init_setup W fps compress_maps mem =
     (case mem of (mem1, mem2, mem3) \<Rightarrow>
       if \<not> mem1 then Some (-1, None)
       else do {
         tys \<leftarrow> world_blocks W;
         cells \<leftarrow> setup_cells W tys 0 0;
         (case cells of
            None \<Rightarrow> Some (-1, None)
          | Some mapdata \<Rightarrow>
              do {
                let n = World_x W * World_y W;
                (ty, sz, data) \<leftarrow>
                  (if \<not> compress_maps then Some (SETUP_MAP_UNCOMPRESSED, n, mapdata)
                   else map_option (Pair SETUP_MAP_ORDER_XY) (Compress_map mapdata n));
                if compress_maps \<and> (sz = 0 \<or> sz > n) then Some (-1, None)
                else if compress_maps \<and> \<not> mem2 then Some (-1, None)
                else if \<not> mem3 then Some (-1, None)
                else Some (0, Some \<lparr>setup_size = SETUP_HEADER + int sz, map_data_len = int sz,
                  s_mode = World_mode W, s_lives = World_lives W, s_x = int (World_x W),
                  s_y = int (World_y W), frames_per_second = fps, map_order = ty,
                  s_name = take 79 (cstr (World_name W)), s_author = take 79 (cstr (World_author W)),
                  map_data = take sz data\<rparr>) }) })"

subsection \<open>The transmitted map describes the world\<close>

definition block_ok :: "int \<Rightarrow> bool" where
  "block_ok ty \<longleftrightarrow> ty \<in> {SPACE, BASE, FILLED, REC_LU, REC_LD, REC_RU, REC_RD, FUEL, TREASURE}"

definition world_ok :: "world_map \<Rightarrow> int list \<Rightarrow> bool" where
  "world_ok W tys \<longleftrightarrow>
     world_blocks W = Some tys \<and> list_all block_ok tys \<and>
     length (filter ((=) TREASURE) tys) \<le> length (World_treasures W) \<and>
     length (filter ((=) BASE) tys) \<le> length (World_base W) \<and>
     list_all (\<lambda>t. 0 \<le> t \<and> t < 10) (World_treasures W) \<and>
     list_all (\<lambda>b. base_dir b \<in> {DIR_RIGHT, DIR_UP, DIR_LEFT, DIR_DOWN} \<and>
       (case base_team b of None \<Rightarrow> True | Some t \<Rightarrow> 0 \<le> t \<and> t < 10)) (World_base W)"

text \<open>The code of a cell: the \<open>n\<close>-th treasure or base block is the \<open>n\<close>-th treasure or base.\<close>

definition cell_code :: "world_map \<Rightarrow> int \<Rightarrow> nat \<Rightarrow> nat \<Rightarrow> byte" where
  "cell_code W ty treasure base =
     (if ty = FILLED then 1 else if ty = REC_RU then 4 else if ty = REC_RD then 5
      else if ty = REC_LU then 6 else if ty = REC_LD then 7 else if ty = FUEL then 3
      else if ty = TREASURE then word_of_int (20 + World_treasures W ! treasure)
      else if ty = BASE then
        word_of_int (the (base_setup (base_dir (World_base W ! base))) +
          (case base_team (World_base W ! base) of None \<Rightarrow> 0 | Some t \<Rightarrow> t))
      else 0)"

definition world_codes :: "world_map \<Rightarrow> int list \<Rightarrow> byte list" where
  "world_codes W tys =
     map (\<lambda>i. cell_code W (tys ! i) (length (filter ((=) TREASURE) (take i tys)))
                (length (filter ((=) BASE) (take i tys)))) [0..<length tys]"

lemma base_setup_ok:
  "d \<in> {DIR_RIGHT, DIR_UP, DIR_LEFT, DIR_DOWN} \<Longrightarrow> \<exists>c. base_setup d = Some c \<and> 30 \<le> c \<and> c \<le> 60"
  by (auto simp: base_setup_def)

lemma small_code: "0 \<le> i \<Longrightarrow> i < 128 \<Longrightarrow> (word_of_int i :: byte) < SETUP_COMPRESSED"
  by (simp add: SETUP_COMPRESSED_def word_less_def uint_word_of_int)

lemma setup_cell_ok:
  assumes "block_ok ty"
    "ty = TREASURE \<Longrightarrow> t < length (World_treasures W)" "ty = BASE \<Longrightarrow> b < length (World_base W)"
    "list_all (\<lambda>t. 0 \<le> t \<and> t < 10) (World_treasures W)"
    "list_all (\<lambda>b. base_dir b \<in> {DIR_RIGHT, DIR_UP, DIR_LEFT, DIR_DOWN} \<and>
       (case base_team b of None \<Rightarrow> True | Some t \<Rightarrow> 0 \<le> t \<and> t < 10)) (World_base W)"
  shows "setup_cell W ty t b = Some (Some (cell_code W ty t b),
      t + (if ty = TREASURE then 1 else 0), b + (if ty = BASE then 1 else 0)) \<and>
    cell_code W ty t b < SETUP_COMPRESSED"
proof (cases "ty \<in> {TREASURE, BASE}")
  case False
  then show ?thesis
    using assms(1) by (auto simp: setup_cell_def cell_code_def block_defs block_ok_def SETUP_COMPRESSED_def)
next
  case True
  then consider "ty = TREASURE" | "ty = BASE" by blast
  then show ?thesis
  proof cases
    case 1
    then have "0 \<le> World_treasures W ! t" "World_treasures W ! t < 10"
      using assms(2,4) by (auto simp: list_all_length)
    then show ?thesis
      using 1 assms(2)
      by (simp add: setup_cell_def cell_code_def block_defs buf_at_def small_code del: of_int_add)
  next
    case 2
    let ?b = "World_base W ! b"
    have b: "base_dir ?b \<in> {DIR_RIGHT, DIR_UP, DIR_LEFT, DIR_DOWN}"
      "case base_team ?b of None \<Rightarrow> True | Some t \<Rightarrow> 0 \<le> t \<and> t < 10"
      using assms(3) [OF 2] assms(5) by (auto simp: list_all_length)
    obtain c where c: "base_setup (base_dir ?b) = Some c" "30 \<le> c" "c \<le> 60"
      using base_setup_ok [OF b(1)] by blast
    define team where "team = (case base_team ?b of None \<Rightarrow> 0 | Some t \<Rightarrow> t)"
    have "0 \<le> team" "team < 10" using b(2) by (auto simp: team_def split: option.splits)
    then have "(word_of_int (c + team) :: byte) < SETUP_COMPRESSED"
      using c by (intro small_code) auto
    then show ?thesis
      using 2 c(1) assms(3)
      by (simp add: setup_cell_def cell_code_def block_defs buf_at_def team_def [symmetric] Let_def
          del: of_int_add)
  qed
qed

lemma setup_cells_ok:
  assumes "world_ok W (pre @ tys)"
  shows "setup_cells W tys (length (filter ((=) TREASURE) pre)) (length (filter ((=) BASE) pre)) =
      Some (Some (drop (length pre) (world_codes W (pre @ tys)))) \<and>
    (\<forall>c \<in> set (drop (length pre) (world_codes W (pre @ tys))). c < SETUP_COMPRESSED)"
  using assms
proof (induction tys arbitrary: pre)
  case Nil
  then show ?case by (simp add: world_codes_def)
next
  case (Cons ty tys)
  let ?t = "length (filter ((=) TREASURE) pre)" and ?b = "length (filter ((=) BASE) pre)"
  have ok: "world_ok W ((pre @ [ty]) @ tys)" using Cons.prems by simp
  have cell: "setup_cell W ty ?t ?b = Some (Some (cell_code W ty ?t ?b),
      ?t + (if ty = TREASURE then 1 else 0), ?b + (if ty = BASE then 1 else 0)) \<and>
      cell_code W ty ?t ?b < SETUP_COMPRESSED"
    by (rule setup_cell_ok) (use Cons.prems in \<open>auto simp: world_ok_def\<close>)
  have "drop (length pre) (world_codes W (pre @ ty # tys)) =
      cell_code W ty ?t ?b # drop (length (pre @ [ty])) (world_codes W ((pre @ [ty]) @ tys))"
  proof -
    have "length pre < length (world_codes W (pre @ ty # tys))" by (simp add: world_codes_def)
    then show ?thesis
      by (subst Cons_nth_drop_Suc [symmetric])
         (simp_all add: world_codes_def nth_append del: upt_Suc)
  qed
  moreover have "?t + (if ty = TREASURE then 1 else 0) = length (filter ((=) TREASURE) (pre @ [ty]))"
    "?b + (if ty = BASE then 1 else 0) = length (filter ((=) BASE) (pre @ [ty]))" by simp_all
  ultimately show ?case using Cons.IH [OF ok] cell by simp
qed

lemma length_those: "those xs = Some ys \<Longrightarrow> length ys = length xs"
  by (induction xs arbitrary: ys) (auto split: option.splits)

text \<open>For a consistent map, building the setup structure succeeds when memory does, compressed or
  not; the size field matches the data, and what the client decodes from the data is, block by
  block, the code of the world's block, with each treasure and each base labelled by its own team
  and direction.\<close>

theorem Init_setup_describes_world:
  assumes "world_ok W tys" "tys \<noteq> []"
  shows "\<exists>st. Init_setup W fps compress (True, True, True) = Some (0, Some st) \<and>
    setup_size st = SETUP_HEADER + int (length (map_data st)) \<and>
    map_data_len st = int (length (map_data st)) \<and>
    map_order st = (if compress then SETUP_MAP_ORDER_XY else SETUP_MAP_UNCOMPRESSED) \<and>
    (if compress then unrle (map_data st) else Some (map_data st)) = Some (world_codes W tys)"
proof -
  define cs where "cs = world_codes W tys"
  have blocks: "world_blocks W = Some tys" using assms(1) by (simp add: world_ok_def)
  have n: "length cs = World_x W * World_y W"
    using length_those [OF blocks [unfolded world_blocks_def]] by (simp add: cs_def world_codes_def)
  have cells: "setup_cells W tys 0 0 = Some (Some cs)" "\<forall>c \<in> set cs. c < SETUP_COMPRESSED"
    using setup_cells_ok [of W "[]" tys] assms(1) by (simp_all add: cs_def)
  obtain j m' where c: "Compress_map cs (length cs) = Some (j, m')" "length m' = length cs"
    "j \<le> length cs" "take j m' = rle cs" "unrle (take j m') = Some cs"
    using Compress_map_ok [OF cells(2)] by blast
  have "cs \<noteq> []" using assms(2) by (simp add: cs_def world_codes_def)
  then have "j \<noteq> 0" using c(5) by (cases j) auto
  moreover have "length (take j m') = j" using c(2,3) by simp
  ultimately show ?thesis
    using blocks cells(1) c n
    by (cases compress) (simp_all add: Init_setup_def cs_def [symmetric] Let_def)
qed

definition demo_world :: world_map where
  "demo_world = \<lparr>World_x = 2, World_y = 2, World_block = [[FILLED, BASE], [TREASURE, FUEL]],
     World_treasures = [3], World_base = [\<lparr>base_id = 0, base_dir = DIR_LEFT, base_team = Some 2\<rparr>],
     World_fuel = [], World_lives = 0, World_mode = 0, World_name = [65, 0], World_author = [66, 0]\<rparr>"

lemma demo_world_ok: "world_ok demo_world [FILLED, BASE, TREASURE, FUEL]"
proof -
  have "List.product [0..<2] [0..<2] = [(0, 0), (0, 1), (1, 0), (1, 1 :: nat)]"
    by (simp add: upt_rec)
  then have "world_blocks demo_world = Some [FILLED, BASE, TREASURE, FUEL]"
    by (simp add: world_blocks_def demo_world_def buf_at_def)
  then show ?thesis by (simp add: world_ok_def demo_world_def block_ok_def block_defs)
qed

theorem Init_setup_describes_world_witness:
  "\<exists>st. Init_setup demo_world 14 True (True, True, True) = Some (0, Some st) \<and>
    setup_size st = SETUP_HEADER + int (length (map_data st)) \<and>
    map_data_len st = int (length (map_data st)) \<and>
    map_order st = (if True then SETUP_MAP_ORDER_XY else SETUP_MAP_UNCOMPRESSED) \<and>
    (if True then unrle (map_data st) else Some (map_data st)) =
      Some (world_codes demo_world [FILLED, BASE, TREASURE, FUEL])"
  by (rule Init_setup_describes_world [OF demo_world_ok]) simp

end
