(* ===== verification/Connection.thy ===== *)
theory Connection
  imports Complex_Main Packet Check_Names Sched_Input Map_Setup
begin

text \<open>
  The client connections of \<open>server/netserver.c\<close>: their data, state changes, creation and
  destruction.

  A connection is the record \<open>connection\<close> (\<open>struct _connection\<close>), its \<open>int32_t\<close> fields as integers;
  \<open>Conn\<close> is the array of them and a \<open>connection_t *\<close> is an index into it. \<open>server\<close> holds the global
  variables the file uses. Each socket has its own scripted operating system, \<open>net\<close>. A player is an
  address in \<open>player_heap\<close>. What the rest of the server does when the connection code calls it is
  the parameter \<open>G\<close>, a record of functions on the server state; it may do anything, and what a
  theorem needs of it is a hypothesis there. C strings are held without their terminating NUL.
\<close>

definition CONN_FREE :: i32 where "CONN_FREE = 0x00"
definition CONN_LISTENING :: i32 where "CONN_LISTENING = 0x01"
definition CONN_SETUP :: i32 where "CONN_SETUP = 0x02"
definition CONN_LOGIN :: i32 where "CONN_LOGIN = 0x04"
definition CONN_PLAYING :: i32 where "CONN_PLAYING = 0x08"
definition CONN_DRAIN :: i32 where "CONN_DRAIN = 0x20"
definition CONN_READY :: i32 where "CONN_READY = 0x40"

lemmas conn_states = CONN_FREE_def CONN_LISTENING_def CONN_SETUP_def CONN_LOGIN_def
  CONN_PLAYING_def CONN_DRAIN_def CONN_READY_def

lemma conn_distinct [simp]:
  "CONN_FREE \<noteq> CONN_LISTENING" "CONN_FREE \<noteq> CONN_SETUP" "CONN_FREE \<noteq> CONN_LOGIN"
  "CONN_FREE \<noteq> CONN_PLAYING" "CONN_FREE \<noteq> CONN_DRAIN" "CONN_FREE \<noteq> CONN_READY"
  "CONN_LISTENING \<noteq> CONN_SETUP" "CONN_LISTENING \<noteq> CONN_LOGIN" "CONN_LISTENING \<noteq> CONN_PLAYING"
  "CONN_LISTENING \<noteq> CONN_DRAIN" "CONN_LISTENING \<noteq> CONN_READY" "CONN_SETUP \<noteq> CONN_LOGIN"
  "CONN_SETUP \<noteq> CONN_PLAYING" "CONN_SETUP \<noteq> CONN_DRAIN" "CONN_SETUP \<noteq> CONN_READY"
  "CONN_LOGIN \<noteq> CONN_PLAYING" "CONN_LOGIN \<noteq> CONN_DRAIN" "CONN_LOGIN \<noteq> CONN_READY"
  "CONN_PLAYING \<noteq> CONN_DRAIN" "CONN_PLAYING \<noteq> CONN_READY" "CONN_DRAIN \<noteq> CONN_READY"
  by (simp_all add: conn_states)

lemmas conn_distinct_sym [simp] = conn_distinct [symmetric]

definition LISTEN_TIMEOUT :: int where "LISTEN_TIMEOUT = 4"
definition SETUP_TIMEOUT :: int where "SETUP_TIMEOUT = 15"
definition LOGIN_TIMEOUT :: int where "LOGIN_TIMEOUT = 40"
definition READY_TIMEOUT :: int where "READY_TIMEOUT = 40"
definition IDLE_TIMEOUT :: int where "IDLE_TIMEOUT = 30"

definition SERVER_RECV_SIZE :: int where "SERVER_RECV_SIZE = 1024"
definition SERVER_SEND_SIZE :: int where "SERVER_SEND_SIZE = 4 * 1024"
definition MAX_SOCKBUF_SIZE :: int where "MAX_SOCKBUF_SIZE = 50 * 1024"
definition MAX_SELECT_FD :: int where "MAX_SELECT_FD = 31"
definition MIN_VIEW_SIZE :: int where "MIN_VIEW_SIZE = 384"
definition MAX_VIEW_SIZE :: int where "MAX_VIEW_SIZE = 1024"
definition DEF_VIEW_SIZE :: int where "DEF_VIEW_SIZE = 768"
definition DEF_SPARK_RAND :: int where "DEF_SPARK_RAND = 0x55"

definition PKT_VERIFY :: int where "PKT_VERIFY = 1"
definition PKT_REPLY :: int where "PKT_REPLY = 2"
definition PKT_PLAY :: int where "PKT_PLAY = 3"
definition PKT_QUIT :: int where "PKT_QUIT = 4"

subsection \<open>Data\<close>

record connection =
  c_cid :: int
  c_state :: i32
  c_drain_state :: i32
  c_magic :: int
  c_r :: sockbuf
  c_w :: sockbuf
  c_c :: sockbuf
  c_start :: int
  c_timeout :: int
  c_last_send_loops :: int
  c_reliable_offset :: int
  c_reliable_unsent :: int
  c_retransmit_at_loop :: int
  c_rtt_smoothed :: int
  c_rtt_dev :: int
  c_rtt_retransmit :: int
  c_rtt_timeouts :: int
  c_acks :: int
  c_setup :: int
  c_my_port :: int
  c_his_port :: int
  c_team :: "int option"
  c_version :: int
  c_last_key_change :: int
  c_talk_sequence_num :: int
  c_num_keyboard_updates :: int
  c_view_width :: int
  c_view_height :: int
  c_debris_colors :: int
  c_spark_rand :: int
  c_real :: "byte list option"
  c_nick :: "byte list option"
  c_dpy :: "byte list option"
  c_ship :: "byte list option"
  c_addr :: "byte list option"
  c_host :: "byte list option"
  c_pl :: "nat option"

definition zero_sockbuf :: sockbuf where
  "zero_sockbuf = \<lparr>sb_sock = 0, sb_buf = None, sb_size = 0, sb_len = 0, sb_ptr = 0, sb_state = 0\<rparr>"

text \<open>\<open>memset(connp, 0, sizeof *connp)\<close>.\<close>

definition zero_connection :: connection where
  "zero_connection = \<lparr>c_cid = 0, c_state = 0, c_drain_state = 0, c_magic = 0, c_r = zero_sockbuf,
     c_w = zero_sockbuf, c_c = zero_sockbuf, c_start = 0, c_timeout = 0, c_last_send_loops = 0,
     c_reliable_offset = 0, c_reliable_unsent = 0, c_retransmit_at_loop = 0, c_rtt_smoothed = 0,
     c_rtt_dev = 0, c_rtt_retransmit = 0, c_rtt_timeouts = 0, c_acks = 0, c_setup = 0,
     c_my_port = 0, c_his_port = 0, c_team = None, c_version = 0, c_last_key_change = 0,
     c_talk_sequence_num = 0, c_num_keyboard_updates = 0, c_view_width = 0, c_view_height = 0,
     c_debris_colors = 0, c_spark_rand = 0, c_real = None, c_nick = None, c_dpy = None,
     c_ship = None, c_addr = None, c_host = None, c_pl = None\<rparr>"

text \<open>The fields of a player this file writes. A power is a 16-bit number of 256ths, which a float
  holds exactly.\<close>

record player =
  pl_connp :: "nat option"
  pl_power :: rat
  pl_power_s :: rat
  pl_turnspeed :: rat
  pl_turnspeed_s :: rat
  pl_turnresistance :: rat
  pl_turnresistance_s :: rat
  pl_last_keyv :: "byte list"
  pl_prev_keyv :: "byte list"
  pl_player_fps :: int

record server =
  Conn :: "connection list"
  max_connections :: nat
  Setup :: setup_t
  World :: world_map
  num_conn_busy :: int
  num_conn_playing :: int
  login_in_progress :: int
  num_logins :: int
  num_logouts :: int
  main_loops :: int
  frame_loops :: int
  fps :: int
  last_packet_of_frame :: bool
  clientPortStart :: int
  clientPortEnd :: int
  net :: "int \<Rightarrow> os"
  closed_socks :: "int list"
  io :: "(unit, nat) inputs"
  player_heap :: "nat \<rightharpoonup> player"

text \<open>The rest of the server, as the connection code calls it: \<open>Player_remove\<close>, \<open>Handle_keyboard\<close>,
  \<open>Handle_player_command\<close>, \<open>Handle_talk\<close>, the turning of a player by the pointer, \<open>Message_game_print\<close>,
  the parts of \<open>Handle_login\<close> before and after the connection is taken over, and
  \<open>Parse_shape_str\<close>.\<close>

datatype login_prep =
  Refused  \<comment> \<open>no room, no team, or the name is in use\<close>
| No_base nat  \<comment> \<open>a player was added but no base is free\<close>
| Entered nat  \<comment> \<open>the new player\<close>

record game =
  on_player_remove :: "nat \<Rightarrow> server \<Rightarrow> server option"
  on_keyboard :: "nat \<Rightarrow> server \<Rightarrow> server option"
  on_player_command :: "nat \<Rightarrow> byte list \<Rightarrow> server \<Rightarrow> server option"
  on_talk :: "nat \<Rightarrow> byte list \<Rightarrow> server \<Rightarrow> server option"
  on_pointer_move :: "nat \<Rightarrow> i16 \<Rightarrow> server \<Rightarrow> server option"
  on_message :: "byte list \<Rightarrow> server \<Rightarrow> server option"
  on_login :: "nat \<Rightarrow> server \<Rightarrow> (login_prep \<times> server) option"
  on_enter :: "nat \<Rightarrow> server \<Rightarrow> server option"
  on_shape :: "byte list \<Rightarrow> byte list option"

subsection \<open>Access\<close>

definition get_conn :: "nat \<Rightarrow> server \<Rightarrow> connection option" where
  "get_conn i s = buf_at (int i) (Conn s)"

definition upd_conn :: "nat \<Rightarrow> (connection \<Rightarrow> connection) \<Rightarrow> server \<Rightarrow> server" where
  "upd_conn i f s = s\<lparr>Conn := (Conn s)[i := f (Conn s ! i)]\<rparr>"

definition upd_net :: "int \<Rightarrow> os \<Rightarrow> server \<Rightarrow> server" where
  "upd_net k e s = s\<lparr>net := (net s)(k := e)\<rparr>"

text \<open>\<open>Packet_printf(&connp->c, ...)\<close>, the same for \<open>&connp->w\<close>, and \<open>Packet_scanf(&connp->r, ...)\<close>.\<close>

definition arg_int :: "int \<Rightarrow> parg" where "arg_int x = AInt (word_of_int x)"

definition print_c :: "nat \<Rightarrow> string \<Rightarrow> parg list \<Rightarrow> server \<Rightarrow> (int \<times> server) option" where
  "print_c i fmt args s =
     do { cn \<leftarrow> get_conn i s;
          (n, sb) \<leftarrow> Packet_printf (last_packet_of_frame s) (c_c cn) fmt args;
          Some (n, upd_conn i (\<lambda>c. c\<lparr>c_c := sb\<rparr>) s) }"

definition print_w :: "nat \<Rightarrow> string \<Rightarrow> parg list \<Rightarrow> server \<Rightarrow> (int \<times> server) option" where
  "print_w i fmt args s =
     do { cn \<leftarrow> get_conn i s;
          (n, sb) \<leftarrow> Packet_printf (last_packet_of_frame s) (c_w cn) fmt args;
          Some (n, upd_conn i (\<lambda>c. c\<lparr>c_w := sb\<rparr>) s) }"

definition scan_r :: "nat \<Rightarrow> string \<Rightarrow> server \<Rightarrow> (int \<times> sarg list \<times> server) option" where
  "scan_r i fmt s =
     do { cn \<leftarrow> get_conn i s;
          (n, outs, sb, e) \<leftarrow> Packet_scanf (c_r cn) fmt (net s (sb_sock (c_r cn)));
          Some (n, outs, upd_net (sb_sock (c_r cn)) e (upd_conn i (\<lambda>c. c\<lparr>c_r := sb\<rparr>) s)) }"

definition flush_w :: "nat \<Rightarrow> server \<Rightarrow> (int \<times> server) option" where
  "flush_w i s =
     do { cn \<leftarrow> get_conn i s;
          (n, sb, e) \<leftarrow> Sockbuf_flush (c_w cn) (net s (sb_sock (c_w cn)));
          Some (n, upd_net (sb_sock (c_w cn)) e (upd_conn i (\<lambda>c. c\<lparr>c_w := sb\<rparr>) s)) }"

definition clear_w :: "nat \<Rightarrow> server \<Rightarrow> server option" where
  "clear_w i s = do { cn \<leftarrow> get_conn i s; Some (upd_conn i (\<lambda>c. c\<lparr>c_w := Sockbuf_clear (c_w c)\<rparr>) s) }"

definition clear_r :: "nat \<Rightarrow> server \<Rightarrow> server option" where
  "clear_r i s = do { cn \<leftarrow> get_conn i s; Some (upd_conn i (\<lambda>c. c\<lparr>c_r := Sockbuf_clear (c_r c)\<rparr>) s) }"

subsection \<open>State changes\<close>

definition Conn_set_state :: "nat \<Rightarrow> i32 \<Rightarrow> i32 \<Rightarrow> server \<Rightarrow> server option" where
  "Conn_set_state i st drain s =
     do { cn \<leftarrow> get_conn i s;
          let s1 = (if has_bit (c_state cn) (CONN_PLAYING OR CONN_READY)
                    then s\<lparr>num_conn_playing := num_conn_playing s - 1\<rparr>
                    else if c_state cn = CONN_FREE
                    then s\<lparr>num_conn_busy := num_conn_busy s + 1\<rparr> else s);
          let s2 = upd_conn i (\<lambda>c. c\<lparr>c_state := st, c_drain_state := drain, c_start := main_loops s\<rparr>) s1;
          let s3 = (if st = CONN_PLAYING then
                      upd_conn i (\<lambda>c. c\<lparr>c_timeout := IDLE_TIMEOUT\<rparr>)
                        (s2\<lparr>num_conn_playing := num_conn_playing s2 + 1\<rparr>)
                    else if st = CONN_READY then
                      upd_conn i (\<lambda>c. c\<lparr>c_timeout := READY_TIMEOUT\<rparr>)
                        (s2\<lparr>num_conn_playing := num_conn_playing s2 + 1\<rparr>)
                    else if st = CONN_LOGIN then upd_conn i (\<lambda>c. c\<lparr>c_timeout := LOGIN_TIMEOUT\<rparr>) s2
                    else if st = CONN_SETUP then upd_conn i (\<lambda>c. c\<lparr>c_timeout := SETUP_TIMEOUT\<rparr>) s2
                    else if st = CONN_LISTENING then upd_conn i (\<lambda>c. c\<lparr>c_timeout := LISTEN_TIMEOUT\<rparr>) s2
                    else if st = CONN_FREE then
                      upd_conn i (\<lambda>c. c\<lparr>c_timeout := IDLE_TIMEOUT\<rparr>)
                        (s2\<lparr>num_conn_busy := num_conn_busy s2 - 1\<rparr>)
                    else s2);
          Some (s3\<lparr>login_in_progress := num_conn_busy s3 - num_conn_playing s3\<rparr>) }"

text \<open>The quit packet: the type byte and at most 78 bytes of the reason.\<close>

definition quit_packet :: "byte list \<Rightarrow> byte list" where
  "quit_packet reason = word_of_int PKT_QUIT # take 78 (cstr reason) @ [0]"

definition send_quit :: "int \<Rightarrow> byte list \<Rightarrow> server \<Rightarrow> server" where
  "send_quit sock pkt s =
     (case DgramWrite pkt (net s sock) of (n, e1) \<Rightarrow>
        if n \<noteq> int (length pkt) then
          (case GetSocketError e1 of (_, e2) \<Rightarrow>
             (case DgramWrite pkt e2 of (_, e3) \<Rightarrow> upd_net sock e3 s))
        else upd_net sock e1 s)"

definition Destroy_connection :: "game \<Rightarrow> nat \<Rightarrow> byte list \<Rightarrow> server \<Rightarrow> server option" where
  "Destroy_connection G i reason s =
     do { cn \<leftarrow> get_conn i s;
          if c_state cn = CONN_FREE then Some s
          else do {
            let sock = sb_sock (c_w cn);
            io' \<leftarrow> (case remove_input sock (io s) of Inl _ \<Rightarrow> None | Inr t \<Rightarrow> Some t);
            let pkt = quit_packet reason;
            let s1 = send_quit sock pkt (s\<lparr>io := io'\<rparr>);
            s2 \<leftarrow> Conn_set_state i CONN_FREE CONN_FREE s1;
            cn2 \<leftarrow> get_conn i s2;
            s3 \<leftarrow> (case c_pl cn2 of
                     None \<Rightarrow> Some s2
                   | Some p \<Rightarrow>
                       do { pl \<leftarrow> player_heap s2 p;
                            on_player_remove G p
                              ((upd_conn i (\<lambda>c. c\<lparr>c_pl := None\<rparr>) s2)
                                 \<lparr>player_heap := (player_heap s2)(p \<mapsto> pl\<lparr>pl_connp := None\<rparr>)\<rparr>) });
            _ \<leftarrow> get_conn i s3;
            let s4 = upd_conn i (\<lambda>_. zero_connection) s3;
            let s5 = send_quit sock pkt (s4\<lparr>num_logouts := num_logouts s4 + 1\<rparr>);
            Some (s5\<lparr>closed_socks := closed_socks s5 @ [sock]\<rparr>) } }"

text \<open>\<open>Send_reply\<close>: a write error destroys the connection.\<close>

definition Send_reply :: "game \<Rightarrow> nat \<Rightarrow> int \<Rightarrow> int \<Rightarrow> server \<Rightarrow> (int \<times> server) option" where
  "Send_reply G i replyto result s =
     do { (n, s1) \<leftarrow> print_c i ''%c%c%c'' [arg_int PKT_REPLY, arg_int replyto, arg_int result] s;
          if n = -1 then do { s2 \<leftarrow> Destroy_connection G i [] s1; Some (-1, s2) }
          else Some (n, s1) }"

subsection \<open>Creating a connection\<close>

text \<open>What the operating system and the allocator answer while a connection is set up: the socket
  for a requested port (-1 on failure, port 0 for any), its port number, whether it can be made
  non-blocking, the value of \<open>rand\<close>, and the outcomes of the three buffer and five string
  allocations.\<close>

record setup_env =
  e_create :: "int \<Rightarrow> int"
  e_port :: "int \<Rightarrow> int"
  e_nonblocking :: "int \<Rightarrow> bool"
  e_rand :: int
  e_bufs :: "(nat \<Rightarrow> byte) option \<times> (nat \<Rightarrow> byte) option \<times> (nat \<Rightarrow> byte) option"
  e_strs :: "bool \<times> bool \<times> bool \<times> bool \<times> bool"

datatype scan_result = Same_client int | Nick_in_use | Free_slot nat

definition nick_eq :: "byte list option \<Rightarrow> byte list \<Rightarrow> bool option" where
  "nick_eq n nick = do { x \<leftarrow> n; r \<leftarrow> strcasecmp (x @ [0]) (nick @ [0]); Some (r = 0) }"

definition str_eq :: "byte list \<Rightarrow> byte list option \<Rightarrow> bool option" where
  "str_eq a b = map_option ((=) a) b"

definition and_then :: "bool option \<Rightarrow> bool option \<Rightarrow> bool option" where
  "and_then a b = do { x \<leftarrow> a; if x then b else Some False }"

fun setup_scan ::
  "byte list \<Rightarrow> byte list \<Rightarrow> byte list \<Rightarrow> int \<Rightarrow> nat \<Rightarrow> nat \<Rightarrow> connection list \<Rightarrow> nat \<Rightarrow> scan_result option" where
  "setup_scan rname nick dpy version mx i [] free = Some (Free_slot free)"
| "setup_scan rname nick dpy version mx i (c # cs) free =
     (if c_state c = CONN_FREE
      then setup_scan rname nick dpy version mx (Suc i) cs (if free = mx then i else free)
      else do {
        same \<leftarrow> nick_eq (c_nick c) nick;
        if same then
          do { client \<leftarrow> and_then (Some (c_state c = CONN_LISTENING))
                 (and_then (str_eq rname (c_real c))
                   (and_then (str_eq dpy (c_dpy c)) (Some (version = c_version c))));
               Some (if client then Same_client (c_my_port c) else Nick_in_use) }
        else setup_scan rname nick dpy version mx (Suc i) cs free })"

text \<open>The first usable port of a range.\<close>

fun try_ports :: "(int \<Rightarrow> int) \<Rightarrow> int \<Rightarrow> nat \<Rightarrow> int" where
  "try_ports create i 0 = -1"
| "try_ports create i (Suc k) = (if create i \<noteq> -1 then create i else try_ports create (i + 1) k)"

definition client_socket :: "setup_env \<Rightarrow> server \<Rightarrow> int \<times> server" where
  "client_socket E s =
     (let pe = (if clientPortStart s \<noteq> 0 \<and> (clientPortEnd s = 0 \<or> clientPortEnd s > 65535)
                then 65535 else clientPortEnd s);
          ps = (if pe \<noteq> 0 \<and> (clientPortStart s = 0 \<or> clientPortStart s < 1024)
                then 1024 else clientPortStart s);
          s1 = s\<lparr>clientPortStart := ps, clientPortEnd := pe\<rparr>
      in if ps = 0 \<or> pe = 0 \<or> ps > pe then (e_create E 0, s1)
         else (try_ports (e_create E) ps (nat (pe - ps + 1)), s1))"

definition dup :: "bool \<Rightarrow> byte list \<Rightarrow> byte list option" where
  "dup ok str = (if ok then Some str else None)"

definition new_connection ::
  "setup_env \<Rightarrow> byte list \<Rightarrow> byte list \<Rightarrow> byte list \<Rightarrow> int \<Rightarrow> byte list \<Rightarrow> byte list \<Rightarrow> int \<Rightarrow>
   nat \<Rightarrow> int \<Rightarrow> server \<Rightarrow> connection \<Rightarrow> connection" where
  "new_connection E rname nick dpy team addr host version free sock s c =
     (case (e_bufs E, e_strs E) of ((bw, br, bc), (m1, m2, m3, m4, m5)) \<Rightarrow>
        c\<lparr>c_w := snd (Sockbuf_init (c_w c) sock SERVER_SEND_SIZE (SOCKBUF_WRITE OR SOCKBUF_DGRAM) bw),
          c_r := snd (Sockbuf_init (c_r c) sock SERVER_RECV_SIZE (SOCKBUF_READ OR SOCKBUF_DGRAM) br),
          c_c := snd (Sockbuf_init (c_c c) (-1) MAX_SOCKBUF_SIZE
                   (SOCKBUF_WRITE OR SOCKBUF_READ OR SOCKBUF_LOCK) bc),
          c_my_port := e_port E sock,
          c_real := dup m1 rname, c_nick := dup m2 nick, c_dpy := dup m3 dpy,
          c_addr := dup m4 addr, c_host := dup m5 host,
          c_ship := None, c_team := Some team, c_version := version, c_start := main_loops s,
          c_magic := (e_rand E + e_port E sock + sock + team + main_loops s) mod 2 ^ 32,
          c_pl := None, c_timeout := LISTEN_TIMEOUT, c_last_key_change := 0,
          c_reliable_offset := 0, c_reliable_unsent := 0, c_last_send_loops := 0,
          c_retransmit_at_loop := 0, c_rtt_retransmit := c_div (fps s) 2, c_rtt_smoothed := 0,
          c_rtt_dev := 0, c_rtt_timeouts := 0, c_acks := 0, c_setup := 0,
          c_view_width := DEF_VIEW_SIZE, c_view_height := DEF_VIEW_SIZE, c_debris_colors := 0,
          c_spark_rand := DEF_SPARK_RAND, c_cid := int free\<rparr>)"

definition no_memory :: "connection \<Rightarrow> bool" where
  "no_memory c \<longleftrightarrow> sb_buf (c_w c) = None \<or> sb_buf (c_r c) = None \<or> sb_buf (c_c c) = None \<or>
     c_real c = None \<or> c_nick c = None \<or> c_dpy c = None \<or> c_addr c = None \<or> c_host c = None"

definition Setup_connection ::
  "game \<Rightarrow> setup_env \<Rightarrow> byte list \<Rightarrow> byte list \<Rightarrow> byte list \<Rightarrow> int \<Rightarrow> byte list \<Rightarrow> byte list \<Rightarrow> int \<Rightarrow>
   server \<Rightarrow> (int \<times> server) option" where
  "Setup_connection G E rname nick dpy team addr host version s =
     do { found \<leftarrow> setup_scan rname nick dpy version (max_connections s) 0
            (take (max_connections s) (Conn s)) (max_connections s);
          (case found of
             Same_client port \<Rightarrow> Some (port, s)
           | Nick_in_use \<Rightarrow> Some (-1, s)
           | Free_slot free \<Rightarrow>
               (if free \<ge> max_connections s then Some (-1, s)
                else
                  (case client_socket E s of (sock, s1) \<Rightarrow>
                     if sock = -1 then Some (-1, s1)
                     else if e_port E sock = -1 \<or> \<not> e_nonblocking E sock
                     then Some (-1, s1\<lparr>closed_socks := closed_socks s1 @ [sock]\<rparr>)
                     else do {
                       _ \<leftarrow> get_conn free s1;
                       let s2 = upd_conn free
                         (new_connection E rname nick dpy team addr host version free sock s1) s1;
                       s3 \<leftarrow> Conn_set_state free CONN_LISTENING CONN_FREE s2;
                       cn \<leftarrow> get_conn free s3;
                       if no_memory cn
                       then do { s4 \<leftarrow> Destroy_connection G free
                                   (map (of_nat \<circ> of_char) ''no memory'') s3;
                                 Some (-1, s4) }
                       else (case install_input (Some ()) sock (Some free) (io s3) of
                               Inl _ \<Rightarrow> None
                             | Inr t \<Rightarrow> Some (e_port E sock, s3\<lparr>io := t\<rparr>)) }))) }"

fun check_scan ::
  "byte list \<Rightarrow> byte list \<Rightarrow> byte list \<Rightarrow> byte list \<Rightarrow> connection list \<Rightarrow> int option" where
  "check_scan rname nick dpy addr [] = Some (-1)"
| "check_scan rname nick dpy addr (c # cs) =
     (if c_state c = CONN_LISTENING then
        do { same \<leftarrow> nick_eq (c_nick c) nick;
             if same then
               do { client \<leftarrow> and_then (str_eq rname (c_real c))
                      (and_then (str_eq dpy (c_dpy c)) (str_eq addr (c_addr c)));
                    Some (if client then c_my_port c else -1) }
             else check_scan rname nick dpy addr cs }
      else check_scan rname nick dpy addr cs)"

definition Check_connection ::
  "byte list \<Rightarrow> byte list \<Rightarrow> byte list \<Rightarrow> byte list \<Rightarrow> server \<Rightarrow> int option" where
  "Check_connection rname nick dpy addr s =
     check_scan rname nick dpy addr (take (max_connections s) (Conn s))"

subsection \<open>Counting connections\<close>

definition valid_state :: "i32 \<Rightarrow> bool" where
  "valid_state st \<longleftrightarrow> st \<in> {CONN_FREE, CONN_LISTENING, CONN_SETUP, CONN_LOGIN, CONN_PLAYING,
     CONN_DRAIN, CONN_READY}"

definition is_playing :: "connection \<Rightarrow> bool" where
  "is_playing c \<longleftrightarrow> c_state c = CONN_PLAYING \<or> c_state c = CONN_READY"

definition is_busy :: "connection \<Rightarrow> bool" where
  "is_busy c \<longleftrightarrow> c_state c \<noteq> CONN_FREE"

definition count :: "('a \<Rightarrow> bool) \<Rightarrow> 'a list \<Rightarrow> int" where
  "count P xs = int (length (filter P xs))"

definition counters_ok :: "server \<Rightarrow> bool" where
  "counters_ok s \<longleftrightarrow>
     (\<forall>c \<in> set (Conn s). valid_state (c_state c)) \<and>
     num_conn_busy s = count is_busy (Conn s) \<and>
     num_conn_playing s = count is_playing (Conn s) \<and>
     login_in_progress s = count (\<lambda>c. is_busy c \<and> \<not> is_playing c) (Conn s)"

lemma count_simps [simp]:
  "count P [] = 0" "count P (x # xs) = (if P x then 1 else 0) + count P xs"
  "count P (xs @ ys) = count P xs + count P ys"
  by (simp_all add: count_def)

lemma count_update:
  assumes "i < length xs"
  shows "count P (xs[i := y]) = count P xs - (if P (xs ! i) then 1 else 0) + (if P y then 1 else 0)"
proof -
  have "xs = take i xs @ xs ! i # drop (Suc i) xs" by (rule id_take_nth_drop [OF assms])
  then have "count P xs = count P (take i xs) + (if P (xs ! i) then 1 else 0) + count P (drop (Suc i) xs)"
    by (metis count_simps(2,3) add.assoc)
  moreover have "count P (xs[i := y]) =
      count P (take i xs) + (if P y then 1 else 0) + count P (drop (Suc i) xs)"
    using assms by (simp add: upd_conv_take_nth_drop)
  ultimately show ?thesis by simp
qed

lemma count_waiting: "count (\<lambda>c. is_busy c \<and> \<not> is_playing c) xs = count is_busy xs - count is_playing xs"
  by (induction xs) (auto simp: is_busy_def is_playing_def conn_states)

lemma get_conn_iff: "get_conn i s = Some c \<longleftrightarrow> i < length (Conn s) \<and> c = Conn s ! i"
  by (auto simp: get_conn_def buf_at_def)

lemma upd_conn_sels [simp]:
  "length (Conn (upd_conn i f s)) = length (Conn s)" "net (upd_conn i f s) = net s"
  "main_loops (upd_conn i f s) = main_loops s" "fps (upd_conn i f s) = fps s"
  "last_packet_of_frame (upd_conn i f s) = last_packet_of_frame s" "Setup (upd_conn i f s) = Setup s"
  "player_heap (upd_conn i f s) = player_heap s" "io (upd_conn i f s) = io s"
  "i < length (Conn s) \<Longrightarrow> Conn (upd_conn i f s) ! i = f (Conn s ! i)"
  by (simp_all add: upd_conn_def)

lemma upd_net_sels [simp]:
  "Conn (upd_net k e s) = Conn s" "net (upd_net k e s) = (net s)(k := e)"
  "main_loops (upd_net k e s) = main_loops s" "fps (upd_net k e s) = fps s"
  "last_packet_of_frame (upd_net k e s) = last_packet_of_frame s" "Setup (upd_net k e s) = Setup s"
  "player_heap (upd_net k e s) = player_heap s" "io (upd_net k e s) = io s"
  by (simp_all add: upd_net_def)

lemma get_conn_ok [simp]: "i < length (Conn s) \<Longrightarrow> get_conn i s = Some (Conn s ! i)"
  by (simp add: get_conn_iff)

lemma playing_bits:
  "valid_state (c_state c) \<Longrightarrow> has_bit (c_state c) (CONN_PLAYING OR CONN_READY) = is_playing c"
  by (auto simp: valid_state_def has_bit_def is_playing_def conn_states)

text \<open>What a state change does to the connection and to everything else.\<close>

definition timeout_of :: "i32 \<Rightarrow> connection \<Rightarrow> int" where
  "timeout_of st c =
     (if st = CONN_PLAYING then IDLE_TIMEOUT else if st = CONN_READY then READY_TIMEOUT
      else if st = CONN_LOGIN then LOGIN_TIMEOUT else if st = CONN_SETUP then SETUP_TIMEOUT
      else if st = CONN_LISTENING then LISTEN_TIMEOUT else if st = CONN_FREE then IDLE_TIMEOUT
      else c_timeout c)"

lemma Conn_set_state_ok:
  assumes "counters_ok s" "i < length (Conn s)" "valid_state st"
  shows "\<exists>s'. Conn_set_state i st drain s = Some s' \<and> counters_ok s' \<and>
    Conn s' = (Conn s)[i := (Conn s ! i)\<lparr>c_state := st, c_drain_state := drain,
                 c_start := main_loops s, c_timeout := timeout_of st (Conn s ! i)\<rparr>] \<and>
    max_connections s' = max_connections s \<and> io s' = io s \<and> net s' = net s \<and>
    player_heap s' = player_heap s \<and> main_loops s' = main_loops s \<and> closed_socks s' = closed_socks s"
proof -
  define cn where "cn = Conn s ! i"
  have v: "valid_state (c_state cn)"
    using assms(1,2) by (simp add: counters_ok_def cn_def)
  define busy where "busy = num_conn_busy s - (if is_busy cn then 1 else 0) + (if st \<noteq> CONN_FREE then 1 else 0)"
  define playing where "playing = num_conn_playing s - (if is_playing cn then 1 else 0) +
    (if st = CONN_PLAYING \<or> st = CONN_READY then 1 else 0)"
  define cn' where "cn' = cn\<lparr>c_state := st, c_drain_state := drain, c_start := main_loops s,
    c_timeout := timeout_of st cn\<rparr>"
  define s' where "s' = s\<lparr>Conn := (Conn s)[i := cn'], num_conn_busy := busy, num_conn_playing := playing,
    login_in_progress := busy - playing\<rparr>"
  have get: "get_conn i s = Some cn" using assms(2) by (simp add: get_conn_iff cn_def)
  have len: "i < length (Conn s)" by (rule assms(2))
  have free: "c_state cn = CONN_FREE \<longleftrightarrow> \<not> is_busy cn" "is_playing cn \<Longrightarrow> is_busy cn"
    by (auto simp: is_busy_def is_playing_def)
  have run: "Conn_set_state i st drain s = Some s'"
  proof -
    from assms(3) consider "st = CONN_FREE" | "st = CONN_LISTENING" | "st = CONN_SETUP"
      | "st = CONN_LOGIN" | "st = CONN_PLAYING" | "st = CONN_DRAIN" | "st = CONN_READY"
      by (auto simp: valid_state_def)
    then show ?thesis
      unfolding Conn_set_state_def get playing_bits [OF v] bind.bind_lunit free(1)
      by cases (use free(2) len in \<open>cases "is_playing cn"; cases "is_busy cn";
        simp add: upd_conn_def cn_def [symmetric] s'_def busy_def playing_def cn'_def timeout_of_def\<close>)+
  qed
  have "counters_ok s'"
    using assms
    unfolding counters_ok_def count_waiting
    by (auto simp: s'_def count_update busy_def playing_def cn_def [symmetric] cn'_def is_busy_def
        is_playing_def dest!: set_update_subset_insert [THEN subsetD])
  with run show ?thesis by (intro exI [of _ s']) (simp add: s'_def cn'_def cn_def)
qed

subsection \<open>The counters stay right\<close>

text \<open>What the connection code needs of the rest of the server: removing a player keeps the
  counters right, creates or deletes no slot, and revives no free connection.\<close>

definition keeps_conns :: "game \<Rightarrow> bool" where
  "keeps_conns G \<longleftrightarrow>
     (\<forall>p s s'. on_player_remove G p s = Some s' \<longrightarrow> counters_ok s \<longrightarrow>
        counters_ok s' \<and> length (Conn s') = length (Conn s) \<and>
        (\<forall>i < length (Conn s). c_state (Conn s ! i) = CONN_FREE \<longrightarrow> c_state (Conn s' ! i) = CONN_FREE))"

lemma counters_cong:
  "Conn s' = Conn s \<Longrightarrow> num_conn_busy s' = num_conn_busy s \<Longrightarrow> num_conn_playing s' = num_conn_playing s \<Longrightarrow>
   login_in_progress s' = login_in_progress s \<Longrightarrow> counters_ok s' = counters_ok s"
  by (simp add: counters_ok_def)

text \<open>Changes of a connection that keep its state.\<close>

lemma counters_upd_conn:
  assumes "counters_ok s" "c_state (f (Conn s ! i)) = c_state (Conn s ! i)"
  shows "counters_ok (upd_conn i f s)"
proof (cases "i < length (Conn s)")
  case True
  have "is_busy (f (Conn s ! i)) = is_busy (Conn s ! i)"
    "is_playing (f (Conn s ! i)) = is_playing (Conn s ! i)"
    using assms(2) by (simp_all add: is_busy_def is_playing_def)
  moreover have "valid_state (c_state (f (Conn s ! i)))" using assms True by (simp add: counters_ok_def)
  ultimately show ?thesis
    using assms(1) True unfolding counters_ok_def count_waiting
    by (auto simp: upd_conn_def count_update dest!: set_update_subset_insert [THEN subsetD])
next
  case False
  then show ?thesis using assms(1) by (simp add: upd_conn_def list_update_beyond counters_ok_def)
qed

lemma send_quit_sels [simp]:
  "Conn (send_quit k p s) = Conn s" "num_conn_busy (send_quit k p s) = num_conn_busy s"
  "num_conn_playing (send_quit k p s) = num_conn_playing s"
  "login_in_progress (send_quit k p s) = login_in_progress s" "io (send_quit k p s) = io s"
  "max_connections (send_quit k p s) = max_connections s" "closed_socks (send_quit k p s) = closed_socks s"
  "player_heap (send_quit k p s) = player_heap s" "main_loops (send_quit k p s) = main_loops s"
  by (auto simp: send_quit_def upd_net_def split: prod.splits)

lemma counters_send_quit [simp]: "counters_ok (send_quit k p s) = counters_ok s"
  by (rule counters_cong) simp_all

text \<open>The steps of a destruction, on a slot in use.\<close>

lemma Destroy_connectionE:
  assumes "Destroy_connection G i msg s = Some s'" "get_conn i s = Some cn" "c_state cn \<noteq> CONN_FREE"
  obtains t s2 s3 where
    "Conn_set_state i CONN_FREE CONN_FREE (send_quit (sb_sock (c_w cn)) (quit_packet msg) (s\<lparr>io := t\<rparr>)) = Some s2"
    "s3 = s2 \<or> (\<exists>p pl. on_player_remove G p ((upd_conn i (\<lambda>c. c\<lparr>c_pl := None\<rparr>) s2)
        \<lparr>player_heap := (player_heap s2)(p \<mapsto> pl\<lparr>pl_connp := None\<rparr>)\<rparr>) = Some s3)"
    "Conn s' = Conn (upd_conn i (\<lambda>_. zero_connection) s3)" "num_conn_busy s' = num_conn_busy s3"
    "num_conn_playing s' = num_conn_playing s3" "login_in_progress s' = login_in_progress s3"
    "max_connections s' = max_connections s3"
proof -
  let ?k = "sb_sock (c_w cn)"
  from assms obtain t s2 cn2 s3 where
    "remove_input ?k (io s) = Inr t" and "get_conn i s2 = Some cn2" and
    s2: "Conn_set_state i CONN_FREE CONN_FREE (send_quit ?k (quit_packet msg) (s\<lparr>io := t\<rparr>)) = Some s2"
    and s3: "(case c_pl cn2 of None \<Rightarrow> Some s2
              | Some p \<Rightarrow> do { pl \<leftarrow> player_heap s2 p;
                  on_player_remove G p ((upd_conn i (\<lambda>c. c\<lparr>c_pl := None\<rparr>) s2)
                    \<lparr>player_heap := (player_heap s2)(p \<mapsto> pl\<lparr>pl_connp := None\<rparr>)\<rparr>) }) = Some s3"
    and s': "s' = (let s4 = upd_conn i (\<lambda>_. zero_connection) s3;
                       s5 = send_quit ?k (quit_packet msg) (s4\<lparr>num_logouts := num_logouts s4 + 1\<rparr>)
                   in s5\<lparr>closed_socks := closed_socks s5 @ [?k]\<rparr>)"
    by (auto simp: Destroy_connection_def Let_def elim!: bind_SomeE split: sum.splits)
  show ?thesis
  proof (rule that [OF s2])
    show "s3 = s2 \<or> (\<exists>p pl. on_player_remove G p ((upd_conn i (\<lambda>c. c\<lparr>c_pl := None\<rparr>) s2)
        \<lparr>player_heap := (player_heap s2)(p \<mapsto> pl\<lparr>pl_connp := None\<rparr>)\<rparr>) = Some s3)"
      using s3 by (auto elim!: bind_SomeE split: option.splits)
  qed (simp_all add: s' Let_def upd_conn_def)
qed

lemma Destroy_connection_ok:
  assumes "counters_ok s" "keeps_conns G" "Destroy_connection G i reason s = Some s'"
  shows "counters_ok s' \<and> length (Conn s') = length (Conn s) \<and> c_state (Conn s' ! i) = CONN_FREE"
proof -
  from assms(3) obtain cn where cn: "get_conn i s = Some cn"
    by (auto simp: Destroy_connection_def elim!: bind_SomeE)
  then have i: "i < length (Conn s)" "cn = Conn s ! i" by (simp_all add: get_conn_iff)
  show ?thesis
  proof (cases "c_state cn = CONN_FREE")
    case True
    then show ?thesis using assms(1,3) cn i by (simp add: Destroy_connection_def)
  next
    case False
    let ?k = "sb_sock (c_w cn)"
    from Destroy_connectionE [OF assms(3) cn False] obtain t s2 s3 where
      s2: "Conn_set_state i CONN_FREE CONN_FREE (send_quit ?k (quit_packet reason) (s\<lparr>io := t\<rparr>)) = Some s2"
      and s3: "s3 = s2 \<or> (\<exists>p pl. on_player_remove G p ((upd_conn i (\<lambda>c. c\<lparr>c_pl := None\<rparr>) s2)
          \<lparr>player_heap := (player_heap s2)(p \<mapsto> pl\<lparr>pl_connp := None\<rparr>)\<rparr>) = Some s3)"
      and s': "Conn s' = Conn (upd_conn i (\<lambda>_. zero_connection) s3)" "num_conn_busy s' = num_conn_busy s3"
        "num_conn_playing s' = num_conn_playing s3" "login_in_progress s' = login_in_progress s3"
      by metis
    have "counters_ok (send_quit ?k (quit_packet reason) (s\<lparr>io := t\<rparr>))"
      using assms(1) counters_cong [of "s\<lparr>io := t\<rparr>" s] by simp
    from Conn_set_state_ok [OF this, of i CONN_FREE CONN_FREE] s2 i
    have c2: "counters_ok s2" "length (Conn s2) = length (Conn s)" "c_state (Conn s2 ! i) = CONN_FREE"
      by (auto simp: valid_state_def)
    have u: "counters_ok ((upd_conn i (\<lambda>c. c\<lparr>c_pl := None\<rparr>) s2)\<lparr>player_heap := h\<rparr>)" for h
      using counters_upd_conn [OF c2(1), of "\<lambda>c. c\<lparr>c_pl := None\<rparr>" i]
        counters_cong [of "(upd_conn i (\<lambda>c. c\<lparr>c_pl := None\<rparr>) s2)\<lparr>player_heap := h\<rparr>"
          "upd_conn i (\<lambda>c. c\<lparr>c_pl := None\<rparr>) s2"] by simp
    have sels: "length (Conn ((upd_conn i (\<lambda>c. c\<lparr>c_pl := None\<rparr>) s2)\<lparr>player_heap := h\<rparr>)) = length (Conn s)"
      "c_state (Conn ((upd_conn i (\<lambda>c. c\<lparr>c_pl := None\<rparr>) s2)\<lparr>player_heap := h\<rparr>) ! i) = CONN_FREE" for h
      using c2 i by (simp_all add: upd_conn_def)
    have c3: "counters_ok s3 \<and> length (Conn s3) = length (Conn s) \<and> c_state (Conn s3 ! i) = CONN_FREE"
      using s3 c2 assms(2) u sels i(1) unfolding keeps_conns_def by metis
    define s4 where "s4 = upd_conn i (\<lambda>_. zero_connection) s3"
    have "counters_ok s4"
      unfolding s4_def
      by (rule counters_upd_conn) (use c3 in \<open>simp_all add: zero_connection_def CONN_FREE_def\<close>)
    moreover have "Conn s' = Conn s4" "num_conn_busy s' = num_conn_busy s4"
      "num_conn_playing s' = num_conn_playing s4" "login_in_progress s' = login_in_progress s4"
      using s' by (simp_all add: s4_def upd_conn_def)
    ultimately have "counters_ok s'" using counters_cong by metis
    then show ?thesis using \<open>Conn s' = Conn s4\<close> c3 i
      by (simp add: s4_def upd_conn_def zero_connection_def CONN_FREE_def)
  qed
qed

lemma setup_scan_free:
  assumes "setup_scan rname nick dpy version mx i cs free = Some (Free_slot k)" "i + length cs \<le> mx"
    "free = mx \<or> free < i"
  shows "k = mx \<or> (k = free \<and> free < i) \<or>
    (free = mx \<and> i \<le> k \<and> k < i + length cs \<and> c_state (cs ! (k - i)) = CONN_FREE)"
    and "\<forall>c \<in> set cs. c_state c \<noteq> CONN_FREE \<longrightarrow> nick_eq (c_nick c) nick = Some False"
  using assms
proof (induction rname nick dpy version mx i cs free rule: setup_scan.induct)
  case (2 rname nick dpy version mx i c cs free)
  {
    case 1
    show ?case
    proof (cases "c_state c = CONN_FREE")
      case True
      have "k = mx \<or> k = (if free = mx then i else free) \<and> (if free = mx then i else free) < Suc i \<or>
          (if free = mx then i else free) = mx \<and> Suc i \<le> k \<and> k < Suc i + length cs \<and>
            c_state (cs ! (k - Suc i)) = CONN_FREE"
        by (rule "2.IH"(1) [OF True]) (use 1 True in \<open>auto split: if_splits\<close>)
      then show ?thesis using 1 True by (auto split: if_splits simp: nth_Cons')
    next
      case False
      from 1 False have n: "nick_eq (c_nick c) nick = Some False"
        "setup_scan rname nick dpy version mx (Suc i) cs free = Some (Free_slot k)"
        by (auto elim!: bind_SomeE split: if_splits)
      have "k = mx \<or> k = free \<and> free < Suc i \<or> free = mx \<and> Suc i \<le> k \<and> k < Suc i + length cs \<and>
          c_state (cs ! (k - Suc i)) = CONN_FREE"
        by (rule "2.IH"(3) [OF False n(1)]) (use 1 n in auto)
      then show ?thesis using 1 False by (auto simp: nth_Cons')
    qed
  next
    case 2
    show ?case
    proof (cases "c_state c = CONN_FREE")
      case True
      then show ?thesis using 2 "2.IH"(2) [OF True] by (auto split: if_splits)
    next
      case False
      from 2 False have n: "nick_eq (c_nick c) nick = Some False"
        "setup_scan rname nick dpy version mx (Suc i) cs free = Some (Free_slot k)"
        by (auto elim!: bind_SomeE split: if_splits)
      then show ?thesis using 2 "2.IH"(4) [OF False n(1)] by auto
    qed
  }
qed auto

lemma Destroy_connection_no_player:
  assumes "counters_ok s" "i < length (Conn s)" "c_pl (Conn s ! i) = None"
    "c_state (Conn s ! i) \<noteq> CONN_FREE" "Destroy_connection G i reason s = Some s'"
  shows "Conn s' = (Conn s)[i := zero_connection] \<and> counters_ok s' \<and> max_connections s' = max_connections s"
proof -
  define cn where "cn = Conn s ! i"
  let ?k = "sb_sock (c_w cn)"
  have get: "get_conn i s = Some cn" using assms(2) by (simp add: get_conn_iff cn_def)
  obtain t where t: "remove_input ?k (io s) = Inr t"
    using assms(4,5) get by (auto simp: Destroy_connection_def cn_def Let_def split: sum.splits)
  define s1 where "s1 = send_quit ?k (quit_packet reason) (s\<lparr>io := t\<rparr>)"
  have "counters_ok s1" using assms(1) counters_cong [of "s\<lparr>io := t\<rparr>" s] by (simp add: s1_def)
  from Conn_set_state_ok [OF this, of i CONN_FREE CONN_FREE] obtain s2 where
    s2: "Conn_set_state i CONN_FREE CONN_FREE s1 = Some s2" "counters_ok s2"
      "Conn s2 = (Conn s)[i := cn\<lparr>c_state := CONN_FREE, c_drain_state := CONN_FREE,
         c_start := main_loops s1, c_timeout := timeout_of CONN_FREE cn\<rparr>]"
      "max_connections s2 = max_connections s"
    using assms(2) by (auto simp: s1_def cn_def valid_state_def)
  then have get2: "get_conn i s2 = Some (Conn s2 ! i)" "c_pl (Conn s2 ! i) = None"
    "c_state (Conn s2 ! i) = CONN_FREE"
    using assms(2,3) by (simp_all add: get_conn_iff cn_def)
  define s4 where "s4 = upd_conn i (\<lambda>_. zero_connection) s2"
  have "counters_ok s4"
    unfolding s4_def
    by (rule counters_upd_conn) (use s2 get2 in \<open>simp_all add: zero_connection_def CONN_FREE_def\<close>)
  moreover have s': "s' = (let s5 = send_quit ?k (quit_packet reason) (s4\<lparr>num_logouts := num_logouts s4 + 1\<rparr>)
      in s5\<lparr>closed_socks := closed_socks s5 @ [?k]\<rparr>)"
    using assms(4,5) get t s2(1) get2
    by (simp add: Destroy_connection_def cn_def [symmetric] Let_def s1_def s4_def)
  then have "Conn s' = Conn s4" "num_conn_busy s' = num_conn_busy s4"
    "num_conn_playing s' = num_conn_playing s4" "login_in_progress s' = login_in_progress s4"
    "max_connections s' = max_connections s4"
    by (simp_all add: Let_def)
  moreover have "Conn s4 = (Conn s)[i := zero_connection]" "max_connections s4 = max_connections s"
    using s2(3,4) by (simp_all add: s4_def upd_conn_def)
  ultimately show ?thesis using counters_cong by metis
qed

subsection \<open>Nick names\<close>

text \<open>Every connection in use has a nick name, and no two the same up to case.\<close>

definition nicks_distinct :: "server \<Rightarrow> bool" where
  "nicks_distinct s \<longleftrightarrow>
     (\<forall>c \<in> set (Conn s). c_state c \<noteq> CONN_FREE \<longrightarrow> (\<exists>x. c_nick c = Some x \<and> 0 \<notin> set x)) \<and>
     (\<forall>i < length (Conn s). \<forall>j < length (Conn s). i \<noteq> j \<longrightarrow>
        c_state (Conn s ! i) \<noteq> CONN_FREE \<longrightarrow> c_state (Conn s ! j) \<noteq> CONN_FREE \<longrightarrow>
        map lower (the (c_nick (Conn s ! i))) \<noteq> map lower (the (c_nick (Conn s ! j))))"

lemma nick_eq_iff:
  assumes "0 \<notin> set x" "0 \<notin> set nick"
  shows "nick_eq (Some x) nick = Some (map lower x = map lower nick)"
  using strcasecmp_strings [OF assms] by (auto simp: nick_eq_def)

lemma nicks_distinct_update:
  assumes "nicks_distinct s" "k < length (Conn s)" "Conn s' = (Conn s)[k := c']"
    "c_state c' \<noteq> CONN_FREE \<Longrightarrow> \<exists>x. c_nick c' = Some x \<and> 0 \<notin> set x \<and>
       (\<forall>i < length (Conn s). i \<noteq> k \<longrightarrow> c_state (Conn s ! i) \<noteq> CONN_FREE \<longrightarrow>
          map lower (the (c_nick (Conn s ! i))) \<noteq> map lower x)"
  shows "nicks_distinct s'"
proof -
  have one: "\<forall>c \<in> set (Conn s'). c_state c \<noteq> CONN_FREE \<longrightarrow> (\<exists>x. c_nick c = Some x \<and> 0 \<notin> set x)"
    using assms unfolding nicks_distinct_def
    by (auto dest!: set_update_subset_insert [THEN subsetD])
  have two: "map lower (the (c_nick (Conn s' ! i))) \<noteq> map lower (the (c_nick (Conn s' ! j)))"
    if "i < length (Conn s')" "j < length (Conn s')" "i \<noteq> j" "c_state (Conn s' ! i) \<noteq> CONN_FREE"
      "c_state (Conn s' ! j) \<noteq> CONN_FREE" for i j
  proof -
    have old: "map lower (the (c_nick (Conn s ! i))) \<noteq> map lower (the (c_nick (Conn s ! j)))"
      if "c_state (Conn s ! i) \<noteq> CONN_FREE" "c_state (Conn s ! j) \<noteq> CONN_FREE"
      using assms(1) \<open>i < length (Conn s')\<close> \<open>j < length (Conn s')\<close> \<open>i \<noteq> j\<close> that
      unfolding nicks_distinct_def assms(3) by simp
    consider "i = k" | "j = k" | "i \<noteq> k" "j \<noteq> k" by blast
    then show ?thesis
    proof cases
      case 1
      with that assms(2,3) obtain x where "c_nick c' = Some x"
        "map lower (the (c_nick (Conn s ! j))) \<noteq> map lower x"
        using assms(4) by auto
      then show ?thesis using 1 that assms(2,3) by simp
    next
      case 2
      with that assms(2,3) obtain x where "c_nick c' = Some x"
        "map lower (the (c_nick (Conn s ! i))) \<noteq> map lower x"
        using assms(4) by auto
      then show ?thesis using 2 that assms(2,3) by simp
    next
      case 3
      then show ?thesis using old that assms(3) by simp
    qed
  qed
  show ?thesis using one two unfolding nicks_distinct_def by blast
qed

lemma setup_scan_same:
  "setup_scan rname nick dpy version mx i cs free = Some (Same_client port) \<Longrightarrow>
   \<exists>c \<in> set cs. c_state c = CONN_LISTENING \<and> nick_eq (c_nick c) nick = Some True \<and>
     c_real c = Some rname \<and> c_dpy c = Some dpy \<and> c_version c = version \<and> c_my_port c = port"
proof (induction rname nick dpy version mx i cs free rule: setup_scan.induct)
  case (2 rname nick dpy version mx i c cs free)
  show ?case
  proof (cases "c_state c = CONN_FREE")
    case True
    then show ?thesis using 2 by auto
  next
    case False
    with 2(3) obtain same where same: "nick_eq (c_nick c) nick = Some same" by (auto elim!: bind_SomeE)
    show ?thesis
    proof (cases same)
      case True
      then show ?thesis using 2(3) False same
        by (auto simp: and_then_def str_eq_def elim!: bind_SomeE split: if_splits)
    next
      case not_same: False
      then show ?thesis using 2(2) [OF False same] 2(3) False same by auto
    qed
  qed
qed simp

lemma client_socket_sels:
  "client_socket E s = (k, s1) \<Longrightarrow> Conn s1 = Conn s \<and> max_connections s1 = max_connections s \<and>
   counters_ok s1 = counters_ok s \<and> io s1 = io s"
  by (auto simp: client_socket_def Let_def counters_ok_def split: if_splits)

lemma new_connection_sels [simp]:
  "c_state (new_connection E rname nick dpy team addr host v free k s c) = c_state c"
  "c_pl (new_connection E rname nick dpy team addr host v free k s c) = None"
  "c_my_port (new_connection E rname nick dpy team addr host v free k s c) = e_port E k"
  "c_nick (new_connection E rname nick dpy team addr host v free k s c) = dup (fst (snd (e_strs E))) nick"
  by (auto simp: new_connection_def split: prod.splits)

text \<open>The outcomes of \<open>Setup_connection\<close>.\<close>

lemma Setup_connection_cases:
  assumes "counters_ok s" "length (Conn s) = max_connections s"
    "Setup_connection G E rname nick dpy team addr host version s = Some (r, s')"
  obtains (refused) "r = -1" "Conn s' = Conn s" "counters_ok s'" "max_connections s' = max_connections s"
  | (same) c where "s' = s" "c \<in> set (Conn s)" "c_state c = CONN_LISTENING"
      "nick_eq (c_nick c) nick = Some True" "c_my_port c = r"
  | (failed) k where "r = -1" "k < length (Conn s)" "c_state (Conn s ! k) = CONN_FREE" "counters_ok s'"
      "Conn s' = (Conn s)[k := zero_connection]" "max_connections s' = max_connections s"
  | (created) k c where "k < length (Conn s)" "c_state (Conn s ! k) = CONN_FREE" "counters_ok s'"
      "Conn s' = (Conn s)[k := c]" "c_state c = CONN_LISTENING" "c_nick c = Some nick"
      "c_my_port c = r" "max_connections s' = max_connections s"
      "\<forall>d \<in> set (Conn s). c_state d \<noteq> CONN_FREE \<longrightarrow> nick_eq (c_nick d) nick = Some False"
proof -
  have all: "take (max_connections s) (Conn s) = Conn s" using assms(2) by simp
  from assms(3) obtain found where
    found: "setup_scan rname nick dpy version (max_connections s) 0 (Conn s) (max_connections s) = Some found"
    unfolding Setup_connection_def all by (auto elim!: bind_SomeE)
  note run = assms(3) [unfolded Setup_connection_def all found bind.bind_lunit]
  show ?thesis
  proof (cases found)
    case (Same_client port)
    have "r = port" "s' = s" using run by (simp_all add: Same_client)
    then show ?thesis using setup_scan_same [OF found [unfolded Same_client]] same by blast
  next
    case Nick_in_use
    have "r = -1" "s' = s" using run by (simp_all add: Nick_in_use)
    then show ?thesis using assms(1) refused by blast
  next
    case (Free_slot k)
    note slot = setup_scan_free [OF found [unfolded Free_slot], of]
    show ?thesis
    proof (cases "k \<ge> max_connections s")
      case True
      then have "r = -1" "s' = s" using run by (simp_all add: Free_slot)
      then show ?thesis using assms(1) refused by blast
    next
      case False
      then have k: "k < length (Conn s)" "c_state (Conn s ! k) = CONN_FREE"
        "\<forall>d \<in> set (Conn s). c_state d \<noteq> CONN_FREE \<longrightarrow> nick_eq (c_nick d) nick = Some False"
        using slot assms(2) by auto
      obtain sock s1 where sock: "client_socket E s = (sock, s1)" by force
      note cs = client_socket_sels [OF sock]
      show ?thesis
      proof (cases "sock = -1 \<or> e_port E sock = -1 \<or> \<not> e_nonblocking E sock")
        case True
        then have "r = -1" "Conn s' = Conn s1" "counters_ok s' = counters_ok s1"
          "max_connections s' = max_connections s1"
          using run Free_slot False sock by (auto split: if_splits simp: counters_ok_def)
        then show ?thesis using cs assms(1) by (intro refused) auto
      next
        case ok: False
        define nc where "nc = new_connection E rname nick dpy team addr host version k sock s1 (Conn s ! k)"
        define s2 where "s2 = upd_conn k (new_connection E rname nick dpy team addr host version k sock s1) s1"
        have nc: "c_state nc = CONN_FREE" "c_pl nc = None" "c_my_port nc = e_port E sock"
          "c_nick nc = dup (fst (snd (e_strs E))) nick"
          using k(2) by (simp_all add: nc_def)
        have s2: "Conn s2 = (Conn s)[k := nc]" "max_connections s2 = max_connections s"
          using cs by (simp_all add: s2_def upd_conn_def nc_def)
        have "counters_ok s2"
          unfolding s2_def by (rule counters_upd_conn) (use cs assms(1) in simp_all)
        moreover have "k < length (Conn s2)" "valid_state CONN_LISTENING"
          using k(1) s2(1) by (simp_all add: valid_state_def)
        ultimately obtain s3 where raw: "Conn_set_state k CONN_LISTENING CONN_FREE s2 = Some s3"
          "counters_ok s3" "Conn s3 = (Conn s2)[k := (Conn s2 ! k)\<lparr>c_state := CONN_LISTENING,
             c_drain_state := CONN_FREE, c_start := main_loops s2,
             c_timeout := timeout_of CONN_LISTENING (Conn s2 ! k)\<rparr>]"
          "max_connections s3 = max_connections s2"
          using Conn_set_state_ok by blast
        have s3: "Conn_set_state k CONN_LISTENING CONN_FREE s2 = Some s3" "counters_ok s3"
            "Conn s3 = (Conn s)[k := nc\<lparr>c_state := CONN_LISTENING, c_drain_state := CONN_FREE,
               c_start := main_loops s2, c_timeout := timeout_of CONN_LISTENING nc\<rparr>]"
            "max_connections s3 = max_connections s"
          using raw k(1) by (simp_all add: s2)
        define cn where "cn = Conn s3 ! k"
        have cn: "cn = nc\<lparr>c_state := CONN_LISTENING, c_drain_state := CONN_FREE,
               c_start := main_loops s2, c_timeout := timeout_of CONN_LISTENING nc\<rparr>"
          "get_conn k s3 = Some cn" "k < length (Conn s3)"
          using k(1) by (simp_all add: cn_def s3(3) get_conn_iff)
        have get1: "get_conn k s1 = Some (Conn s ! k)" using k(1) cs by (simp add: get_conn_iff)
        have step: "(if no_memory cn
            then do { s4 \<leftarrow> Destroy_connection G k (map (of_nat \<circ> of_char) ''no memory'') s3; Some (-1, s4) }
            else (case install_input (Some ()) sock (Some k) (io s3) of
                    Inl _ \<Rightarrow> None | Inr t \<Rightarrow> Some (e_port E sock, s3\<lparr>io := t\<rparr>))) = Some (r, s')"
          using run Free_slot False sock ok get1 s3(1) cn(2) by (simp add: s2_def Let_def)
        show ?thesis
        proof (cases "no_memory cn")
          case True
          then obtain s4 where s4: "Destroy_connection G k (map (of_nat \<circ> of_char) ''no memory'') s3 = Some s4"
            "r = -1" "s' = s4"
            using step by (auto elim!: bind_SomeE)
          have "Conn s4 = (Conn s3)[k := zero_connection] \<and> counters_ok s4 \<and> max_connections s4 = max_connections s3"
            by (rule Destroy_connection_no_player [OF s3(2) cn(3) _ _ s4(1)])
               (use cn(1) nc in \<open>simp_all add: cn_def [symmetric]\<close>)
          then show ?thesis using s3 s4 k by (intro failed [of k]) simp_all
        next
          case mem: False
          then obtain t where t: "r = e_port E sock" "s' = s3\<lparr>io := t\<rparr>"
            using step by (auto split: sum.splits)
          have "c_nick cn = Some nick" using mem cn(1) nc(4) by (auto simp: no_memory_def dup_def split: if_splits)
          moreover have "counters_ok s'" using s3(2) counters_cong [of s' s3] by (simp add: t)
          ultimately show ?thesis
            using k s3 cn(1) nc(3) t by (intro created [of k cn]) simp_all
        qed
      qed
    qed
  qed
qed

text \<open>The state after \<open>Setup_net_server\<close>: all slots zero, the dispatch tables being constants here.\<close>

definition MIN_int :: "int \<Rightarrow> int \<Rightarrow> int" where "MIN_int a b = (if a < b then a else b)"

definition Setup_net_server ::
  "bool \<Rightarrow> bool \<times> bool \<times> bool \<Rightarrow> bool \<Rightarrow> server \<Rightarrow> (int \<times> server) option" where
  "Setup_net_server compress_maps mem conn_mem s =
     do { (r, st) \<leftarrow> Init_setup (World s) (fps s) compress_maps mem;
          (case st of
             None \<Rightarrow> Some (-1, s)
           | Some setup \<Rightarrow>
               (let mx = MIN_int (MAX_SELECT_FD - 5) (int (length (World_base (World s))) + MAX_PAUSED_PLAYERS)
                in if \<not> conn_mem then Some (-1, s\<lparr>Setup := setup, max_connections := nat mx\<rparr>)
                   else Some (0, s\<lparr>Setup := setup, max_connections := nat mx,
                                   Conn := replicate (nat mx) zero_connection\<rparr>))) }"

definition started :: "server \<Rightarrow> bool" where
  "started s \<longleftrightarrow> (\<exists>cm mem s0. Setup_net_server cm mem True s0 = Some (0, s) \<and>
     num_conn_busy s0 = 0 \<and> num_conn_playing s0 = 0 \<and> login_in_progress s0 = 0)"

text \<open>What happens to the connections while the server runs: connections are set up, change state or
  are destroyed, and everything else leaves the states and the counters alone.\<close>

inductive conn_step :: "game \<Rightarrow> server \<Rightarrow> server \<Rightarrow> bool" for G where
  set_up: "Setup_connection G E rname nick dpy team addr host version s = Some (r, s') \<Longrightarrow> conn_step G s s'"
| change: "Conn_set_state i st drain s = Some s' \<Longrightarrow> valid_state st \<Longrightarrow> conn_step G s s'"
| destroy: "Destroy_connection G i reason s = Some s' \<Longrightarrow> conn_step G s s'"
| other: "map c_state (Conn s') = map c_state (Conn s) \<Longrightarrow> num_conn_busy s' = num_conn_busy s \<Longrightarrow>
    num_conn_playing s' = num_conn_playing s \<Longrightarrow> login_in_progress s' = login_in_progress s \<Longrightarrow>
    max_connections s' = max_connections s \<Longrightarrow> conn_step G s s'"

inductive reachable :: "game \<Rightarrow> server \<Rightarrow> bool" for G where
  start: "started s \<Longrightarrow> reachable G s"
| step: "reachable G s \<Longrightarrow> conn_step G s s' \<Longrightarrow> length (Conn s') = max_connections s' \<Longrightarrow> reachable G s'"

lemma count_state: "map c_state xs = map c_state ys \<Longrightarrow>
  count is_busy xs = count is_busy ys \<and> count is_playing xs = count is_playing ys"
proof (induction xs arbitrary: ys)
  case (Cons x xs)
  then obtain y zs where "ys = y # zs" "c_state x = c_state y" "map c_state xs = map c_state zs"
    by (cases ys) auto
  then show ?case using Cons.IH [of zs] by (simp add: is_busy_def is_playing_def)
qed simp

lemma started_ok: "started s \<Longrightarrow> counters_ok s \<and> length (Conn s) = max_connections s"
proof -
  assume "started s"
  then have c: "\<forall>c \<in> set (Conn s). c_state c = CONN_FREE" "length (Conn s) = max_connections s"
    "num_conn_busy s = 0" "num_conn_playing s = 0" "login_in_progress s = 0"
    by (auto simp: started_def Setup_net_server_def Let_def zero_connection_def CONN_FREE_def
        elim!: bind_SomeE split: option.splits if_splits)
  have "count is_busy (Conn s) = 0" "count is_playing (Conn s) = 0"
    using c(1) by (auto simp: count_def is_busy_def is_playing_def filter_empty_conv)
  then show ?thesis using c by (auto simp: counters_ok_def count_waiting valid_state_def)
qed

lemma conn_step_counters:
  assumes "conn_step G s s'" "keeps_conns G" "counters_ok s" "length (Conn s) = max_connections s"
  shows "counters_ok s'"
  using assms
proof (cases rule: conn_step.cases)
  case (set_up E rname nick dpy team addr host version r)
  then show ?thesis by (cases rule: Setup_connection_cases [OF assms(3,4)]) (use assms(3) in auto)
next
  case (change i st drain)
  then have "i < length (Conn s)" by (auto simp: Conn_set_state_def get_conn_iff elim!: bind_SomeE)
  from Conn_set_state_ok [OF assms(3) this change(2), of drain] change(1) show ?thesis by auto
next
  case (destroy i reason)
  then show ?thesis using Destroy_connection_ok [OF assms(3,2)] by blast
next
  case other
  have "set (map c_state (Conn s')) = set (map c_state (Conn s))" using other(1) by simp
  then have "\<forall>c \<in> set (Conn s'). valid_state (c_state c)"
    using assms(3) unfolding counters_ok_def set_map by (metis image_iff)
  then show ?thesis
    using assms(3) other count_state [OF other(1)] unfolding counters_ok_def count_waiting by simp
qed

text \<open>C8. Whatever happens to the connections after the server has started, the counter of busy
  connections equals the number of slots in use, the counter of playing ones the number of slots that
  are playing or ready, and \<open>login_in_progress\<close>, the value the main loop acts on, the number of
  connections between the two.\<close>

theorem login_in_progress_counts:
  assumes "reachable G s" "keeps_conns G"
  shows "num_conn_busy s = count (\<lambda>c. c_state c \<noteq> CONN_FREE) (Conn s) \<and>
    num_conn_playing s = count (\<lambda>c. c_state c = CONN_PLAYING \<or> c_state c = CONN_READY) (Conn s) \<and>
    login_in_progress s =
      count (\<lambda>c. c_state c \<noteq> CONN_FREE \<and> c_state c \<noteq> CONN_PLAYING \<and> c_state c \<noteq> CONN_READY) (Conn s)"
proof -
  have "counters_ok s \<and> length (Conn s) = max_connections s"
    using assms(1)
  proof induction
    case (start s)
    then show ?case by (rule started_ok)
  next
    case (step s s')
    then show ?case using conn_step_counters [OF _ assms(2)] by blast
  qed
  then show ?thesis by (simp add: counters_ok_def is_busy_def [abs_def] is_playing_def [abs_def])
qed

text \<open>A rest of the server that does nothing, a server, and answers of the operating system.\<close>

definition quiet_game :: game where
  "quiet_game = \<lparr>on_player_remove = (\<lambda>p s. Some s), on_keyboard = (\<lambda>p s. Some s),
     on_player_command = (\<lambda>p c s. Some s), on_talk = (\<lambda>i c s. Some s),
     on_pointer_move = (\<lambda>p m s. Some s), on_message = (\<lambda>m s. Some s),
     on_login = (\<lambda>i s. Some (Refused, s)), on_enter = (\<lambda>p s. Some s), on_shape = (\<lambda>str. None)\<rparr>"

lemma quiet_keeps: "keeps_conns quiet_game"
  by (simp add: keeps_conns_def quiet_game_def)

definition demo_env :: setup_env where
  "demo_env = \<lparr>e_create = (\<lambda>p. 5), e_port = (\<lambda>k. 4000), e_nonblocking = (\<lambda>k. True), e_rand = 9,
     e_bufs = (Some (\<lambda>_. 0), Some (\<lambda>_. 0), Some (\<lambda>_. 0)), e_strs = (True, True, True, True, True)\<rparr>"

definition empty_os :: os where
  "empty_os = \<lparr>os_errno = ENONE, os_sends = [], os_recvs = [], os_sockerrs = [], os_sent = []\<rparr>"

definition demo_setup :: setup_t where
  "demo_setup = \<lparr>setup_size = 0, map_data_len = 0, s_mode = 0, s_lives = 0, s_x = 0, s_y = 0,
     frames_per_second = 0, map_order = 0, s_name = [], s_author = [], map_data = []\<rparr>"

definition demo_server0 :: server where
  "demo_server0 = \<lparr>Conn = [], max_connections = 0, Setup = demo_setup, World = demo_world,
     num_conn_busy = 0, num_conn_playing = 0, login_in_progress = 0, num_logins = 0, num_logouts = 0,
     main_loops = 100, frame_loops = 50, fps = 14, last_packet_of_frame = False, clientPortStart = 0,
     clientPortEnd = 0, net = (\<lambda>_. empty_os), closed_socks = [],
     io = \<lparr>input_handlers = replicate 32 no_handler, input_mask = {}, max_fd = 0, min_fd = 0,
           input_inited = False\<rparr>, player_heap = Map.empty\<rparr>"

lemma demo_started: "\<exists>s. Setup_net_server False (True, True, True) True demo_server0 = Some (0, s) \<and>
  started s \<and> Conn s = replicate 9 zero_connection \<and> max_connections s = 9 \<and> io s = io demo_server0 \<and>
  clientPortStart s = 0 \<and> clientPortEnd s = 0"
proof -
  have p: "List.product [0..<2] [0..<2] = [(0, 0), (0, 1), (1, 0), (1, 1 :: nat)]"
    by (simp add: upt_rec)
  have "World_base demo_world = [\<lparr>base_id = 0, base_dir = DIR_LEFT, base_team = Some 2\<rparr>]"
    by (simp add: demo_world_def)
  then have "\<exists>s. Setup_net_server False (True, True, True) True demo_server0 = Some (0, s) \<and>
    Conn s = replicate 9 zero_connection \<and> max_connections s = 9 \<and> io s = io demo_server0 \<and>
    clientPortStart s = 0 \<and> clientPortEnd s = 0"
    by (simp add: Setup_net_server_def demo_server0_def Init_setup_def world_blocks_def p demo_world_def
        buf_at_def setup_cell_def block_defs dir_defs base_setup_def MIN_int_def MAX_SELECT_FD_def
        MAX_PAUSED_PLAYERS_def Let_def)
  moreover have "num_conn_busy demo_server0 = 0" "num_conn_playing demo_server0 = 0"
    "login_in_progress demo_server0 = 0"
    by (simp_all add: demo_server0_def)
  ultimately show ?thesis unfolding started_def by blast
qed

theorem login_in_progress_counts_witness:
  "\<exists>s. reachable quiet_game s \<and> max_connections s = 9 \<and>
    num_conn_busy s = count (\<lambda>c. c_state c \<noteq> CONN_FREE) (Conn s) \<and>
    num_conn_playing s = count (\<lambda>c. c_state c = CONN_PLAYING \<or> c_state c = CONN_READY) (Conn s) \<and>
    login_in_progress s =
      count (\<lambda>c. c_state c \<noteq> CONN_FREE \<and> c_state c \<noteq> CONN_PLAYING \<and> c_state c \<noteq> CONN_READY) (Conn s)"
proof -
  obtain s where s: "started s" "max_connections s = 9" using demo_started by blast
  then have "reachable quiet_game s" by (intro reachable.start)
  with login_in_progress_counts [OF this quiet_keeps] s show ?thesis by blast
qed

text \<open>One call keeps the names distinct, whatever its outcome, and a port is only returned for a
  listening connection that carries the requested name.\<close>

lemma Setup_connection_nicks:
  assumes "counters_ok s" "length (Conn s) = max_connections s" "nicks_distinct s" "0 \<notin> set nick"
    "Setup_connection G E rname nick dpy team addr host version s = Some (r, s')"
  shows "nicks_distinct s' \<and> (r \<noteq> -1 \<longrightarrow> (\<exists>c \<in> set (Conn s'). c_state c = CONN_LISTENING \<and>
    nick_eq (c_nick c) nick = Some True \<and> c_my_port c = r))"
proof (cases rule: Setup_connection_cases [OF assms(1,2,5)])
  case 1
  then show ?thesis using assms(3) by (simp add: nicks_distinct_def)
next
  case (2 c)
  then show ?thesis using assms(3) by auto
next
  case (3 k)
  then show ?thesis
    using nicks_distinct_update [OF assms(3) 3(2,5)] by (simp add: zero_connection_def CONN_FREE_def)
next
  case (4 k c)
  have "map lower (the (c_nick (Conn s ! i))) \<noteq> map lower nick"
    if i: "i < length (Conn s)" and used: "c_state (Conn s ! i) \<noteq> CONN_FREE" for i
  proof -
    have mem: "Conn s ! i \<in> set (Conn s)" using i by simp
    then obtain x where x: "c_nick (Conn s ! i) = Some x" "0 \<notin> set x"
      using assms(3) used unfolding nicks_distinct_def by blast
    moreover have "nick_eq (c_nick (Conn s ! i)) nick = Some False" using 4(9) mem used by blast
    ultimately show ?thesis using nick_eq_iff [OF x(2) assms(4)] by simp
  qed
  then have "nicks_distinct s'"
    using nicks_distinct_update [OF assms(3) 4(1,4)] 4(6) assms(4) by blast
  moreover have "c \<in> set (Conn s')" using 4(1,4) by (simp add: set_update_memI)
  moreover have "nick_eq (c_nick c) nick = Some True"
    using nick_eq_iff [OF assms(4,4)] 4(6) by simp
  ultimately show ?thesis using 4(5,7) by blast
qed

subsection \<open>Nick names over the life of the server\<close>

text \<open>What the names need of the rest of the server, beyond \<open>keeps_conns\<close>: removing a player renames
  no connection in use.\<close>

definition keeps_nicks :: "game \<Rightarrow> bool" where
  "keeps_nicks G \<longleftrightarrow> keeps_conns G \<and>
     (\<forall>p s s'. on_player_remove G p s = Some s' \<longrightarrow> max_connections s' = max_connections s \<and>
        (\<forall>i < length (Conn s). c_state (Conn s' ! i) \<noteq> CONN_FREE \<longrightarrow>
           c_nick (Conn s' ! i) = c_nick (Conn s ! i)))"

text \<open>The life of the connections with their names: as \<open>conn_step\<close>, where a connection is set up
  with a C string for a name, a state changes only of a connection in use, as every call outside
  \<open>Setup_connection\<close> does, and everything else leaves the states and the names alone.\<close>

inductive nick_reachable :: "game \<Rightarrow> server \<Rightarrow> bool" for G where
  start: "started s \<Longrightarrow> nick_reachable G s"
| set_up: "nick_reachable G s \<Longrightarrow> 0 \<notin> set nick \<Longrightarrow>
    Setup_connection G E rname nick dpy team addr host version s = Some (r, s') \<Longrightarrow> nick_reachable G s'"
| change: "nick_reachable G s \<Longrightarrow> valid_state st \<Longrightarrow> get_conn i s = Some cn \<Longrightarrow>
    c_state cn \<noteq> CONN_FREE \<Longrightarrow> Conn_set_state i st drain s = Some s' \<Longrightarrow> nick_reachable G s'"
| destroy: "nick_reachable G s \<Longrightarrow> Destroy_connection G i reason s = Some s' \<Longrightarrow> nick_reachable G s'"
| other: "nick_reachable G s \<Longrightarrow> map c_state (Conn s') = map c_state (Conn s) \<Longrightarrow>
    map c_nick (Conn s') = map c_nick (Conn s) \<Longrightarrow> num_conn_busy s' = num_conn_busy s \<Longrightarrow>
    num_conn_playing s' = num_conn_playing s \<Longrightarrow> login_in_progress s' = login_in_progress s \<Longrightarrow>
    max_connections s' = max_connections s \<Longrightarrow> nick_reachable G s'"

text \<open>Names stay distinct when no connection comes into use and those in use keep their names.\<close>

lemma nicks_distinct_mono:
  assumes "nicks_distinct s" "length (Conn s') = length (Conn s)"
    "\<And>i. i < length (Conn s) \<Longrightarrow> c_state (Conn s' ! i) \<noteq> CONN_FREE \<Longrightarrow>
       c_state (Conn s ! i) \<noteq> CONN_FREE \<and> c_nick (Conn s' ! i) = c_nick (Conn s ! i)"
  shows "nicks_distinct s'"
proof -
  have "\<exists>x. c_nick c = Some x \<and> 0 \<notin> set x" if c: "c \<in> set (Conn s')" "c_state c \<noteq> CONN_FREE" for c
  proof -
    from c obtain i where i: "i < length (Conn s)" "c = Conn s' ! i"
      using assms(2) by (metis in_set_conv_nth)
    with assms(3) [OF i(1)] c have "c_state (Conn s ! i) \<noteq> CONN_FREE" "c_nick c = c_nick (Conn s ! i)"
      by simp_all
    moreover have "Conn s ! i \<in> set (Conn s)" using i(1) by simp
    ultimately show ?thesis using assms(1) unfolding nicks_distinct_def by metis
  qed
  then show ?thesis using assms unfolding nicks_distinct_def by simp
qed

lemma Destroy_connection_nicks:
  assumes "counters_ok s" "keeps_nicks G" "nicks_distinct s" "Destroy_connection G i reason s = Some s'"
  shows "nicks_distinct s' \<and> max_connections s' = max_connections s"
proof -
  from assms(4) obtain cn where cn: "get_conn i s = Some cn"
    by (auto simp: Destroy_connection_def elim!: bind_SomeE)
  then have i: "i < length (Conn s)" "cn = Conn s ! i" by (simp_all add: get_conn_iff)
  show ?thesis
  proof (cases "c_state cn = CONN_FREE")
    case True
    then show ?thesis using assms(3,4) cn by (simp add: Destroy_connection_def)
  next
    case False
    let ?k = "sb_sock (c_w cn)"
    from Destroy_connectionE [OF assms(4) cn False] obtain t s2 s3 where
      s2: "Conn_set_state i CONN_FREE CONN_FREE (send_quit ?k (quit_packet reason) (s\<lparr>io := t\<rparr>)) = Some s2"
      and s3: "s3 = s2 \<or> (\<exists>p pl. on_player_remove G p ((upd_conn i (\<lambda>c. c\<lparr>c_pl := None\<rparr>) s2)
          \<lparr>player_heap := (player_heap s2)(p \<mapsto> pl\<lparr>pl_connp := None\<rparr>)\<rparr>) = Some s3)"
      and s': "Conn s' = Conn (upd_conn i (\<lambda>_. zero_connection) s3)"
        "max_connections s' = max_connections s3"
      by metis
    have "counters_ok (send_quit ?k (quit_packet reason) (s\<lparr>io := t\<rparr>))"
      using assms(1) counters_cong [of "s\<lparr>io := t\<rparr>" s] by simp
    from Conn_set_state_ok [OF this, of i CONN_FREE CONN_FREE] s2 i
    have c2: "counters_ok s2" "max_connections s2 = max_connections s"
      and conn2: "Conn s2 = (Conn s)[i := cn\<lparr>c_state := CONN_FREE, c_drain_state := CONN_FREE,
         c_start := main_loops s, c_timeout := timeout_of CONN_FREE cn\<rparr>]"
      by (auto simp: valid_state_def)
    have n2: "nicks_distinct s2"
      by (rule nicks_distinct_update [OF assms(3) i(1) conn2]) simp
    have l2: "length (Conn s2) = length (Conn s)" by (simp add: conn2)
    have n3: "nicks_distinct s3 \<and> length (Conn s3) = length (Conn s) \<and>
        max_connections s3 = max_connections s"
    proof (cases "s3 = s2")
      case True
      then show ?thesis using n2 l2 c2(2) by simp
    next
      case not2: False
      then obtain p pl where rm: "on_player_remove G p ((upd_conn i (\<lambda>c. c\<lparr>c_pl := None\<rparr>) s2)
          \<lparr>player_heap := (player_heap s2)(p \<mapsto> pl\<lparr>pl_connp := None\<rparr>)\<rparr>) = Some s3"
        using s3 by blast
      define u where "u = (upd_conn i (\<lambda>c. c\<lparr>c_pl := None\<rparr>) s2)
          \<lparr>player_heap := (player_heap s2)(p \<mapsto> pl\<lparr>pl_connp := None\<rparr>)\<rparr>"
      have cu: "Conn u = (Conn s2)[i := (Conn s2 ! i)\<lparr>c_pl := None\<rparr>]" "max_connections u = max_connections s2"
        by (simp_all add: u_def upd_conn_def)
      have "counters_ok (upd_conn i (\<lambda>c. c\<lparr>c_pl := None\<rparr>) s2)"
        by (rule counters_upd_conn [OF c2(1)]) simp
      then have "counters_ok u"
        using counters_cong [of u "upd_conn i (\<lambda>c. c\<lparr>c_pl := None\<rparr>) s2"] by (simp add: u_def)
      note rmu = rm [folded u_def]
      have kc: "length (Conn s3) = length (Conn u)"
        "\<forall>j < length (Conn u). c_state (Conn u ! j) = CONN_FREE \<longrightarrow> c_state (Conn s3 ! j) = CONN_FREE"
        using assms(2) rmu \<open>counters_ok u\<close> unfolding keeps_nicks_def keeps_conns_def by blast+
      have kn: "max_connections s3 = max_connections u"
        "\<forall>j < length (Conn u). c_state (Conn s3 ! j) \<noteq> CONN_FREE \<longrightarrow>
           c_nick (Conn s3 ! j) = c_nick (Conn u ! j)"
        using assms(2) rmu unfolding keeps_nicks_def by blast+
      have "nicks_distinct u"
      proof (rule nicks_distinct_mono [OF n2])
        fix j
        assume "j < length (Conn s2)" "c_state (Conn u ! j) \<noteq> CONN_FREE"
        then show "c_state (Conn s2 ! j) \<noteq> CONN_FREE \<and> c_nick (Conn u ! j) = c_nick (Conn s2 ! j)"
          by (cases "j = i") (simp_all add: cu)
      qed (simp add: cu)
      then have "nicks_distinct s3"
        by (rule nicks_distinct_mono) (use kc kn in blast)+
      then show ?thesis using kc(1) kn(1) cu c2(2) l2 by simp
    qed
    have "Conn s' = (Conn s3)[i := zero_connection]" using s'(1) by (simp add: upd_conn_def)
    then have "nicks_distinct s'"
      by (rule nicks_distinct_update [of s3 i s' zero_connection, rotated 2])
         (use n3 i(1) in \<open>simp_all add: zero_connection_def CONN_FREE_def\<close>)
    then show ?thesis using n3 s'(2) by simp
  qed
qed

lemma started_nicks: "started s \<Longrightarrow> nicks_distinct s"
  by (auto simp: started_def Setup_net_server_def Let_def zero_connection_def CONN_FREE_def
      nicks_distinct_def elim!: bind_SomeE split: option.splits if_splits)

lemma nick_reachable_ok:
  assumes "nick_reachable G s" "keeps_nicks G"
  shows "counters_ok s \<and> length (Conn s) = max_connections s \<and> nicks_distinct s"
  using assms(1)
proof induction
  case (start s)
  then show ?case using started_ok started_nicks by blast
next
  case (set_up s nick E rname dpy team addr host version r s')
  then have ok: "counters_ok s" "length (Conn s) = max_connections s" by simp_all
  from set_up Setup_connection_nicks [OF ok _ set_up(2,3)] have "nicks_distinct s'" by blast
  moreover have "counters_ok s' \<and> length (Conn s') = max_connections s'"
    by (cases rule: Setup_connection_cases [OF ok set_up(3)]) (use ok in auto)
  ultimately show ?case by simp
next
  case (change s st i cn drain s')
  then have i: "i < length (Conn s)" "cn = Conn s ! i" by (simp_all add: get_conn_iff)
  from change have ok: "counters_ok s" "length (Conn s) = max_connections s" "nicks_distinct s" by simp_all
  from Conn_set_state_ok [OF ok(1) i(1) change(2), of drain] change(5)
  have s': "counters_ok s'" "max_connections s' = max_connections s"
    and conn: "Conn s' = (Conn s)[i := cn\<lparr>c_state := st, c_drain_state := drain, c_start := main_loops s,
      c_timeout := timeout_of st cn\<rparr>]" using i(2) by auto
  have "nicks_distinct s'"
  proof (rule nicks_distinct_mono [OF ok(3)])
    fix j
    assume "j < length (Conn s)" "c_state (Conn s' ! j) \<noteq> CONN_FREE"
    then show "c_state (Conn s ! j) \<noteq> CONN_FREE \<and> c_nick (Conn s' ! j) = c_nick (Conn s ! j)"
      using change(4) i by (cases "j = i") (simp_all add: conn)
  qed (simp add: conn)
  then show ?case using s' ok(2) by (simp add: conn)
next
  case (destroy s i reason s')
  then show ?case
    using Destroy_connection_nicks [OF _ assms(2) _ destroy(2)]
      Destroy_connection_ok [OF _ _ destroy(2)] assms(2) unfolding keeps_nicks_def by simp
next
  case (other s s')
  then have ok: "counters_ok s" "length (Conn s) = max_connections s" "nicks_distinct s" by simp_all
  have len: "length (Conn s') = length (Conn s)" using other(2) by (metis length_map)
  have st: "c_state (Conn s' ! j) = c_state (Conn s ! j) \<and> c_nick (Conn s' ! j) = c_nick (Conn s ! j)"
    if "j < length (Conn s)" for j
    using other(2,3) that len by (metis nth_map)
  have "nicks_distinct s'" by (rule nicks_distinct_mono [OF ok(3) len]) (use st in simp)
  moreover have "conn_step G s s'" by (rule conn_step.other) (use other in simp_all)
  then have "counters_ok s'" by (rule conn_step_counters)
      (use ok assms(2) in \<open>simp_all add: keeps_nicks_def\<close>)
  ultimately show ?case using len ok(2) other(7) by simp
qed

text \<open>C14. In every state the server can reach from its start, through any sequence of connections
  being set up, changing state and being destroyed, every connection in use has a nick name and the
  names of two different connections in use differ under \<open>strcasecmp\<close>; and when a further
  \<open>Setup_connection\<close> returns a port, this is the port of a listening connection that carries the
  requested name.\<close>

theorem nick_names_unique:
  assumes "nick_reachable G s" "keeps_nicks G"
  shows "(\<forall>i j. i < length (Conn s) \<and> j < length (Conn s) \<and> i \<noteq> j \<and>
       c_state (Conn s ! i) \<noteq> CONN_FREE \<and> c_state (Conn s ! j) \<noteq> CONN_FREE \<longrightarrow>
       (\<exists>x y. c_nick (Conn s ! i) = Some x \<and> c_nick (Conn s ! j) = Some y \<and>
          (\<exists>d. strcasecmp (x @ [0]) (y @ [0]) = Some d \<and> d \<noteq> 0))) \<and>
    (\<forall>E rname nick dpy team addr host version r s'. 0 \<notin> set nick \<longrightarrow>
       Setup_connection G E rname nick dpy team addr host version s = Some (r, s') \<longrightarrow> r \<noteq> -1 \<longrightarrow>
       (\<exists>c \<in> set (Conn s'). c_state c = CONN_LISTENING \<and> nick_eq (c_nick c) nick = Some True \<and>
          c_my_port c = r))"
proof -
  have ok: "counters_ok s" "length (Conn s) = max_connections s" "nicks_distinct s"
    using nick_reachable_ok [OF assms] by simp_all
  have one: "\<exists>x y. c_nick (Conn s ! i) = Some x \<and> c_nick (Conn s ! j) = Some y \<and>
          (\<exists>d. strcasecmp (x @ [0]) (y @ [0]) = Some d \<and> d \<noteq> 0)"
    if ij: "i < length (Conn s)" "j < length (Conn s)" "i \<noteq> j" and
      busy: "c_state (Conn s ! i) \<noteq> CONN_FREE" "c_state (Conn s ! j) \<noteq> CONN_FREE" for i j
  proof -
    have "Conn s ! i \<in> set (Conn s)" "Conn s ! j \<in> set (Conn s)" using ij by simp_all
    with busy ok(3) obtain x y where xy: "c_nick (Conn s ! i) = Some x" "0 \<notin> set x"
        "c_nick (Conn s ! j) = Some y" "0 \<notin> set y"
      unfolding nicks_distinct_def by metis
    moreover have "map lower x \<noteq> map lower y"
      using ok(3) ij busy xy(1,3) unfolding nicks_distinct_def by (metis option.sel)
    ultimately show ?thesis using strcasecmp_strings [OF xy(2,4)] by auto
  qed
  have two: "\<exists>c \<in> set (Conn s'). c_state c = CONN_LISTENING \<and> nick_eq (c_nick c) nick = Some True \<and>
          c_my_port c = r"
    if "0 \<notin> set nick" "Setup_connection G E rname nick dpy team addr host version s = Some (r, s')" "r \<noteq> -1"
    for E rname nick dpy team addr host version r s'
    using Setup_connection_nicks [OF ok that(1,2)] that(3) by blast
  show ?thesis using one two by blast
qed

text \<open>Two clients arrive.\<close>

lemma demo_setup_at:
  assumes "setup_scan [82] [n] [68] 0x4401 9 0 (Conn s) 9 = Some (Free_slot k)" "k < 9"
    "length (Conn s) = 9" "max_connections s = 9" "Conn s ! k = zero_connection"
    "clientPortStart s = 0" "clientPortEnd s = 0"
    "install_input (Some ()) sock (Some k) (io s) = Inr t" "sock \<noteq> -1"
  shows "\<exists>s' c. Setup_connection quiet_game (demo_env\<lparr>e_create := (\<lambda>p. sock)\<rparr>) [82] [n] [68] 2 [65] [72]
      0x4401 s = Some (4000, s') \<and> Conn s' = (Conn s)[k := c] \<and> c_state c = CONN_LISTENING \<and>
    c_nick c = Some [n] \<and> io s' = t \<and> max_connections s' = 9 \<and> clientPortStart s' = 0 \<and>
    clientPortEnd s' = 0"
proof -
  define E where "E = demo_env\<lparr>e_create := (\<lambda>p. sock)\<rparr>"
  define nc where "nc = new_connection E [82] [n] [68] 2 [65] [72] 0x4401 k sock s zero_connection"
  define s2 where "s2 = upd_conn k (new_connection E [82] [n] [68] 2 [65] [72] 0x4401 k sock s) s"
  have bits: "\<not> has_bit 0 (CONN_PLAYING OR CONN_READY)" by (simp add: has_bit_def)
  have get: "get_conn k s2 = Some nc" "Conn s2 = (Conn s)[k := nc]" "io s2 = io s"
    "max_connections s2 = 9" "clientPortStart s2 = 0" "clientPortEnd s2 = 0"
    using assms by (simp_all add: s2_def get_conn_iff upd_conn_def nc_def)
  have nc: "c_state nc = 0" "\<not> no_memory nc" "c_nick nc = Some [n]"
    by (simp_all add: nc_def E_def demo_env_def no_memory_def new_connection_def Sockbuf_init_def dup_def
        zero_connection_def)
  define cn where "cn = nc\<lparr>c_state := CONN_LISTENING, c_drain_state := CONN_FREE,
    c_start := main_loops s2, c_timeout := LISTEN_TIMEOUT\<rparr>"
  obtain s3 where s3: "Conn_set_state k CONN_LISTENING CONN_FREE s2 = Some s3"
    "Conn s3 = (Conn s)[k := cn]" "io s3 = io s" "max_connections s3 = 9"
    "clientPortStart s3 = 0" "clientPortEnd s3 = 0"
    using assms(2,3) by (simp add: Conn_set_state_def get nc(1) bits CONN_FREE_def upd_conn_def Let_def
        CONN_LISTENING_def CONN_PLAYING_def CONN_READY_def CONN_LOGIN_def CONN_SETUP_def cn_def)
  have cn: "get_conn k s3 = Some cn" "\<not> no_memory cn"
    using assms(2,3) s3(2) nc(2) by (simp_all add: get_conn_iff cn_def no_memory_def)
  have "client_socket E s = (sock, s)"
    using assms(6,7) by (simp add: client_socket_def E_def demo_env_def)
  moreover have "get_conn k s = Some zero_connection"
    using assms(2,3,5) by (simp add: get_conn_iff)
  moreover have "e_port E sock = 4000" "e_nonblocking E sock" by (simp_all add: E_def demo_env_def)
  ultimately have "Setup_connection quiet_game E [82] [n] [68] 2 [65] [72] 0x4401 s =
      Some (4000, s3\<lparr>io := t\<rparr>)"
    using assms s3(1,3) cn by (simp add: Setup_connection_def s2_def [symmetric])
  then show ?thesis using s3 nc(3) by (auto simp: E_def cn_def)
qed

theorem nick_names_unique_witness:
  "\<exists>s. nick_reachable quiet_game s \<and> length (Conn s) = 9 \<and>
    c_state (Conn s ! 0) \<noteq> CONN_FREE \<and> c_state (Conn s ! 1) \<noteq> CONN_FREE \<and>
    (\<forall>i j. i < length (Conn s) \<and> j < length (Conn s) \<and> i \<noteq> j \<and>
       c_state (Conn s ! i) \<noteq> CONN_FREE \<and> c_state (Conn s ! j) \<noteq> CONN_FREE \<longrightarrow>
       (\<exists>x y. c_nick (Conn s ! i) = Some x \<and> c_nick (Conn s ! j) = Some y \<and>
          (\<exists>d. strcasecmp (x @ [0]) (y @ [0]) = Some d \<and> d \<noteq> 0)))"
proof -
  obtain s where s: "started s" "Conn s = replicate 9 zero_connection" "max_connections s = 9"
    "io s = io demo_server0" "clientPortStart s = 0" "clientPortEnd s = 0"
    using demo_started by blast
  have r9: "replicate 9 x = [x, x, x, x, x, x, x, x, x]" for x :: connection
    by (simp add: eval_nat_numeral)
  have z: "c_state zero_connection = CONN_FREE" by (simp add: zero_connection_def CONN_FREE_def)
  obtain t1 t2 where t: "install_input (Some ()) 5 (Some 0) (io s) = Inr t1"
    "install_input (Some ()) 6 (Some 1) t1 = Inr t2"
    by (simp add: s(4) demo_server0_def install_input_def init_inputs_def NUM_SELECT_FD_def FD_SETSIZE_def)
  obtain s1 c1 where s1: "Setup_connection quiet_game (demo_env\<lparr>e_create := (\<lambda>p. 5)\<rparr>) [82] [78] [68] 2
      [65] [72] 0x4401 s = Some (4000, s1)" "Conn s1 = (replicate 9 zero_connection)[0 := c1]"
    "c_state c1 = CONN_LISTENING" "c_nick c1 = Some [78]" "io s1 = t1" "max_connections s1 = 9"
    "clientPortStart s1 = 0" "clientPortEnd s1 = 0"
    using demo_setup_at [of 78 s 0 5 t1] s t(1) z by (auto simp: r9)
  have "nick_eq (Some [78]) [79] = Some False"
    using nick_eq_iff [of "[78]" "[79]"] by (simp add: lower_def tolower_def)
  then obtain s2 c2 where s2: "Setup_connection quiet_game (demo_env\<lparr>e_create := (\<lambda>p. 6)\<rparr>) [82] [79] [68] 2
      [65] [72] 0x4401 s1 = Some (4000, s2)" "Conn s2 = ((replicate 9 zero_connection)[0 := c1])[1 := c2]"
    "c_state c2 = CONN_LISTENING"
    using demo_setup_at [of 79 s1 1 6 t2] s1 t(2) z by (auto simp: r9)
  have "nick_reachable quiet_game s" by (rule nick_reachable.start [OF s(1)])
  then have "nick_reachable quiet_game s1" by (rule nick_reachable.set_up [OF _ _ s1(1)]) simp
  then have r: "nick_reachable quiet_game s2" by (rule nick_reachable.set_up [OF _ _ s2(1)]) simp
  have k: "keeps_nicks quiet_game" using quiet_keeps by (simp add: keeps_nicks_def quiet_game_def)
  have "length (Conn s2) = 9" "c_state (Conn s2 ! 0) \<noteq> CONN_FREE" "c_state (Conn s2 ! 1) \<noteq> CONN_FREE"
    using s1(3) s2(2,3) by (simp_all add: r9)
  with r nick_names_unique [OF r k] show ?thesis by blast
qed

end
