(* ===== verification/Net_Reliable.thy ===== *)
theory Net_Reliable
  imports Connection
begin

text \<open>
  Reliable data over datagrams: \<open>Send_reliable\<close> and \<open>Receive_ack\<close> of \<open>server/netserver.c\<close>.

  The buffer \<open>c\<close> of a connection is a window of the stream of all reliable data written so far,
  starting at \<open>reliable_offset\<close>. \<open>Send_reliable\<close> transmits slices of the window with their stream
  position, \<open>Receive_ack\<close> moves the window. The last part puts both between a network that loses,
  repeats and reorders datagrams and a client that behaves as the comment at the top of
  \<open>netserver.c\<close> says.
\<close>

definition PKT_RELIABLE :: int where "PKT_RELIABLE = 42"
definition PKT_ACK :: int where "PKT_ACK = 43"
definition PKT_FAILURE :: int where "PKT_FAILURE = 101"
definition PKT_SUCCESS :: int where "PKT_SUCCESS = 102"
definition MAX_RELIABLE_DATA_PACKET_SIZE :: int where "MAX_RELIABLE_DATA_PACKET_SIZE = 1024"
definition min_send_size :: int where "min_send_size = 1"

definition MAX_RTT :: "server \<Rightarrow> int" where "MAX_RTT s = fps s + 1"
definition MIN_RETRANSMIT :: "server \<Rightarrow> int" where "MIN_RETRANSMIT s = c_div (fps s) 8 + 1"
definition MAX_RETRANSMIT :: "server \<Rightarrow> int" where "MAX_RETRANSMIT s = fps s + 1"

definition reason :: "string \<Rightarrow> byte list" where
  "reason str = map (of_nat \<circ> of_char) str"

subsection \<open>Sending\<close>

text \<open>\<open>for (i = 0; i <= acks && todo > 0; i++)\<close>, with \<open>k\<close> rounds left and \<open>read_buf\<close> at offset
  \<open>pos\<close>. The result is what is left to do and the stream position reached, or \<open>None\<close> inside when
  the connection had to be destroyed.\<close>

fun rel_loop ::
  "game \<Rightarrow> nat \<Rightarrow> nat \<Rightarrow> int \<Rightarrow> int \<Rightarrow> int \<Rightarrow> server \<Rightarrow> ((int \<times> int) option \<times> server) option" where
  "rel_loop G i 0 todo rel_off pos s = Some (Some (todo, rel_off), s)"
| "rel_loop G i (Suc k) todo rel_off pos s =
     (if \<not> todo > 0 then Some (Some (todo, rel_off), s)
      else
        (let len = (if todo > MAX_RELIABLE_DATA_PACKET_SIZE then MAX_RELIABLE_DATA_PACKET_SIZE else todo)
         in do {
           (n, s1) \<leftarrow> print_w i ''%c%hd%ld%ld''
              [arg_int PKT_RELIABLE, arg_int len, arg_int rel_off, arg_int (main_loops s)] s;
           if n \<le> 0 then do { s2 \<leftarrow> Destroy_connection G i (reason ''write error'') s1; Some (None, s2) }
           else do {
             cn \<leftarrow> get_conn i s1;
             b \<leftarrow> sb_buf (c_c cn);
             chunk \<leftarrow> buf_get pos len b;
             (m, sb, e) \<leftarrow> Sockbuf_write chunk (c_w cn) (net s1 (sb_sock (c_w cn)));
             let s2 = upd_net (sb_sock (c_w cn)) e (upd_conn i (\<lambda>c. c\<lparr>c_w := sb\<rparr>) s1);
             if m \<noteq> len then do { s3 \<leftarrow> Destroy_connection G i (reason ''write error'') s2; Some (None, s3) }
             else do {
               (q, s3) \<leftarrow> flush_w i s2;
               if q < len then
                 (if q = 0 \<and> (os_errno (net s3 (sb_sock (c_w cn))) = EWOULDBLOCK \<or>
                              os_errno (net s3 (sb_sock (c_w cn))) = EAGAIN)
                  then Some (Some (todo, rel_off), upd_conn i (\<lambda>c. c\<lparr>c_acks := 0\<rparr>) s3)
                  else do { s4 \<leftarrow> Destroy_connection G i (reason ''flush error'') s3; Some (None, s4) })
               else rel_loop G i k (todo - len) (rel_off + len) (pos + len) s3 } } }))"

definition Send_reliable :: "game \<Rightarrow> nat \<Rightarrow> server \<Rightarrow> (int \<times> server) option" where
  "Send_reliable G i s =
     do { cn \<leftarrow> get_conn i s;
          if sb_len (c_c cn) \<le> 0 \<or> c_last_send_loops cn = main_loops s
          then Some (0, upd_conn i (\<lambda>c. c\<lparr>c_last_send_loops := main_loops s\<rparr>) s)
          else
            (let max_packet_size = MAX_RELIABLE_DATA_PACKET_SIZE in
             if sb_len (c_w cn) > 0 \<and> sb_len (c_w cn) \<ge> max_packet_size - min_send_size
             then Some (0, s)
             else
               (let max_todo =
                      (if sb_len (c_w cn) > 0 \<and> sb_len (c_c cn) > max_packet_size - sb_len (c_w cn)
                       then max_packet_size - sb_len (c_w cn) else sb_len (c_c cn))
                in
                if c_retransmit_at_loop cn > main_loops s \<and>
                   (max_todo \<le> c_reliable_unsent cn - c_reliable_offset cn + min_send_size \<or>
                    sb_len (c_w cn) = 0)
                then Some (0, s)
                else do {
                  let s1 = (if c_retransmit_at_loop cn > main_loops s then s
                            else if c_retransmit_at_loop cn \<noteq> 0
                            then upd_conn i (\<lambda>c. c\<lparr>c_acks := c_acks c div 2\<rparr>) s else s);
                  cn1 \<leftarrow> get_conn i s1;
                  (res, s2) \<leftarrow> rel_loop G i (nat (c_acks cn1 + 1)) max_todo (c_reliable_offset cn) 0 s1;
                  (case res of
                     None \<Rightarrow> Some (-1, s2)
                   | Some (todo, rel_off) \<Rightarrow>
                       do { s3 \<leftarrow> clear_w i s2;
                            let s4 = upd_conn i (\<lambda>c. c\<lparr>c_last_send_loops := main_loops s3\<rparr>) s3;
                            if max_todo - todo \<le> 0 then Some (0, s4)
                            else
                              (let s5 = upd_conn i (\<lambda>c. if c_rtt_retransmit c > MAX_RETRANSMIT s4
                                          then c\<lparr>c_rtt_retransmit := MAX_RETRANSMIT s4\<rparr> else c) s4;
                                   s6 = upd_conn i (\<lambda>c. if c_retransmit_at_loop c \<le> main_loops s5
                                          then c\<lparr>c_retransmit_at_loop := main_loops s5 + c_rtt_retransmit c,
                                                 c_rtt_retransmit := c_rtt_retransmit c * 2,
                                                 c_rtt_timeouts := c_rtt_timeouts c + 1\<rparr>
                                          else c\<lparr>c_retransmit_at_loop := main_loops s5 + c_rtt_retransmit c\<rparr>) s5;
                                   s7 = upd_conn i (\<lambda>c. if rel_off > c_reliable_unsent c
                                          then c\<lparr>c_reliable_unsent := rel_off\<rparr> else c) s6
                               in Some (max_todo - todo, s7)) }) })) }"

subsection \<open>Acknowledgements\<close>

text \<open>The round-trip estimator; shifts of negative numbers are arithmetic.\<close>

definition update_rtt :: "int \<Rightarrow> server \<Rightarrow> connection \<Rightarrow> connection" where
  "update_rtt rtt s c =
     (if 0 < rtt \<and> rtt \<le> MAX_RTT s then
        (let smoothed0 = (if c_rtt_smoothed c = 0 then rtt * 8 else c_rtt_smoothed c);
             delta = rtt - smoothed0 div 8;
             smoothed = smoothed0 + delta;
             dev = c_rtt_dev c + (\<bar>delta\<bar> - c_rtt_dev c div 4);
             retransmit = (smoothed div 4 + dev) div 2
         in c\<lparr>c_rtt_smoothed := smoothed, c_rtt_dev := dev,
              c_rtt_retransmit := (if retransmit < MIN_RETRANSMIT s then MIN_RETRANSMIT s else retransmit)\<rparr>)
      else c)"

definition drained :: "connection \<Rightarrow> bool option" where
  "drained c =
     (if sb_len (c_c c) \<le> 0 then Some True
      else do { b \<leftarrow> sb_buf (c_c c);
                x \<leftarrow> buf_at 0 b;
                Some (sint x \<noteq> PKT_REPLY \<and> sint x \<noteq> PKT_PLAY \<and> sint x \<noteq> PKT_SUCCESS \<and> sint x \<noteq> PKT_FAILURE) })"

text \<open>The part of \<open>Receive_ack\<close> after the checks: \<open>diff\<close> bytes are acknowledged for the first time.\<close>

definition ack_new_data :: "nat \<Rightarrow> int \<Rightarrow> server \<Rightarrow> server option" where
  "ack_new_data i diff s2 =
     do { cn \<leftarrow> get_conn i s2;
          sb \<leftarrow> Sockbuf_advance diff (c_c cn);
          let s3 = upd_conn i (\<lambda>c. c\<lparr>c_c := sb, c_reliable_offset := c_reliable_offset c + diff,
                     c_acks := (if (diff + 511) div 512 > c_acks c then (diff + 511) div 512
                                else c_acks c + 1)\<rparr>) s2;
          cn3 \<leftarrow> get_conn i s3;
          s4 \<leftarrow> (if c_reliable_offset cn3 \<ge> c_reliable_unsent cn3
                  then (let s3' = upd_conn i (\<lambda>c. c\<lparr>c_retransmit_at_loop := 0\<rparr>) s3 in
                        if c_state cn3 = CONN_DRAIN
                        then Conn_set_state i (c_drain_state cn3) (c_drain_state cn3) s3'
                        else Some s3')
                  else Some s3);
          cn4 \<leftarrow> get_conn i s4;
          go \<leftarrow> (if c_state cn4 = CONN_READY then drained cn4 else Some False);
          s5 \<leftarrow> (if go then Conn_set_state i (c_drain_state cn4) (c_drain_state cn4) s4
                  else Some s4);
          Some (upd_conn i (\<lambda>c. c\<lparr>c_rtt_timeouts := 0\<rparr>) s5) }"

definition Receive_ack :: "game \<Rightarrow> nat \<Rightarrow> server \<Rightarrow> (int \<times> server) option" where
  "Receive_ack G i s =
     do { (n, outs, s1) \<leftarrow> scan_r i ''%c%ld%ld'' s;
          if n \<le> 0 then do { s2 \<leftarrow> Destroy_connection G i (reason ''read error'') s1; Some (-1, s2) }
          else (case outs of
            [OChar ch, OInt rel, OInt rel_loops] \<Rightarrow>
              (if ch \<noteq> word_of_int PKT_ACK
               then do { s2 \<leftarrow> Destroy_connection G i (reason ''not ack'') s1; Some (-1, s2) }
               else do {
                 rtt \<leftarrow> int32_of (main_loops s1 - sint rel_loops);
                 let s2 = upd_conn i (update_rtt rtt s1) s1;
                 cn \<leftarrow> get_conn i s2;
                 diff \<leftarrow> int32_of (sint rel - c_reliable_offset cn);
                 if diff > sb_len (c_c cn)
                 then do { s3 \<leftarrow> Destroy_connection G i (reason ''bad ack'') s2; Some (-1, s3) }
                 else if diff \<le> 0 then Some (1, s2)
                 else do { s3 \<leftarrow> ack_new_data i diff s2; Some (1, s3) } })
          | _ \<Rightarrow> None) }"

subsection \<open>The estimator\<close>

text \<open>\<open>update_rtt\<close> writes the three fields of the estimator only.\<close>

lemma update_rtt_shape: "\<exists>a b r. update_rtt x s c =
    c\<lparr>c_rtt_smoothed := a, c_rtt_dev := b, c_rtt_retransmit := r\<rparr>"
proof (cases "0 < x \<and> x \<le> MAX_RTT s")
  case True
  show ?thesis unfolding update_rtt_def Let_def if_P [OF True] by blast
next
  case False
  have "c = c\<lparr>c_rtt_smoothed := c_rtt_smoothed c, c_rtt_dev := c_rtt_dev c,
      c_rtt_retransmit := c_rtt_retransmit c\<rparr>" by simp
  then show ?thesis unfolding update_rtt_def if_not_P [OF False] by blast
qed

lemma update_rtt_sels [simp]:
  "c_c (update_rtt x s c) = c_c c" "c_w (update_rtt x s c) = c_w c" "c_r (update_rtt x s c) = c_r c"
  "c_state (update_rtt x s c) = c_state c" "c_drain_state (update_rtt x s c) = c_drain_state c"
  "c_reliable_offset (update_rtt x s c) = c_reliable_offset c"
  "c_reliable_unsent (update_rtt x s c) = c_reliable_unsent c" "c_acks (update_rtt x s c) = c_acks c"
  "c_pl (update_rtt x s c) = c_pl c"
proof -
  obtain a b r where e: "update_rtt x s c =
      c\<lparr>c_rtt_smoothed := a, c_rtt_dev := b, c_rtt_retransmit := r\<rparr>"
    using update_rtt_shape by blast
  show "c_c (update_rtt x s c) = c_c c" "c_w (update_rtt x s c) = c_w c" "c_r (update_rtt x s c) = c_r c"
    "c_state (update_rtt x s c) = c_state c" "c_drain_state (update_rtt x s c) = c_drain_state c"
    "c_reliable_offset (update_rtt x s c) = c_reliable_offset c"
    "c_reliable_unsent (update_rtt x s c) = c_reliable_unsent c" "c_acks (update_rtt x s c) = c_acks c"
    "c_pl (update_rtt x s c) = c_pl c"
    unfolding e by simp_all
qed

text \<open>The estimator of a connection: not negative, the mean at most eight times the longest
  measurement taken seriously, the deviation at most four times it, the retransmission time at most
  three times it.\<close>

definition rtt_ok :: "server \<Rightarrow> connection \<Rightarrow> bool" where
  "rtt_ok s c \<longleftrightarrow> 0 \<le> c_rtt_smoothed c \<and> c_rtt_smoothed c \<le> 8 * MAX_RTT s \<and>
     0 \<le> c_rtt_dev c \<and> c_rtt_dev c \<le> 4 * MAX_RTT s \<and>
     0 \<le> c_rtt_retransmit c \<and> c_rtt_retransmit c \<le> 3 * MAX_RTT s"

lemma update_rtt_bounded:
  assumes "rtt_ok s c" "0 \<le> fps s"
  shows "rtt_ok s (update_rtt rtt s c) \<and>
    (if 0 < rtt \<and> rtt \<le> MAX_RTT s
     then MIN_RETRANSMIT s \<le> c_rtt_retransmit (update_rtt rtt s c) \<and>
          c_rtt_retransmit (update_rtt rtt s c) \<le> 3 * MAX_RTT s
     else update_rtt rtt s c = c)"
proof (cases "0 < rtt \<and> rtt \<le> MAX_RTT s")
  case False
  have "update_rtt rtt s c = c" unfolding update_rtt_def if_not_P [OF False] ..
  with assms(1) show ?thesis unfolding if_not_P [OF False] by simp
next
  case True
  define M where "M = MAX_RTT s"
  define sm0 where "sm0 = (if c_rtt_smoothed c = 0 then rtt * 8 else c_rtt_smoothed c)"
  define delta where "delta = rtt - sm0 div 8"
  define sm where "sm = sm0 + delta"
  define dev where "dev = c_rtt_dev c + (\<bar>delta\<bar> - c_rtt_dev c div 4)"
  have r: "0 < rtt" "rtt \<le> M" using True by (simp_all add: M_def)
  have sm0: "0 < sm0" "sm0 \<le> 8 * M"
    using assms(1) r by (auto simp: sm0_def rtt_ok_def M_def)
  have div: "8 * (sm0 div 8) \<le> sm0" "sm0 < 8 * (sm0 div 8) + 8"
    "4 * (c_rtt_dev c div 4) \<le> c_rtt_dev c" "c_rtt_dev c < 4 * (c_rtt_dev c div 4) + 4"
    by presburger+
  then have q: "0 \<le> sm0 div 8" "sm0 div 8 \<le> M" using sm0 by linarith+
  have sm: "0 \<le> sm" "sm \<le> 8 * M"
    unfolding sm_def delta_def using sm0 r div(1,2) by linarith+
  have d: "\<bar>delta\<bar> \<le> M" unfolding delta_def using q r by linarith
  have old: "0 \<le> c_rtt_dev c" "c_rtt_dev c \<le> 4 * M" using assms(1) by (simp_all add: rtt_ok_def M_def)
  have "0 \<le> \<bar>delta\<bar>" by simp
  then have dev: "0 \<le> dev" "dev \<le> 4 * M" unfolding dev_def using d old div(3,4) by linarith+
  have up: "update_rtt rtt s c = c\<lparr>c_rtt_smoothed := sm, c_rtt_dev := dev,
      c_rtt_retransmit := (if (sm div 4 + dev) div 2 < MIN_RETRANSMIT s then MIN_RETRANSMIT s
                           else (sm div 4 + dev) div 2)\<rparr>"
    unfolding update_rtt_def if_P [OF True] Let_def dev_def sm_def delta_def sm0_def ..
  have "0 < MIN_RETRANSMIT s" "MIN_RETRANSMIT s \<le> 3 * M"
    using assms(2) by (auto simp: MIN_RETRANSMIT_def M_def MAX_RTT_def c_div_nonneg)
  moreover have "(sm div 4 + dev) div 2 \<le> 3 * M" using sm dev by presburger
  ultimately show ?thesis using True sm dev unfolding up by (simp add: rtt_ok_def M_def)
qed

definition fresh_connection :: connection where
  "fresh_connection = zero_connection\<lparr>c_state := CONN_DRAIN\<rparr>"

subsection \<open>What a transmission puts on the wire\<close>

definition rel_dgram :: "int \<Rightarrow> int \<Rightarrow> byte list \<Rightarrow> byte list" where
  "rel_dgram off loops chunk =
     word_of_int PKT_RELIABLE # be16 (word_of_int (int (length chunk))) @
       be32 (word_of_int off) @ be32 (word_of_int loops) @ chunk"

text \<open>A datagram that starts with \<open>pre\<close> and carries, perhaps cut short by the network, a slice of
  the stream \<open>S\<close> with its position.\<close>

definition carries :: "byte list \<Rightarrow> int \<Rightarrow> byte list \<Rightarrow> byte list \<Rightarrow> bool" where
  "carries S loops pre d \<longleftrightarrow>
     (\<exists>off len q. off + len \<le> length S \<and> 0 < len \<and> int len \<le> MAX_RELIABLE_DATA_PACKET_SIZE \<and>
        d = take q (pre @ rel_dgram (int off) loops (take len (drop off S))))"

text \<open>The write buffer of a connection, and the fields a transmission leaves alone.\<close>

definition tx_ok :: "sockbuf \<Rightarrow> bool" where
  "tx_ok w \<longleftrightarrow> wf_sockbuf w \<and> sb_size w = SERVER_SEND_SIZE \<and>
     sb_state w = SOCKBUF_WRITE OR SOCKBUF_DGRAM"

definition same_link :: "nat \<Rightarrow> server \<Rightarrow> server \<Rightarrow> bool" where
  "same_link i s s' \<longleftrightarrow> main_loops s' = main_loops s \<and> length (Conn s') = length (Conn s) \<and>
     (\<forall>j. j \<noteq> i \<longrightarrow> Conn s' ! j = Conn s ! j) \<and>
     c_c (Conn s' ! i) = c_c (Conn s ! i) \<and> c_r (Conn s' ! i) = c_r (Conn s ! i) \<and>
     c_reliable_offset (Conn s' ! i) = c_reliable_offset (Conn s ! i) \<and>
     sb_sock (c_w (Conn s' ! i)) = sb_sock (c_w (Conn s ! i)) \<and> tx_ok (c_w (Conn s' ! i))"

text \<open>The books of a connection's reliable data, which a transmission keeps until its end.\<close>

definition same_books :: "nat \<Rightarrow> server \<Rightarrow> server \<Rightarrow> bool" where
  "same_books i s s' \<longleftrightarrow> fps s' = fps s \<and>
     c_reliable_unsent (Conn s' ! i) = c_reliable_unsent (Conn s ! i) \<and>
     c_retransmit_at_loop (Conn s' ! i) = c_retransmit_at_loop (Conn s ! i) \<and>
     c_rtt_smoothed (Conn s' ! i) = c_rtt_smoothed (Conn s ! i) \<and>
     c_rtt_dev (Conn s' ! i) = c_rtt_dev (Conn s ! i) \<and>
     c_rtt_retransmit (Conn s' ! i) = c_rtt_retransmit (Conn s ! i) \<and>
     c_rtt_timeouts (Conn s' ! i) = c_rtt_timeouts (Conn s ! i)"

lemma same_books_refl [simp]: "same_books i s s"
  by (simp add: same_books_def)

lemma same_books_trans: "same_books i s s1 \<Longrightarrow> same_books i s1 s2 \<Longrightarrow> same_books i s s2"
  by (simp add: same_books_def)

lemma same_link_trans: "same_link i s s1 \<Longrightarrow> same_link i s1 s2 \<Longrightarrow> same_link i s s2"
  by (simp add: same_link_def)

lemma same_link_upd:
  "i < length (Conn s) \<Longrightarrow> tx_ok (c_w (f (Conn s ! i))) \<Longrightarrow> c_c (f (Conn s ! i)) = c_c (Conn s ! i) \<Longrightarrow>
   c_r (f (Conn s ! i)) = c_r (Conn s ! i) \<Longrightarrow>
   c_reliable_offset (f (Conn s ! i)) = c_reliable_offset (Conn s ! i) \<Longrightarrow>
   sb_sock (c_w (f (Conn s ! i))) = sb_sock (c_w (Conn s ! i)) \<Longrightarrow> same_link i s (upd_conn i f s)"
  by (simp add: same_link_def) (simp add: upd_conn_def)

lemma same_link_net: "same_link i s (upd_net k e s') = same_link i s s'"
  by (simp add: same_link_def)

definition sent_on :: "nat \<Rightarrow> server \<Rightarrow> byte list list" where
  "sent_on i s = os_sent (net s (sb_sock (c_w (Conn s ! i))))"

lemma demo_rel_fmt: "parse_fmt ''%c%hd%ld%ld'' = Some [DChar, DShort, DInt, DInt]"
  by (simp add: parse_dir.simps(2))

lemma tx_ok_flags: "tx_ok w \<Longrightarrow> has_bit (sb_state w) SOCKBUF_WRITE \<and>
    \<not> has_bit (sb_state w) SOCKBUF_LOCK \<and> has_bit (sb_state w) SOCKBUF_DGRAM"
  by (simp add: tx_ok_def has_bit_def SOCKBUF_WRITE_def SOCKBUF_DGRAM_def SOCKBUF_LOCK_def)

text \<open>A flush of a connection's write buffer.\<close>

lemma flush_tx:
  assumes "tx_ok w"
  obtains q w' e' where "Sockbuf_flush w e = Some (q, w', e')" "tx_ok w'" "sb_sock w' = sb_sock w"
    "0 < q \<longrightarrow> os_sent e' = os_sent e @ [take (nat q) (contents w)] \<and> contents w' = []"
    "q \<le> 0 \<longrightarrow> os_sent e' = os_sent e"
proof -
  have wf: "wf_sockbuf w" using assms by (simp add: tx_ok_def)
  have flags: "has_bit (sb_state w) SOCKBUF_WRITE" "\<not> has_bit (sb_state w) SOCKBUF_LOCK"
    using tx_ok_flags [OF assms] by simp_all
  show ?thesis
    using wf flags
  proof (cases rule: Sockbuf_flush_cases [of w e])
    case empty
    then show ?thesis using assms by (intro that [of 0 w e]) simp_all
  next
    case (dgram x e1)
    have t: "tx_ok (Sockbuf_clear w)" using assms by (simp add: tx_ok_def wf_Sockbuf_clear)
    show ?thesis
    proof (cases x)
      case (IoDone n)
      have "0 < n" "os_sent e1 = os_sent e @ [take (nat n) (contents w)]"
        using dgram(2) unfolding IoDone io_logged_def by simp_all
      note sent = this
      have run: "Sockbuf_flush w e = Some (n, Sockbuf_clear w,
          if n \<noteq> sb_len w then e1\<lparr>os_errno := ENONE\<rparr> else e1)"
        using dgram(4) unfolding IoDone by simp
      show ?thesis by (rule that [OF run t]) (use sent in simp_all)
    next
      case IoAgain
      have sent: "os_sent e1 = os_sent e" using dgram(2) unfolding IoAgain io_logged_def by simp
      have run: "Sockbuf_flush w e = Some (0, Sockbuf_clear w, e1)"
        using dgram(4) unfolding IoAgain by simp
      show ?thesis by (rule that [OF run t]) (use sent in simp_all)
    next
      case (IoFailed b)
      have sent: "os_sent e1 = os_sent e" using dgram(2) unfolding IoFailed io_logged_def by simp
      have run: "Sockbuf_flush w e = Some (-1, if b then Sockbuf_clear w else w, e1)"
        using dgram(4) unfolding IoFailed by simp
      have "tx_ok (if b then Sockbuf_clear w else w)" using t assms by simp
      then show ?thesis by (rule that [OF run]) (use sent in simp_all)
    qed
  qed (use tx_ok_flags [OF assms] in simp)
qed

lemma print_rel_header:
  assumes "i < length (Conn s)" "tx_ok (c_w (Conn s ! i))" "sb_len (c_w (Conn s ! i)) \<le> 1024"
  obtains w where "print_w i ''%c%hd%ld%ld'' [arg_int PKT_RELIABLE, arg_int len, arg_int off, arg_int loops] s =
      Some (11, upd_conn i (\<lambda>c. c\<lparr>c_w := w\<rparr>) s)" "tx_ok w" "sb_sock w = sb_sock (c_w (Conn s ! i))"
    "contents w = contents (c_w (Conn s ! i)) @ word_of_int PKT_RELIABLE # be16 (word_of_int len) @
       be32 (word_of_int off) @ be32 (word_of_int loops)" "sb_len w = sb_len (c_w (Conn s ! i)) + 11"
proof -
  let ?w = "c_w (Conn s ! i)"
  let ?bs = "word_of_int PKT_RELIABLE # be16 (word_of_int len) @
       be32 (word_of_int off) @ be32 (word_of_int loops)"
  have wf: "wf_sockbuf ?w" using assms(2) by (simp add: tx_ok_def)
  have "(ucast (word_of_int len :: i32) :: i16) = word_of_int len"
    by (rule bit_word_eqI) (simp add: bit_simps)
  moreover have "(ucast (word_of_int PKT_RELIABLE :: i32) :: byte) = word_of_int PKT_RELIABLE"
    by (simp add: PKT_RELIABLE_def)
  ultimately have enc: "encode [DChar, DShort, DInt, DInt]
      [arg_int PKT_RELIABLE, arg_int len, arg_int off, arg_int loops] = Some ?bs"
    by (simp add: arg_int_def)
  have room: "sb_len ?w + int (length ?bs) < pf_end (last_packet_of_frame s) ?w"
    using assms(2,3) by (simp add: pf_end_def tx_ok_def SERVER_SEND_SIZE_def SOCKBUF_WRITE_SPARE_def)
  obtain w where w: "Packet_printf (last_packet_of_frame s) ?w ''%c%hd%ld%ld''
      [arg_int PKT_RELIABLE, arg_int len, arg_int off, arg_int loops] = Some (int (length ?bs), w)"
    "wf_sockbuf w" "contents w = contents ?w @ ?bs" "sb_size w = sb_size ?w" "sb_state w = sb_state ?w"
    "sb_len w = sb_len ?w + int (length ?bs)" "sb_sock w = sb_sock ?w"
    by (rule Packet_printf_ok [OF wf demo_rel_fmt enc room])
  show ?thesis
    by (rule that [of w]) (use w assms(1,2) in \<open>simp_all add: print_w_def tx_ok_def\<close>)
qed

text \<open>One round of the loop up to and including the flush.\<close>

lemma round_ok:
  assumes "i < length (Conn s)" "tx_ok (c_w (Conn s ! i))" "len = int (length chunk)"
    "sb_len (c_w (Conn s ! i)) + len \<le> 1024"
    and k: "k = sb_sock (c_w (Conn s ! i))"
  obtains w1 w2 q s3 where
    "print_w i ''%c%hd%ld%ld'' [arg_int PKT_RELIABLE, arg_int len, arg_int off, arg_int (main_loops s)] s =
       Some (11, upd_conn i (\<lambda>c. c\<lparr>c_w := w1\<rparr>) s)" "sb_sock w1 = k"
    "Sockbuf_write chunk w1 (net s k) = Some (len, w2, net s k)"
    "flush_w i (upd_net k (net s k) (upd_conn i (\<lambda>c. c\<lparr>c_w := w2\<rparr>) (upd_conn i (\<lambda>c. c\<lparr>c_w := w1\<rparr>) s)))
       = Some (q, s3)"
    "same_link i s s3" "same_books i s s3" "q \<le> 0 \<longrightarrow> sent_on i s3 = sent_on i s"
    "0 < q \<longrightarrow> sb_len (c_w (Conn s3 ! i)) = 0 \<and> sent_on i s3 = sent_on i s @
       [take (nat q) (contents (c_w (Conn s ! i)) @ rel_dgram off (main_loops s) chunk)]"
proof -
  let ?w = "c_w (Conn s ! i)"
  have small: "sb_len ?w \<le> 1024" using assms(3,4) by simp
  obtain w1 where w1: "print_w i ''%c%hd%ld%ld'' [arg_int PKT_RELIABLE, arg_int len, arg_int off,
        arg_int (main_loops s)] s = Some (11, upd_conn i (\<lambda>c. c\<lparr>c_w := w1\<rparr>) s)" "tx_ok w1" "sb_sock w1 = k"
    "contents w1 = contents ?w @ word_of_int PKT_RELIABLE # be16 (word_of_int len) @
       be32 (word_of_int off) @ be32 (word_of_int (main_loops s))" "sb_len w1 = sb_len ?w + 11"
    unfolding k by (rule print_rel_header [OF assms(1,2) small])
  have wf: "wf_sockbuf w1" and room: "int (length chunk) \<le> sb_size w1 - sb_len w1"
    using w1(2,5) assms(3,4) by (simp_all add: tx_ok_def SERVER_SEND_SIZE_def)
  obtain w2 where w2: "sockbuf_append chunk w1 = Some w2" "wf_sockbuf w2" "contents w2 = contents w1 @ chunk"
    "sb_size w2 = sb_size w1" "sb_state w2 = sb_state w1" "sb_sock w2 = sb_sock w1"
    by (rule sockbuf_append_ok [OF wf room])
  have wr: "Sockbuf_write chunk w1 (net s k) = Some (len, w2, net s k)"
    using tx_ok_flags [OF w1(2)] room w2(1) assms(3) by (simp add: Sockbuf_write_def)
  have tx2: "tx_ok w2" using w1(2) w2 by (simp add: tx_ok_def)
  obtain q w3 e3 where f: "Sockbuf_flush w2 (net s k) = Some (q, w3, e3)" "tx_ok w3" "sb_sock w3 = sb_sock w2"
    "0 < q \<longrightarrow> os_sent e3 = os_sent (net s k) @ [take (nat q) (contents w2)] \<and> contents w3 = []"
    "q \<le> 0 \<longrightarrow> os_sent e3 = os_sent (net s k)"
    by (rule flush_tx [where e = "net s k", OF tx2])
  define s3 where "s3 = upd_net k e3 (upd_conn i (\<lambda>c. c\<lparr>c_w := w3\<rparr>)
    (upd_net k (net s k) (upd_conn i (\<lambda>c. c\<lparr>c_w := w2\<rparr>) (upd_conn i (\<lambda>c. c\<lparr>c_w := w1\<rparr>) s))))"
  have flush: "flush_w i (upd_net k (net s k) (upd_conn i (\<lambda>c. c\<lparr>c_w := w2\<rparr>)
      (upd_conn i (\<lambda>c. c\<lparr>c_w := w1\<rparr>) s))) = Some (q, s3)"
    using f(1) w1(3) w2(6) assms(1) by (simp add: flush_w_def s3_def)
  have c3: "c_w (Conn s3 ! i) = w3" using assms(1) by (simp add: s3_def)
  have "same_link i s s3"
    using assms(1) f(2,3) w1(3) w2(6) k by (simp add: same_link_def s3_def) (simp add: upd_conn_def)
  moreover have "same_books i s s3" using assms(1) by (simp add: same_books_def s3_def)
  moreover have "sent_on i s3 = os_sent e3" "sent_on i s = os_sent (net s k)"
    using f(3) w1(3) w2(6) unfolding sent_on_def c3 by (simp_all add: s3_def k)
  moreover have "contents w2 = contents ?w @ rel_dgram off (main_loops s) chunk"
    using w1(4) w2(3) assms(3) by (simp add: rel_dgram_def)
  moreover have "sb_len w3 = 0" if "contents w3 = []"
    using that f(2) length_contents [of w3] by (simp add: tx_ok_def)
  ultimately show ?thesis using w1(1,3) wr flush f(4,5) c3 by (intro that [of w1 w2 q s3]) auto
qed

text \<open>Datagrams of one call: the first starts with what the write buffer held.\<close>

definition carried :: "byte list \<Rightarrow> int \<Rightarrow> byte list \<Rightarrow> byte list list \<Rightarrow> bool" where
  "carried S loops pre ds \<longleftrightarrow>
     (case ds of [] \<Rightarrow> True | d # ds' \<Rightarrow> carries S loops pre d \<and> list_all (carries S loops []) ds')"

text \<open>The same with the bytes counted: \<open>n\<close> bytes of the stream leave from position \<open>off\<close> on, in
  consecutive slices that are full but for the last; of each datagram the system has taken at least
  as many bytes as its slice has.\<close>

fun slices :: "byte list \<Rightarrow> int \<Rightarrow> byte list \<Rightarrow> nat \<Rightarrow> nat \<Rightarrow> byte list list \<Rightarrow> bool" where
  "slices S loops pre off n [] \<longleftrightarrow> n = 0"
| "slices S loops pre off n (d # ds) \<longleftrightarrow>
     (let len = min n (nat MAX_RELIABLE_DATA_PACKET_SIZE) in
      0 < n \<and> off + len \<le> length S \<and>
      (\<exists>q \<ge> len. d = take q (pre @ rel_dgram (int off) loops (take len (drop off S)))) \<and>
      slices S loops [] (off + len) (n - len) ds)"

lemma slices_carries: "slices S loops [] off n ds \<Longrightarrow> list_all (carries S loops []) ds"
proof (induction ds arbitrary: off n)
  case (Cons d ds)
  define len where "len = min n (nat MAX_RELIABLE_DATA_PACKET_SIZE)"
  from Cons.prems obtain q where d: "0 < n" "off + len \<le> length S"
    "d = take q ([] @ rel_dgram (int off) loops (take len (drop off S)))"
    "slices S loops [] (off + len) (n - len) ds"
    unfolding len_def by (auto simp: Let_def)
  have "0 < len" "int len \<le> MAX_RELIABLE_DATA_PACKET_SIZE"
    using d(1) by (simp_all add: len_def MAX_RELIABLE_DATA_PACKET_SIZE_def)
  with d have "carries S loops [] d" unfolding carries_def by blast
  with Cons.IH [OF d(4)] show ?case by simp
qed simp

lemma slices_carried: "slices S loops pre off n ds \<Longrightarrow> carried S loops pre ds"
proof (cases ds)
  case (Cons d ds')
  define len where "len = min n (nat MAX_RELIABLE_DATA_PACKET_SIZE)"
  assume "slices S loops pre off n ds"
  then obtain q where d: "0 < n" "off + len \<le> length S"
    "d = take q (pre @ rel_dgram (int off) loops (take len (drop off S)))"
    "slices S loops [] (off + len) (n - len) ds'"
    unfolding len_def Cons by (auto simp: Let_def)
  have "0 < len" "int len \<le> MAX_RELIABLE_DATA_PACKET_SIZE"
    using d(1) by (simp_all add: len_def MAX_RELIABLE_DATA_PACKET_SIZE_def)
  with d have "carries S loops pre d" unfolding carries_def by blast
  with slices_carries [OF d(4)] show ?thesis by (simp add: carried_def Cons)
qed (simp add: carried_def)

lemma rel_loop_ok:
  assumes "i < length (Conn s)" "tx_ok (c_w (Conn s ! i))" "0 \<le> pos"
    "sockbuf_window.holds_window S base (c_c (Conn s ! i))" "off = base + pos"
    "pos + todo \<le> sb_len (c_c (Conn s ! i))"
    "0 < sb_len (c_w (Conn s ! i)) \<longrightarrow> sb_len (c_w (Conn s ! i)) + todo \<le> 1024"
  shows "(\<exists>n s' ds. rel_loop G i k todo off pos s = Some (Some (todo - int n, off + int n), s') \<and>
      int n \<le> max 0 todo \<and> same_link i s s' \<and> same_books i s s' \<and> sent_on i s' = sent_on i s @ ds \<and>
      slices S (main_loops s) (contents (c_w (Conn s ! i))) (nat off) n ds) \<or>
    (\<exists>s1. rel_loop G i k todo off pos s =
      do { s2 \<leftarrow> Destroy_connection G i (reason ''flush error'') s1; Some (None, s2) })"
  using assms
proof (induction k arbitrary: todo off pos s)
  case 0
  then have "same_link i s s" by (simp add: same_link_def)
  then show ?case by (intro disjI1 exI [of _ 0] exI [of _ s] exI [of _ "[]"]) simp
next
  case (Suc k)
  let ?w = "c_w (Conn s ! i)" and ?c = "c_c (Conn s ! i)"
  show ?case
  proof (cases "0 < todo")
    case False
    have "same_link i s s" using Suc.prems by (simp add: same_link_def)
    with False show ?thesis by (intro disjI1 exI [of _ 0] exI [of _ s] exI [of _ "[]"]) simp
  next
    case True
    define len where "len = (if todo > MAX_RELIABLE_DATA_PACKET_SIZE then MAX_RELIABLE_DATA_PACKET_SIZE else todo)"
    have len: "0 < len" "len \<le> todo" "len \<le> 1024"
      using True by (auto simp: len_def MAX_RELIABLE_DATA_PACKET_SIZE_def)
    define chunk where "chunk = take (nat len) (drop (nat off) S)"
    define K where "K = sb_sock ?w"
    have win: "wf_sockbuf ?c" "0 \<le> base" "base \<le> int (length S)" "contents ?c = drop (nat base) S"
      using Suc.prems(4) by (simp_all add: sockbuf_window.holds_window_def)
    obtain b where b: "sb_buf ?c = Some b" "int (length b) = sb_size ?c" "sb_len ?c \<le> sb_size ?c"
      "contents ?c = take (nat (sb_len ?c)) b"
      using win(1) by (elim wf_sockbufE)
    have clen: "sb_len ?c = int (length S) - base"
      using length_contents [OF win(1)] win by simp
    have "take (nat len) (drop (nat pos) b) = take (nat len) (drop (nat pos) (contents ?c))"
      using b(4) Suc.prems(3,6) len by (simp add: drop_take min_def nat_diff_distrib')
    also have "\<dots> = chunk"
      using win(2,4) Suc.prems(3,5) by (simp add: chunk_def nat_add_distrib add.commute)
    finally have get: "buf_get pos len b = Some chunk"
      using Suc.prems(3,6) len b by (simp add: buf_get_ok)
    have clen': "len = int (length chunk)"
      using clen Suc.prems(3,5,6) len win by (simp add: chunk_def)
    have "0 \<le> sb_len ?w" using Suc.prems(2) by (simp add: tx_ok_def wf_sockbuf_def)
    then have fits: "sb_len ?w + len \<le> 1024" using Suc.prems(7) len by force
    obtain w1 w2 q s3 where r:
      "print_w i ''%c%hd%ld%ld'' [arg_int PKT_RELIABLE, arg_int len, arg_int off, arg_int (main_loops s)] s =
         Some (11, upd_conn i (\<lambda>c. c\<lparr>c_w := w1\<rparr>) s)" "sb_sock w1 = K"
      "Sockbuf_write chunk w1 (net s K) = Some (len, w2, net s K)"
      "flush_w i (upd_net K (net s K) (upd_conn i (\<lambda>c. c\<lparr>c_w := w2\<rparr>) (upd_conn i (\<lambda>c. c\<lparr>c_w := w1\<rparr>) s)))
         = Some (q, s3)"
      "same_link i s s3" "same_books i s s3" "q \<le> 0 \<longrightarrow> sent_on i s3 = sent_on i s"
      "0 < q \<longrightarrow> sb_len (c_w (Conn s3 ! i)) = 0 \<and> sent_on i s3 = sent_on i s @
         [take (nat q) (contents ?w @ rel_dgram off (main_loops s) chunk)]"
      by (rule round_ok [where off = off, OF Suc.prems(1,2) clen' fits K_def])
    have step: "rel_loop G i (Suc k) todo off pos s =
      (if q < len then
         (if q = 0 \<and> (os_errno (net s3 K) = EWOULDBLOCK \<or> os_errno (net s3 K) = EAGAIN)
          then Some (Some (todo, off), upd_conn i (\<lambda>c. c\<lparr>c_acks := 0\<rparr>) s3)
          else do { s4 \<leftarrow> Destroy_connection G i (reason ''flush error'') s3; Some (None, s4) })
       else rel_loop G i k (todo - len) (off + len) (pos + len) s3)"
      using True r(1-4) b(1) get Suc.prems(1)
      by (subst rel_loop.simps(2)) (simp add: len_def [symmetric] Let_def)
    have i3: "i < length (Conn s3)" using r(5) Suc.prems(1) by (simp add: same_link_def)
    consider (again) "q < len" "q = 0 \<and> (os_errno (net s3 K) = EWOULDBLOCK \<or> os_errno (net s3 K) = EAGAIN)"
      | (dead) "q < len" "\<not> (q = 0 \<and> (os_errno (net s3 K) = EWOULDBLOCK \<or> os_errno (net s3 K) = EAGAIN))"
      | (on) "len \<le> q" by linarith
    then show ?thesis
    proof cases
      case again
      define s4 where "s4 = upd_conn i (\<lambda>c. c\<lparr>c_acks := 0\<rparr>) s3"
      have same: "same_link i s s4"
        unfolding s4_def
        by (rule same_link_trans [OF r(5) same_link_upd]) (use i3 r(5) in \<open>simp_all add: same_link_def\<close>)
      have books: "same_books i s s4"
        by (rule same_books_trans [OF r(6)]) (use i3 in \<open>simp add: same_books_def s4_def\<close>)
      have "sent_on i s4 = sent_on i s"
        using r(7) again i3 by (simp add: sent_on_def s4_def)
      with same books show ?thesis unfolding step using again
        by (intro disjI1 exI [of _ 0] exI [of _ s4] exI [of _ "[]"]) (simp add: s4_def)
    next
      case dead
      then show ?thesis unfolding step by (intro disjI2 exI [of _ s3]) auto
    next
      case on
      then have sent: "sb_len (c_w (Conn s3 ! i)) = 0" "sent_on i s3 = sent_on i s @
         [take (nat q) (contents ?w @ rel_dgram off (main_loops s) chunk)]"
        using r(8) len by auto
      have room: "nat off + nat len \<le> length S" "int (nat off) = off"
        using clen Suc.prems(3,5,6) len win by linarith+
      have tx3: "tx_ok (c_w (Conn s3 ! i))" and cc3: "c_c (Conn s3 ! i) = ?c"
        and ml3: "main_loops s3 = main_loops s"
        using r(5) by (simp_all add: same_link_def)
      have empty: "contents (c_w (Conn s3 ! i)) = []"
        using tx3 sent(1) length_contents [of "c_w (Conn s3 ! i)"] by (simp add: tx_ok_def)
      have go: "rel_loop G i (Suc k) todo off pos s =
          rel_loop G i k (todo - len) (off + len) (pos + len) s3"
        unfolding step using on by simp
      have "0 \<le> pos + len" "off + len = base + (pos + len)" "pos + len + (todo - len) \<le> sb_len ?c"
        using Suc.prems len by simp_all
      from Suc.IH [OF i3 tx3 this(1) _ this(2), of "todo - len", unfolded cc3 empty ml3, OF Suc.prems(4) this(3)] sent(1)
      consider (fin) n s' ds where
          "rel_loop G i k (todo - len) (off + len) (pos + len) s3 =
             Some (Some (todo - len - int n, off + len + int n), s')"
          "int n \<le> max 0 (todo - len)" "same_link i s3 s'" "same_books i s3 s'"
          "sent_on i s' = sent_on i s3 @ ds" "slices S (main_loops s) [] (nat (off + len)) n ds"
        | (flush) s1 where "rel_loop G i k (todo - len) (off + len) (pos + len) s3 =
            do { s2 \<leftarrow> Destroy_connection G i (reason ''flush error'') s1; Some (None, s2) }"
        by auto
      then show ?thesis
      proof cases
        case fin
        define d0 where "d0 = take (nat q) (contents ?w @ rel_dgram off (main_loops s) chunk)"
        define m where "m = nat len + n"
        have m: "int m \<le> todo" "todo - int m = todo - len - int n" "off + int m = off + len + int n"
          using fin(2) len by (simp_all add: m_def)
        have len': "min m (nat MAX_RELIABLE_DATA_PACKET_SIZE) = nat len"
          using fin(2) by (auto simp: len_def m_def min_def MAX_RELIABLE_DATA_PACKET_SIZE_def split: if_splits)
        have no: "nat (off + len) = nat off + nat len"
          using len room(2) by (metis nat_add_distrib of_nat_0_le_iff less_imp_le)
        have "slices S (main_loops s) (contents ?w) (nat off) m (d0 # ds)"
          unfolding slices.simps Let_def len'
        proof (intro conjI exI [of _ "nat q"])
          show "0 < m" using len(1) by (simp add: m_def)
          show "nat len \<le> nat q" using on by simp
          show "d0 = take (nat q) (contents ?w @ rel_dgram (int (nat off)) (main_loops s)
              (take (nat len) (drop (nat off) S)))"
            using room(2) by (simp add: d0_def chunk_def)
          show "slices S (main_loops s) [] (nat off + nat len) (m - nat len) ds"
            using fin(6) by (simp add: m_def no)
        qed (rule room(1))
        moreover have "sent_on i s' = sent_on i s @ (d0 # ds)" using fin(5) sent(2) by (simp add: d0_def)
        moreover have "same_link i s s'" "same_books i s s'"
          using same_link_trans [OF r(5) fin(3)] same_books_trans [OF r(6) fin(4)] by blast+
        ultimately show ?thesis unfolding go using fin(1) m
          by (intro disjI1 exI [of _ m] exI [of _ s'] exI [of _ "d0 # ds"]) simp
      next
        case flush
        then show ?thesis unfolding go by blast
      qed
    qed
  qed
qed

text \<open>A connection whose reliable buffer is the window of the stream \<open>S\<close> from the acknowledged
  position on, and whose write buffer is a datagram buffer as \<open>Setup_connection\<close> makes it.\<close>

definition link_ok :: "byte list \<Rightarrow> nat \<Rightarrow> server \<Rightarrow> bool" where
  "link_ok S i s \<longleftrightarrow> i < length (Conn s) \<and> tx_ok (c_w (Conn s ! i)) \<and>
     sockbuf_window.holds_window S (c_reliable_offset (Conn s ! i)) (c_c (Conn s ! i))"

lemma link_same: "link_ok S i s \<Longrightarrow> same_link i s s' \<Longrightarrow> link_ok S i s'"
  by (simp add: link_ok_def same_link_def)

lemma link_same_refl: "link_ok S i s \<Longrightarrow> same_link i s s"
  by (simp add: link_ok_def same_link_def)

lemma link_upd:
  assumes "link_ok S i s" "\<And>c. c_w (f c) = c_w c" "\<And>c. c_c (f c) = c_c c" "\<And>c. c_r (f c) = c_r c"
    "\<And>c. c_reliable_offset (f c) = c_reliable_offset c"
  shows "same_link i s (upd_conn i f s)" "sent_on i (upd_conn i f s) = sent_on i s"
proof -
  show "same_link i s (upd_conn i f s)"
    by (rule same_link_upd) (use assms in \<open>simp_all add: link_ok_def\<close>)
  show "sent_on i (upd_conn i f s) = sent_on i s"
    using assms(1,2) by (simp add: sent_on_def link_ok_def)
qed

text \<open>The bookkeeping after the loop of \<open>Send_reliable\<close> touches neither buffer nor window.\<close>

definition rel_books :: "nat \<Rightarrow> int \<Rightarrow> server \<Rightarrow> server" where
  "rel_books i rel_off s4 =
     (let s5 = upd_conn i (\<lambda>c. if c_rtt_retransmit c > MAX_RETRANSMIT s4
                 then c\<lparr>c_rtt_retransmit := MAX_RETRANSMIT s4\<rparr> else c) s4;
          s6 = upd_conn i (\<lambda>c. if c_retransmit_at_loop c \<le> main_loops s5
                 then c\<lparr>c_retransmit_at_loop := main_loops s5 + c_rtt_retransmit c,
                        c_rtt_retransmit := c_rtt_retransmit c * 2,
                        c_rtt_timeouts := c_rtt_timeouts c + 1\<rparr>
                 else c\<lparr>c_retransmit_at_loop := main_loops s5 + c_rtt_retransmit c\<rparr>) s5
      in upd_conn i (\<lambda>c. if rel_off > c_reliable_unsent c
           then c\<lparr>c_reliable_unsent := rel_off\<rparr> else c) s6)"

lemma rel_books_same:
  assumes "link_ok S i s"
  shows "same_link i s (rel_books i rel_off s)" "sent_on i (rel_books i rel_off s) = sent_on i s"
proof -
  define s5 where "s5 = upd_conn i (\<lambda>c. if c_rtt_retransmit c > MAX_RETRANSMIT s
                 then c\<lparr>c_rtt_retransmit := MAX_RETRANSMIT s\<rparr> else c) s"
  define s6 where "s6 = upd_conn i (\<lambda>c. if c_retransmit_at_loop c \<le> main_loops s5
                 then c\<lparr>c_retransmit_at_loop := main_loops s5 + c_rtt_retransmit c,
                        c_rtt_retransmit := c_rtt_retransmit c * 2,
                        c_rtt_timeouts := c_rtt_timeouts c + 1\<rparr>
                 else c\<lparr>c_retransmit_at_loop := main_loops s5 + c_rtt_retransmit c\<rparr>) s5"
  have 5: "same_link i s s5" "sent_on i s5 = sent_on i s"
    unfolding s5_def by (rule link_upd [OF assms]; simp)+
  note l5 = link_same [OF assms 5(1)]
  have 6: "same_link i s5 s6" "sent_on i s6 = sent_on i s5"
    unfolding s6_def by (rule link_upd [OF l5]; simp)+
  note l6 = link_same [OF l5 6(1)]
  have b: "rel_books i rel_off s = upd_conn i (\<lambda>c. if rel_off > c_reliable_unsent c
           then c\<lparr>c_reliable_unsent := rel_off\<rparr> else c) s6"
    unfolding rel_books_def Let_def s6_def s5_def ..
  have 7: "same_link i s6 (rel_books i rel_off s)" "sent_on i (rel_books i rel_off s) = sent_on i s6"
    unfolding b by (rule link_upd [OF l6]; simp)+
  show "same_link i s (rel_books i rel_off s)"
    using 5(1) 6(1) 7(1) same_link_trans by blast
  show "sent_on i (rel_books i rel_off s) = sent_on i s" using 5(2) 6(2) 7(2) by simp
qed

text \<open>What is written down after \<open>pos\<close> has been reached: the highest position transmitted so far, the
  loop of the next retransmission, one retransmission time (at most \<open>MAX_RETRANSMIT\<close>) from now, and,
  when this transmission was due, twice that time for the next one.\<close>

definition booked :: "nat \<Rightarrow> int \<Rightarrow> server \<Rightarrow> server \<Rightarrow> bool" where
  "booked i pos s s' \<longleftrightarrow>
     (let c = Conn s ! i; c' = Conn s' ! i; t = min (c_rtt_retransmit c) (MAX_RETRANSMIT s)
      in fps s' = fps s \<and> c_reliable_unsent c' = max (c_reliable_unsent c) pos \<and>
         c_retransmit_at_loop c' = main_loops s + t \<and>
         c_rtt_retransmit c' = (if c_retransmit_at_loop c \<le> main_loops s then 2 * t else t) \<and>
         c_rtt_timeouts c' = c_rtt_timeouts c + (if c_retransmit_at_loop c \<le> main_loops s then 1 else 0) \<and>
         c_rtt_smoothed c' = c_rtt_smoothed c \<and> c_rtt_dev c' = c_rtt_dev c)"

lemma rel_books_booked:
  assumes "i < length (Conn s)"
  shows "booked i pos s (rel_books i pos s)"
  using assms by (auto simp: booked_def rel_books_def Let_def MAX_RETRANSMIT_def min_def max_def)

lemma booked_rtt_ok:
  assumes "booked i pos s s'" "rtt_ok s (Conn s ! i)" "0 \<le> fps s"
  shows "rtt_ok s' (Conn s' ! i) \<and>
    main_loops s \<le> c_retransmit_at_loop (Conn s' ! i) \<and>
    c_retransmit_at_loop (Conn s' ! i) \<le> main_loops s + MAX_RETRANSMIT s"
proof -
  define t where "t = min (c_rtt_retransmit (Conn s ! i)) (MAX_RETRANSMIT s)"
  have t: "0 \<le> t" "t \<le> MAX_RETRANSMIT s"
    using assms(2,3) by (simp_all add: t_def rtt_ok_def MAX_RETRANSMIT_def)
  with assms show ?thesis
    by (auto simp: booked_def t_def rtt_ok_def Let_def MAX_RTT_def MAX_RETRANSMIT_def min_def
        split: if_splits)
qed

lemma same_books_rtt_ok: "same_books i s s' \<Longrightarrow> rtt_ok s (Conn s ! i) \<Longrightarrow> rtt_ok s' (Conn s' ! i)"
  by (simp add: same_books_def rtt_ok_def MAX_RTT_def)

lemma booked_cong: "same_books i s t \<Longrightarrow> main_loops t = main_loops s \<Longrightarrow> booked i pos t s' \<Longrightarrow> booked i pos s s'"
  by (simp add: booked_def same_books_def MAX_RETRANSMIT_def Let_def)

lemma clear_w_same:
  assumes "link_ok S i s"
  obtains s' where "clear_w i s = Some s'" "same_link i s s'" "same_books i s s'"
    "sent_on i s' = sent_on i s"
proof -
  have "same_books i s (upd_conn i (\<lambda>c. c\<lparr>c_w := Sockbuf_clear (c_w c)\<rparr>) s)"
    using assms by (simp add: same_books_def link_ok_def)
  moreover
  have "same_link i s (upd_conn i (\<lambda>c. c\<lparr>c_w := Sockbuf_clear (c_w c)\<rparr>) s)"
    by (rule same_link_upd) (use assms in \<open>simp_all add: link_ok_def tx_ok_def wf_Sockbuf_clear\<close>)
  moreover have "sent_on i (upd_conn i (\<lambda>c. c\<lparr>c_w := Sockbuf_clear (c_w c)\<rparr>) s) = sent_on i s"
    using assms by (simp add: sent_on_def link_ok_def)
  ultimately show ?thesis
    using that assms by (simp add: clear_w_def link_ok_def)
qed

lemma Send_reliable_exact:
  assumes "link_ok S i s"
  shows "(\<exists>n s' ds. Send_reliable G i s = Some (int n, s') \<and> same_link i s s' \<and>
      (if n = 0 then same_books i s s' else booked i (c_reliable_offset (Conn s ! i) + int n) s s') \<and>
      sent_on i s' = sent_on i s @ ds \<and>
      slices S (main_loops s) (contents (c_w (Conn s ! i))) (nat (c_reliable_offset (Conn s ! i))) n ds) \<or>
    (\<exists>s1. Send_reliable G i s =
      do { s2 \<leftarrow> Destroy_connection G i (reason ''flush error'') s1; Some (-1, s2) })"
proof -
  let ?c = "Conn s ! i"
  have i: "i < length (Conn s)" using assms by (simp add: link_ok_def)
  have quiet: "?thesis" if "Send_reliable G i s = Some (0, s)"
    using that link_same_refl [OF assms] by (intro disjI1 exI [of _ 0] exI [of _ s] exI [of _ "[]"]) simp
  define M where "M = MAX_RELIABLE_DATA_PACKET_SIZE"
  define todo where "todo = (if sb_len (c_w ?c) > 0 \<and> sb_len (c_c ?c) > M - sb_len (c_w ?c)
    then M - sb_len (c_w ?c) else sb_len (c_c ?c))"
  define wait where "wait = (c_retransmit_at_loop ?c > main_loops s)"
  consider (none) "sb_len (c_c ?c) \<le> 0 \<or> c_last_send_loops ?c = main_loops s"
    | (big) "\<not> (sb_len (c_c ?c) \<le> 0 \<or> c_last_send_loops ?c = main_loops s)"
        "sb_len (c_w ?c) > 0 \<and> sb_len (c_w ?c) \<ge> M - min_send_size"
    | (early) "\<not> (sb_len (c_c ?c) \<le> 0 \<or> c_last_send_loops ?c = main_loops s)"
        "\<not> (sb_len (c_w ?c) > 0 \<and> sb_len (c_w ?c) \<ge> M - min_send_size)"
        "wait \<and> (todo \<le> c_reliable_unsent ?c - c_reliable_offset ?c + min_send_size \<or> sb_len (c_w ?c) = 0)"
    | (send) "\<not> (sb_len (c_c ?c) \<le> 0 \<or> c_last_send_loops ?c = main_loops s)"
        "\<not> (sb_len (c_w ?c) > 0 \<and> sb_len (c_w ?c) \<ge> M - min_send_size)"
        "\<not> (wait \<and> (todo \<le> c_reliable_unsent ?c - c_reliable_offset ?c + min_send_size \<or> sb_len (c_w ?c) = 0))"
    by blast
  then show ?thesis
  proof cases
    case none
    define s' where "s' = upd_conn i (\<lambda>c. c\<lparr>c_last_send_loops := main_loops s\<rparr>) s"
    have "Send_reliable G i s = Some (0, s')"
      unfolding Send_reliable_def get_conn_ok [OF i] bind.bind_lunit if_P [OF none] s'_def ..
    moreover have "same_link i s s'" "sent_on i s' = sent_on i s"
      unfolding s'_def by (rule link_upd [OF assms]; simp)+
    moreover have "same_books i s s'" using i by (simp add: s'_def same_books_def)
    ultimately show ?thesis by (intro disjI1 exI [of _ 0] exI [of _ s'] exI [of _ "[]"]) simp
  next
    case big
    show ?thesis
      by (rule quiet, unfold Send_reliable_def get_conn_ok [OF i] bind.bind_lunit if_not_P [OF big(1)]
          Let_def M_def [symmetric] if_P [OF big(2)]) (rule refl)
  next
    case early
    show ?thesis
      by (rule quiet, unfold Send_reliable_def get_conn_ok [OF i] bind.bind_lunit if_not_P [OF early(1)]
          Let_def M_def [symmetric] if_not_P [OF early(2)] todo_def [symmetric] wait_def [symmetric]
          if_P [OF early(3)]) (rule refl)
  next
    case send
    define s1 where "s1 = (if wait then s else if c_retransmit_at_loop ?c \<noteq> 0
      then upd_conn i (\<lambda>c. c\<lparr>c_acks := c_acks c div 2\<rparr>) s else s)"
    have s1: "same_link i s s1" "sent_on i s1 = sent_on i s"
      using link_upd [OF assms, of "\<lambda>c. c\<lparr>c_acks := c_acks c div 2\<rparr>"] link_same_refl [OF assms]
      by (simp_all add: s1_def)
    have w1: "c_w (Conn s1 ! i) = c_w ?c" using i by (simp add: s1_def)
    have b1: "same_books i s s1" using i by (simp add: s1_def same_books_def)
    note l1 = link_same [OF assms s1(1)]
    then have i1: "i < length (Conn s1)" "tx_ok (c_w (Conn s1 ! i))"
      "sockbuf_window.holds_window S (c_reliable_offset ?c) (c_c (Conn s1 ! i))"
      using s1(1) by (simp_all add: link_ok_def same_link_def)
    have bound: "0 + todo \<le> sb_len (c_c (Conn s1 ! i))"
      "0 < sb_len (c_w (Conn s1 ! i)) \<longrightarrow> sb_len (c_w (Conn s1 ! i)) + todo \<le> 1024"
      using s1(1) w1 by (auto simp: todo_def M_def MAX_RELIABLE_DATA_PACKET_SIZE_def same_link_def)
    have run: "Send_reliable G i s =
      do { (res, s2) \<leftarrow> rel_loop G i (nat (c_acks (Conn s1 ! i) + 1)) todo (c_reliable_offset ?c) 0 s1;
           (case res of
              None \<Rightarrow> Some (-1, s2)
            | Some (todo', rel_off) \<Rightarrow>
                do { s3 \<leftarrow> clear_w i s2;
                     let s4 = upd_conn i (\<lambda>c. c\<lparr>c_last_send_loops := main_loops s3\<rparr>) s3;
                     if todo - todo' \<le> 0 then Some (0, s4)
                     else Some (todo - todo', rel_books i rel_off s4) }) }"
      unfolding Send_reliable_def get_conn_ok [OF i] bind.bind_lunit if_not_P [OF send(1)]
        Let_def M_def [symmetric] if_not_P [OF send(2)] todo_def [symmetric] wait_def [symmetric]
        if_not_P [OF send(3)] s1_def [symmetric] get_conn_ok [OF i1(1)] rel_books_def ..
    have ml: "main_loops s1 = main_loops s" using s1(1) by (simp add: same_link_def)
    have "c_reliable_offset ?c = c_reliable_offset ?c + 0" "(0 :: int) \<le> 0" by simp_all
    from rel_loop_ok [OF i1(1,2) this(2) i1(3) this(1) bound, of G "nat (c_acks (Conn s1 ! i) + 1)",
        unfolded ml w1]
    consider (fin) n s2 ds where
        "rel_loop G i (nat (c_acks (Conn s1 ! i) + 1)) todo (c_reliable_offset ?c) 0 s1 =
           Some (Some (todo - int n, c_reliable_offset ?c + int n), s2)"
        "same_link i s1 s2" "same_books i s1 s2" "sent_on i s2 = sent_on i s1 @ ds"
        "slices S (main_loops s) (contents (c_w ?c)) (nat (c_reliable_offset ?c)) n ds"
      | (flush) s2 where "rel_loop G i (nat (c_acks (Conn s1 ! i) + 1)) todo (c_reliable_offset ?c) 0 s1 =
          do { s3 \<leftarrow> Destroy_connection G i (reason ''flush error'') s2; Some (None, s3) }"
      by (elim disjE exE conjE) blast+
    then show ?thesis
    proof cases
      case fin
      note l2 = link_same [OF l1 fin(2)]
      obtain s3 where s3: "clear_w i s2 = Some s3" "same_link i s2 s3" "same_books i s2 s3"
        "sent_on i s3 = sent_on i s2"
        by (rule clear_w_same [OF l2])
      define s4 where "s4 = upd_conn i (\<lambda>c. c\<lparr>c_last_send_loops := main_loops s3\<rparr>) s3"
      note l3 = link_same [OF l2 s3(2)]
      have s4: "same_link i s3 s4" "sent_on i s4 = sent_on i s3"
        unfolding s4_def by (rule link_upd [OF l3]; simp)+
      note l4 = link_same [OF l3 s4(1)]
      have "same_books i s3 s4" using l3 by (simp add: s4_def same_books_def link_ok_def)
      then have b4: "same_books i s s4" using b1 fin(3) s3(3) same_books_trans by blast
      have same4: "same_link i s s4"
        using s1(1) fin(2) s3(2) s4(1) same_link_trans by blast
      define s' where "s' = (if n = 0 then s4 else rel_books i (c_reliable_offset ?c + int n) s4)"
      have res: "Send_reliable G i s = Some (int n, s')"
        unfolding run fin(1) using s3(1) by (simp add: s4_def [symmetric] s'_def Let_def)
      have "same_link i s4 s'" "sent_on i s' = sent_on i s4"
        using link_same_refl [OF l4] rel_books_same [OF l4] by (simp_all add: s'_def)
      then have "same_link i s s'" "sent_on i s' = sent_on i s @ ds"
        using same4 same_link_trans fin(4) s1(2) s3(4) s4(2) by (blast, simp)
      moreover have "if n = 0 then same_books i s s' else booked i (c_reliable_offset ?c + int n) s s'"
      proof (cases "n = 0")
        case True
        then show ?thesis using b4 by (simp add: s'_def)
      next
        case False
        have "booked i (c_reliable_offset ?c + int n) s4 (rel_books i (c_reliable_offset ?c + int n) s4)"
          by (rule rel_books_booked) (use l4 in \<open>simp add: link_ok_def\<close>)
        then have "booked i (c_reliable_offset ?c + int n) s (rel_books i (c_reliable_offset ?c + int n) s4)"
          by (rule booked_cong [OF b4, rotated]) (use same4 in \<open>simp add: same_link_def\<close>)
        then show ?thesis using False by (simp add: s'_def)
      qed
      ultimately show ?thesis using res fin(5) by blast
    next
      case flush
      then have "Send_reliable G i s =
          do { s3 \<leftarrow> Destroy_connection G i (reason ''flush error'') s2; Some (-1, s3) }"
        unfolding run by (cases "Destroy_connection G i (reason ''flush error'') s2") simp_all
      then show ?thesis by blast
    qed
  qed
qed

lemma Send_reliable_ok:
  assumes "link_ok S i s"
  shows "(\<exists>n s' ds. Send_reliable G i s = Some (n, s') \<and> 0 \<le> n \<and> same_link i s s' \<and>
      sent_on i s' = sent_on i s @ ds \<and> carried S (main_loops s) (contents (c_w (Conn s ! i))) ds) \<or>
    (\<exists>s1. Send_reliable G i s =
      do { s2 \<leftarrow> Destroy_connection G i (reason ''flush error'') s1; Some (-1, s2) })"
  using Send_reliable_exact [OF assms, of G] slices_carried by (metis of_nat_0_le_iff)

subsection \<open>What an acknowledgement does\<close>

lemma Conn_set_state_same:
  assumes "link_ok S i s"
  obtains s' where "Conn_set_state i st drain s = Some s'" "same_link i s s'" "sent_on i s' = sent_on i s"
    "c_w (Conn s' ! i) = c_w (Conn s ! i)"
proof -
  define s1 where "s1 = (if has_bit (c_state (Conn s ! i)) (CONN_PLAYING OR CONN_READY)
                    then s\<lparr>num_conn_playing := num_conn_playing s - 1\<rparr>
                    else if c_state (Conn s ! i) = CONN_FREE
                    then s\<lparr>num_conn_busy := num_conn_busy s + 1\<rparr> else s)"
  have i: "i < length (Conn s)" "tx_ok (c_w (Conn s ! i))" using assms by (simp_all add: link_ok_def)
  have s1: "Conn s1 = Conn s" "main_loops s1 = main_loops s" "net s1 = net s"
    by (simp_all add: s1_def)
  define s2 where "s2 = upd_conn i (\<lambda>c. c\<lparr>c_state := st, c_drain_state := drain, c_start := main_loops s\<rparr>) s1"
  have s2: "length (Conn s2) = length (Conn s)" "main_loops s2 = main_loops s" "net s2 = net s"
    "Conn s2 = (Conn s)[i := (Conn s ! i)\<lparr>c_state := st, c_drain_state := drain, c_start := main_loops s\<rparr>]"
    using s1 by (simp_all add: s2_def) (simp add: upd_conn_def)
  from i(1) obtain s' t where s': "Conn_set_state i st drain s = Some s'" "main_loops s' = main_loops s"
    "net s' = net s" "Conn s' = (Conn s)[i := (Conn s ! i)\<lparr>c_state := st, c_drain_state := drain,
       c_start := main_loops s, c_timeout := t\<rparr>]"
  proof -
    assume a: "\<And>s' t. Conn_set_state i st drain s = Some s' \<Longrightarrow> main_loops s' = main_loops s \<Longrightarrow>
      net s' = net s \<Longrightarrow> Conn s' = (Conn s)[i := (Conn s ! i)\<lparr>c_state := st, c_drain_state := drain,
         c_start := main_loops s, c_timeout := t\<rparr>] \<Longrightarrow> thesis"
    note run = Conn_set_state_def [of i st drain s, unfolded get_conn_ok [OF i(1)] bind.bind_lunit Let_def,
        folded s1_def, folded s2_def]
    note defs = s2(2,3,4) upd_conn_def i(1)
    consider "st = CONN_PLAYING" | "st = CONN_READY" | "st = CONN_LOGIN" | "st = CONN_SETUP"
      | "st = CONN_LISTENING" | "st = CONN_FREE"
      | "st \<notin> {CONN_PLAYING, CONN_READY, CONN_LOGIN, CONN_SETUP, CONN_LISTENING, CONN_FREE}" by blast
    then show thesis
    proof cases
      case 7
      have "(Conn s ! i)\<lparr>c_state := st, c_drain_state := drain, c_start := main_loops s\<rparr> =
        (Conn s ! i)\<lparr>c_state := st, c_drain_state := drain, c_start := main_loops s,
          c_timeout := c_timeout (Conn s ! i)\<rparr>" by simp
      with 7 show ?thesis
        by (intro a [OF run, of "c_timeout (Conn s ! i)"]) (simp_all add: defs)
    qed (rule a [OF run]; simp add: defs)+
  qed
  show ?thesis
    by (rule that [OF s'(1)]) (use i s' in \<open>simp_all add: same_link_def sent_on_def\<close>)
qed

end
