(* ===== verification/Net_Session.thy ===== *)
theory Net_Session
  imports Net_Reliable "HOL-Library.Sublist"
begin

text \<open>
  The reliable stream of \<open>server/netserver.c\<close> from end to end: what one transmission sends, what one
  acknowledgement does, and a session of both with a client behind a network that loses, repeats
  and reorders datagrams.
\<close>

subsection \<open>Receiving an acknowledgement\<close>

definition ack_packet :: "i32 \<Rightarrow> i32 \<Rightarrow> byte list" where
  "ack_packet rel loops = word_of_int PKT_ACK # be32 rel @ be32 loops"

lemma ack_fmt: "parse_fmt ''%c%ld%ld'' = Some [DChar, DInt, DInt]"
  by (simp add: parse_dir.simps(2))

lemma scan_ack:
  assumes "i < length (Conn s)" "wf_sockbuf (c_r (Conn s ! i))" "no_refill (c_r (Conn s ! i))"
    "unread (c_r (Conn s ! i)) = ack_packet rel loops @ rest"
  shows "scan_r i ''%c%ld%ld'' s = Some (3, [OChar (word_of_int PKT_ACK), OInt rel, OInt loops],
    upd_net (sb_sock (c_r (Conn s ! i))) (net s (sb_sock (c_r (Conn s ! i))))
      (upd_conn i (\<lambda>c. c\<lparr>c_r := (c_r (Conn s ! i))\<lparr>sb_ptr := sb_ptr (c_r (Conn s ! i)) + 9\<rparr>\<rparr>) s))"
proof -
  have "(ucast (word_of_int PKT_ACK :: i32) :: byte) = word_of_int PKT_ACK" by (simp add: PKT_ACK_def)
  then have enc: "encode [DChar, DInt, DInt] [arg_int PKT_ACK, AInt rel, AInt loops] = Some (ack_packet rel loops)"
    and dec: "map2 decoded_arg [DChar, DInt, DInt] [arg_int PKT_ACK, AInt rel, AInt loops] =
      [OChar (word_of_int PKT_ACK), OInt rel, OInt loops]"
    by (simp_all add: arg_int_def ack_packet_def)
  have "length (ack_packet rel loops) = 9" by (simp add: ack_packet_def)
  then show ?thesis
    using Packet_scanf_decodes [OF ack_fmt enc assms(2-4), of "net s (sb_sock (c_r (Conn s ! i)))"] assms(1)
    unfolding dec by (simp add: scan_r_def)
qed

lemma drained_total:
  assumes "wf_sockbuf (c_c c)"
  shows "\<exists>b. drained c = Some b"
proof -
  obtain b where b: "sb_buf (c_c c) = Some b" "int (length b) = sb_size (c_c c)" "sb_len (c_c c) \<le> sb_size (c_c c)"
    using assms by (elim wf_sockbufE)
  then show ?thesis by (cases "sb_len (c_c c) \<le> 0") (auto simp: drained_def buf_at_def)
qed

lemma link_upd_w:
  assumes "link_ok S i s" "\<And>c. c_w (f c) = c_w c" "\<And>c. c_c (f c) = c_c c"
    "\<And>c. c_reliable_offset (f c) = c_reliable_offset c"
  shows "link_ok S i (upd_conn i f s)" "sent_on i (upd_conn i f s) = sent_on i s"
    "c_reliable_offset (Conn (upd_conn i f s) ! i) = c_reliable_offset (Conn s ! i)"
  using assms by (simp_all add: link_ok_def sent_on_def)

lemma link_wf_c: "link_ok S i s \<Longrightarrow> wf_sockbuf (c_c (Conn s ! i))"
  by (simp add: link_ok_def sockbuf_window.holds_window_def)

lemma ack_new_data_ok:
  assumes "link_ok S i s" "0 < diff" "diff \<le> sb_len (c_c (Conn s ! i))"
  shows "\<exists>s'. ack_new_data i diff s = Some s' \<and> link_ok S i s' \<and>
    c_reliable_offset (Conn s' ! i) = c_reliable_offset (Conn s ! i) + diff \<and>
    main_loops s' = main_loops s \<and> sent_on i s' = sent_on i s"
proof -
  let ?c = "Conn s ! i"
  have i: "i < length (Conn s)" and win: "sockbuf_window.holds_window S (c_reliable_offset ?c) (c_c ?c)"
    using assms(1) by (simp_all add: link_ok_def)
  have "diff \<le> int (length (contents (c_c ?c)))"
    using assms(3) length_contents [OF link_wf_c [OF assms(1)]] by simp
  then obtain sb where sb: "Sockbuf_advance diff (c_c ?c) = Some sb"
    "sockbuf_window.holds_window S (c_reliable_offset ?c + diff) sb"
    using sockbuf_window.drop_window [OF win, of diff] assms(2) by auto
  define acks where "acks = (\<lambda>c :: connection. if (diff + 511) div 512 > c_acks c then (diff + 511) div 512 else c_acks c + 1)"
  define s3 where "s3 = upd_conn i (\<lambda>c. c\<lparr>c_c := sb, c_reliable_offset := c_reliable_offset c + diff,
      c_acks := acks c\<rparr>) s"
  have s3: "link_ok S i s3" "c_reliable_offset (Conn s3 ! i) = c_reliable_offset ?c + diff"
    "main_loops s3 = main_loops s" "sent_on i s3 = sent_on i s"
    using assms(1) sb(2) i by (simp_all add: s3_def link_ok_def sent_on_def)
  have i3: "i < length (Conn s3)" using s3(1) by (simp add: link_ok_def)
  define m4 where "m4 = (if c_reliable_offset (Conn s3 ! i) \<ge> c_reliable_unsent (Conn s3 ! i)
      then (let s3' = upd_conn i (\<lambda>c. c\<lparr>c_retransmit_at_loop := 0\<rparr>) s3 in
            if c_state (Conn s3 ! i) = CONN_DRAIN
            then Conn_set_state i (c_drain_state (Conn s3 ! i)) (c_drain_state (Conn s3 ! i)) s3'
            else Some s3')
      else Some s3)"
  obtain s4 where s4: "m4 = Some s4" "link_ok S i s4"
    "c_reliable_offset (Conn s4 ! i) = c_reliable_offset ?c + diff"
    "main_loops s4 = main_loops s" "sent_on i s4 = sent_on i s"
  proof -
    define s3' where "s3' = upd_conn i (\<lambda>c. c\<lparr>c_retransmit_at_loop := 0\<rparr>) s3"
    have l: "link_ok S i s3'" "sent_on i s3' = sent_on i s3" "main_loops s3' = main_loops s3"
      "c_reliable_offset (Conn s3' ! i) = c_reliable_offset (Conn s3 ! i)"
      unfolding s3'_def using link_upd_w [OF s3(1), of "\<lambda>c. c\<lparr>c_retransmit_at_loop := 0\<rparr>"] by simp_all
    obtain t where t: "Conn_set_state i (c_drain_state (Conn s3 ! i)) (c_drain_state (Conn s3 ! i)) s3' = Some t"
      "same_link i s3' t" "sent_on i t = sent_on i s3'"
      by (rule Conn_set_state_same [OF l(1)])
    have "link_ok S i t" "c_reliable_offset (Conn t ! i) = c_reliable_offset (Conn s3' ! i)"
      "main_loops t = main_loops s3'"
      using link_same [OF l(1) t(2)] t(2) by (simp_all add: same_link_def)
    moreover define u where "u = (if c_reliable_offset (Conn s3 ! i) \<ge> c_reliable_unsent (Conn s3 ! i)
      then (if c_state (Conn s3 ! i) = CONN_DRAIN then t else s3') else s3)"
    moreover have "m4 = Some u" using t(1) by (simp add: m4_def s3'_def u_def)
    ultimately show ?thesis using l t(3) s3 by (intro that [of u]) simp_all
  qed
  have i4: "i < length (Conn s4)" using s4(2) by (simp add: link_ok_def)
  obtain b where b: "(if c_state (Conn s4 ! i) = CONN_READY then drained (Conn s4 ! i) else Some False) = Some b"
    using drained_total [OF link_wf_c [OF s4(2)]]
    by (cases "c_state (Conn s4 ! i) = CONN_READY") auto
  obtain t where t: "Conn_set_state i (c_drain_state (Conn s4 ! i)) (c_drain_state (Conn s4 ! i)) s4 = Some t"
    "same_link i s4 t" "sent_on i t = sent_on i s4"
    by (rule Conn_set_state_same [OF s4(2)])
  define s5 where "s5 = (if b then t else s4)"
  have s5: "link_ok S i s5" "c_reliable_offset (Conn s5 ! i) = c_reliable_offset ?c + diff"
    "main_loops s5 = main_loops s" "sent_on i s5 = sent_on i s"
    using link_same [OF s4(2) t(2)] t(2,3) s4 by (simp_all add: s5_def same_link_def)
  have "ack_new_data i diff s = Some (upd_conn i (\<lambda>c. c\<lparr>c_rtt_timeouts := 0\<rparr>) s5)"
    unfolding ack_new_data_def get_conn_ok [OF i] bind.bind_lunit sb(1) Let_def s3_def [unfolded acks_def, symmetric]
      get_conn_ok [OF i3] m4_def [unfolded Let_def, symmetric] s4(1) get_conn_ok [OF i4] b
    using t(1) by (cases b) (simp_all add: s5_def)
  then show ?thesis
    using link_upd_w [OF s5(1), of "\<lambda>c. c\<lparr>c_rtt_timeouts := 0\<rparr>"] s5 by simp
qed

lemma Receive_ack_ok:
  assumes "link_ok S i s" "wf_sockbuf (c_r (Conn s ! i))" "no_refill (c_r (Conn s ! i))"
    "unread (c_r (Conn s ! i)) = ack_packet rel loops @ rest"
    "int32_of (main_loops s - sint loops) \<noteq> None"
    "int32_of (sint rel - c_reliable_offset (Conn s ! i)) \<noteq> None"
  shows "if sint rel \<le> int (length S)
    then \<exists>s'. Receive_ack G i s = Some (1, s') \<and> link_ok S i s' \<and>
      c_reliable_offset (Conn s' ! i) = max (c_reliable_offset (Conn s ! i)) (sint rel) \<and>
      main_loops s' = main_loops s \<and> sent_on i s' = sent_on i s
    else \<exists>s2. Receive_ack G i s =
      do { s3 \<leftarrow> Destroy_connection G i (reason ''bad ack'') s2; Some (-1, s3) }"
proof -
  let ?c = "Conn s ! i"
  let ?k = "sb_sock (c_r ?c)"
  have i: "i < length (Conn s)" and win: "sockbuf_window.holds_window S (c_reliable_offset ?c) (c_c ?c)"
    and tx: "tx_ok (c_w ?c)"
    using assms(1) by (simp_all add: link_ok_def)
  have wfc: "wf_sockbuf (c_c ?c)" and off: "0 \<le> c_reliable_offset ?c" "c_reliable_offset ?c \<le> int (length S)"
    and cont: "contents (c_c ?c) = drop (nat (c_reliable_offset ?c)) S"
    using win by (simp_all add: sockbuf_window.holds_window_def)
  have clen: "sb_len (c_c ?c) = int (length S) - c_reliable_offset ?c"
    using length_contents [OF wfc] cont off by simp
  define rb where "rb = (c_r ?c)\<lparr>sb_ptr := sb_ptr (c_r ?c) + 9\<rparr>"
  define s1 where "s1 = upd_net ?k (net s ?k) (upd_conn i (\<lambda>c. c\<lparr>c_r := rb\<rparr>) s)"
  have scan: "scan_r i ''%c%ld%ld'' s = Some (3, [OChar (word_of_int PKT_ACK), OInt rel, OInt loops], s1)"
    using scan_ack [OF i assms(2-4)] by (simp add: s1_def rb_def)
  obtain rtt where rtt: "int32_of (main_loops s - sint loops) = Some rtt" using assms(5) by auto
  obtain diff where "int32_of (sint rel - c_reliable_offset ?c) = Some diff" using assms(6) by auto
  then have diff: "int32_of (sint rel - c_reliable_offset ?c) = Some diff" "diff = sint rel - c_reliable_offset ?c"
    by (auto simp: int32_of_def split: if_splits)
  define s2 where "s2 = upd_conn i (update_rtt rtt s1) s1"
  have s1: "length (Conn s1) = length (Conn s)" "main_loops s1 = main_loops s" "net s1 = net s"
    "Conn s1 ! i = ?c\<lparr>c_r := rb\<rparr>"
    using i by (simp_all add: s1_def)
  have s2: "length (Conn s2) = length (Conn s)" "main_loops s2 = main_loops s" "net s2 = net s"
    "c_c (Conn s2 ! i) = c_c ?c" "c_w (Conn s2 ! i) = c_w ?c"
    "c_reliable_offset (Conn s2 ! i) = c_reliable_offset ?c"
    using i s1 by (simp_all add: s2_def)
  have l2: "link_ok S i s2" using s2 i tx win by (simp add: link_ok_def)
  have sent2: "sent_on i s2 = sent_on i s" using s2 by (simp add: sent_on_def)
  have g2: "get_conn i s2 = Some (Conn s2 ! i)" using i s2(1) by simp
  have run: "Receive_ack G i s =
    (if diff > sb_len (c_c ?c) then do { s3 \<leftarrow> Destroy_connection G i (reason ''bad ack'') s2; Some (-1, s3) }
     else if diff \<le> 0 then Some (1, s2)
     else do { s3 \<leftarrow> ack_new_data i diff s2; Some (1, s3) })"
    unfolding Receive_ack_def scan bind.bind_lunit
    by (simp add: s1(2) rtt s2_def [symmetric] g2 s2(4,6) diff(1))
  show ?thesis
  proof (cases "sint rel \<le> int (length S)")
    case False
    then have "diff > sb_len (c_c ?c)" using clen diff(2) by simp
    then show ?thesis unfolding run using False by auto
  next
    case True
    then have le: "\<not> diff > sb_len (c_c ?c)" using clen diff(2) by simp
    show ?thesis
    proof (cases "diff \<le> 0")
      case old: True
      then show ?thesis unfolding run using True le l2 s2 sent2 diff(2) by simp
    next
      case False
      then have "0 < diff" "diff \<le> sb_len (c_c (Conn s2 ! i))" using le s2(4) by simp_all
      from ack_new_data_ok [OF l2 this] obtain s' where s': "ack_new_data i diff s2 = Some s'"
        "link_ok S i s'" "c_reliable_offset (Conn s' ! i) = c_reliable_offset ?c + diff"
        "main_loops s' = main_loops s" "sent_on i s' = sent_on i s"
        using s2 sent2 by auto
      then show ?thesis unfolding run using True le False diff(2) by simp
    qed
  qed
qed

subsection \<open>A session\<close>

text \<open>The client is not part of this repository. What is used of it is what the comment at the top of
  \<open>netserver.c\<close> says: it takes data from a reliable packet only when the packet continues what it has
  without a gap, discards any other packet, and acknowledges its byte position with the time stamp of
  the packet it answers. \<open>R\<close> is the data a client has, \<open>recv R d\<close> the data it has after the datagram
  \<open>d\<close> and the acknowledgement it sends, if any.\<close>

type_synonym client = "byte list \<Rightarrow> byte list \<Rightarrow> byte list \<times> (i32 \<times> i32) option"

definition honest_client :: "client \<Rightarrow> bool" where
  "honest_client recv \<longleftrightarrow>
     (\<forall>R d. case recv R d of (R', ack) \<Rightarrow>
        (R' = R \<or> (\<exists>off loops chunk. d = rel_dgram (int off) loops chunk \<and> off < 2 ^ 31 \<and>
            off \<le> length R \<and> R' = R @ drop (length R - off) chunk)) \<and>
        (\<forall>rel t. ack = Some (rel, t) \<longrightarrow> rel = word_of_int (int (length R')) \<and>
            (\<exists>off loops chunk. d = rel_dgram off loops chunk \<and> t = word_of_int loops)))"

text \<open>A session of connection \<open>i\<close>: the server, the stream \<open>S\<close> the server has written so far, the
  client's data \<open>R\<close> and the acknowledgements \<open>A\<close> it has sent. The network delivers any datagram ever
  sent, in any order and any number of times, or never. Between these steps the rest of the server may
  do anything that leaves this connection and its socket alone. Transmissions are those that carry no
  frame update.\<close>

inductive session ::
  "client \<Rightarrow> game \<Rightarrow> nat \<Rightarrow> server \<Rightarrow> byte list \<Rightarrow> byte list \<Rightarrow> (i32 \<times> i32) set \<Rightarrow> bool"
  for recv G i where
  begins: "link_ok [] i s \<Longrightarrow> sent_on i s = [] \<Longrightarrow> 0 \<le> main_loops s \<Longrightarrow> main_loops s < 2 ^ 31 \<Longrightarrow>
    session recv G i s [] [] {}"
| writes: "session recv G i s S R A \<Longrightarrow> parse_fmt fmt = Some ds \<Longrightarrow> list_all2 typed_arg ds args \<Longrightarrow>
    print_c i fmt args s = Some (n, s') \<Longrightarrow>
    S' = S @ drop (length (contents (c_c (Conn s ! i)))) (contents (c_c (Conn s' ! i))) \<Longrightarrow>
    length S' < 2 ^ 31 \<Longrightarrow> session recv G i s' S' R A"
| transmits: "session recv G i s S R A \<Longrightarrow> sb_len (c_w (Conn s ! i)) = 0 \<Longrightarrow>
    Send_reliable G i s = Some (n, s') \<Longrightarrow> n \<noteq> -1 \<Longrightarrow> session recv G i s' S R A"
| delivers: "session recv G i s S R A \<Longrightarrow> d \<in> set (sent_on i s) \<Longrightarrow> recv R d = (R', ack) \<Longrightarrow>
    session recv G i s S R' (A \<union> set_option ack)"
| acknowledged: "session recv G i s S R A \<Longrightarrow> (rel, t) \<in> A \<Longrightarrow> wf_sockbuf r \<Longrightarrow> no_refill r \<Longrightarrow>
    unread r = ack_packet rel t @ rest \<Longrightarrow>
    Receive_ack G i (upd_conn i (\<lambda>c. c\<lparr>c_r := r\<rparr>) s) = Some (n, s') \<Longrightarrow> n \<noteq> -1 \<Longrightarrow>
    session recv G i s' S R A"
| elsewhere: "session recv G i s S R A \<Longrightarrow> length (Conn s') = length (Conn s) \<Longrightarrow> Conn s' ! i = Conn s ! i \<Longrightarrow>
    sent_on i s' = sent_on i s \<Longrightarrow> main_loops s \<le> main_loops s' \<Longrightarrow> main_loops s' < 2 ^ 31 \<Longrightarrow>
    session recv G i s' S R A"

definition session_inv :: "nat \<Rightarrow> server \<Rightarrow> byte list \<Rightarrow> byte list \<Rightarrow> (i32 \<times> i32) set \<Rightarrow> bool" where
  "session_inv i s S R A \<longleftrightarrow> link_ok S i s \<and> length S < 2 ^ 31 \<and>
     0 \<le> main_loops s \<and> main_loops s < 2 ^ 31 \<and> prefix R S \<and>
     c_reliable_offset (Conn s ! i) \<le> int (length R) \<and>
     (\<forall>d \<in> set (sent_on i s). \<exists>l. 0 \<le> l \<and> l \<le> main_loops s \<and> carries S l [] d) \<and>
     (\<forall>(rel, t) \<in> A. 0 \<le> sint rel \<and> sint rel \<le> int (length R) \<and> 0 \<le> sint t \<and> sint t \<le> main_loops s)"

lemma carries_longer: "carries S l pre d \<Longrightarrow> carries (S @ T) l pre d"
proof -
  assume "carries S l pre d"
  then obtain off len q where c: "off + len \<le> length S" "0 < len" "int len \<le> MAX_RELIABLE_DATA_PACKET_SIZE"
    "d = take q (pre @ rel_dgram (int off) l (take len (drop off S)))"
    unfolding carries_def by blast
  then have "take len (drop off (S @ T)) = take len (drop off S)" by simp
  then show ?thesis
    unfolding carries_def using c by (intro exI [of _ off] exI [of _ len] exI [of _ q]) simp
qed

lemma carried_set: "carried S l [] ds \<Longrightarrow> d \<in> set ds \<Longrightarrow> carries S l [] d"
  by (auto simp: carried_def list_all_iff split: list.splits)

lemma be32_inj: "be32 a = be32 b \<Longrightarrow> a = b"
  by (metis un_be32_be32)

text \<open>A reliable packet read from a transmitted datagram is a slice of the stream.\<close>

lemma read_slice:
  assumes "carries S l [] d" "d = rel_dgram off' l' chunk"
  obtains off m where "chunk = take m (drop off S)" "off \<le> length S"
    "(word_of_int off' :: i32) = word_of_int (int off)" "(word_of_int l' :: i32) = word_of_int l"
proof -
  obtain off len q where c: "off + len \<le> length S"
    "d = take q (rel_dgram (int off) l (take len (drop off S)))"
    using assms(1) unfolding carries_def by auto
  define slice where "slice = take len (drop off S)"
  have eq: "rel_dgram off' l' chunk = take q (rel_dgram (int off) l slice)"
    using assms(2) c(2) by (simp add: slice_def)
  have "length (rel_dgram off' l' chunk) = 11 + length chunk" by (simp add: rel_dgram_def)
  moreover have "length (take q (rel_dgram (int off) l slice)) \<le> q" by simp
  ultimately have q: "11 \<le> q" using eq by simp
  define head where "head = (\<lambda>o' t (c :: byte list). word_of_int PKT_RELIABLE # be16 (word_of_int (int (length c))) @
    be32 (word_of_int o') @ be32 (word_of_int t) :: byte list)"
  have split: "rel_dgram o' t c = head o' t c @ c" "length (head o' t c) = 11" for o' t c
    by (simp_all add: rel_dgram_def head_def)
  have "head off' l' chunk @ chunk = head (int off) l slice @ take (q - 11) slice"
  proof -
    have "take q (head (int off) l slice) = head (int off) l slice" using q by (simp add: split(2))
    then show ?thesis using eq unfolding split(1) take_append split(2) by (rule subst)
  qed
  moreover have "length (head off' l' chunk) = length (head (int off) l slice)" by (simp add: split(2))
  ultimately have parts: "head off' l' chunk = head (int off) l slice" "chunk = take (q - 11) slice"
    unfolding append_eq_append_conv [OF disjI1 [OF \<open>length (head off' l' chunk) = length (head (int off) l slice)\<close>]]
    by blast+
  then have "be32 (word_of_int off') @ be32 (word_of_int l') = be32 (word_of_int (int off)) @ be32 (word_of_int l)"
    by (simp add: head_def append_eq_append_conv)
  then have "be32 (word_of_int off') = be32 (word_of_int (int off))" "be32 (word_of_int l') = be32 (word_of_int l)"
    by (simp_all add: append_eq_append_conv)
  then show ?thesis
    using that [of "min (q - 11) len" off] parts(2) c(1) be32_inj by (simp add: slice_def)
qed

lemma session_delivers:
  assumes "session_inv i s S R A" "honest_client recv" "d \<in> set (sent_on i s)" "recv R d = (R', ack)"
  shows "session_inv i s S R' (A \<union> set_option ack)"
proof -
  have inv: "prefix R S" "length S < 2 ^ 31" "main_loops s < 2 ^ 31"
    using assms(1) by (simp_all add: session_inv_def)
  obtain l where l: "0 \<le> l" "l \<le> main_loops s" "carries S l [] d"
    using assms(1,3) unfolding session_inv_def by blast
  have R': "R' = R \<or> (\<exists>off loops chunk. d = rel_dgram (int off) loops chunk \<and> off < 2 ^ 31 \<and>
      off \<le> length R \<and> R' = R @ drop (length R - off) chunk)"
    and ack: "\<And>rel t. ack = Some (rel, t) \<Longrightarrow> rel = word_of_int (int (length R')) \<and>
      (\<exists>off loops chunk. d = rel_dgram off loops chunk \<and> t = word_of_int loops)"
  proof -
    from assms(2) have spec: "case recv R d of (R', ack) \<Rightarrow>
        (R' = R \<or> (\<exists>off loops chunk. d = rel_dgram (int off) loops chunk \<and> off < 2 ^ 31 \<and>
            off \<le> length R \<and> R' = R @ drop (length R - off) chunk)) \<and>
        (\<forall>rel t. ack = Some (rel, t) \<longrightarrow> rel = word_of_int (int (length R')) \<and>
            (\<exists>off loops chunk. d = rel_dgram off loops chunk \<and> t = word_of_int loops))"
      unfolding honest_client_def by - (erule allE, erule allE, assumption)
    note spec = spec [unfolded assms(4) prod.case]
    show "R' = R \<or> (\<exists>off loops chunk. d = rel_dgram (int off) loops chunk \<and> off < 2 ^ 31 \<and>
      off \<le> length R \<and> R' = R @ drop (length R - off) chunk)" using spec by blast
    show "\<And>rel t. ack = Some (rel, t) \<Longrightarrow> rel = word_of_int (int (length R')) \<and>
      (\<exists>off loops chunk. d = rel_dgram off loops chunk \<and> t = word_of_int loops)" using spec by blast
  qed
  have new: "prefix R' S \<and> length R \<le> length R'"
    using R'
  proof (elim disjE exE conjE)
    assume "R' = R"
    then show ?thesis using inv(1) by simp
  next
    fix off loops chunk
    assume d: "d = rel_dgram (int off) loops chunk" "off < 2 ^ 31" "off \<le> length R"
      "R' = R @ drop (length R - off) chunk"
    from read_slice [OF l(3) d(1)] obtain off' m where sl: "chunk = take m (drop off' S)" "off' \<le> length S"
      "(word_of_int (int off) :: i32) = word_of_int (int off')" by blast
    have pos: "sint (word_of_int (int off) :: i32) = int off" "sint (word_of_int (int off') :: i32) = int off'"
      using d(2) sl(2) inv(2) by (intro sint_i32_of_int; simp)+
    have "int off = int off'" using arg_cong [OF sl(3), of sint] unfolding pos .
    then have "off' = off" by simp
    obtain T where T: "S = R @ T" using inv(1) by (auto simp: prefix_def)
    have "drop (length R - off) chunk = take (m - (length R - off)) T"
    proof -
      have "drop (length R - off) (drop off S) = T" using d(3) by (simp add: T)
      then show ?thesis unfolding sl(1) \<open>off' = off\<close> drop_take by (rule arg_cong)
    qed
    then show ?thesis using d(4) by (simp add: T take_is_prefix)
  qed
  have acks: "0 \<le> sint rel \<and> sint rel \<le> int (length R') \<and> 0 \<le> sint t \<and> sint t \<le> main_loops s"
    if "ack = Some (rel, t)" for rel t
  proof -
    from ack [OF that] obtain off loops chunk where a: "rel = word_of_int (int (length R'))"
      "d = rel_dgram off loops chunk" "t = word_of_int loops" by blast
    from read_slice [OF l(3) a(2)] have t: "t = word_of_int l" using a(3) by metis
    have "length R' \<le> length S" using new by (simp add: prefix_length_le)
    then have "sint rel = int (length R')" unfolding a(1) by (intro sint_i32_of_int) (use inv(2) in simp_all)
    moreover have "sint t = l" unfolding t by (intro sint_i32_of_int) (use l inv(3) in simp_all)
    ultimately show ?thesis using l by simp
  qed
  show ?thesis
    using assms(1) new acks unfolding session_inv_def by (cases ack) fastforce+
qed

lemma session_acknowledged:
  assumes "session_inv i s S R A" "(rel, t) \<in> A" "wf_sockbuf r" "no_refill r"
    "unread r = ack_packet rel t @ rest"
  obtains s' where "Receive_ack G i (upd_conn i (\<lambda>c. c\<lparr>c_r := r\<rparr>) s) = Some (1, s')" "session_inv i s' S R A"
    "c_reliable_offset (Conn s' ! i) = max (c_reliable_offset (Conn s ! i)) (sint rel)"
proof -
  let ?s = "upd_conn i (\<lambda>c. c\<lparr>c_r := r\<rparr>) s"
  have inv: "link_ok S i s" "prefix R S" "0 \<le> main_loops s" "main_loops s < 2 ^ 31"
    "0 \<le> sint rel" "sint rel \<le> int (length R)" "0 \<le> sint t" "sint t \<le> main_loops s"
    "c_reliable_offset (Conn s ! i) \<le> int (length R)" "length S < 2 ^ 31"
    using assms(1,2) unfolding session_inv_def by auto
  have i: "i < length (Conn s)" and off: "0 \<le> c_reliable_offset (Conn s ! i)"
    using inv(1) by (simp_all add: link_ok_def sockbuf_window.holds_window_def)
  have l: "link_ok S i ?s" "sent_on i ?s = sent_on i s"
    "c_reliable_offset (Conn ?s ! i) = c_reliable_offset (Conn s ! i)"
    using link_upd_w [OF inv(1), of "\<lambda>c. c\<lparr>c_r := r\<rparr>"] by simp_all
  have r: "c_r (Conn ?s ! i) = r" using i by simp
  have len: "length R \<le> length S" using inv(2) by (rule prefix_length_le)
  have "int32_of (main_loops ?s - sint t) \<noteq> None" "int32_of (sint rel - c_reliable_offset (Conn ?s ! i)) \<noteq> None"
    using inv off len unfolding l(3) by (simp_all add: int32_of_def)
  from Receive_ack_ok [OF l(1), unfolded r, OF assms(3-5) this, of G] obtain s' where s':
    "Receive_ack G i ?s = Some (1, s')" "link_ok S i s'"
    "c_reliable_offset (Conn s' ! i) = max (c_reliable_offset (Conn s ! i)) (sint rel)"
    "main_loops s' = main_loops s" "sent_on i s' = sent_on i s"
    using inv(6) len l by auto
  have "session_inv i s' S R A"
    using assms(1) s' inv(6,9) unfolding session_inv_def by simp
  then show ?thesis using that s' by blast
qed

lemma session_writes:
  assumes "session_inv i s S R A" "parse_fmt fmt = Some ds" "list_all2 typed_arg ds args"
    "print_c i fmt args s = Some (n, s')"
    "S' = S @ drop (length (contents (c_c (Conn s ! i)))) (contents (c_c (Conn s' ! i)))" "length S' < 2 ^ 31"
  shows "session_inv i s' S' R A"
proof -
  have l: "link_ok S i s" "prefix R S" using assms(1) by (simp_all add: session_inv_def)
  then have i: "i < length (Conn s)" and win: "sockbuf_window.holds_window S (c_reliable_offset (Conn s ! i)) (c_c (Conn s ! i))"
    by (simp_all add: link_ok_def)
  obtain r c' d where c': "Packet_printf (last_packet_of_frame s) (c_c (Conn s ! i)) fmt args = Some (r, c')"
    "wf_sockbuf c'" "contents c' = contents (c_c (Conn s ! i)) @ d"
    by (rule Packet_printf_total [OF link_wf_c [OF l(1)] assms(2,3)])
  have s': "s' = upd_conn i (\<lambda>c. c\<lparr>c_c := c'\<rparr>) s"
    using assms(4) c'(1) i by (simp add: print_c_def)
  have cc: "c_c (Conn s' ! i) = c'" using i by (simp add: s')
  have S': "S' = S @ d" unfolding assms(5) cc c'(3) by simp
  have "sockbuf_window.holds_window S' (c_reliable_offset (Conn s ! i)) c'"
  proof -
    have off: "nat (c_reliable_offset (Conn s ! i)) \<le> length S"
      using win unfolding sockbuf_window.holds_window_def by linarith
    show ?thesis using win c'(2,3) off by (simp add: sockbuf_window.holds_window_def S')
  qed
  then have "link_ok S' i s'" using l(1) i by (simp add: link_ok_def s')
  moreover have "sent_on i s' = sent_on i s" "main_loops s' = main_loops s"
    "c_reliable_offset (Conn s' ! i) = c_reliable_offset (Conn s ! i)"
    using i by (simp_all add: s' sent_on_def)
  moreover have "prefix R S'" using l(2) by (simp add: S')
  moreover have "\<forall>d \<in> set (sent_on i s). \<exists>l. 0 \<le> l \<and> l \<le> main_loops s \<and> carries S' l [] d"
    using assms(1) unfolding session_inv_def S' by (blast intro: carries_longer)
  ultimately show ?thesis using assms(1,6) unfolding session_inv_def by simp
qed

lemma session_transmits:
  assumes "session_inv i s S R A" "sb_len (c_w (Conn s ! i)) = 0" "Send_reliable G i s = Some (n, s')" "n \<noteq> -1"
  shows "session_inv i s' S R A"
proof -
  have l: "link_ok S i s" and ml: "0 \<le> main_loops s" using assms(1) by (simp_all add: session_inv_def)
  then have "wf_sockbuf (c_w (Conn s ! i))" by (simp add: link_ok_def tx_ok_def)
  then have "contents (c_w (Conn s ! i)) = []"
    using length_contents [of "c_w (Conn s ! i)"] assms(2) by simp
  note w = this
  from Send_reliable_ok [OF l, of G] obtain ds where ds: "same_link i s s'"
    "sent_on i s' = sent_on i s @ ds" "carried S (main_loops s) [] ds"
  proof (elim disjE exE conjE)
    fix m t ds
    assume "Send_reliable G i s = Some (m, t)" "same_link i s t" "sent_on i t = sent_on i s @ ds"
      "carried S (main_loops s) (contents (c_w (Conn s ! i))) ds"
    then show thesis using that assms(3) w by simp
  next
    fix s1
    assume "Send_reliable G i s = do { s2 \<leftarrow> Destroy_connection G i (reason ''flush error'') s1; Some (-1, s2) }"
    then show thesis
      using assms(3,4) by (cases "Destroy_connection G i (reason ''flush error'') s1") simp_all
  qed
  have "\<exists>l. 0 \<le> l \<and> l \<le> main_loops s \<and> carries S l [] d" if "d \<in> set (sent_on i s')" for d
  proof (cases "d \<in> set (sent_on i s)")
    case True
    then show ?thesis using assms(1) by (simp add: session_inv_def)
  next
    case False
    then have "d \<in> set ds" using that ds(2) by simp
    then have "carries S (main_loops s) [] d" by (rule carried_set [OF ds(3)])
    then show ?thesis using ml by blast
  qed
  moreover have "main_loops s' = main_loops s" "c_reliable_offset (Conn s' ! i) = c_reliable_offset (Conn s ! i)"
    using ds(1) by (simp_all add: same_link_def)
  ultimately show ?thesis
    using assms(1) link_same [OF l ds(1)] unfolding session_inv_def by simp
qed

lemma session_keeps_inv:
  assumes "session recv G i s S R A" "honest_client recv"
  shows "session_inv i s S R A"
  using assms
proof (induction rule: session.induct)
  case (begins s)
  then show ?case by (simp add: session_inv_def link_ok_def sockbuf_window.holds_window_def)
next
  case (writes s S R A fmt ds args n s' S')
  then show ?case using session_writes by blast
next
  case (transmits s S R A n s')
  then show ?case using session_transmits by blast
next
  case (delivers s S R A d R' ack)
  then show ?case using session_delivers by blast
next
  case (acknowledged s S R A rel t r rest n s')
  then have "session_inv i s S R A" by blast
  from session_acknowledged [OF this acknowledged.hyps(2-5), of G] acknowledged.hyps(6) show ?case by auto
next
  case (elsewhere s S R A s')
  then have inv: "session_inv i s S R A" by blast
  then have "link_ok S i s'" using elsewhere.hyps(2,3) by (simp add: session_inv_def link_ok_def)
  then show ?case
    using inv elsewhere.hyps(3-6) unfolding session_inv_def by fastforce
qed

subsection \<open>Properties\<close>

text \<open>A client, a connection with empty buffers and a server with that connection.\<close>

definition demo_client :: client where
  "demo_client R d =
     (let off = sint (un_be32 (take 4 (drop 3 d))); t = sint (un_be32 (take 4 (drop 7 d))); chunk = drop 11 d
      in if 11 \<le> length d \<and> 0 \<le> off \<and> d = rel_dgram off t chunk
         then (let R' = (if nat off \<le> length R then R @ drop (length R - nat off) chunk else R)
               in (R', Some (word_of_int (int (length R')), word_of_int t)))
         else (R, None))"

lemma demo_honest: "honest_client demo_client"
  unfolding honest_client_def
proof (intro allI)
  fix R d
  define off where "off = sint (un_be32 (take 4 (drop 3 d)))"
  define t where "t = sint (un_be32 (take 4 (drop 7 d)))"
  define chunk where "chunk = drop 11 d"
  define R' where "R' = (if nat off \<le> length R then R @ drop (length R - nat off) chunk else R)"
  have run: "demo_client R d = (if 11 \<le> length d \<and> 0 \<le> off \<and> d = rel_dgram off t chunk
      then (R', Some (word_of_int (int (length R')), word_of_int t)) else (R, None))"
    unfolding demo_client_def Let_def off_def [symmetric] t_def [symmetric] chunk_def [symmetric]
      R'_def [symmetric] ..
  have small: "nat off < 2 ^ 31" if "0 \<le> off"
    using sint_i32_bounds(2) [of "un_be32 (take 4 (drop 3 d))"] that by (simp add: off_def nat_less_iff)
  show "case demo_client R d of (R', ack) \<Rightarrow>
      (R' = R \<or> (\<exists>off loops chunk. d = rel_dgram (int off) loops chunk \<and> off < 2 ^ 31 \<and>
          off \<le> length R \<and> R' = R @ drop (length R - off) chunk)) \<and>
      (\<forall>rel t. ack = Some (rel, t) \<longrightarrow> rel = word_of_int (int (length R')) \<and>
          (\<exists>off loops chunk. d = rel_dgram off loops chunk \<and> t = word_of_int loops))"
  proof (cases "11 \<le> length d \<and> 0 \<le> off \<and> d = rel_dgram off t chunk")
    case True
    then have "d = rel_dgram (int (nat off)) t chunk" by simp
    moreover have "R' = R \<or> (nat off \<le> length R \<and> R' = R @ drop (length R - nat off) chunk)"
      by (simp add: R'_def)
    ultimately show ?thesis using small True unfolding run if_P [OF True] prod.case by blast
  next
    case False
    show ?thesis unfolding run if_not_P [OF False] prod.case by simp
  qed
qed

definition demo_conn :: connection where
  "demo_conn = fresh_connection
     \<lparr>c_w := \<lparr>sb_sock = 7, sb_buf = Some (replicate 4096 0), sb_size = 4096, sb_len = 0, sb_ptr = 0, sb_state = 0x12\<rparr>,
      c_r := \<lparr>sb_sock = 7, sb_buf = Some (replicate 9 0), sb_size = 9, sb_len = 0, sb_ptr = 0, sb_state = 0x11\<rparr>,
      c_c := \<lparr>sb_sock = -1, sb_buf = Some (replicate 16 0), sb_size = 16, sb_len = 0, sb_ptr = 0, sb_state = 0x07\<rparr>\<rparr>"

definition demo_link :: server where
  "demo_link = demo_server0\<lparr>Conn := [demo_conn], net := (\<lambda>_. empty_os\<lparr>os_sends := [SendOk 5000]\<rparr>)\<rparr>"

definition demo_written :: "server option" where
  "demo_written = map_option snd (print_c 0 ''%c%c'' [AInt 2, AInt 1] demo_link)"

lemma demo_written_ok:
  "map_option (\<lambda>s. (contents (c_c (Conn s ! 0)), sb_len (c_w (Conn s ! 0)))) demo_written = Some ([2, 1], 0)"
  by code_simp

lemma demo_sent: "Option.bind demo_written (\<lambda>s. map_option (\<lambda>(n, s'). (n, sent_on 0 s'))
    (Send_reliable quiet_game 0 s)) = Some (2, [rel_dgram 0 100 [2, 1]])"
  by code_simp

lemma demo_received: "demo_client [] (rel_dgram 0 100 [2, 1]) = ([2, 1], Some (2, 100))"
  by code_simp

lemma demo_link_ok: "link_ok [] 0 demo_link"
  by (simp add: link_ok_def demo_link_def demo_conn_def tx_ok_def wf_sockbuf_def SERVER_SEND_SIZE_def
      SOCKBUF_WRITE_def SOCKBUF_DGRAM_def sockbuf_window.holds_window_def contents_def
      fresh_connection_def zero_connection_def)

lemma demo_session: "\<exists>s. session demo_client quiet_game 0 s [2, 1] [2, 1] {(2, 100)}"
proof -
  have "sent_on 0 demo_link = []" "main_loops demo_link = 100" "contents (c_c (Conn demo_link ! 0)) = []"
    by (simp_all add: sent_on_def demo_link_def demo_conn_def empty_os_def demo_server0_def contents_def)
  note link = this
  have 0: "session demo_client quiet_game 0 demo_link [] [] {}"
    by (rule session.begins [OF demo_link_ok]) (simp_all add: link)
  obtain n s1 where w: "print_c 0 ''%c%c'' [AInt 2, AInt 1] demo_link = Some (n, s1)"
    "contents (c_c (Conn s1 ! 0)) = [2, 1]" "sb_len (c_w (Conn s1 ! 0)) = 0" "demo_written = Some s1"
    using demo_written_ok by (auto simp: demo_written_def)
  have 1: "session demo_client quiet_game 0 s1 [2, 1] [] {}"
    by (rule session.writes [OF 0 _ _ w(1), of "[DChar, DChar]"]) (simp_all add: parse_dir.simps(2) link w(2))
  obtain s2 where t: "Send_reliable quiet_game 0 s1 = Some (2, s2)" "sent_on 0 s2 = [rel_dgram 0 100 [2, 1]]"
    using demo_sent by (auto simp: w(4))
  have 2: "session demo_client quiet_game 0 s2 [2, 1] [] {}"
    by (rule session.transmits [OF 1 w(3) t(1)]) simp
  have "session demo_client quiet_game 0 s2 [2, 1] [2, 1] ({} \<union> set_option (Some (2, 100)))"
    by (rule session.delivers [OF 2 _ demo_received]) (simp add: t(2))
  then show ?thesis by auto
qed

text \<open>The demo connection after two bytes were written for its client.\<close>

lemma demo_written_link:
  assumes "demo_written = Some s"
  shows "link_ok [2, 1] 0 s"
proof -
  obtain n where w: "print_c 0 ''%c%c'' [AInt 2, AInt 1] demo_link = Some (n, s)"
    using assms by (auto simp: demo_written_def)
  have c: "contents (c_c (Conn s ! 0)) = [2, 1]" using demo_written_ok unfolding assms by simp
  have 0: "session demo_client quiet_game 0 demo_link [] [] {}"
    by (rule session.begins [OF demo_link_ok])
       (simp_all add: sent_on_def demo_link_def demo_conn_def empty_os_def demo_server0_def)
  have "contents (c_c (Conn demo_link ! 0)) = []" by (simp add: demo_link_def demo_conn_def contents_def)
  then have "session demo_client quiet_game 0 s [2, 1] [] {}"
    by (intro session.writes [OF 0 _ _ w, of "[DChar, DChar]"]) (simp_all add: parse_dir.simps(2) c)
  then show ?thesis using session_keeps_inv [OF _ demo_honest] by (simp add: session_inv_def)
qed

text \<open>C19. \<open>Send_reliable\<close> on a connection whose reliable buffer holds the stream \<open>S\<close> from the acknowledged
  position on never meets undefined behaviour. Unless a flush fails, and then it destroys the
  connection, it returns the number \<open>n\<close> of bytes transmitted: these are the \<open>n\<close> bytes of \<open>S\<close> after the
  acknowledged position, in consecutive slices of at most 1024 bytes that are full but for the last,
  each labelled with its true position and the first of them behind a pending frame update; of
  each datagram the system has taken at least as many bytes as its slice has. The acknowledged position
  and the buffer stay. The books are kept: the highest position sent, \<open>reliable_unsent\<close>, becomes the
  position reached if that is further, and the next retransmission is due one retransmission time, at
  most \<open>MAX_RETRANSMIT\<close>, from now; when nothing is transmitted both stay as they were.\<close>

theorem Send_reliable_slices:
  assumes "link_ok S i s"
  shows "(\<exists>n s' ds. Send_reliable G i s = Some (int n, s') \<and> link_ok S i s' \<and>
      c_reliable_offset (Conn s' ! i) = c_reliable_offset (Conn s ! i) \<and>
      sent_on i s' = sent_on i s @ ds \<and>
      slices S (main_loops s) (contents (c_w (Conn s ! i))) (nat (c_reliable_offset (Conn s ! i))) n ds \<and>
      c_reliable_unsent (Conn s' ! i) =
        (if n = 0 then c_reliable_unsent (Conn s ! i)
         else max (c_reliable_unsent (Conn s ! i)) (c_reliable_offset (Conn s ! i) + int n)) \<and>
      c_retransmit_at_loop (Conn s' ! i) =
        (if n = 0 then c_retransmit_at_loop (Conn s ! i)
         else main_loops s + min (c_rtt_retransmit (Conn s ! i)) (MAX_RETRANSMIT s))) \<or>
    (\<exists>s1. Send_reliable G i s =
      do { s2 \<leftarrow> Destroy_connection G i (reason ''flush error'') s1; Some (-1, s2) })"
  using Send_reliable_exact [OF assms, of G]
proof (elim disjE exE conjE)
  fix n s' ds
  assume r: "Send_reliable G i s = Some (int n, s')" "same_link i s s'"
    "if n = 0 then same_books i s s' else booked i (c_reliable_offset (Conn s ! i) + int n) s s'"
    "sent_on i s' = sent_on i s @ ds"
    "slices S (main_loops s) (contents (c_w (Conn s ! i))) (nat (c_reliable_offset (Conn s ! i))) n ds"
  have "link_ok S i s'" "c_reliable_offset (Conn s' ! i) = c_reliable_offset (Conn s ! i)"
    using link_same [OF assms r(2)] r(2) by (simp_all add: same_link_def)
  moreover have "c_reliable_unsent (Conn s' ! i) =
        (if n = 0 then c_reliable_unsent (Conn s ! i)
         else max (c_reliable_unsent (Conn s ! i)) (c_reliable_offset (Conn s ! i) + int n))"
    "c_retransmit_at_loop (Conn s' ! i) =
        (if n = 0 then c_retransmit_at_loop (Conn s ! i)
         else main_loops s + min (c_rtt_retransmit (Conn s ! i)) (MAX_RETRANSMIT s))"
    using r(3) by (simp_all add: same_books_def booked_def Let_def split: if_splits)
  ultimately show ?thesis using r(1,4,5) by blast
qed blast

theorem Send_reliable_slices_witness:
  "\<exists>s s' ds. Send_reliable quiet_game 0 s = Some (2, s') \<and> link_ok [2, 1] 0 s' \<and>
     sent_on 0 s' = sent_on 0 s @ ds \<and>
     slices [2, 1] (main_loops s) (contents (c_w (Conn s ! 0))) (nat (c_reliable_offset (Conn s ! 0))) 2 ds \<and>
     c_reliable_unsent (Conn s' ! 0) =
       max (c_reliable_unsent (Conn s ! 0)) (c_reliable_offset (Conn s ! 0) + 2) \<and>
     c_retransmit_at_loop (Conn s' ! 0) =
       main_loops s + min (c_rtt_retransmit (Conn s ! 0)) (MAX_RETRANSMIT s)"
proof -
  obtain s where s: "demo_written = Some s" using demo_written_ok by auto
  obtain s2 where t: "Send_reliable quiet_game 0 s = Some (2, s2)" using demo_sent unfolding s by auto
  from Send_reliable_slices [OF demo_written_link [OF s], of quiet_game] show ?thesis
  proof (elim disjE exE conjE)
    fix n s' ds
    assume r: "Send_reliable quiet_game 0 s = Some (int n, s')" "link_ok [2, 1] 0 s'"
      "sent_on 0 s' = sent_on 0 s @ ds"
      "slices [2, 1] (main_loops s) (contents (c_w (Conn s ! 0))) (nat (c_reliable_offset (Conn s ! 0))) n ds"
      "c_reliable_unsent (Conn s' ! 0) =
        (if n = 0 then c_reliable_unsent (Conn s ! 0)
         else max (c_reliable_unsent (Conn s ! 0)) (c_reliable_offset (Conn s ! 0) + int n))"
      "c_retransmit_at_loop (Conn s' ! 0) =
        (if n = 0 then c_retransmit_at_loop (Conn s ! 0)
         else main_loops s + min (c_rtt_retransmit (Conn s ! 0)) (MAX_RETRANSMIT s))"
    from t r(1) have "n = 2" by simp
    with t r show ?thesis by auto
  next
    fix s1
    assume "Send_reliable quiet_game 0 s =
      do { s2 \<leftarrow> Destroy_connection quiet_game 0 (reason ''flush error'') s1; Some (-1, s2) }"
    with t show ?thesis
      by (cases "Destroy_connection quiet_game 0 (reason ''flush error'') s1") simp_all
  qed
qed

text \<open>C33. With a frame rate that is not negative the round-trip estimator of a connection is within
  bounds from its creation on: \<open>Setup_connection\<close> starts it there, a measurement keeps it there and sets a
  retransmission time between \<open>MIN_RETRANSMIT\<close> and three times the longest round trip taken seriously (a
  measurement out of range changes nothing), and a transmission that survives keeps it there although
  each overdue one doubles the time, because it is cut to \<open>MAX_RETRANSMIT\<close> first; so the next
  retransmission is never due more than \<open>MAX_RETRANSMIT\<close> loops ahead.\<close>

theorem rtt_estimate_bounded:
  assumes "0 \<le> fps s"
  shows "rtt_ok s (new_connection E rname nick dpy team addr host version free sock s c0) \<and>
    (rtt_ok s c \<longrightarrow> rtt_ok s (update_rtt rtt s c) \<and>
      (if 0 < rtt \<and> rtt \<le> MAX_RTT s
       then MIN_RETRANSMIT s \<le> c_rtt_retransmit (update_rtt rtt s c) \<and>
            c_rtt_retransmit (update_rtt rtt s c) \<le> 3 * MAX_RTT s
       else update_rtt rtt s c = c)) \<and>
    (link_ok S i s \<and> rtt_ok s (Conn s ! i) \<and> Send_reliable G i s = Some (n, s') \<and> n \<noteq> -1 \<longrightarrow>
      rtt_ok s' (Conn s' ! i) \<and>
      (0 < n \<longrightarrow> main_loops s \<le> c_retransmit_at_loop (Conn s' ! i) \<and>
         c_retransmit_at_loop (Conn s' ! i) \<le> main_loops s + MAX_RETRANSMIT s))"
proof (intro conjI impI)
  show "rtt_ok s (new_connection E rname nick dpy team addr host version free sock s c0)"
    using assms by (auto simp: new_connection_def rtt_ok_def MAX_RTT_def c_div_nonneg split: prod.splits)
  show "rtt_ok s (update_rtt rtt s c)" if "rtt_ok s c"
    using update_rtt_bounded [OF that assms] by blast
  show "if 0 < rtt \<and> rtt \<le> MAX_RTT s
       then MIN_RETRANSMIT s \<le> c_rtt_retransmit (update_rtt rtt s c) \<and>
            c_rtt_retransmit (update_rtt rtt s c) \<le> 3 * MAX_RTT s
       else update_rtt rtt s c = c" if "rtt_ok s c"
    using update_rtt_bounded [OF that assms] by blast
next
  assume a: "link_ok S i s \<and> rtt_ok s (Conn s ! i) \<and> Send_reliable G i s = Some (n, s') \<and> n \<noteq> -1"
  then have l: "link_ok S i s" and ok: "rtt_ok s (Conn s ! i)"
    and run: "Send_reliable G i s = Some (n, s')" "n \<noteq> -1" by simp_all
  have "\<exists>m. n = int m \<and> (if m = 0 then same_books i s s'
      else booked i (c_reliable_offset (Conn s ! i) + int m) s s')"
    using Send_reliable_exact [OF l, of G]
  proof (elim disjE exE conjE)
    fix s1
    assume "Send_reliable G i s =
      do { s2 \<leftarrow> Destroy_connection G i (reason ''flush error'') s1; Some (-1, s2) }"
    with run show ?thesis
      by (cases "Destroy_connection G i (reason ''flush error'') s1") simp_all
  next
    fix m t ds
    assume "Send_reliable G i s = Some (int m, t)" "if m = 0 then same_books i s t
      else booked i (c_reliable_offset (Conn s ! i) + int m) s t"
    moreover from this(1) run(1) have "n = int m" "s' = t" by simp_all
    ultimately show ?thesis by blast
  qed
  then obtain m where m: "n = int m"
    "if m = 0 then same_books i s s' else booked i (c_reliable_offset (Conn s ! i) + int m) s s'" by blast
  show "rtt_ok s' (Conn s' ! i)"
    using m(2) booked_rtt_ok [OF _ ok assms] same_books_rtt_ok [OF _ ok] by (auto split: if_splits)
  show "main_loops s \<le> c_retransmit_at_loop (Conn s' ! i)"
    "c_retransmit_at_loop (Conn s' ! i) \<le> main_loops s + MAX_RETRANSMIT s" if "0 < n"
    using m booked_rtt_ok [OF _ ok assms] that by (auto split: if_splits)
qed

theorem rtt_estimate_bounded_witness:
  "\<exists>s s'. rtt_ok s (update_rtt 5 s (Conn s ! 0)) \<and> MIN_RETRANSMIT s \<le> c_rtt_retransmit (update_rtt 5 s (Conn s ! 0)) \<and>
     Send_reliable quiet_game 0 s = Some (2, s') \<and> rtt_ok s' (Conn s' ! 0) \<and>
     main_loops s \<le> c_retransmit_at_loop (Conn s' ! 0) \<and>
     c_retransmit_at_loop (Conn s' ! 0) \<le> main_loops s + MAX_RETRANSMIT s"
proof -
  obtain s where s: "demo_written = Some s" using demo_written_ok by auto
  obtain s2 where t: "Send_reliable quiet_game 0 s = Some (2, s2)" using demo_sent unfolding s by auto
  obtain n where w: "print_c 0 ''%c%c'' [AInt 2, AInt 1] demo_link = Some (n, s)"
    using s by (auto simp: demo_written_def)
  have f: "fps s = 14" "c_rtt_smoothed (Conn s ! 0) = 0" "c_rtt_dev (Conn s ! 0) = 0"
    "c_rtt_retransmit (Conn s ! 0) = 0"
    using w by (auto simp: print_c_def demo_link_def demo_conn_def demo_server0_def fresh_connection_def
        zero_connection_def get_conn_def buf_at_def upd_conn_def elim!: bind_SomeE)
  then have "0 \<le> fps s" "rtt_ok s (Conn s ! 0)" "(0 :: int) < 5 \<and> 5 \<le> MAX_RTT s"
    by (simp_all add: rtt_ok_def MAX_RTT_def)
  with rtt_estimate_bounded [OF this(1), of demo_env "[]" "[]" "[]" 0 "[]" "[]" 0 0 0 zero_connection
      "Conn s ! 0" 5 "[2, 1]" 0 quiet_game 2 s2] demo_written_link [OF s] t
  show ?thesis by auto
qed

text \<open>C1. Reliable delivery: however the network loses, repeats and reorders the datagrams and the
  acknowledgements of a session, the data the client has taken is a prefix of the stream the server
  wrote, the server never discards a byte the client has not got, and when the server's buffer has
  drained the client has the whole stream.\<close>

theorem session_reliable:
  assumes "session recv G i s S R A" "honest_client recv"
  shows "prefix R S \<and> c_reliable_offset (Conn s ! i) \<le> int (length R) \<and>
    contents (c_c (Conn s ! i)) = drop (nat (c_reliable_offset (Conn s ! i))) S \<and>
    (sb_len (c_c (Conn s ! i)) = 0 \<longrightarrow> R = S)"
proof -
  have inv: "session_inv i s S R A" by (rule session_keeps_inv [OF assms])
  then have pre: "prefix R S" and off: "c_reliable_offset (Conn s ! i) \<le> int (length R)"
    and win: "wf_sockbuf (c_c (Conn s ! i))" "0 \<le> c_reliable_offset (Conn s ! i)"
      "c_reliable_offset (Conn s ! i) \<le> int (length S)"
      "contents (c_c (Conn s ! i)) = drop (nat (c_reliable_offset (Conn s ! i))) S"
    by (simp_all add: session_inv_def link_ok_def sockbuf_window.holds_window_def)
  have "R = S" if "sb_len (c_c (Conn s ! i)) = 0"
  proof -
    have "length S \<le> nat (c_reliable_offset (Conn s ! i))"
      using length_contents [OF win(1)] that win by simp
    then have "length S \<le> length R" using off by simp
    then show ?thesis using pre by (auto simp: prefix_def)
  qed
  then show ?thesis using pre off win(4) by blast
qed

theorem session_reliable_witness:
  "\<exists>s. session demo_client quiet_game 0 s [2, 1] [2, 1] {(2, 100)} \<and> honest_client demo_client \<and>
    prefix [2, 1] [2 :: byte, 1] \<and> c_reliable_offset (Conn s ! 0) \<le> int (length [2 :: byte, 1]) \<and>
    contents (c_c (Conn s ! 0)) = drop (nat (c_reliable_offset (Conn s ! 0))) [2, 1] \<and>
    (sb_len (c_c (Conn s ! 0)) = 0 \<longrightarrow> [2, 1] = [2 :: byte, 1])"
proof -
  obtain s where s: "session demo_client quiet_game 0 s [2, 1] [2, 1] {(2, 100)}" using demo_session by blast
  with session_reliable [OF s demo_honest] demo_honest show ?thesis by blast
qed

text \<open>C13. An honest client is never thrown out for its acknowledgements: whenever an acknowledgement it
  has sent arrives, however late or often, \<open>Receive_ack\<close> accepts it without undefined behaviour and moves
  the acknowledged position up to it, never back.\<close>

theorem honest_ack_accepted:
  assumes "session recv G i s S R A" "honest_client recv" "(rel, t) \<in> A" "wf_sockbuf r" "no_refill r"
    "unread r = ack_packet rel t @ rest"
  shows "\<exists>s'. Receive_ack G i (upd_conn i (\<lambda>c. c\<lparr>c_r := r\<rparr>) s) = Some (1, s') \<and>
    c_reliable_offset (Conn s' ! i) = max (c_reliable_offset (Conn s ! i)) (sint rel)"
  using session_acknowledged [OF session_keeps_inv [OF assms(1,2)] assms(3-6), of G] by metis

definition demo_ack :: sockbuf where
  "demo_ack = \<lparr>sb_sock = 7, sb_buf = Some (ack_packet 2 100), sb_size = 9, sb_len = 9, sb_ptr = 0,
     sb_state = 0x11\<rparr>"

theorem honest_ack_accepted_witness:
  "\<exists>s s'. session demo_client quiet_game 0 s [2, 1] [2, 1] {(2, 100)} \<and>
    Receive_ack quiet_game 0 (upd_conn 0 (\<lambda>c. c\<lparr>c_r := demo_ack\<rparr>) s) = Some (1, s') \<and>
    c_reliable_offset (Conn s' ! 0) = max (c_reliable_offset (Conn s ! 0)) (sint (2 :: i32))"
proof -
  obtain s where s: "session demo_client quiet_game 0 s [2, 1] [2, 1] {(2, 100)}" using demo_session by blast
  have "unread demo_ack = ack_packet 2 100 @ []" "wf_sockbuf demo_ack" "no_refill demo_ack"
    by (simp_all add: demo_ack_def unread_def contents_def ack_packet_def wf_sockbuf_def no_refill_def
        has_bit_def SOCKBUF_DGRAM_def SOCKBUF_LOCK_def)
  with honest_ack_accepted [OF s demo_honest, of 2 100 demo_ack "[]"] s show ?thesis by blast
qed

end
