(* ===== verification/Net_Receive.thy ===== *)
theory Net_Receive
  imports Net_Reliable
begin

text \<open>
  The packets a client sends and what the connection code of \<open>server/netserver.c\<close> does with them: one
  definition per handler \<open>Receive_*\<close>, the dispatch tables of \<open>Init_receive\<close>, and \<open>Handle_input\<close> with its
  loop over the packets of a datagram.

  A handler returns -1 when it has destroyed the connection, 0 for an incomplete packet and a positive
  number otherwise, as in the code. A player that the code dereferences without a test is \<open>None\<close> here
  when the pointer is null. What the game does with a key, a command, a message or a pointer
  movement is the parameter \<open>G\<close>.
\<close>

definition PKT_KEYBOARD :: int where "PKT_KEYBOARD = 24"
definition PKT_POWER :: int where "PKT_POWER = 34"
definition PKT_POWER_S :: int where "PKT_POWER_S = 35"
definition PKT_TURNSPEED :: int where "PKT_TURNSPEED = 36"
definition PKT_TURNSPEED_S :: int where "PKT_TURNSPEED_S = 37"
definition PKT_TURNRESISTANCE :: int where "PKT_TURNRESISTANCE = 38"
definition PKT_TURNRESISTANCE_S :: int where "PKT_TURNRESISTANCE_S = 39"
lemmas pkt_power_types = PKT_POWER_def PKT_POWER_S_def PKT_TURNSPEED_def PKT_TURNSPEED_S_def
  PKT_TURNRESISTANCE_def PKT_TURNRESISTANCE_S_def

definition PKT_ACK_FUEL :: int where "PKT_ACK_FUEL = 47"
definition PKT_TALK :: int where "PKT_TALK = 51"
definition PKT_TALK_ACK :: int where "PKT_TALK_ACK = 52"
definition PKT_DISPLAY :: int where "PKT_DISPLAY = 55"
definition PKT_SHAPE :: int where "PKT_SHAPE = 57"
definition PKT_MOTD :: int where "PKT_MOTD = 58"
definition PKT_MODIFIERBANK :: int where "PKT_MODIFIERBANK = 71"
definition PKT_POINTER_MOVE :: int where "PKT_POINTER_MOVE = 73"
definition PKT_REQUEST_AUDIO :: int where "PKT_REQUEST_AUDIO = 74"
definition PKT_ASYNC_FPS :: int where "PKT_ASYNC_FPS = 75"

definition KEYBOARD_SIZE :: int where "KEYBOARD_SIZE = 9"
definition MAX_STATION_FUEL :: int where "MAX_STATION_FUEL = 500 * 2 ^ 8"

subsection \<open>Handlers\<close>

definition upd_player :: "nat \<Rightarrow> (player \<Rightarrow> player) \<Rightarrow> server \<Rightarrow> server option" where
  "upd_player p f s =
     do { pl \<leftarrow> player_heap s p; Some (s\<lparr>player_heap := (player_heap s)(p \<mapsto> f pl)\<rparr>) }"

text \<open>The common end of a failed scan: a hard failure destroys the connection.\<close>

definition scan_failed :: "game \<Rightarrow> nat \<Rightarrow> string \<Rightarrow> int \<Rightarrow> server \<Rightarrow> (int \<times> server) option" where
  "scan_failed G i msg n s =
     (if n = -1 then do { s' \<leftarrow> Destroy_connection G i (reason msg) s; Some (n, s') } else Some (n, s))"

definition skip_r :: "nat \<Rightarrow> int \<Rightarrow> server \<Rightarrow> server" where
  "skip_r i n s = upd_conn i (\<lambda>c. c\<lparr>c_r := (c_r c)\<lparr>sb_ptr := sb_ptr (c_r c) + n\<rparr>\<rparr>) s"

text \<open>The key vector is used when it is newer than the last one, and skipped otherwise.\<close>

definition take_keys :: "game \<Rightarrow> nat \<Rightarrow> int \<Rightarrow> server \<Rightarrow> server option" where
  "take_keys G i change s =
     do { cn \<leftarrow> get_conn i s;
          if change \<le> c_last_key_change cn then Some (skip_r i KEYBOARD_SIZE s)
          else do {
            let s1 = upd_conn i (\<lambda>c. c\<lparr>c_last_key_change := change\<rparr>) s;
            p \<leftarrow> c_pl cn;
            b \<leftarrow> sb_buf (c_r cn);
            keys \<leftarrow> buf_get (sb_ptr (c_r cn)) KEYBOARD_SIZE b;
            s2 \<leftarrow> upd_player p (\<lambda>pl. pl\<lparr>pl_last_keyv := keys\<rparr>) s1;
            on_keyboard G p (skip_r i KEYBOARD_SIZE s2) } }"

definition Receive_keyboard :: "game \<Rightarrow> nat \<Rightarrow> server \<Rightarrow> (int \<times> server) option" where
  "Receive_keyboard G i s =
     do { cn \<leftarrow> get_conn i s;
          if sb_ptr (c_r cn) + KEYBOARD_SIZE + 1 + 4 > sb_len (c_r cn) then Some (0, s)
          else do {
            (_, outs, s1) \<leftarrow> scan_r i ''%c%ld'' s;
            change \<leftarrow> (case outs of [OChar _, OInt v] \<Rightarrow> Some (sint v) | _ \<Rightarrow> None);
            s2 \<leftarrow> take_keys G i change s1;
            cn2 \<leftarrow> get_conn i s2;
            let s3 = upd_conn i (\<lambda>c. c\<lparr>c_num_keyboard_updates := c_num_keyboard_updates c + 1\<rparr>) s2;
            if c_num_keyboard_updates cn2 \<noteq> 0 \<and> has_bit (c_state cn2) CONN_PLAYING
            then do { s4 \<leftarrow> Destroy_connection G i (reason ''no macros'') s3; Some (-1, s4) }
            else Some (1, s3) } }"

definition Receive_quit :: "game \<Rightarrow> nat \<Rightarrow> server \<Rightarrow> (int \<times> server) option" where
  "Receive_quit G i s = do { s' \<leftarrow> Destroy_connection G i (reason ''client quit'') s; Some (-1, s') }"

text \<open>\<open>Handle_login\<close> from the new player on: it takes over the connection, replies and announces the
  player. \<open>destroy_player_conn\<close> is the exception handler at its end, \<open>Destroy_connection(pl->connp)\<close>.\<close>

definition destroy_player_conn :: "game \<Rightarrow> nat \<Rightarrow> server \<Rightarrow> server option" where
  "destroy_player_conn G p s =
     do { pl \<leftarrow> player_heap s p;
          j \<leftarrow> pl_connp pl;
          Destroy_connection G j (reason ''error initializing the player'') s }"

text \<open>A client assumes at first that all fuel stations are filled.\<close>

definition fuel_masks :: "int \<Rightarrow> fuel_t list \<Rightarrow> fuel_t list" where
  "fuel_masks cid fs =
     map (\<lambda>f. f\<lparr>conn_mask := (if fuel_amount f = MAX_STATION_FUEL
                               then conn_mask f OR push_bit (nat cid) 1
                               else conn_mask f AND NOT (push_bit (nat cid) 1))\<rparr>) fs"

definition Handle_login :: "game \<Rightarrow> nat \<Rightarrow> server \<Rightarrow> (bool \<times> server) option" where
  "Handle_login G i s =
     do { (prep, s1) \<leftarrow> on_login G i s;
          (case prep of
             Refused \<Rightarrow> Some (False, s1)
           | No_base p \<Rightarrow> do { s2 \<leftarrow> destroy_player_conn G p s1; Some (False, s2) }
           | Entered p \<Rightarrow>
               do { s2 \<leftarrow> upd_player p (\<lambda>pl. pl\<lparr>pl_connp := Some i, pl_last_keyv := replicate 9 0,
                              pl_prev_keyv := replicate 9 0\<rparr>)
                            (upd_conn i (\<lambda>c. c\<lparr>c_pl := Some p\<rparr>) s1);
                    s3 \<leftarrow> Conn_set_state i CONN_READY CONN_PLAYING s2;
                    (n, s4) \<leftarrow> Send_reply G i PKT_PLAY PKT_SUCCESS s3;
                    if n \<le> 0 then do { s5 \<leftarrow> destroy_player_conn G p s4; Some (False, s5) }
                    else do {
                      s5 \<leftarrow> on_enter G p s4;
                      cn \<leftarrow> get_conn i s5;
                      Some (True, s5\<lparr>World := (World s5)\<lparr>World_fuel := fuel_masks (c_cid cn) (World_fuel (World s5))\<rparr>,
                                     num_logins := num_logins s5 + 1\<rparr>) } }) }"

definition Receive_play :: "game \<Rightarrow> nat \<Rightarrow> server \<Rightarrow> (int \<times> server) option" where
  "Receive_play G i s =
     do { (n, outs, s1) \<leftarrow> scan_r i ''%c'' s;
          if n \<noteq> 1 then do { s2 \<leftarrow> Destroy_connection G i (reason ''receive error'') s1; Some (-1, s2) }
          else do {
            ch \<leftarrow> (case outs of [OChar c] \<Rightarrow> Some (uint c) | _ \<Rightarrow> None);
            cn \<leftarrow> get_conn i s1;
            if ch \<noteq> PKT_PLAY then do { s2 \<leftarrow> Destroy_connection G i (reason ''not play'') s1; Some (-1, s2) }
            else if c_state cn \<noteq> CONN_LOGIN then
              (if c_state cn \<noteq> CONN_PLAYING then
                 (if c_state cn = CONN_READY
                  then Some (0, upd_conn i (\<lambda>c. c\<lparr>c_r := (c_r c)\<lparr>sb_ptr := sb_len (c_r c)\<rparr>\<rparr>) s1)
                  else do { s2 \<leftarrow> Destroy_connection G i (reason ''not login'') s1; Some (-1, s2) })
               else do { (m, s2) \<leftarrow> Send_reliable G i s1;
                         Some (if m = -1 then -1 else 0, s2) })
            else do {
              s2 \<leftarrow> clear_w i s1;
              (ok, s3) \<leftarrow> Handle_login G i s2;
              if ok then Some (2, s3)
              else do { s4 \<leftarrow> Destroy_connection G i (reason ''login failed'') s3; Some (-1, s4) } } } }"

text \<open>A power is the 16-bit number divided by 256.\<close>

definition Receive_power :: "game \<Rightarrow> nat \<Rightarrow> server \<Rightarrow> (int \<times> server) option" where
  "Receive_power G i s =
     do { (n, outs, s1) \<leftarrow> scan_r i ''%c%hd'' s;
          if n \<le> 0 then scan_failed G i ''read error'' n s1
          else (case outs of
            [OChar c, OShort tmp] \<Rightarrow>
              do { cn \<leftarrow> get_conn i s1;
                   let ch = uint c;
                   let pw = rat_of_int (sint tmp) / 256;
                   let wr = (\<lambda>f. do { p \<leftarrow> c_pl cn; s2 \<leftarrow> upd_player p f s1; Some (1, s2) });
                   if ch = PKT_POWER then wr (\<lambda>pl. pl\<lparr>pl_power := pw\<rparr>)
                   else if ch = PKT_POWER_S then wr (\<lambda>pl. pl\<lparr>pl_power_s := pw\<rparr>)
                   else if ch = PKT_TURNSPEED then wr (\<lambda>pl. pl\<lparr>pl_turnspeed := pw\<rparr>)
                   else if ch = PKT_TURNSPEED_S then wr (\<lambda>pl. pl\<lparr>pl_turnspeed_s := pw\<rparr>)
                   else if ch = PKT_TURNRESISTANCE then wr (\<lambda>pl. pl\<lparr>pl_turnresistance := pw\<rparr>)
                   else if ch = PKT_TURNRESISTANCE_S then wr (\<lambda>pl. pl\<lparr>pl_turnresistance_s := pw\<rparr>)
                   else do { s2 \<leftarrow> Destroy_connection G i (reason ''not power'') s1; Some (-1, s2) } }
          | _ \<Rightarrow> None) }"

definition Receive_discard :: "nat \<Rightarrow> server \<Rightarrow> (int \<times> server) option" where
  "Receive_discard i s =
     do { _ \<leftarrow> get_conn i s;
          Some (0, upd_conn i (\<lambda>c. c\<lparr>c_r := (c_r c)\<lparr>sb_ptr := sb_len (c_r c)\<rparr>\<rparr>) s) }"

definition Receive_undefined :: "game \<Rightarrow> nat \<Rightarrow> server \<Rightarrow> (int \<times> server) option" where
  "Receive_undefined G i s =
     do { s' \<leftarrow> Destroy_connection G i (reason ''undefined packet'') s; Some (-1, s') }"

definition Receive_ack_fuel :: "game \<Rightarrow> nat \<Rightarrow> server \<Rightarrow> (int \<times> server) option" where
  "Receive_ack_fuel G i s =
     do { (n, outs, s1) \<leftarrow> scan_r i ''%c%ld%hu'' s;
          if n \<le> 0 then scan_failed G i ''read error'' n s1
          else (case outs of
            [OChar _, OInt loops_ack, OShort num] \<Rightarrow>
              (let fs = World_fuel (World s1) in
               if uint num \<ge> int (length fs)
               then do { s2 \<leftarrow> Destroy_connection G i (reason ''bad fuel ack'') s1; Some (-1, s2) }
               else do {
                 f \<leftarrow> buf_at (uint num) fs;
                 cn \<leftarrow> get_conn i s1;
                 Some (1, if sint loops_ack > last_change f
                          then s1\<lparr>World := (World s1)\<lparr>World_fuel :=
                                 fs[nat (uint num) := f\<lparr>conn_mask := conn_mask f OR push_bit (nat (c_cid cn)) 1\<rparr>]\<rparr>\<rparr>
                          else s1) })
          | _ \<Rightarrow> None) }"

definition Receive_talk :: "game \<Rightarrow> nat \<Rightarrow> server \<Rightarrow> (int \<times> server) option" where
  "Receive_talk G i s =
     do { (n, outs, s1) \<leftarrow> scan_r i ''%c%ld%s'' s;
          if n \<le> 0 then scan_failed G i ''read error'' n s1
          else (case outs of
            [OChar _, OInt sq, OStr str] \<Rightarrow>
              do { cn \<leftarrow> get_conn i s1;
                   if sint sq > c_talk_sequence_num cn then do {
                     (m, s2) \<leftarrow> print_c i ''%c%ld'' [arg_int PKT_TALK_ACK, AInt sq] s1;
                     if m \<le> 0 then scan_failed G i ''write error'' m s2
                     else do {
                       let s3 = upd_conn i (\<lambda>c. c\<lparr>c_talk_sequence_num := sint sq\<rparr>) s2;
                       s4 \<leftarrow> (if str \<noteq> [] \<and> hd str = of_char (CHR ''/'')
                               then do { p \<leftarrow> c_pl cn; on_player_command G p (tl str) s3 }
                               else on_talk G i str s3);
                       Some (1, s4) } }
                   else Some (1, s1) }
          | _ \<Rightarrow> None) }"

definition LIMIT :: "int \<Rightarrow> int \<Rightarrow> int \<Rightarrow> int" where
  "LIMIT val lo hi = (if val > hi then hi else if val < lo then lo else val)"

definition Receive_display :: "game \<Rightarrow> nat \<Rightarrow> server \<Rightarrow> (int \<times> server) option" where
  "Receive_display G i s =
     do { (n, outs, s1) \<leftarrow> scan_r i ''%c%hd%hd%c%c'' s;
          if n \<le> 0 then scan_failed G i ''read error'' n s1
          else (case outs of
            [OChar _, OShort width, OShort height, OChar debris, OChar spark] \<Rightarrow>
              Some (1, upd_conn i (\<lambda>c. c\<lparr>c_view_width := LIMIT (sint width) MIN_VIEW_SIZE MAX_VIEW_SIZE,
                         c_view_height := LIMIT (sint height) MIN_VIEW_SIZE MAX_VIEW_SIZE,
                         c_debris_colors := uint debris, c_spark_rand := uint spark\<rparr>) s1)
          | _ \<Rightarrow> None) }"

definition Get_display_parameters :: "nat \<Rightarrow> server \<Rightarrow> (int \<times> int \<times> int \<times> int) option" where
  "Get_display_parameters i s =
     do { cn \<leftarrow> get_conn i s;
          Some (c_view_width cn, c_view_height cn, c_debris_colors cn, c_spark_rand cn) }"

text \<open>Handlers that read a packet and do nothing with it.\<close>

definition read_only :: "game \<Rightarrow> string \<Rightarrow> string \<Rightarrow> nat \<Rightarrow> server \<Rightarrow> (int \<times> server) option" where
  "read_only G fmt msg i s =
     do { (n, _, s1) \<leftarrow> scan_r i fmt s;
          if n \<le> 0 then scan_failed G i msg n s1 else Some (1, s1) }"

definition Receive_modifier_bank :: "game \<Rightarrow> nat \<Rightarrow> server \<Rightarrow> (int \<times> server) option" where
  "Receive_modifier_bank G i s = read_only G ''%c%c%s'' ''read modbank'' i s"

definition Receive_motd :: "game \<Rightarrow> nat \<Rightarrow> server \<Rightarrow> (int \<times> server) option" where
  "Receive_motd G i s = read_only G ''%c%ld%ld'' ''read error'' i s"

definition Receive_audio_request :: "game \<Rightarrow> nat \<Rightarrow> server \<Rightarrow> (int \<times> server) option" where
  "Receive_audio_request G i s = read_only G ''%c%c'' ''read error'' i s"

definition Receive_shape :: "game \<Rightarrow> nat \<Rightarrow> server \<Rightarrow> (int \<times> server) option" where
  "Receive_shape G i s =
     do { (n, outs, s1) \<leftarrow> scan_r i ''%c%S'' s;
          if n \<le> 0 then scan_failed G i ''read shape'' n s1
          else do {
            (m, outs2, s2) \<leftarrow> scan_r i ''%S'' s1;
            if m \<le> 0 then scan_failed G i ''read shape ext'' m s2
            else (case (outs, outs2) of
              ([OChar _, OStr str], [OStr ext]) \<Rightarrow>
                do { cn \<leftarrow> get_conn i s2;
                     Some (1, if c_state cn = CONN_LOGIN \<and> c_ship cn = None
                              then upd_conn i (\<lambda>c. c\<lparr>c_ship := on_shape G (str @ ext)\<rparr>) s2 else s2) }
            | _ \<Rightarrow> None) } }"

definition Receive_pointer_move :: "game \<Rightarrow> nat \<Rightarrow> server \<Rightarrow> (int \<times> server) option" where
  "Receive_pointer_move G i s =
     do { (n, outs, s1) \<leftarrow> scan_r i ''%c%hd'' s;
          if n \<le> 0 then scan_failed G i ''read error'' n s1
          else (case outs of
            [OChar _, OShort movement] \<Rightarrow>
              do { cn \<leftarrow> get_conn i s1;
                   p \<leftarrow> c_pl cn;
                   s2 \<leftarrow> on_pointer_move G p movement s1;
                   Some (1, s2) }
          | _ \<Rightarrow> None) }"

definition Receive_fps_request :: "game \<Rightarrow> nat \<Rightarrow> server \<Rightarrow> (int \<times> server) option" where
  "Receive_fps_request G i s =
     do { (n, outs, s1) \<leftarrow> scan_r i ''%c%c'' s;
          if n \<le> 0 then scan_failed G i ''read error'' n s1
          else (case outs of
            [OChar _, OChar wanted] \<Rightarrow>
              do { cn \<leftarrow> get_conn i s1;
                   (case c_pl cn of
                      None \<Rightarrow> Some (1, s1)
                    | Some p \<Rightarrow>
                        (let w1 = (if uint wanted \<le> 0 then 1 else uint wanted);
                             w2 = (if w1 = 20 then 254 else w1)
                         in do { s2 \<leftarrow> upd_player p (\<lambda>pl. pl\<lparr>pl_player_fps := w2\<rparr>) s1; Some (1, s2) })) }
          | _ \<Rightarrow> None) }"

subsection \<open>Dispatch\<close>

text \<open>The three tables; a type without an entry is \<open>Receive_undefined\<close>. The playing table has the entries of
  the login table and four more.\<close>

definition drain_receive :: "game \<Rightarrow> int \<Rightarrow> nat \<Rightarrow> server \<Rightarrow> (int \<times> server) option" where
  "drain_receive G ty =
     (if ty = PKT_QUIT then Receive_quit G else if ty = PKT_ACK then Receive_ack G
      else if ty \<in> {PKT_VERIFY, PKT_PLAY, PKT_SHAPE} then Receive_discard else Receive_undefined G)"

definition login_receive :: "game \<Rightarrow> int \<Rightarrow> nat \<Rightarrow> server \<Rightarrow> (int \<times> server) option" where
  "login_receive G ty =
     (if ty = PKT_PLAY then Receive_play G else if ty = PKT_QUIT then Receive_quit G
      else if ty = PKT_ACK then Receive_ack G else if ty = PKT_VERIFY then Receive_discard
      else if ty \<in> {PKT_POWER, PKT_POWER_S, PKT_TURNSPEED, PKT_TURNSPEED_S, PKT_TURNRESISTANCE,
                    PKT_TURNRESISTANCE_S} then Receive_power G
      else if ty = PKT_DISPLAY then Receive_display G
      else if ty = PKT_MODIFIERBANK then Receive_modifier_bank G
      else if ty = PKT_MOTD then Receive_motd G else if ty = PKT_SHAPE then Receive_shape G
      else if ty = PKT_REQUEST_AUDIO then Receive_audio_request G
      else if ty = PKT_ASYNC_FPS then Receive_fps_request G else Receive_undefined G)"

definition playing_receive :: "game \<Rightarrow> int \<Rightarrow> nat \<Rightarrow> server \<Rightarrow> (int \<times> server) option" where
  "playing_receive G ty =
     (if ty = PKT_KEYBOARD then Receive_keyboard G
      else if ty = PKT_ACK_FUEL then Receive_ack_fuel G
      else if ty = PKT_TALK then Receive_talk G
      else if ty = PKT_POINTER_MOVE then Receive_pointer_move G
      else login_receive G ty)"

subsection \<open>The input loop\<close>

text \<open>\<open>while (connp->r.ptr < connp->r.buf + connp->r.len)\<close>, with a bound \<open>k\<close> on the rounds; that the
  bound used is enough is the theorem \<open>Handle_input_ends\<close>.\<close>

datatype loop_end = Finished | Out_of_fuel

fun input_loop ::
  "(int \<Rightarrow> nat \<Rightarrow> server \<Rightarrow> (int \<times> server) option) \<Rightarrow> nat \<Rightarrow> nat \<Rightarrow> server \<Rightarrow> (loop_end \<times> server) option" where
  "input_loop tbl i k s =
     do { cn \<leftarrow> get_conn i s;
          if \<not> sb_ptr (c_r cn) < sb_len (c_r cn) then Some (Finished, s)
          else (case k of
            0 \<Rightarrow> Some (Out_of_fuel, s)
          | Suc k' \<Rightarrow>
              do { b \<leftarrow> sb_buf (c_r cn);
                   ty \<leftarrow> buf_at (sb_ptr (c_r cn)) b;
                   (res, s1) \<leftarrow> tbl (uint ty) i s;
                   if res = -1 then Some (Finished, s1)
                   else if res = 0 then do { s2 \<leftarrow> clear_r i s1; Some (Finished, s2) }
                   else do {
                     cn1 \<leftarrow> get_conn i s1;
                     input_loop tbl i k'
                       (if c_state cn1 = CONN_PLAYING
                        then upd_conn i (\<lambda>c. c\<lparr>c_start := main_loops s1\<rparr>) s1 else s1) } }) }"

declare input_loop.simps [simp del]

subsection \<open>The first packet of a client\<close>

text \<open>What the system answers to \<open>Handle_listening\<close>: the sender's port, and the outcomes of the two
  attempts to connect the socket to it.\<close>

record listen_env =
  e_lastport :: int
  e_connect1 :: bool
  e_connect2 :: bool

definition PKT_MAGIC :: int where "PKT_MAGIC = 41"

text \<open>A string in an array of \<open>MAX_CHARS\<close>; the bytes behind its NUL are never read.\<close>

definition in_array :: "byte list \<Rightarrow> byte list" where
  "in_array str = str @ replicate (MAX_CHARS - length str) 0"

text \<open>The answer to a client that does not verify correctly: a failure reply, an attempt to send it, and
  the end of the connection.\<close>

definition reject_listening :: "game \<Rightarrow> nat \<Rightarrow> string \<Rightarrow> server \<Rightarrow> (int \<times> server) option" where
  "reject_listening G i msg s =
     do { (_, s1) \<leftarrow> Send_reply G i PKT_VERIFY PKT_FAILURE s;
          (_, s2) \<leftarrow> Send_reliable G i s1;
          s3 \<leftarrow> Destroy_connection G i (reason msg) s2;
          Some (-1, s3) }"

text \<open>The answer to a client that verified: a reply and the magic number, sent at once.\<close>

definition confirm_client :: "game \<Rightarrow> nat \<Rightarrow> server \<Rightarrow> (bool \<times> server) option" where
  "confirm_client G i s =
     do { (a, s1) \<leftarrow> Send_reply G i PKT_VERIFY PKT_SUCCESS s;
          if a = -1 then Some (False, s1)
          else do {
            cn \<leftarrow> get_conn i s1;
            (p, s2) \<leftarrow> print_c i ''%c%u'' [arg_int PKT_MAGIC, arg_int (c_magic cn)] s1;
            if p \<le> 0 then Some (False, s2)
            else do { (q, s3) \<leftarrow> Send_reliable G i s2; Some (q > 0, s3) } } }"

definition verify_client :: "game \<Rightarrow> nat \<Rightarrow> server \<Rightarrow> (int \<times> server) option" where
  "verify_client G i s =
     do { (m, outs, s1) \<leftarrow> scan_r i ''%c%s%s'' s;
          if m \<le> 0 then reject_listening G i ''verify incomplete'' s1
          else (case outs of
            [OChar _, OStr rname, OStr nick] \<Rightarrow>
              do { cn \<leftarrow> get_conn i s1;
                   fixed \<leftarrow> Fix_real_name (in_array rname);
                   mine \<leftarrow> c_real cn;
                   if cstr fixed \<noteq> mine then reject_listening G i ''verify incorrect'' s1
                   else do {
                     s2 \<leftarrow> clear_w i s1;
                     (ok, s3) \<leftarrow> confirm_client G i s2;
                     if \<not> ok
                     then do { s4 \<leftarrow> Destroy_connection G i (reason ''confirm failed'') s3; Some (-1, s4) }
                     else do { s4 \<leftarrow> Conn_set_state i CONN_DRAIN CONN_SETUP s3; Some (1, s4) } } }
          | _ \<Rightarrow> None) }"

text \<open>The two attempts to connect the socket: the result is whether it is connected.\<close>

definition connect_client :: "listen_env \<Rightarrow> int \<Rightarrow> server \<Rightarrow> bool \<times> server" where
  "connect_client L k s =
     (if e_connect1 L then (True, s)
      else (case GetSocketError (net s k) of (r, e) \<Rightarrow> (r = 0 \<and> e_connect2 L, upd_net k e s)))"

definition Handle_listening :: "game \<Rightarrow> listen_env \<Rightarrow> nat \<Rightarrow> server \<Rightarrow> (int \<times> server) option" where
  "Handle_listening G L i s =
     do { cn \<leftarrow> get_conn i s;
          if c_state cn \<noteq> CONN_LISTENING
          then do { s' \<leftarrow> Destroy_connection G i (reason ''not listening'') s; Some (-1, s') }
          else do {
            s1 \<leftarrow> clear_r i s;
            let k = sb_sock (c_r cn);
            ((n, d), e) \<leftarrow> Some (DgramRead (sb_size (c_r cn)) ((net s1 k)\<lparr>os_errno := ENONE\<rparr>));
            let s2 = upd_net k e s1;
            if n \<le> 0 then
              (if n = 0 \<or> os_errno e = EWOULDBLOCK \<or> os_errno e = EAGAIN then Some (0, s2)
               else do { s3 \<leftarrow> Destroy_connection G i (reason ''read first packet error'') s2; Some (n, s3) })
            else do {
              b \<leftarrow> sb_buf (c_r cn);
              b' \<leftarrow> buf_put 0 d b;
              (connected, s4) \<leftarrow> Some (connect_client L (sb_sock (c_w cn))
                (upd_conn i (\<lambda>c. c\<lparr>c_r := (c_r c)\<lparr>sb_buf := Some b', sb_len := n\<rparr>,
                         c_his_port := e_lastport L\<rparr>) s2));
              if \<not> connected
              then do { s5 \<leftarrow> Destroy_connection G i (reason ''connect error'') s4; Some (-1, s5) }
              else do {
                ty \<leftarrow> buf_at 0 b';
                if uint ty \<noteq> PKT_VERIFY then reject_listening G i ''not connecting'' s4
                else verify_client G i s4 } } } }"

subsection \<open>One datagram\<close>

definition Handle_input :: "game \<Rightarrow> listen_env \<Rightarrow> nat \<Rightarrow> server \<Rightarrow> (loop_end \<times> server) option" where
  "Handle_input G L i s =
     do { cn \<leftarrow> get_conn i s;
          let st = c_state cn;
          let run = (\<lambda>tbl. do {
                let s1 = upd_conn i (\<lambda>c. c\<lparr>c_num_keyboard_updates := 0, c_r := Sockbuf_clear (c_r c)\<rparr>) s;
                (n, sb, e) \<leftarrow> Sockbuf_read (Sockbuf_clear (c_r cn)) (net s (sb_sock (c_r cn)));
                let s2 = upd_net (sb_sock (c_r cn)) e (upd_conn i (\<lambda>c. c\<lparr>c_r := sb\<rparr>) s1);
                if n = -1 then do { s3 \<leftarrow> Destroy_connection G i (reason ''input error'') s2; Some (Finished, s3) }
                else if sb_len sb \<le> 0 then Some (Finished, s2)
                else input_loop tbl i (nat (sb_len sb)) s2 });
          if has_bit st (CONN_PLAYING OR CONN_READY) then run (playing_receive G)
          else if st = CONN_LOGIN then run (login_receive G)
          else if has_bit st (CONN_DRAIN OR CONN_SETUP) then run (drain_receive G)
          else if st = CONN_LISTENING then do { (_, s1) \<leftarrow> Handle_listening G L i s; Some (Finished, s1) }
          else if st \<noteq> CONN_FREE
          then do { s1 \<leftarrow> Destroy_connection G i (reason ''not input'') s; Some (Finished, s1) }
          else Some (Finished, s) }"

subsection \<open>Every handler consumes its packet\<close>

definition rx_ok :: "nat \<Rightarrow> server \<Rightarrow> bool" where
  "rx_ok i s \<longleftrightarrow> i < length (Conn s) \<and> wf_sockbuf (c_r (Conn s ! i)) \<and> no_refill (c_r (Conn s ! i))"

definition rx_more :: "nat \<Rightarrow> server \<Rightarrow> bool" where
  "rx_more i s \<longleftrightarrow> sb_ptr (c_r (Conn s ! i)) < sb_len (c_r (Conn s ! i))"

definition rx_left :: "nat \<Rightarrow> server \<Rightarrow> nat" where
  "rx_left i s = nat (sb_len (c_r (Conn s ! i)) - sb_ptr (c_r (Conn s ! i)))"

text \<open>What the rest of the server may do to the input of a connection: nothing, or end it, as the
  destruction of the connection does.\<close>

definition calm :: "nat \<Rightarrow> server \<Rightarrow> server \<Rightarrow> bool" where
  "calm i s s' \<longleftrightarrow> length (Conn s') = length (Conn s) \<and>
     (c_r (Conn s' ! i) = c_r (Conn s ! i) \<or> \<not> rx_more i s')"

definition calm_game :: "game \<Rightarrow> bool" where
  "calm_game G \<longleftrightarrow>
     (\<forall>i s s'. (\<forall>p. on_keyboard G p s = Some s' \<longrightarrow> calm i s s') \<and>
        (\<forall>p c. on_player_command G p c s = Some s' \<longrightarrow> calm i s s') \<and>
        (\<forall>j c. on_talk G j c s = Some s' \<longrightarrow> calm i s s') \<and>
        (\<forall>p m. on_pointer_move G p m s = Some s' \<longrightarrow> calm i s s') \<and>
        (\<forall>j prep. on_login G j s = Some (prep, s') \<longrightarrow> calm i s s') \<and>
        (\<forall>p. on_enter G p s = Some s' \<longrightarrow> calm i s s'))"

definition eats :: "nat \<Rightarrow> server \<Rightarrow> server \<Rightarrow> bool" where
  "eats i s s' \<longleftrightarrow> i < length (Conn s') \<and> (rx_more i s' \<longrightarrow> rx_ok i s' \<and> rx_left i s' < rx_left i s)"

lemma calm_refl [simp]: "calm i s s"
  by (simp add: calm_def)

lemma calm_trans: "calm i s s1 \<Longrightarrow> calm i s1 s2 \<Longrightarrow> calm i s s2"
  by (auto simp: calm_def rx_more_def)

lemma eats_calm: "eats i s s1 \<Longrightarrow> calm i s1 s2 \<Longrightarrow> eats i s s2"
  by (auto simp: eats_def calm_def rx_more_def rx_left_def rx_ok_def)

lemma calm_upd: "(\<And>c. c_r (f c) = c_r c) \<Longrightarrow> calm i s (upd_conn j f s)"
  by (cases "i < length (Conn s)"; cases "i = j") (simp_all add: calm_def upd_conn_def list_update_beyond)

lemma calm_other: "Conn s' = Conn s \<Longrightarrow> calm i s s'"
  by (simp add: calm_def)

lemma calm_upd_player: "upd_player p f s = Some s' \<Longrightarrow> calm i s s'"
  by (auto simp: upd_player_def calm_def elim!: bind_SomeE)

lemma calm_print_c: "print_c j fmt args s = Some (n, s') \<Longrightarrow> calm i s s'"
  by (auto simp: print_c_def elim!: bind_SomeE intro!: calm_upd)

lemma calm_updI: "calm i s t \<Longrightarrow> (\<And>c. c_r (f c) = c_r c) \<Longrightarrow> calm i s (upd_conn j f t)"
  by (rule calm_trans [OF _ calm_upd])

lemma calm_counters [simp]:
  "calm i s (t\<lparr>num_conn_busy := x\<rparr>) = calm i s t" "calm i s (t\<lparr>num_conn_playing := x\<rparr>) = calm i s t"
  "calm i s (t\<lparr>login_in_progress := x\<rparr>) = calm i s t"
  "calm i s (t\<lparr>World := w\<rparr>) = calm i s t" "calm i s (t\<lparr>num_logins := x\<rparr>) = calm i s t"
  by (simp_all add: calm_def rx_more_def)

lemma calm_set_state: "Conn_set_state j st drain s = Some s' \<Longrightarrow> calm i s s'"
  by (auto simp: Conn_set_state_def Let_def elim!: bind_SomeE intro!: calm_updI)

lemma calm_set_stateE: "Conn_set_state j st drain t = Some s' \<Longrightarrow> calm i s t \<Longrightarrow> calm i s s'"
  by (rule calm_trans [OF _ calm_set_state])

lemma calm_ack_new_data: "ack_new_data j diff s = Some s' \<Longrightarrow> calm i s s'"
  by (auto simp: ack_new_data_def Let_def elim!: bind_SomeE intro!: calm_updI
      dest!: calm_set_state [where i = i] split: if_splits)
     (erule calm_trans [rotated] | rule calm_updI | rule calm_refl | simp)+

lemma eats_upd [intro!]:
  "eats i s t \<Longrightarrow> (\<And>c. c_r (f c) = c_r c) \<Longrightarrow> eats i s (upd_conn j f t)"
  by (rule eats_calm [OF _ calm_upd])

lemma eats_world [simp]: "eats i s (t\<lparr>World := w\<rparr>) = eats i s t"
  by (simp add: eats_def rx_more_def rx_left_def rx_ok_def)

lemma scan_r_eats:
  assumes "rx_ok i s" "parse_fmt fmt = Some ds" "ds \<noteq> []" "scan_r i fmt s = Some (n, outs, s1)" "0 < n"
  shows "eats i s s1" "rx_ok i s1" "list_all2 typed_out ds outs"
proof -
  have i: "i < length (Conn s)" and wf: "wf_sockbuf (c_r (Conn s ! i))" and nr: "no_refill (c_r (Conn s ! i))"
    using assms(1) by (simp_all add: rx_ok_def)
  let ?r = "c_r (Conn s ! i)"
  obtain p where
    p: "p \<le> sb_len ?r" "sb_ptr ?r + int (length ds) \<le> p" "list_all2 typed_out ds outs"
    and s1: "s1 = upd_net (sb_sock ?r) (net s (sb_sock ?r)) (upd_conn i (\<lambda>c. c\<lparr>c_r := ?r\<lparr>sb_ptr := p\<rparr>\<rparr>) s)"
  proof (cases rule: Packet_scanf_total [OF wf nr assms(2), of "net s (sb_sock ?r)"])
    case (1 outs' p')
    then show ?thesis using that assms(4) i by (simp add: scan_r_def)
  next
    case (2 n' outs')
    then show ?thesis using assms(4,5) i by (auto simp: scan_r_def)
  qed
  have c: "c_r (Conn s1 ! i) = ?r\<lparr>sb_ptr := p\<rparr>" "length (Conn s1) = length (Conn s)"
    using i by (simp_all add: s1)
  have step: "sb_ptr ?r < p" using p(2) assms(3) by (cases ds) auto
  show rx: "rx_ok i s1"
    using i wf nr p(1) step c by (auto simp: rx_ok_def wf_sockbuf_def no_refill_def split: option.splits)
  show "eats i s s1"
    using i rx step p(1) c by (auto simp: eats_def rx_more_def rx_left_def)
  show "list_all2 typed_out ds outs" by (rule p(3))
qed

lemma scan_r_fails:
  assumes "rx_ok i s" "parse_fmt fmt = Some ds" "scan_r i fmt s = Some (n, outs, s1)" "n \<le> 0"
  shows "n = 0 \<or> n = -1"
proof -
  have i: "i < length (Conn s)" and wf: "wf_sockbuf (c_r (Conn s ! i))" and nr: "no_refill (c_r (Conn s ! i))"
    using assms(1) by (simp_all add: rx_ok_def)
  let ?r = "c_r (Conn s ! i)"
  show ?thesis
  proof (cases rule: Packet_scanf_total [OF wf nr assms(2), of "net s (sb_sock ?r)"])
    case (1 outs' p')
    then show ?thesis using assms(3,4) i by (simp add: scan_r_def)
  next
    case (2 n' outs')
    then show ?thesis using assms(3) i by (simp add: scan_r_def)
  qed
qed

lemma scan_failed_result: "scan_failed G i msg n s = Some (res, s') \<Longrightarrow> res = n"
  by (auto simp: scan_failed_def elim!: bind_SomeE split: if_splits)

text \<open>The common shape of a handler: scan the packet, give up if that fails, go on with its fields.\<close>

lemma scan_then:
  assumes "rx_ok i s" "do { (n, outs, s1) \<leftarrow> scan_r i fmt s;
      if n \<le> 0 then scan_failed G i msg n s1 else K outs s1 } = Some (res, s')"
    "res \<notin> {-1, 0}" "parse_fmt fmt = Some ds" "ds \<noteq> []"
  obtains outs s1 where "eats i s s1" "rx_ok i s1" "list_all2 typed_out ds outs" "K outs s1 = Some (res, s')"
proof -
  from assms(2) obtain n outs s1 where sc: "scan_r i fmt s = Some (n, outs, s1)"
    and rest: "(if n \<le> 0 then scan_failed G i msg n s1 else K outs s1) = Some (res, s')"
    by (auto elim!: bind_SomeE)
  have "0 < n"
  proof (rule ccontr)
    assume "\<not> 0 < n"
    then have "n = 0 \<or> n = -1" "res = n"
      using scan_r_fails [OF assms(1,4) sc] scan_failed_result rest by (auto split: if_splits)
    then show False using assms(3) by auto
  qed
  then show ?thesis
    using that [of s1 outs] scan_r_eats [OF assms(1,4,5) sc] rest by simp
qed

lemma typed_out_iff:
  "typed_out DChar x \<longleftrightarrow> (\<exists>a. x = OChar a)" "typed_out DInt x \<longleftrightarrow> (\<exists>b. x = OInt b)"
  "typed_out DShort x \<longleftrightarrow> (\<exists>c. x = OShort c)" "typed_out DStr x \<longleftrightarrow> (\<exists>d. x = OStr d)"
  "typed_out DBigStr x \<longleftrightarrow> (\<exists>d. x = OStr d)"
  by (cases x; simp)+

lemmas typed_outs = list_all2_Cons1 typed_out_iff

text \<open>A packet is written or not; the count is never below -1.\<close>

lemma pf_str_mono: "pf_str cs stop b pos = Some (b', pos') \<Longrightarrow> pos \<le> pos'"
  by (induction cs arbitrary: b pos) (fastforce elim!: bind_SomeE split: if_splits)+

lemma pf_act_mono: "pf_act d args en b pos = Some (f, as, b', pos') \<Longrightarrow> pos \<le> pos'"
  by (cases d) (auto simp: Let_def elim!: bind_SomeE dest!: pf_str_mono split: if_splits list.splits parg.splits)

lemma pf_dir_mono: "pf_dir k fs args en b pos = Some (fs', f, as, b', pos') \<Longrightarrow> pos \<le> pos'"
  by (auto simp: pf_dir_def Let_def simp del: pf_act.simps dest!: pf_act_mono split: if_splits list.splits)

lemma pf_loop_mono: "pf_loop fs args en b pos = Some (f, b', pos') \<Longrightarrow> pos \<le> pos'"
proof (induction fs args en b pos rule: pf_loop.induct)
  case (2 c fs args en b pos)
  show ?case
  proof (cases fs)
    case Nil
    then show ?thesis using "2.prems" by (simp add: pf_loop.simps(2) split: if_splits)
  next
    case (Cons k fs1)
    then show ?thesis
      using "2.prems" "2.IH" [OF _ Cons] pf_dir_mono [of k fs1 args en b pos]
      by (fastforce simp: pf_loop.simps(2) split: if_splits option.splits)
  qed
qed simp

lemma print_c_ge:
  assumes "print_c i fmt args s = Some (n, s')"
  shows "-1 \<le> n"
proof -
  have "\<exists>(cn :: connection) sb. Packet_printf (last_packet_of_frame s) (c_c cn) fmt args = Some (n, sb)"
    using assms by (auto simp: print_c_def elim!: bind_SomeE)
  then show ?thesis
    by (auto simp: Packet_printf_def elim!: bind_SomeE dest!: pf_loop_mono split: pf_failure.splits)
qed

text \<open>No handler that lets the loop go on leaves the packet unread.\<close>

definition handler_eats :: "nat \<Rightarrow> (nat \<Rightarrow> server \<Rightarrow> (int \<times> server) option) \<Rightarrow> bool" where
  "handler_eats i h \<longleftrightarrow> (\<forall>s res s'. rx_ok i s \<longrightarrow> h i s = Some (res, s') \<longrightarrow> res \<notin> {-1, 0} \<longrightarrow> eats i s s')"

lemma handler_eatsI:
  "(\<And>s res s'. rx_ok i s \<Longrightarrow> h i s = Some (res, s') \<Longrightarrow> res \<notin> {-1, 0} \<Longrightarrow> eats i s s') \<Longrightarrow> handler_eats i h"
  unfolding handler_eats_def by blast

lemma fmt_c: "parse_fmt ''%c'' = Some [DChar]"
  and fmt_cd: "parse_fmt ''%c%ld'' = Some [DChar, DInt]"
  and fmt_ch: "parse_fmt ''%c%hd'' = Some [DChar, DShort]"
  and fmt_cc: "parse_fmt ''%c%c'' = Some [DChar, DChar]"
  and fmt_cdh: "parse_fmt ''%c%ld%hu'' = Some [DChar, DInt, DShort]"
  and fmt_cds: "parse_fmt ''%c%ld%s'' = Some [DChar, DInt, DStr]"
  and fmt_cdd: "parse_fmt ''%c%ld%ld'' = Some [DChar, DInt, DInt]"
  and fmt_display: "parse_fmt ''%c%hd%hd%c%c'' = Some [DChar, DShort, DShort, DChar, DChar]"
  and fmt_ccs: "parse_fmt ''%c%c%s'' = Some [DChar, DChar, DStr]"
  and fmt_cS: "parse_fmt ''%c%S'' = Some [DChar, DBigStr]"
  and fmt_S: "parse_fmt ''%S'' = Some [DBigStr]"
  by (simp_all add: parse_dir.simps(2))

lemma read_only_eats:
  assumes "parse_fmt fmt = Some ds" "ds \<noteq> []"
  shows "handler_eats i (read_only G fmt msg)"
proof (rule handler_eatsI)
  fix s res s'
  assume h: "rx_ok i s" "read_only G fmt msg i s = Some (res, s')" "res \<notin> {-1, 0}"
  show "eats i s s'"
    by (rule scan_then [OF h(1) _ h(3) assms, of G msg "\<lambda>_ s1. Some (1, s1)"])
       (use h(2) in \<open>auto simp: read_only_def\<close>)
qed

lemma Receive_display_eats: "handler_eats i (Receive_display G)"
proof (rule handler_eatsI)
  fix s res s'
  assume h: "rx_ok i s" "Receive_display G i s = Some (res, s')" "res \<notin> {-1, 0}"
  show "eats i s s'"
    by (rule scan_then [OF h(1) h(2) [unfolded Receive_display_def] h(3) fmt_display])
       (auto simp: typed_outs)
qed

lemma Receive_power_eats: "handler_eats i (Receive_power G)"
proof (rule handler_eatsI)
  fix s res s'
  assume h: "rx_ok i s" "Receive_power G i s = Some (res, s')" "res \<notin> {-1, 0}"
  show "eats i s s'"
    by (rule scan_then [OF h(1) h(2) [unfolded Receive_power_def] h(3) fmt_ch])
       (use h(3) in \<open>auto simp: typed_outs Let_def elim!: bind_SomeE split: if_splits
          dest!: calm_upd_player [where i = i] elim!: eats_calm\<close>)
qed

lemma Receive_ack_fuel_eats: "handler_eats i (Receive_ack_fuel G)"
proof (rule handler_eatsI)
  fix s res s'
  assume h: "rx_ok i s" "Receive_ack_fuel G i s = Some (res, s')" "res \<notin> {-1, 0}"
  show "eats i s s'"
    by (rule scan_then [OF h(1) h(2) [unfolded Receive_ack_fuel_def] h(3) fmt_cdh])
       (use h(3) in \<open>auto simp: typed_outs Let_def elim!: bind_SomeE split: if_splits\<close>)
qed

lemma Receive_fps_request_eats: "handler_eats i (Receive_fps_request G)"
proof (rule handler_eatsI)
  fix s res s'
  assume h: "rx_ok i s" "Receive_fps_request G i s = Some (res, s')" "res \<notin> {-1, 0}"
  show "eats i s s'"
    by (rule scan_then [OF h(1) h(2) [unfolded Receive_fps_request_def] h(3) fmt_cc])
       (auto simp: typed_outs Let_def elim!: bind_SomeE split: option.splits
          dest!: calm_upd_player [where i = i] elim!: eats_calm)
qed

lemma calm_gameD:
  assumes "calm_game G"
  shows "on_keyboard G p s = Some s' \<Longrightarrow> calm i s s'" "on_player_command G p c s = Some s' \<Longrightarrow> calm i s s'"
    "on_talk G j c s = Some s' \<Longrightarrow> calm i s s'" "on_pointer_move G p m s = Some s' \<Longrightarrow> calm i s s'"
    "on_login G j s = Some (prep, s') \<Longrightarrow> calm i s s'" "on_enter G p s = Some s' \<Longrightarrow> calm i s s'"
  using assms unfolding calm_game_def by blast+

lemma Receive_pointer_move_eats:
  assumes "calm_game G"
  shows "handler_eats i (Receive_pointer_move G)"
proof (rule handler_eatsI)
  fix s res s'
  assume h: "rx_ok i s" "Receive_pointer_move G i s = Some (res, s')" "res \<notin> {-1, 0}"
  show "eats i s s'"
    by (rule scan_then [OF h(1) h(2) [unfolded Receive_pointer_move_def] h(3) fmt_ch])
       (auto simp: typed_outs elim!: bind_SomeE eats_calm dest!: calm_gameD(4) [OF assms, where i = i])
qed

lemma Receive_talk_eats:
  assumes "calm_game G"
  shows "handler_eats i (Receive_talk G)"
proof (rule handler_eatsI)
  fix s res s'
  assume h: "rx_ok i s" "Receive_talk G i s = Some (res, s')" "res \<notin> {-1, 0}"
  show "eats i s s'"
  proof (rule scan_then [OF h(1) h(2) [unfolded Receive_talk_def] h(3) fmt_cds])
    fix outs s1
    assume e: "eats i s s1" "list_all2 typed_out [DChar, DInt, DStr] outs"
      and run: "(case outs of
            [OChar _, OInt sq, OStr str] \<Rightarrow>
              do { cn \<leftarrow> get_conn i s1;
                   if sint sq > c_talk_sequence_num cn then do {
                     (m, s2) \<leftarrow> print_c i ''%c%ld'' [arg_int PKT_TALK_ACK, AInt sq] s1;
                     if m \<le> 0 then scan_failed G i ''write error'' m s2
                     else do {
                       let s3 = upd_conn i (\<lambda>c. c\<lparr>c_talk_sequence_num := sint sq\<rparr>) s2;
                       s4 \<leftarrow> (if str \<noteq> [] \<and> hd str = of_char (CHR ''/'')
                               then do { p \<leftarrow> c_pl cn; on_player_command G p (tl str) s3 }
                               else on_talk G i str s3);
                       Some (1, s4) } }
                   else Some (1, s1) }
          | _ \<Rightarrow> None) = Some (res, s')"
    from e(2) obtain ch sq str where outs: "outs = [OChar ch, OInt sq, OStr str]"
      by (auto simp: typed_outs)
    from run obtain cn where cn: "get_conn i s1 = Some cn" by (auto simp: outs elim!: bind_SomeE)
    show "eats i s s'"
    proof (cases "sint sq > c_talk_sequence_num cn")
      case False
      then show ?thesis using run e(1) cn by (simp add: outs)
    next
      case True
      with run cn obtain m s2 where p: "print_c i ''%c%ld'' [arg_int PKT_TALK_ACK, AInt sq] s1 = Some (m, s2)"
        by (auto simp: outs elim!: bind_SomeE)
      note e2 = eats_calm [OF e(1) calm_print_c [OF p]]
      have "\<not> m \<le> 0"
        using run cn True p print_c_ge [OF p] h(3) by (auto simp: outs dest!: scan_failed_result)
      define s3 where "s3 = upd_conn i (\<lambda>c. c\<lparr>c_talk_sequence_num := sint sq\<rparr>) s2"
      have e3: "eats i s s3" unfolding s3_def using e2 by (rule eats_upd) simp
      from \<open>\<not> m \<le> 0\<close> have "do { s4 \<leftarrow> (if str \<noteq> [] \<and> hd str = of_char (CHR ''/'')
                    then do { p \<leftarrow> c_pl cn; on_player_command G p (tl str) s3 }
                    else on_talk G i str s3);
           Some (1, s4) } = Some (res, s')"
        using run cn True p unfolding outs s3_def by (auto simp: Let_def)
      then show ?thesis
        using eats_calm [OF e3 calm_gameD(2) [OF assms]] eats_calm [OF e3 calm_gameD(3) [OF assms]]
        by (auto elim!: bind_SomeE split: if_splits)
    qed
  qed simp
qed

lemma Receive_shape_eats: "handler_eats i (Receive_shape G)"
proof (rule handler_eatsI)
  fix s res s'
  assume h: "rx_ok i s" "Receive_shape G i s = Some (res, s')" "res \<notin> {-1, 0}"
  show "eats i s s'"
  proof (rule scan_then [OF h(1) h(2) [unfolded Receive_shape_def] h(3) fmt_cS])
    fix outs s1
    assume e: "eats i s s1" "rx_ok i s1" "list_all2 typed_out [DChar, DBigStr] outs"
      and run: "do { (m, outs2, s2) \<leftarrow> scan_r i ''%S'' s1;
            if m \<le> 0 then scan_failed G i ''read shape ext'' m s2
            else (case (outs, outs2) of
              ([OChar _, OStr str], [OStr ext]) \<Rightarrow>
                do { cn \<leftarrow> get_conn i s2;
                     Some (1, if c_state cn = CONN_LOGIN \<and> c_ship cn = None
                              then upd_conn i (\<lambda>c. c\<lparr>c_ship := on_shape G (str @ ext)\<rparr>) s2 else s2) }
            | _ \<Rightarrow> None) } = Some (res, s')"
    from e(3) obtain ch str where outs: "outs = [OChar ch, OStr str]" by (auto simp: typed_outs)
    show "eats i s s'"
    proof (rule scan_then [OF e(2) run h(3) fmt_S])
      fix outs2 s2
      assume e2: "eats i s1 s2" "list_all2 typed_out [DBigStr] outs2"
        and run2: "(case (outs, outs2) of
              ([OChar _, OStr str], [OStr ext]) \<Rightarrow>
                do { cn \<leftarrow> get_conn i s2;
                     Some (1, if c_state cn = CONN_LOGIN \<and> c_ship cn = None
                              then upd_conn i (\<lambda>c. c\<lparr>c_ship := on_shape G (str @ ext)\<rparr>) s2 else s2) }
            | _ \<Rightarrow> None) = Some (res, s')"
      have both: "eats i s s2"
        using e(1) e2(1) e(2) by (auto simp: eats_def rx_more_def rx_left_def)
      from e2(2) obtain ext where "outs2 = [OStr ext]" by (auto simp: typed_outs)
      then show ?thesis using run2 both by (auto simp: outs elim!: bind_SomeE)
    qed simp
  qed simp
qed

lemma Receive_ack_eats: "handler_eats i (Receive_ack G)"
proof (rule handler_eatsI)
  fix s res s'
  assume h: "rx_ok i s" "Receive_ack G i s = Some (res, s')" "res \<notin> {-1, 0}"
  from h(2) obtain n outs s1 where sc: "scan_r i ''%c%ld%ld'' s = Some (n, outs, s1)"
    by (auto simp: Receive_ack_def elim!: bind_SomeE)
  have "0 < n" using h(2,3) sc by (auto simp: Receive_ack_def elim!: bind_SomeE split: if_splits)
  note e = scan_r_eats [OF h(1) fmt_cdd _ sc this]
  then obtain ch rel t where outs: "outs = [OChar ch, OInt rel, OInt t]" by (auto simp: typed_outs)
  show "eats i s s'"
    using h(2,3) sc e(1) \<open>0 < n\<close>
    by (auto simp: Receive_ack_def outs Let_def elim!: bind_SomeE eats_calm [rotated]
        dest!: calm_ack_new_data [where i = i] split: if_splits)
qed

text \<open>A scan never moves the read pointer back.\<close>

definition holds_input :: "nat \<Rightarrow> server \<Rightarrow> server \<Rightarrow> bool" where
  "holds_input i s t \<longleftrightarrow> rx_ok i t \<and> rx_left i t \<le> rx_left i s"

lemma scan_r_holds:
  assumes "rx_ok i s" "parse_fmt fmt = Some ds" "scan_r i fmt s = Some (n, outs, s1)"
  shows "holds_input i s s1"
proof -
  have i: "i < length (Conn s)" and wf: "wf_sockbuf (c_r (Conn s ! i))" and nr: "no_refill (c_r (Conn s ! i))"
    using assms(1) by (simp_all add: rx_ok_def)
  let ?r = "c_r (Conn s ! i)"
  show ?thesis
  proof (cases rule: Packet_scanf_total [OF wf nr assms(2), of "net s (sb_sock ?r)"])
    case (1 outs' p')
    then have "s1 = upd_net (sb_sock ?r) (net s (sb_sock ?r)) (upd_conn i (\<lambda>c. c\<lparr>c_r := ?r\<lparr>sb_ptr := p'\<rparr>\<rparr>) s)"
      using assms(3) i by (simp add: scan_r_def)
    then show ?thesis
      using 1(2,3) i wf nr
      by (auto simp: holds_input_def rx_ok_def rx_left_def wf_sockbuf_def no_refill_def split: option.splits)
  next
    case (2 n' outs')
    then have "s1 = upd_net (sb_sock ?r) (net s (sb_sock ?r)) (upd_conn i (\<lambda>c. c\<lparr>c_r := ?r\<rparr>) s)"
      using assms(3) i by (simp add: scan_r_def)
    then show ?thesis using i wf nr by (simp add: holds_input_def rx_ok_def rx_left_def)
  qed
qed

lemma holds_upd: "holds_input i s t \<Longrightarrow> (\<And>c. c_r (f c) = c_r c) \<Longrightarrow> holds_input i s (upd_conn i f t)"
  by (simp add: holds_input_def rx_ok_def rx_left_def)

lemma holds_upd_player: "upd_player p f t = Some t' \<Longrightarrow> holds_input i s t \<Longrightarrow> holds_input i s t'"
  by (auto simp: upd_player_def holds_input_def rx_ok_def rx_left_def elim!: bind_SomeE)

lemma skip_eats:
  assumes "holds_input i s t" "0 < n"
  shows "eats i s (skip_r i n t)"
proof -
  have i: "i < length (Conn t)" using assms(1) by (simp add: holds_input_def rx_ok_def)
  show ?thesis
  proof (cases "rx_more i (skip_r i n t)")
    case True
    then have "rx_more i t" using assms(2) i by (simp add: rx_more_def skip_r_def)
    with True i assms show ?thesis
      by (auto simp: eats_def holds_input_def rx_more_def rx_left_def skip_r_def rx_ok_def wf_sockbuf_def
          no_refill_def split: option.splits)
  next
    case False
    then show ?thesis using i by (simp add: eats_def skip_r_def)
  qed
qed

lemma take_keys_eats:
  assumes "calm_game G" "holds_input i s t" "take_keys G i change t = Some t'"
  shows "eats i s t'"
proof -
  have k: "0 < KEYBOARD_SIZE" by (simp add: KEYBOARD_SIZE_def)
  from assms(3) obtain cn where cn: "get_conn i t = Some cn" by (auto simp: take_keys_def elim!: bind_SomeE)
  show ?thesis
  proof (cases "change \<le> c_last_key_change cn")
    case True
    then show ?thesis using assms(3) cn skip_eats [OF assms(2) k] by (simp add: take_keys_def)
  next
    case False
    then obtain p t1 keys where u: "upd_player p (\<lambda>pl. pl\<lparr>pl_last_keyv := keys\<rparr>)
          (upd_conn i (\<lambda>c. c\<lparr>c_last_key_change := change\<rparr>) t) = Some t1"
      and g: "on_keyboard G p (skip_r i KEYBOARD_SIZE t1) = Some t'"
      using assms(3) cn by (auto simp: take_keys_def Let_def elim!: bind_SomeE)
    have "holds_input i s t1" by (rule holds_upd_player [OF u holds_upd [OF assms(2)]]) simp
    from eats_calm [OF skip_eats [OF this k] calm_gameD(1) [OF assms(1) g]] show ?thesis .
  qed
qed

lemma Receive_keyboard_eats:
  assumes "calm_game G"
  shows "handler_eats i (Receive_keyboard G)"
proof (rule handler_eatsI)
  fix s res s'
  assume h: "rx_ok i s" "Receive_keyboard G i s = Some (res, s')" "res \<notin> {-1, 0}"
  then obtain n outs s1 change s2 where sc: "scan_r i ''%c%ld'' s = Some (n, outs, s1)"
    and s2: "take_keys G i change s1 = Some s2"
    and s': "s' = upd_conn i (\<lambda>c. c\<lparr>c_num_keyboard_updates := c_num_keyboard_updates c + 1\<rparr>) s2"
    by (auto simp: Receive_keyboard_def Let_def elim!: bind_SomeE split: if_splits)
  have "eats i s s2" by (rule take_keys_eats [OF assms scan_r_holds [OF h(1) fmt_cd sc] s2])
  then show "eats i s s'" unfolding s' by (rule eats_upd) simp
qed

lemma calm_Send_reply: "Send_reply G j a b s = Some (n, s') \<Longrightarrow> n \<noteq> -1 \<Longrightarrow> calm i s s'"
  by (auto simp: Send_reply_def elim!: bind_SomeE dest: calm_print_c split: if_splits)

lemma Handle_login_calm:
  assumes "calm_game G" "Handle_login G i s = Some (True, s')"
  shows "calm i s s'"
proof -
  from assms(2) obtain p s1 s2 s3 n s4 s5
    where s1: "on_login G i s = Some (Entered p, s1)"
      and s2: "upd_player p (\<lambda>pl. pl\<lparr>pl_connp := Some i, pl_last_keyv := replicate 9 0,
                   pl_prev_keyv := replicate 9 0\<rparr>) (upd_conn i (\<lambda>c. c\<lparr>c_pl := Some p\<rparr>) s1) = Some s2"
      and s3: "Conn_set_state i CONN_READY CONN_PLAYING s2 = Some s3"
      and s4: "Send_reply G i PKT_PLAY PKT_SUCCESS s3 = Some (n, s4)" "\<not> n \<le> 0"
      and s5: "on_enter G p s4 = Some s5"
      and s': "Conn s' = Conn s5"
    unfolding Handle_login_def by (auto elim!: bind_SomeE split: login_prep.splits if_splits)
  have "calm i s1 (upd_conn i (\<lambda>c. c\<lparr>c_pl := Some p\<rparr>) s1)" by (rule calm_upd) simp
  from calm_trans [OF calm_gameD(5) [OF assms(1) s1] calm_trans [OF this
        calm_trans [OF calm_upd_player [OF s2] calm_trans [OF calm_set_state [OF s3]
        calm_trans [OF calm_Send_reply [OF s4(1)] calm_trans [OF calm_gameD(6) [OF assms(1) s5] calm_other [OF s']]]]]]] s4(2)
  show ?thesis by simp
qed

lemma Receive_play_eats:
  assumes "calm_game G"
  shows "handler_eats i (Receive_play G)"
proof (rule handler_eatsI)
  fix s res s'
  assume h: "rx_ok i s" "Receive_play G i s = Some (res, s')" "res \<notin> {-1, 0}"
  then obtain n outs s1 s2 where sc: "scan_r i ''%c'' s = Some (n, outs, s1)" "n = 1"
    and s2: "clear_w i s1 = Some s2" "Handle_login G i s2 = Some (True, s')"
    by (auto simp: Receive_play_def elim!: bind_SomeE split: if_splits)
  have e1: "eats i s s1" using scan_r_eats(1) [OF h(1) fmt_c _ sc(1)] sc(2) by simp
  have "calm i s1 s2" using s2(1) by (auto simp: clear_w_def elim!: bind_SomeE intro!: calm_upd)
  with e1 Handle_login_calm [OF assms s2(2)] show "eats i s s'" by (blast intro: eats_calm)
qed

lemma gives_up_eats:
  "handler_eats i (Receive_quit G)" "handler_eats i Receive_discard" "handler_eats i (Receive_undefined G)"
  by (auto simp: handler_eats_def Receive_quit_def Receive_discard_def Receive_undefined_def elim!: bind_SomeE)

lemma readers_eat:
  "handler_eats i (Receive_modifier_bank G)" "handler_eats i (Receive_motd G)"
  "handler_eats i (Receive_audio_request G)"
  using read_only_eats [OF fmt_ccs, of i G "''read modbank''"] read_only_eats [OF fmt_cdd, of i G "''read error''"]
    read_only_eats [OF fmt_cc, of i G "''read error''"]
  unfolding handler_eats_def Receive_modifier_bank_def Receive_motd_def Receive_audio_request_def by auto

lemmas all_eat = gives_up_eats readers_eat Receive_ack_eats Receive_display_eats Receive_power_eats
  Receive_ack_fuel_eats Receive_fps_request_eats Receive_shape_eats

lemma tables_eat:
  "handler_eats i (drain_receive G ty)"
  "calm_game G \<Longrightarrow> handler_eats i (login_receive G ty)"
  "calm_game G \<Longrightarrow> handler_eats i (playing_receive G ty)"
  by (simp_all add: drain_receive_def login_receive_def playing_receive_def all_eat Receive_play_eats
      Receive_keyboard_eats Receive_talk_eats Receive_pointer_move_eats)

lemma input_loop_ends:
  assumes "\<And>ty. handler_eats i (tbl ty)" "rx_more i s \<Longrightarrow> rx_ok i s \<and> rx_left i s \<le> k"
    "input_loop tbl i k s = Some (e, s')"
  shows "e = Finished"
  using assms(2,3)
proof (induction k arbitrary: s)
  case 0
  show ?case
  proof (cases "rx_more i s")
    case True
    then show ?thesis using "0.prems"(1) by (simp add: rx_left_def rx_more_def)
  next
    case False
    then show ?thesis using "0.prems"(2)
      by (auto simp: input_loop.simps [of tbl i 0] rx_more_def get_conn_iff elim!: bind_SomeE split: if_splits)
  qed
next
  case (Suc k)
  from Suc.prems(2) have i: "i < length (Conn s)"
    by (auto simp: input_loop.simps [of tbl i "Suc k"] get_conn_iff elim!: bind_SomeE)
  show ?case
  proof (cases "rx_more i s")
    case False
    then show ?thesis
      using Suc.prems(2) i by (simp add: input_loop.simps [of tbl i "Suc k"] rx_more_def)
  next
    case True
    then have "rx_ok i s" "rx_left i s \<le> Suc k" using Suc.prems(1) by blast+
    from True Suc.prems(2) i obtain ty res s1 where h: "tbl ty i s = Some (res, s1)"
      and go: "(if res = -1 then Some (Finished, s1)
                else if res = 0 then do { s2 \<leftarrow> clear_r i s1; Some (Finished, s2) }
                else do { cn1 \<leftarrow> get_conn i s1;
                     input_loop tbl i k (if c_state cn1 = CONN_PLAYING
                        then upd_conn i (\<lambda>c. c\<lparr>c_start := main_loops s1\<rparr>) s1 else s1) }) = Some (e, s')"
      by (auto simp: input_loop.simps [of tbl i "Suc k"] rx_more_def elim!: bind_SomeE)
    show ?thesis
    proof (cases "res \<in> {-1, 0}")
      case True
      then show ?thesis using go by (auto elim!: bind_SomeE)
    next
      case False
      then have "eats i s s1"
        using assms(1) [of ty] h \<open>rx_ok i s\<close> unfolding handler_eats_def by blast
      moreover from False go obtain cn1 :: connection where "input_loop tbl i k (if c_state cn1 = CONN_PLAYING
          then upd_conn i (\<lambda>c. c\<lparr>c_start := main_loops s1\<rparr>) s1 else s1) = Some (e, s')"
        unfolding insert_iff empty_iff de_Morgan_disj by (simp only: if_False) (erule bind_SomeE, blast)
      moreover have "eats i s (if c_state cn1 = CONN_PLAYING
          then upd_conn i (\<lambda>c. c\<lparr>c_start := main_loops s1\<rparr>) s1 else s1)"
        using \<open>eats i s s1\<close> by (auto intro: eats_upd)
      ultimately show ?thesis
        using \<open>rx_left i s \<le> Suc k\<close> by (intro Suc.IH) (auto simp: eats_def)
    qed
  qed
qed

lemma Sockbuf_read_fresh:
  assumes "wf_sockbuf r" "sb_ptr r = 0" "Sockbuf_read r e = Some (n, sb, e')"
  shows "wf_sockbuf sb \<and> sb_ptr sb = 0 \<and> sb_state sb = sb_state r"
proof (cases "has_bit (sb_state r) SOCKBUF_READ \<and> \<not> has_bit (sb_state r) SOCKBUF_LOCK")
  case False
  then show ?thesis using assms by (auto simp: Sockbuf_read_def split: if_splits)
next
  case True
  from Sockbuf_read_front [OF assms(1) _ _ assms(2), of e] True assms(3) show ?thesis by fastforce
qed

lemma rx_ok_read:
  assumes "rx_ok i s" "Sockbuf_read (Sockbuf_clear (c_r (Conn s ! i))) e = Some (n, sb, e')" "c_r (Conn t ! i) = sb"
    "length (Conn t) = length (Conn s)"
  shows "rx_ok i t \<and> rx_left i t \<le> nat (sb_len sb)"
proof -
  have "wf_sockbuf sb \<and> sb_ptr sb = 0 \<and> sb_state sb = sb_state (c_r (Conn s ! i))"
    using Sockbuf_read_fresh [OF wf_Sockbuf_clear _ assms(2)] assms(1) by (simp add: rx_ok_def Sockbuf_clear_def)
  then show ?thesis using assms by (simp add: rx_ok_def rx_left_def no_refill_def)
qed

text \<open>C10. \<open>Handle_input\<close> ends on every datagram, whatever its bytes: every handler that lets the loop of the
  packets go on has consumed at least its type byte, so as many rounds as the datagram has bytes are
  enough. What is asked of the game is that its calls leave the input of the connection alone or end
  it, as the destruction of the connection does.\<close>

theorem Handle_input_ends:
  assumes "calm_game G" "rx_ok i s" "Handle_input G L i s = Some (e, s')"
  shows "e = Finished"
proof -
  have i: "i < length (Conn s)" using assms(2) by (simp add: rx_ok_def)
  define st where "st = c_state (Conn s ! i)"
  define run where "run tbl = do {
      let s1 = upd_conn i (\<lambda>c. c\<lparr>c_num_keyboard_updates := 0, c_r := Sockbuf_clear (c_r c)\<rparr>) s;
      (n, sb, e) \<leftarrow> Sockbuf_read (Sockbuf_clear (c_r (Conn s ! i))) (net s (sb_sock (c_r (Conn s ! i))));
      let s2 = upd_net (sb_sock (c_r (Conn s ! i))) e (upd_conn i (\<lambda>c. c\<lparr>c_r := sb\<rparr>) s1);
      if n = -1 then do { s3 \<leftarrow> Destroy_connection G i (reason ''input error'') s2; Some (Finished, s3) }
      else if sb_len sb \<le> 0 then Some (Finished, s2)
      else input_loop tbl i (nat (sb_len sb)) s2 }" for tbl
  have ends: "e = Finished" if "run tbl = Some (e, s')" "\<And>ty. handler_eats i (tbl ty)" for tbl
  proof -
    from that(1) obtain n sb e1 where rd: "Sockbuf_read (Sockbuf_clear (c_r (Conn s ! i)))
        (net s (sb_sock (c_r (Conn s ! i)))) = Some (n, sb, e1)"
      by (auto simp: run_def Let_def elim!: bind_SomeE)
    define s2 where "s2 = upd_net (sb_sock (c_r (Conn s ! i))) e1 (upd_conn i (\<lambda>c. c\<lparr>c_r := sb\<rparr>)
      (upd_conn i (\<lambda>c. c\<lparr>c_num_keyboard_updates := 0, c_r := Sockbuf_clear (c_r c)\<rparr>) s))"
    have ok: "rx_ok i s2 \<and> rx_left i s2 \<le> nat (sb_len sb)"
      by (rule rx_ok_read [OF assms(2) rd]) (use i in \<open>simp_all add: s2_def\<close>)
    from that(1) rd consider "e = Finished" | "input_loop tbl i (nat (sb_len sb)) s2 = Some (e, s')"
      unfolding run_def s2_def Let_def by (auto elim!: bind_SomeE split: if_splits)
    then show ?thesis
    proof cases
      case 2
      from input_loop_ends [OF that(2) ok 2] show ?thesis .
    qed
  qed
  have "Handle_input G L i s = (if has_bit st (CONN_PLAYING OR CONN_READY) then run (playing_receive G)
          else if st = CONN_LOGIN then run (login_receive G)
          else if has_bit st (CONN_DRAIN OR CONN_SETUP) then run (drain_receive G)
          else if st = CONN_LISTENING then do { (_, s1) \<leftarrow> Handle_listening G L i s; Some (Finished, s1) }
          else if st \<noteq> CONN_FREE
          then do { s1 \<leftarrow> Destroy_connection G i (reason ''not input'') s; Some (Finished, s1) }
          else Some (Finished, s))"
    unfolding Handle_input_def get_conn_ok [OF i] bind.bind_lunit Let_def st_def run_def ..
  with assms(3) consider "run (playing_receive G) = Some (e, s')" | "run (login_receive G) = Some (e, s')"
    | "run (drain_receive G) = Some (e, s')" | "e = Finished"
    by (auto elim!: bind_SomeE simp del: bind_eq_Some_conv split: if_splits)
  then show ?thesis
  proof cases
    case 1
    from ends [OF 1 tables_eat(3) [OF assms(1)]] show ?thesis .
  next
    case 2
    from ends [OF 2 tables_eat(2) [OF assms(1)]] show ?thesis .
  next
    case 3
    from ends [OF 3 tables_eat(1)] show ?thesis .
  qed
qed

definition demo_rx :: "i32 \<Rightarrow> byte list \<Rightarrow> server" where
  "demo_rx st bytes = demo_server0\<lparr>Conn := [fresh_connection\<lparr>c_state := st, c_pl := None,
      c_r := \<lparr>sb_sock = 7, sb_buf = Some (replicate 64 0), sb_size = 64, sb_len = 0, sb_ptr = 0, sb_state = 0x11\<rparr>\<rparr>],
    net := (\<lambda>_. empty_os\<lparr>os_recvs := [RecvData bytes]\<rparr>)\<rparr>"

definition demo_unread :: "byte list \<Rightarrow> server" where
  "demo_unread bytes = demo_server0\<lparr>Conn := [fresh_connection\<lparr>c_r := \<lparr>sb_sock = 7, sb_buf = Some bytes,
      sb_size = int (length bytes), sb_len = int (length bytes), sb_ptr = 0, sb_state = 0x11\<rparr>\<rparr>]\<rparr>"

definition demo_listen :: listen_env where
  "demo_listen = \<lparr>e_lastport = 9, e_connect1 = True, e_connect2 = True\<rparr>"

lemma quiet_calm: "calm_game quiet_game"
  by (simp add: calm_game_def quiet_game_def)

theorem Handle_input_ends_witness:
  "\<exists>s'. Handle_input quiet_game demo_listen 0 (demo_rx CONN_PLAYING [55, 2, 0, 2, 0, 9, 9, 75, 20]) = Some (Finished, s')"
proof -
  have "map_option (\<lambda>_. ()) (Handle_input quiet_game demo_listen 0
      (demo_rx CONN_PLAYING [55, 2, 0, 2, 0, 9, 9, 75, 20])) = Some ()"
    by code_simp
  then obtain e s' where "Handle_input quiet_game demo_listen 0
      (demo_rx CONN_PLAYING [55, 2, 0, 2, 0, 9, 9, 75, 20]) = Some (e, s')" by auto
  moreover from Handle_input_ends [OF quiet_calm _ this] have "e = Finished"
    by (simp add: rx_ok_def demo_rx_def wf_sockbuf_def no_refill_def has_bit_def SOCKBUF_DGRAM_def SOCKBUF_LOCK_def)
  ultimately show ?thesis by blast
qed

subsection \<open>Particular packets\<close>

lemma scan_r_decodes:
  assumes "rx_ok i s" "parse_fmt fmt = Some ds" "encode ds args = Some bs"
    "unread (c_r (Conn s ! i)) = bs @ rest"
  obtains s1 where "scan_r i fmt s = Some (int (length ds), map2 decoded_arg ds args, s1)"
    "Conn s1 = (Conn s)[i := (Conn s ! i)\<lparr>c_r := (c_r (Conn s ! i))
        \<lparr>sb_ptr := sb_ptr (c_r (Conn s ! i)) + int (length bs)\<rparr>\<rparr>]"
    "rx_ok i s1" "main_loops s1 = main_loops s" "World s1 = World s" "player_heap s1 = player_heap s"
proof -
  have i: "i < length (Conn s)" and wf: "wf_sockbuf (c_r (Conn s ! i))" "no_refill (c_r (Conn s ! i))"
    using assms(1) by (simp_all add: rx_ok_def)
  let ?r = "c_r (Conn s ! i)"
  let ?r1 = "?r\<lparr>sb_ptr := sb_ptr ?r + int (length bs)\<rparr>"
  define s1 where "s1 = upd_net (sb_sock ?r) (net s (sb_sock ?r)) (upd_conn i (\<lambda>c. c\<lparr>c_r := ?r1\<rparr>) s)"
  have run: "scan_r i fmt s = Some (int (length ds), map2 decoded_arg ds args, s1)"
    using Packet_scanf_decodes [OF assms(2,3) wf assms(4), of "net s (sb_sock ?r)"] i
    by (simp add: scan_r_def s1_def)
  have "int (length bs) \<le> sb_len ?r - sb_ptr ?r"
    using length_unread [OF wf(1)] assms(4) by simp
  then have "rx_ok i s1"
    using i wf by (auto simp: s1_def rx_ok_def wf_sockbuf_def no_refill_def split: option.splits)
  then show ?thesis
    using that [OF run] by (simp add: s1_def upd_conn_def upd_net_def)
qed

lemma narrow_wide [simp]:
  "ucast (ucast w :: i32) = (w :: i16)" "ucast (ucast b :: i32) = (b :: byte)"
  by (rule bit_word_eqI, simp add: bit_simps)+

text \<open>C32. While a client is logging in, its connection has no player yet, and still the login table
  dispatches the power and turn-speed packets to \<open>Receive_power\<close>, which writes through the
  player pointer without a test: one such packet of three bytes makes the server dereference a null
  pointer.\<close>

theorem Receive_power_before_login_crashes:
  assumes "rx_ok i s" "c_pl (Conn s ! i) = None" "unread (c_r (Conn s ! i)) = word_of_int ty # be16 w @ rest"
    "PKT_POWER \<le> ty" "ty \<le> PKT_TURNRESISTANCE_S"
  shows "login_receive G ty i s = None"
proof -
  have i: "i < length (Conn s)" using assms(1) by (simp add: rx_ok_def)
  have ty: "ty \<in> {34, 35, 36, 37, 38, 39}"
    using assms(4,5) by (auto simp: PKT_POWER_def PKT_TURNRESISTANCE_S_def)
  have "uint (word_of_int ty :: byte) = ty" "ucast (word_of_int ty :: i32) = (word_of_int ty :: byte)"
    using ty by auto
  then have enc: "encode [DChar, DShort] [arg_int ty, AInt (ucast w)] = Some (word_of_int ty # be16 w)"
    and ty_byte: "uint (word_of_int ty :: byte) = ty"
    by (simp_all add: arg_int_def)
  from assms(3) have un: "unread (c_r (Conn s ! i)) = (word_of_int ty # be16 w) @ rest" by simp
  obtain s1 where s1: "scan_r i ''%c%hd'' s = Some (int (length [DChar, DShort]),
      map2 decoded_arg [DChar, DShort] [arg_int ty, AInt (ucast w)], s1)"
    and c1: "Conn s1 = (Conn s)[i := (Conn s ! i)\<lparr>c_r := (c_r (Conn s ! i))
        \<lparr>sb_ptr := sb_ptr (c_r (Conn s ! i)) + int (length (word_of_int ty # be16 w))\<rparr>\<rparr>]"
    by (rule scan_r_decodes [OF assms(1) fmt_ch enc un])
  have "get_conn i s1 = Some (Conn s1 ! i)" "c_pl (Conn s1 ! i) = None"
    using i assms(2) by (simp_all add: get_conn_iff c1)
  then have "Receive_power G i s = None"
    using ty ty_byte s1 by (auto simp: Receive_power_def Let_def pkt_power_types arg_int_def)
  then show ?thesis
    using ty by (auto simp: login_receive_def pkt_power_types PKT_PLAY_def PKT_QUIT_def PKT_ACK_def PKT_VERIFY_def)
qed

theorem Receive_power_before_login_crashes_witness:
  "login_receive quiet_game 34 0 (demo_unread [34, 1, 0]) = None"
proof -
  have "be16 0x0100 = [1, 0]" by code_simp
  then show ?thesis
    using Receive_power_before_login_crashes [of 0 "demo_unread [34, 1, 0]" 34 "0x0100" "[]" quiet_game]
    by (simp add: demo_unread_def unread_def contents_def rx_ok_def wf_sockbuf_def no_refill_def has_bit_def
        SOCKBUF_DGRAM_def SOCKBUF_LOCK_def fresh_connection_def zero_connection_def pkt_power_types)
qed

text \<open>The size of the view a client asks for is clamped: after any display packet it is within 384 and 1024
  in both dimensions, whatever 16-bit numbers the packet holds, and a legal size is taken as it is.\<close>

theorem Receive_display_clamps:
  assumes "rx_ok i s" "unread (c_r (Conn s ! i)) = word_of_int PKT_DISPLAY # be16 w @ be16 h @ [debris, spark] @ rest"
  shows "\<exists>s' width height. Receive_display G i s = Some (1, s') \<and>
    Get_display_parameters i s' = Some (width, height, uint debris, uint spark) \<and>
    384 \<le> width \<and> width \<le> 1024 \<and> 384 \<le> height \<and> height \<le> 1024 \<and>
    (384 \<le> sint w \<and> sint w \<le> 1024 \<longrightarrow> width = sint w) \<and>
    (384 \<le> sint h \<and> sint h \<le> 1024 \<longrightarrow> height = sint h)"
proof -
  have i: "i < length (Conn s)" using assms(1) by (simp add: rx_ok_def)
  let ?ds = "[DChar, DShort, DShort, DChar, DChar]"
  let ?args = "[arg_int PKT_DISPLAY, AInt (ucast w), AInt (ucast h), AInt (ucast debris), AInt (ucast spark)]"
  let ?bs = "word_of_int PKT_DISPLAY # be16 w @ be16 h @ [debris, spark]"
  have enc: "encode ?ds ?args = Some ?bs" by (simp add: arg_int_def PKT_DISPLAY_def)
  have un: "unread (c_r (Conn s ! i)) = ?bs @ rest" using assms(2) by simp
  obtain s1 where s1: "scan_r i ''%c%hd%hd%c%c'' s = Some (int (length ?ds), map2 decoded_arg ?ds ?args, s1)"
    and c1: "length (Conn s1) = length (Conn s)"
    using scan_r_decodes [OF assms(1) fmt_display enc un] by (metis length_list_update)
  define width where "width = LIMIT (sint w) MIN_VIEW_SIZE MAX_VIEW_SIZE"
  define height where "height = LIMIT (sint h) MIN_VIEW_SIZE MAX_VIEW_SIZE"
  let ?s' = "upd_conn i (\<lambda>c. c\<lparr>c_view_width := width, c_view_height := height,
    c_debris_colors := uint debris, c_spark_rand := uint spark\<rparr>) s1"
  have "Receive_display G i s = Some (1, ?s')"
    using s1 by (simp add: Receive_display_def arg_int_def width_def height_def)
  moreover have "Get_display_parameters i ?s' = Some (width, height, uint debris, uint spark)"
    using i c1 by (simp add: Get_display_parameters_def)
  moreover have "384 \<le> width \<and> width \<le> 1024 \<and> 384 \<le> height \<and> height \<le> 1024 \<and>
    (384 \<le> sint w \<and> sint w \<le> 1024 \<longrightarrow> width = sint w) \<and>
    (384 \<le> sint h \<and> sint h \<le> 1024 \<longrightarrow> height = sint h)"
    by (auto simp: width_def height_def LIMIT_def MIN_VIEW_SIZE_def MAX_VIEW_SIZE_def)
  ultimately show ?thesis by blast
qed

theorem Receive_display_clamps_witness:
  "\<exists>s' width height. Receive_display quiet_game 0 (demo_unread [55, 2, 0, 0xFF, 0xFF, 3, 4]) = Some (1, s') \<and>
    Get_display_parameters 0 s' = Some (width, height, 3, 4) \<and> width = 512 \<and> 384 \<le> height"
proof -
  have w: "be16 0x0200 = [2, 0]" "be16 0xFFFF = [0xFF, 0xFF]" "sint (0x0200 :: i16) = 512" by code_simp+
  have un: "unread (c_r (Conn (demo_unread [55, 2, 0, 0xFF, 0xFF, 3, 4]) ! 0)) =
      word_of_int PKT_DISPLAY # be16 0x0200 @ be16 0xFFFF @ [3, 4] @ []"
    by (simp add: w demo_unread_def unread_def contents_def PKT_DISPLAY_def)
  have "rx_ok 0 (demo_unread [55, 2, 0, 0xFF, 0xFF, 3, 4])"
    by (simp add: demo_unread_def rx_ok_def wf_sockbuf_def no_refill_def has_bit_def SOCKBUF_DGRAM_def
        SOCKBUF_LOCK_def fresh_connection_def zero_connection_def)
  from Receive_display_clamps [OF this un, of quiet_game] show ?thesis by (auto simp: w(3))
qed

end
