(* ===== verification/Net_Send.thy ===== *)
theory Net_Send
  imports Net_Receive Net_Session
begin

text \<open>
  The packets the server sends to a client (\<open>server/netserver.c\<close>): the news about other players on the
  reliable stream, and the frame updates, which are collected in the write buffer between
  \<open>Send_start_of_frame\<close> and \<open>Send_end_of_frame\<close>.

  A sender takes what it reads of the player, object or position it reports, and the connection by its
  index; it returns the result of \<open>Packet_printf\<close>. The strings \<open>Convert_ship_2_string\<close> makes of a ship
  are part of the player's data. Coordinates of type \<open>DFLOAT\<close> are rational numbers and converted to
  integers by truncation.
\<close>

definition PKT_MESSAGE :: int where "PKT_MESSAGE = 5"
definition PKT_START :: int where "PKT_START = 6"
definition PKT_END :: int where "PKT_END = 7"
definition PKT_SELF :: int where "PKT_SELF = 8"
definition PKT_DAMAGED :: int where "PKT_DAMAGED = 9"
definition PKT_CONNECTOR :: int where "PKT_CONNECTOR = 10"
definition PKT_REFUEL :: int where "PKT_REFUEL = 11"
definition PKT_SHIP :: int where "PKT_SHIP = 12"
definition PKT_BALL :: int where "PKT_BALL = 17"
definition PKT_SHUTDOWN :: int where "PKT_SHUTDOWN = 19"
definition PKT_DESTRUCT :: int where "PKT_DESTRUCT = 21"
definition PKT_RADAR :: int where "PKT_RADAR = 22"
definition PKT_SEEK :: int where "PKT_SEEK = 25"
definition PKT_PLAYER :: int where "PKT_PLAYER = 28"
definition PKT_SCORE :: int where "PKT_SCORE = 29"
definition PKT_FUEL :: int where "PKT_FUEL = 30"
definition PKT_BASE :: int where "PKT_BASE = 31"
definition PKT_LEAVE :: int where "PKT_LEAVE = 33"
definition PKT_WAR :: int where "PKT_WAR = 40"
definition PKT_FASTRADAR :: int where "PKT_FASTRADAR = 44"
definition PKT_SCORE_OBJECT :: int where "PKT_SCORE_OBJECT = 49"
definition PKT_EYES :: int where "PKT_EYES = 56"
definition PKT_MODIFIERS :: int where "PKT_MODIFIERS = 68"
definition PKT_FASTSHOT :: int where "PKT_FASTSHOT = 69"
definition PKT_TIME_LEFT :: int where "PKT_TIME_LEFT = 53"
definition PKT_WRECKAGE :: int where "PKT_WRECKAGE = 79"
definition PKT_DEBRIS :: int where "PKT_DEBRIS = 128"

definition NO_ID :: int where "NO_ID = -1"
definition FUEL_SCALE_BITS :: nat where "FUEL_SCALE_BITS = 8"


subsection \<open>What is reported\<close>

text \<open>The fields of a player that are sent, beside those of \<open>player\<close>.\<close>

record player_info = player +
  pl_id :: int
  pl_team_num :: "int option"  \<comment> \<open>\<open>team->Num\<close>, \<open>None\<close> without a team\<close>
  pl_mychar :: int
  pl_name :: "byte list"
  pl_realname :: "byte list"
  pl_hostname :: "byte list"
  pl_ship_strings :: "byte list \<times> byte list"
  pl_score :: int
  pl_lives :: int
  pl_home_base :: "int option"  \<comment> \<open>the identifier of the base\<close>
  pl_is_robot :: bool
  pl_pos :: "rat \<times> rat"
  pl_vel :: "rat \<times> rat"
  pl_pos_interp :: "rat \<times> rat"
  pl_vel_interp :: "rat \<times> rat"
  pl_dir :: int
  pl_fuel_sum :: int
  pl_fuel_max :: int

record objpos =
  pos_x :: int
  pos_y :: int
  pos_bx :: int
  pos_by :: int

definition c_trunc :: "rat \<Rightarrow> int" where
  "c_trunc x = (if 0 \<le> x then \<lfloor>x\<rfloor> else \<lceil>x\<rceil>)"

subsection \<open>News on the reliable stream\<close>

definition conn_ready :: "connection \<Rightarrow> bool" where
  "conn_ready c \<longleftrightarrow> has_bit (c_state c) (CONN_PLAYING OR CONN_READY)"

text \<open>A connection that is not in the game is not told: the sender returns 0.\<close>

definition tell :: "nat \<Rightarrow> string \<Rightarrow> parg list \<Rightarrow> server \<Rightarrow> (int \<times> server) option" where
  "tell i fmt args s =
     do { cn \<leftarrow> get_conn i s;
          if \<not> conn_ready cn then Some (0, s) else print_c i fmt args s }"

definition Send_leave :: "nat \<Rightarrow> int \<Rightarrow> server \<Rightarrow> (int \<times> server) option" where
  "Send_leave i pid s = tell i ''%c%hd'' [arg_int PKT_LEAVE, arg_int pid] s"

definition Send_war ::
  "nat \<Rightarrow> player_info option \<Rightarrow> player_info option \<Rightarrow> server \<Rightarrow> (int \<times> server) option" where
  "Send_war i src dst s =
     (let src_id = (case src of None \<Rightarrow> -1 | Some p \<Rightarrow> pl_id p);
          dst_id = (case dst of None \<Rightarrow> -1 | Some p \<Rightarrow> pl_id p)
      in tell i ''%c%hd%hd'' [arg_int PKT_WAR, arg_int src_id, arg_int dst_id] s)"

definition Send_seek :: "nat \<Rightarrow> int \<Rightarrow> int \<Rightarrow> int \<Rightarrow> server \<Rightarrow> (int \<times> server) option" where
  "Send_seek i programmer robot sought s =
     tell i ''%c%hd%hd%hd'' [arg_int PKT_SEEK, arg_int programmer, arg_int robot, arg_int sought] s"

text \<open>The description of a player is written in two parts; when the second does not fit the first is
  taken back.\<close>

definition Send_player :: "nat \<Rightarrow> player_info \<Rightarrow> server \<Rightarrow> (int \<times> server) option" where
  "Send_player i p s =
     do { cn \<leftarrow> get_conn i s;
          let sbuf_len = sb_len (c_c cn);
          if \<not> conn_ready cn then Some (0, s)
          else do {
            team \<leftarrow> pl_team_num p;
            let (buf, ext) = pl_ship_strings p;
            (n, s1) \<leftarrow> print_c i ''%c%hd%c%c%s%s%s%S''
               [arg_int PKT_PLAYER, arg_int (pl_id p), arg_int team, arg_int (pl_mychar p),
                AStr (pl_name p), AStr (pl_realname p), AStr (pl_hostname p), AStr buf] s;
            if n > 0 then do {
              (m, s2) \<leftarrow> print_c i ''%S'' [AStr ext] s1;
              Some (m, if m \<le> 0 then upd_conn i (\<lambda>c. c\<lparr>c_c := (c_c c)\<lparr>sb_len := sbuf_len\<rparr>\<rparr>) s2 else s2) }
            else Some (n, s1) } }"

definition Send_score :: "nat \<Rightarrow> player_info \<Rightarrow> server \<Rightarrow> (int \<times> server) option" where
  "Send_score i p s =
     tell i ''%c%hd%hd%hd%c''
       [arg_int PKT_SCORE, arg_int (pl_id p), arg_int (pl_score p), arg_int (pl_lives p), arg_int (pl_mychar p)] s"

text \<open>\<open>pl->home_base->id\<close> is read only when the connection is ready.\<close>

definition tell_base :: "nat \<Rightarrow> int \<Rightarrow> player_info \<Rightarrow> server \<Rightarrow> (int \<times> server) option" where
  "tell_base i who p s =
     do { cn \<leftarrow> get_conn i s;
          if \<not> conn_ready cn then Some (0, s)
          else do { b \<leftarrow> pl_home_base p;
                    print_c i ''%c%hd%hu'' [arg_int PKT_BASE, arg_int who, arg_int b] s } }"

definition Send_base :: "nat \<Rightarrow> player_info \<Rightarrow> server \<Rightarrow> (int \<times> server) option" where
  "Send_base i p s = tell_base i (pl_id p) p s"

definition Send_release_base :: "nat \<Rightarrow> player_info \<Rightarrow> server \<Rightarrow> (int \<times> server) option" where
  "Send_release_base i p s = tell_base i NO_ID p s"

definition Send_score_object ::
  "nat \<Rightarrow> int \<Rightarrow> objpos \<Rightarrow> byte list \<Rightarrow> server \<Rightarrow> (int \<times> server) option" where
  "Send_score_object i score pos str s =
     tell i ''%c%hd%hu%hu%s''
       [arg_int PKT_SCORE_OBJECT, arg_int score, arg_int (pos_bx pos), arg_int (pos_by pos), AStr str] s"

definition Send_message :: "nat \<Rightarrow> byte list \<Rightarrow> server \<Rightarrow> (int \<times> server) option" where
  "Send_message i msg s = tell i ''%c%S'' [arg_int PKT_MESSAGE, AStr msg] s"

definition Send_info :: "nat \<Rightarrow> player_info \<Rightarrow> i32 \<Rightarrow> server \<Rightarrow> server option" where
  "Send_info i p attr s =
     do { s1 \<leftarrow> (if has_bit attr PL_SEND_GENERAL then map_option snd (Send_player i p s) else Some s);
          s2 \<leftarrow> (if has_bit attr PL_SEND_SCORE then map_option snd (Send_score i p s1) else Some s1);
          if has_bit attr PL_SEND_BASE \<and> pl_home_base p \<noteq> None
          then map_option snd (Send_base i p s2) else Some s2 }"

text \<open>\<open>Players\<close> is the list of the players with their addresses.\<close>

definition Send_info_about_myself :: "player_info \<Rightarrow> i32 \<Rightarrow> server \<Rightarrow> server option" where
  "Send_info_about_myself p attr s = do { j \<leftarrow> pl_connp p; Send_info j p attr s }"

fun Send_info_about_others ::
  "(nat \<times> player_info) list \<Rightarrow> nat \<Rightarrow> player_info \<Rightarrow> i32 \<Rightarrow> server \<Rightarrow> server option" where
  "Send_info_about_others [] a p attr s = Some s"
| "Send_info_about_others ((a2, p2) # players) a p attr s =
     (if a2 \<noteq> a \<and> (pl_connp p2 \<noteq> None \<or> pl_is_robot p2)
      then do { j \<leftarrow> pl_connp p;
                s1 \<leftarrow> Send_info j p2 attr s;
                Send_info_about_others players a p attr s1 }
      else Send_info_about_others players a p attr s)"

fun Send_info_about_player ::
  "(nat \<times> player_info) list \<Rightarrow> nat \<Rightarrow> player_info \<Rightarrow> i32 \<Rightarrow> server \<Rightarrow> server option" where
  "Send_info_about_player [] a p attr s = Some s"
| "Send_info_about_player ((a2, p2) # players) a p attr s =
     (if a2 = a then Send_info_about_player players a p attr s
      else (case pl_connp p2 of
              None \<Rightarrow> Send_info_about_player players a p attr s
            | Some j \<Rightarrow> do { s1 \<leftarrow> Send_info j p attr s;
                             Send_info_about_player players a p attr s1 }))"

definition Player_get_addr :: "player_info option \<Rightarrow> server \<Rightarrow> byte list option option" where
  "Player_get_addr p s =
     (case p of
        None \<Rightarrow> Some None
      | Some p' \<Rightarrow> (case pl_connp p' of
          None \<Rightarrow> Some None
        | Some j \<Rightarrow> do { cn \<leftarrow> get_conn j s; Some (c_addr cn) }))"

subsection \<open>Frame updates\<close>

definition Send_modifiers :: "nat \<Rightarrow> byte list \<Rightarrow> server \<Rightarrow> (int \<times> server) option" where
  "Send_modifiers i mods s = print_w i ''%c%s'' [arg_int PKT_MODIFIERS, AStr mods] s"

text \<open>\<open>real_frame\<close> is the answer of \<open>Frame_is_real\<close>, \<open>lock\<close> the identifier of the locked player.\<close>

definition Send_self ::
  "bool \<Rightarrow> nat \<Rightarrow> player_info \<Rightarrow> int option \<Rightarrow> int \<Rightarrow> int \<Rightarrow> int \<Rightarrow> int \<Rightarrow> byte list \<Rightarrow> server \<Rightarrow>
   (int \<times> server) option" where
  "Send_self real_frame i p lock lock_dist lock_dir autopilotlight status mods s =
     do { cn \<leftarrow> get_conn i s;
          let lock_id = (case lock of None \<Rightarrow> -1 | Some k \<Rightarrow> k);
          let (x, y) = (if real_frame then pl_pos p else pl_pos_interp p);
          let (vx, vy) = (if real_frame then pl_vel p else pl_vel_interp p);
          (n, s1) \<leftarrow> print_w i ''%c%hd%hd%hd%hd%c%c%c%c%hd%hd%c%c%c%hd%hd%hd%hd%c%c%c''
             [arg_int PKT_SELF, arg_int (c_trunc (x + 1/2)), arg_int (c_trunc (y + 1/2)),
              arg_int (c_trunc vx), arg_int (c_trunc vy), arg_int (pl_dir p),
              arg_int (c_trunc (pl_power p + 1/2)), arg_int (c_trunc (pl_turnspeed p + 1/2)),
              arg_int (c_trunc (pl_turnresistance p * 255 + 1/2)), arg_int lock_id,
              arg_int lock_dist, arg_int lock_dir, arg_int 0, arg_int 0,
              arg_int (pl_fuel_sum p div 2 ^ FUEL_SCALE_BITS), arg_int (pl_fuel_max p div 2 ^ FUEL_SCALE_BITS),
              arg_int (c_view_width cn), arg_int (c_view_height cn), arg_int (c_debris_colors cn),
              arg_int (status mod 256), arg_int autopilotlight] s;
          if n \<le> 0 then Some (n, s1) else Send_modifiers i mods s1 }"

definition Send_fuel :: "nat \<Rightarrow> int \<Rightarrow> int \<Rightarrow> server \<Rightarrow> (int \<times> server) option" where
  "Send_fuel i fid fuel s =
     print_w i ''%c%hu%hu'' [arg_int PKT_FUEL, arg_int fid, arg_int (fuel div 2 ^ FUEL_SCALE_BITS)] s"

definition Send_destruct :: "nat \<Rightarrow> int \<Rightarrow> server \<Rightarrow> (int \<times> server) option" where
  "Send_destruct i n s = print_w i ''%c%hd'' [arg_int PKT_DESTRUCT, arg_int n] s"

definition Send_shutdown :: "nat \<Rightarrow> int \<Rightarrow> int \<Rightarrow> server \<Rightarrow> (int \<times> server) option" where
  "Send_shutdown i n delay s = print_w i ''%c%hd%hd'' [arg_int PKT_SHUTDOWN, arg_int n, arg_int delay] s"

text \<open>\<open>avail\<close> decides how many items of \<open>unit\<close> bytes are written after a header; the bytes go
  straight into the buffer.\<close>

definition put_raw :: "nat \<Rightarrow> byte list \<Rightarrow> server \<Rightarrow> server option" where
  "put_raw i d s =
     do { cn \<leftarrow> get_conn i s;
          b \<leftarrow> sb_buf (c_w cn);
          b' \<leftarrow> buf_put (sb_len (c_w cn)) d b;
          Some (upd_conn i (\<lambda>c. c\<lparr>c_w := (c_w c)\<lparr>sb_buf := Some b', sb_len := sb_len (c_w c) + int (length d)\<rparr>\<rparr>) s) }"

definition Send_debris :: "nat \<Rightarrow> int \<Rightarrow> byte list \<Rightarrow> int \<Rightarrow> server \<Rightarrow> (int \<times> server) option" where
  "Send_debris i ty p n s =
     do { cn \<leftarrow> get_conn i s;
          let w = c_w cn;
          if n mod 256 \<noteq> n then Some (0, s)
          else do {
            let avail = sb_size w - sb_len w - SOCKBUF_WRITE_SPARE - 2;
            if n * 2 \<ge> avail \<and> \<not> avail > 2 then Some (0, s)
            else do {
              let m = (if n * 2 \<ge> avail then c_div (avail - 1) 2 else n);
              d \<leftarrow> buf_get 0 (m * 2) p;
              s1 \<leftarrow> put_raw i ([word_of_int (PKT_DEBRIS + ty), word_of_int m] @ d) s;
              Some (m, s1) } } }"

text \<open>Two server options and the version of the client decide on the highest bit of a wreck's type.\<close>

definition Send_wreckage ::
  "bool \<Rightarrow> nat \<Rightarrow> objpos \<Rightarrow> byte \<Rightarrow> byte \<Rightarrow> byte \<Rightarrow> server \<Rightarrow> (int \<times> server) option" where
  "Send_wreckage may_kill i pos wrtype sz rot s =
     do { cn \<leftarrow> get_conn i s;
          if c_version cn < 0x3800 then Some (1, s)
          else
            (let ty = (if may_kill \<and> c_version cn > 0x4201 then wrtype OR 0x80 else wrtype AND NOT 0x80)
             in print_w i ''%c%hd%hd%c%c%c''
                  [arg_int PKT_WRECKAGE, arg_int (pos_x pos), arg_int (pos_y pos), arg_int (uint ty),
                   arg_int (uint sz), arg_int (uint rot)] s) }"

definition Send_fastshot :: "nat \<Rightarrow> int \<Rightarrow> byte list \<Rightarrow> int \<Rightarrow> server \<Rightarrow> (int \<times> server) option" where
  "Send_fastshot i ty p n s =
     do { cn \<leftarrow> get_conn i s;
          let w = c_w cn;
          if n mod 256 \<noteq> n then Some (0, s)
          else do {
            let avail = sb_size w - sb_len w - SOCKBUF_WRITE_SPARE - 3;
            if n * 2 \<ge> avail \<and> \<not> avail > 2 then Some (0, s)
            else do {
              let m = (if n * 2 \<ge> avail then c_div (avail - 1) 2 else n);
              d \<leftarrow> buf_get 0 (m * 2) p;
              s1 \<leftarrow> put_raw i ([word_of_int PKT_FASTSHOT, word_of_int ty, word_of_int m] @ d) s;
              Some (m, s1) } } }"

text \<open>A ball: whether it is attached, and the identifier of its owner.\<close>

definition Send_ball :: "nat \<Rightarrow> objpos \<Rightarrow> (bool \<times> int option) option \<Rightarrow> server \<Rightarrow> (int \<times> server) option" where
  "Send_ball i pos ball s =
     (let who = (case ball of Some (True, Some k) \<Rightarrow> k | _ \<Rightarrow> -1)
      in print_w i ''%c%hd%hd%hd''
           [arg_int PKT_BALL, arg_int (pos_x pos), arg_int (pos_y pos), arg_int who] s)"

definition Send_ship :: "nat \<Rightarrow> objpos \<Rightarrow> int \<Rightarrow> int \<Rightarrow> int \<Rightarrow> server \<Rightarrow> (int \<times> server) option" where
  "Send_ship i pos pid dir shield s =
     print_w i ''%c%hd%hd%hd%c%c''
       [arg_int PKT_SHIP, arg_int (pos_x pos), arg_int (pos_y pos), arg_int pid, arg_int dir,
        arg_int (if shield \<noteq> 0 then 1 else 0)] s"

definition Send_refuel :: "nat \<Rightarrow> objpos \<Rightarrow> objpos \<Rightarrow> server \<Rightarrow> (int \<times> server) option" where
  "Send_refuel i fs pl s =
     print_w i ''%c%hd%hd%hd%hd''
       [arg_int PKT_REFUEL, arg_int (pos_x fs), arg_int (pos_y fs), arg_int (pos_x pl), arg_int (pos_y pl)] s"

definition Send_connector :: "nat \<Rightarrow> objpos \<Rightarrow> objpos \<Rightarrow> int \<Rightarrow> server \<Rightarrow> (int \<times> server) option" where
  "Send_connector i ball pl tractor s =
     print_w i ''%c%hd%hd%hd%hd%c''
       [arg_int PKT_CONNECTOR, arg_int (pos_x ball), arg_int (pos_y ball), arg_int (pos_x pl),
        arg_int (pos_y pl), arg_int tractor] s"

definition Send_radar :: "nat \<Rightarrow> int \<Rightarrow> int \<Rightarrow> int \<Rightarrow> server \<Rightarrow> (int \<times> server) option" where
  "Send_radar i x y sz s =
     print_w i ''%c%hd%hd%c'' [arg_int PKT_RADAR, arg_int x, arg_int y, arg_int sz] s"

definition Send_fastradar :: "nat \<Rightarrow> byte list \<Rightarrow> int \<Rightarrow> server \<Rightarrow> (int \<times> server) option" where
  "Send_fastradar i buf n s =
     do { cn \<leftarrow> get_conn i s;
          let w = c_w cn;
          if n mod 256 \<noteq> n then Some (0, s)
          else do {
            let avail = sb_size w - sb_len w - SOCKBUF_WRITE_SPARE - 3;
            if n * 3 \<ge> avail \<and> \<not> avail > 3 then Some (0, s)
            else do {
              let m = (if n * 3 \<ge> avail then c_div (avail - 2) 3 else n);
              d \<leftarrow> buf_get 0 (m * 3) buf;
              s1 \<leftarrow> put_raw i ([word_of_int PKT_FASTRADAR, word_of_int m] @ d) s;
              Some (2 + m * 3, s1) } } }"

definition Send_damaged :: "nat \<Rightarrow> int \<Rightarrow> server \<Rightarrow> (int \<times> server) option" where
  "Send_damaged i damaged s = print_w i ''%c%c'' [arg_int PKT_DAMAGED, arg_int damaged] s"

definition Send_time_left :: "nat \<Rightarrow> int \<Rightarrow> server \<Rightarrow> (int \<times> server) option" where
  "Send_time_left i sec s = print_w i ''%c%ld'' [arg_int PKT_TIME_LEFT, arg_int sec] s"

definition Send_eyes :: "nat \<Rightarrow> int \<Rightarrow> server \<Rightarrow> (int \<times> server) option" where
  "Send_eyes i pid s = print_w i ''%c%hd'' [arg_int PKT_EYES, arg_int pid] s"

subsection \<open>A frame\<close>

definition Send_start_of_frame :: "game \<Rightarrow> nat \<Rightarrow> server \<Rightarrow> (int \<times> server) option" where
  "Send_start_of_frame G i s =
     do { cn \<leftarrow> get_conn i s;
          if c_state cn \<noteq> CONN_PLAYING then Some (-1, s)
          else do {
            s1 \<leftarrow> clear_w i s;
            (n, s2) \<leftarrow> print_w i ''%c%ld%ld''
              [arg_int PKT_START, arg_int (frame_loops s), arg_int (c_last_key_change cn)] s1;
            if n \<le> 0 then do { s3 \<leftarrow> Destroy_connection G i (reason ''write error'') s2; Some (-1, s3) }
            else Some (0, s2) } }"

definition Send_end_of_frame :: "game \<Rightarrow> nat \<Rightarrow> server \<Rightarrow> (int \<times> server) option" where
  "Send_end_of_frame G i s =
     do { (n, s1) \<leftarrow> print_w i ''%c%ld'' [arg_int PKT_END, arg_int (frame_loops s)]
            (s\<lparr>last_packet_of_frame := True\<rparr>);
          let s2 = s1\<lparr>last_packet_of_frame := False\<rparr>;
          if n = -1 then do { s3 \<leftarrow> Destroy_connection G i (reason ''write error'') s2; Some (-1, s3) }
          else if n = 0 then do { s3 \<leftarrow> clear_w i s2; Some (0, s3) }
          else do {
            let flush = (\<lambda>t. do {
                  (q, t1) \<leftarrow> flush_w i t;
                  if q = -1 then do { t2 \<leftarrow> Destroy_connection G i (reason ''flush error'') t1; Some (-1, t2) }
                  else do { t2 \<leftarrow> clear_w i t1; Some (0, t2) } });
            cn \<leftarrow> get_conn i s2;
            if sb_len (c_c cn) > 0 \<and> sb_len (c_w cn) < MAX_RELIABLE_DATA_PACKET_SIZE then do {
              (r, s3) \<leftarrow> Send_reliable G i s2;
              if r = -1 then Some (-1, s3)
              else do {
                cn3 \<leftarrow> get_conn i s3;
                if sb_len (c_w cn3) = 0 then Some (1, s3) else flush s3 } }
            else flush s2 } }"

text \<open>The packets of a frame, and sending them one after the other; a packet that does not fit is
  left out.\<close>

datatype frame_packet =
    F_self bool player_info "int option" int int int int "byte list"
  | F_fuel int int
  | F_destruct int
  | F_shutdown int int
  | F_debris int "byte list" int
  | F_wreckage bool objpos byte byte byte
  | F_fastshot int "byte list" int
  | F_ball objpos "(bool \<times> int option) option"
  | F_ship objpos int int int
  | F_refuel objpos objpos
  | F_connector objpos objpos int
  | F_radar int int int
  | F_fastradar "byte list" int
  | F_damaged int
  | F_time_left int
  | F_eyes int

fun send_frame_packet :: "nat \<Rightarrow> frame_packet \<Rightarrow> server \<Rightarrow> (int \<times> server) option" where
  "send_frame_packet i (F_self r p lk d dir ap status mods) = Send_self r i p lk d dir ap status mods"
| "send_frame_packet i (F_fuel f x) = Send_fuel i f x"
| "send_frame_packet i (F_destruct n) = Send_destruct i n"
| "send_frame_packet i (F_shutdown n delay) = Send_shutdown i n delay"
| "send_frame_packet i (F_debris ty p n) = Send_debris i ty p n"
| "send_frame_packet i (F_wreckage kill pos ty sz rot) = Send_wreckage kill i pos ty sz rot"
| "send_frame_packet i (F_fastshot ty p n) = Send_fastshot i ty p n"
| "send_frame_packet i (F_ball pos ball) = Send_ball i pos ball"
| "send_frame_packet i (F_ship pos pid dir shield) = Send_ship i pos pid dir shield"
| "send_frame_packet i (F_refuel fs pl) = Send_refuel i fs pl"
| "send_frame_packet i (F_connector ball pl tractor) = Send_connector i ball pl tractor"
| "send_frame_packet i (F_radar x y sz) = Send_radar i x y sz"
| "send_frame_packet i (F_fastradar buf n) = Send_fastradar i buf n"
| "send_frame_packet i (F_damaged d) = Send_damaged i d"
| "send_frame_packet i (F_time_left sec) = Send_time_left i sec"
| "send_frame_packet i (F_eyes pid) = Send_eyes i pid"

fun send_frame :: "nat \<Rightarrow> frame_packet list \<Rightarrow> server \<Rightarrow> server option" where
  "send_frame i [] s = Some s"
| "send_frame i (p # ps) s = do { (_, s1) \<leftarrow> send_frame_packet i p s; send_frame i ps s1 }"

text \<open>The arrays of debris, shots and radar blips hold as many items as announced.\<close>

fun frame_packet_ok :: "frame_packet \<Rightarrow> bool" where
  "frame_packet_ok (F_debris ty p n) \<longleftrightarrow> n * 2 \<le> int (length p)"
| "frame_packet_ok (F_fastshot ty p n) \<longleftrightarrow> n * 2 \<le> int (length p)"
| "frame_packet_ok (F_fastradar p n) \<longleftrightarrow> n * 3 \<le> int (length p)"
| "frame_packet_ok _ \<longleftrightarrow> True"

subsection \<open>Frames fit\<close>

text \<open>The buffer of a frame under construction: the spare bytes at its end are free.\<close>

definition frame_room :: "sockbuf \<Rightarrow> bool" where
  "frame_room w \<longleftrightarrow> tx_ok w \<and> sb_len w \<le> sb_size w - SOCKBUF_WRITE_SPARE"

definition adds_to_frame :: "nat \<Rightarrow> server \<Rightarrow> server \<Rightarrow> byte list \<Rightarrow> bool" where
  "adds_to_frame i s s' d \<longleftrightarrow>
     (\<exists>w'. s' = upd_conn i (\<lambda>c. c\<lparr>c_w := w'\<rparr>) s \<and> frame_room w' \<and>
        contents w' = contents (c_w (Conn s ! i)) @ d \<and> sb_sock w' = sb_sock (c_w (Conn s ! i)))"

lemma adds_nothing: "i < length (Conn s) \<Longrightarrow> frame_room (c_w (Conn s ! i)) \<Longrightarrow> adds_to_frame i s s []"
  unfolding adds_to_frame_def
  by (intro exI [of _ "c_w (Conn s ! i)"]) (simp add: upd_conn_def)

lemma adds_trans:
  assumes "i < length (Conn s)" "adds_to_frame i s s1 d1" "adds_to_frame i s1 s2 d2"
  shows "adds_to_frame i s s2 (d1 @ d2)"
proof -
  from assms(2) obtain w1 where w1: "s1 = upd_conn i (\<lambda>c. c\<lparr>c_w := w1\<rparr>) s" "frame_room w1"
    "contents w1 = contents (c_w (Conn s ! i)) @ d1" "sb_sock w1 = sb_sock (c_w (Conn s ! i))"
    by (auto simp: adds_to_frame_def)
  from assms(3) obtain w2 where w2: "s2 = upd_conn i (\<lambda>c. c\<lparr>c_w := w2\<rparr>) s1" "frame_room w2"
    "contents w2 = contents (c_w (Conn s1 ! i)) @ d2" "sb_sock w2 = sb_sock (c_w (Conn s1 ! i))"
    by (auto simp: adds_to_frame_def)
  have "s2 = upd_conn i (\<lambda>c. c\<lparr>c_w := w2\<rparr>) s" using assms(1) by (simp add: w2(1) w1(1) upd_conn_def)
  then show ?thesis using w1 w2 assms(1) unfolding adds_to_frame_def by (intro exI [of _ w2]) simp
qed

lemma adds_keeps:
  assumes "adds_to_frame i s s' d" "i < length (Conn s)"
  shows "i < length (Conn s')" "frame_room (c_w (Conn s' ! i))" "last_packet_of_frame s' = last_packet_of_frame s"
    "frame_loops s' = frame_loops s" "contents (c_w (Conn s' ! i)) = contents (c_w (Conn s ! i)) @ d"
    "c_c (Conn s' ! i) = c_c (Conn s ! i)" "sent_on i s' = sent_on i s"
    "net s' = net s" "sb_sock (c_w (Conn s' ! i)) = sb_sock (c_w (Conn s ! i))"
  using assms by (auto simp: adds_to_frame_def sent_on_def upd_conn_def)

lemma print_w_adds:
  assumes "i < length (Conn s)" "frame_room (c_w (Conn s ! i))" "\<not> last_packet_of_frame s"
    "parse_fmt fmt = Some ds" "list_all2 typed_arg ds args"
  obtains n s' d where "print_w i fmt args s = Some (n, s')" "-1 \<le> n" "adds_to_frame i s s' d"
proof -
  let ?w = "c_w (Conn s ! i)"
  have w: "wf_sockbuf ?w" "sb_len ?w \<le> sb_size ?w - SOCKBUF_WRITE_SPARE"
    using assms(2) by (simp_all add: frame_room_def tx_ok_def)
  obtain n w' d where p: "Packet_printf False ?w fmt args = Some (n, w')" "wf_sockbuf w'"
    "contents w' = contents ?w @ d" "-1 \<le> n" "sb_size w' = sb_size ?w" "sb_state w' = sb_state ?w"
    "sb_sock w' = sb_sock ?w" "sb_len w' \<le> max (sb_len ?w) (pf_end False ?w)"
    by (rule Packet_printf_total [OF w(1) assms(4,5), of False])
  show ?thesis
    using p assms(1-3) w(2)
    by (intro that [of n "upd_conn i (\<lambda>c. c\<lparr>c_w := w'\<rparr>) s" d])
       (auto simp: print_w_def adds_to_frame_def frame_room_def tx_ok_def pf_end_def)
qed

lemma put_raw_adds:
  assumes "i < length (Conn s)" "frame_room (c_w (Conn s ! i))"
    "sb_len (c_w (Conn s ! i)) + int (length d) \<le> sb_size (c_w (Conn s ! i)) - SOCKBUF_WRITE_SPARE"
  obtains s' where "put_raw i d s = Some s'" "adds_to_frame i s s' d"
proof -
  let ?w = "c_w (Conn s ! i)"
  have w: "wf_sockbuf ?w" using assms(2) by (simp add: frame_room_def tx_ok_def)
  then obtain b where b: "sb_buf ?w = Some b" by (elim wf_sockbufE)
  have "int (length d) \<le> sb_size ?w - sb_len ?w" using assms(3) by (simp add: SOCKBUF_WRITE_SPARE_def)
  then obtain w' where w': "sockbuf_append d ?w = Some w'" "wf_sockbuf w'" "contents w' = contents ?w @ d"
    "sb_len w' = sb_len ?w + int (length d)" "sb_size w' = sb_size ?w" "sb_state w' = sb_state ?w"
    "sb_sock w' = sb_sock ?w"
    by (rule sockbuf_append_ok [OF w])
  then obtain b' where b': "buf_put (sb_len ?w) d b = Some b'"
    "w' = ?w\<lparr>sb_buf := Some b', sb_len := sb_len ?w + int (length d)\<rparr>"
    using b by (auto simp: sockbuf_append_def elim!: bind_SomeE)
  have "put_raw i d s = Some (upd_conn i (\<lambda>c. c\<lparr>c_w := w'\<rparr>) s)"
    using assms(1) b b' by (simp add: put_raw_def upd_conn_def)
  then show ?thesis
    using w' assms(2,3) by (intro that) (auto simp: adds_to_frame_def frame_room_def tx_ok_def)
qed

text \<open>The common shape of the three packets that hold as many items of \<open>k\<close> bytes as fit, behind a header of at
  most \<open>h\<close> bytes.\<close>

definition send_items ::
  "int \<Rightarrow> int \<Rightarrow> int \<Rightarrow> int \<Rightarrow> (int \<Rightarrow> byte list) \<Rightarrow> (int \<Rightarrow> int) \<Rightarrow> nat \<Rightarrow> byte list \<Rightarrow> int \<Rightarrow> server \<Rightarrow>
   (int \<times> server) option" where
  "send_items k h ct lm hdr res i p n s =
     do { cn \<leftarrow> get_conn i s;
          let w = c_w cn;
          if n mod 256 \<noteq> n then Some (0, s)
          else do {
            let avail = sb_size w - sb_len w - SOCKBUF_WRITE_SPARE - h;
            if n * k \<ge> avail \<and> \<not> avail > lm then Some (0, s)
            else do {
              let m = (if n * k \<ge> avail then c_div (avail - ct) k else n);
              d \<leftarrow> buf_get 0 (m * k) p;
              s1 \<leftarrow> put_raw i (hdr m @ d) s;
              Some (res m, s1) } } }"

abbreviation debris_header :: "int \<Rightarrow> int \<Rightarrow> byte list" where
  "debris_header ty m \<equiv> [word_of_int (PKT_DEBRIS + ty), word_of_int m]"

abbreviation fastshot_header :: "int \<Rightarrow> int \<Rightarrow> byte list" where
  "fastshot_header ty m \<equiv> [word_of_int PKT_FASTSHOT, word_of_int ty, word_of_int m]"

abbreviation fastradar_header :: "int \<Rightarrow> byte list" where
  "fastradar_header m \<equiv> [word_of_int PKT_FASTRADAR, word_of_int m]"

lemma raw_packets_items:
  "Send_debris i ty p n s = send_items 2 2 1 2 (debris_header ty) (\<lambda>m. m) i p n s"
  "Send_fastshot i ty p n s = send_items 2 3 1 2 (fastshot_header ty) (\<lambda>m. m) i p n s"
  "Send_fastradar i p n s = send_items 3 3 2 3 fastradar_header (\<lambda>m. 2 + m * 3) i p n s"
  by (simp_all only: Send_debris_def Send_fastshot_def Send_fastradar_def send_items_def)

lemma send_items_add:
  assumes "i < length (Conn s)" "frame_room (c_w (Conn s ! i))" "n * k \<le> int (length p)" "0 < k"
    "\<And>m. int (length (hdr m)) \<le> h" "0 \<le> ct" "ct \<le> lm"
  shows "\<exists>r s' d m. send_items k h ct lm hdr res i p n s = Some (r, s') \<and> adds_to_frame i s s' d \<and> m \<le> 255 \<and>
    d \<in> {[], hdr m @ take (nat (m * k)) p}"
proof -
  define avail where "avail = sb_size (c_w (Conn s ! i)) - sb_len (c_w (Conn s ! i)) - SOCKBUF_WRITE_SPARE - h"
  define m where "m = (if n * k \<ge> avail then c_div (avail - ct) k else n)"
  have run: "send_items k h ct lm hdr res i p n s =
    (if n mod 256 \<noteq> n then Some (0, s)
     else if n * k \<ge> avail \<and> \<not> avail > lm then Some (0, s)
     else do { d \<leftarrow> buf_get 0 (m * k) p; s1 \<leftarrow> put_raw i (hdr m @ d) s; Some (res m, s1) })"
    unfolding send_items_def get_conn_ok [OF assms(1)] bind.bind_lunit Let_def avail_def m_def ..
  show ?thesis
  proof (cases "n mod 256 \<noteq> n \<or> n * k \<ge> avail \<and> \<not> avail > lm")
    case True
    then show ?thesis unfolding run using adds_nothing [OF assms(1,2)] by (auto intro!: exI [of _ "0 :: int"])
  next
    case False
    then have n: "0 \<le> n" "n \<le> 255" using pos_mod_bound [of 256 n] pos_mod_sign [of 256 n] by auto
    have "c_div (avail - ct) k * k \<le> avail - ct" "0 \<le> c_div (avail - ct) k" if "ct < avail"
    proof -
      have "(avail - ct) div k * k + (avail - ct) mod k = avail - ct" "0 \<le> (avail - ct) mod k"
        using assms(4) by (simp_all only: div_mult_mod_eq pos_mod_sign)
      then show "c_div (avail - ct) k * k \<le> avail - ct" using that assms(4) by (simp only: c_div_nonneg)
      show "0 \<le> c_div (avail - ct) k" using that assms(4) by (simp add: c_div_nonneg pos_imp_zdiv_nonneg_iff)
    qed
    moreover have "c_div (avail - ct) k \<le> n" if "ct < avail" "avail \<le> n * k"
    proof -
      have "(avail - ct) div k \<le> n * k div k" using that assms(4,6) by (intro zdiv_mono1) simp_all
      then show ?thesis using that assms(4) by (simp add: c_div_nonneg)
    qed
    ultimately have m: "0 \<le> m" "m \<le> n" "m * k \<le> avail"
      using False n assms(6,7) by (auto simp: m_def not_less split: if_splits)
    let ?d = "take (nat (m * k)) p"
    have "0 \<le> m * k" "m * k \<le> n * k"
      using m(1,2) assms(4) by (simp_all add: mult_right_mono)
    then have "0 \<le> m * k" "m * k \<le> int (length p)" using assms(3) by simp_all
    then have g: "buf_get 0 (m * k) p = Some ?d" "int (length ?d) = m * k"
      by (simp_all add: buf_get_ok)
    have "sb_len (c_w (Conn s ! i)) + int (length (hdr m @ ?d)) \<le> sb_size (c_w (Conn s ! i)) - SOCKBUF_WRITE_SPARE"
      using m(3) g(2) assms(5) [of m] by (simp add: avail_def)
    then obtain s' where "put_raw i (hdr m @ ?d) s = Some s'" "adds_to_frame i s s' (hdr m @ ?d)"
      by (rule put_raw_adds [OF assms(1,2)])
    then show ?thesis
      using g(1) False m n unfolding run by (intro exI [of _ "res m"] exI [of _ s'] exI [of _ "hdr m @ ?d"] exI [of _ m]) auto
  qed
qed

text \<open>C31. The three packets that are copied into the buffer by hand never overrun it: whatever number of debris,
  shots or radar blips is asked for and however full the buffer is, the sender writes nothing or a
  header and the first \<open>m\<close> items, where \<open>m\<close> is the number in the header, and leaves the spare bytes free.\<close>

theorem raw_packets_fit:
  assumes "i < length (Conn s)" "frame_room (c_w (Conn s ! i))"
    "n * 2 \<le> int (length p)" "n' * 3 \<le> int (length p')"
  shows "(\<exists>r s' d m. Send_debris i ty p n s = Some (r, s') \<and> adds_to_frame i s s' d \<and> m \<le> 255 \<and>
       d \<in> {[], debris_header ty m @ take (nat (m * 2)) p}) \<and>
    (\<exists>r s' d m. Send_fastshot i ty p n s = Some (r, s') \<and> adds_to_frame i s s' d \<and> m \<le> 255 \<and>
       d \<in> {[], fastshot_header ty m @ take (nat (m * 2)) p}) \<and>
    (\<exists>r s' d m. Send_fastradar i p' n' s = Some (r, s') \<and> adds_to_frame i s s' d \<and> m \<le> 255 \<and>
       d \<in> {[], fastradar_header m @ take (nat (m * 3)) p'})"
  unfolding raw_packets_items by (intro conjI send_items_add assms) simp_all

definition demo_frame_conn :: connection where
  "demo_frame_conn = demo_conn\<lparr>c_state := CONN_PLAYING\<rparr>"

definition demo_frame :: server where
  "demo_frame = demo_server0\<lparr>Conn := [demo_frame_conn], net := (\<lambda>_. empty_os\<lparr>os_sends := [SendOk 5000]\<rparr>)\<rparr>"

lemma demo_frame_ok:
  "0 < length (Conn demo_frame)" "frame_room (c_w (Conn demo_frame ! 0))" "tx_ok (c_w (Conn demo_frame ! 0))"
  "c_state (Conn demo_frame ! 0) = CONN_PLAYING" "\<not> last_packet_of_frame demo_frame"
  "sb_len (c_c (Conn demo_frame ! 0)) \<le> 0"
  by (simp_all add: demo_frame_def demo_frame_conn_def demo_conn_def frame_room_def tx_ok_def wf_sockbuf_def
      SERVER_SEND_SIZE_def SOCKBUF_WRITE_SPARE_def SOCKBUF_WRITE_def SOCKBUF_DGRAM_def demo_server0_def)

theorem raw_packets_fit_witness:
  "(\<exists>r s' d m. Send_debris 0 3 [1, 2, 3, 4] 2 demo_frame = Some (r, s') \<and> adds_to_frame 0 demo_frame s' d \<and> m \<le> 255 \<and>
       d \<in> {[], debris_header 3 m @ take (nat (m * 2)) [1, 2, 3, 4]}) \<and>
    (\<exists>r s' d m. Send_fastshot 0 3 [1, 2, 3, 4] 2 demo_frame = Some (r, s') \<and> adds_to_frame 0 demo_frame s' d \<and> m \<le> 255 \<and>
       d \<in> {[], fastshot_header 3 m @ take (nat (m * 2)) [1, 2, 3, 4]}) \<and>
    (\<exists>r s' d m. Send_fastradar 0 [1, 2, 3] 1 demo_frame = Some (r, s') \<and> adds_to_frame 0 demo_frame s' d \<and> m \<le> 255 \<and>
       d \<in> {[], fastradar_header m @ take (nat (m * 3)) [1, 2, 3]})"
  by (rule raw_packets_fit [OF demo_frame_ok(1,2)]) simp_all

subsection \<open>A frame is sent whole\<close>

text \<open>The formats of the frame packets and the kinds of their arguments.\<close>

lemmas frame_fmts = parse_dir.simps(2) list_all2_Cons list_all2_Nil

lemma print_w_frame:
  assumes "i < length (Conn s)" "frame_room (c_w (Conn s ! i))" "\<not> last_packet_of_frame s"
    "parse_fmt fmt = Some ds" "list_all2 typed_arg ds args"
  shows "\<exists>r s' d. print_w i fmt args s = Some (r, s') \<and> adds_to_frame i s s' d"
  using print_w_adds [OF assms] by metis

lemma Send_self_adds:
  assumes "i < length (Conn s)" "frame_room (c_w (Conn s ! i))" "\<not> last_packet_of_frame s"
  shows "\<exists>r s' d. Send_self rf i p lk dst dir ap status mods s = Some (r, s') \<and> adds_to_frame i s s' d"
proof -
  obtain x y vx vy where xy: "(if rf then pl_pos p else pl_pos_interp p) = (x, y)"
    "(if rf then pl_vel p else pl_vel_interp p) = (vx, vy)" by (metis surj_pair)
  define args where "args = [arg_int PKT_SELF, arg_int (c_trunc (x + 1/2)), arg_int (c_trunc (y + 1/2)),
              arg_int (c_trunc vx), arg_int (c_trunc vy), arg_int (pl_dir p),
              arg_int (c_trunc (pl_power p + 1/2)), arg_int (c_trunc (pl_turnspeed p + 1/2)),
              arg_int (c_trunc (pl_turnresistance p * 255 + 1/2)),
              arg_int (case lk of None \<Rightarrow> -1 | Some k \<Rightarrow> k),
              arg_int dst, arg_int dir, arg_int 0, arg_int 0,
              arg_int (pl_fuel_sum p div 2 ^ FUEL_SCALE_BITS), arg_int (pl_fuel_max p div 2 ^ FUEL_SCALE_BITS),
              arg_int (c_view_width (Conn s ! i)), arg_int (c_view_height (Conn s ! i)),
              arg_int (c_debris_colors (Conn s ! i)), arg_int (status mod 256), arg_int ap]"
  have run: "Send_self rf i p lk dst dir ap status mods s =
    do { (n, s1) \<leftarrow> print_w i ''%c%hd%hd%hd%hd%c%c%c%c%hd%hd%c%c%c%hd%hd%hd%hd%c%c%c'' args s;
         if n \<le> 0 then Some (n, s1) else Send_modifiers i mods s1 }"
    unfolding Send_self_def get_conn_ok [OF assms(1)] bind.bind_lunit Let_def xy prod.case args_def ..
  let ?ds = "[DChar, DShort, DShort, DShort, DShort, DChar, DChar, DChar, DChar,
          DShort, DShort, DChar, DChar, DChar, DShort, DShort, DShort, DShort, DChar, DChar, DChar]"
  have fmt: "parse_fmt ''%c%hd%hd%hd%hd%c%c%c%c%hd%hd%c%c%c%hd%hd%hd%hd%c%c%c'' = Some ?ds"
    by (simp add: frame_fmts)
  have t: "list_all2 typed_arg ?ds args"
    unfolding args_def arg_int_def by (simp only: list_all2_Cons list_all2_Nil typed_arg.simps) simp
  obtain n s1 d1 where p1: "print_w i ''%c%hd%hd%hd%hd%c%c%c%c%hd%hd%c%c%c%hd%hd%hd%hd%c%c%c'' args s = Some (n, s1)"
    "adds_to_frame i s s1 d1"
    by (rule print_w_adds [OF assms fmt t])
  have k: "i < length (Conn s1)" "frame_room (c_w (Conn s1 ! i))" "\<not> last_packet_of_frame s1"
    using adds_keeps [OF p1(2) assms(1)] assms(3) by simp_all
  have fmt2: "parse_fmt ''%c%s'' = Some [DChar, DStr]"
    and t2: "list_all2 typed_arg [DChar, DStr] [arg_int PKT_MODIFIERS, AStr mods]"
    by (simp_all add: frame_fmts arg_int_def)
  obtain m s2 d2 where p2: "Send_modifiers i mods s1 = Some (m, s2)" "adds_to_frame i s1 s2 d2"
    unfolding Send_modifiers_def by (rule print_w_adds [OF k fmt2 t2])
  show ?thesis unfolding run using p1 p2(1) adds_trans [OF assms(1) p1(2) p2(2)] by auto
qed

lemma send_frame_packet_adds:
  assumes "i < length (Conn s)" "frame_room (c_w (Conn s ! i))" "\<not> last_packet_of_frame s" "frame_packet_ok p"
  shows "\<exists>r s' d. send_frame_packet i p s = Some (r, s') \<and> adds_to_frame i s s' d"
proof (cases p)
  case (F_self rf pl lk dst dir ap status mods)
  then show ?thesis using Send_self_adds [OF assms(1-3)] by simp
next
  case (F_debris ty q n)
  with assms show ?thesis
    using send_items_add [OF assms(1,2), of n 2 q "debris_header ty" 2 1 2 "\<lambda>m. m"]
    by (auto simp: raw_packets_items)
next
  case (F_fastshot ty q n)
  with assms show ?thesis
    using send_items_add [OF assms(1,2), of n 2 q "fastshot_header ty" 3 1 2 "\<lambda>m. m"]
    by (auto simp: raw_packets_items)
next
  case (F_fastradar q n)
  with assms show ?thesis
    using send_items_add [OF assms(1,2), of n 3 q fastradar_header 3 2 3 "\<lambda>m. 2 + m * 3"]
    by (auto simp: raw_packets_items)
next
  case (F_wreckage kill pos ty sz rot)
  show ?thesis
  proof (cases "c_version (Conn s ! i) < 0x3800")
    case True
    then show ?thesis using assms adds_nothing [OF assms(1,2)] by (auto simp: F_wreckage Send_wreckage_def)
  next
    case False
    then show ?thesis
      using assms(1) unfolding F_wreckage send_frame_packet.simps Send_wreckage_def get_conn_ok [OF assms(1)]
        bind.bind_lunit Let_def if_not_P [OF False]
      by (intro print_w_frame [OF assms(1-3), where ds = "[DChar, DShort, DShort, DChar, DChar, DChar]"])
         (simp_all add: frame_fmts arg_int_def)
  qed
qed (simp_all only: send_frame_packet.simps Send_fuel_def Send_destruct_def Send_shutdown_def Send_ball_def Let_def
      Send_ship_def Send_refuel_def Send_connector_def Send_radar_def Send_damaged_def Send_time_left_def Send_eyes_def,
     (rule print_w_frame [OF assms(1-3)], simp add: frame_fmts, simp add: frame_fmts arg_int_def)+)

lemma send_frame_adds:
  assumes "i < length (Conn s)" "frame_room (c_w (Conn s ! i))" "\<not> last_packet_of_frame s" "list_all frame_packet_ok ps"
  shows "\<exists>s' d. send_frame i ps s = Some s' \<and> adds_to_frame i s s' d"
  using assms
proof (induction ps arbitrary: s)
  case Nil
  then show ?case using adds_nothing by auto
next
  case (Cons p ps)
  then obtain r s1 d1 where 1: "send_frame_packet i p s = Some (r, s1)" "adds_to_frame i s s1 d1"
    using send_frame_packet_adds [of i s p] by auto
  note k = adds_keeps [OF 1(2) Cons.prems(1)]
  obtain s2 d2 where 2: "send_frame i ps s1 = Some s2" "adds_to_frame i s1 s2 d2"
    using Cons.IH [of s1] Cons.prems k by auto
  then show ?case using 1(1) adds_trans [OF Cons.prems(1) 1(2) 2(2)] by auto
qed

text \<open>The marks at the beginning and the end of a frame.\<close>

definition frame_start :: "server \<Rightarrow> int \<Rightarrow> byte list" where
  "frame_start s change = word_of_int PKT_START # be32 (word_of_int (frame_loops s)) @ be32 (word_of_int change)"

definition frame_end :: "server \<Rightarrow> byte list" where
  "frame_end s = word_of_int PKT_END # be32 (word_of_int (frame_loops s))"

lemma Send_start_of_frame_ok:
  assumes "i < length (Conn s)" "tx_ok (c_w (Conn s ! i))" "c_state (Conn s ! i) = CONN_PLAYING"
    "\<not> last_packet_of_frame s"
  obtains s' where "Send_start_of_frame G i s = Some (0, s')"
    "contents (c_w (Conn s' ! i)) = frame_start s (c_last_key_change (Conn s ! i))" "frame_room (c_w (Conn s' ! i))"
    "i < length (Conn s')" "\<not> last_packet_of_frame s'" "frame_loops s' = frame_loops s" "sent_on i s' = sent_on i s"
    "c_c (Conn s' ! i) = c_c (Conn s ! i)" "net s' = net s"
    "sb_sock (c_w (Conn s' ! i)) = sb_sock (c_w (Conn s ! i))"
proof -
  let ?c = "Conn s ! i"
  define s1 where "s1 = upd_conn i (\<lambda>c. c\<lparr>c_w := Sockbuf_clear (c_w c)\<rparr>) s"
  have i1: "i < length (Conn s1)" and w1: "c_w (Conn s1 ! i) = Sockbuf_clear (c_w ?c)"
    using assms(1) by (simp_all add: s1_def)
  have sk: "sb_sock (Sockbuf_clear w) = sb_sock w" for w by (simp add: Sockbuf_clear_def)
  have tx: "tx_ok (Sockbuf_clear (c_w ?c))"
    using assms(2) by (simp add: tx_ok_def wf_Sockbuf_clear)
  let ?args = "[arg_int PKT_START, arg_int (frame_loops s), arg_int (c_last_key_change ?c)]"
  let ?bs = "frame_start s (c_last_key_change ?c)"
  have fmt: "parse_fmt ''%c%ld%ld'' = Some [DChar, DInt, DInt]" by (simp add: frame_fmts)
  have enc: "encode [DChar, DInt, DInt] ?args = Some ?bs"
    by (simp add: arg_int_def frame_start_def PKT_START_def)
  have len: "length ?bs = 9" by (simp add: frame_start_def)
  have fits: "sb_len (Sockbuf_clear (c_w ?c)) + int (length ?bs) < pf_end False (Sockbuf_clear (c_w ?c))"
    using tx len by (simp add: pf_end_def tx_ok_def SERVER_SEND_SIZE_def SOCKBUF_WRITE_SPARE_def)
  obtain w' where w': "Packet_printf False (Sockbuf_clear (c_w ?c)) ''%c%ld%ld'' ?args = Some (int (length ?bs), w')"
    "wf_sockbuf w'" "contents w' = contents (Sockbuf_clear (c_w ?c)) @ ?bs" "sb_size w' = sb_size (Sockbuf_clear (c_w ?c))"
    "sb_state w' = sb_state (Sockbuf_clear (c_w ?c))" "sb_len w' = sb_len (Sockbuf_clear (c_w ?c)) + int (length ?bs)"
    "sb_sock w' = sb_sock (Sockbuf_clear (c_w ?c))"
    using tx unfolding tx_ok_def by (elim conjE) (rule Packet_printf_ok [OF _ fmt enc fits])
  define s2 where "s2 = upd_conn i (\<lambda>c. c\<lparr>c_w := w'\<rparr>) s1"
  have "print_w i ''%c%ld%ld'' ?args s1 = Some (9, s2)"
    using w'(1) i1 assms(4) len unfolding s2_def by (simp add: print_w_def w1) (simp add: s1_def)
  moreover have "clear_w i s = Some s1" using assms(1) by (simp add: clear_w_def s1_def)
  ultimately have run: "Send_start_of_frame G i s = Some (0, s2)"
    using assms(1,3) by (simp add: Send_start_of_frame_def)
  have room: "frame_room w'"
    using w' tx len by (simp add: frame_room_def tx_ok_def SERVER_SEND_SIZE_def SOCKBUF_WRITE_SPARE_def)
  show ?thesis
    by (rule that [OF run])
       (use w' room i1 assms(1,4) in \<open>simp_all add: s2_def s1_def sent_on_def upd_conn_def sk\<close>)
qed

text \<open>What becomes of a datagram: the system takes \<open>n\<close> of its bytes, has no room for it, or fails.\<close>

definition frame_fate ::
  "game \<Rightarrow> nat \<Rightarrow> server \<Rightarrow> byte list list \<Rightarrow> byte list \<Rightarrow> io_end \<Rightarrow> bool" where
  "frame_fate G i s old D out \<longleftrightarrow>
     (case out of
        IoDone n \<Rightarrow> 0 < n \<and> n \<le> int (length D) \<and>
          (\<exists>s'. Send_end_of_frame G i s = Some (0, s') \<and> sent_on i s' = old @ [take (nat n) D])
      | IoAgain \<Rightarrow> \<exists>s'. Send_end_of_frame G i s = Some (0, s') \<and> sent_on i s' = old
      | IoFailed b \<Rightarrow> \<exists>t. Send_end_of_frame G i s =
          do { t' \<leftarrow> Destroy_connection G i (reason ''flush error'') t; Some (-1, t') } \<and> sent_on i t = old)"

text \<open>A system that can take a datagram whole does.\<close>

lemma flush_dgram_whole:
  assumes "os_sends e = SendOk m # xs" "length d \<le> m" "d \<noteq> []"
  shows "fst (flush_dgram d 0 (e\<lparr>os_errno := ENONE\<rparr>)) = IoDone (int (length d))"
  using assms by (simp add: flush_dgram.simps [of d] DgramWrite_def min_def)

lemma Send_end_of_frame_ok:
  assumes "i < length (Conn s)" "frame_room (c_w (Conn s ! i))" "sb_len (c_c (Conn s ! i)) \<le> 0"
  defines "D \<equiv> contents (c_w (Conn s ! i)) @ frame_end s"
  shows "int (length D) < SERVER_SEND_SIZE \<and>
    frame_fate G i s (sent_on i s) D
      (fst (flush_dgram D 0 ((net s (sb_sock (c_w (Conn s ! i))))\<lparr>os_errno := ENONE\<rparr>)))"
proof -
  let ?c = "Conn s ! i"
  let ?w = "c_w ?c"
  let ?k = "sb_sock ?w"
  have tx: "tx_ok ?w" and wf: "wf_sockbuf ?w" and room: "sb_len ?w \<le> sb_size ?w - SOCKBUF_WRITE_SPARE"
    using assms(2) by (simp_all add: frame_room_def tx_ok_def)
  let ?args = "[arg_int PKT_END, arg_int (frame_loops s)]"
  have fmt: "parse_fmt ''%c%ld'' = Some [DChar, DInt]" by (simp add: frame_fmts)
  have enc: "encode [DChar, DInt] ?args = Some (frame_end s)"
    by (simp add: arg_int_def frame_end_def PKT_END_def)
  have len: "length (frame_end s) = 5" by (simp add: frame_end_def)
  have fits: "sb_len ?w + int (length (frame_end s)) < pf_end True ?w"
    using room len by (simp add: pf_end_def SOCKBUF_WRITE_SPARE_def)
  obtain w' where w': "Packet_printf True ?w ''%c%ld'' ?args = Some (int (length (frame_end s)), w')"
    "wf_sockbuf w'" "contents w' = contents ?w @ frame_end s" "sb_size w' = sb_size ?w" "sb_state w' = sb_state ?w"
    "sb_sock w' = ?k"
    by (rule Packet_printf_ok [OF wf fmt enc fits])
  define s1 where "s1 = upd_conn i (\<lambda>c. c\<lparr>c_w := w'\<rparr>) (s\<lparr>last_packet_of_frame := True\<rparr>)"
  define s2 where "s2 = s1\<lparr>last_packet_of_frame := False\<rparr>"
  have p: "print_w i ''%c%ld'' ?args (s\<lparr>last_packet_of_frame := True\<rparr>) = Some (5, s1)"
    using w'(1) assms(1) len by (simp add: print_w_def get_conn_iff s1_def)
  have s2: "length (Conn s2) = length (Conn s)" "Conn s2 ! i = ?c\<lparr>c_w := w'\<rparr>" "net s2 = net s"
    using assms(1) by (simp_all add: s2_def s1_def upd_conn_def)
  have tx': "has_bit (sb_state w') SOCKBUF_WRITE" "\<not> has_bit (sb_state w') SOCKBUF_LOCK"
    "has_bit (sb_state w') SOCKBUF_DGRAM"
    using tx_ok_flags [OF tx] w'(5) by simp_all
  have D: "contents w' = D" "D \<noteq> []" using w'(3) len by (auto simp: D_def)
  define e0 where "e0 = net s ?k"
  obtain out e where fl_out: "flush_dgram D 0 (e0\<lparr>os_errno := ENONE\<rparr>) = (out, e)"
    and logged: "io_logged D out e0 e"
    and flush: "Sockbuf_flush w' e0 =
         (case out of IoDone n \<Rightarrow> Some (n, Sockbuf_clear w',
                     if n \<noteq> sb_len w' then e\<lparr>os_errno := ENONE\<rparr> else e)
          | IoAgain \<Rightarrow> Some (0, Sockbuf_clear w', e)
          | IoFailed r \<Rightarrow> Some (-1, if r then Sockbuf_clear w' else w', e))"
    using w'(2) tx'(1,2) D tx'(3) by (cases rule: Sockbuf_flush_cases [of w' e0]) auto
  define q where "q = (case out of IoDone n \<Rightarrow> n | IoAgain \<Rightarrow> 0 | IoFailed r \<Rightarrow> -1)"
  obtain w'' e' where f: "Sockbuf_flush w' e0 = Some (q, w'', e')" "sb_sock w'' = sb_sock w'"
    "os_sent e' = os_sent e"
    using flush by (cases out) (auto simp: q_def Sockbuf_clear_def)
  define t where "t = upd_net ?k e' (upd_conn i (\<lambda>c. c\<lparr>c_w := w''\<rparr>) s2)"
  have fl: "flush_w i s2 = Some (q, t)"
    using f(1) s2 assms(1) w'(6) by (simp add: flush_w_def t_def e0_def)
  have t: "i < length (Conn t)" "sb_sock (c_w (Conn t ! i)) = ?k" "net t ?k = e'"
    using s2 assms(1) f(2) w'(6) by (simp_all add: t_def)
  have old: "sent_on i s = os_sent e0" by (simp add: sent_on_def e0_def)
  have sent: "sent_on i t = os_sent e" using t f(3) by (simp add: sent_on_def)
  have run: "Send_end_of_frame G i s = (if q = -1
    then do { t' \<leftarrow> Destroy_connection G i (reason ''flush error'') t; Some (-1, t') }
    else do { t' \<leftarrow> clear_w i t; Some (0, t') })"
    using p fl assms(1,3) s2 by (simp add: Send_end_of_frame_def s2_def [symmetric] get_conn_iff)
  define t2 where "t2 = upd_conn i (\<lambda>c. c\<lparr>c_w := Sockbuf_clear (c_w c)\<rparr>) t"
  have cl: "clear_w i t = Some t2" "sent_on i t2 = sent_on i t"
    using t(1) by (simp_all add: clear_w_def sent_on_def Sockbuf_clear_def t2_def)
  have "int (length D) = sb_len ?w + 5" using length_contents [OF wf] len by (simp add: D_def)
  then have "int (length D) < SERVER_SEND_SIZE" using room tx by (simp add: tx_ok_def SOCKBUF_WRITE_SPARE_def)
  moreover have "frame_fate G i s (sent_on i s) D out"
  proof (cases out)
    case (IoDone n)
    then have "0 < n" "n \<le> int (length D)" "os_sent e = os_sent e0 @ [take (nat n) D]"
      using logged by (simp_all add: io_logged_def)
    then show ?thesis using run cl sent old IoDone by (simp add: frame_fate_def q_def)
  next
    case IoAgain
    then have "os_sent e = os_sent e0" using logged by (simp add: io_logged_def)
    then show ?thesis using run cl sent old IoAgain by (simp add: frame_fate_def q_def)
  next
    case (IoFailed b)
    then have "os_sent e = os_sent e0" using logged by (simp add: io_logged_def)
    then show ?thesis using run sent old IoFailed by (auto simp: frame_fate_def q_def)
  qed
  ultimately show ?thesis using fl_out by (simp add: e0_def)
qed

text \<open>C26. A frame always gets its end mark, and what is handed to the socket is the whole frame, for a playing client
  for whom no reliable data is waiting: whatever packets are sent between \<open>Send_start_of_frame\<close> and
  \<open>Send_end_of_frame\<close> (the arrays of debris, shots and blips holding as many items as announced), and however many of
  them no longer fit, the start mark is written, no packet enters the spare bytes (\<open>adds_to_frame\<close>), and the end mark
  fits behind them, so that the branch that drops a frame is never taken. The datagram \<open>D\<close> given to the system is
  exactly start mark, the bytes the packets added, end mark: the system takes \<open>n\<close> of its bytes and these are what is
  sent, or it has no room and the frame is skipped, or it fails and the connection is destroyed; a system that has
  room for a full buffer sends all of \<open>D\<close>.\<close>

theorem frame_sent_whole:
  assumes "i < length (Conn s)" "tx_ok (c_w (Conn s ! i))" "c_state (Conn s ! i) = CONN_PLAYING"
    "\<not> last_packet_of_frame s" "list_all frame_packet_ok ps" "sb_len (c_c (Conn s ! i)) \<le> 0"
    and e: "e = net s (sb_sock (c_w (Conn s ! i)))"
  shows "\<exists>s1 s2 body D out. Send_start_of_frame G i s = Some (0, s1) \<and> send_frame i ps s1 = Some s2 \<and>
    adds_to_frame i s1 s2 body \<and> D = frame_start s (c_last_key_change (Conn s ! i)) @ body @ frame_end s \<and> int (length D) < SERVER_SEND_SIZE \<and>
    out = fst (flush_dgram D 0 (e\<lparr>os_errno := ENONE\<rparr>)) \<and>
    (case out of
       IoDone n \<Rightarrow> 0 < n \<and> n \<le> int (length D) \<and>
         (\<exists>s3. Send_end_of_frame G i s2 = Some (0, s3) \<and> sent_on i s3 = sent_on i s @ [take (nat n) D])
     | IoAgain \<Rightarrow> \<exists>s3. Send_end_of_frame G i s2 = Some (0, s3) \<and> sent_on i s3 = sent_on i s
     | IoFailed b \<Rightarrow> \<exists>t. Send_end_of_frame G i s2 =
         do { t' \<leftarrow> Destroy_connection G i (reason ''flush error'') t; Some (-1, t') } \<and>
         sent_on i t = sent_on i s) \<and>
    (\<forall>m xs. os_sends e = SendOk m # xs \<and> SERVER_SEND_SIZE \<le> int m \<longrightarrow>
       (\<exists>s3. Send_end_of_frame G i s2 = Some (0, s3) \<and> sent_on i s3 = sent_on i s @ [D]))"
proof -
  obtain s1 where s1: "Send_start_of_frame G i s = Some (0, s1)"
    "contents (c_w (Conn s1 ! i)) = frame_start s (c_last_key_change (Conn s ! i))" "frame_room (c_w (Conn s1 ! i))"
    "i < length (Conn s1)" "\<not> last_packet_of_frame s1" "frame_loops s1 = frame_loops s" "sent_on i s1 = sent_on i s"
    "c_c (Conn s1 ! i) = c_c (Conn s ! i)" "net s1 = net s"
    "sb_sock (c_w (Conn s1 ! i)) = sb_sock (c_w (Conn s ! i))"
    by (rule Send_start_of_frame_ok [OF assms(1-4)])
  obtain s2 body where s2: "send_frame i ps s1 = Some s2" "adds_to_frame i s1 s2 body"
    using send_frame_adds [OF s1(4,3,5) assms(5)] by blast
  note k = adds_keeps [OF s2(2) s1(4)]
  have c2: "sb_len (c_c (Conn s2 ! i)) \<le> 0" using k(6) s1(8) assms(6) by simp
  define D where "D = frame_start s (c_last_key_change (Conn s ! i)) @ body @ frame_end s"
  define out where "out = fst (flush_dgram D 0 (e\<lparr>os_errno := ENONE\<rparr>))"
  have "frame_end s2 = frame_end s" using k(4) s1(6) by (simp add: frame_end_def)
  then have "contents (c_w (Conn s2 ! i)) @ frame_end s2 = D"
    using k(5) s1(2) by (simp add: D_def)
  then have fate: "int (length D) < SERVER_SEND_SIZE" "frame_fate G i s2 (sent_on i s) D out"
    using Send_end_of_frame_ok [OF k(1,2) c2, of G] k(7-9) s1(7,9,10) by (simp_all add: out_def e)
  have whole: "\<exists>s3. Send_end_of_frame G i s2 = Some (0, s3) \<and> sent_on i s3 = sent_on i s @ [D]"
    if "os_sends e = SendOk m # xs" "SERVER_SEND_SIZE \<le> int m" for m xs
  proof -
    have "D \<noteq> []" by (simp add: D_def frame_start_def)
    moreover have "length D \<le> m" using fate(1) that(2) by simp
    ultimately have "out = IoDone (int (length D))"
      unfolding out_def using flush_dgram_whole [OF that(1)] by blast
    then show ?thesis using fate(2) by (simp add: frame_fate_def)
  qed
  show ?thesis
  proof (intro exI conjI)
    show "Send_start_of_frame G i s = Some (0, s1)" "send_frame i ps s1 = Some s2" by (rule s1(1), rule s2(1))
    show "adds_to_frame i s1 s2 body" by (rule s2(2))
    show "D = frame_start s (c_last_key_change (Conn s ! i)) @ body @ frame_end s" by (rule D_def)
    show "out = fst (flush_dgram D 0 (e\<lparr>os_errno := ENONE\<rparr>))" by (rule out_def)
    show "\<forall>m xs. os_sends e = SendOk m # xs \<and> SERVER_SEND_SIZE \<le> int m \<longrightarrow>
       (\<exists>s3. Send_end_of_frame G i s2 = Some (0, s3) \<and> sent_on i s3 = sent_on i s @ [D])"
      using whole by blast
  qed (use fate in \<open>simp_all only: frame_fate_def\<close>)
qed

text \<open>The demo socket takes datagrams of up to 5000 bytes, so the frame arrives.\<close>

theorem frame_sent_whole_witness:
  "\<exists>s1 s2 s3 body. Send_start_of_frame quiet_game 0 demo_frame = Some (0, s1) \<and>
    send_frame 0 [F_ship \<lparr>pos_x = 1, pos_y = 2, pos_bx = 0, pos_by = 0\<rparr> 3 4 0, F_debris 1 [7, 8] 1, F_eyes 3] s1 = Some s2 \<and>
    adds_to_frame 0 s1 s2 body \<and> Send_end_of_frame quiet_game 0 s2 = Some (0, s3) \<and>
    sent_on 0 s3 = sent_on 0 demo_frame @
      [frame_start demo_frame (c_last_key_change (Conn demo_frame ! 0)) @ body @ frame_end demo_frame]"
proof -
  have e: "empty_os\<lparr>os_sends := [SendOk 5000]\<rparr> = net demo_frame (sb_sock (c_w (Conn demo_frame ! 0)))"
    by (simp add: demo_frame_def)
  have "os_sends (empty_os\<lparr>os_sends := [SendOk 5000]\<rparr>) = SendOk 5000 # []" "SERVER_SEND_SIZE \<le> int 5000"
    by (simp_all add: SERVER_SEND_SIZE_def)
  with frame_sent_whole [OF demo_frame_ok(1,3-5) _ demo_frame_ok(6) e, of "[F_ship \<lparr>pos_x = 1, pos_y = 2,
      pos_bx = 0, pos_by = 0\<rparr> 3 4 0, F_debris 1 [7, 8] 1, F_eyes 3]" quiet_game]
  show ?thesis by simp blast
qed

subsection \<open>The announcement of a player\<close>

lemma contents_cut:
  assumes "wf_sockbuf c'" "contents c' = contents c @ d" "wf_sockbuf c" "sb_ptr c' = sb_ptr c"
  shows "wf_sockbuf (c'\<lparr>sb_len := sb_len c\<rparr>)" "contents (c'\<lparr>sb_len := sb_len c\<rparr>) = contents c"
proof -
  have len: "sb_len c' = sb_len c + int (length d)"
    using length_contents [OF assms(1)] length_contents [OF assms(3)] assms(2) by simp
  obtain b where b: "sb_buf c' = Some b" "contents c' = take (nat (sb_len c')) b" "int (length b) = sb_size c'"
    "sb_len c' \<le> sb_size c'"
    using assms(1) by (elim wf_sockbufE)
  have pos: "0 \<le> sb_len c" "0 \<le> sb_ptr c" "sb_ptr c \<le> sb_len c"
    using assms(3) by (simp_all add: wf_sockbuf_def)
  show "wf_sockbuf (c'\<lparr>sb_len := sb_len c\<rparr>)" using b len pos assms(4) by (simp add: wf_sockbuf_def)
  have "take (nat (sb_len c)) (take (nat (sb_len c')) b) = take (nat (sb_len c)) (contents c @ d)"
    using b(2) assms(2) by simp
  moreover have "length (contents c) = nat (sb_len c)" using length_contents [OF assms(3)] by simp
  ultimately show "contents (c'\<lparr>sb_len := sb_len c\<rparr>) = contents c"
    using b(1) len by (simp add: contents_def)
qed

text \<open>The two halves of the description of a new player go to a client together or not at all: for players with names
  and ships of any length, the reliable stream is extended by both, or, when the second half is refused or the client
  is not in the game, is left as it was; nothing else of the connection changes. (A string that runs into the end of
  the buffer is cut by \<open>Packet_printf\<close> and counts as written.)\<close>

theorem Send_player_atomic:
  assumes "i < length (Conn s)" "wf_sockbuf (c_c (Conn s ! i))" "pl_team_num p \<noteq> None"
  shows "\<exists>n c' d. Send_player i p s = Some (n, s\<lparr>Conn := (Conn s)[i := (Conn s ! i)\<lparr>c_c := c'\<rparr>]\<rparr>) \<and>
    wf_sockbuf c' \<and> contents c' = contents (c_c (Conn s ! i)) @ d \<and>
    (if 0 < n then conn_ready (Conn s ! i) \<and> n < int (length d) else d = [])"
proof (cases "conn_ready (Conn s ! i)")
  case False
  then show ?thesis
    using assms(1,2) unfolding Send_player_def
    by (intro exI [of _ 0] exI [of _ "c_c (Conn s ! i)"] exI [of _ "[]"]) (simp add: list_update_id)
next
  case True
  let ?c = "c_c (Conn s ! i)"
  obtain team where team: "pl_team_num p = Some team" using assms(3) by blast
  obtain buf ext where ship: "pl_ship_strings p = (buf, ext)" by fastforce
  let ?ds = "[DChar, DShort, DChar, DChar, DStr, DStr, DStr, DBigStr]"
  let ?args = "[arg_int PKT_PLAYER, arg_int (pl_id p), arg_int team, arg_int (pl_mychar p),
                AStr (pl_name p), AStr (pl_realname p), AStr (pl_hostname p), AStr buf]"
  have fmt: "parse_fmt ''%c%hd%c%c%s%s%s%S'' = Some ?ds" "parse_fmt ''%S'' = Some [DBigStr]"
    by (simp_all add: frame_fmts)
  have t: "list_all2 typed_arg ?ds ?args" "list_all2 typed_arg [DBigStr] [AStr ext]"
    by (simp_all add: frame_fmts arg_int_def)
  obtain n c1 d1 where p1: "Packet_printf (last_packet_of_frame s) ?c ''%c%hd%c%c%s%s%s%S'' ?args = Some (n, c1)"
    "wf_sockbuf c1" "contents c1 = contents ?c @ d1" "int (length d1) = max 0 n" "sb_ptr c1 = sb_ptr ?c"
    by (rule Packet_printf_total [OF assms(2) fmt(1) t(1), of "last_packet_of_frame s"])
  define s1 where "s1 = upd_conn i (\<lambda>c. c\<lparr>c_c := c1\<rparr>) s"
  have w1: "print_c i ''%c%hd%c%c%s%s%s%S'' ?args s = Some (n, s1)"
    using p1(1) assms(1) by (simp add: print_c_def s1_def)
  have run: "Send_player i p s = (if n > 0 then do {
        (m, s2) \<leftarrow> print_c i ''%S'' [AStr ext] s1;
        Some (m, if m \<le> 0 then upd_conn i (\<lambda>c. c\<lparr>c_c := (c_c c)\<lparr>sb_len := sb_len ?c\<rparr>\<rparr>) s2 else s2) }
      else Some (n, s1))"
    using True assms(1) w1 unfolding Send_player_def team ship by simp
  show ?thesis
  proof (cases "0 < n")
    case False
    then show ?thesis
      using run p1 by (intro exI [of _ n] exI [of _ c1] exI [of _ "[]"]) (simp add: s1_def upd_conn_def)
  next
    case n: True
    obtain m c2 d2 where p2: "Packet_printf (last_packet_of_frame s) c1 ''%S'' [AStr ext] = Some (m, c2)"
      "wf_sockbuf c2" "contents c2 = contents c1 @ d2" "int (length d2) = max 0 m" "sb_ptr c2 = sb_ptr c1"
      by (rule Packet_printf_total [OF p1(2) fmt(2) t(2), of "last_packet_of_frame s"])
    have w2: "print_c i ''%S'' [AStr ext] s1 = Some (m, upd_conn i (\<lambda>c. c\<lparr>c_c := c2\<rparr>) s1)"
      using p2(1) assms(1) by (simp add: print_c_def s1_def)
    show ?thesis
    proof (cases "0 < m")
      case True
      then have "m < int (length (d1 @ d2))" using n p1(4) p2(4) by simp
      then show ?thesis
        using True n run w2 p1 p2 assms(1) \<open>conn_ready _\<close>
        by (intro exI [of _ m] exI [of _ c2] exI [of _ "d1 @ d2"]) (simp add: s1_def upd_conn_def)
    next
      case False
      have cut: "wf_sockbuf (c2\<lparr>sb_len := sb_len ?c\<rparr>)" "contents (c2\<lparr>sb_len := sb_len ?c\<rparr>) = contents ?c"
        using contents_cut [of c2 ?c "d1 @ d2"] p1 p2 assms(2) by simp_all
      then show ?thesis
        using False n run w2 assms(1)
        by (intro exI [of _ m] exI [of _ "c2\<lparr>sb_len := sb_len ?c\<rparr>"] exI [of _ "[]"]) (simp add: s1_def upd_conn_def)
    qed
  qed
qed

definition demo_player :: player_info where
  "demo_player = \<lparr>pl_connp = Some 0, pl_power = 0, pl_power_s = 0, pl_turnspeed = 0, pl_turnspeed_s = 0,
     pl_turnresistance = 0, pl_turnresistance_s = 0, pl_last_keyv = [], pl_prev_keyv = [], pl_player_fps = 14,
     pl_id = 7, pl_team_num = Some 2, pl_mychar = 32, pl_name = [65], pl_realname = [66], pl_hostname = [67],
     pl_ship_strings = ([68], []), pl_score = 0, pl_lives = 3, pl_home_base = Some 1, pl_is_robot = False,
     pl_pos = (0, 0), pl_vel = (0, 0), pl_pos_interp = (0, 0), pl_vel_interp = (0, 0), pl_dir = 0,
     pl_fuel_sum = 0, pl_fuel_max = 0\<rparr>"

theorem Send_player_atomic_witness:
  "\<exists>n c' d. Send_player 0 demo_player demo_frame =
      Some (n, demo_frame\<lparr>Conn := (Conn demo_frame)[0 := (Conn demo_frame ! 0)\<lparr>c_c := c'\<rparr>]\<rparr>) \<and>
    wf_sockbuf c' \<and> contents c' = contents (c_c (Conn demo_frame ! 0)) @ d \<and>
    (if 0 < n then conn_ready (Conn demo_frame ! 0) \<and> n < int (length d) else d = [])"
  by (rule Send_player_atomic)
     (simp_all add: demo_frame_def demo_frame_conn_def demo_conn_def wf_sockbuf_def demo_player_def)

end
