(* ===== verification/Net_Input.thy ===== *)
theory Net_Input
  imports Net_Receive
begin

text \<open>
  The regular round over all connections (\<open>Input\<close> in \<open>server/netserver.c\<close>): connections that have been
  silent for too long are closed, the setup data goes out to new clients piece by piece
  (\<open>Handle_setup\<close>), and reliable data is retransmitted.
\<close>

subsection \<open>Setup data\<close>

text \<open>The arguments of the first packet of the setup phase.\<close>

definition setup_args :: "server \<Rightarrow> parg list" where
  "setup_args s =
     (let st = Setup s in
      [arg_int (map_data_len st), AInt (s_mode st), arg_int (s_lives st), arg_int (s_x st), arg_int (s_y st),
       arg_int (fps s), arg_int (map_order st), AStr (cstr (s_name st)), AStr (cstr (s_author st))])"

text \<open>The start of the phase: the header, or a look for acknowledgements. The first result is the value
  returned early, if any.\<close>

definition setup_begin :: "game \<Rightarrow> listen_env \<Rightarrow> nat \<Rightarrow> server \<Rightarrow> (int option \<times> server) option" where
  "setup_begin G L i s =
     do { cn \<leftarrow> get_conn i s;
          if c_setup cn = 0 then do {
            (n, s1) \<leftarrow> print_c i ''%ld%ld%hd%hd%hd%hd%hd%s%s'' (setup_args s) s;
            if n \<le> 0 then do { s2 \<leftarrow> Destroy_connection G i (reason ''setup 0 write error'') s1; Some (Some (-1), s2) }
            else Some (None, upd_conn i (\<lambda>c. c\<lparr>c_setup := SETUP_HEADER\<rparr>) s1) }
          else if c_setup cn < setup_size (Setup s) \<and> sb_len (c_c cn) > 0 then do {
            (_, s1) \<leftarrow> Handle_input G L i s;
            cn1 \<leftarrow> get_conn i s1;
            Some (if c_state cn1 = CONN_FREE then Some (-1) else None, s1) }
          else Some (None, s) }"

text \<open>The next piece of the map data; \<open>c_setup\<close> counts from the start of the structure.\<close>

definition setup_piece :: "game \<Rightarrow> nat \<Rightarrow> server \<Rightarrow> (int option \<times> server) option" where
  "setup_piece G i s =
     do { cn \<leftarrow> get_conn i s;
          let rest = setup_size (Setup s) - c_setup cn;
          if \<not> c_setup cn < setup_size (Setup s) then Some (None, s)
          else do {
            let room = MIN_int (sb_size (c_c cn)) 4096 - sb_len (c_c cn);
            let len = (if room > rest then rest else room);
            if room \<le> 0 then Some (Some 0, s)
            else do {
              d \<leftarrow> buf_get (c_setup cn - SETUP_HEADER) len (map_data (Setup s));
              (m, sb, e) \<leftarrow> Sockbuf_write d (c_c cn) (net s (sb_sock (c_c cn)));
              let s1 = upd_net (sb_sock (c_c cn)) e (upd_conn i (\<lambda>c. c\<lparr>c_c := sb\<rparr>) s);
              if m \<noteq> len
              then do { s2 \<leftarrow> Destroy_connection G i (reason ''sockbuf write setup error'') s1; Some (Some (-1), s2) }
              else Some (None, upd_conn i (\<lambda>c. c\<lparr>c_setup := c_setup c + len,
                      c_start := c_start c + (if len \<ge> 512 then c_div (len * fps s) (8 * 512) + 1 else 0)\<rparr>) s1) } } }"

definition Handle_setup :: "game \<Rightarrow> listen_env \<Rightarrow> nat \<Rightarrow> server \<Rightarrow> (int \<times> server) option" where
  "Handle_setup G L i s =
     do { cn \<leftarrow> get_conn i s;
          if c_state cn \<noteq> CONN_SETUP
          then do { s' \<leftarrow> Destroy_connection G i (reason ''not setup'') s; Some (-1, s') }
          else do {
            (early, s1) \<leftarrow> setup_begin G L i s;
            (case early of
               Some r \<Rightarrow> Some (r, s1)
             | None \<Rightarrow> do {
                 (stop, s2) \<leftarrow> setup_piece G i s1;
                 (case stop of
                    Some r \<Rightarrow> Some (r, s2)
                  | None \<Rightarrow> do {
                      cn2 \<leftarrow> get_conn i s2;
                      s3 \<leftarrow> (if c_setup cn2 \<ge> setup_size (Setup s2)
                              then Conn_set_state i CONN_DRAIN CONN_LOGIN s2 else Some s2);
                      Some (0, s3) }) }) } }"

subsection \<open>The round\<close>

definition hex_digit :: "nat \<Rightarrow> byte" where
  "hex_digit k = of_nat (if k < 10 then 48 + k else 87 + k)"

text \<open>\<open>sprintf(msg, "timeout %02x", connp->state)\<close>; a state is less than 256.\<close>

definition timeout_reason :: "i32 \<Rightarrow> byte list" where
  "timeout_reason st =
     reason ''timeout '' @ [hex_digit (nat (uint st) div 16), hex_digit (nat (uint st) mod 16)]"

definition overdue :: "server \<Rightarrow> connection \<Rightarrow> bool" where
  "overdue s c \<longleftrightarrow> c_start c + c_timeout c * fps s < main_loops s"

text \<open>The first loop, over the \<open>k\<close> connections from \<open>i\<close> on; \<open>L\<close> is what the system answers to the listening
  ones. The result is \<open>input_reliable\<close>.\<close>

fun input_scan :: "game \<Rightarrow> listen_env \<Rightarrow> nat \<Rightarrow> nat \<Rightarrow> server \<Rightarrow> (nat list \<times> server) option" where
  "input_scan G L 0 i s = Some ([], s)"
| "input_scan G L (Suc k) i s =
     do { cn \<leftarrow> get_conn i s;
          if c_state cn = CONN_FREE then input_scan G L k (Suc i) s
          else if overdue s cn then do {
            s1 \<leftarrow> (if has_bit (c_state cn) (CONN_PLAYING OR CONN_READY)
                    then do { nick \<leftarrow> c_nick cn; on_message G (nick @ reason '' mysteriously disappeared!?'') s }
                    else Some s);
            cn1 \<leftarrow> get_conn i s1;
            s2 \<leftarrow> Destroy_connection G i (timeout_reason (c_state cn1)) s1;
            input_scan G L k (Suc i) s2 }
          else if c_state cn \<noteq> CONN_PLAYING then do {
            s1 \<leftarrow> (if c_state cn = CONN_SETUP then map_option snd (Handle_setup G L i s) else Some s);
            (is, s2) \<leftarrow> input_scan G L k (Suc i) s1;
            Some (i # is, s2) }
          else input_scan G L k (Suc i) s }"

fun input_send :: "game \<Rightarrow> nat list \<Rightarrow> server \<Rightarrow> server option" where
  "input_send G [] s = Some s"
| "input_send G (i # is) s =
     do { cn \<leftarrow> get_conn i s;
          s1 \<leftarrow> (if has_bit (c_state cn) (CONN_DRAIN OR CONN_READY OR CONN_SETUP OR CONN_LOGIN) \<and>
                     sb_len (c_c cn) > 0
                  then map_option snd (Send_reliable G i s) else Some s);
          input_send G is s1 }"

definition Input :: "game \<Rightarrow> listen_env \<Rightarrow> server \<Rightarrow> (int \<times> server) option" where
  "Input G L s =
     do { (is, s1) \<leftarrow> input_scan G L (max_connections s) 0 s;
          s2 \<leftarrow> input_send G is s1;
          Some (login_in_progress s2, s2) }"

subsection \<open>Invariants of the connections\<close>

lemma bind_Some3E:
  assumes "(m \<bind> (\<lambda>(a, b, c). f a b c)) = Some y"
  obtains a b c where "m = Some (a, b, c)" "f a b c = Some y"
  using assms by (cases m) auto

text \<open>What an invariant of the connection array needs so that every operation of this file keeps it: it
  survives changes of a connection that leave its states alone, changes of anything else, legal state
  changes, the end of a connection, and what the game does when it is called.\<close>

locale conn_invariant =
  fixes P :: "server \<Rightarrow> bool" and Q :: "game \<Rightarrow> bool"
  assumes upd_keeps: "\<And>f. P s \<Longrightarrow> (\<And>c. c_state (f c) = c_state c) \<Longrightarrow> (\<And>c. c_drain_state (f c) = c_drain_state c) \<Longrightarrow>
      P (upd_conn i f s)"
    and rest_keeps: "P s \<Longrightarrow> Conn s' = Conn s \<Longrightarrow> max_connections s' = max_connections s \<Longrightarrow>
      num_conn_busy s' = num_conn_busy s \<Longrightarrow> num_conn_playing s' = num_conn_playing s \<Longrightarrow>
      login_in_progress s' = login_in_progress s \<Longrightarrow> P s'"
    and drain_valid: "P s \<Longrightarrow> get_conn i s = Some cn \<Longrightarrow> valid_state (c_drain_state cn)"
    and state_keeps: "Conn_set_state i st dr s = Some s' \<Longrightarrow> P s \<Longrightarrow> valid_state st \<Longrightarrow> valid_state dr \<Longrightarrow> P s'"
    and destroy_keeps: "Destroy_connection G i msg s = Some s' \<Longrightarrow> Q G \<Longrightarrow> P s \<Longrightarrow> P s'"
    and hooks_keep: "Q G \<Longrightarrow> on_keyboard G p s = Some s' \<Longrightarrow> P s \<Longrightarrow> P s'"
      "Q G \<Longrightarrow> on_player_command G p cmd s = Some s' \<Longrightarrow> P s \<Longrightarrow> P s'"
      "Q G \<Longrightarrow> on_talk G j cmd s = Some s' \<Longrightarrow> P s \<Longrightarrow> P s'"
      "Q G \<Longrightarrow> on_pointer_move G p mv s = Some s' \<Longrightarrow> P s \<Longrightarrow> P s'"
      "Q G \<Longrightarrow> on_message G cmd s = Some s' \<Longrightarrow> P s \<Longrightarrow> P s'"
      "Q G \<Longrightarrow> on_login G j s = Some (prep, s') \<Longrightarrow> P s \<Longrightarrow> P s'"
      "Q G \<Longrightarrow> on_enter G p s = Some s' \<Longrightarrow> P s \<Longrightarrow> P s'"
begin

lemma rest_simps [simp]:
  "P (upd_net k e s) = P s" "P (s\<lparr>World := w\<rparr>) = P s" "P (s\<lparr>num_logins := n\<rparr>) = P s"
  "P (s\<lparr>last_packet_of_frame := b\<rparr>) = P s" "P (s\<lparr>player_heap := h\<rparr>) = P s"
  by (auto intro: rest_keeps [where s' = s] rest_keeps [where s = s] simp: upd_net_def)

lemma skip_keeps: "P s \<Longrightarrow> P (skip_r i n s)"
  unfolding skip_r_def by (rule upd_keeps) simp_all

lemma scan_keeps: "scan_r i fmt s = Some (n, outs, s') \<Longrightarrow> P s \<Longrightarrow> P s'"
  by (auto simp: scan_r_def elim!: bind_SomeE intro!: upd_keeps)

lemma print_c_keeps: "print_c i fmt args s = Some (n, s') \<Longrightarrow> P s \<Longrightarrow> P s'"
  by (auto simp: print_c_def elim!: bind_SomeE intro!: upd_keeps)

lemma print_w_keeps: "print_w i fmt args s = Some (n, s') \<Longrightarrow> P s \<Longrightarrow> P s'"
  by (auto simp: print_w_def elim!: bind_SomeE intro!: upd_keeps)

lemma flush_keeps: "flush_w i s = Some (n, s') \<Longrightarrow> P s \<Longrightarrow> P s'"
  by (auto simp: flush_w_def elim!: bind_SomeE intro!: upd_keeps)

lemma clear_keeps: "clear_w i s = Some s' \<Longrightarrow> P s \<Longrightarrow> P s'" "clear_r i s = Some s' \<Longrightarrow> P s \<Longrightarrow> P s'"
  by (auto simp: clear_w_def clear_r_def elim!: bind_SomeE intro!: upd_keeps)

lemma upd_player_keeps: "upd_player p f s = Some s' \<Longrightarrow> P s \<Longrightarrow> P s'"
  by (auto simp: upd_player_def elim!: bind_SomeE)

lemmas basic_keeps = scan_keeps print_c_keeps print_w_keeps flush_keeps clear_keeps upd_player_keeps skip_keeps
  destroy_keeps hooks_keep

lemma scan_failed_keeps: "scan_failed G i msg n s = Some (r, s') \<Longrightarrow> Q G \<Longrightarrow> P s \<Longrightarrow> P s'"
  by (auto simp: scan_failed_def elim!: bind_SomeE intro: destroy_keeps split: if_splits)

text \<open>A handler that reads its packet and goes on.\<close>

lemma scan_then_keeps:
  assumes "do { (n, outs, s1) \<leftarrow> scan_r i fmt s; if n \<le> 0 then scan_failed G i msg n s1 else K outs s1 } = Some (r, s')"
    "Q G" "P s" "\<And>outs s1. P s1 \<Longrightarrow> K outs s1 = Some (r, s') \<Longrightarrow> P s'"
  shows "P s'"
proof -
  from assms(1) obtain n outs s1 where sc: "scan_r i fmt s = Some (n, outs, s1)"
    and rest: "(if n \<le> 0 then scan_failed G i msg n s1 else K outs s1) = Some (r, s')"
    by (auto elim!: bind_SomeE)
  have "P s1" by (rule scan_keeps [OF sc assms(3)])
  then show ?thesis using rest assms(2,4) by (auto split: if_splits intro: scan_failed_keeps)
qed

lemma reply_keeps: "Send_reply G i a b s = Some (n, s') \<Longrightarrow> Q G \<Longrightarrow> P s \<Longrightarrow> P s'"
  by (auto simp: Send_reply_def elim!: bind_SomeE split: if_splits) (blast intro: print_c_keeps destroy_keeps)+

lemma Receive_power_keeps: "Receive_power G i s = Some (r, s') \<Longrightarrow> Q G \<Longrightarrow> P s \<Longrightarrow> P s'"
  unfolding Receive_power_def
  by (erule scan_then_keeps) (auto simp: Let_def elim!: bind_SomeE split: list.splits sarg.splits if_splits
      intro: upd_player_keeps destroy_keeps)

lemma Receive_ack_fuel_keeps: "Receive_ack_fuel G i s = Some (r, s') \<Longrightarrow> Q G \<Longrightarrow> P s \<Longrightarrow> P s'"
  unfolding Receive_ack_fuel_def
  by (erule scan_then_keeps) (auto simp: Let_def elim!: bind_SomeE split: list.splits sarg.splits if_splits
      intro: destroy_keeps)

lemma Receive_display_keeps: "Receive_display G i s = Some (r, s') \<Longrightarrow> Q G \<Longrightarrow> P s \<Longrightarrow> P s'"
  unfolding Receive_display_def
  by (erule scan_then_keeps) (auto split: list.splits sarg.splits intro!: upd_keeps)

lemma read_only_keeps: "read_only G fmt msg i s = Some (r, s') \<Longrightarrow> Q G \<Longrightarrow> P s \<Longrightarrow> P s'"
  by (auto simp: read_only_def elim!: bind_SomeE split: if_splits) (blast intro: scan_keeps scan_failed_keeps)+

lemma Receive_pointer_move_keeps: "Receive_pointer_move G i s = Some (r, s') \<Longrightarrow> Q G \<Longrightarrow> P s \<Longrightarrow> P s'"
  unfolding Receive_pointer_move_def
  by (erule scan_then_keeps) (auto elim!: bind_SomeE split: list.splits sarg.splits intro: hooks_keep)

lemma Receive_fps_request_keeps: "Receive_fps_request G i s = Some (r, s') \<Longrightarrow> Q G \<Longrightarrow> P s \<Longrightarrow> P s'"
  unfolding Receive_fps_request_def
  by (erule scan_then_keeps) (auto simp: Let_def elim!: bind_SomeE split: list.splits sarg.splits option.splits
      intro: upd_player_keeps)

lemma Receive_shape_keeps: "Receive_shape G i s = Some (r, s') \<Longrightarrow> Q G \<Longrightarrow> P s \<Longrightarrow> P s'"
  unfolding Receive_shape_def
proof (erule scan_then_keeps)
  fix outs s1
  assume q: "Q G" and p: "P s1"
    and run: "do { (m, outs2, s2) \<leftarrow> scan_r i ''%S'' s1;
            if m \<le> 0 then scan_failed G i ''read shape ext'' m s2
            else (case (outs, outs2) of
              ([OChar _, OStr str], [OStr ext]) \<Rightarrow>
                do { cn \<leftarrow> get_conn i s2;
                     Some (1, if c_state cn = CONN_LOGIN \<and> c_ship cn = None
                              then upd_conn i (\<lambda>c. c\<lparr>c_ship := on_shape G (str @ ext)\<rparr>) s2 else s2) }
            | _ \<Rightarrow> None) } = Some (r, s')"
  show "P s'"
    by (rule scan_then_keeps [OF run q p])
       (auto elim!: bind_SomeE split: list.splits sarg.splits intro!: upd_keeps)
qed

lemma Receive_talk_keeps: "Receive_talk G i s = Some (r, s') \<Longrightarrow> Q G \<Longrightarrow> P s \<Longrightarrow> P s'"
  unfolding Receive_talk_def
proof (erule scan_then_keeps)
  fix outs s1
  assume q: "Q G" and p: "P s1"
    and run: "(case outs of
            [OChar _, OInt sq, OStr str] \<Rightarrow>
              do { cn \<leftarrow> get_conn i s1;
                   if sint sq > c_talk_sequence_num cn then do {
                     (m, s2) \<leftarrow> print_c i ''%c%ld'' [arg_int PKT_TALK_ACK, AInt sq] s1;
                     if m \<le> 0 then scan_failed G i ''write error'' m s2
                     else do {
                       let s3 = upd_conn i (\<lambda>c. c\<lparr>c_talk_sequence_num := sint sq\<rparr>) s2;
                       s4 \<leftarrow> (if str \<noteq> [] \<and> hd str = of_char (CHR ''/'')
                               then do { p \<leftarrow> c_pl cn; on_player_command G p (tl str) s3 }
                               else on_talk G i str s3);
                       Some (1, s4) } }
                   else Some (1, s1) }
          | _ \<Rightarrow> None) = Some (r, s')"
  then obtain ch sq str cn where outs: "outs = [OChar ch, OInt sq, OStr str]" and cn: "get_conn i s1 = Some cn"
    by (auto elim!: bind_SomeE split: list.splits sarg.splits)
  show "P s'"
  proof (cases "sint sq > c_talk_sequence_num cn")
    case False
    then show ?thesis using run p by (simp add: outs cn)
  next
    case True
    with run cn obtain m s2 where w: "print_c i ''%c%ld'' [arg_int PKT_TALK_ACK, AInt sq] s1 = Some (m, s2)"
      by (auto simp: outs elim!: bind_SomeE)
    have p2: "P s2" by (rule print_c_keeps [OF w p])
    define s3 where "s3 = upd_conn i (\<lambda>c. c\<lparr>c_talk_sequence_num := sint sq\<rparr>) s2"
    have p3: "P s3" unfolding s3_def by (rule upd_keeps [OF p2]) simp_all
    have "(if m \<le> 0 then scan_failed G i ''write error'' m s2
      else do { s4 \<leftarrow> (if str \<noteq> [] \<and> hd str = of_char (CHR ''/'')
                    then do { p \<leftarrow> c_pl cn; on_player_command G p (tl str) s3 }
                    else on_talk G i str s3);
           Some (1, s4) }) = Some (r, s')"
      using run cn True w unfolding outs s3_def by (auto simp: Let_def)
    then show ?thesis
      using p2 p3 q by (auto elim!: bind_SomeE split: if_splits intro: hooks_keep scan_failed_keeps)
  qed
qed

lemma take_keys_keeps: "take_keys G i v s = Some s' \<Longrightarrow> Q G \<Longrightarrow> P s \<Longrightarrow> P s'"
proof -
  assume h: "take_keys G i v s = Some s'" "Q G" "P s"
  then obtain cn where cn: "get_conn i s = Some cn" by (auto simp: take_keys_def elim!: bind_SomeE)
  define s1 where "s1 = upd_conn i (\<lambda>c. c\<lparr>c_last_key_change := v\<rparr>) s"
  have p1: "P s1" unfolding s1_def by (rule upd_keeps [OF h(3)]) simp_all
  show "P s'"
  proof (cases "v \<le> c_last_key_change cn")
    case True
    then show ?thesis using h(1,3) cn by (auto simp: take_keys_def intro: skip_keeps)
  next
    case False
    then obtain p keys s2 where "upd_player p (\<lambda>pl. pl\<lparr>pl_last_keyv := keys\<rparr>) s1 = Some s2"
      "on_keyboard G p (skip_r i KEYBOARD_SIZE s2) = Some s'"
      using h(1) cn by (auto simp: take_keys_def Let_def s1_def elim!: bind_SomeE)
    then show ?thesis using h(2) p1 by (blast intro: hooks_keep skip_keeps upd_player_keeps)
  qed
qed

lemma Receive_keyboard_keeps: "Receive_keyboard G i s = Some (r, s') \<Longrightarrow> Q G \<Longrightarrow> P s \<Longrightarrow> P s'"
proof -
  assume h: "Receive_keyboard G i s = Some (r, s')" "Q G" "P s"
  define count_up where "count_up = upd_conn i (\<lambda>c :: connection. c\<lparr>c_num_keyboard_updates := c_num_keyboard_updates c + 1\<rparr>)"
  have up: "P (count_up t)" if "P t" for t
    unfolding count_up_def by (rule upd_keeps [OF that]) simp_all
  from h(1) consider "s' = s"
    | n outs s1 v s2 where "scan_r i ''%c%ld'' s = Some (n, outs, s1)" "take_keys G i v s1 = Some s2"
        "s' = count_up s2 \<or> Destroy_connection G i (reason ''no macros'') (count_up s2) = Some s'"
    unfolding Receive_keyboard_def count_up_def by (auto simp: Let_def elim!: bind_SomeE split: if_splits)
  then show "P s'"
  proof cases
    case 2
    then have "P s2" using h(2,3) by (blast intro: scan_keeps take_keys_keeps)
    then show ?thesis using 2(3) h(2) up by (blast intro: destroy_keeps)
  qed (use h in simp)
qed

lemma Handle_login_keeps: "Handle_login G i s = Some (r, s') \<Longrightarrow> Q G \<Longrightarrow> P s \<Longrightarrow> P s'"
proof -
  assume h: "Handle_login G i s = Some (r, s')" "Q G" "P s"
  then obtain prep s1 where s1: "on_login G i s = Some (prep, s1)"
    by (auto simp: Handle_login_def elim!: bind_SomeE)
  then have p1: "P s1" using h(2,3) by (blast intro: hooks_keep)
  have gone: "P t'" if "destroy_player_conn G p t = Some t'" "P t" for p t t'
    using that h(2) by (auto simp: destroy_player_conn_def elim!: bind_SomeE intro: destroy_keeps)
  show "P s'"
  proof (cases prep)
    case (Entered p)
    define s1' where "s1' = upd_conn i (\<lambda>c. c\<lparr>c_pl := Some p\<rparr>) s1"
    have "P s1'" unfolding s1'_def by (rule upd_keeps [OF p1]) simp_all
    from h(1) s1 Entered obtain s2 s3 n s4 where
      s2: "upd_player p (\<lambda>pl. pl\<lparr>pl_connp := Some i, pl_last_keyv := replicate 9 0,
             pl_prev_keyv := replicate 9 0\<rparr>) s1' = Some s2"
      and s3: "Conn_set_state i CONN_READY CONN_PLAYING s2 = Some s3"
      and s4: "Send_reply G i PKT_PLAY PKT_SUCCESS s3 = Some (n, s4)"
      and rest: "destroy_player_conn G p s4 = Some s' \<or>
        (\<exists>s5. on_enter G p s4 = Some s5 \<and> P s' = P s5)"
      unfolding Handle_login_def s1'_def by (auto elim!: bind_SomeE split: if_splits)
    have "P s4"
      using reply_keeps [OF s4 h(2) state_keeps [OF s3 upd_player_keeps [OF s2 \<open>P s1'\<close>]]]
      by (simp add: valid_state_def)
    then show ?thesis using rest gone h(2) by (auto dest: hooks_keep(7))
  qed (use h s1 p1 gone in \<open>auto simp: Handle_login_def elim!: bind_SomeE\<close>)
qed

lemma rel_loop_keeps: "rel_loop G i k todo off pos s = Some (r, s') \<Longrightarrow> Q G \<Longrightarrow> P s \<Longrightarrow> P s'"
proof (induction k arbitrary: todo off pos s)
  case (Suc k)
  show ?case
  proof (cases "todo > 0")
    case False
    then show ?thesis using Suc.prems by simp
  next
    case True
    from Suc.prems(1) True obtain n s1 where pr: "print_w i ''%c%hd%ld%ld''
      [arg_int PKT_RELIABLE, arg_int (if todo > MAX_RELIABLE_DATA_PACKET_SIZE then MAX_RELIABLE_DATA_PACKET_SIZE else todo),
       arg_int off, arg_int (main_loops s)] s = Some (n, s1)"
      by (auto simp: Let_def elim!: bind_SomeE)
    have p1: "P s1" by (rule print_w_keeps [OF pr Suc.prems(3)])
    have upd: "P (upd_conn i (\<lambda>c. c\<lparr>c_w := sb\<rparr>) t)" "P (upd_conn i (\<lambda>c. c\<lparr>c_acks := 0\<rparr>) t)" if "P t" for sb t
      by (rule upd_keeps [OF that]; simp)+
    from Suc.prems(1) True pr p1 Suc.prems(2) show ?thesis
      by (auto simp: Let_def elim!: bind_SomeE split: if_splits)
         (blast intro: destroy_keeps flush_keeps upd Suc.IH rest_simps(1) [THEN iffD2])+
  qed
qed simp

lemma Send_reliable_keeps: "Send_reliable G i s = Some (r, s') \<Longrightarrow> Q G \<Longrightarrow> P s \<Longrightarrow> P s'"
proof -
  assume h: "Send_reliable G i s = Some (r, s')" "Q G" "P s"
  have upd: "P (upd_conn i (\<lambda>c. c\<lparr>c_last_send_loops := x\<rparr>) t)" "P (upd_conn i (\<lambda>c. c\<lparr>c_acks := c_acks c div 2\<rparr>) t)"
    if "P t" for x t
    by (rule upd_keeps [OF that]; simp)+
  from h(1) consider "s' = s" | x where "s' = upd_conn i (\<lambda>c. c\<lparr>c_last_send_loops := x\<rparr>) s"
    | s1 k todo off res s2 where "s1 = s \<or> s1 = upd_conn i (\<lambda>c. c\<lparr>c_acks := c_acks c div 2\<rparr>) s"
        "rel_loop G i k todo off 0 s1 = Some (res, s2)" "s' = s2 \<or> (\<exists>s3. clear_w i s2 = Some s3 \<and> (P s3 \<longrightarrow> P s'))"
  proof -
    obtain cn where cn: "get_conn i s = Some cn" using h(1) by (auto simp: Send_reliable_def elim!: bind_SomeE)
    define todo where "todo = (if sb_len (c_w cn) > 0 \<and> sb_len (c_c cn) > MAX_RELIABLE_DATA_PACKET_SIZE - sb_len (c_w cn)
      then MAX_RELIABLE_DATA_PACKET_SIZE - sb_len (c_w cn) else sb_len (c_c cn))"
    define s1 where "s1 = (if c_retransmit_at_loop cn > main_loops s then s
      else if c_retransmit_at_loop cn \<noteq> 0 then upd_conn i (\<lambda>c. c\<lparr>c_acks := c_acks c div 2\<rparr>) s else s)"
    define books where "books res s2 = (case res of
        None \<Rightarrow> Some (-1, s2)
      | Some (todo', off) \<Rightarrow>
          do { s3 \<leftarrow> clear_w i s2;
               let s4 = upd_conn i (\<lambda>c. c\<lparr>c_last_send_loops := main_loops s3\<rparr>) s3;
               if todo - todo' \<le> 0 then Some (0, s4)
               else
                 (let s5 = upd_conn i (\<lambda>c. if c_rtt_retransmit c > MAX_RETRANSMIT s4
                             then c\<lparr>c_rtt_retransmit := MAX_RETRANSMIT s4\<rparr> else c) s4;
                      s6 = upd_conn i (\<lambda>c. if c_retransmit_at_loop c \<le> main_loops s5
                             then c\<lparr>c_retransmit_at_loop := main_loops s5 + c_rtt_retransmit c,
                                    c_rtt_retransmit := c_rtt_retransmit c * 2,
                                    c_rtt_timeouts := c_rtt_timeouts c + 1\<rparr>
                             else c\<lparr>c_retransmit_at_loop := main_loops s5 + c_rtt_retransmit c\<rparr>) s5;
                      s7 = upd_conn i (\<lambda>c. if off > c_reliable_unsent c
                             then c\<lparr>c_reliable_unsent := off\<rparr> else c) s6
                  in Some (todo - todo', s7)) })" for res s2
    have run: "(if sb_len (c_c cn) \<le> 0 \<or> c_last_send_loops cn = main_loops s
        then Some (0, upd_conn i (\<lambda>c. c\<lparr>c_last_send_loops := main_loops s\<rparr>) s)
        else if sb_len (c_w cn) > 0 \<and> sb_len (c_w cn) \<ge> MAX_RELIABLE_DATA_PACKET_SIZE - min_send_size
        then Some (0, s)
        else if c_retransmit_at_loop cn > main_loops s \<and>
             (todo \<le> c_reliable_unsent cn - c_reliable_offset cn + min_send_size \<or> sb_len (c_w cn) = 0)
        then Some (0, s)
        else do { cn1 \<leftarrow> get_conn i s1;
            (res, s2) \<leftarrow> rel_loop G i (nat (c_acks cn1 + 1)) todo (c_reliable_offset cn) 0 s1;
            books res s2 }) = Some (r, s')"
      using h(1) unfolding Send_reliable_def cn bind.bind_lunit Let_def todo_def s1_def books_def .
    show ?thesis
    proof (cases "sb_len (c_c cn) \<le> 0 \<or> c_last_send_loops cn = main_loops s")
      case True
      then show ?thesis using run by (intro that(2) [of "main_loops s"]) simp
    next
      case busy: False
      show ?thesis
      proof (cases "(sb_len (c_w cn) > 0 \<and> sb_len (c_w cn) \<ge> MAX_RELIABLE_DATA_PACKET_SIZE - min_send_size) \<or>
          (c_retransmit_at_loop cn > main_loops s \<and>
             (todo \<le> c_reliable_unsent cn - c_reliable_offset cn + min_send_size \<or> sb_len (c_w cn) = 0))")
        case True
        then show ?thesis using run busy that(1) by (auto split: if_splits)
      next
        case False
        then have "do { cn1 \<leftarrow> get_conn i s1;
            (res, s2) \<leftarrow> rel_loop G i (nat (c_acks cn1 + 1)) todo (c_reliable_offset cn) 0 s1;
            books res s2 } = Some (r, s')"
          using run busy by (auto split: if_splits)
        then obtain k res s2 where loop: "rel_loop G i k todo (c_reliable_offset cn) 0 s1 = Some (res, s2)"
          and rest: "books res s2 = Some (r, s')" by (auto elim!: bind_SomeE)
        have "s' = s2 \<or> (\<exists>s3. clear_w i s2 = Some s3 \<and> (P s3 \<longrightarrow> P s'))"
          using rest unfolding books_def Let_def
          by (auto elim!: bind_SomeE intro!: upd_keeps split: option.splits if_splits)
        then show ?thesis using that(3) [OF _ loop] by (auto simp: s1_def split: if_splits)
      qed
    qed
  qed
  then show "P s'"
  proof cases
    case 3
    then have "P s2" using h(2,3) upd by (blast intro: rel_loop_keeps)
    then show ?thesis using 3(3) by (blast intro: clear_keeps)
  qed (use h(3) upd in simp_all)
qed

lemma Receive_play_keeps: "Receive_play G i s = Some (r, s') \<Longrightarrow> Q G \<Longrightarrow> P s \<Longrightarrow> P s'"
proof -
  assume h: "Receive_play G i s = Some (r, s')" "Q G" "P s"
  then obtain n outs s1 where sc: "scan_r i ''%c'' s = Some (n, outs, s1)"
    by (auto simp: Receive_play_def elim!: bind_SomeE)
  have p1: "P s1" by (rule scan_keeps [OF sc h(3)])
  define s1' where "s1' = upd_conn i (\<lambda>c. c\<lparr>c_r := (c_r c)\<lparr>sb_ptr := sb_len (c_r c)\<rparr>\<rparr>) s1"
  have p1': "P s1'" unfolding s1'_def by (rule upd_keeps [OF p1]) simp_all
  from h(1) sc consider m where "Destroy_connection G i m s1 = Some s'" | "s' = s1'"
    | m where "Send_reliable G i s1 = Some (m, s')"
    | ok s2 s3 where "clear_w i s1 = Some s2" "Handle_login G i s2 = Some (ok, s3)"
        "s' = s3 \<or> Destroy_connection G i (reason ''login failed'') s3 = Some s'"
    unfolding Receive_play_def s1'_def by (auto elim!: bind_SomeE split: if_splits)
  then show "P s'"
    using h(2) p1 p1' Send_reliable_keeps
    by cases (blast intro: destroy_keeps Handle_login_keeps clear_keeps)+
qed

lemma ack_new_data_keeps: "ack_new_data i d s = Some s' \<Longrightarrow> P s \<Longrightarrow> P s'"
proof -
  assume h: "ack_new_data i d s = Some s'" "P s"
  then obtain sb s3 cn3 s4 cn4 go s5 where
    s3: "s3 = upd_conn i (\<lambda>c. c\<lparr>c_c := sb, c_reliable_offset := c_reliable_offset c + d,
                     c_acks := (if (d + 511) div 512 > c_acks c then (d + 511) div 512
                                else c_acks c + 1)\<rparr>) s"
    and cn3: "get_conn i s3 = Some cn3"
    and s4: "(if c_reliable_offset cn3 \<ge> c_reliable_unsent cn3
              then (if c_state cn3 = CONN_DRAIN
                    then Conn_set_state i (c_drain_state cn3) (c_drain_state cn3) (upd_conn i (\<lambda>c. c\<lparr>c_retransmit_at_loop := 0\<rparr>) s3)
                    else Some (upd_conn i (\<lambda>c. c\<lparr>c_retransmit_at_loop := 0\<rparr>) s3))
              else Some s3) = Some s4"
    and cn4: "get_conn i s4 = Some cn4"
    and s5: "(if go then Conn_set_state i (c_drain_state cn4) (c_drain_state cn4) s4 else Some s4) = Some s5"
    and s': "s' = upd_conn i (\<lambda>c. c\<lparr>c_rtt_timeouts := 0\<rparr>) s5"
    unfolding ack_new_data_def Let_def by (elim bind_SomeE) (auto split: if_splits)
  have p3: "P s3" unfolding s3 by (rule upd_keeps [OF h(2)]) simp_all
  have p3': "P (upd_conn i (\<lambda>c. c\<lparr>c_retransmit_at_loop := 0\<rparr>) s3)" by (rule upd_keeps [OF p3]) simp_all
  have "P s4" using s4 p3 p3' drain_valid [OF p3 cn3] by (auto split: if_splits intro: state_keeps)
  then have "P s5" using s5 drain_valid [OF _ cn4] by (auto split: if_splits intro: state_keeps)
  then show "P s'" unfolding s' by (rule upd_keeps) simp_all
qed

lemma Receive_ack_keeps: "Receive_ack G i s = Some (r, s') \<Longrightarrow> Q G \<Longrightarrow> P s \<Longrightarrow> P s'"
proof -
  assume h: "Receive_ack G i s = Some (r, s')" "Q G" "P s"
  then obtain n outs s1 where sc: "scan_r i ''%c%ld%ld'' s = Some (n, outs, s1)"
    by (auto simp: Receive_ack_def elim!: bind_SomeE)
  have p1: "P s1" by (rule scan_keeps [OF sc h(3)])
  have p2: "P (upd_conn i (update_rtt rtt s1) s1)" for rtt
    by (rule upd_keeps [OF p1]) (simp_all add: update_rtt_sels)
  from h(1) sc consider m where "Destroy_connection G i m s1 = Some s'"
    | m rtt where "Destroy_connection G i m (upd_conn i (update_rtt rtt s1) s1) = Some s'"
    | rtt where "s' = upd_conn i (update_rtt rtt s1) s1"
    | rtt d where "ack_new_data i d (upd_conn i (update_rtt rtt s1) s1) = Some s'"
    unfolding Receive_ack_def by (auto simp: Let_def elim!: bind_SomeE split: list.splits sarg.splits if_splits)
  then show "P s'"
    using h(2) p1 p2 by cases (blast intro: destroy_keeps ack_new_data_keeps)+
qed

lemma reject_keeps: "reject_listening G i msg s = Some (r, s') \<Longrightarrow> Q G \<Longrightarrow> P s \<Longrightarrow> P s'"
  by (auto simp: reject_listening_def elim!: bind_SomeE)
     (blast intro: reply_keeps Send_reliable_keeps destroy_keeps)

lemma confirm_keeps: "confirm_client G i s = Some (ok, s') \<Longrightarrow> Q G \<Longrightarrow> P s \<Longrightarrow> P s'"
  by (auto simp: confirm_client_def elim!: bind_SomeE split: if_splits)
     (blast intro: reply_keeps print_c_keeps Send_reliable_keeps)+

lemma verify_keeps: "verify_client G i s = Some (r, s') \<Longrightarrow> Q G \<Longrightarrow> P s \<Longrightarrow> P s'"
proof -
  assume h: "verify_client G i s = Some (r, s')" "Q G" "P s"
  then consider m s1 n outs where "scan_r i ''%c%s%s'' s = Some (n, outs, s1)" "reject_listening G i m s1 = Some (r, s')"
    | n outs s1 s2 ok s3 where "scan_r i ''%c%s%s'' s = Some (n, outs, s1)" "clear_w i s1 = Some s2"
        "confirm_client G i s2 = Some (ok, s3)"
        "Destroy_connection G i (reason ''confirm failed'') s3 = Some s' \<or> Conn_set_state i CONN_DRAIN CONN_SETUP s3 = Some s'"
    by (auto simp: verify_client_def elim!: bind_SomeE split: list.splits sarg.splits if_splits)
  then show "P s'"
  proof cases
    case 1
    then show ?thesis using h(2,3) by (blast intro: reject_keeps scan_keeps)
  next
    case 2
    then have "P s3" using h(2,3) by (blast intro: confirm_keeps clear_keeps scan_keeps)
    moreover have "valid_state CONN_DRAIN" "valid_state CONN_SETUP" by (simp_all add: valid_state_def)
    ultimately show ?thesis using 2(4) h(2) by (blast intro: destroy_keeps state_keeps)
  qed
qed

lemma connect_keeps: "connect_client L k s = (b, s') \<Longrightarrow> P s \<Longrightarrow> P s'"
  by (auto simp: connect_client_def split: if_splits prod.splits)

lemma Handle_listening_keeps: "Handle_listening G L i s = Some (r, s') \<Longrightarrow> Q G \<Longrightarrow> P s \<Longrightarrow> P s'"
proof -
  assume h: "Handle_listening G L i s = Some (r, s')" "Q G" "P s"
  then obtain cn where cn: "get_conn i s = Some cn" by (auto simp: Handle_listening_def elim!: bind_SomeE)
  show "P s'"
  proof (cases "c_state cn = CONN_LISTENING")
    case False
    then show ?thesis using h cn by (auto simp: Handle_listening_def elim!: bind_SomeE intro: destroy_keeps)
  next
    case True
    then obtain s1 where s1: "clear_r i s = Some s1"
      using h(1) cn by (auto simp: Handle_listening_def elim!: bind_SomeE)
    have p1: "P s1" by (rule clear_keeps(2) [OF s1 h(3)])
    obtain n d e where rd: "DgramRead (sb_size (c_r cn)) ((net s1 (sb_sock (c_r cn)))\<lparr>os_errno := ENONE\<rparr>) = ((n, d), e)"
      by (metis surj_pair)
    note run = h(1) [unfolded Handle_listening_def cn bind.bind_lunit s1 Let_def rd prod.case]
    show ?thesis
    proof (cases "n \<le> 0")
      case n: True
      then show ?thesis using run True p1 h(2) by (auto elim!: bind_SomeE split: if_splits intro: destroy_keeps)
    next
      case n: False
      have p3: "P (upd_conn i (\<lambda>c. c\<lparr>c_r := (c_r c)\<lparr>sb_buf := Some b', sb_len := n\<rparr>, c_his_port := e_lastport L\<rparr>)
          (upd_net (sb_sock (c_r cn)) e s1))" for b'
        by (rule upd_keeps) (use p1 in simp_all)
      from run n True obtain x b' where b: "sb_buf (c_r cn) = Some x" "buf_put 0 d x = Some b'"
        by (auto elim!: bind_SomeE split: prod.splits)
      obtain c s4 where c: "connect_client L (sb_sock (c_w cn))
          (upd_conn i (\<lambda>c. c\<lparr>c_r := (c_r c)\<lparr>sb_buf := Some b', sb_len := n\<rparr>, c_his_port := e_lastport L\<rparr>)
            (upd_net (sb_sock (c_r cn)) e s1)) = (c, s4)"
        by (rule prod.exhaust)
      have "(if \<not> c then do { s5 \<leftarrow> Destroy_connection G i (reason ''connect error'') s4; Some (-1, s5) }
          else do { ty \<leftarrow> buf_at 0 b';
            if uint ty \<noteq> PKT_VERIFY then reject_listening G i ''not connecting'' s4
            else verify_client G i s4 }) = Some (r, s')"
        using run by (simp only: b bind.bind_lunit c prod.case n True if_False simp_thms)
      then have go: "(\<exists>m. Destroy_connection G i m s4 = Some s') \<or> (\<exists>m. reject_listening G i m s4 = Some (r, s')) \<or>
          verify_client G i s4 = Some (r, s')"
        by (auto elim!: bind_SomeE split: if_splits)
      have "P s4" by (rule connect_keeps [OF c p3])
      then show ?thesis using go h(2) by (blast intro: destroy_keeps reject_keeps verify_keeps)
    qed
  qed
qed

lemma give_up_keeps:
  "Receive_quit G i s = Some (r, s') \<Longrightarrow> Q G \<Longrightarrow> P s \<Longrightarrow> P s'"
  "Receive_undefined G i s = Some (r, s') \<Longrightarrow> Q G \<Longrightarrow> P s \<Longrightarrow> P s'"
  "Receive_discard i s = Some (r, s') \<Longrightarrow> P s \<Longrightarrow> P s'"
  by (auto simp: Receive_quit_def Receive_undefined_def Receive_discard_def elim!: bind_SomeE
      intro: destroy_keeps intro!: upd_keeps)

lemmas handlers_keep = give_up_keeps Receive_ack_keeps Receive_play_keeps Receive_power_keeps Receive_display_keeps
  Receive_shape_keeps Receive_fps_request_keeps Receive_keyboard_keeps Receive_ack_fuel_keeps Receive_talk_keeps
  Receive_pointer_move_keeps read_only_keeps

lemma tables_keep:
  "drain_receive G ty i s = Some (r, s') \<Longrightarrow> Q G \<Longrightarrow> P s \<Longrightarrow> P s'"
  "login_receive G ty i s = Some (r, s') \<Longrightarrow> Q G \<Longrightarrow> P s \<Longrightarrow> P s'"
  "playing_receive G ty i s = Some (r, s') \<Longrightarrow> Q G \<Longrightarrow> P s \<Longrightarrow> P s'"
proof -
  show "drain_receive G ty i s = Some (r, s') \<Longrightarrow> Q G \<Longrightarrow> P s \<Longrightarrow> P s'"
    unfolding drain_receive_def by (simp only: if_distribR split: if_splits) (blast intro: handlers_keep)+
  show login: "login_receive G ty i s = Some (r, s') \<Longrightarrow> Q G \<Longrightarrow> P s \<Longrightarrow> P s'"
    unfolding login_receive_def Receive_modifier_bank_def Receive_motd_def Receive_audio_request_def
    by (simp only: if_distribR split: if_splits) (blast intro: handlers_keep)+
  show "playing_receive G ty i s = Some (r, s') \<Longrightarrow> Q G \<Longrightarrow> P s \<Longrightarrow> P s'"
    unfolding playing_receive_def
    by (simp only: if_distribR split: if_splits) (blast intro: handlers_keep login)+
qed

lemma input_loop_keeps:
  assumes "\<And>ty s r s'. tbl ty i s = Some (r, s') \<Longrightarrow> P s \<Longrightarrow> P s'" "input_loop tbl i k s = Some (e, s')" "P s"
  shows "P s'"
  using assms(2,3)
proof (induction k arbitrary: s)
  case 0
  then show ?case by (auto simp: input_loop.simps [of tbl i 0] elim!: bind_SomeE split: if_splits)
next
  case (Suc k)
  from Suc.prems(1) obtain cn where cn: "get_conn i s = Some cn"
    by (auto simp: input_loop.simps [of tbl i "Suc k"] elim!: bind_SomeE)
  show ?case
  proof (cases "sb_ptr (c_r cn) < sb_len (c_r cn)")
    case False
    then show ?thesis using Suc.prems cn by (simp add: input_loop.simps [of tbl i "Suc k"])
  next
    case True
    with Suc.prems(1) cn obtain ty res s1 where h: "tbl ty i s = Some (res, s1)"
      and go: "(if res = -1 then Some (Finished, s1)
                else if res = 0 then do { s2 \<leftarrow> clear_r i s1; Some (Finished, s2) }
                else do { cn1 \<leftarrow> get_conn i s1;
                     input_loop tbl i k (if c_state cn1 = CONN_PLAYING
                        then upd_conn i (\<lambda>c. c\<lparr>c_start := main_loops s1\<rparr>) s1 else s1) }) = Some (e, s')"
      by (auto simp: input_loop.simps [of tbl i "Suc k"] elim!: bind_SomeE)
    have p1: "P s1" by (rule assms(1) [OF h Suc.prems(2)])
    have "P (if b then upd_conn i (\<lambda>c. c\<lparr>c_start := main_loops s1\<rparr>) s1 else s1)" for b
      using p1 by (auto intro!: upd_keeps)
    then show ?thesis
      using go p1 by (auto elim!: bind_SomeE split: if_splits intro: clear_keeps Suc.IH)
  qed
qed

lemma Handle_input_keeps: "Handle_input G L i s = Some (e, s') \<Longrightarrow> Q G \<Longrightarrow> P s \<Longrightarrow> P s'"
proof -
  assume h: "Handle_input G L i s = Some (e, s')" "Q G" "P s"
  then obtain cn where cn: "get_conn i s = Some cn" by (auto simp: Handle_input_def elim!: bind_SomeE)
  have start: "P (upd_net k x (upd_conn i (\<lambda>c. c\<lparr>c_r := sb\<rparr>)
      (upd_conn i (\<lambda>c. c\<lparr>c_num_keyboard_updates := 0, c_r := Sockbuf_clear (c_r c)\<rparr>) s)))" for k x sb
    using h(3) by (auto intro!: upd_keeps)
  define run where "run tbl = do {
      let s1 = upd_conn i (\<lambda>c. c\<lparr>c_num_keyboard_updates := 0, c_r := Sockbuf_clear (c_r c)\<rparr>) s;
      (n, sb, e) \<leftarrow> Sockbuf_read (Sockbuf_clear (c_r cn)) (net s (sb_sock (c_r cn)));
      let s2 = upd_net (sb_sock (c_r cn)) e (upd_conn i (\<lambda>c. c\<lparr>c_r := sb\<rparr>) s1);
      if n = -1 then do { s3 \<leftarrow> Destroy_connection G i (reason ''input error'') s2; Some (Finished, s3) }
      else if sb_len sb \<le> 0 then Some (Finished, s2)
      else input_loop tbl i (nat (sb_len sb)) s2 }" for tbl
  have read: "P s'" if "run tbl = Some (e, s')" "\<And>ty s r s'. tbl ty i s = Some (r, s') \<Longrightarrow> P s \<Longrightarrow> P s'" for tbl
  proof -
    from that(1) obtain n sb x where
      rd: "Sockbuf_read (Sockbuf_clear (c_r cn)) (net s (sb_sock (c_r cn))) = Some (n, sb, x)"
      unfolding run_def by (cases "Sockbuf_read (Sockbuf_clear (c_r cn)) (net s (sb_sock (c_r cn)))") auto
    note go = that(1) [unfolded run_def Let_def rd bind.bind_lunit prod.case]
    show ?thesis
      using go start h(2)
      by (auto elim!: bind_SomeE split: if_splits intro: destroy_keeps)
        (rule input_loop_keeps [OF that(2)], assumption+, simp)
  qed
  have "Handle_input G L i s = (if has_bit (c_state cn) (CONN_PLAYING OR CONN_READY) then run (playing_receive G)
          else if c_state cn = CONN_LOGIN then run (login_receive G)
          else if has_bit (c_state cn) (CONN_DRAIN OR CONN_SETUP) then run (drain_receive G)
          else if c_state cn = CONN_LISTENING then do { (_, s1) \<leftarrow> Handle_listening G L i s; Some (Finished, s1) }
          else if c_state cn \<noteq> CONN_FREE
          then do { s1 \<leftarrow> Destroy_connection G i (reason ''not input'') s; Some (Finished, s1) }
          else Some (Finished, s))"
    unfolding Handle_input_def cn bind.bind_lunit Let_def run_def ..
  with h(1) consider "run (playing_receive G) = Some (e, s')" | "run (login_receive G) = Some (e, s')"
    | "run (drain_receive G) = Some (e, s')" | r where "Handle_listening G L i s = Some (r, s')"
    | m where "Destroy_connection G i m s = Some s'" | "s' = s"
    by (auto elim!: bind_SomeE simp del: bind_eq_Some_conv split: if_splits)
  then show "P s'"
  proof cases
    case 1
    then show ?thesis by (rule read) (rule tables_keep(3) [OF _ h(2)])
  next
    case 2
    then show ?thesis by (rule read) (rule tables_keep(2) [OF _ h(2)])
  next
    case 3
    then show ?thesis by (rule read) (rule tables_keep(1) [OF _ h(2)])
  qed (use h in \<open>auto intro: destroy_keeps Handle_listening_keeps\<close>)
qed

lemma setup_begin_keeps: "setup_begin G L i s = Some (r, s') \<Longrightarrow> Q G \<Longrightarrow> P s \<Longrightarrow> P s'"
proof -
  assume h: "setup_begin G L i s = Some (r, s')" "Q G" "P s"
  then obtain cn where cn: "get_conn i s = Some cn" by (auto simp: setup_begin_def elim!: bind_SomeE)
  note run = h(1) [unfolded setup_begin_def cn bind.bind_lunit]
  consider (first) "c_setup cn = 0" | (ack) "c_setup cn \<noteq> 0" "c_setup cn < setup_size (Setup s) \<and> sb_len (c_c cn) > 0"
    | (none) "c_setup cn \<noteq> 0" "\<not> (c_setup cn < setup_size (Setup s) \<and> sb_len (c_c cn) > 0)" by blast
  then show "P s'"
  proof cases
    case first
    with run obtain n s1 where pr: "print_c i ''%ld%ld%hd%hd%hd%hd%hd%s%s'' (setup_args s) s = Some (n, s1)"
      and go: "(\<exists>m. Destroy_connection G i m s1 = Some s') \<or> s' = upd_conn i (\<lambda>c. c\<lparr>c_setup := SETUP_HEADER\<rparr>) s1"
      by (auto simp del: bind_eq_Some_conv elim!: bind_SomeE split: if_splits) blast+
    have "P s1" by (rule print_c_keeps [OF pr h(3)])
    then show ?thesis using go h(2) by (auto intro: destroy_keeps intro!: upd_keeps)
  next
    case ack
    with run obtain e where "Handle_input G L i s = Some (e, s')"
      by (auto simp del: bind_eq_Some_conv elim!: bind_SomeE split: if_splits)
    then show ?thesis using h(2,3) by (rule Handle_input_keeps)
  next
    case none
    then show ?thesis using run [unfolded if_not_P [OF none(1)] if_not_P [OF none(2)]] h(3) by simp
  qed
qed

lemma setup_piece_keeps: "setup_piece G i s = Some (r, s') \<Longrightarrow> Q G \<Longrightarrow> P s \<Longrightarrow> P s'"
  by (auto simp: setup_piece_def Let_def elim!: bind_SomeE split: if_splits intro!: upd_keeps)
    (auto intro!: upd_keeps elim!: destroy_keeps)

lemma Handle_setup_keeps: "Handle_setup G L i s = Some (r, s') \<Longrightarrow> Q G \<Longrightarrow> P s \<Longrightarrow> P s'"
proof -
  assume h: "Handle_setup G L i s = Some (r, s')" "Q G" "P s"
  have v: "valid_state CONN_DRAIN" "valid_state CONN_LOGIN" by (simp_all add: valid_state_def)
  from h(1) consider (dead) m where "Destroy_connection G i m s = Some s'"
    | (early) k where "setup_begin G L i s = Some (k, s')"
    | (stop) k s1 m where "setup_begin G L i s = Some (k, s1)" "setup_piece G i s1 = Some (m, s')"
    | (over) k s1 m s2 where "setup_begin G L i s = Some (k, s1)" "setup_piece G i s1 = Some (m, s2)"
        "s' = s2 \<or> Conn_set_state i CONN_DRAIN CONN_LOGIN s2 = Some s'"
    by (auto simp: Handle_setup_def elim!: bind_SomeE split: if_splits option.splits)
  then show "P s'"
    by cases (use h v in \<open>blast intro: destroy_keeps setup_begin_keeps setup_piece_keeps state_keeps\<close>)+
qed

lemma input_scan_keeps: "input_scan G L k i s = Some (is, s') \<Longrightarrow> Q G \<Longrightarrow> P s \<Longrightarrow> P s'"
proof (induction k arbitrary: i s "is")
  case (Suc k)
  from Suc.prems(1) obtain cn where cn: "get_conn i s = Some cn" by (auto elim!: bind_SomeE)
  consider "c_state cn = CONN_FREE" | (late) "c_state cn \<noteq> CONN_FREE" "overdue s cn"
    | (here) "c_state cn \<noteq> CONN_FREE" "\<not> overdue s cn" by blast
  then show ?case
  proof cases
    case late
    with Suc.prems cn obtain s1 m s2 where "s1 = s \<or> (\<exists>cmd. on_message G cmd s = Some s1)"
      "Destroy_connection G i m s1 = Some s2" and go: "input_scan G L k (Suc i) s2 = Some (is, s')"
      by (auto elim!: bind_SomeE split: if_splits)
    then have "P s2" using Suc.prems(2,3) by (blast intro: destroy_keeps hooks_keep)
    then show ?thesis using Suc.IH go Suc.prems(2) by blast
  next
    case here
    with Suc.prems cn obtain s1 js where "s1 = s \<or> (\<exists>r. Handle_setup G L i s = Some (r, s1))"
      and go: "input_scan G L k (Suc i) s1 = Some (js, s')"
      by (auto elim!: bind_SomeE split: if_splits) blast+
    then have "P s1" using Suc.prems(2,3) by (blast intro: Handle_setup_keeps)
    then show ?thesis using Suc.IH go Suc.prems(2) by blast
  qed (use Suc cn in auto)
qed simp

lemma input_send_keeps: "input_send G is s = Some s' \<Longrightarrow> Q G \<Longrightarrow> P s \<Longrightarrow> P s'"
proof (induction "is" arbitrary: s)
  case (Cons i js)
  then obtain s1 where "s1 = s \<or> (\<exists>r. Send_reliable G i s = Some (r, s1))" and go: "input_send G js s1 = Some s'"
    by (auto elim!: bind_SomeE split: if_splits) blast+
  then have "P s1" using Cons.prems(2,3) by (blast intro: Send_reliable_keeps)
  then show ?case using Cons.IH go Cons.prems(2) by blast
qed simp

lemma Input_keeps: "Input G L s = Some (r, s') \<Longrightarrow> Q G \<Longrightarrow> P s \<Longrightarrow> P s'"
  by (auto simp: Input_def elim!: bind_SomeE intro: input_scan_keeps input_send_keeps)

end

subsection \<open>The counters through a round\<close>

definition conns_ok :: "server \<Rightarrow> bool" where
  "conns_ok s \<longleftrightarrow> counters_ok s \<and> (\<forall>c \<in> set (Conn s). valid_state (c_drain_state c)) \<and>
     length (Conn s) = max_connections s"

text \<open>The rest of the server does not break the bookkeeping of the connections.\<close>

definition keeps_ok :: "game \<Rightarrow> bool" where
  "keeps_ok G \<longleftrightarrow> keeps_conns G \<and>
     (\<forall>s s'. conns_ok s \<longrightarrow>
        (\<exists>p. on_player_remove G p s = Some s') \<or> (\<exists>p. on_keyboard G p s = Some s') \<or>
        (\<exists>p cmd. on_player_command G p cmd s = Some s') \<or> (\<exists>j cmd. on_talk G j cmd s = Some s') \<or>
        (\<exists>p mv. on_pointer_move G p mv s = Some s') \<or> (\<exists>cmd. on_message G cmd s = Some s') \<or>
        (\<exists>j prep. on_login G j s = Some (prep, s')) \<or> (\<exists>p. on_enter G p s = Some s') \<longrightarrow> conns_ok s')"

lemma keeps_okD:
  assumes "keeps_ok G" "conns_ok s"
  shows "on_player_remove G p s = Some s' \<Longrightarrow> conns_ok s'" "on_keyboard G p s = Some s' \<Longrightarrow> conns_ok s'"
    "on_player_command G p cmd s = Some s' \<Longrightarrow> conns_ok s'" "on_talk G j cmd s = Some s' \<Longrightarrow> conns_ok s'"
    "on_pointer_move G p mv s = Some s' \<Longrightarrow> conns_ok s'" "on_message G cmd s = Some s' \<Longrightarrow> conns_ok s'"
    "on_login G j s = Some (prep, s') \<Longrightarrow> conns_ok s'" "on_enter G p s = Some s' \<Longrightarrow> conns_ok s'"
  using assms unfolding keeps_ok_def by metis+

lemma keeps_ok_conns: "keeps_ok G \<Longrightarrow> keeps_conns G"
  by (simp add: keeps_ok_def)

lemma conns_upd:
  assumes "conns_ok s" "\<And>c. c_state (f c) = c_state c" "\<And>c. c_drain_state (f c) = c_drain_state c"
  shows "conns_ok (upd_conn i f s)"
proof (cases "i < length (Conn s)")
  case True
  then show ?thesis
    using assms counters_upd_conn [of s f i]
    by (auto simp: conns_ok_def upd_conn_def dest!: set_update_subset_insert [THEN subsetD])
qed (use assms in \<open>simp add: upd_conn_def list_update_beyond conns_ok_def counters_ok_def\<close>)

lemma conns_rest:
  assumes "conns_ok s" "Conn s' = Conn s" "max_connections s' = max_connections s"
    "num_conn_busy s' = num_conn_busy s" "num_conn_playing s' = num_conn_playing s"
    "login_in_progress s' = login_in_progress s"
  shows "conns_ok s'"
  using assms counters_cong [of s' s] by (simp add: conns_ok_def)

lemma conns_state:
  assumes "Conn_set_state i st dr s = Some s'" "conns_ok s" "valid_state st" "valid_state dr"
  shows "conns_ok s'"
proof -
  have "i < length (Conn s)" using assms(1) by (auto simp: Conn_set_state_def get_conn_iff elim!: bind_SomeE)
  moreover have "counters_ok s" using assms(2) by (simp add: conns_ok_def)
  ultimately show ?thesis
    using Conn_set_state_ok [of s i st dr] assms
    by (auto simp: conns_ok_def dest!: set_update_subset_insert [THEN subsetD])
qed

lemma conns_destroy:
  assumes "Destroy_connection G i msg s = Some s'" "keeps_ok G" "conns_ok s"
  shows "conns_ok s'"
proof -
  have c: "counters_ok s'" "length (Conn s') = length (Conn s)"
    using Destroy_connection_ok [OF _ keeps_ok_conns [OF assms(2)] assms(1)] assms(3) by (auto simp: conns_ok_def)
  obtain cn where cn: "get_conn i s = Some cn" using assms(1) by (auto simp: Destroy_connection_def elim!: bind_SomeE)
  show ?thesis
  proof (cases "c_state cn = CONN_FREE")
    case True
    then show ?thesis using assms(1,3) cn by (simp add: Destroy_connection_def)
  next
    case False
    obtain t s2 s3 where
      s2: "Conn_set_state i CONN_FREE CONN_FREE (send_quit (sb_sock (c_w cn)) (quit_packet msg) (s\<lparr>io := t\<rparr>)) = Some s2"
      and s3: "s3 = s2 \<or> (\<exists>p pl. on_player_remove G p ((upd_conn i (\<lambda>c. c\<lparr>c_pl := None\<rparr>) s2)
              \<lparr>player_heap := (player_heap s2)(p \<mapsto> pl\<lparr>pl_connp := None\<rparr>)\<rparr>) = Some s3)"
      and s': "Conn s' = Conn (upd_conn i (\<lambda>_. zero_connection) s3)" "max_connections s' = max_connections s3"
      by (rule Destroy_connectionE [OF assms(1) cn False], rule that) assumption+
    have "conns_ok (send_quit k q (s\<lparr>io := t\<rparr>))" for k q by (rule conns_rest [OF assms(3)]) simp_all
    then have p2: "conns_ok s2" by (rule conns_state [OF s2]) (simp_all add: valid_state_def)
    have u: "conns_ok ((upd_conn i (\<lambda>c. c\<lparr>c_pl := None\<rparr>) s2)\<lparr>player_heap := h\<rparr>)" for h
      by (rule conns_rest [OF conns_upd [OF p2, of "\<lambda>c. c\<lparr>c_pl := None\<rparr>" i]]) simp_all
    have "conns_ok s3"
      using s3 by (elim disjE exE) (simp add: p2, rule keeps_okD(1) [OF assms(2) u])
    moreover have "valid_state (c_drain_state zero_connection)"
      by (simp add: zero_connection_def valid_state_def CONN_FREE_def)
    ultimately show ?thesis
      using c s' by (auto simp: conns_ok_def upd_conn_def dest!: set_update_subset_insert [THEN subsetD])
  qed
qed

interpretation conns: conn_invariant conns_ok keeps_ok
proof unfold_locales
  show "conns_ok s \<Longrightarrow> get_conn i s = Some cn \<Longrightarrow> valid_state (c_drain_state cn)" for s i cn
    by (auto simp: conns_ok_def get_conn_iff)
qed (fact conns_upd conns_rest conns_state conns_destroy | erule (1) keeps_okD, assumption)+

text \<open>C27. A round over the connections keeps the books: whatever has arrived for the connections and
  whichever of them it closes, afterwards the counters match the array, and the number \<open>Input\<close> returns,
  on which the main loop decides how often it looks for input, is the number of clients between
  connecting and playing.\<close>

theorem Input_counts:
  assumes "Input G L s = Some (r, s')" "conns_ok s" "keeps_ok G"
  shows "conns_ok s' \<and> r = count (\<lambda>c. is_busy c \<and> \<not> is_playing c) (Conn s') \<and>
    length (Conn s') = max_connections s'"
proof -
  have ok: "conns_ok s'" by (rule conns.Input_keeps [OF assms(1,3,2)])
  have "r = login_in_progress s'" using assms(1) by (auto simp: Input_def elim!: bind_SomeE)
  with ok show ?thesis by (simp add: conns_ok_def counters_ok_def)
qed

text \<open>A server with a free slot, a connection nobody verified in time, and a client that logs in.\<close>

definition demo_round :: server where
  "demo_round = demo_server0\<lparr>
     Conn := [zero_connection,
       fresh_connection\<lparr>c_state := CONN_LISTENING, c_drain_state := CONN_FREE, c_start := 0, c_timeout := 4, c_pl := None\<rparr>,
       fresh_connection\<lparr>c_state := CONN_LOGIN, c_drain_state := CONN_FREE, c_start := 90, c_timeout := 4, c_pl := None\<rparr>],
     max_connections := 3, num_conn_busy := 2, num_conn_playing := 0, login_in_progress := 2\<rparr>"

lemma demo_round_ok: "conns_ok demo_round"
  by (simp add: conns_ok_def counters_ok_def demo_round_def valid_state_def is_busy_def is_playing_def
      zero_connection_def fresh_connection_def conn_states)

lemma quiet_keeps_ok: "keeps_ok quiet_game"
  by (auto simp: keeps_ok_def quiet_keeps) (auto simp: quiet_game_def)

theorem Input_counts_witness:
  "\<exists>s'. Input quiet_game demo_listen demo_round = Some (1, s') \<and> conns_ok s' \<and>
     1 = count (\<lambda>c. is_busy c \<and> \<not> is_playing c) (Conn s')"
proof -
  have "map_option (\<lambda>(r, s). (r, max_connections s)) (Input quiet_game demo_listen demo_round) = Some (1, 3)"
    by code_simp
  then obtain s' where run: "Input quiet_game demo_listen demo_round = Some (1, s')" by auto
  from Input_counts [OF run demo_round_ok quiet_keeps_ok] run show ?thesis by auto
qed

end
