(* ===== verification/Options.thy ===== *)
theory Options
  imports C_Strings
begin

text \<open>
  The option database of the server (\<open>server/option.c\<close>): a hash table of option names whose nodes
  share value records, with the rules that decide whether a value from the command line, the
  password file, the defaults file or the map replaces the present one.

  A C string is the list of its bytes before the NUL. \<open>xp_safe_malloc\<close> ends the program when memory
  runs out, so the tests of its results never fail; what is allocated and freed is counted as in
  the code. Here \<open>None\<close> is the end of the program by \<open>fatal\<close>, or the use of a missing value record.
\<close>

subsection \<open>Data\<close>

datatype val_type = valVoid | valInt | valReal | valBool | valString | valList

datatype opt_origin = OPT_INIT | OPT_MAP | OPT_DEFAULTS | OPT_COMMAND | OPT_PASSWORD

fun origin_flag :: "opt_origin \<Rightarrow> i32" where
  "origin_flag OPT_INIT = 0"
| "origin_flag OPT_MAP = 1"
| "origin_flag OPT_DEFAULTS = 2"
| "origin_flag OPT_COMMAND = 4"
| "origin_flag OPT_PASSWORD = 8"

definition OPT_NONE :: i32 where "OPT_NONE = 0"
definition OPT_ORIGIN_ANY :: i32 where "OPT_ORIGIN_ANY = 7"
definition OPT_VISIBLE :: i32 where "OPT_VISIBLE = 16"

text \<open>An option description; the variable it sets is named by a number, and \<open>od_tunable\<close> says that its
  tuner is not \<open>tuner_none\<close>.\<close>

record option_desc =
  od_name :: "byte list"
  od_command :: "byte list"
  od_default :: "byte list option"
  od_variable :: "nat option"
  od_type :: val_type
  od_tunable :: bool
  od_flags :: i32

record hash_value =
  hv_value :: "byte list option"
  hv_override :: int
  hv_origin :: opt_origin
  hv_desc :: "option_desc option"
  hv_refcount :: int

record hash_node =
  hn_name :: "byte list"
  hn_value :: "nat option"

record opt_table =
  Option_hash_array :: "hash_node list list"
  hash_values :: "nat \<Rightarrow> hash_value option"
  next_value :: nat
  hash_nodes_allocated :: int
  hash_nodes_freed :: int
  hash_values_allocated :: int
  hash_values_freed :: int

definition HASH_SIZE :: nat where "HASH_SIZE = 317"

subsection \<open>Hashing\<close>

text \<open>\<open>isascii(c) && isalpha(c) && islower(c)\<close> guards the call of \<open>toupper\<close>.\<close>

definition hash_upper :: "byte \<Rightarrow> byte" where
  "hash_upper c = (if 97 \<le> c \<and> c \<le> 122 then c - 32 else c)"

function hash_fold :: "i32 \<Rightarrow> i32" where
  "hash_fold h = (if h > 317 then hash_fold (h mod 317 + h div 317) else h)"
  by auto
termination
proof (relation "measure unat")
  fix h :: i32 assume "h > 317"
  then have h: "317 < unat h" by (simp add: word_less_nat_alt)
  have "unat h mod 317 + unat h div 317 < unat h"
  proof -
    have "unat h = 317 * (unat h div 317) + unat h mod 317" by simp
    moreover have "0 < unat h div 317" using h by (simp add: div_greater_zero_iff)
    ultimately show ?thesis by linarith
  qed
  moreover have "unat h < 2 ^ 32" using unsigned_less [of h] by simp
  ultimately show "(h mod 317 + h div 317, h) \<in> measure unat"
    by (simp add: unat_word_ariths unat_mod_distrib unat_div_distrib)
qed simp

declare hash_fold.simps [simp del]

fun hash_loop :: "nat \<Rightarrow> byte list \<Rightarrow> i32 \<Rightarrow> i32" where
  "hash_loop i [] h = h"
| "hash_loop i (c # s) h =
     hash_loop (Suc i) s (hash_fold ((push_bit 3 h + ucast (hash_upper c)) XOR of_nat i))"

definition Option_hash_string :: "byte list \<Rightarrow> nat" where
  "Option_hash_string name = unat (hash_loop 0 name 0 mod 317)"

definition same_name :: "byte list \<Rightarrow> byte list \<Rightarrow> bool" where
  "same_name a b \<longleftrightarrow> strcasecmp (a @ [0]) (b @ [0]) = Some 0"

subsection \<open>Values and nodes\<close>

definition upd_value :: "nat \<Rightarrow> (hash_value \<Rightarrow> hash_value) \<Rightarrow> opt_table \<Rightarrow> opt_table" where
  "upd_value a f t = t\<lparr>hash_values := (hash_values t)(a := map_option f (hash_values t a))\<rparr>"

definition Option_allocate_value ::
  "byte list option \<Rightarrow> option_desc option \<Rightarrow> opt_origin \<Rightarrow> opt_table \<Rightarrow> nat \<times> opt_table" where
  "Option_allocate_value value desc orig t =
     (let v = \<lparr>hv_value = (case value of
                   None \<Rightarrow> (case desc of None \<Rightarrow> None | Some d \<Rightarrow> od_default d)
                 | Some w \<Rightarrow> Some w),
               hv_override = 0, hv_origin = orig, hv_desc = desc, hv_refcount = 0\<rparr>
      in (next_value t,
          t\<lparr>hash_values := (hash_values t)(next_value t \<mapsto> v), next_value := next_value t + 1,
            hash_values_allocated := hash_values_allocated t + 1\<rparr>))"

definition Option_free_value :: "nat \<Rightarrow> opt_table \<Rightarrow> opt_table option" where
  "Option_free_value a t =
     do { v \<leftarrow> hash_values t a;
          let n = (if hv_refcount v > 0 then hv_refcount v - 1 else hv_refcount v);
          Some (if n = 0
                then t\<lparr>hash_values := (hash_values t)(a := None),
                       hash_values_freed := hash_values_freed t + 1\<rparr>
                else upd_value a (\<lambda>v. v\<lparr>hv_refcount := n\<rparr>) t) }"

definition Option_allocate_node :: "byte list \<Rightarrow> nat option \<Rightarrow> opt_table \<Rightarrow> hash_node \<times> opt_table" where
  "Option_allocate_node name value t =
     (\<lparr>hn_name = name, hn_value = value\<rparr>,
      (case value of None \<Rightarrow> t | Some a \<Rightarrow> upd_value a (\<lambda>v. v\<lparr>hv_refcount := hv_refcount v + 1\<rparr>) t)
        \<lparr>hash_nodes_allocated := hash_nodes_allocated t + 1\<rparr>)"

definition Option_free_node :: "hash_node \<Rightarrow> opt_table \<Rightarrow> opt_table option" where
  "Option_free_node node t =
     do { t1 \<leftarrow> (case hn_value node of None \<Rightarrow> Some t | Some a \<Rightarrow> Option_free_value a t);
          Some (t1\<lparr>hash_nodes_freed := hash_nodes_freed t1 + 1\<rparr>) }"

text \<open>The position of the first node of a name in its chain.\<close>

fun find_node :: "byte list \<Rightarrow> hash_node list \<Rightarrow> nat option" where
  "find_node name [] = None"
| "find_node name (n # ns) = (if same_name name (hn_name n) then Some 0 else map_option Suc (find_node name ns))"

definition push_node :: "hash_node \<Rightarrow> opt_table \<Rightarrow> opt_table" where
  "push_node node t =
     (let ix = Option_hash_string (hn_name node)
      in t\<lparr>Option_hash_array := (Option_hash_array t)[ix := node # Option_hash_array t ! ix]\<rparr>)"

definition Option_add_node :: "hash_node \<Rightarrow> opt_table \<Rightarrow> opt_table option" where
  "Option_add_node node t =
     (if find_node (hn_name node) (Option_hash_array t ! Option_hash_string (hn_name node)) \<noteq> None
      then None else Some (push_node node t))"

definition Get_hash_node_by_name :: "byte list \<Rightarrow> opt_table \<Rightarrow> hash_node option" where
  "Get_hash_node_by_name name t =
     (let ns = Option_hash_array t ! Option_hash_string name
      in map_option ((!) ns) (find_node name ns))"

definition Option_add_desc :: "option_desc \<Rightarrow> opt_table \<Rightarrow> (bool \<times> opt_table) option" where
  "Option_add_desc desc t =
     (let (a, t1) = Option_allocate_value None (Some desc) OPT_INIT t;
          (node1, t2) = Option_allocate_node (od_name desc) (Some a) t1
      in if \<not> same_name (od_name desc) (od_command desc)
         then (let (node2, t3) = Option_allocate_node (od_command desc) (Some a) t2
               in do { t4 \<leftarrow> Option_add_node node1 t3; t5 \<leftarrow> Option_add_node node2 t4; Some (True, t5) })
         else do { t3 \<leftarrow> Option_add_node node1 t2; Some (True, t3) })"

subsection \<open>Setting a value\<close>

text \<open>Whether a value of an origin replaces a value of another origin; an origin that is none of the four
  sources is fatal.\<close>

fun set_permitted :: "opt_origin \<Rightarrow> int \<Rightarrow> opt_origin \<Rightarrow> int \<Rightarrow> bool option" where
  "set_permitted OPT_COMMAND ov old old_ov = Some True"
| "set_permitted OPT_DEFAULTS ov old old_ov =
     (case old of OPT_COMMAND \<Rightarrow> Some False | OPT_DEFAULTS \<Rightarrow> Some (old_ov = 0)
      | OPT_MAP \<Rightarrow> Some (ov \<noteq> 0) | OPT_PASSWORD \<Rightarrow> Some False | OPT_INIT \<Rightarrow> Some True)"
| "set_permitted OPT_MAP ov old old_ov =
     (case old of OPT_COMMAND \<Rightarrow> Some False | OPT_DEFAULTS \<Rightarrow> Some (old_ov = 0)
      | OPT_MAP \<Rightarrow> Some (old_ov = 0) | OPT_PASSWORD \<Rightarrow> Some False | OPT_INIT \<Rightarrow> Some True)"
| "set_permitted OPT_PASSWORD ov old old_ov =
     (case old of OPT_COMMAND \<Rightarrow> Some False | OPT_DEFAULTS \<Rightarrow> Some True
      | OPT_MAP \<Rightarrow> Some True | OPT_PASSWORD \<Rightarrow> Some (old_ov = 0) | OPT_INIT \<Rightarrow> Some True)"
| "set_permitted OPT_INIT ov old old_ov = None"

definition Option_change_node ::
  "hash_node \<Rightarrow> byte list option \<Rightarrow> int \<Rightarrow> opt_origin \<Rightarrow> opt_table \<Rightarrow> (hash_node \<times> opt_table) option" where
  "Option_change_node node value ov orig t =
     (case hn_value node of
        None \<Rightarrow>
          (let (a, t1) = Option_allocate_value value None orig t
           in Some (node\<lparr>hn_value := Some a\<rparr>,
                upd_value a (\<lambda>v. v\<lparr>hv_refcount := hv_refcount v + 1, hv_override := ov, hv_origin := orig\<rparr>) t1))
      | Some a \<Rightarrow>
          do { v \<leftarrow> hash_values t a;
               if (case hv_desc v of Some d \<Rightarrow> \<not> has_bit (od_flags d) (origin_flag orig) | None \<Rightarrow> False)
               then Some (node, t)
               else do {
                 ok \<leftarrow> set_permitted orig ov (hv_origin v) (hv_override v);
                 Some (node, if ok
                   then upd_value a (\<lambda>v. v\<lparr>hv_value := value, hv_override := ov, hv_origin := orig\<rparr>) t
                   else t) } })"

definition Option_set_value ::
  "byte list \<Rightarrow> byte list option \<Rightarrow> int \<Rightarrow> opt_origin \<Rightarrow> opt_table \<Rightarrow> opt_table option" where
  "Option_set_value name value ov orig t =
     (let ix = Option_hash_string name; ns = Option_hash_array t ! ix in
      case find_node name ns of
        Some k \<Rightarrow>
          do { (node, t1) \<leftarrow> Option_change_node (ns ! k) value ov orig t;
               Some (t1\<lparr>Option_hash_array := (Option_hash_array t1)[ix := ns[k := node]]\<rparr>) }
      | None \<Rightarrow>
          (if value = None then Some t
           else (let (a, t1) = Option_allocate_value value None orig t;
                     (node, t2) = Option_allocate_node name (Some a) (upd_value a (\<lambda>v. v\<lparr>hv_override := ov\<rparr>) t1)
                 in Some (push_node node t2))))"

text \<open>The value of an option, and its origin when there is a node for it.\<close>

definition Option_get_value :: "byte list \<Rightarrow> opt_table \<Rightarrow> (byte list option \<times> opt_origin option) option" where
  "Option_get_value name t =
     (case Get_hash_node_by_name name t of
        None \<Rightarrow> Some (None, None)
      | Some node \<Rightarrow> do { a \<leftarrow> hn_value node; v \<leftarrow> hash_values t a; Some (hv_value v, Some (hv_origin v)) })"

subsection \<open>Freeing the table\<close>

text \<open>The loop over one chain; the second argument is what the chain holds.\<close>

fun free_nodes :: "nat \<Rightarrow> hash_node list \<Rightarrow> opt_table \<Rightarrow> opt_table option" where
  "free_nodes i [] t = Some t"
| "free_nodes i (n # ns) t =
     do { t1 \<leftarrow> Option_free_node n (t\<lparr>Option_hash_array := (Option_hash_array t)[i := ns]\<rparr>);
          free_nodes i ns t1 }"

fun free_chains :: "nat \<Rightarrow> nat \<Rightarrow> opt_table \<Rightarrow> opt_table option" where
  "free_chains 0 i t = Some t"
| "free_chains (Suc k) i t = do { t1 \<leftarrow> free_nodes i (Option_hash_array t ! i) t; free_chains k (Suc i) t1 }"

text \<open>The two numbers \<open>Options_hash_free\<close> reports when they are not zero: nodes and values not freed.\<close>

definition Options_hash_free :: "opt_table \<Rightarrow> (int \<times> int \<times> opt_table) option" where
  "Options_hash_free t =
     do { t1 \<leftarrow> free_chains HASH_SIZE 0 t;
          Some (hash_nodes_allocated t1 - hash_nodes_freed t1, hash_values_allocated t1 - hash_values_freed t1, t1) }"

subsection \<open>Names up to case\<close>

definition key :: "byte list \<Rightarrow> int list" where
  "key name = map lower name"

definition no_nul :: "byte list \<Rightarrow> bool" where
  "no_nul s \<longleftrightarrow> 0 \<notin> set s"

lemma same_name_iff: "no_nul a \<Longrightarrow> no_nul b \<Longrightarrow> same_name a b \<longleftrightarrow> key a = key b"
  using strcasecmp_strings [of a b] by (auto simp: same_name_def key_def no_nul_def)

lemma hash_upper_lower: "hash_upper c = (if 97 \<le> lower c \<and> lower c \<le> 122 then word_of_int (lower c - 32) else word_of_int (lower c))"
proof -
  have c: "word_of_int (sint c) = c" by simp
  have range: "97 \<le> c \<and> c \<le> 122 \<longleftrightarrow> 97 \<le> sint c \<and> sint c \<le> 122"
  proof -
    have "uint c < 256" "0 \<le> uint c" using uint_lt2p [of c] by simp_all
    moreover have "sint c = (uint c + 128) mod 256 - 128"
      unfolding sint_uint signed_take_bit_eq_take_bit_shift take_bit_eq_mod by simp
    moreover have "(x + 128) mod 256 = (if x < 128 then x + 128 else x - 128)" if "0 \<le> x" "x < 256" for x :: int
    proof (cases "x < 128")
      case False
      have "x + 128 = x - 128 + 256" by simp
      then have "(x + 128) mod 256 = (x - 128 + 256) mod 256" by (simp only:)
      also have "\<dots> = x - 128" using False that by (simp only: mod_add_self2) simp
      finally show ?thesis using False by simp
    qed (use that in simp)
    ultimately have "sint c = (if uint c < 128 then uint c else uint c - 256)" by simp
    then show ?thesis using \<open>uint c < 256\<close> by (simp add: word_le_def)
  qed
  show ?thesis
  proof (cases "97 \<le> sint c \<and> sint c \<le> 122")
    case True
    then have "lower c = sint c" by (simp add: lower_def tolower_def)
    with True range show ?thesis by (simp add: hash_upper_def)
  next
    case False
    show ?thesis
    proof (cases "65 \<le> sint c \<and> sint c \<le> 90")
      case True
      then have "lower c = sint c + 32" by (simp add: lower_def tolower_def)
      with True False range show ?thesis by (simp add: hash_upper_def)
    next
      case plain: False
      then have "lower c = sint c" by (auto simp: lower_def tolower_def)
      with plain False range show ?thesis by (auto simp: hash_upper_def)
    qed
  qed
qed

lemma hash_loop_key: "key a = key b \<Longrightarrow> hash_loop i a h = hash_loop i b h"
proof (induction a arbitrary: b i h)
  case (Cons x a)
  then obtain y b' where b: "b = y # b'" "lower x = lower y" "key a = key b'" by (cases b) (auto simp: key_def)
  then have u: "hash_upper x = hash_upper y" by (simp add: hash_upper_lower)
  show ?case unfolding b(1) hash_loop.simps u by (rule Cons.IH [OF b(3)])
qed (simp add: key_def)

text \<open>The hash does not depend on case, so equal names are in the same chain.\<close>

lemma Option_hash_string_key: "key a = key b \<Longrightarrow> Option_hash_string a = Option_hash_string b"
  unfolding Option_hash_string_def by (metis hash_loop_key)

lemma Option_hash_string_less [simp]: "Option_hash_string name < 317"
proof -
  have "hash_loop 0 name 0 mod 317 < (317 :: i32)" by (rule word_mod_less_divisor) simp
  then have "unat (hash_loop 0 name 0 mod 317 :: i32) < 317" by (simp add: word_less_nat_alt)
  then show ?thesis by (simp add: Option_hash_string_def)
qed

subsection \<open>The table as a memory of options\<close>

definition nodes :: "opt_table \<Rightarrow> hash_node list" where
  "nodes t = concat (Option_hash_array t)"

definition refs :: "nat \<Rightarrow> hash_node list \<Rightarrow> int" where
  "refs a ns = int (length (filter (\<lambda>n. hn_value n = Some a) ns))"

lemma refs_simps [simp]:
  "refs a [] = 0" "refs a (n # ns) = (if hn_value n = Some a then 1 else 0) + refs a ns"
  "refs a (ms @ ns) = refs a ms + refs a ns" "0 \<le> refs a ns"
  by (simp_all add: refs_def)

text \<open>Every chain holds the nodes of its hash with names that differ up to case, every node has a value
  record, and a value record counts the nodes that share it.\<close>

definition chains_ok :: "hash_node list list \<Rightarrow> bool" where
  "chains_ok A \<longleftrightarrow> length A = HASH_SIZE \<and>
     (\<forall>ix < HASH_SIZE. distinct (map (\<lambda>n. key (hn_name n)) (A ! ix)) \<and>
        (\<forall>n \<in> set (A ! ix). Option_hash_string (hn_name n) = ix \<and> no_nul (hn_name n)))"

definition values_ok :: "opt_table \<Rightarrow> bool" where
  "values_ok t \<longleftrightarrow>
     (\<forall>n \<in> set (nodes t). \<exists>a. hn_value n = Some a \<and> hash_values t a \<noteq> None) \<and>
     (\<forall>a v. hash_values t a = Some v \<longrightarrow> a < next_value t \<and> 0 < hv_refcount v \<and> hv_refcount v = refs a (nodes t))"

definition books_ok :: "opt_table \<Rightarrow> bool" where
  "books_ok t \<longleftrightarrow> finite (dom (hash_values t)) \<and>
     hash_nodes_allocated t - hash_nodes_freed t = int (length (nodes t)) \<and>
     hash_values_allocated t - hash_values_freed t = int (card (dom (hash_values t)))"

definition table_ok :: "opt_table \<Rightarrow> bool" where
  "table_ok t \<longleftrightarrow> chains_ok (Option_hash_array t) \<and> values_ok t \<and> books_ok t"

lemma value_refs:
  "table_ok t \<Longrightarrow> hash_values t a = Some v \<Longrightarrow> a < next_value t \<and> 0 < hv_refcount v \<and> hv_refcount v = refs a (nodes t)"
  unfolding table_ok_def values_ok_def by blast

text \<open>The value record a name stands for.\<close>

definition slot :: "opt_table \<Rightarrow> byte list \<Rightarrow> nat option" where
  "slot t name = Option.bind (Get_hash_node_by_name name t) hn_value"

definition entry :: "opt_table \<Rightarrow> byte list \<Rightarrow> hash_value option" where
  "entry t name = Option.bind (slot t name) (hash_values t)"

lemma find_node_Some:
  assumes "\<forall>n \<in> set ns. no_nul (hn_name n)" "no_nul name" "find_node name ns = Some k"
  shows "k < length ns \<and> key (hn_name (ns ! k)) = key name"
  using assms
proof (induction ns arbitrary: k)
  case (Cons n ns)
  then show ?case using same_name_iff [of name "hn_name n"] by (auto split: if_splits)
qed simp

lemma find_node_None:
  assumes "\<forall>n \<in> set ns. no_nul (hn_name n)" "no_nul name"
  shows "find_node name ns = None \<longleftrightarrow> (\<forall>n \<in> set ns. key (hn_name n) \<noteq> key name)"
  using assms by (induction ns) (auto simp: same_name_iff)

lemma find_node_key: "\<forall>n \<in> set ns. no_nul (hn_name n) \<Longrightarrow> no_nul a \<Longrightarrow> no_nul b \<Longrightarrow> key a = key b \<Longrightarrow>
  find_node a ns = find_node b ns"
  by (induction ns) (auto simp: same_name_iff)

lemma find_node_names: "map hn_name ns = map hn_name ms \<Longrightarrow> find_node name ns = find_node name ms"
proof (induction ns arbitrary: ms)
  case (Cons n ns)
  then obtain m ms' where "ms = m # ms'" "hn_name n = hn_name m" "map hn_name ns = map hn_name ms'"
    by (cases ms) auto
  then show ?case using Cons.IH [of ms'] by simp
qed simp

lemma chain_ok:
  assumes "table_ok t" "no_nul name"
  defines "ns \<equiv> Option_hash_array t ! Option_hash_string name"
  shows "\<forall>n \<in> set ns. no_nul (hn_name n) \<and> Option_hash_string (hn_name n) = Option_hash_string name"
    "set ns \<subseteq> set (nodes t)" "length (Option_hash_array t) = HASH_SIZE"
proof -
  have i: "Option_hash_string name < HASH_SIZE" by (simp add: HASH_SIZE_def)
  with assms(1) show "\<forall>n \<in> set ns. no_nul (hn_name n) \<and> Option_hash_string (hn_name n) = Option_hash_string name"
    "length (Option_hash_array t) = HASH_SIZE"
    by (auto simp: table_ok_def chains_ok_def ns_def)
  then show "set ns \<subseteq> set (nodes t)" using i by (auto simp: nodes_def ns_def intro!: bexI [OF _ nth_mem])
qed

lemma node_in_chain:
  assumes "table_ok t" "n \<in> set (nodes t)"
  shows "n \<in> set (Option_hash_array t ! Option_hash_string (hn_name n))" "no_nul (hn_name n)"
proof -
  from assms(2) obtain ns where "n \<in> set ns" "ns \<in> set (Option_hash_array t)" by (auto simp: nodes_def)
  then obtain ix where "ix < length (Option_hash_array t)" "n \<in> set (Option_hash_array t ! ix)"
    by (auto simp: in_set_conv_nth [of ns])
  with assms(1) show "n \<in> set (Option_hash_array t ! Option_hash_string (hn_name n))" "no_nul (hn_name n)"
    by (auto simp: table_ok_def chains_ok_def)
qed

lemma slot_cases:
  assumes "table_ok t" "no_nul name"
  obtains (found) k n a v where "find_node name (Option_hash_array t ! Option_hash_string name) = Some k"
      "k < length (Option_hash_array t ! Option_hash_string name)"
      "n = Option_hash_array t ! Option_hash_string name ! k"
      "n \<in> set (nodes t)" "key (hn_name n) = key name" "hn_value n = Some a"
      "hash_values t a = Some v" "slot t name = Some a" "entry t name = Some v"
  | (absent) "find_node name (Option_hash_array t ! Option_hash_string name) = None"
      "\<forall>n \<in> set (nodes t). key (hn_name n) \<noteq> key name" "slot t name = None" "entry t name = None"
proof (cases "find_node name (Option_hash_array t ! Option_hash_string name)")
  case None
  have "key (hn_name n) \<noteq> key name" if "n \<in> set (nodes t)" for n
    using None node_in_chain(1) [OF assms(1) that] chain_ok(1) [OF assms] assms(2) find_node_None
      Option_hash_string_key [of "hn_name n" name] by metis
  moreover have "slot t name = None" using None by (simp add: slot_def Get_hash_node_by_name_def)
  ultimately show ?thesis using absent None by (simp add: entry_def)
next
  case (Some k)
  define n where "n = Option_hash_array t ! Option_hash_string name ! k"
  have k: "k < length (Option_hash_array t ! Option_hash_string name) \<and> key (hn_name n) = key name"
    unfolding n_def using find_node_Some [OF _ assms(2) Some] chain_ok(1) [OF assms] by blast
  then have n: "n \<in> set (nodes t)" using chain_ok(2) [OF assms] by (auto simp: n_def)
  then obtain a v where a: "hn_value n = Some a" "hash_values t a = Some v"
    using assms(1) by (auto simp: table_ok_def values_ok_def)
  have "slot t name = Some a" using Some a(1) by (simp add: slot_def Get_hash_node_by_name_def n_def)
  then show ?thesis using found [OF Some _ n_def n _ a] k a(2) by (simp add: entry_def)
qed

lemma slot_iff:
  assumes "table_ok t" "no_nul name"
  shows "slot t name = Some a \<longleftrightarrow> (\<exists>n \<in> set (nodes t). key (hn_name n) = key name \<and> hn_value n = Some a)"
proof (cases rule: slot_cases [OF assms, case_names found absent])
  case (found k n b v)
  have "m = n" if m: "m \<in> set (nodes t)" "key (hn_name m) = key name" for m
  proof -
    let ?ns = "Option_hash_array t ! Option_hash_string name"
    have "m \<in> set ?ns" using node_in_chain(1) [OF assms(1) m(1)] Option_hash_string_key [OF m(2)] by simp
    moreover have "n \<in> set ?ns" using found(2,3) by simp
    moreover have "inj_on (\<lambda>n. key (hn_name n)) (set ?ns)"
      using assms(1) by (simp add: table_ok_def chains_ok_def HASH_SIZE_def distinct_map)
    ultimately show ?thesis using found(5) m(2) unfolding inj_on_def by metis
  qed
  then show ?thesis unfolding found(8) using found(4-6) by (metis option.inject)
qed auto

text \<open>What setting does to an option: a fresh entry, a replacement the rules permit, or nothing.\<close>

definition allowed :: "opt_origin \<Rightarrow> int \<Rightarrow> hash_value \<Rightarrow> bool" where
  "allowed orig ov v \<longleftrightarrow>
     (case hv_desc v of Some d \<Rightarrow> has_bit (od_flags d) (origin_flag orig) | None \<Rightarrow> True) \<and>
     set_permitted orig ov (hv_origin v) (hv_override v) = Some True"

definition assign :: "byte list option \<Rightarrow> int \<Rightarrow> opt_origin \<Rightarrow> hash_value option \<Rightarrow> hash_value option" where
  "assign value ov orig e =
     (case e of
        None \<Rightarrow> map_option (\<lambda>w. \<lparr>hv_value = Some w, hv_override = ov, hv_origin = orig, hv_desc = None,
                  hv_refcount = 1\<rparr>) value
      | Some v \<Rightarrow> Some (if allowed orig ov v then v\<lparr>hv_value := value, hv_override := ov, hv_origin := orig\<rparr> else v))"

lemma set_permitted_total: "orig \<noteq> OPT_INIT \<Longrightarrow> set_permitted orig ov old old_ov \<noteq> None"
  by (cases orig; cases old) auto

lemma upd_value_ok:
  assumes "table_ok t" "\<And>v. hv_refcount (f v) = hv_refcount v"
  shows "table_ok (upd_value a f t)"
proof -
  have "dom (hash_values (upd_value a f t)) = dom (hash_values t)" by (auto simp: upd_value_def)
  moreover have "values_ok (upd_value a f t)"
    unfolding values_ok_def
  proof (intro conjI ballI allI impI)
    fix b v assume b: "hash_values (upd_value a f t) b = Some v"
    then obtain w where "hash_values t b = Some w" "hv_refcount v = hv_refcount w"
      using assms(2) by (auto simp: upd_value_def split: if_splits)
    moreover have "b < next_value t \<and> 0 < hv_refcount w \<and> hv_refcount w = refs b (nodes t)"
      using assms(1) calculation(1) unfolding table_ok_def values_ok_def by blast
    ultimately show "b < next_value (upd_value a f t)" "0 < hv_refcount v"
      "hv_refcount v = refs b (nodes (upd_value a f t))"
      by (simp_all add: upd_value_def nodes_def)
  next
    fix n assume "n \<in> set (nodes (upd_value a f t))"
    then have "n \<in> set (nodes t)" by (simp add: upd_value_def nodes_def)
    then obtain b w where "hn_value n = Some b" "hash_values t b = Some w"
      using assms(1) unfolding table_ok_def values_ok_def by (metis not_None_eq)
    then show "\<exists>a'. hn_value n = Some a' \<and> hash_values (upd_value a f t) a' \<noteq> None"
      by (auto simp: upd_value_def)
  qed
  ultimately show ?thesis
    using assms(1) by (simp add: table_ok_def books_ok_def nodes_def upd_value_def)
qed

lemma Option_change_node_ok:
  assumes "hn_value n = Some a" "hash_values t a = Some v" "orig \<noteq> OPT_INIT"
  shows "Option_change_node n value ov orig t = Some (n, if allowed orig ov v
    then upd_value a (\<lambda>v. v\<lparr>hv_value := value, hv_override := ov, hv_origin := orig\<rparr>) t else t)"
  using assms set_permitted_total [OF assms(3), of ov "hv_origin v" "hv_override v"]
  by (auto simp: Option_change_node_def allowed_def split: option.splits)

lemma update_hd:
  assumes "i < length A"
  shows "set (concat (A[i := x # A ! i])) = insert x (set (concat A))"
    "refs a (concat (A[i := x # A ! i])) = refs a [x] + refs a (concat A)"
    "length (concat (A[i := x # A ! i])) = Suc (length (concat A))"
proof -
  have A: "A = take i A @ A ! i # drop (Suc i) A" by (rule id_take_nth_drop [OF assms])
  have B: "A[i := x # A ! i] = take i A @ (x # A ! i) # drop (Suc i) A"
    using assms by (simp add: upd_conv_take_nth_drop)
  show "set (concat (A[i := x # A ! i])) = insert x (set (concat A))" unfolding B by (subst (3) A) auto
  show "refs a (concat (A[i := x # A ! i])) = refs a [x] + refs a (concat A)" unfolding B
    using arg_cong [OF A, of "\<lambda>A. refs a (concat A)"] by simp
  show "length (concat (A[i := x # A ! i])) = Suc (length (concat A))" unfolding B
    using arg_cong [OF A, of "\<lambda>A. length (concat A)"] by simp
qed

text \<open>A node with a name that is not in the table enters its chain.\<close>

lemma push_ok:
  assumes "table_ok t" "no_nul (hn_name n)" "\<forall>m \<in> set (nodes t). key (hn_name m) \<noteq> key (hn_name n)"
  shows "chains_ok (Option_hash_array (push_node n t))"
    "set (nodes (push_node n t)) = insert n (set (nodes t))"
    "refs a (nodes (push_node n t)) = (if hn_value n = Some a then 1 else 0) + refs a (nodes t)"
    "length (nodes (push_node n t)) = Suc (length (nodes t))"
proof -
  let ?i = "Option_hash_string (hn_name n)"
  have i: "?i < length (Option_hash_array t)" using assms(1) by (simp add: table_ok_def chains_ok_def HASH_SIZE_def)
  note push = update_hd [OF i, where x = n, folded nodes_def]
  show "set (nodes (push_node n t)) = insert n (set (nodes t))"
    "refs a (nodes (push_node n t)) = (if hn_value n = Some a then 1 else 0) + refs a (nodes t)"
    "length (nodes (push_node n t)) = Suc (length (nodes t))"
    using push by (simp_all add: nodes_def push_node_def Let_def)
  have "\<forall>m \<in> set (Option_hash_array t ! ?i). key (hn_name m) \<noteq> key (hn_name n)"
    using chain_ok(2) [OF assms(1,2)] assms(3) by blast
  then show "chains_ok (Option_hash_array (push_node n t))"
    using assms(1,2) i by (auto simp: table_ok_def chains_ok_def push_node_def Let_def nth_list_update)
qed

lemma Option_set_value_new:
  assumes "find_node name (Option_hash_array t ! Option_hash_string name) = None"
  shows "Option_set_value name (Some w) ov orig t = Some (push_node \<lparr>hn_name = name, hn_value = Some (next_value t)\<rparr>
    (t\<lparr>hash_values := (hash_values t)(next_value t \<mapsto>
           \<lparr>hv_value = Some w, hv_override = ov, hv_origin = orig, hv_desc = None, hv_refcount = 1\<rparr>),
       next_value := next_value t + 1, hash_nodes_allocated := hash_nodes_allocated t + 1,
       hash_values_allocated := hash_values_allocated t + 1\<rparr>))"
  using assms
  by (cases t) (simp add: Option_set_value_def Option_allocate_value_def Option_allocate_node_def upd_value_def)

text \<open>A new node for a value record that counts it.\<close>

lemma push_table_ok:
  assumes "table_ok t" "no_nul (hn_name n)" "\<forall>m \<in> set (nodes t). key (hn_name m) \<noteq> key (hn_name n)"
    "hn_value n = Some a" "hash_values t1 a \<noteq> None" "Option_hash_array t1 = Option_hash_array t"
    "\<And>b. hash_values t b \<noteq> None \<Longrightarrow> hash_values t1 b \<noteq> None"
    "\<And>b v. hash_values t1 b = Some v \<Longrightarrow> b < next_value t1 \<and> hv_refcount v = (if b = a then 1 else 0) + refs b (nodes t) \<and>
        0 < hv_refcount v"
    "hash_nodes_allocated t1 = hash_nodes_allocated t + 1" "hash_nodes_freed t1 = hash_nodes_freed t"
    "finite (dom (hash_values t1))"
    "hash_values_allocated t1 - hash_values_freed t1 = int (card (dom (hash_values t1)))"
  shows "table_ok (push_node n t1)"
    "no_nul m \<Longrightarrow> slot (push_node n t1) m = (if key m = key (hn_name n) then Some a else slot t m)"
    "hash_values (push_node n t1) = hash_values t1"
proof -
  have arr: "push_node n t1 = t1\<lparr>Option_hash_array := Option_hash_array (push_node n t)\<rparr>"
    by (simp add: push_node_def Let_def assms(6))
  then have nds: "nodes (push_node n t1) = nodes (push_node n t)" by (simp add: nodes_def)
  note push = push_ok [OF assms(1-3)]
  show "hash_values (push_node n t1) = hash_values t1" by (simp add: arr)
  show ok: "table_ok (push_node n t1)"
    unfolding table_ok_def
  proof (intro conjI)
    show "chains_ok (Option_hash_array (push_node n t1))" using push(1) by (simp add: arr)
    show "values_ok (push_node n t1)"
      unfolding values_ok_def nds push(2,3)
    proof (intro conjI ballI allI impI)
      fix m assume "m \<in> insert n (set (nodes t))"
      then consider "m = n" | b where "hn_value m = Some b" "hash_values t b \<noteq> None"
        using assms(1) unfolding table_ok_def values_ok_def by blast
      then show "\<exists>b. hn_value m = Some b \<and> hash_values (push_node n t1) b \<noteq> None"
        unfolding arr using assms(4,5,7) by cases auto
    next
      fix b w assume "hash_values (push_node n t1) b = Some w"
      then have "hash_values t1 b = Some w" by (simp add: arr)
      from assms(8) [OF this] show "b < next_value (push_node n t1)" "0 < hv_refcount w"
        "hv_refcount w = (if hn_value n = Some b then 1 else 0) + refs b (nodes t)"
        unfolding arr by (auto simp: assms(4))
    qed
    show "books_ok (push_node n t1)"
      using assms(1,9-12) push(4) unfolding books_ok_def nds unfolding arr
      by (simp add: table_ok_def books_ok_def)
  qed
  show "slot (push_node n t1) m = (if key m = key (hn_name n) then Some a else slot t m)" if m: "no_nul m"
  proof -
    have "slot (push_node n t1) m = Some b \<longleftrightarrow> (if key m = key (hn_name n) then b = a else slot t m = Some b)" for b
      using assms(3,4) unfolding slot_iff [OF ok m] slot_iff [OF assms(1) m] nds push(2) by auto
    then show ?thesis by (metis not_None_eq option.inject)
  qed
qed

lemma below_next:
  assumes "table_ok t"
  shows "hash_values t a = Some v \<Longrightarrow> a < next_value t" "hash_values t (next_value t) = None"
    "refs (next_value t) (nodes t) = 0" "slot t m = Some a \<Longrightarrow> no_nul m \<Longrightarrow> a < next_value t"
proof -
  show below: "hash_values t a = Some v \<Longrightarrow> a < next_value t" for a v
    using assms unfolding table_ok_def values_ok_def by blast
  then show "hash_values t (next_value t) = None" by (cases "hash_values t (next_value t)") blast+
  have used: "hn_value n = Some a \<Longrightarrow> n \<in> set (nodes t) \<Longrightarrow> a < next_value t" for n a
    using assms below unfolding table_ok_def values_ok_def by fastforce
  then show "refs (next_value t) (nodes t) = 0" unfolding refs_def by (auto simp: filter_empty_conv)
  show "slot t m = Some a \<Longrightarrow> no_nul m \<Longrightarrow> a < next_value t" using slot_iff [OF assms] used by blast
qed

lemma set_new_ok:
  assumes "table_ok t" "no_nul name" "\<forall>n \<in> set (nodes t). key (hn_name n) \<noteq> key name" "hv_refcount v = 1"
  defines "t' \<equiv> push_node \<lparr>hn_name = name, hn_value = Some (next_value t)\<rparr>
    (t\<lparr>hash_values := (hash_values t)(next_value t \<mapsto> v), next_value := next_value t + 1,
       hash_nodes_allocated := hash_nodes_allocated t + 1, hash_values_allocated := hash_values_allocated t + 1\<rparr>)"
  shows "table_ok t'" "no_nul m \<Longrightarrow> slot t' m = (if key m = key name then Some (next_value t) else slot t m)"
    "hash_values t' = (hash_values t)(next_value t \<mapsto> v)"
proof -
  let ?t1 = "t\<lparr>hash_values := (hash_values t)(next_value t \<mapsto> v), next_value := next_value t + 1,
       hash_nodes_allocated := hash_nodes_allocated t + 1, hash_values_allocated := hash_values_allocated t + 1\<rparr>"
  have vals: "b < next_value ?t1 \<and> hv_refcount w = (if b = next_value t then 1 else 0) + refs b (nodes t) \<and> 0 < hv_refcount w"
    if "hash_values ?t1 b = Some w" for b w
  proof (cases "b = next_value t")
    case True
    then show ?thesis using that below_next(3) [OF assms(1)] assms(4) by simp
  next
    case False
    then have "hash_values t b = Some w" using that by simp
    then show ?thesis using False assms(1) unfolding table_ok_def values_ok_def by fastforce
  qed
  have books: "finite (dom (hash_values ?t1))"
    "hash_values_allocated ?t1 - hash_values_freed ?t1 = int (card (dom (hash_values ?t1)))"
    using assms(1) below_next(2) [OF assms(1)] by (simp_all add: table_ok_def books_ok_def domIff)
  have flat: "hash_values ?t1 (next_value t) \<noteq> None" "\<And>b. hash_values t b \<noteq> None \<Longrightarrow> hash_values ?t1 b \<noteq> None"
    and rest: "Option_hash_array ?t1 = Option_hash_array t" "hash_nodes_allocated ?t1 = hash_nodes_allocated t + 1"
      "hash_nodes_freed ?t1 = hash_nodes_freed t"
    by auto
  show "table_ok t'"
    unfolding t'_def
    by (rule push_table_ok(1) [OF assms(1) _ _ _ flat(1) rest(1) flat(2) vals rest(2,3) books]) (use assms(2,3) in simp_all)
  show "slot t' m = (if key m = key name then Some (next_value t) else slot t m)" if "no_nul m"
    using push_table_ok(2) [OF assms(1) _ _ _ flat(1) rest(1) flat(2) vals rest(2,3) books that,
        of "\<lparr>hn_name = name, hn_value = Some (next_value t)\<rparr>"] assms(2,3)
    unfolding t'_def by simp
  show "hash_values t' = (hash_values t)(next_value t \<mapsto> v)" by (simp add: t'_def push_node_def Let_def)
qed

text \<open>A second name for a value record.\<close>

lemma alias_ok:
  assumes "table_ok t" "no_nul name" "\<forall>n \<in> set (nodes t). key (hn_name n) \<noteq> key name" "hash_values t a = Some v"
  defines "t' \<equiv> push_node \<lparr>hn_name = name, hn_value = Some a\<rparr>
    ((upd_value a (\<lambda>v. v\<lparr>hv_refcount := hv_refcount v + 1\<rparr>) t)\<lparr>hash_nodes_allocated := hash_nodes_allocated t + 1\<rparr>)"
  shows "table_ok t'" "no_nul m \<Longrightarrow> slot t' m = (if key m = key name then Some a else slot t m)"
    "hash_values t' = (hash_values t)(a \<mapsto> v\<lparr>hv_refcount := hv_refcount v + 1\<rparr>)"
proof -
  let ?t1 = "(upd_value a (\<lambda>v. v\<lparr>hv_refcount := hv_refcount v + 1\<rparr>) t)\<lparr>hash_nodes_allocated := hash_nodes_allocated t + 1\<rparr>"
  have hv: "hash_values ?t1 = (hash_values t)(a \<mapsto> v\<lparr>hv_refcount := hv_refcount v + 1\<rparr>)"
    using assms(4) by (simp add: upd_value_def)
  have vals: "b < next_value ?t1 \<and> hv_refcount w = (if b = a then 1 else 0) + refs b (nodes t) \<and> 0 < hv_refcount w"
    if w: "hash_values ?t1 b = Some w" for b w
  proof -
    obtain u where u: "hash_values t b = Some u" "hv_refcount w = (if b = a then 1 else 0) + hv_refcount u"
      using w assms(4) unfolding hv by (cases "b = a") auto
    have "b < next_value t \<and> 0 < hv_refcount u \<and> hv_refcount u = refs b (nodes t)"
      using assms(1) u(1) unfolding table_ok_def values_ok_def by blast
    with u(2) refs_simps(4) [of b "nodes t"] show ?thesis by (auto simp: upd_value_def)
  qed
  have "dom (hash_values ?t1) = dom (hash_values t)" using assms(4) unfolding hv by auto
  then have books: "finite (dom (hash_values ?t1))"
    "hash_values_allocated ?t1 - hash_values_freed ?t1 = int (card (dom (hash_values ?t1)))"
    using assms(1) by (simp_all add: table_ok_def books_ok_def) (simp add: upd_value_def)
  have flat: "hash_values ?t1 a \<noteq> None" "\<And>b. hash_values t b \<noteq> None \<Longrightarrow> hash_values ?t1 b \<noteq> None"
    unfolding hv by auto
  have rest: "Option_hash_array ?t1 = Option_hash_array t" "hash_nodes_allocated ?t1 = hash_nodes_allocated t + 1"
    "hash_nodes_freed ?t1 = hash_nodes_freed t"
    by (simp_all add: upd_value_def)
  show "table_ok t'"
    unfolding t'_def
    by (rule push_table_ok(1) [OF assms(1) _ _ _ flat(1) rest(1) flat(2) vals rest(2,3) books]) (use assms(2,3) in simp_all)
  show "slot t' m = (if key m = key name then Some a else slot t m)" if "no_nul m"
    using push_table_ok(2) [OF assms(1) _ _ _ flat(1) rest(1) flat(2) vals rest(2,3) books that,
        of "\<lparr>hn_name = name, hn_value = Some a\<rparr>"] assms(2,3)
    unfolding t'_def by simp
  show "hash_values t' = (hash_values t)(a \<mapsto> v\<lparr>hv_refcount := hv_refcount v + 1\<rparr>)"
    unfolding t'_def hv [symmetric] by (simp add: push_node_def Let_def)
qed

text \<open>The effect of an assignment on what every name stands for.\<close>

definition set_effect ::
  "opt_table \<Rightarrow> byte list \<Rightarrow> byte list option \<Rightarrow> int \<Rightarrow> opt_origin \<Rightarrow> opt_table \<Rightarrow> bool" where
  "set_effect t name w ov orig t' \<longleftrightarrow>
     (\<forall>m. no_nul m \<longrightarrow>
       entry t' m = (if key m = key name \<or> slot t m \<noteq> None \<and> slot t m = slot t name
                     then assign w ov orig (entry t name) else entry t m) \<and>
       (slot t m \<noteq> None \<longrightarrow> slot t' m = slot t m) \<and>
       (\<forall>k. no_nul k \<and> slot t k \<noteq> None \<longrightarrow> (slot t' m = slot t k \<longleftrightarrow> slot t m = slot t k)))"

lemma Option_set_value_absent:
  assumes "table_ok t" "no_nul name" "slot t name = None"
  shows "\<exists>t'. Option_set_value name value ov orig t = Some t' \<and> table_ok t' \<and> set_effect t name value ov orig t'"
proof (cases rule: slot_cases [OF assms(1,2), case_names found absent])
  case absent
  show ?thesis
  proof (cases "value")
    case None
    have "entry t m = None" if "key m = key name" "no_nul m" for m
      using that absent(2) slot_iff [OF assms(1) that(2)] by (cases "slot t m") (auto simp: entry_def)
    then show ?thesis
      using assms(1) absent None by (intro exI [of _ t]) (auto simp: Option_set_value_def assign_def set_effect_def)
  next
    case (Some w)
    let ?v = "\<lparr>hv_value = Some w, hv_override = ov, hv_origin = orig, hv_desc = None, hv_refcount = 1\<rparr>"
    note run = Option_set_value_new [OF absent(1), of w ov orig]
    note new = set_new_ok [OF assms(1,2) absent(2), of ?v, simplified]
    define t' where "t' = push_node \<lparr>hn_name = name, hn_value = Some (next_value t)\<rparr>
       (t\<lparr>hash_values := (hash_values t)(next_value t \<mapsto> ?v), next_value := Suc (next_value t),
         hash_nodes_allocated := hash_nodes_allocated t + 1, hash_values_allocated := hash_values_allocated t + 1\<rparr>)"
    have vals: "hash_values t' = (hash_values t)(next_value t \<mapsto> ?v)" by (simp add: t'_def push_node_def Let_def)
    have gone: "slot t m = None" if "key m = key name" "no_nul m" for m
      using that absent(2) slot_iff [OF assms(1) that(2)] by (cases "slot t m") auto
    have unused: "slot t k \<noteq> Some (next_value t)" if "no_nul k" for k
      using below_next(4) [OF assms(1) _ that, of "next_value t"] by auto
    have "entry t' m = (if key m = key name then Some ?v else entry t m)" if m: "no_nul m" for m
      using new(2) [OF m, folded t'_def] below_next(4) [OF assms(1) _ m] vals
      by (cases "slot t m") (auto simp: entry_def)
    then show ?thesis
      using run new(1,2) gone absent(3,4) Some unused
      by (intro exI [of _ t']) (auto simp: t'_def [symmetric] assign_def set_effect_def)
  qed
qed (use assms(3) in simp)

lemma Option_set_value_ok:
  assumes "table_ok t" "no_nul name" "orig \<noteq> OPT_INIT"
  shows "\<exists>t'. Option_set_value name value ov orig t = Some t' \<and> table_ok t' \<and>
    set_effect t name value ov orig t'"
proof (cases rule: slot_cases [OF assms(1,2), case_names found absent])
  case (found k n a v)
  define f where "f = (\<lambda>v :: hash_value. v\<lparr>hv_value := value, hv_override := ov, hv_origin := orig\<rparr>)"
  let ?t = "if allowed orig ov v then upd_value a f t else t"
  have arr: "Option_hash_array (upd_value a f t) = Option_hash_array t" by (simp add: upd_value_def)
  have same: "(Option_hash_array t)[Option_hash_string name :=
      (Option_hash_array t ! Option_hash_string name)[k := n]] = Option_hash_array t"
    by (simp add: found(3))
  have "Option_set_value name value ov orig t = Some ?t"
    unfolding Option_set_value_def Let_def found(1) option.case found(3) [symmetric]
      Option_change_node_ok [OF found(6,7) assms(3)] bind.bind_lunit prod.case f_def [symmetric]
    by (simp add: arr same)
  moreover have "table_ok (upd_value a f t)" by (rule upd_value_ok [OF assms(1)]) (simp add: f_def)
  moreover have slots: "slot (upd_value a f t) m = slot t m" for m
    by (simp add: slot_def Get_hash_node_by_name_def arr)
  moreover have "entry (upd_value a f t) m = (if slot t m = Some a then Some (f v) else entry t m)" for m
    using found(7) unfolding entry_def slots by (auto simp: upd_value_def split: Option.bind_splits)
  moreover have "key m = key name \<Longrightarrow> no_nul m \<Longrightarrow> slot t m = Some a" for m
    using found(4-6) slot_iff [OF assms(1), of m] by auto
  moreover have "entry t m = Some v" if "slot t m = Some a" for m using that found(7) by (simp add: entry_def)
  ultimately show ?thesis
    using assms(1) found(8,9) by (intro exI [of _ ?t]) (auto simp: assign_def f_def set_effect_def)
next
  case absent
  then show ?thesis using Option_set_value_absent [OF assms(1,2), of "value" ov orig] unfolding set_effect_def by simp
qed

text \<open>Also for the origin that is no source: it may enter a new name, but changes nothing.\<close>

lemma Option_set_value_effect:
  assumes "table_ok t" "no_nul name" "Option_set_value name w ov orig t = Some t'"
  shows "table_ok t' \<and> set_effect t name w ov orig t'"
proof (cases "orig = OPT_INIT")
  case False
  then show ?thesis using Option_set_value_ok [OF assms(1,2) False, of w ov] assms(3) by simp
next
  case init: True
  show ?thesis
  proof (cases rule: slot_cases [OF assms(1,2), case_names found absent])
    case (found k n a v)
    have f: "\<not> has_bit x 0" for x by (simp add: has_bit_def)
    have same: "(Option_hash_array t)[Option_hash_string name :=
        (Option_hash_array t ! Option_hash_string name)[k := n]] = Option_hash_array t"
      by (simp add: found(3))
    have "Option_change_node n w ov OPT_INIT t = Some (n, t) \<or> Option_change_node n w ov OPT_INIT t = None"
      using found(6,7) by (auto simp: Option_change_node_def f split: option.splits)
    then have "t' = t"
      using assms(3) unfolding init Option_set_value_def Let_def found(1) option.case found(3) [symmetric]
      by (auto simp: same)
    moreover have "slot t m = Some a" if "key m = key name" "no_nul m" for m
      using that found(4-6) slot_iff [OF assms(1) that(2)] by auto
    ultimately show ?thesis
      using assms(1) found(7-9) unfolding set_effect_def init
      by (auto simp: assign_def allowed_def entry_def f)
  next
    case absent
    then show ?thesis using Option_set_value_absent [OF assms(1,2), of w ov orig] assms(3) by simp
  qed
qed

lemma hash_in_table [simp]: "Option_hash_string name < HASH_SIZE"
  by (simp add: HASH_SIZE_def)

subsection \<open>Descriptions\<close>

definition empty_table :: opt_table where
  "empty_table = \<lparr>Option_hash_array = replicate HASH_SIZE [], hash_values = Map.empty, next_value = 0,
     hash_nodes_allocated = 0, hash_nodes_freed = 0, hash_values_allocated = 0, hash_values_freed = 0\<rparr>"

lemma empty_table_nodes: "nodes empty_table = []"
  by (simp add: nodes_def empty_table_def)

lemma empty_table_ok: "table_ok empty_table" "slot empty_table m = None"
proof -
  have "chains_ok (Option_hash_array empty_table)" unfolding chains_ok_def by (simp add: empty_table_def)
  moreover have "values_ok empty_table" "books_ok empty_table"
    by (simp_all add: values_ok_def books_ok_def empty_table_nodes) (simp_all add: empty_table_def)
  ultimately show "table_ok empty_table" by (simp add: table_ok_def)
  have "Option_hash_array empty_table ! Option_hash_string m = []" by (simp add: empty_table_def)
  then show "slot empty_table m = None" by (simp add: slot_def Get_hash_node_by_name_def)
qed

definition desc_value :: "option_desc \<Rightarrow> int \<Rightarrow> hash_value" where
  "desc_value d n = \<lparr>hv_value = od_default d, hv_override = 0, hv_origin = OPT_INIT, hv_desc = Some d, hv_refcount = n\<rparr>"

lemma no_node: "table_ok t \<Longrightarrow> no_nul name \<Longrightarrow> slot t name = None \<Longrightarrow> \<forall>n \<in> set (nodes t). key (hn_name n) \<noteq> key name"
  by (erule (1) slot_cases) simp_all

lemma Option_add_node_fresh:
  assumes "table_ok t" "no_nul (hn_name n)" "slot t (hn_name n) = None" "Option_hash_array t1 = Option_hash_array t"
  shows "Option_add_node n t1 = Some (push_node n t1)"
proof -
  have "find_node (hn_name n) (Option_hash_array t ! Option_hash_string (hn_name n)) = None"
    using slot_cases [OF assms(1,2)] assms(3) by (metis option.distinct(1))
  then show ?thesis by (simp add: Option_add_node_def assms(4))
qed

text \<open>Adding a description whose names are new.\<close>

lemma Option_add_desc_ok:
  assumes "table_ok t" "no_nul (od_name d)" "no_nul (od_command d)" "slot t (od_name d) = None" "slot t (od_command d) = None"
  shows "\<exists>t' n. Option_add_desc d t = Some (True, t') \<and> table_ok t' \<and>
    (\<forall>m. no_nul m \<longrightarrow> slot t' m =
       (if key m \<in> {key (od_name d), key (od_command d)} then Some (next_value t) else slot t m)) \<and>
    hash_values t' = (hash_values t)(next_value t \<mapsto> desc_value d n)"
proof -
  let ?a = "next_value t"
  define n1 where "n1 = \<lparr>hn_name = od_name d, hn_value = Some ?a\<rparr>"
  define n2 where "n2 = \<lparr>hn_name = od_command d, hn_value = Some ?a\<rparr>"
  define t1 where "t1 = t\<lparr>hash_values := (hash_values t)(?a \<mapsto> desc_value d 1), next_value := ?a + 1,
       hash_nodes_allocated := hash_nodes_allocated t + 1, hash_values_allocated := hash_values_allocated t + 1\<rparr>"
  define t2 where "t2 = push_node n1 t1"
  note one = set_new_ok [OF assms(1,2) no_node [OF assms(1,2,4)], of "desc_value d 1", folded n1_def t1_def t2_def,
      simplified desc_value_def hash_value.simps, folded desc_value_def, OF refl]
  show ?thesis
  proof (cases "key (od_name d) = key (od_command d)")
    case True
    have "Option_add_desc d t = Some (True, t2)"
      using True assms(2,3) Option_add_node_fresh [OF assms(1), of n1 t1] assms(2,4)
      by (cases t) (simp add: Option_add_desc_def Option_allocate_value_def Option_allocate_node_def upd_value_def
          same_name_iff n1_def t1_def t2_def desc_value_def Let_def)
    then show ?thesis using one True by (intro exI [of _ t2] exI [of _ 1]) simp
  next
    case False
    define t3 where "t3 = push_node n2 ((upd_value ?a (\<lambda>v. v\<lparr>hv_refcount := hv_refcount v + 1\<rparr>) t2)
      \<lparr>hash_nodes_allocated := hash_nodes_allocated t2 + 1\<rparr>)"
    have s2: "slot t2 (od_command d) = None" using one(2) [OF assms(3)] False assms(5) by simp
    have v2: "hash_values t2 ?a = Some (desc_value d 1)" using one(3) by simp
    note two = alias_ok [OF one(1) assms(3) no_node [OF one(1) assms(3) s2] v2, folded n2_def t3_def]
    let ?u = "(upd_value ?a (\<lambda>v. v\<lparr>hv_refcount := hv_refcount v + 1\<rparr>) t1)\<lparr>hash_nodes_allocated := hash_nodes_allocated t1 + 1\<rparr>"
    have arr: "Option_hash_array ?u = Option_hash_array t" by (simp add: t1_def upd_value_def)
    have swap: "push_node n1 ?u = (upd_value ?a (\<lambda>v. v\<lparr>hv_refcount := hv_refcount v + 1\<rparr>) t2)
        \<lparr>hash_nodes_allocated := hash_nodes_allocated t2 + 1\<rparr>"
      by (cases t) (simp add: t2_def t1_def push_node_def upd_value_def Let_def)
    have "Option_add_node n1 ?u = Some (push_node n1 ?u)"
      by (rule Option_add_node_fresh [OF assms(1) _ _ arr]) (simp_all add: n1_def assms)
    moreover have "Option_add_node n2 (push_node n1 ?u) = Some t3"
      unfolding swap t3_def
      by (rule Option_add_node_fresh [OF one(1)]) (simp_all add: n2_def assms s2 upd_value_def)
    ultimately have "Option_add_desc d t = Some (True, t3)"
      using False assms(2,3)
      by (cases t) (simp add: Option_add_desc_def Option_allocate_value_def Option_allocate_node_def upd_value_def
          same_name_iff n1_def n2_def t1_def desc_value_def Let_def)
    moreover have "hash_values t3 = (hash_values t)(?a \<mapsto> desc_value d 2)"
      using two(3) one(3) by (simp add: desc_value_def t3_def)
    ultimately show ?thesis using two(1,2) one(2) by (intro exI [of _ t3] exI [of _ 2]) (simp add: t3_def)
  qed
qed

subsection \<open>Freeing everything\<close>

lemma update_tl:
  assumes "i < length A" "A ! i = x # xs"
  shows "set (concat A) = insert x (set (concat (A[i := xs])))"
    "refs a (concat A) = refs a [x] + refs a (concat (A[i := xs]))"
    "length (concat A) = Suc (length (concat (A[i := xs])))"
proof -
  have "(A[i := xs])[i := x # (A[i := xs]) ! i] = A" using assms by (metis length_list_update list_update_id
        list_update_overwrite nth_list_update_eq)
  then show "set (concat A) = insert x (set (concat (A[i := xs])))"
    "refs a (concat A) = refs a [x] + refs a (concat (A[i := xs]))"
    "length (concat A) = Suc (length (concat (A[i := xs])))"
    using update_hd [of i "A[i := xs]", where x = x] assms(1) by simp_all
qed

text \<open>Freeing the first node of a chain keeps the table consistent: its value record goes with its last node.\<close>

lemma Option_free_node_ok:
  assumes "table_ok t" "i < HASH_SIZE" "Option_hash_array t ! i = n # ns"
  shows "\<exists>t'. Option_free_node n (t\<lparr>Option_hash_array := (Option_hash_array t)[i := ns]\<rparr>) = Some t' \<and> table_ok t' \<and>
    Option_hash_array t' = (Option_hash_array t)[i := ns]"
proof -
  let ?A = "(Option_hash_array t)[i := ns]"
  let ?u = "t\<lparr>Option_hash_array := ?A\<rparr>"
  have i: "i < length (Option_hash_array t)" using assms(1,2) by (simp add: table_ok_def chains_ok_def)
  note pop = update_tl [OF i assms(3)]
  have chains: "chains_ok ?A"
    unfolding chains_ok_def
  proof (intro conjI allI impI)
    show "length ?A = HASH_SIZE" using assms(1) by (simp add: table_ok_def chains_ok_def)
    fix ix assume "ix < HASH_SIZE"
    with assms(1) have c: "distinct (map (\<lambda>n. key (hn_name n)) (Option_hash_array t ! ix)) \<and>
        (\<forall>n \<in> set (Option_hash_array t ! ix). Option_hash_string (hn_name n) = ix \<and> no_nul (hn_name n))"
      by (simp add: table_ok_def chains_ok_def)
    show "distinct (map (\<lambda>n. key (hn_name n)) (?A ! ix))"
      "\<forall>n \<in> set (?A ! ix). Option_hash_string (hn_name n) = ix \<and> no_nul (hn_name n)"
      using c assms(3) i by (cases "ix = i"; simp)+
  qed
  have "n \<in> set (nodes t)" using pop(1) by (simp add: nodes_def)
  then obtain a v where a: "hn_value n = Some a" "hash_values t a = Some v"
    using assms(1) unfolding table_ok_def values_ok_def by (metis not_None_eq)
  have vals: "b < next_value t \<and> 0 < hv_refcount w \<and> hv_refcount w = (if b = a then 1 else 0) + refs b (concat ?A)"
    if "hash_values t b = Some w" for b w
    using value_refs [OF assms(1) that] pop(2) [where a = b] a(1) by (auto simp: nodes_def)
  have books: "finite (dom (hash_values t))"
    "hash_nodes_allocated t - hash_nodes_freed t = int (Suc (length (concat ?A)))"
    "hash_values_allocated t - hash_values_freed t = int (card (dom (hash_values t)))"
    using assms(1) pop(3) by (simp_all add: table_ok_def books_ok_def nodes_def)
  have others: "\<exists>b. hn_value m = Some b \<and> hash_values t b \<noteq> None \<and> 0 < refs b (concat ?A)" if "m \<in> set (concat ?A)" for m
  proof -
    have "m \<in> set (nodes t)" using pop(1) that by (simp add: nodes_def)
    then obtain b where "hn_value m = Some b" "hash_values t b \<noteq> None"
      using assms(1) unfolding table_ok_def values_ok_def by blast
    moreover from this that have "filter (\<lambda>n. hn_value n = Some b) (concat ?A) \<noteq> []" unfolding filter_empty_conv by blast
    ultimately show ?thesis by (auto simp: refs_def)
  qed
  show ?thesis
  proof (cases "hv_refcount v = 1")
    case True
    define t' where "t' = ?u\<lparr>hash_values := (hash_values t)(a := None), hash_values_freed := hash_values_freed t + 1,
        hash_nodes_freed := hash_nodes_freed t + 1\<rparr>"
    have "Option_free_node n ?u = Some t'"
      using a True by (cases t) (simp add: Option_free_node_def Option_free_value_def t'_def)
    moreover have gone: "refs a (concat ?A) = 0" using vals [OF a(2)] True by simp
    have "values_ok t'"
      unfolding values_ok_def
    proof (intro conjI ballI allI impI)
      fix m assume "m \<in> set (nodes t')"
      then have "m \<in> set (concat ?A)" by (simp add: t'_def nodes_def)
      from others [OF this] obtain b where b: "hn_value m = Some b" "hash_values t b \<noteq> None" "0 < refs b (concat ?A)"
        by blast
      then have "b \<noteq> a" using gone by auto
      then show "\<exists>b. hn_value m = Some b \<and> hash_values t' b \<noteq> None" using b(1,2) by (auto simp: t'_def)
    next
      fix b w assume "hash_values t' b = Some w"
      then have "b \<noteq> a" "hash_values t b = Some w" by (auto simp: t'_def split: if_splits)
      with vals [OF this(2)] show "b < next_value t'" "0 < hv_refcount w" "hv_refcount w = refs b (nodes t')"
        by (simp_all add: t'_def nodes_def)
    qed
    moreover have "Suc (card (dom (hash_values t) - {a})) = card (dom (hash_values t))"
      using books(1) a(2) by (intro card_Suc_Diff1) auto
    then have "books_ok t'" using books by (auto simp: books_ok_def nodes_def t'_def)
    ultimately show ?thesis using chains by (auto simp: table_ok_def t'_def)
  next
    case False
    define t' where "t' = upd_value a (\<lambda>v. v\<lparr>hv_refcount := hv_refcount v - 1\<rparr>) ?u\<lparr>hash_nodes_freed := hash_nodes_freed t + 1\<rparr>"
    have rc: "0 < hv_refcount v" using vals [OF a(2)] by simp
    then have run: "Option_free_node n ?u = Some t'"
      using a False by (cases t) (simp add: Option_free_node_def Option_free_value_def t'_def upd_value_def)
    have hv: "hash_values t' = (hash_values t)(a \<mapsto> v\<lparr>hv_refcount := hv_refcount v - 1\<rparr>)"
      using a(2) by (simp add: t'_def upd_value_def)
    then have "dom (hash_values t') = dom (hash_values t)" using a(2) by auto
    then have "books_ok t'" using books by (simp add: books_ok_def nodes_def) (simp add: t'_def upd_value_def)
    moreover have "values_ok t'"
      unfolding values_ok_def
    proof (intro conjI ballI allI impI)
      fix m assume "m \<in> set (nodes t')"
      then have "m \<in> set (concat ?A)" by (simp add: t'_def nodes_def upd_value_def)
      from others [OF this] show "\<exists>b. hn_value m = Some b \<and> hash_values t' b \<noteq> None"
        unfolding hv by auto
    next
      fix b w assume "hash_values t' b = Some w"
      then consider "b = a" "w = v\<lparr>hv_refcount := hv_refcount v - 1\<rparr>" | "b \<noteq> a" "hash_values t b = Some w"
        unfolding hv by (auto split: if_splits)
      then show "b < next_value t'" "0 < hv_refcount w" "hv_refcount w = refs b (nodes t')"
        using vals [OF a(2)] vals [of b w] rc False by (cases; simp add: t'_def nodes_def upd_value_def)+
    qed
    ultimately show ?thesis using chains run by (auto simp: table_ok_def t'_def upd_value_def)
  qed
qed

lemma free_nodes_ok:
  assumes "table_ok t" "i < HASH_SIZE" "Option_hash_array t ! i = ns"
  shows "\<exists>t'. free_nodes i ns t = Some t' \<and> table_ok t' \<and> Option_hash_array t' = (Option_hash_array t)[i := []]"
  using assms
proof (induction ns arbitrary: t)
  case Nil
  then show ?case by (metis free_nodes.simps(1) list_update_id)
next
  case (Cons n ns)
  from Option_free_node_ok [OF Cons.prems] obtain t1 where
    t1: "Option_free_node n (t\<lparr>Option_hash_array := (Option_hash_array t)[i := ns]\<rparr>) = Some t1" "table_ok t1"
    "Option_hash_array t1 = (Option_hash_array t)[i := ns]" by blast
  moreover have "Option_hash_array t1 ! i = ns"
    using Cons.prems(1,2) t1(3) by (simp add: table_ok_def chains_ok_def)
  ultimately show ?case using Cons.IH [OF t1(2) Cons.prems(2)] by auto
qed

lemma free_chains_ok:
  assumes "table_ok t" "i + k = HASH_SIZE" "\<forall>j < i. Option_hash_array t ! j = []"
  shows "\<exists>t'. free_chains k i t = Some t' \<and> table_ok t' \<and> (\<forall>j < HASH_SIZE. Option_hash_array t' ! j = [])"
  using assms
proof (induction k arbitrary: i t)
  case (Suc k)
  have i: "i < HASH_SIZE" using Suc.prems(2) by simp
  from free_nodes_ok [OF Suc.prems(1) i refl] obtain t1 where
    t1: "free_nodes i (Option_hash_array t ! i) t = Some t1" "table_ok t1"
    "Option_hash_array t1 = (Option_hash_array t)[i := []]" by blast
  have "\<forall>j < Suc i. Option_hash_array t1 ! j = []"
    using Suc.prems(1,3) i by (auto simp: t1(3) nth_list_update table_ok_def chains_ok_def less_Suc_eq)
  with t1 Suc.IH [of t1 "Suc i"] Suc.prems(2) show ?case by simp
qed simp

text \<open>C28. The database leaks nothing: after any sequence of additions and changes that keeps the table consistent,
  freeing it releases every node once and every value record with its last node, so that the two balances that
  \<open>Options_hash_free\<close> reports are zero and no value record is left.\<close>

theorem Options_hash_free_complete:
  assumes "table_ok t"
  shows "\<exists>t'. Options_hash_free t = Some (0, 0, t') \<and> hash_values t' = Map.empty \<and> nodes t' = []"
proof -
  obtain t' where t': "free_chains HASH_SIZE 0 t = Some t'" "table_ok t'" "\<forall>j < HASH_SIZE. Option_hash_array t' ! j = []"
    using free_chains_ok [of t 0 HASH_SIZE] assms by auto
  then have n: "nodes t' = []"
    by (auto simp: nodes_def table_ok_def chains_ok_def in_set_conv_nth)
  then have v: "hash_values t' = Map.empty"
    using t'(2) by (auto simp: table_ok_def values_ok_def fun_eq_iff) (metis less_irrefl option.exhaust)
  show ?thesis using t'(1,2) n v by (simp add: Options_hash_free_def table_ok_def books_ok_def)
qed

subsection \<open>Which value wins\<close>

text \<open>An assignment: the name, the value, the override flag and the origin.\<close>

type_synonym assignment = "byte list \<times> byte list option \<times> int \<times> opt_origin"

fun set_values :: "assignment list \<Rightarrow> opt_table \<Rightarrow> opt_table option" where
  "set_values [] t = Some t"
| "set_values ((name, w, ov, orig) # ws) t = do { t1 \<leftarrow> Option_set_value name w ov orig t; set_values ws t1 }"

text \<open>The strength of an assignment. Among the strongest the first wins where a value with the override flag
  must not be replaced by its own source, and the last wins otherwise.\<close>

fun strength :: "opt_origin \<Rightarrow> int \<Rightarrow> nat" where
  "strength OPT_INIT ov = 0"
| "strength OPT_DEFAULTS ov = (if ov = 0 then 1 else 4)"
| "strength OPT_MAP ov = (if ov = 0 then 2 else 3)"
| "strength OPT_PASSWORD ov = (if ov = 0 then 5 else 6)"
| "strength OPT_COMMAND ov = 7"

definition sticky :: "nat \<Rightarrow> bool" where
  "sticky r \<longleftrightarrow> r \<in> {3, 4, 6}"

definition winner :: "assignment list \<Rightarrow> assignment option" where
  "winner ws =
     (if ws = [] then None
      else (let r = Max (set (map (\<lambda>(_, _, ov, orig). strength orig ov) ws));
                best = filter (\<lambda>(_, _, ov, orig). strength orig ov = r) ws
            in Some (if sticky r then hd best else last best)))"

lemma set_permitted_strength:
  assumes "orig \<noteq> OPT_INIT"
  shows "set_permitted orig ov old old_ov =
    Some (strength old old_ov < strength orig ov \<or> strength orig ov = strength old old_ov \<and> \<not> sticky (strength old old_ov))"
  using assms by (cases orig; cases old) (auto simp: sticky_def)

lemma winner_snoc:
  assumes "winner ws = Some (n, w, ov, orig)"
  shows "winner (ws @ [(n', w', ov', orig')]) =
    Some (if strength orig ov < strength orig' ov' \<or> strength orig' ov' = strength orig ov \<and> \<not> sticky (strength orig ov)
          then (n', w', ov', orig') else (n, w, ov, orig))"
proof -
  define f where "f = (\<lambda>(_ :: byte list, _ :: byte list option, ov, orig). strength orig ov)"
  let ?x = "(n', w', ov', orig')"
  let ?r = "Max (set (map f ws))"
  let ?best = "filter (\<lambda>x. f x = ?r) ws"
  have ne: "ws \<noteq> []" using assms by (auto simp: winner_def)
  then have max: "Max (set (map f (ws @ [?x]))) = max ?r (f ?x)" by (simp add: max.commute)
  have "?r \<in> set (map f ws)" using ne by (intro Max_in) auto
  then have best: "?best \<noteq> []" by (auto simp: filter_empty_conv)
  have "winner ws = Some (if sticky ?r then hd ?best else last ?best)"
    using ne by (simp add: winner_def Let_def f_def case_prod_beta')
  then have win: "(n, w, ov, orig) = (if sticky ?r then hd ?best else last ?best)"
    using assms by simp
  have "hd ?best \<in> set ?best" "last ?best \<in> set ?best" by (rule hd_in_set [OF best], rule last_in_set [OF best])
  then have "(n, w, ov, orig) \<in> set ?best" unfolding win by (cases "sticky ?r") (simp_all only: if_True if_False)
  then have r: "strength orig ov = ?r" by (auto simp: f_def)
  have above: "filter (\<lambda>x. f x = f ?x) ws = []" if "?r < f ?x"
  proof -
    have "f y \<noteq> f ?x" if y: "y \<in> set ws" for y
    proof -
      have "f y \<le> ?r" using y by simp
      with \<open>?r < f ?x\<close> show ?thesis by simp
    qed
    then show ?thesis by (simp add: filter_empty_conv)
  qed
  have "winner (ws @ [?x]) = Some (let r = max ?r (f ?x); b = filter (\<lambda>x. f x = r) (ws @ [?x])
      in if sticky r then hd b else last b)"
    unfolding max [symmetric] by (simp add: winner_def Let_def f_def case_prod_beta')
  also have "\<dots> = Some (if ?r < f ?x \<or> f ?x = ?r \<and> \<not> sticky ?r then ?x else (n, w, ov, orig))"
  proof -
    consider "?r < f ?x" | "f ?x = ?r" | "f ?x < ?r" by linarith
    then show ?thesis
    proof cases
      case 1
      then show ?thesis using above by (simp add: max_def Let_def)
    next
      case 2
      then show ?thesis using best win by (auto simp: Let_def)
    next
      case 3
      then show ?thesis using best win by (simp add: Let_def max_def)
    qed
  qed
  finally show ?thesis by (simp add: r f_def)
qed

lemma set_values_append:
  "set_values (ws @ vs) t = do { t1 \<leftarrow> set_values ws t; set_values vs t1 }"
proof (induction ws arbitrary: t)
  case (Cons x ws)
  obtain n w ov orig where "x = (n, w, ov, orig)" by (cases x)
  then show ?case using Cons.IH by (cases "Option_set_value n w ov orig t") simp_all
qed simp

text \<open>An option known to the program keeps its description.\<close>

lemma assign_desc: "assign w ov orig (Some v) = Some v' \<Longrightarrow> hv_desc v' = hv_desc v"
  by (auto simp: assign_def split: if_splits)

definition valid_assignment :: "assignment \<Rightarrow> bool" where
  "valid_assignment = (\<lambda>(name, _, _, orig). no_nul name \<and> orig \<noteq> OPT_INIT)"

text \<open>The assignments of a sequence that concern an option: by one of its names, from a source its description
  allows.\<close>

definition concerns :: "opt_table \<Rightarrow> byte list \<Rightarrow> option_desc \<Rightarrow> assignment \<Rightarrow> bool" where
  "concerns t m d = (\<lambda>(name, _, _, orig). slot t name = slot t m \<and> has_bit (od_flags d) (origin_flag orig))"

lemma set_values_winner:
  assumes "table_ok t" "no_nul m" "entry t m = Some v0" "hv_origin v0 = OPT_INIT" "hv_desc v0 = Some d"
    "\<forall>a \<in> set ws. valid_assignment a"
  shows "\<exists>t' v. set_values ws t = Some t' \<and> table_ok t' \<and> entry t' m = Some v \<and> hv_desc v = Some d \<and>
    (\<forall>k. no_nul k \<longrightarrow> (slot t k \<noteq> None \<longrightarrow> slot t' k = slot t k) \<and> (slot t' k = slot t m \<longleftrightarrow> slot t k = slot t m)) \<and>
    (case winner (filter (concerns t m d) ws) of
       None \<Rightarrow> hv_value v = hv_value v0 \<and> hv_origin v = OPT_INIT
     | Some (_, w, ov, orig) \<Rightarrow> hv_value v = w \<and> hv_override v = ov \<and> hv_origin v = orig)"
  using assms(6)
proof (induction ws rule: rev_induct)
  case Nil
  then show ?case using assms by (simp add: winner_def)
next
  case (snoc x ws)
  obtain n w ov orig where x: "x = (n, w, ov, orig)" by (cases x)
  have n: "no_nul n" "orig \<noteq> OPT_INIT" using snoc.prems by (auto simp: x valid_assignment_def)
  from snoc obtain t1 v1 where t1: "set_values ws t = Some t1" "table_ok t1" "entry t1 m = Some v1" "hv_desc v1 = Some d"
    and slots: "\<And>k. no_nul k \<Longrightarrow> (slot t k \<noteq> None \<longrightarrow> slot t1 k = slot t k) \<and> (slot t1 k = slot t m \<longleftrightarrow> slot t k = slot t m)"
    and win: "case winner (filter (concerns t m d) ws) of
       None \<Rightarrow> hv_value v1 = hv_value v0 \<and> hv_origin v1 = OPT_INIT
     | Some (_, w, ov, orig) \<Rightarrow> hv_value v1 = w \<and> hv_override v1 = ov \<and> hv_origin v1 = orig"
    by auto
  have sm: "slot t m \<noteq> None" "slot t1 m = slot t m" using assms(2,3) slots [of m] by (auto simp: entry_def split: Option.bind_splits)
  obtain t2 where t2: "Option_set_value n w ov orig t1 = Some t2" "table_ok t2"
    and ent: "\<And>k. no_nul k \<Longrightarrow>
       entry t2 k = (if key k = key n \<or> slot t1 k \<noteq> None \<and> slot t1 k = slot t1 n
                     then assign w ov orig (entry t1 n) else entry t1 k) \<and>
       (slot t1 k \<noteq> None \<longrightarrow> slot t2 k = slot t1 k) \<and>
       (\<forall>j. no_nul j \<and> slot t1 j \<noteq> None \<longrightarrow> (slot t2 k = slot t1 j \<longleftrightarrow> slot t1 k = slot t1 j))"
    using Option_set_value_ok [OF t1(2) n, of w ov] unfolding set_effect_def by blast
  have slots2: "(slot t k \<noteq> None \<longrightarrow> slot t2 k = slot t k) \<and> (slot t2 k = slot t m \<longleftrightarrow> slot t k = slot t m)" if "no_nul k" for k
    using ent [OF that] slots [OF that] sm assms(2) by metis
  have same: "key m = key n \<or> slot t1 m = slot t1 n \<longleftrightarrow> slot t n = slot t m"
    using slots [OF n(1)] sm slot_iff [OF t1(2) n(1)] slot_iff [OF t1(2) assms(2)] by (cases "slot t m") auto
  have e: "entry t1 n = Some v1" if "slot t n = slot t m"
    using that slots [OF n(1)] sm t1(3) by (simp add: entry_def)
  have v2: "entry t2 m = (if slot t n = slot t m then assign w ov orig (Some v1) else Some v1)"
    using ent [OF assms(2)] same sm e t1(3) by auto
  define v2 where "v2 = (if concerns t m d x \<and> set_permitted orig ov (hv_origin v1) (hv_override v1) = Some True
      then v1\<lparr>hv_value := w, hv_override := ov, hv_origin := orig\<rparr> else v1)"
  have ent2: "entry t2 m = Some v2"
    unfolding v2 by (auto simp: v2_def assign_def allowed_def t1(4) concerns_def x)
  have "case winner (filter (concerns t m d) (ws @ [x])) of
       None \<Rightarrow> hv_value v2 = hv_value v0 \<and> hv_origin v2 = OPT_INIT
     | Some (_, w, ov, orig) \<Rightarrow> hv_value v2 = w \<and> hv_override v2 = ov \<and> hv_origin v2 = orig"
  proof (cases "concerns t m d x")
    case False
    then have "v2 = v1" by (simp add: v2_def)
    then show ?thesis using win False unfolding \<open>v2 = v1\<close> by simp
  next
    case c: True
    show ?thesis
    proof (cases "winner (filter (concerns t m d) ws)")
      case None
      then have "filter (concerns t m d) ws = []" by (auto simp: winner_def Let_def split: if_splits)
      then show ?thesis using None win c set_permitted_strength [OF n(2), of ov OPT_INIT "hv_override v1"] n(2)
        by (cases orig) (auto simp: v2_def winner_def x Let_def)
    next
      case (Some y)
      obtain n' w' ov' orig' where y: "y = (n', w', ov', orig')" by (cases y)
      show ?thesis
        using win c winner_snoc [OF Some [unfolded y], of n w ov orig] set_permitted_strength [OF n(2), of ov orig' ov']
        by (auto simp: v2_def x Some y)
    qed
  qed
  then show ?case
    using t1(1,4) t2 ent2 slots2 by (intro exI [of _ t2] exI [of _ v2]) (auto simp: set_values_append x v2_def)
qed

lemma Option_get_value_entry:
  assumes "table_ok t" "no_nul m"
  shows "Option_get_value m t = Some (case entry t m of None \<Rightarrow> (None, None) | Some v \<Rightarrow> (hv_value v, Some (hv_origin v)))"
proof (cases rule: slot_cases [OF assms, case_names found absent])
  case (found k n a v)
  have "Get_hash_node_by_name m t = Some n"
    unfolding Get_hash_node_by_name_def Let_def found(1) by (simp only: option.map found(3))
  then show ?thesis unfolding Option_get_value_def found(9) by (simp add: found(6,7))
next
  case absent
  have "Get_hash_node_by_name m t = None"
    unfolding Get_hash_node_by_name_def Let_def absent(1) by simp
  then show ?thesis by (simp add: Option_get_value_def absent(4))
qed

subsection \<open>Properties\<close>

text \<open>C15. The hash table with its shared value records behaves like a store of options: setting a name, in any
  spelling of its letters, changes what is read under all the names of that option and under no
  other name, in the way of \<open>assign\<close>: a fresh entry, the replacement the rules permit, or nothing.\<close>

theorem option_table_refines_store:
  assumes "table_ok t" "no_nul name" "orig \<noteq> OPT_INIT"
  shows "\<exists>t'. Option_set_value name w ov orig t = Some t' \<and> table_ok t' \<and>
    (\<forall>m. no_nul m \<longrightarrow> Option_get_value m t' =
       Some (case (if key m = key name \<or> slot t m \<noteq> None \<and> slot t m = slot t name
                   then assign w ov orig (entry t name) else entry t m)
             of None \<Rightarrow> (None, None) | Some v \<Rightarrow> (hv_value v, Some (hv_origin v))))"
proof -
  obtain t' where t': "Option_set_value name w ov orig t = Some t'" "table_ok t'"
    and ent: "\<And>m. no_nul m \<Longrightarrow> entry t' m = (if key m = key name \<or> slot t m \<noteq> None \<and> slot t m = slot t name
                     then assign w ov orig (entry t name) else entry t m)"
    using Option_set_value_ok [OF assms, of w ov] unfolding set_effect_def by blast
  show ?thesis
    by (intro exI [of _ t'] conjI t' allI impI)
      (simp only: Option_get_value_entry [OF t'(2)] ent)
qed

text \<open>C16. What an option is after the whole configuration has been read is decided by one strongest assignment,
  whatever the order of the sources: the command line, then the password file, then a defaults file with
  the override flag, then the map, then the defaults file. Among equals the last wins, or the first if it
  has the override flag. Assignments from a source the option does not admit, or to other options, count
  nothing, and with none at all the option keeps its default.\<close>

theorem options_precedence:
  assumes "table_ok t" "no_nul m" "entry t m = Some v0" "hv_origin v0 = OPT_INIT" "hv_desc v0 = Some d"
    "\<forall>a \<in> set ws. valid_assignment a"
  shows "\<exists>t'. set_values ws t = Some t' \<and> Option_get_value m t' =
    Some (case winner (filter (concerns t m d) ws) of
            None \<Rightarrow> (hv_value v0, Some OPT_INIT) | Some (_, w, _, orig) \<Rightarrow> (w, Some orig))"
proof -
  from set_values_winner [OF assms] obtain t' v where t': "set_values ws t = Some t'" "table_ok t'" "entry t' m = Some v"
    and win: "case winner (filter (concerns t m d) ws) of
       None \<Rightarrow> hv_value v = hv_value v0 \<and> hv_origin v = OPT_INIT
     | Some (_, w, ov, orig) \<Rightarrow> hv_value v = w \<and> hv_override v = ov \<and> hv_origin v = orig" by blast
  show ?thesis
    using t' win Option_get_value_entry [OF t'(2) assms(2)]
    by (intro exI [of _ t']) (auto split: option.splits prod.splits)
qed

text \<open>An option with two names in a fresh table.\<close>

definition demo_desc :: option_desc where
  "demo_desc = \<lparr>od_name = [109, 97, 112], od_command = [77], od_default = Some [49], od_variable = Some 0,
     od_type = valInt, od_tunable = False, od_flags = OPT_ORIGIN_ANY\<rparr>"

lemma demo_keys [simp]:
  "lower 109 = 109" "lower 97 = 97" "lower 112 = 112" "lower 77 = 109" "lower 65 = 97" "lower 120 = 120"
  by code_simp+

lemma demo_table: "\<exists>t k. Option_add_desc demo_desc empty_table = Some (True, t) \<and> table_ok t \<and>
  (\<forall>m. no_nul m \<longrightarrow> slot t m = (if key m \<in> {[109, 97, 112], [109]} then Some 0 else None) \<and>
     entry t m = (if key m \<in> {[109, 97, 112], [109]} then Some (desc_value demo_desc k) else None))"
proof -
  have n: "no_nul [109, 97, 112]" "no_nul [77]" by (simp_all add: no_nul_def)
  obtain t k where t: "Option_add_desc demo_desc empty_table = Some (True, t)" "table_ok t"
    "\<forall>m. no_nul m \<longrightarrow> slot t m = (if key m \<in> {key [109, 97, 112], key [77]} then Some 0 else None)"
    "hash_values t = (hash_values empty_table)(0 \<mapsto> desc_value demo_desc k)"
    using Option_add_desc_ok [OF empty_table_ok(1), of demo_desc] n empty_table_ok(2)
    by (auto simp: demo_desc_def empty_table_def)
  then show ?thesis by (intro exI [of _ t] exI [of _ k]) (auto simp: entry_def key_def)
qed

lemma demo_allowed: "orig \<noteq> OPT_INIT \<Longrightarrow> orig \<noteq> OPT_PASSWORD \<Longrightarrow> allowed orig ov (desc_value demo_desc k)"
  "has_bit (od_flags demo_desc) (origin_flag OPT_MAP)" "has_bit (od_flags demo_desc) (origin_flag OPT_DEFAULTS)"
  by (cases orig; simp add: allowed_def desc_value_def demo_desc_def has_bit_def OPT_ORIGIN_ANY_def)
    (simp_all add: demo_desc_def has_bit_def OPT_ORIGIN_ANY_def)

theorem Options_hash_free_complete_witness:
  "\<exists>t t'. Option_add_desc demo_desc empty_table = Some (True, t) \<and> Options_hash_free t = Some (0, 0, t')"
  using Options_hash_free_complete demo_table by metis

theorem option_table_refines_store_witness:
  "\<exists>t t'. Option_add_desc demo_desc empty_table = Some (True, t) \<and>
     Option_set_value [109] (Some [50]) 0 OPT_MAP t = Some t' \<and>
     Option_get_value [109, 65, 112] t' = Some (Some [50], Some OPT_MAP)"
proof -
  obtain t k where t: "Option_add_desc demo_desc empty_table = Some (True, t)" "table_ok t"
    "\<forall>m. no_nul m \<longrightarrow> slot t m = (if key m \<in> {[109, 97, 112], [109]} then Some 0 else None) \<and>
     entry t m = (if key m \<in> {[109, 97, 112], [109]} then Some (desc_value demo_desc k) else None)"
    using demo_table by blast
  have n: "no_nul [109, 65, 112]" "no_nul [109]" by (simp_all add: no_nul_def)
  obtain t' where t': "Option_set_value [109] (Some [50]) 0 OPT_MAP t = Some t'"
    "\<forall>m. no_nul m \<longrightarrow> Option_get_value m t' =
       Some (case (if key m = key [109] \<or> slot t m \<noteq> None \<and> slot t m = slot t [109]
                   then assign (Some [50]) 0 OPT_MAP (entry t [109]) else entry t m)
             of None \<Rightarrow> (None, None) | Some v \<Rightarrow> (hv_value v, Some (hv_origin v)))"
    using option_table_refines_store [OF t(2) n(2), of OPT_MAP "Some [50]" 0] by auto
  then show ?thesis
    using t(1,3) n t'(2) [rule_format, OF n(1)] demo_allowed(1) [of OPT_MAP 0 k]
    by (auto simp: assign_def key_def)
qed

theorem options_precedence_witness:
  "\<exists>t t'. Option_add_desc demo_desc empty_table = Some (True, t) \<and>
     set_values [([77], Some [50], 1, OPT_DEFAULTS), ([109, 97, 112], Some [51], 1, OPT_MAP), ([120], Some [52], 0, OPT_COMMAND)] t
       = Some t' \<and>
     Option_get_value [109, 65, 112] t' = Some (Some [50], Some OPT_DEFAULTS)"
proof -
  let ?ws = "[([77], Some [50], 1, OPT_DEFAULTS), ([109, 97, 112], Some [51], 1, OPT_MAP), ([120], Some [52], 0, OPT_COMMAND)]"
  obtain t k where t: "Option_add_desc demo_desc empty_table = Some (True, t)" "table_ok t"
    "\<forall>m. no_nul m \<longrightarrow> slot t m = (if key m \<in> {[109, 97, 112], [109]} then Some 0 else None) \<and>
     entry t m = (if key m \<in> {[109, 97, 112], [109]} then Some (desc_value demo_desc k) else None)"
    using demo_table by blast
  have n: "no_nul [109, 65, 112]" "no_nul [109, 97, 112]" "no_nul [77]" "no_nul [120]" by (simp_all add: no_nul_def)
  have e: "entry t [109, 65, 112] = Some (desc_value demo_desc k)" using t(3) n(1) by (simp add: key_def)
  have "filter (concerns t [109, 65, 112] demo_desc) ?ws = [([77], Some [50], 1, OPT_DEFAULTS), ([109, 97, 112], Some [51], 1, OPT_MAP)]"
    using t(3) n demo_allowed(2,3) by (simp add: concerns_def key_def)
  then have "winner (filter (concerns t [109, 65, 112] demo_desc) ?ws) = Some ([77], Some [50], 1, OPT_DEFAULTS)"
    by (simp add: winner_def Let_def)
  then show ?thesis
    using options_precedence [OF t(2) n(1) e, of demo_desc ?ws] t(1) n
    by (auto simp: desc_value_def valid_assignment_def)
qed

end
