(* ===== verification/File_Parser.thy ===== *)
theory File_Parser
  imports Options Check_Names
begin

text \<open>
  The parser of defaults, password and map files (\<open>server/fileparser.c\<close>).

  The text is a block of bytes that ends with a NUL; the parser's pointer is the rest of the block, so
  that reading behind the block is \<open>None\<close>. Line numbers, used in messages only, are left out. The texts of
  the options are values: an expansion reads the text its option had when the expansion began.
\<close>

subsection \<open>Characters\<close>

definition is_alpha :: "byte \<Rightarrow> bool" where
  "is_alpha c \<longleftrightarrow> (65 \<le> c \<and> c \<le> 90) \<or> (97 \<le> c \<and> c \<le> 122)"

definition is_digit :: "byte \<Rightarrow> bool" where
  "is_digit c \<longleftrightarrow> 48 \<le> c \<and> c \<le> 57"

fun toeol :: "byte list \<Rightarrow> byte list option" where
  "toeol [] = None"
| "toeol (c # s) = (if c = 0 then Some (c # s) else if c = 10 then Some s else toeol s)"

text \<open>The character that stopped the search and the pointer; at the end of the text the pointer stays.\<close>

fun skipspace :: "byte list \<Rightarrow> (byte \<times> byte list) option" where
  "skipspace [] = None"
| "skipspace (c # s) =
     (if c = 0 then Some (0, c # s) else if c = 10 then Some (10, s)
      else if \<not> isspace c then Some (c, s) else skipspace s)"

text \<open>\<open>getMultilineValue\<close>: the finished lines, the present line, and the text. The delimiter's line is dropped; at the
  end of the text the pointer is behind the NUL.\<close>

fun get_multiline :: "byte list \<Rightarrow> byte list \<Rightarrow> byte list \<Rightarrow> byte list \<Rightarrow> (byte list \<times> byte list) option" where
  "get_multiline delim ls line [] = None"
| "get_multiline delim ls line (c # s) =
     (if c = 0 then Some (ls @ line, s)
      else if c = 10 then
        (if line = delim then Some (ls, s) else get_multiline delim (ls @ line @ [10]) [] s)
      else get_multiline delim ls (line @ [c]) s)"

definition getMultilineValue :: "byte list \<Rightarrow> byte list \<Rightarrow> (byte list \<times> byte list) option" where
  "getMultilineValue delim s = get_multiline delim [] [] s"

text \<open>The loop that collects a name up to the colon, without white space; \<open>Inl\<close> is the return because there is
  no colon.\<close>

fun scan_name :: "byte list \<Rightarrow> byte list \<Rightarrow> (byte list + byte list \<times> byte list) option" where
  "scan_name acc [] = None"
| "scan_name acc (c # s) =
     (if c = 10 \<or> c = 0 then Some (Inl s)
      else if c = 35 then map_option Inl (toeol s)
      else if isspace c then scan_name acc s
      else if c = 58 then Some (Inr (acc, s))
      else scan_name (acc @ [c]) s)"

text \<open>The loop that collects a value: it stores a character before it looks at the next one.\<close>

fun scan_value :: "byte list \<Rightarrow> byte list \<Rightarrow> (byte list \<times> byte list) option" where
  "scan_value acc [] = None"
| "scan_value acc (c # s) =
     (if c = 0 \<or> c = 10 then Some (acc, s)
      else if c = 35 then do { s' \<leftarrow> toeol s; Some (acc, s') }
      else scan_value (acc @ [c]) s)"

fun skip_white :: "byte list \<Rightarrow> byte list option" where
  "skip_white [] = None"
| "skip_white (c # s) = (if c \<noteq> 0 \<and> isspace c then skip_white s else Some (c # s))"

text \<open>\<open>strncmp(value, prefix, length) == 0\<close> for a prefix without NUL, and the pointer behind it.\<close>

fun strip_prefix :: "byte list \<Rightarrow> byte list \<Rightarrow> byte list option option" where
  "strip_prefix [] s = Some (Some s)"
| "strip_prefix (p # ps) [] = None"
| "strip_prefix (p # ps) (c # s) = (if c = p then strip_prefix ps s else Some None)"

definition bytes :: "string \<Rightarrow> byte list" where
  "bytes s = map (\<lambda>c. of_nat (of_char c)) s"

definition trim_end :: "byte list \<Rightarrow> byte list" where
  "trim_end s = rev (dropWhile isspace (rev s))"

text \<open>The block of a value: the text is cut behind its last character that is no white space.\<close>

definition value_block :: "byte list \<Rightarrow> byte list" where
  "value_block acc = (acc @ [0])[length (trim_end (cstr (acc @ [0]))) := 0]"

text \<open>\<open>define\<close>: the first word of the value becomes the name; the bytes behind the word and its terminator are
  the value. Bytes of the block that were never written are not there.\<close>

fun first_word :: "byte list \<Rightarrow> (byte list \<times> byte list) option" where
  "first_word [] = None"
| "first_word (c # s) =
     (if c \<noteq> 0 \<and> c < 128 \<and> \<not> isspace c then do { (w, r) \<leftarrow> first_word s; Some (c # w, r) } else Some ([], s))"

subsection \<open>One line\<close>

text \<open>The text behind the colon, for a name: the name and value that are set, with the override flag, if there are any,
  and the pointer.\<close>

definition parse_value ::
  "byte list \<Rightarrow> byte list \<Rightarrow> ((byte list \<times> byte list \<times> int) option \<times> byte list) option" where
  "parse_value name0 s =
     do { (c, s1) \<leftarrow> skipspace s;
          (acc, s2) \<leftarrow> scan_value [c] s1;
          let block = value_block acc;
          (name, v) \<leftarrow> (if name0 = bytes ''define''
             then do { (w, r) \<leftarrow> first_word block; r' \<leftarrow> skip_white r; Some (w, r') }
             else Some (name0, block));
          o1 \<leftarrow> strip_prefix (bytes (CHR 0x5C # ''override:'')) v;
          v1 \<leftarrow> skip_white (case o1 of None \<Rightarrow> v | Some r \<Rightarrow> r);
          o2 \<leftarrow> strip_prefix (bytes (CHR 0x5C # ''multiline:'')) v1;
          v2 \<leftarrow> skip_white (case o2 of None \<Rightarrow> v1 | Some r \<Rightarrow> r);
          let ov = (if o1 = None then 0 else 1);
          if cstr v2 = [] then Some (None, s2)
          else if o2 \<noteq> None then do { (m, s3) \<leftarrow> getMultilineValue (cstr v2) s2; Some (Some (name, m, ov), s3) }
          else Some (Some (name, cstr v2, ov), s2) }"

text \<open>The start of a line: the rest of the text when nothing is set, or the name and the text behind its colon.\<close>

definition parse_name :: "byte list \<Rightarrow> (byte list + byte list \<times> byte list) option" where
  "parse_name s =
     (case s of
        [] \<Rightarrow> None
      | c # s1 \<Rightarrow>
          if c = 10 then Some (Inl s1)
          else do {
            (d, s2) \<leftarrow> (if isspace c then skipspace s1 else Some (c, s1));
            if isspace c \<and> d = 10 then Some (Inl s2)
            else if d = 35 then map_option Inl (toeol s2)
            else if d = 0 then Some (Inl s2)
            else if \<not> is_alpha d then map_option Inl (toeol s2)
            else scan_name [d] s2 })"

definition parseLine ::
  "(byte list \<Rightarrow> opt_table \<Rightarrow> opt_table option) \<Rightarrow> opt_origin \<Rightarrow> byte list \<Rightarrow> opt_table \<Rightarrow> (byte list \<times> opt_table) option" where
  "parseLine expand orig s t =
     do { start \<leftarrow> parse_name s;
          (case start of
             Inl s1 \<Rightarrow> Some (s1, t)
           | Inr (name0, s1) \<Rightarrow> do {
               (found, s2) \<leftarrow> parse_value name0 s1;
               (case found of
                  None \<Rightarrow> Some (s2, t)
                | Some (name, v, ov) \<Rightarrow> do {
                    t1 \<leftarrow> (if name = bytes ''expand'' then expand v t
                            else Option_set_value name (Some v) ov orig t);
                    Some (s2, t1) }) }) }"

lemma toeol_shorter: "toeol s = Some r \<Longrightarrow> length r \<le> length s"
  by (induction s) (auto split: if_splits)

lemma skipspace_shorter: "skipspace s = Some (c, r) \<Longrightarrow> length r \<le> length s"
  by (induction s) (auto split: if_splits)

lemma get_multiline_shorter: "get_multiline delim ls line s = Some (v, r) \<Longrightarrow> length r < length s"
  by (induction delim ls line s rule: get_multiline.induct) (auto split: if_splits)

lemma scan_value_shorter: "scan_value acc s = Some (v, r) \<Longrightarrow> length r < length s"
  by (induction acc s rule: scan_value.induct) (auto split: if_splits elim!: bind_SomeE dest: toeol_shorter)

lemma scan_name_shorter:
  "scan_name acc s = Some (Inl r) \<Longrightarrow> length r < length s"
  "scan_name acc s = Some (Inr (n, r)) \<Longrightarrow> length r < length s"
  by (induction acc s rule: scan_name.induct) (auto split: if_splits dest: toeol_shorter)

lemma parse_value_shorter: "parse_value name0 s = Some (v, r) \<Longrightarrow> length r < length s"
  by (auto simp: parse_value_def Let_def getMultilineValue_def elim!: bind_SomeE split: if_splits
      dest!: get_multiline_shorter scan_value_shorter skipspace_shorter)

lemma parse_name_shorter:
  "parse_name s = Some (Inl r) \<Longrightarrow> length r < length s" "parse_name s = Some (Inr (n, r)) \<Longrightarrow> length r < length s"
  by (auto simp: parse_name_def elim!: bind_SomeE split: if_splits list.splits
      dest!: scan_name_shorter toeol_shorter skipspace_shorter)

lemma parseLine_shorter: "parseLine expand orig s t = Some (r, t') \<Longrightarrow> length r < length s"
  by (auto simp: parseLine_def elim!: bind_SomeE split: sum.splits option.splits
      dest!: parse_value_shorter parse_name_shorter)

text \<open>\<open>while ( *map_ptr) parseLine(&map_ptr, ...)\<close>.\<close>

function parse_lines ::
  "(byte list \<Rightarrow> opt_table \<Rightarrow> opt_table option) \<Rightarrow> opt_origin \<Rightarrow> byte list \<Rightarrow> opt_table \<Rightarrow> opt_table option" where
  "parse_lines expand orig s t =
     (case s of
        [] \<Rightarrow> None
      | c # _ \<Rightarrow>
          if c = 0 then Some t
          else do { (r, t1) \<leftarrow> parseLine expand orig s t; parse_lines expand orig r t1 })"
  by pat_completeness auto
termination
  by (relation "measure (\<lambda>(_, _, s, _). length s)") (auto dest: parseLine_shorter)

declare parse_lines.simps [simp del]

text \<open>\<open>expandKeyword\<close>; a text may expand further options, and \<open>depth\<close> is the room on the stack for nested
  expansions.\<close>

fun expandKeyword :: "nat \<Rightarrow> byte list \<Rightarrow> opt_table \<Rightarrow> opt_table option" where
  "expandKeyword 0 keyword t = None"
| "expandKeyword (Suc depth) keyword t =
     do { (p, orig) \<leftarrow> Option_get_value keyword t;
          (case p of
             None \<Rightarrow> Some t
           | Some text \<Rightarrow> do { og \<leftarrow> orig; parse_lines (expandKeyword depth) og (text @ [0]) t }) }"

subsection \<open>Files\<close>

text \<open>What the file system holds: the bytes \<open>read\<close> returns for a file that can be opened (\<open>None\<close> inside when reading
  fails), whether \<open>access\<close> finds it readable, and the output of the decompression command.\<close>

record files =
  fs_open :: "byte list \<Rightarrow> byte list option option"
  fs_access :: "byte list \<Rightarrow> bool"
  fs_zcat :: "byte list \<Rightarrow> byte list option option"

record config =
  conf_zcat_ext :: "byte list"
  conf_mapdir :: "byte list"
  conf_default_map :: "byte list"
  conf_defaults_file :: "byte list"
  conf_password_file :: "byte list"
  conf_motd_file :: "byte list"
  conf_robot_file :: "byte list"

definition ends_with :: "byte list \<Rightarrow> byte list \<Rightarrow> bool" where
  "ends_with s e \<longleftrightarrow> drop (length s - length e) s = e"

text \<open>The last three characters are compared with the four of \<open>.map\<close>.\<close>

definition hasMapExtension :: "byte list \<Rightarrow> bool" where
  "hasMapExtension f \<longleftrightarrow> 3 < length f \<and> drop (length f - 3) f = bytes ''.xp'' \<or>
     4 < length f \<and> drop (length f - 3) f = bytes ''.map''"

definition hasDirectoryPrefix :: "byte list \<Rightarrow> bool" where
  "hasDirectoryPrefix f \<longleftrightarrow> 47 \<in> set f"

definition fileJoin :: "byte list \<Rightarrow> byte list \<Rightarrow> byte list" where
  "fileJoin dir file = dir @ [47] @ file"

definition fileAddExtension :: "byte list \<Rightarrow> byte list \<Rightarrow> byte list" where
  "fileAddExtension file ext = file @ ext"

definition isCompressed :: "config \<Rightarrow> byte list \<Rightarrow> bool" where
  "isCompressed C f \<longleftrightarrow> length (conf_zcat_ext C) < length f \<and> ends_with f (conf_zcat_ext C)"

definition openCompressedFile :: "config \<Rightarrow> files \<Rightarrow> byte list \<Rightarrow> byte list option option" where
  "openCompressedFile C F f =
     (if \<not> isCompressed C f \<and> fs_access F f then fs_open F f
      else (let g = (if isCompressed C f then f else fileAddExtension f (conf_zcat_ext C))
            in if fs_access F g then fs_zcat F g else None))"

definition or_else :: "'a option \<Rightarrow> 'a option \<Rightarrow> 'a option" where
  "or_else a b = (case a of Some x \<Rightarrow> Some x | None \<Rightarrow> b)"

function openMapFile :: "config \<Rightarrow> files \<Rightarrow> byte list \<Rightarrow> byte list option option" where
  "openMapFile C F f =
     or_else (openCompressedFile C F f)
       (or_else (if \<not> isCompressed C f \<and> \<not> hasMapExtension f
                 then or_else (openCompressedFile C F (fileAddExtension f (bytes ''.xp'')))
                        (openCompressedFile C F (fileAddExtension f (bytes ''.map'')))
                 else None)
          (if \<not> hasDirectoryPrefix f
           then (if hasDirectoryPrefix (fileJoin (conf_mapdir C) f) then openMapFile C F (fileJoin (conf_mapdir C) f)
                 else None)
           else None))"
  by pat_completeness auto
termination
  by (relation "measure (\<lambda>(_, _, f). if hasDirectoryPrefix f then 0 else 1)") auto

declare openMapFile.simps [simp del]

text \<open>\<open>parseOpenFile\<close> on what was read.\<close>

definition parseOpenFile :: "nat \<Rightarrow> opt_origin \<Rightarrow> byte list option \<Rightarrow> opt_table \<Rightarrow> (bool \<times> opt_table) option" where
  "parseOpenFile depth orig content t =
     (case content of
        None \<Rightarrow> Some (False, t)
      | Some d \<Rightarrow>
          if is_digit (hd (d @ [0])) then Some (False, t)
          else do { t1 \<leftarrow> parse_lines (expandKeyword depth) orig (d @ [0]) t; Some (True, t1) })"

text \<open>The three callers return true for every file that can be opened.\<close>

definition parse_opened :: "nat \<Rightarrow> opt_origin \<Rightarrow> byte list option option \<Rightarrow> opt_table \<Rightarrow> (bool \<times> opt_table) option" where
  "parse_opened depth orig file t =
     (case file of
        None \<Rightarrow> Some (False, t)
      | Some content \<Rightarrow> do { (result, t1) \<leftarrow> parseOpenFile depth orig content t; Some (True, t1) })"

definition parseDefaultsFile :: "nat \<Rightarrow> files \<Rightarrow> byte list \<Rightarrow> opt_table \<Rightarrow> (bool \<times> opt_table) option" where
  "parseDefaultsFile depth F f t = parse_opened depth OPT_DEFAULTS (fs_open F f) t"

definition parsePasswordFile :: "nat \<Rightarrow> files \<Rightarrow> byte list \<Rightarrow> opt_table \<Rightarrow> (bool \<times> opt_table) option" where
  "parsePasswordFile depth F f t = parse_opened depth OPT_PASSWORD (fs_open F f) t"

definition parseMapFile :: "nat \<Rightarrow> config \<Rightarrow> files \<Rightarrow> byte list \<Rightarrow> opt_table \<Rightarrow> (bool \<times> opt_table) option" where
  "parseMapFile depth C F f t = parse_opened depth OPT_MAP (openMapFile C F f) t"

subsection \<open>Start-up\<close>








text \<open>The map file: none is read when the map data is there, or when the name is \<open>wild\<close>.\<close>

definition read_map :: "nat \<Rightarrow> config \<Rightarrow> files \<Rightarrow> opt_table \<Rightarrow> opt_table option" where
  "read_map depth C F t =
     do { (mapdata, _) \<leftarrow> Option_get_value (bytes ''mapData'') t;
          if mapdata \<noteq> None then Some t
          else do {
            (fname, _) \<leftarrow> Option_get_value (bytes ''mapFileName'') t;
            (case fname of
               None \<Rightarrow> map_option snd (parseMapFile depth C F (conf_default_map C) t)
             | Some f \<Rightarrow>
                 if same_name f (bytes ''wild'') then Some t
                 else do {
                   (found, t1) \<leftarrow> parseMapFile depth C F f t;
                   if found then Some t1 else map_option snd (parseMapFile depth C F (conf_default_map C) t1) }) } }"

text \<open>The files in their order.\<close>

definition read_files :: "nat \<Rightarrow> config \<Rightarrow> files \<Rightarrow> opt_table \<Rightarrow> opt_table option" where
  "read_files depth C F t =
     do { (dname, _) \<leftarrow> Option_get_value (bytes ''defaultsFileName'') t;
          (_, t1) \<leftarrow> parseDefaultsFile depth F (case dname of Some f \<Rightarrow> f | None \<Rightarrow> conf_defaults_file C) t;
          (pname, _) \<leftarrow> Option_get_value (bytes ''passwordFileName'') t1;
          (_, t2) \<leftarrow> parsePasswordFile depth F (case pname of Some f \<Rightarrow> f | None \<Rightarrow> conf_password_file C) t1;
          read_map depth C F t2 }"

subsection \<open>Texts without line ends\<close>

definition plain_text :: "byte list \<Rightarrow> bool" where
  "plain_text s \<longleftrightarrow> 0 \<notin> set s \<and> 10 \<notin> set s \<and> 35 \<notin> set s"

lemma plain_text_simps [simp]: "plain_text []" "plain_text (c # s) \<longleftrightarrow> c \<noteq> 0 \<and> c \<noteq> 10 \<and> c \<noteq> 35 \<and> plain_text s"
  by (auto simp: plain_text_def)

lemma toeol_plain: "plain_text s \<Longrightarrow> toeol (s @ [0]) = Some [0]"
  by (induction s) auto

lemma skipspace_plain:
  "plain_text s \<Longrightarrow> skipspace (s @ [0]) = Some (d, r) \<Longrightarrow> \<exists>s'. plain_text s' \<and> r = s' @ [0] \<and> (d = 0 \<longrightarrow> s' = []) \<and> d \<noteq> 35"
  by (induction s) (auto split: if_splits)

lemma skipspace_newline: "plain_text s \<Longrightarrow> skipspace (s @ [0]) \<noteq> Some (10, r)"
  by (induction s) auto

lemma scan_name_plain:
  "plain_text s \<Longrightarrow> scan_name acc (s @ [0]) = Some (Inl r) \<Longrightarrow> r = []"
  "plain_text s \<Longrightarrow> scan_name acc (s @ [0]) = Some (Inr (n, r)) \<Longrightarrow> \<exists>s'. plain_text s' \<and> r = s' @ [0]"
  by (induction s arbitrary: acc) (auto split: if_splits)

lemma scan_value_plain: "plain_text s \<Longrightarrow> scan_value acc (s @ [0]) = Some (acc @ s, [])"
  by (induction s arbitrary: acc) auto

lemma parse_value_plain:
  assumes "plain_text s" "parse_value n (s @ [0]) = Some (v, r)"
  shows "r = []"
proof -
  from assms(2) obtain c s1 acc where c: "skipspace (s @ [0]) = Some (c, s1)" "scan_value [c] s1 = Some (acc, [])"
    and r: "r = [] \<or> (\<exists>d m. getMultilineValue d [] = Some (m, r))"
    using skipspace_plain [OF assms(1)] scan_value_plain
    by (auto simp: parse_value_def Let_def elim!: bind_SomeE split: if_splits) blast+
  then show ?thesis by (auto simp: getMultilineValue_def)
qed

lemma parse_name_plain:
  assumes "plain_text (c # s)" "parse_name (c # s @ [0]) = Some st"
  shows "(\<exists>r. st = Inl r \<and> (r = [0] \<or> r = [])) \<or> (\<exists>n u. st = Inr (n, u @ [0]) \<and> plain_text u)"
proof -
  from assms obtain d s2 where d: "(if isspace c then skipspace (s @ [0]) else Some (c, s @ [0])) = Some (d, s2)"
    and go: "(if isspace c \<and> d = 10 then Some (Inl s2) else if d = 35 then map_option Inl (toeol s2)
        else if d = 0 then Some (Inl s2) else if \<not> is_alpha d then map_option Inl (toeol s2) else scan_name [d] s2) = Some st"
    by (auto simp: parse_name_def elim!: bind_SomeE split: if_splits)
  from d assms(1) obtain u where u: "s2 = u @ [0]" "plain_text u" "d = 0 \<longrightarrow> u = []" "d \<noteq> 35"
    using skipspace_plain [of s d s2] by (auto split: if_splits)
  show ?thesis
  proof (cases "d = 10 \<and> isspace c")
    case True
    with d u(1) assms(1) skipspace_newline [of s] show ?thesis by auto
  next
    case False
    show ?thesis
    proof (cases "d = 0 \<or> \<not> is_alpha d")
      case True
      then show ?thesis using go False u toeol_plain [OF u(2)] by (auto split: if_splits)
    next
      case alpha: False
      then have sc: "scan_name [d] (u @ [0]) = Some st" using go False u by (auto split: if_splits)
      show ?thesis
      proof (cases st)
        case (Inl r)
        then show ?thesis using scan_name_plain(1) [OF u(2)] sc by blast
      next
        case (Inr x)
        then obtain n r where "st = Inr (n, r)" by (cases x) auto
        then show ?thesis using scan_name_plain(2) [OF u(2)] sc by blast
      qed
    qed
  qed
qed

text \<open>A text of one unfinished line, without comment, sets nothing: the parser ignores it or runs behind its end.\<close>

lemma unfinished_line:
  assumes "plain_text s" "parse_lines ex orig (s @ [0]) t = Some t'"
  shows "t' = t"
proof (cases s)
  case Nil
  then show ?thesis using assms(2) by (simp add: parse_lines.simps [of ex orig "[0]"])
next
  case (Cons c s')
  then have c: "c \<noteq> 0" and s': "plain_text s'" using assms(1) by simp_all
  from assms(2) c obtain r t1 where line: "parseLine ex orig (c # s' @ [0]) t = Some (r, t1)"
    and rest: "parse_lines ex orig r t1 = Some t'"
    by (auto simp: Cons parse_lines.simps [of ex orig "c # s' @ [0]"] elim!: bind_SomeE)
  have r: "r \<noteq> []" using rest by (auto simp: parse_lines.simps [of ex orig "[]"])
  have "r = [0] \<and> t1 = t"
  proof -
    from line obtain start where st: "parse_name (c # s' @ [0]) = Some start"
      and go: "(case start of Inl s1 \<Rightarrow> Some (s1, t)
           | Inr (name0, s1) \<Rightarrow> do {
               (found, s2) \<leftarrow> parse_value name0 s1;
               (case found of
                  None \<Rightarrow> Some (s2, t)
                | Some (name, v, ov) \<Rightarrow> do {
                    t1 \<leftarrow> (if name = bytes ''expand'' then ex v t else Option_set_value name (Some v) ov orig t);
                    Some (s2, t1) }) }) = Some (r, t1)"
      by (auto simp: parseLine_def elim!: bind_SomeE)
    have "plain_text (c # s')" using assms(1) Cons by simp
    from parse_name_plain [OF this st] consider (ended) r1 where "start = Inl r1" "r1 = [0] \<or> r1 = []"
      | (named) n u where "start = Inr (n, u @ [0])" "plain_text u" by blast
    then show ?thesis
    proof cases
      case ended
      then show ?thesis using go r by auto
    next
      case named
      have "r = []" using go parse_value_plain [OF named(2)]
        by (auto simp: named(1) elim!: bind_SomeE split: option.splits)
      then show ?thesis using r by simp
    qed
  qed
  then show ?thesis using rest by (simp add: parse_lines.simps [of ex orig "[0]"])
qed

subsection \<open>What is set\<close>

lemma no_nul_simps [simp]: "no_nul []" "no_nul (c # s) \<longleftrightarrow> c \<noteq> 0 \<and> no_nul s" "no_nul (s @ u) \<longleftrightarrow> no_nul s \<and> no_nul u"
  by (auto simp: no_nul_def)

lemma no_nul_cstr [simp]: "no_nul (cstr s)"
  by (auto simp: no_nul_def dest: cstr_nonzero)

lemma scan_name_no_nul: "scan_name acc s = Some (Inr (n, r)) \<Longrightarrow> no_nul acc \<Longrightarrow> no_nul n"
  by (induction acc s rule: scan_name.induct) (auto split: if_splits)

lemma first_word_no_nul: "first_word s = Some (w, r) \<Longrightarrow> no_nul w"
  by (induction s arbitrary: w) (auto elim!: bind_SomeE split: if_splits)

lemma get_multiline_no_nul: "get_multiline d ls line s = Some (m, r) \<Longrightarrow> no_nul ls \<Longrightarrow> no_nul line \<Longrightarrow> no_nul m"
  by (induction d ls line s rule: get_multiline.induct) (auto split: if_splits)

lemma parse_name_no_nul: "parse_name s = Some (Inr (n, r)) \<Longrightarrow> no_nul n"
  by (auto simp: parse_name_def elim!: bind_SomeE split: list.splits if_splits dest!: scan_name_no_nul)

lemma parse_value_no_nul:
  assumes "parse_value n s = Some (Some (name, v, ov), r)" "no_nul n"
  shows "no_nul name \<and> no_nul v"
proof -
  from assms(1) obtain block b where name: "name = n \<or> first_word block = Some (name, b)"
    and v: "(\<exists>u. v = cstr u) \<or> (\<exists>d u. getMultilineValue d u = Some (v, r))"
    by (auto simp: parse_value_def Let_def elim!: bind_SomeE split: if_splits) blast+
  show ?thesis
    using name v assms(2) by (auto simp: getMultilineValue_def dest: first_word_no_nul get_multiline_no_nul)
qed

text \<open>What a predicate on the table needs so that reading files keeps it: setting an option from a file keeps it, and it
  says that what came from the command line is a single line without comment.\<close>

locale table_invariant =
  fixes I :: "opt_table \<Rightarrow> bool"
  assumes set_keeps: "Option_set_value name (Some w) ov orig t = Some t' \<Longrightarrow> no_nul name \<Longrightarrow> orig \<noteq> OPT_COMMAND \<Longrightarrow>
      I t \<Longrightarrow> I t'"
    and command_text: "I t \<Longrightarrow> no_nul kw \<Longrightarrow> Option_get_value kw t = Some (Some text, Some OPT_COMMAND) \<Longrightarrow> plain_text text"
begin

lemma parseLine_keeps:
  assumes "\<And>v t t'. ex v t = Some t' \<Longrightarrow> no_nul v \<Longrightarrow> I t \<Longrightarrow> I t'" "orig \<noteq> OPT_COMMAND"
    "parseLine ex orig s t = Some (r, t')" "I t"
  shows "I t'"
proof -
  from assms(3) consider "t' = t"
    | n s1 name v ov s2 where "parse_name s = Some (Inr (n, s1))" "parse_value n s1 = Some (Some (name, v, ov), s2)"
        "(if name = bytes ''expand'' then ex v t else Option_set_value name (Some v) ov orig t) = Some t'"
    by (auto simp: parseLine_def elim!: bind_SomeE split: sum.splits option.splits)
  then show ?thesis
  proof cases
    case 2
    then have "no_nul name \<and> no_nul v" using parse_name_no_nul parse_value_no_nul by blast
    then show ?thesis using 2(3) assms(1,2,4) set_keeps by (auto split: if_splits)
  qed (use assms(4) in simp)
qed

lemma parse_lines_keeps:
  assumes "\<And>v t t'. ex v t = Some t' \<Longrightarrow> no_nul v \<Longrightarrow> I t \<Longrightarrow> I t'" "orig \<noteq> OPT_COMMAND"
    "parse_lines ex orig s t = Some t'" "I t"
  shows "I t'"
  using assms(3,4)
proof (induction "length s" arbitrary: s t rule: less_induct)
  case less
  show ?case
  proof (cases s)
    case Nil
    then show ?thesis using less.prems by (simp add: parse_lines.simps [of ex orig "[]"])
  next
    case (Cons c u)
    show ?thesis
    proof (cases "c = 0")
      case True
      then show ?thesis using less.prems by (simp add: Cons parse_lines.simps [of ex orig "0 # u"])
    next
      case False
      with less.prems(1) obtain r t1 where line: "parseLine ex orig s t = Some (r, t1)"
        and rest: "parse_lines ex orig r t1 = Some t'"
        by (auto simp: Cons parse_lines.simps [of ex orig "c # u"] elim!: bind_SomeE)
      show ?thesis
        by (rule less.hyps [OF parseLine_shorter [OF line] rest])
          (rule parseLine_keeps [OF assms(1,2) line less.prems(2)])
    qed
  qed
qed

lemma expandKeyword_keeps: "expandKeyword depth v t = Some t' \<Longrightarrow> no_nul v \<Longrightarrow> I t \<Longrightarrow> I t'"
proof (induction depth arbitrary: v t t')
  case (Suc depth)
  from Suc.prems(1) consider "t' = t"
    | tx orig where "Option_get_value v t = Some (Some tx, Some orig)"
        "parse_lines (expandKeyword depth) orig (tx @ [0]) t = Some t'"
    by (auto elim!: bind_SomeE split: option.splits)
  then show ?case
  proof cases
    case 2
    show ?thesis
    proof (cases "orig = OPT_COMMAND")
      case True
      then show ?thesis using unfinished_line [OF command_text 2(2)] Suc.prems(2,3) 2(1) by blast
    next
      case False
      show ?thesis by (rule parse_lines_keeps [OF Suc.IH False 2(2) Suc.prems(3)])
    qed
  qed (use Suc.prems(3) in simp)
qed simp

lemma parse_opened_keeps:
  assumes "parse_opened depth orig file t = Some (b, t')" "orig \<noteq> OPT_COMMAND" "I t"
  shows "I t'"
proof -
  from assms(1) consider "t' = t" | d where "parse_lines (expandKeyword depth) orig (d @ [0]) t = Some t'"
    by (auto simp: parse_opened_def parseOpenFile_def elim!: bind_SomeE split: option.splits if_splits)
  then show ?thesis
  proof cases
    case 2
    show ?thesis by (rule parse_lines_keeps [OF expandKeyword_keeps assms(2) 2 assms(3)])
  qed (use assms(3) in simp)
qed

lemma file_keeps:
  "parseDefaultsFile depth F f t = Some (b, t') \<Longrightarrow> I t \<Longrightarrow> I t'"
  "parsePasswordFile depth F f t = Some (b, t') \<Longrightarrow> I t \<Longrightarrow> I t'"
  "parseMapFile depth C F f t = Some (b, t') \<Longrightarrow> I t \<Longrightarrow> I t'"
  unfolding parseDefaultsFile_def parsePasswordFile_def parseMapFile_def
  by (erule parse_opened_keeps; simp)+

lemma read_map_keeps:
  assumes "read_map depth C F t = Some t'" "I t"
  shows "I t'"
proof -
  from assms(1) consider "t' = t" | f b where "parseMapFile depth C F f t = Some (b, t')"
    | f b t1 g c where "parseMapFile depth C F f t = Some (b, t1)" "parseMapFile depth C F g t1 = Some (c, t')"
    by (auto simp: read_map_def elim!: bind_SomeE split: option.splits if_splits)
  then show ?thesis using assms(2) by cases (blast intro: file_keeps)+
qed

lemma read_files_keeps:
  assumes "read_files depth C F t = Some t'" "I t"
  shows "I t'"
proof -
  from assms(1) obtain f b t1 g c t2 where "parseDefaultsFile depth F f t = Some (b, t1)"
    "parsePasswordFile depth F g t1 = Some (c, t2)" "read_map depth C F t2 = Some t'"
    by (auto simp: read_files_def elim!: bind_SomeE)
  then show ?thesis using assms(2) by (blast intro: file_keeps read_map_keeps)
qed

end

subsection \<open>The command line wins\<close>

definition command_table :: "opt_table \<Rightarrow> bool" where
  "command_table t \<longleftrightarrow> table_ok t \<and>
     (\<forall>m v w. no_nul m \<longrightarrow> entry t m = Some v \<longrightarrow> hv_origin v = OPT_COMMAND \<longrightarrow> hv_value v = Some w \<longrightarrow> plain_text w)"


lemma assign_origin:
  "assign w ov orig e = Some v \<Longrightarrow> hv_origin v = OPT_COMMAND \<Longrightarrow>
   (orig = OPT_COMMAND \<and> hv_value v = w) \<or> e = Some v"
  by (auto simp: assign_def split: option.splits if_splits)


lemma command_table_set:
  assumes "Option_set_value name (Some w) ov orig t = Some t'" "no_nul name" "command_table t"
    "orig = OPT_COMMAND \<longrightarrow> plain_text w"
  shows "command_table t'"
proof -
  have eff: "table_ok t'" "set_effect t name (Some w) ov orig t'"
    using Option_set_value_effect [OF _ assms(2,1)] assms(3) by (simp_all add: command_table_def)
  have old: "plain_text y" if "no_nul k" "entry t k = Some u" "hv_origin u = OPT_COMMAND" "hv_value u = Some y" for k u y
    using that assms(3) unfolding command_table_def by blast
  have "plain_text x" if h: "no_nul m" "entry t' m = Some v" "hv_origin v = OPT_COMMAND" "hv_value v = Some x" for m v x
  proof -
    have "entry t' m = assign (Some w) ov orig (entry t name) \<or> entry t' m = entry t m"
      using eff(2) h(1) unfolding set_effect_def by metis
    then consider "assign (Some w) ov orig (entry t name) = Some v" | "entry t m = Some v" using h(2) by auto
    then show ?thesis
    proof cases
      case 1
      from assign_origin [OF this h(3)] show ?thesis
      proof
        assume "orig = OPT_COMMAND \<and> hv_value v = Some w"
        then show ?thesis using assms(4) h(4) by simp
      next
        assume "entry t name = Some v"
        from old [OF assms(2) this h(3,4)] show ?thesis .
      qed
    next
      case 2
      from old [OF h(1) 2 h(3,4)] show ?thesis .
    qed
  qed
  then show ?thesis using eff(1) by (simp add: command_table_def)
qed

lemma command_table_text:
  assumes "command_table t" "no_nul kw" "Option_get_value kw t = Some (Some w, Some OPT_COMMAND)"
  shows "plain_text w"
  using assms Option_get_value_entry [of t kw] by (auto simp: command_table_def split: option.splits)



interpretation files: table_invariant command_table
  by unfold_locales (use command_table_set command_table_text in blast)+


subsection \<open>Start-up\<close>












subsection \<open>Reading back what is written\<close>

abbreviation "override_tag \<equiv> bytes (CHR 0x5C # ''override:'')"
abbreviation "multiline_tag \<equiv> bytes (CHR 0x5C # ''multiline:'')"

text \<open>A name and a value as the file format can hold them on one line.\<close>

definition line_name :: "byte list \<Rightarrow> bool" where
  "line_name n \<longleftrightarrow> n \<noteq> [] \<and> is_alpha (hd n) \<and> (\<forall>c \<in> set n. c \<notin> {0, 10, 35, 58} \<and> \<not> isspace c) \<and>
     n \<noteq> bytes ''define'' \<and> n \<noteq> bytes ''expand''"

definition line_value :: "byte list \<Rightarrow> bool" where
  "line_value v \<longleftrightarrow> v \<noteq> [] \<and> plain_text v \<and> \<not> isspace (hd v) \<and> \<not> isspace (last v) \<and>
     take (length override_tag) v \<noteq> override_tag \<and> take (length multiline_tag) v \<noteq> multiline_tag"

definition config_text :: "byte list \<times> byte list \<times> bool \<Rightarrow> byte list" where
  "config_text = (\<lambda>(n, v, ov). n @ [58, 32] @ (if ov then override_tag @ [32] else []) @ v)"

definition config_line :: "byte list \<times> byte list \<times> bool \<Rightarrow> byte list" where
  "config_line l = config_text l @ [10]"

definition line_ok :: "byte list \<times> byte list \<times> bool \<Rightarrow> bool" where
  "line_ok = (\<lambda>(n, v, ov). line_name n \<and> line_value v)"

definition line_assignment :: "opt_origin \<Rightarrow> byte list \<times> byte list \<times> bool \<Rightarrow> assignment" where
  "line_assignment orig = (\<lambda>(n, v, ov). (n, Some v, if ov then 1 else 0, orig))"

lemma tags:
  "override_tag = [92, 111, 118, 101, 114, 114, 105, 100, 101, 58]"
  "multiline_tag = [92, 109, 117, 108, 116, 105, 108, 105, 110, 101, 58]"
  "bytes ''define'' = [100, 101, 102, 105, 110, 101]" "bytes ''expand'' = [101, 120, 112, 97, 110, 100]"
  by code_simp+

lemma scan_name_ok: "\<forall>c \<in> set n. c \<notin> {0, 10, 35, 58} \<and> \<not> isspace c \<Longrightarrow> scan_name acc (n @ 58 # r) = Some (Inr (acc @ n, r))"
proof (induction n arbitrary: acc)
  case Nil
  then show ?case by (simp add: isspace_def)
qed simp

lemma parse_name_ok: "line_name n \<Longrightarrow> parse_name (n @ 58 # r) = Some (Inr (n, r))"
proof -
  assume n: "line_name n"
  then obtain c n' where c: "n = c # n'" by (cases n) (auto simp: line_name_def)
  have "\<forall>c \<in> set n'. c \<notin> {0, 10, 35, 58} \<and> \<not> isspace c" using n by (auto simp: line_name_def c)
  from scan_name_ok [OF this, of "[c]" r] show ?thesis
    using n by (auto simp: parse_name_def c line_name_def)
qed

lemma scan_value_ok: "plain_text v \<Longrightarrow> e = 0 \<or> e = 10 \<Longrightarrow> scan_value acc (v @ e # r) = Some (acc @ v, r)"
  by (induction v arbitrary: acc) auto

lemma value_block_ok:
  assumes "plain_text v" "v \<noteq> []" "\<not> isspace (last v)"
  shows "value_block v = v @ [0]"
proof -
  have "cstr (v @ [0]) = v" using assms(1) by (simp add: cstr_stop plain_text_def)
  moreover have "trim_end v = v" using assms(2,3) by (cases v rule: rev_cases) (simp_all add: trim_end_def)
  ultimately show ?thesis by (simp add: value_block_def)
qed

lemma strip_prefix_ok: "strip_prefix ps (ps @ s) = Some (Some s)"
  by (induction ps) simp_all

lemma strip_prefix_no: "0 \<notin> set ps \<Longrightarrow> take (length ps) v \<noteq> ps \<Longrightarrow> strip_prefix ps (v @ [0]) = Some None"
proof (induction ps arbitrary: v)
  case (Cons p ps)
  then show ?case by (cases v) auto
qed simp

lemma skip_white_ok: "v \<noteq> [] \<Longrightarrow> \<not> isspace (hd v) \<Longrightarrow> hd v \<noteq> 0 \<Longrightarrow> skip_white (v @ s) = Some (v @ s)"
  by (cases v) auto

lemma parse_value_ok:
  assumes "line_value v" "n \<noteq> bytes ''define''" "e = 0 \<or> e = 10"
  shows "parse_value n (32 # (if ov then override_tag @ [32] else []) @ v @ e # r) =
    Some (Some (n, v, if ov then 1 else 0), r)"
proof -
  let ?w = "(if ov then override_tag @ [32] else []) @ v"
  have v: "v \<noteq> []" "plain_text v" "\<not> isspace (hd v)" "\<not> isspace (last v)" "hd v \<noteq> 0" "hd v \<noteq> 10"
    using assms(1) by (simp_all add: line_value_def plain_text_def) (metis hd_in_set)+
  have no: "strip_prefix override_tag (v @ [0]) = Some None" "strip_prefix multiline_tag (v @ [0]) = Some None"
    using assms(1) by (auto simp: line_value_def intro!: strip_prefix_no) (simp_all add: tags)
  have w: "plain_text ?w" "?w \<noteq> []" "\<not> isspace (last ?w)" "\<not> isspace (hd ?w)" "hd ?w \<noteq> 0" "hd ?w \<noteq> 10"
    using v by (auto simp: tags isspace_def plain_text_def)
  obtain d u where du: "?w = d # u" using w(2) by (cases ?w) auto
  have skip: "skipspace (32 # ?w @ e # r) = Some (d, u @ e # r)"
    using w(4-6) by (simp add: du isspace_def)
  have "plain_text u" using w(1) by (simp add: du)
  from scan_value_ok [OF this assms(3), of "[d]" r] have scan: "scan_value [d] (u @ e # r) = Some (?w, r)"
    by (simp add: du)
  have block: "value_block ?w = ?w @ [0]" by (rule value_block_ok [OF w(1-3)])
  have one: "strip_prefix override_tag (?w @ [0]) = Some (if ov then Some (32 # v @ [0]) else None)"
    using strip_prefix_ok [of override_tag "32 # v @ [0]"] no(1) by simp
  have sp: "isspace 32" by (simp add: isspace_def)
  have white: "skip_white (32 # v @ [0]) = Some (v @ [0])" "skip_white (v @ [0]) = Some (v @ [0])"
    using skip_white_ok [OF v(1,3,5)] by (simp_all add: isspace_def)
  have str: "cstr (v @ [0]) = v" using v(2) by (simp add: cstr_stop plain_text_def)
  have "32 # (if ov then override_tag @ [32] else []) @ v @ e # r = 32 # ?w @ e # r" by simp
  then show ?thesis
    unfolding parse_value_def
    using assms(2) v(1) by (simp only: skip scan block one Let_def bind.bind_lunit prod.case if_False)
      (simp add: white no(2) str sp)
qed

lemma parseLine_ok:
  assumes "line_ok l" "e = 0 \<or> e = 10"
  shows "parseLine ex orig (config_text l @ e # r) t =
    map_option (\<lambda>t'. (r, t')) (set_values [line_assignment orig l] t)"
proof -
  obtain n v ov where l: "l = (n, v, ov)" by (cases l)
  have n: "line_name n" "n \<noteq> bytes ''define''" "n \<noteq> bytes ''expand''" and v: "line_value v"
    using assms(1) by (auto simp: l line_ok_def line_name_def)
  show ?thesis
    using parse_name_ok [OF n(1)] parse_value_ok [OF v n(2) assms(2), of ov r] n(3)
    by (cases "Option_set_value n (Some v) (if ov then 1 else 0) orig t")
      (simp_all add: parseLine_def config_text_def l line_assignment_def)
qed

lemma config_text_first: "line_ok l \<Longrightarrow> \<exists>c u. config_text l = c # u \<and> c \<noteq> 0"
  by (cases l) (auto simp: line_ok_def line_name_def config_text_def neq_Nil_conv)

lemma parse_lines_line:
  assumes "line_ok l" "e = 0 \<or> e = 10"
  shows "parse_lines ex orig (config_text l @ e # r) t = do { t1 \<leftarrow> set_values [line_assignment orig l] t; parse_lines ex orig r t1 }"
proof -
  obtain c u where c: "config_text l = c # u" "c \<noteq> 0" using config_text_first [OF assms(1)] by blast
  have "parse_lines ex orig (config_text l @ e # r) t =
      do { (r', t1) \<leftarrow> parseLine ex orig (config_text l @ e # r) t; parse_lines ex orig r' t1 }"
    using c by (subst parse_lines.simps) simp
  then show ?thesis
    unfolding parseLine_ok [OF assms] by (cases "set_values [line_assignment orig l] t") simp_all
qed

lemma parse_config_lines:
  assumes "\<forall>l \<in> set ls. line_ok l"
  shows "parse_lines ex orig (concat (map config_line ls) @ r) t =
    do { t1 \<leftarrow> set_values (map (line_assignment orig) ls) t; parse_lines ex orig r t1 }"
  using assms
proof (induction ls arbitrary: t)
  case (Cons l ls)
  have step: "parse_lines ex orig (config_text l @ 10 # (concat (map config_line ls) @ r)) t =
      do { t1 \<leftarrow> set_values [line_assignment orig l] t; parse_lines ex orig (concat (map config_line ls) @ r) t1 }"
    by (rule parse_lines_line) (use Cons.prems in auto)
  have split: "set_values (map (line_assignment orig) (l # ls)) t =
      do { t1 \<leftarrow> set_values [line_assignment orig l] t; set_values (map (line_assignment orig) ls) t1 }"
    using set_values_append [of "[line_assignment orig l]" "map (line_assignment orig) ls" t]
    by (simp only: list.map append.simps)
  have cut: "concat (map config_line (l # ls)) @ r = config_text l @ 10 # (concat (map config_line ls) @ r)"
    by (simp add: config_line_def)
  have ls: "\<forall>l \<in> set ls. line_ok l" using Cons.prems by simp
  show ?case
    unfolding cut step split by (cases "set_values [line_assignment orig l] t") (simp_all only: Cons.IH [OF ls] bind.simps)
qed simp

text \<open>C18. Writing a configuration and reading it: a file of lines \<open>name: value\<close>, with or without \<open>\override:\<close>, for any names and
  values that fit on a line, makes exactly the assignments it was written from, in their order.\<close>

theorem config_file_roundtrip:
  assumes "\<forall>l \<in> set ls. line_ok l"
  shows "parse_lines ex orig (concat (map config_line ls) @ [0]) t = set_values (map (line_assignment orig) ls) t"
proof -
  have "parse_lines ex orig [0] u = Some u" for u by (subst parse_lines.simps) simp
  then show ?thesis using parse_config_lines [OF assms, of ex orig "[0]" t]
    by (cases "set_values (map (line_assignment orig) ls) t") simp_all
qed

text \<open>C29. The same file without its last line end is never read correctly: having taken the end of the text for the end of
  the line, the parser steps over the terminating NUL and goes on reading behind the buffer.\<close>

theorem missing_line_end_overruns:
  assumes "\<forall>l \<in> set ls. line_ok l" "line_ok l"
  shows "parse_lines ex orig (concat (map config_line ls) @ config_text l @ [0]) t = None"
proof -
  have "parse_lines ex orig [] u = None" for u by (subst parse_lines.simps) simp
  then have "parse_lines ex orig (config_text l @ [0]) u = None" for u
    using parse_lines_line [OF assms(2), of 0 ex orig "[]" u] by (cases "set_values [line_assignment orig l] u") simp_all
  then show ?thesis using parse_config_lines [OF assms(1), of ex orig "config_text l @ [0]" t]
    by (cases "set_values (map (line_assignment orig) ls) t") simp_all
qed

text \<open>C30. A macro whose text expands the macro itself is expanded for ever: no stack is deep enough.\<close>

theorem self_expansion_never_returns:
  assumes "Option_get_value m t = Some (Some (bytes ''expand:'' @ 32 # m @ [10]), Some orig)" "line_value m"
  shows "expandKeyword depth m t = None"
proof (induction depth)
  case (Suc depth)
  have e: "line_name (bytes ''expand'') \<Longrightarrow> False" by (simp add: line_name_def)
  have name: "parse_name (bytes ''expand'' @ 58 # r) = Some (Inr (bytes ''expand'', r))" for r
    by (simp add: tags parse_name_def is_alpha_def isspace_def)
  have "parse_value (bytes ''expand'') (32 # m @ 10 # [0]) = Some (Some (bytes ''expand'', m, 0), [0])"
    using parse_value_ok [OF assms(2), of "bytes ''expand''" 10 False "[0]"] by (simp add: tags)
  moreover have "bytes ''expand:'' @ 32 # m @ [10] = bytes ''expand'' @ 58 # 32 # m @ [10]" by (simp add: bytes_def)
  ultimately have "parseLine (expandKeyword depth) orig (bytes ''expand:'' @ 32 # m @ 10 # [0]) t = None"
    using name [of "32 # m @ 10 # [0]"] Suc.IH by (simp add: parseLine_def)
  moreover obtain u where "bytes ''expand:'' = 101 # u" by (simp add: bytes_def)
  ultimately have "parse_lines (expandKeyword depth) orig (bytes ''expand:'' @ 32 # m @ 10 # [0]) t = None"
    by (subst parse_lines.simps) simp
  then show ?case using assms(1) by simp
qed simp

subsection \<open>Witnesses\<close>

definition demo_line :: "byte list \<times> byte list \<times> bool" where
  "demo_line = (bytes ''mapFileName'', bytes ''theirs'', True)"

lemma demo_line_ok: "line_ok demo_line" "line_value (bytes ''mapFileName'')"
  by (simp_all add: demo_line_def line_ok_def line_name_def line_value_def bytes_def is_alpha_def isspace_def)

theorem config_file_roundtrip_witness:
  "parse_lines (expandKeyword 1) OPT_MAP (concat (map config_line [demo_line, demo_line]) @ [0]) empty_table =
     set_values (map (line_assignment OPT_MAP) [demo_line, demo_line]) empty_table"
  by (rule config_file_roundtrip) (simp add: demo_line_ok)

theorem missing_line_end_overruns_witness:
  "parse_lines (expandKeyword 1) OPT_MAP (concat (map config_line [demo_line]) @ config_text demo_line @ [0]) empty_table = None"
  by (rule missing_line_end_overruns) (simp_all add: demo_line_ok)

theorem self_expansion_never_returns_witness:
  "\<exists>t. Option_set_value (bytes ''mapFileName'') (Some (bytes ''expand: mapFileName'' @ [10])) 0 OPT_MAP empty_table = Some t \<and>
     expandKeyword 100000 (bytes ''mapFileName'') t = None"
proof -
  let ?m = "bytes ''mapFileName''"
  have n: "no_nul ?m" by (simp add: no_nul_def bytes_def)
  obtain t where t: "Option_set_value ?m (Some (bytes ''expand: mapFileName'' @ [10])) 0 OPT_MAP empty_table = Some t" "table_ok t"
    "entry t ?m = assign (Some (bytes ''expand: mapFileName'' @ [10])) 0 OPT_MAP (entry empty_table ?m)"
    using Option_set_value_ok [OF empty_table_ok(1) n, of OPT_MAP "Some (bytes ''expand: mapFileName'' @ [10])" 0] n
    unfolding set_effect_def by auto
  have "entry empty_table ?m = None" by (simp add: entry_def empty_table_ok(2))
  then have "Option_get_value ?m t = Some (Some (bytes ''expand:'' @ 32 # ?m @ [10]), Some OPT_MAP)"
    using Option_get_value_entry [OF t(2) n] t(3) by (simp add: assign_def bytes_def)
  from self_expansion_never_returns [OF this demo_line_ok(2)] t(1) show ?thesis by blast
qed









text \<open>Why the arguments must not make a line of their own: a greeting given on the command line as
  \<open>mapFileName: evil #\<close> and expanded by a file replaces the map name given on the command line.\<close>

lemma expanded_argument_sets:
  assumes "table_ok t" "entry t (bytes ''mapFileName'') = Some v"
    "case hv_desc v of None \<Rightarrow> True | Some d \<Rightarrow> has_bit (od_flags d) (origin_flag OPT_COMMAND)"
    "Option_get_value (bytes ''greeting'') t = Some (Some (bytes ''mapFileName: evil #''), Some OPT_COMMAND)"
  shows "\<exists>t'. expandKeyword (Suc depth) (bytes ''greeting'') t = Some t' \<and>
    Option_get_value (bytes ''mapFileName'') t' = Some (Some (bytes ''evil''), Some OPT_COMMAND)"
proof -
  let ?m = "bytes ''mapFileName''" and ?text = "bytes ''mapFileName: evil #'' @ [0]"
  have n: "no_nul ?m" by (simp add: no_nul_def bytes_def)
  obtain t' where t': "Option_set_value ?m (Some (bytes ''evil'')) 0 OPT_COMMAND t = Some t'" "table_ok t'"
    "entry t' ?m = assign (Some (bytes ''evil'')) 0 OPT_COMMAND (Some v)"
    using Option_set_value_ok [OF assms(1) n, of OPT_COMMAND "Some (bytes ''evil'')" 0] n assms(2)
    unfolding set_effect_def by auto
  have "parse_name ?text = Some (Inr (?m, bytes '' evil #'' @ [0]))"
    "parse_value ?m (bytes '' evil #'' @ [0]) = Some (Some (?m, bytes ''evil'', 0), [0])"
    "?m \<noteq> bytes ''expand''" by code_simp+
  moreover obtain u where "?text = 109 # u" by (simp add: bytes_def)
  ultimately have "parse_lines ex OPT_COMMAND ?text t = Some t'" for ex
    using t'(1) by (subst parse_lines.simps) (auto simp: parseLine_def parse_lines.simps [of _ _ "[0]"])
  then have "expandKeyword (Suc depth) (bytes ''greeting'') t = Some t'" using assms(4) by simp
  moreover have "Option_get_value ?m t' = Some (Some (bytes ''evil''), Some OPT_COMMAND)"
    using Option_get_value_entry [OF t'(2) n] t'(3) assms(3) by (simp add: assign_def allowed_def split: option.splits)
  ultimately show ?thesis by blast
qed

end
