(* ===== verification/Game_World.thy ===== *)
theory Game_World
  imports Id_Queue Random_MT
begin

text \<open>
  The state of the game: players, teams, bases, treasures and objects (\<open>server/player.h\<close>, \<open>team.h\<close>,
  \<open>map.h\<close>, \<open>object.h\<close>), the predicates on players of \<open>player_inline.h\<close>, the team functions of
  \<open>server/team.c\<close>, and the functions of \<open>server/player.c\<close> that set or compute the state of a player.

  Pointers are indices: a \<open>player_t\<close> pointer into \<open>playerArray\<close>, an \<open>object_t\<close> pointer into \<open>objArray\<close>, a \<open>team_t\<close>,
  \<open>base_t\<close> or \<open>treasure_t\<close> pointer into the arrays of the map; \<open>NULL\<close> is \<open>None\<close>. \<open>Players\<close> and \<open>Obj\<close> are the arrays of
  pointers, of which the first \<open>NumPlayers\<close> and \<open>NumObjs\<close> are in use. Positions are blocks; the rest of the physics is
  left out. Times are ticks (rational numbers).
\<close>

subsection \<open>Data\<close>

datatype pl_type = PL_TYPE_NONE | PL_TYPE_HUMAN | PL_TYPE_ROBOT | PL_TYPE_TANK

datatype pl_state = PL_STATE_NONE | PL_STATE_UNDEFINED | PL_STATE_WAITING | PL_STATE_APPEARING | PL_STATE_ALIVE
  | PL_STATE_KILLED | PL_STATE_DEAD | PL_STATE_PAUSED

definition OLD_PLAYING :: int where "OLD_PLAYING = 1"
definition OLD_PAUSE :: int where "OLD_PAUSE = 2"
definition OLD_GAME_OVER :: int where "OLD_GAME_OVER = 4"
definition OLD_KILLED :: int where "OLD_KILLED = 1024"

definition MAX_TEAMS :: nat where "MAX_TEAMS = 10"
definition PAUSE_TEAM_NUM :: nat where "PAUSE_TEAM_NUM = 0"
definition LOCKBANK_MAX :: nat where "LOCKBANK_MAX = 4"
definition MAX_RECORDED_SHOVES :: nat where "MAX_RECORDED_SHOVES = 4"
definition LIMITED_LIVES :: i32 where "LIMITED_LIVES = 8"
definition TEAM_PLAY :: i32 where "TEAM_PLAY = 256"
definition PRACTISE_PLAY :: i32 where "PRACTISE_PLAY = 1024"
definition TEAM_ONLY_ROBOTS :: i32 where "TEAM_ONLY_ROBOTS = 2"
definition TEAM_ONLY_PAUSERS :: i32 where "TEAM_ONLY_PAUSERS = 4"

text \<open>A player. The two bits of \<open>lock.flags\<close> and the bit \<open>HAS_BALL\<close> of \<open>have\<close> are booleans. The private data of a robot is
  the player it is at war with, inside an option for the pointer to it.\<close>

record plr =
  p_id :: int
  p_type :: pl_type
  p_state :: pl_state
  p_old_status :: int
  p_mychar :: int
  p_type_mychar :: int
  p_life :: int
  p_pause_count :: rat
  p_recovery_count :: rat
  p_kills :: int
  p_deaths :: int
  p_self_deaths :: int
  p_score :: int
  p_has_ball :: bool
  p_ball_tmp :: "nat option"
  p_shots :: int
  p_bx :: int
  p_by :: int
  p_velocity :: rat
  p_home :: "nat option"
  p_team :: "nat option"
  p_lock_player :: bool
  p_lock_visible :: bool
  p_lock_object :: "nat option"
  p_lockbank :: "nat option list"
  p_shoves :: "nat option list"
  p_robot_data :: "nat option option"
  p_connp :: "nat option"
  p_name :: "byte list"
  p_busy :: int
  p_oper :: bool
  p_upd :: bool

text \<open>What \<open>memset(pl, 0, sizeof(player_t))\<close> leaves.\<close>

definition plr_zero :: plr where
  "plr_zero = \<lparr>p_id = 0, p_type = PL_TYPE_NONE, p_state = PL_STATE_NONE, p_old_status = 0, p_mychar = 0, p_type_mychar = 0,
     p_life = 0, p_pause_count = 0, p_recovery_count = 0, p_kills = 0, p_deaths = 0, p_self_deaths = 0, p_score = 0,
     p_has_ball = False, p_ball_tmp = None, p_shots = 0, p_bx = 0, p_by = 0, p_velocity = 0, p_home = None, p_team = None,
     p_lock_player = False, p_lock_visible = False, p_lock_object = None, p_lockbank = replicate LOCKBANK_MAX None,
     p_shoves = replicate MAX_RECORDED_SHOVES None, p_robot_data = None, p_connp = None, p_name = [], p_busy = 0,
     p_oper = False, p_upd = False\<rparr>"

record team_t =
  t_Num :: int
  t_NumMembers :: int
  t_NumRobots :: int
  t_NumBases :: int
  t_NumTreasures :: int
  t_TreasuresDestroyed :: int
  t_TreasuresLeft :: int
  t_Swapper :: "nat option"
  t_Properties :: i32

record home_base =
  b_bx :: int
  b_by :: int
  b_team :: "nat option"

record treasure =
  tr_have :: bool
  tr_team :: "nat option"

datatype obj_type = OBJ_PLAYER | OBJ_DEBRIS | OBJ_SPARK | OBJ_BALL | OBJ_SHOT | OBJ_SMART_SHOT | OBJ_MINE | OBJ_TORPEDO
  | OBJ_HEAT_SHOT | OBJ_PULSE | OBJ_ITEM | OBJ_WRECKAGE | OBJ_ASTEROID | OBJ_CANNON_SHOT

text \<open>An object; \<open>o_attached\<close> is the bit \<open>ATTACHED\<close> of \<open>obj_status\<close>.\<close>

record game_object =
  o_type :: obj_type
  o_id :: nat
  o_team :: "nat option"
  o_owner :: "nat option"
  o_attached :: bool
  o_life :: int
  o_treasure :: "nat option"
  o_loose :: int
  o_loose_ticks :: int

definition object_zero :: game_object where
  "object_zero = \<lparr>o_type = OBJ_PLAYER, o_id = 0, o_team = None, o_owner = None, o_attached = False, o_life = 0,
     o_treasure = None, o_loose = 0, o_loose_ticks = 0\<rparr>"

text \<open>What players are told: that a player left, released its base, or has new data, with the flags of \<open>pl_send_t\<close>.\<close>

datatype notice = Note_leave nat int | Note_release_base nat nat | Note_player nat i32 | Note_myself nat i32

record gstate =
  Players :: "nat list"
  NumPlayers :: nat
  playerArray :: "plr list"
  GetInd :: "nat list"
  idq :: ids
  teams :: "team_t list"
  bases :: "home_base list"
  treasures :: "treasure list"
  Obj :: "nat list"
  NumObjs :: nat
  objArray :: "game_object list"
  NumPaused :: int
  NumRobots :: int
  NumOperators :: int
  game_lock :: bool
  updateScores :: bool
  num_pause :: int
  num_unpause :: int
  rules_mode :: i32
  rules_lives :: int
  robotTeam :: int
  restrictRobots :: bool
  reserveRobotTeam :: bool
  keepShots :: bool
  lockOtherTeam :: bool
  gameSpeed :: rat
  frame_loops :: int
  game_random :: mt
  told :: "notice list"

definition playing :: "gstate \<Rightarrow> nat list" where "playing s = take (NumPlayers s) (Players s)"

definition live_objects :: "gstate \<Rightarrow> nat list" where "live_objects s = take (NumObjs s) (Obj s)"

abbreviation plr_at :: "gstate \<Rightarrow> nat \<Rightarrow> plr" where "plr_at s p \<equiv> playerArray s ! p"
abbreviation obj_at :: "gstate \<Rightarrow> nat \<Rightarrow> game_object" where "obj_at s o' \<equiv> objArray s ! o'"

definition upd_plr :: "nat \<Rightarrow> (plr \<Rightarrow> plr) \<Rightarrow> gstate \<Rightarrow> gstate" where
  "upd_plr p f s = s\<lparr>playerArray := (playerArray s)[p := f (playerArray s ! p)]\<rparr>"

definition upd_obj :: "nat \<Rightarrow> (game_object \<Rightarrow> game_object) \<Rightarrow> gstate \<Rightarrow> gstate" where
  "upd_obj i f s = s\<lparr>objArray := (objArray s)[i := f (objArray s ! i)]\<rparr>"

definition upd_team :: "nat \<Rightarrow> (team_t \<Rightarrow> team_t) \<Rightarrow> gstate \<Rightarrow> gstate" where
  "upd_team k f s = s\<lparr>teams := (teams s)[k := f (teams s ! k)]\<rparr>"

definition announce :: "notice list \<Rightarrow> gstate \<Rightarrow> gstate" where "announce ns s = s\<lparr>told := told s @ ns\<rparr>"

definition connps :: "gstate \<Rightarrow> nat list" where
  "connps s = concat (map (\<lambda>p. case p_connp (plr_at s p) of None \<Rightarrow> [] | Some c \<Rightarrow> [c]) (playing s))"

subsection \<open>Predicates and counts\<close>

definition Player_is_active :: "plr \<Rightarrow> bool" where
  "Player_is_active x \<longleftrightarrow> p_state x \<in> {PL_STATE_ALIVE, PL_STATE_APPEARING, PL_STATE_WAITING, PL_STATE_KILLED, PL_STATE_DEAD}"

definition Player_is_paused :: "plr \<Rightarrow> bool" where "Player_is_paused x \<longleftrightarrow> p_state x = PL_STATE_PAUSED"
definition Player_is_waiting :: "plr \<Rightarrow> bool" where "Player_is_waiting x \<longleftrightarrow> p_state x = PL_STATE_WAITING"
definition Player_is_appearing :: "plr \<Rightarrow> bool" where "Player_is_appearing x \<longleftrightarrow> p_state x = PL_STATE_APPEARING"
definition Player_is_alive :: "plr \<Rightarrow> bool" where "Player_is_alive x \<longleftrightarrow> p_state x = PL_STATE_ALIVE"
definition Player_is_killed :: "plr \<Rightarrow> bool" where "Player_is_killed x \<longleftrightarrow> p_state x = PL_STATE_KILLED"
definition Player_is_dead :: "plr \<Rightarrow> bool" where "Player_is_dead x \<longleftrightarrow> p_state x = PL_STATE_DEAD"
definition Player_is_human :: "plr \<Rightarrow> bool" where "Player_is_human x \<longleftrightarrow> p_type x = PL_TYPE_HUMAN"
definition Player_is_robot :: "plr \<Rightarrow> bool" where "Player_is_robot x \<longleftrightarrow> p_type x = PL_TYPE_ROBOT"

lemmas player_is_defs = Player_is_active_def Player_is_paused_def Player_is_waiting_def Player_is_appearing_def
  Player_is_alive_def Player_is_killed_def Player_is_dead_def Player_is_human_def Player_is_robot_def

text \<open>In the counts a team that is \<open>NULL\<close> stands for all teams.\<close>

definition Team_count_active_players :: "nat option \<Rightarrow> gstate \<Rightarrow> nat" where
  "Team_count_active_players t s =
     length (filter (\<lambda>p. (p_team (plr_at s p) = t \<or> t = None) \<and> Player_is_active (plr_at s p)) (playing s))"

definition Round_count_killed_players :: "nat option \<Rightarrow> gstate \<Rightarrow> nat" where
  "Round_count_killed_players t s =
     length (filter (\<lambda>p. p_state (plr_at s p) \<in> {PL_STATE_ALIVE, PL_STATE_APPEARING, PL_STATE_WAITING, PL_STATE_KILLED, PL_STATE_DEAD} \<and>
        (p_team (plr_at s p) = t \<or> t = None) \<and> p_deaths (plr_at s p) > p_self_deaths (plr_at s p)) (playing s))"

definition Object_count_treasures_missing :: "nat option \<Rightarrow> gstate \<Rightarrow> nat" where
  "Object_count_treasures_missing t s =
     length (filter (\<lambda>x. \<not> tr_have x \<and> (t = None \<or> tr_team x = t)) (treasures s))"

definition Team_is_dead :: "nat option \<Rightarrow> gstate \<Rightarrow> bool" where
  "Team_is_dead t s \<longleftrightarrow>
     \<not> list_ex (\<lambda>p. p_team (plr_at s p) = t \<and> (Player_is_alive (plr_at s p) \<or> Player_is_appearing (plr_at s p))) (playing s)"

definition Team_get_by_id :: "int \<Rightarrow> nat option" where
  "Team_get_by_id i = (if 0 \<le> i \<and> i < int MAX_TEAMS then Some (nat i) else None)"

definition Teams_reset :: "gstate \<Rightarrow> gstate" where
  "Teams_reset s = s\<lparr>teams := map (\<lambda>t. t\<lparr>t_TreasuresDestroyed := 0, t_TreasuresLeft := t_NumTreasures t\<rparr>) (teams s)\<rparr>"

subsection \<open>Choosing a team and a base\<close>

definition free_bases :: "gstate \<Rightarrow> team_t \<Rightarrow> int" where
  "free_bases s t =
     (if t_Properties t = TEAM_ONLY_PAUSERS then 0
      else if t_Properties t = TEAM_ONLY_ROBOTS \<and> restrictRobots s then 0
      else t_NumBases t - t_NumMembers t)"

text \<open>The loop over the players: how many play in each team, how many teams have players, the scores.\<close>

fun count_playing :: "gstate \<Rightarrow> nat list \<Rightarrow> int list \<times> int \<times> int list \<Rightarrow> (int list \<times> int \<times> int list) option" where
  "count_playing s [] acc = Some acc"
| "count_playing s (p # ps) (pl, pt, sc) =
     (if p_state (plr_at s p) \<in> {PL_STATE_ALIVE, PL_STATE_APPEARING, PL_STATE_DEAD, PL_STATE_WAITING}
      then do { k \<leftarrow> p_team (plr_at s p);
                count_playing s ps
                  (pl[k := pl ! k + 1], (if pl ! k = 0 then pt + 1 else pt),
                   (if Player_is_human (plr_at s p) \<or> Player_is_robot (plr_at s p) then sc[k := sc ! k + p_score (plr_at s p)] else sc)) }
      else count_playing s ps (pl, pt, sc))"

definition least_players :: "int list \<Rightarrow> int list \<Rightarrow> int \<Rightarrow> int" where
  "least_players pl fb n =
     fold (\<lambda>i l. if pl ! i > 0 \<and> fb ! i > 0 \<and> pl ! i < l then pl ! i else l) [0..<MAX_TEAMS] n"

definition losing_team :: "int list \<Rightarrow> int \<Rightarrow> nat list \<Rightarrow> int \<times> int" where
  "losing_team sc rt av =
     fold (\<lambda>i (lt, ls). if sc ! i < ls \<and> int i \<noteq> rt then (int i, sc ! i) else (lt, ls)) av (-1, 2147483647)"

definition available_teams :: "int list \<Rightarrow> int \<Rightarrow> int list \<Rightarrow> int \<Rightarrow> nat list" where
  "available_teams pl pt fb n =
     (let ix = [0..<MAX_TEAMS];
          av = (if pt \<le> 1 then filter (\<lambda>i. pl ! i = 0 \<and> fb ! i > 0) ix
                else let l = least_players pl fb n in filter (\<lambda>i. fb ! i > 0 \<and> (l = n \<or> pl ! i = l)) ix)
      in if av = [] then filter (\<lambda>i. fb ! i > 0) ix else av)"

text \<open>\<open>None\<close> is also the pointer \<open>&World.teams[-1]\<close>.\<close>

definition Team_find_available :: "pl_type \<Rightarrow> gstate \<Rightarrow> nat option option" where
  "Team_find_available ty s =
     (if ty = PL_TYPE_ROBOT then
        (case Team_get_by_id (robotTeam s) of
           None \<Rightarrow> Some None
         | Some t \<Rightarrow> Some (if t_NumMembers (teams s ! t) < t_NumBases (teams s ! t) then Some t else None))
      else if ty \<noteq> PL_TYPE_HUMAN then Some None
      else do {
        let fb = map (\<lambda>i. free_bases s (teams s ! i)) [0..<MAX_TEAMS];
        (pl, pt, sc) \<leftarrow> count_playing s (playing s) (replicate MAX_TEAMS 0, 0, replicate MAX_TEAMS 0);
        let av = available_teams pl pt fb (int (NumPlayers s));
        (case av of
           [] \<Rightarrow> Some None
         | [i] \<Rightarrow> Some (Some i)
         | _ \<Rightarrow> let lt = fst (losing_team sc (robotTeam s) av) in if lt < 0 then None else Some (Some (nat lt))) })"

text \<open>The marks of the bases of a team that nobody lives on, and their number.\<close>

definition mark_team :: "nat option \<Rightarrow> gstate \<Rightarrow> bool list" where
  "mark_team t s = map (\<lambda>b. b_team b = t) (bases s)"

fun clear_homes :: "gstate \<Rightarrow> nat list \<Rightarrow> bool list \<times> int \<Rightarrow> bool list \<times> int" where
  "clear_homes s [] acc = acc"
| "clear_homes s (p # ps) (fb, n) =
     (case p_home (plr_at s p) of
        None \<Rightarrow> clear_homes s ps (fb, n)
      | Some h \<Rightarrow> if fb ! h then clear_homes s ps (fb[h := False], n - 1) else clear_homes s ps (fb, n))"

text \<open>The index where the search for the picked base stops.\<close>

fun pick_base :: "int \<Rightarrow> int \<Rightarrow> bool list \<Rightarrow> nat \<Rightarrow> nat" where
  "pick_base pick seen [] i = i"
| "pick_base pick seen (b # bs) i =
     (if b then (if seen < pick then pick_base pick (seen + 1) bs (Suc i) else i) else pick_base pick seen bs (Suc i))"

definition Team_pick_free_base :: "nat option \<Rightarrow> gstate \<Rightarrow> (nat option \<times> gstate) option" where
  "Team_pick_free_base t s =
     do { let fb0 = mark_team t s;
          let (fb, n) = clear_homes s (playing s) (fb0, int (length (filter id fb0)));
          (r, g) \<leftarrow> rfrac (game_random s);
          let i = pick_base \<lfloor>r * of_int n\<rfloor> 0 fb 0;
          Some (if i = length (bases s) then None else Some i, s\<lparr>game_random := g\<rparr>) }"

subsection \<open>The state of a player\<close>

definition RECOVERY_DELAY_TICKS :: "gstate \<Rightarrow> rat" where "RECOVERY_DELAY_TICKS s = gameSpeed s * 3"
definition UNPAUSE_DELAY_TICKS :: "gstate \<Rightarrow> rat" where "UNPAUSE_DELAY_TICKS s = gameSpeed s * 10"

fun set_state :: "rat \<Rightarrow> pl_state \<Rightarrow> plr \<Rightarrow> plr" where
  "set_state d PL_STATE_WAITING x = x\<lparr>p_state := PL_STATE_WAITING, p_upd := True, p_mychar := 87, p_old_status := OLD_GAME_OVER\<rparr>"
| "set_state d PL_STATE_APPEARING x =
     x\<lparr>p_state := PL_STATE_APPEARING, p_upd := True, p_mychar := p_type_mychar x, p_recovery_count := d\<rparr>"
| "set_state d PL_STATE_ALIVE x =
     x\<lparr>p_state := PL_STATE_ALIVE, p_upd := True, p_mychar := p_type_mychar x, p_old_status := OLD_PLAYING\<rparr>"
| "set_state d PL_STATE_KILLED x = x\<lparr>p_state := PL_STATE_KILLED, p_upd := True, p_old_status := OLD_KILLED\<rparr>"
| "set_state d PL_STATE_DEAD x =
     x\<lparr>p_state := PL_STATE_DEAD, p_upd := True, p_mychar := 68, p_old_status := OLD_GAME_OVER, p_recovery_count := d\<rparr>"
| "set_state d PL_STATE_PAUSED x =
     x\<lparr>p_state := PL_STATE_PAUSED, p_upd := True, p_mychar := 80, p_recovery_count := 0, p_old_status := OLD_PAUSE\<rparr>"
| "set_state d PL_STATE_UNDEFINED x = x\<lparr>p_state := PL_STATE_UNDEFINED, p_upd := False\<rparr>"
| "set_state d PL_STATE_NONE x = x\<lparr>p_state := PL_STATE_NONE, p_upd := True\<rparr>"

definition Player_set_state :: "nat \<Rightarrow> pl_state \<Rightarrow> gstate \<Rightarrow> gstate" where
  "Player_set_state p st s = upd_plr p (set_state (RECOVERY_DELAY_TICKS s) st) s"

definition Player_compute_entry_state :: "nat \<Rightarrow> nat \<Rightarrow> gstate \<Rightarrow> pl_state" where
  "Player_compute_entry_state p t s =
     (let x = plr_at s p in
      if t_Num (teams s ! t) = int PAUSE_TEAM_NUM then PL_STATE_PAUSED
      else if Player_is_dead x then PL_STATE_WAITING
      else if Player_is_waiting x then PL_STATE_WAITING
      else if \<not> has_bit (rules_mode s) LIMITED_LIVES \<or> has_bit (rules_mode s) PRACTISE_PLAY
      then (if Player_is_appearing x then PL_STATE_APPEARING else PL_STATE_ALIVE)
      else
        let num_active = Team_count_active_players None s + (if Player_is_active x then 0 else 1);
            on_team = Team_count_active_players (Some t) s;
            new_state =
              (if num_active > 1 then
                 (if on_team + 1 = num_active then PL_STATE_ALIVE
                  else if Object_count_treasures_missing None s > 0 \<or> Round_count_killed_players None s > 0 then PL_STATE_WAITING
                  else PL_STATE_ALIVE)
               else PL_STATE_ALIVE)
        in if Player_is_appearing x \<and> new_state = PL_STATE_ALIVE then PL_STATE_APPEARING else new_state)"

end
