(* ===== verification/Game_Objects.thy ===== *)
theory Game_Objects
  imports Game_World
begin

text \<open>
  The pool of objects of \<open>server/object.c\<close> and the functions of \<open>server/shot.c\<close> that create and release balls and
  shots: an array of pointers whose first \<open>NumObjs\<close> entries are in use, each object knowing its index. Removal moves the
  last object in use to the freed position, while a loop over the array from above is running.
\<close>

definition MAX_TOTAL_OBJECTS :: nat where "MAX_TOTAL_OBJECTS = 16384"
definition MAX_OBJECT_LIFE :: int where "MAX_OBJECT_LIFE = 2147483647"

subsection \<open>Operations\<close>

definition Object_add :: "gstate \<Rightarrow> (nat \<times> gstate) option option" where
  "Object_add s =
     (if NumObjs s \<ge> MAX_TOTAL_OBJECTS then Some None
      else if NumObjs s < length (Obj s) then Some (Some (Obj s ! NumObjs s, s\<lparr>NumObjs := NumObjs s + 1\<rparr>)) else None)"

text \<open>The loop of \<open>Ball_detach\<close> over the objects; the second result counts the balls the player keeps.\<close>

fun detach_loop :: "nat \<Rightarrow> nat option \<Rightarrow> nat list \<Rightarrow> nat \<Rightarrow> gstate \<Rightarrow> nat \<times> gstate" where
  "detach_loop p ball [] cnt s = (cnt, s)"
| "detach_loop p ball (i # is) cnt s =
     (if o_type (obj_at s i) = OBJ_BALL \<and> o_attached (obj_at s i) \<and> o_owner (obj_at s i) = Some p
      then (if ball = None \<or> ball = Some i
            then detach_loop p ball is cnt (upd_obj i (\<lambda>x. x\<lparr>o_attached := False\<rparr>) s)
            else detach_loop p ball is (cnt + 1) s)
      else detach_loop p ball is cnt s)"

definition Ball_detach :: "nat \<Rightarrow> nat option \<Rightarrow> gstate \<Rightarrow> gstate" where
  "Ball_detach p ball s =
     (let s1 = (if ball = None \<or> ball = p_ball_tmp (plr_at s p) then upd_plr p (\<lambda>x. x\<lparr>p_ball_tmp := None\<rparr>) s else s)
      in if p_has_ball (plr_at s1 p)
         then (let (cnt, s2) = detach_loop p ball (live_objects s1) 0 s1
               in if cnt = 0 then upd_plr p (\<lambda>x. x\<lparr>p_has_ball := False\<rparr>) s2 else s2)
         else s1)"

text \<open>The part of \<open>Object_remove\<close> that depends on the type of the object.\<close>

definition object_release :: "nat \<Rightarrow> gstate \<Rightarrow> gstate option" where
  "object_release i s =
     (case o_type (obj_at s i) of
        OBJ_BALL \<Rightarrow>
          do { s1 \<leftarrow> (if o_attached (obj_at s i)
                     then do { p \<leftarrow> o_owner (obj_at s i); Some (Ball_detach p (Some i) s) }
                     else Some (fold (\<lambda>p s. if p_ball_tmp (plr_at s p) = Some i
                                            then upd_plr p (\<lambda>x. x\<lparr>p_ball_tmp := None\<rparr>) s else s) (playing s) s));
               t \<leftarrow> o_treasure (obj_at s1 i);
               Some (s1\<lparr>treasures := (treasures s1)[t := (treasures s1 ! t)\<lparr>tr_have := False\<rparr>]\<rparr>) }
      | OBJ_SHOT \<Rightarrow>
          Some (case o_owner (obj_at s i) of
             None \<Rightarrow> s
           | Some p \<Rightarrow> upd_plr p (\<lambda>x. x\<lparr>p_shots := (if p_shots x - 1 \<le> 0 then 0 else p_shots x - 1)\<rparr>) s)
      | _ \<Rightarrow> Some s)"

text \<open>The swap with the last object in use, and the \<open>memset\<close>.\<close>

definition object_unlink :: "nat \<Rightarrow> gstate \<Rightarrow> gstate option" where
  "object_unlink i s =
     (if NumObjs s = 0 then None
      else
        let n = NumObjs s - 1; k = o_id (obj_at s i); l = Obj s ! n
        in Some (s\<lparr>NumObjs := n, Obj := (Obj s)[k := l, n := i],
                   objArray := (objArray s)[l := (obj_at s l)\<lparr>o_id := k\<rparr>, i := object_zero\<lparr>o_id := n\<rparr>]\<rparr>))"

definition Object_remove :: "nat \<Rightarrow> gstate \<Rightarrow> gstate option" where
  "Object_remove i s = do { s1 \<leftarrow> object_release i s; object_unlink i s1 }"

definition new_ball :: "nat \<Rightarrow> gstate \<Rightarrow> game_object \<Rightarrow> game_object" where
  "new_ball t s x = x\<lparr>o_life := MAX_OBJECT_LIFE, o_owner := None, o_team := tr_team (treasures s ! t), o_type := OBJ_BALL,
     o_attached := False, o_treasure := Some t\<rparr>"

definition Ball_treasure_add :: "nat \<Rightarrow> gstate \<Rightarrow> gstate option" where
  "Ball_treasure_add t s =
     do { r \<leftarrow> Object_add s;
          (case r of
             None \<Rightarrow> Some s
           | Some (i, s1) \<Rightarrow>
               let s2 = s1\<lparr>treasures := (treasures s1)[t := (treasures s1 ! t)\<lparr>tr_have := True\<rparr>]\<rparr>
               in Some (upd_obj i (new_ball t s2) s2)) }"

text \<open>What a frame does to one object before it looks whether its time is over; the first argument says whether the
  frame is a real one (\<open>Frame_is_real\<close>).\<close>

definition age_object :: "bool \<Rightarrow> gstate \<Rightarrow> game_object \<Rightarrow> game_object" where
  "age_object rf s x =
     (let x1 = x\<lparr>o_life := o_life x - 1\<rparr>
      in if o_type x = OBJ_BALL \<and> \<not> tr_have (treasures s ! the (o_treasure x))
         then x1\<lparr>o_loose := o_loose x + 1, o_loose_ticks := (if rf then o_loose_ticks x + 1 else o_loose_ticks x)\<rparr>
         else x1)"

definition time_out_one :: "bool \<Rightarrow> nat \<Rightarrow> gstate \<Rightarrow> gstate option" where
  "time_out_one rf k s =
     (let i = Obj s ! k; x = obj_at s i
      in if \<not> rf \<and> (o_type x = OBJ_SPARK \<or> o_type x = OBJ_DEBRIS) then Some s
         else if o_type x = OBJ_BALL \<and> o_treasure x = None then None
         else
           let s1 = upd_obj i (age_object rf s) s
           in if o_life (obj_at s1 i) > 0 then Some s1
              else do {
                s2 \<leftarrow> Object_remove i s1;
                (case (o_type x, o_treasure x) of
                   (OBJ_BALL, Some t) \<Rightarrow> Ball_treasure_add t s2
                 | _ \<Rightarrow> Some s2) })"

fun time_out_loop :: "bool \<Rightarrow> nat \<Rightarrow> gstate \<Rightarrow> gstate option" where
  "time_out_loop rf 0 s = Some s"
| "time_out_loop rf (Suc k) s = do { s1 \<leftarrow> time_out_one rf k s; time_out_loop rf k s1 }"

definition Objects_remove_timed_out :: "bool \<Rightarrow> gstate \<Rightarrow> gstate option" where
  "Objects_remove_timed_out rf s = time_out_loop rf (NumObjs s) s"

definition Object_expire :: "nat \<Rightarrow> gstate \<Rightarrow> gstate" where
  "Object_expire i = upd_obj i (\<lambda>x. x\<lparr>o_life := 0\<rparr>)"

definition Objects_time_out :: "gstate \<Rightarrow> gstate" where
  "Objects_time_out s = fold Object_expire (live_objects s) s"

text \<open>\<open>Shot_add\<close>: whether the gun is ready and the shield down is an argument, as is the life of the shot; \<open>shot_max\<close> is
  the option \<open>ShotsMax\<close>.\<close>

definition Shot_add :: "bool \<Rightarrow> int \<Rightarrow> int \<Rightarrow> nat \<Rightarrow> gstate \<Rightarrow> gstate option" where
  "Shot_add ready shot_max life p s =
     (if \<not> ready \<or> p_shots (plr_at s p) \<ge> shot_max then Some s
      else do {
        r \<leftarrow> Object_add s;
        Some (case r of
           None \<Rightarrow> s
         | Some (i, s1) \<Rightarrow>
             upd_obj i (\<lambda>x. x\<lparr>o_life := life, o_type := OBJ_SHOT, o_owner := Some p, o_team := p_team (plr_at s1 p),
                              o_attached := False\<rparr>) s1) })"

subsection \<open>The pool\<close>

text \<open>\<open>Obj\<close> is a permutation of the objects, and every object knows its index.\<close>

definition pool_ok :: "gstate \<Rightarrow> bool" where
  "pool_ok s \<longleftrightarrow> length (Obj s) = MAX_TOTAL_OBJECTS \<and> length (objArray s) = MAX_TOTAL_OBJECTS \<and> NumObjs s \<le> MAX_TOTAL_OBJECTS \<and>
     distinct (Obj s) \<and> set (Obj s) = {..< MAX_TOTAL_OBJECTS} \<and>
     (\<forall>k < MAX_TOTAL_OBJECTS. o_id (obj_at s (Obj s ! k)) = k)"

text \<open>Objects in use: a ball belongs to a treasure, and an attached ball has an owner.\<close>

definition object_ok :: "gstate \<Rightarrow> game_object \<Rightarrow> bool" where
  "object_ok s x \<longleftrightarrow>
     (o_type x = OBJ_BALL \<longrightarrow> (\<exists>t. o_treasure x = Some t \<and> t < length (treasures s)) \<and> (o_attached x \<longrightarrow> o_owner x \<noteq> None)) \<and>
     (\<forall>p. o_owner x = Some p \<longrightarrow> p < length (playerArray s))"

definition objects_ok :: "gstate \<Rightarrow> bool" where
  "objects_ok s \<longleftrightarrow> pool_ok s \<and> (\<forall>i \<in> set (live_objects s). object_ok s (obj_at s i))"

text \<open>Balls and treasures: every treasure has exactly one ball in play.\<close>

definition balls_of :: "gstate \<Rightarrow> nat \<Rightarrow> nat list" where
  "balls_of s t = filter (\<lambda>i. o_type (obj_at s i) = OBJ_BALL \<and> o_treasure (obj_at s i) = Some t) (live_objects s)"

subsection \<open>What the operations leave alone\<close>

text \<open>Detaching changes two fields of the player and the attachment of balls.\<close>

definition lets_go :: "nat \<Rightarrow> nat option \<Rightarrow> nat \<Rightarrow> game_object \<Rightarrow> bool" where
  "lets_go p ball j x \<longleftrightarrow> o_type x = OBJ_BALL \<and> o_attached x \<and> o_owner x = Some p \<and> (ball = None \<or> ball = Some j)"

lemma lets_go_once [simp]: "\<not> lets_go p ball j (x\<lparr>o_attached := False\<rparr>)"
  by (simp add: lets_go_def)

lemma detach_loop_step:
  "detach_loop p ball (i # is) cnt s =
     (if lets_go p ball i (obj_at s i) then detach_loop p ball is cnt (upd_obj i (\<lambda>x. x\<lparr>o_attached := False\<rparr>) s)
      else detach_loop p ball is
        (if o_type (obj_at s i) = OBJ_BALL \<and> o_attached (obj_at s i) \<and> o_owner (obj_at s i) = Some p then cnt + 1 else cnt) s)"
  by (auto simp: lets_go_def)

lemma detach_loop_ok:
  assumes "detach_loop p ball is cnt s = (cnt', s')" "\<forall>i \<in> set is. i < length (objArray s)"
  shows "\<exists>Q. s' = s\<lparr>objArray := Q\<rparr> \<and> length Q = length (objArray s) \<and>
    (\<forall>j. Q ! j = (if j \<in> set is \<and> lets_go p ball j (obj_at s j) then (obj_at s j)\<lparr>o_attached := False\<rparr> else obj_at s j))"
  using assms
proof (induction "is" arbitrary: cnt s)
  case (Cons i "is")
  show ?case
  proof (cases "lets_go p ball i (obj_at s i)")
    case True
    define s1 where "s1 = upd_obj i (\<lambda>x. x\<lparr>o_attached := False\<rparr>) s"
    have "detach_loop p ball is cnt s1 = (cnt', s')" "\<forall>i \<in> set is. i < length (objArray s1)"
      using Cons.prems True by (simp_all add: s1_def upd_obj_def detach_loop_step del: detach_loop.simps)
    from Cons.IH [OF this] obtain Q where Q: "s' = s1\<lparr>objArray := Q\<rparr>" "length Q = length (objArray s1)"
      "\<And>j. Q ! j = (if j \<in> set is \<and> lets_go p ball j (obj_at s1 j) then (obj_at s1 j)\<lparr>o_attached := False\<rparr> else obj_at s1 j)"
      by blast
    have s1: "obj_at s1 j = (if j = i then (obj_at s i)\<lparr>o_attached := False\<rparr> else obj_at s j)" for j
      using Cons.prems(2) by (simp add: s1_def upd_obj_def nth_list_update)
    have "s' = s\<lparr>objArray := Q\<rparr>" "length Q = length (objArray s)" using Q(1,2) by (simp_all add: s1_def upd_obj_def)
    moreover have "Q ! j = (if j \<in> set (i # is) \<and> lets_go p ball j (obj_at s j) then (obj_at s j)\<lparr>o_attached := False\<rparr> else obj_at s j)" for j
      unfolding Q(3) s1 using True by auto
    ultimately show ?thesis by blast
  next
    case False
    obtain c where "detach_loop p ball is c s = (cnt', s')" "\<forall>i \<in> set is. i < length (objArray s)"
      using Cons.prems False that by (simp add: detach_loop_step del: detach_loop.simps)
    from Cons.IH [OF this] obtain Q where Q: "s' = s\<lparr>objArray := Q\<rparr>" "length Q = length (objArray s)"
      "\<And>j. Q ! j = (if j \<in> set is \<and> lets_go p ball j (obj_at s j) then (obj_at s j)\<lparr>o_attached := False\<rparr> else obj_at s j)" by blast
    then show ?thesis using False by (intro exI [of _ Q]) auto
  qed
qed (auto intro!: exI [of _ "objArray s'"])

text \<open>The state after \<open>Ball_detach\<close> in closed form.\<close>

definition freed_plr :: "nat option \<Rightarrow> plr \<Rightarrow> plr \<Rightarrow> bool" where
  "freed_plr ball x y \<longleftrightarrow> (\<exists>b. y = x\<lparr>p_ball_tmp := (if ball = None \<or> ball = p_ball_tmp x then None else p_ball_tmp x), p_has_ball := b\<rparr> \<and>
     (b \<longrightarrow> p_has_ball x) \<and> (ball = None \<longrightarrow> \<not> b))"

lemma detach_all_counts: "detach_loop p None is cnt s = (cnt', s') \<Longrightarrow> cnt' = cnt"
  by (induction "is" arbitrary: s) (auto split: if_splits)

lemma Ball_detach_ok:
  assumes "\<forall>i \<in> set (live_objects s). i < length (objArray s)" "p < length (playerArray s)"
  obtains y Q where "Ball_detach p ball s = s\<lparr>playerArray := (playerArray s)[p := y], objArray := Q\<rparr>"
    "freed_plr ball (plr_at s p) y" "length Q = length (objArray s)"
    "\<And>j. Q ! j = (if j \<in> set (live_objects s) \<and> p_has_ball (plr_at s p) \<and> lets_go p ball j (obj_at s j)
                  then (obj_at s j)\<lparr>o_attached := False\<rparr> else obj_at s j)"
proof -
  let ?c = "ball = None \<or> ball = p_ball_tmp (plr_at s p)"
  define s1 where "s1 = (if ?c then upd_plr p (\<lambda>x. x\<lparr>p_ball_tmp := None\<rparr>) s else s)"
  define x1 where "x1 = (plr_at s p)\<lparr>p_ball_tmp := (if ?c then None else p_ball_tmp (plr_at s p))\<rparr>"
  have "(plr_at s p)\<lparr>p_ball_tmp := p_ball_tmp (plr_at s p)\<rparr> = plr_at s p" by (cases "plr_at s p") simp
  then have s1: "s1 = s\<lparr>playerArray := (playerArray s)[p := x1]\<rparr>" by (auto simp: s1_def x1_def upd_plr_def)
  have x1: "plr_at s1 p = x1" "p_has_ball x1 = p_has_ball (plr_at s p)"
    using assms(2) by (simp_all add: s1 x1_def)
  have live: "live_objects s1 = live_objects s" by (simp add: s1 live_objects_def)
  show ?thesis
  proof (cases "p_has_ball (plr_at s p)")
    case True
    obtain cnt s2 where d: "detach_loop p ball (live_objects s) 0 s1 = (cnt, s2)" by (cases "detach_loop p ball (live_objects s) 0 s1")
    obtain Q where Q: "s2 = s1\<lparr>objArray := Q\<rparr>" "length Q = length (objArray s1)"
      "\<And>j. Q ! j = (if j \<in> set (live_objects s) \<and> lets_go p ball j (obj_at s1 j) then (obj_at s1 j)\<lparr>o_attached := False\<rparr> else obj_at s1 j)"
      using detach_loop_ok [OF d] assms(1) by (auto simp: s1)
    let ?y = "x1\<lparr>p_has_ball := cnt \<noteq> 0\<rparr>"
    have keep: "x1\<lparr>p_has_ball := True\<rparr> = x1" using x1(2) True by (cases x1) simp
    have "Ball_detach p ball s = (if cnt = 0 then upd_plr p (\<lambda>x. x\<lparr>p_has_ball := False\<rparr>) s2 else s2)"
      unfolding Ball_detach_def s1_def [symmetric] using True x1 live d by simp
    also have "\<dots> = s\<lparr>playerArray := (playerArray s)[p := ?y], objArray := Q\<rparr>"
      using assms(2) keep by (simp add: Q(1) s1 upd_plr_def)
    finally have "Ball_detach p ball s = s\<lparr>playerArray := (playerArray s)[p := ?y], objArray := Q\<rparr>" .
    moreover have "freed_plr ball (plr_at s p) ?y"
      unfolding freed_plr_def using True detach_all_counts [of p "live_objects s" 0 s1] d
      by (intro exI [of _ "cnt \<noteq> 0"]) (auto simp: x1_def)
    ultimately show ?thesis using that Q(2,3) True by (simp add: s1)
  next
    case False
    then have "Ball_detach p ball s = s\<lparr>playerArray := (playerArray s)[p := x1], objArray := objArray s\<rparr>"
      unfolding Ball_detach_def s1_def [symmetric] using x1 by (simp add: s1)
    moreover have "freed_plr ball (plr_at s p) x1"
      unfolding freed_plr_def using False by (intro exI [of _ False]) (cases "plr_at s p"; simp add: x1_def)
    ultimately show ?thesis using False by (intro that [of "objArray s" x1]) simp_all
  qed
qed

text \<open>Objects change only these fields of players.\<close>

definition ball_changes :: "plr \<Rightarrow> plr \<Rightarrow> bool" where
  "ball_changes x y \<longleftrightarrow> y = x\<lparr>p_ball_tmp := p_ball_tmp y, p_has_ball := p_has_ball y, p_shots := p_shots y\<rparr>"

definition players_kept :: "plr list \<Rightarrow> plr list \<Rightarrow> bool" where
  "players_kept P Q \<longleftrightarrow> length Q = length P \<and> (\<forall>p. ball_changes (P ! p) (Q ! p))"

lemma ball_changes_refl [simp]: "ball_changes x x"
  by (cases x) (simp add: ball_changes_def)

lemma ball_changes_trans: "ball_changes x y \<Longrightarrow> ball_changes y z \<Longrightarrow> ball_changes x z"
  by (cases x; cases y; cases z) (simp add: ball_changes_def)

lemma freed_plr_changes: "freed_plr ball x y \<Longrightarrow> ball_changes x y"
  by (cases x) (auto simp: freed_plr_def ball_changes_def)

lemma players_kept_refl [simp]: "players_kept P P"
  by (simp add: players_kept_def)

lemma players_kept_trans: "players_kept P Q \<Longrightarrow> players_kept Q R \<Longrightarrow> players_kept P R"
  using ball_changes_trans by (fastforce simp: players_kept_def)

lemma players_kept_update: "ball_changes (P ! p) y \<Longrightarrow> players_kept P (P[p := y])"
  by (cases "p < length P") (simp_all add: players_kept_def nth_list_update not_less list_update_beyond)

lemma clear_tmp_ok:
  "\<exists>P. fold (\<lambda>p s. if p_ball_tmp (plr_at s p) = Some i then upd_plr p (\<lambda>x. x\<lparr>p_ball_tmp := None\<rparr>) s else s) ps s =
     s\<lparr>playerArray := P\<rparr> \<and> players_kept (playerArray s) P"
proof (induction ps arbitrary: s)
  case Nil
  then show ?case by (auto intro!: exI [of _ "playerArray s"])
next
  case (Cons p ps)
  let ?s1 = "if p_ball_tmp (plr_at s p) = Some i then upd_plr p (\<lambda>x. x\<lparr>p_ball_tmp := None\<rparr>) s else s"
  have "\<exists>P1. ?s1 = s\<lparr>playerArray := P1\<rparr> \<and> players_kept (playerArray s) P1"
  proof (cases "p_ball_tmp (plr_at s p) = Some i")
    case True
    have "ball_changes (plr_at s p) ((plr_at s p)\<lparr>p_ball_tmp := None\<rparr>)" by (cases "plr_at s p") (simp add: ball_changes_def)
    then show ?thesis using True players_kept_update by (auto simp: upd_plr_def)
  qed (auto intro!: exI [of _ "playerArray s"])
  then obtain P1 where P1: "?s1 = s\<lparr>playerArray := P1\<rparr>" "players_kept (playerArray s) P1" by blast
  from Cons.IH [of "s\<lparr>playerArray := P1\<rparr>"] P1 show ?case using players_kept_trans by fastforce
qed

lemma live_below: "objects_ok s \<Longrightarrow> i \<in> set (live_objects s) \<Longrightarrow> i < length (objArray s)"
  by (auto simp: objects_ok_def pool_ok_def live_objects_def dest: in_set_takeD)

lemma object_release_ok:
  assumes "objects_ok s" "i \<in> set (live_objects s)"
  obtains P Q T where "object_release i s = Some (s\<lparr>playerArray := P, objArray := Q, treasures := T\<rparr>)"
    "players_kept (playerArray s) P" "length Q = length (objArray s)" "\<And>j. j \<noteq> i \<Longrightarrow> Q ! j = obj_at s j"
    "Q ! i = (obj_at s i)\<lparr>o_attached := o_attached (Q ! i)\<rparr>" "map tr_team T = map tr_team (treasures s)"
proof -
  let ?x = "obj_at s i"
  have x: "object_ok s ?x" using assms by (simp add: objects_ok_def)
  have same: "?x = ?x\<lparr>o_attached := o_attached ?x\<rparr>" by (cases ?x) simp
  have T: "map tr_team ((treasures s)[t := (treasures s ! t)\<lparr>tr_have := False\<rparr>]) = map tr_team (treasures s)" for t
    by (cases "t < length (treasures s)") (simp_all add: map_update list_update_same_conv not_less list_update_beyond)
  consider (attached) p t where "o_type ?x = OBJ_BALL" "o_attached ?x" "o_owner ?x = Some p" "p < length (playerArray s)" "o_treasure ?x = Some t"
    | (loose) t where "o_type ?x = OBJ_BALL" "\<not> o_attached ?x" "o_treasure ?x = Some t"
    | (shot) p where "o_type ?x = OBJ_SHOT" "o_owner ?x = Some p"
    | (other) "o_type ?x \<noteq> OBJ_BALL" "o_type ?x = OBJ_SHOT \<Longrightarrow> o_owner ?x = None"
    using x by (fastforce simp: object_ok_def)
  then show ?thesis
  proof cases
    case attached
    obtain y Q where y: "Ball_detach p (Some i) s = s\<lparr>playerArray := (playerArray s)[p := y], objArray := Q\<rparr>"
      "freed_plr (Some i) (plr_at s p) y" "length Q = length (objArray s)"
      "\<And>j. Q ! j = (if j \<in> set (live_objects s) \<and> p_has_ball (plr_at s p) \<and> lets_go p (Some i) j (obj_at s j)
                  then (obj_at s j)\<lparr>o_attached := False\<rparr> else obj_at s j)"
      using Ball_detach_ok [of s p "Some i"] live_below [OF assms(1)] attached(4) by metis
    have Qi: "Q ! i = ?x\<lparr>o_attached := o_attached (Q ! i)\<rparr>" "\<And>j. j \<noteq> i \<Longrightarrow> Q ! j = obj_at s j"
      using same by (auto simp: y(4) lets_go_def)
    moreover have "o_treasure (Q ! i) = Some t" using attached(5) Qi(1) by (metis game_object.select_convs(7) game_object.surjective game_object.update_convs(5))
    moreover have "players_kept (playerArray s) ((playerArray s)[p := y])"
      using players_kept_update freed_plr_changes y(2) by blast
    ultimately show ?thesis using attached y(1,3) T
      by (intro that [of "(treasures s)[t := (treasures s ! t)\<lparr>tr_have := False\<rparr>]" Q "(playerArray s)[p := y]"])
        (simp_all add: object_release_def)
  next
    case loose
    obtain P where "fold (\<lambda>p s. if p_ball_tmp (plr_at s p) = Some i then upd_plr p (\<lambda>x. x\<lparr>p_ball_tmp := None\<rparr>) s else s) (playing s) s =
      s\<lparr>playerArray := P\<rparr>" "players_kept (playerArray s) P" using clear_tmp_ok by blast
    then show ?thesis using loose T same
      by (intro that [of "(treasures s)[t := (treasures s ! t)\<lparr>tr_have := False\<rparr>]" "objArray s" P]) (simp_all add: object_release_def)
  next
    case shot
    let ?y = "(plr_at s p)\<lparr>p_shots := (if p_shots (plr_at s p) - 1 \<le> 0 then 0 else p_shots (plr_at s p) - 1)\<rparr>"
    have "ball_changes (plr_at s p) ?y" by (cases "plr_at s p") (simp add: ball_changes_def)
    then show ?thesis using shot same players_kept_update
      by (intro that [of "treasures s" "objArray s" "(playerArray s)[p := ?y]"]) (simp_all add: object_release_def upd_plr_def)
  next
    case other
    then have "object_release i s = Some s" by (simp add: object_release_def split: obj_type.splits)
    then show ?thesis using same by (intro that [of "treasures s" "objArray s" "playerArray s"]) simp_all
  qed
qed

subsection \<open>One frame of the pool\<close>

text \<open>An object up to its index and its loose counters, and what a frame makes of it: nothing when its time is over, but a
  ball is put back into its treasure.\<close>

type_synonym object_core = "obj_type \<times> nat option \<times> nat option \<times> bool \<times> int \<times> nat option"

definition core :: "game_object \<Rightarrow> object_core" where
  "core x = (o_type x, o_team x, o_owner x, o_attached x, o_life x, o_treasure x)"

definition frame_effect :: "bool \<Rightarrow> nat option list \<Rightarrow> game_object \<Rightarrow> object_core option" where
  "frame_effect rf homes x =
     (if \<not> rf \<and> (o_type x = OBJ_SPARK \<or> o_type x = OBJ_DEBRIS) then Some (core x)
      else if o_life x > 1 then Some (o_type x, o_team x, o_owner x, o_attached x, o_life x - 1, o_treasure x)
      else if o_type x = OBJ_BALL then Some (OBJ_BALL, homes ! the (o_treasure x), None, False, MAX_OBJECT_LIFE, o_treasure x)
      else None)"

lemma frame_effect_core: "core x = core y \<Longrightarrow> frame_effect rf homes x = frame_effect rf homes y"
  by (simp add: core_def frame_effect_def)

lemma core_id [simp]: "core (x\<lparr>o_id := k\<rparr>) = core x"
  by (simp add: core_def)

lemma object_ok_core:
  assumes "object_ok s x" "core y = core x" "length (playerArray s') = length (playerArray s)"
    "length (treasures s') = length (treasures s)"
  shows "object_ok s' y"
  using assms by (auto simp: object_ok_def core_def)

lemma live_iff: "i \<in> set (live_objects s) \<longleftrightarrow> (\<exists>k < min (NumObjs s) (length (Obj s)). Obj s ! k = i)"
  by (auto simp: live_objects_def in_set_conv_nth)

lemma object_unlink_ok:
  assumes "pool_ok s" "k < NumObjs s" "Obj s ! k = i"
  obtains s' where "object_unlink i s = Some s'" "pool_ok s'" "NumObjs s' = NumObjs s - 1"
    "set (live_objects s') = set (live_objects s) - {i}" "Obj s' ! (NumObjs s - 1) = i" "\<And>m. m < k \<Longrightarrow> Obj s' ! m = Obj s ! m"
    "\<And>j. j \<noteq> i \<Longrightarrow> core (obj_at s' j) = core (obj_at s j)"
    "s' = s\<lparr>NumObjs := NumObjs s', Obj := Obj s', objArray := objArray s'\<rparr>"
    "obj_at s' i = object_zero\<lparr>o_id := NumObjs s - 1\<rparr>"
proof -
  let ?N = MAX_TOTAL_OBJECTS and ?n = "NumObjs s - 1"
  have p: "length (Obj s) = ?N" "length (objArray s) = ?N" "NumObjs s \<le> ?N" "distinct (Obj s)" "set (Obj s) = {..< ?N}"
    "\<And>k. k < ?N \<Longrightarrow> o_id (obj_at s (Obj s ! k)) = k"
    using assms(1) by (auto simp: pool_ok_def)
  have k: "k < ?N" "?n < ?N" "k \<le> ?n" "o_id (obj_at s i) = k" using assms p by auto
  define l where "l = Obj s ! ?n"
  have il: "i < ?N" "l < ?N"
    using nth_mem [of k "Obj s"] nth_mem [of ?n "Obj s"] p(1,5) k(1,2) assms(3) by (simp_all add: l_def)
  have il_eq: "i = l \<longleftrightarrow> k = ?n" using nth_eq_iff_index_eq [OF p(4)] k p(1) by (simp add: l_def assms(3) [symmetric])
  define s' where "s' = s\<lparr>NumObjs := ?n, Obj := (Obj s)[k := l, ?n := i],
    objArray := (objArray s)[l := (obj_at s l)\<lparr>o_id := k\<rparr>, i := object_zero\<lparr>o_id := ?n\<rparr>]\<rparr>"
  have run: "object_unlink i s = Some s'" using assms(2) k(4) by (simp add: object_unlink_def s'_def l_def Let_def)
  have O: "Obj s' ! m = (if m = ?n then i else if m = k then l else Obj s ! m)" if "m < ?N" for m
    using that p(1) k by (simp add: s'_def nth_list_update)
  have sw: "Obj s' = (Obj s)[k := Obj s ! ?n, ?n := Obj s ! k]" by (simp add: s'_def l_def assms(3))
  have obj: "obj_at s' j = (if j = i then object_zero\<lparr>o_id := ?n\<rparr> else if j = l then (obj_at s l)\<lparr>o_id := k\<rparr> else obj_at s j)" for j
    using il p(2) by (simp add: s'_def nth_list_update)
  have "o_id (obj_at s' (Obj s' ! m)) = m" if m: "m < ?N" for m
  proof -
    have "Obj s ! m = i \<longleftrightarrow> m = k" "Obj s ! m = l \<longleftrightarrow> m = ?n"
      using nth_eq_iff_index_eq [OF p(4)] k p(1) m by (simp_all add: l_def assms(3) [symmetric])
    then show ?thesis using O [OF m] p(6) [OF m] il_eq by (auto simp: obj)
  qed
  moreover have "distinct (Obj s')" "set (Obj s') = {..< ?N}"
    unfolding sw using p(1,4,5) k by (simp_all add: distinct_swap set_swap)
  ultimately have ok: "pool_ok s'" using p k by (simp add: pool_ok_def s'_def)
  have "set (live_objects s') = set (live_objects s) - {i}"
  proof -
    have "j \<in> set (live_objects s') \<longleftrightarrow> j \<in> set (live_objects s) - {i}" for j
    proof
      assume "j \<in> set (live_objects s')"
      then obtain m where m: "m < ?n" "Obj s' ! m = j" using p(1,3) k by (auto simp: live_iff s'_def)
      have "j \<noteq> i" using nth_eq_iff_index_eq [OF p(4), of m k] O [of m] m k p(1,3) il_eq assms(3) by (auto split: if_splits)
      moreover have "j \<in> set (live_objects s)"
        unfolding live_iff using O [of m] m k(1-3) p(1,3) assms(2)
        by (intro exI [of _ "if m = k then ?n else m"]) (auto simp: l_def)
      ultimately show "j \<in> set (live_objects s) - {i}" by blast
    next
      assume "j \<in> set (live_objects s) - {i}"
      then obtain m where m: "m < NumObjs s" "Obj s ! m = j" "j \<noteq> i" using p(1,3) by (auto simp: live_iff)
      then have m: "m \<le> ?n" "Obj s ! m = j" "m \<noteq> k" using assms(3) by auto
      have lt: "k < ?n" if "m = ?n" using m(3) k(3) that by simp
      show "j \<in> set (live_objects s')"
        unfolding live_iff using O [of m] O [of k] m k p(1,3) lt
        by (intro exI [of _ "if m = ?n then k else m"]) (auto simp: s'_def l_def)
    qed
    then show ?thesis by blast
  qed
  moreover have "core (obj_at s' j) = core (obj_at s j)" if "j \<noteq> i" for j using that by (simp add: obj)
  ultimately show ?thesis
    using that [OF run ok] O k by (simp add: obj) (simp add: s'_def)
qed

lemma tr_team_update [simp]: "map tr_team (T[t := (T ! t)\<lparr>tr_have := b\<rparr>]) = map tr_team T"
  by (cases "t < length T") (simp_all add: map_update list_update_same_conv not_less list_update_beyond)

lemma Ball_treasure_add_ok:
  assumes "pool_ok s" "NumObjs s < MAX_TOTAL_OBJECTS" "Obj s ! NumObjs s = i"
  obtains s' where "Ball_treasure_add t s = Some s'" "pool_ok s'" "NumObjs s' = NumObjs s + 1"
    "set (live_objects s') = insert i (set (live_objects s))"
    "core (obj_at s' i) = (OBJ_BALL, tr_team ((treasures s)[t := (treasures s ! t)\<lparr>tr_have := True\<rparr>] ! t), None, False, MAX_OBJECT_LIFE, Some t)"
    "\<And>j. j \<noteq> i \<Longrightarrow> obj_at s' j = obj_at s j" "map tr_team (treasures s') = map tr_team (treasures s)"
    "s' = s\<lparr>NumObjs := NumObjs s', objArray := objArray s', treasures := treasures s'\<rparr>"
proof -
  let ?N = MAX_TOTAL_OBJECTS
  let ?T = "(treasures s)[t := (treasures s ! t)\<lparr>tr_have := True\<rparr>]"
  have p: "length (Obj s) = ?N" "length (objArray s) = ?N" "distinct (Obj s)" "set (Obj s) = {..< ?N}"
    "\<And>k. k < ?N \<Longrightarrow> o_id (obj_at s (Obj s ! k)) = k"
    using assms(1) by (auto simp: pool_ok_def)
  have i: "i < ?N" using nth_mem [of "NumObjs s" "Obj s"] p(1,4) assms(2,3) by simp
  define s' where "s' = s\<lparr>NumObjs := NumObjs s + 1, treasures := ?T,
    objArray := (objArray s)[i := new_ball t (s\<lparr>treasures := ?T\<rparr>) (obj_at s i)]\<rparr>"
  have nb: "new_ball t (s\<lparr>NumObjs := n, treasures := ?T\<rparr>) x = new_ball t (s\<lparr>treasures := ?T\<rparr>) x" for n x
    by (simp add: new_ball_def)
  have run: "Ball_treasure_add t s = Some s'"
    using assms(2,3) p(1) by (simp add: Ball_treasure_add_def Object_add_def upd_obj_def s'_def nb Let_def)
  have obj: "obj_at s' j = (if j = i then new_ball t (s\<lparr>treasures := ?T\<rparr>) (obj_at s i) else obj_at s j)" for j
    using i p(2) by (simp add: s'_def nth_list_update)
  have "o_id (obj_at s' j) = o_id (obj_at s j)" for j by (simp add: obj new_ball_def)
  then have "pool_ok s'" using p assms(2) by (simp add: pool_ok_def s'_def)
  moreover have "set (live_objects s') = insert i (set (live_objects s))"
    using p(1) assms(2,3) by (simp add: live_objects_def s'_def take_Suc_conv_app_nth)
  ultimately show ?thesis
    by (intro that [OF run]) (simp_all add: obj new_ball_def core_def, simp_all add: s'_def)
qed

lemma time_out_one_ok:
  assumes ok: "objects_ok s" and k: "k < NumObjs s" and i: "Obj s ! k = i"
  obtains s' where "time_out_one rf k s = Some s'" "objects_ok s'" "k \<le> NumObjs s'" "\<And>m. m < k \<Longrightarrow> Obj s' ! m = Obj s ! m"
    "\<And>j. j \<noteq> i \<Longrightarrow> core (obj_at s' j) = core (obj_at s j)" "map tr_team (treasures s') = map tr_team (treasures s)"
    "\<And>c. frame_effect rf (map tr_team (treasures s)) (obj_at s i) = Some c \<Longrightarrow>
       set (live_objects s') = set (live_objects s) \<and> core (obj_at s' i) = c"
    "frame_effect rf (map tr_team (treasures s)) (obj_at s i) = None \<Longrightarrow> set (live_objects s') = set (live_objects s) - {i}"
    "players_kept (playerArray s) (playerArray s')"
    "s' = s\<lparr>playerArray := playerArray s', treasures := treasures s', NumObjs := NumObjs s', Obj := Obj s', objArray := objArray s'\<rparr>"
proof -
  let ?x = "obj_at s i" and ?h = "map tr_team (treasures s)"
  have live: "i \<in> set (live_objects s)" using ok k i by (auto simp: live_iff objects_ok_def pool_ok_def)
  have pool: "pool_ok s" and x: "object_ok s ?x" and oks: "\<And>j. j \<in> set (live_objects s) \<Longrightarrow> object_ok s (obj_at s j)"
    using ok live by (auto simp: objects_ok_def)
  have ilt: "i < length (objArray s)" using live_below [OF ok live] .
  consider (skip) "\<not> rf" "o_type ?x = OBJ_SPARK \<or> o_type ?x = OBJ_DEBRIS"
    | (age) "rf \<or> o_type ?x \<noteq> OBJ_SPARK \<and> o_type ?x \<noteq> OBJ_DEBRIS" by blast
  then show ?thesis
  proof cases
    case skip
    then have "time_out_one rf k s = Some s" "frame_effect rf ?h ?x = Some (core ?x)"
      using i by (auto simp: time_out_one_def frame_effect_def)
    then show ?thesis using ok k by (intro that [of s]) simp_all
  next
    case age
    define s1 where "s1 = upd_obj i (age_object rf s) s"
    have o1: "obj_at s1 j = (if j = i then age_object rf s ?x else obj_at s j)" for j
      using ilt by (simp add: s1_def upd_obj_def nth_list_update)
    have f1: "NumObjs s1 = NumObjs s" "Obj s1 = Obj s" "treasures s1 = treasures s" "playerArray s1 = playerArray s"
      "live_objects s1 = live_objects s" "length (objArray s1) = length (objArray s)"
      by (simp_all add: s1_def upd_obj_def live_objects_def)
    have aged: "core (age_object rf s ?x) = (o_type ?x, o_team ?x, o_owner ?x, o_attached ?x, o_life ?x - 1, o_treasure ?x)"
      "o_id (age_object rf s ?x) = o_id ?x"
      by (simp_all add: age_object_def core_def Let_def)
    have okx: "object_ok s1 (obj_at s1 j)" if "j \<in> set (live_objects s)" for j
    proof (cases "j = i")
      case True
      have "object_ok s (age_object rf s ?x)" using x by (simp add: object_ok_def age_object_def Let_def)
      then show ?thesis using True by (simp add: o1 object_ok_def f1)
    next
      case False
      then show ?thesis using oks [OF that] by (simp add: o1 object_ok_def f1)
    qed
    have "o_id (obj_at s1 j) = o_id (obj_at s j)" for j using aged(2) by (simp add: o1)
    then have ok1: "objects_ok s1" using pool okx by (simp add: objects_ok_def pool_ok_def f1)
    have go: "time_out_one rf k s =
       (if o_life ?x > 1 then Some s1
        else do { s2 \<leftarrow> Object_remove i s1;
                  (case (o_type ?x, o_treasure ?x) of (OBJ_BALL, Some t) \<Rightarrow> Ball_treasure_add t s2 | _ \<Rightarrow> Some s2) })"
      using age i x aged(1) ilt unfolding time_out_one_def s1_def [symmetric] Let_def i o1 by (auto simp: object_ok_def core_def o1)
    show ?thesis
    proof (cases "o_life ?x > 1")
      case True
      then have e: "frame_effect rf ?h ?x = Some (core (age_object rf s ?x))" using age aged(1) by (auto simp: frame_effect_def)
      show ?thesis
      proof (rule that [of s1])
        show "time_out_one rf k s = Some s1" using go True by simp
        show "s1 = s\<lparr>playerArray := playerArray s1, treasures := treasures s1, NumObjs := NumObjs s1, Obj := Obj s1, objArray := objArray s1\<rparr>"
          by (simp add: s1_def upd_obj_def)
      qed (use e ok1 k in \<open>simp_all add: f1 o1\<close>)
    next
      case False
      obtain P Q T where r: "object_release i s1 = Some (s1\<lparr>playerArray := P, objArray := Q, treasures := T\<rparr>)"
        "players_kept (playerArray s1) P" "length Q = length (objArray s1)" "\<And>j. j \<noteq> i \<Longrightarrow> Q ! j = obj_at s1 j"
        "Q ! i = (obj_at s1 i)\<lparr>o_attached := o_attached (Q ! i)\<rparr>" "map tr_team T = map tr_team (treasures s1)"
        using object_release_ok [OF ok1, of i] live by (metis f1(5))
      define s2 where "s2 = s1\<lparr>playerArray := P, objArray := Q, treasures := T\<rparr>"
      have o2: "obj_at s2 j = obj_at s j" if "j \<noteq> i" for j using r(4) that by (simp add: s2_def o1)
      have "o_id (Q ! i) = o_id ?x" using arg_cong [OF r(5), of o_id] aged(2) by (simp add: o1)
      then have id2: "o_id (obj_at s2 j) = o_id (obj_at s j)" for j using o2 by (cases "j = i") (simp_all add: s2_def)
      have f2: "NumObjs s2 = NumObjs s" "Obj s2 = Obj s" "live_objects s2 = live_objects s" "playerArray s2 = P" "treasures s2 = T"
        by (simp_all add: s2_def f1 live_objects_def)
      have length2: "length (objArray s2) = length (objArray s)" using r(3) f1(6) by (simp add: s2_def)
      have pool2: "pool_ok s2" using pool length2 unfolding pool_ok_def f2 id2 by simp
      have "k < NumObjs s2" "Obj s2 ! k = i" using k i by (simp_all add: f2)
      then obtain s3 where s3: "object_unlink i s2 = Some s3" "pool_ok s3" "NumObjs s3 = NumObjs s2 - 1"
        "set (live_objects s3) = set (live_objects s2) - {i}" "Obj s3 ! (NumObjs s2 - 1) = i" "\<And>m. m < k \<Longrightarrow> Obj s3 ! m = Obj s2 ! m"
        "\<And>j. j \<noteq> i \<Longrightarrow> core (obj_at s3 j) = core (obj_at s2 j)"
        "s3 = s2\<lparr>NumObjs := NumObjs s3, Obj := Obj s3, objArray := objArray s3\<rparr>"
        "obj_at s3 i = object_zero\<lparr>o_id := NumObjs s2 - 1\<rparr>"
        by (rule object_unlink_ok [OF pool2]) (rule that; (assumption | blast))
      have rem: "Object_remove i s1 = Some s3" using r(1) s3(1) by (simp add: Object_remove_def s2_def)
      have f3: "playerArray s3 = P" "treasures s3 = T" by (subst s3(8), simp add: f2)+
      have kept: "players_kept (playerArray s) P" "map tr_team T = ?h" using r(2,6) f1 by simp_all
      then have len: "length P = length (playerArray s)" "length T = length (treasures s)"
        using kept(1) map_eq_imp_length_eq [OF kept(2)] by (simp_all add: players_kept_def)
      have rest3: "s3 = s\<lparr>playerArray := playerArray s3, treasures := treasures s3, NumObjs := NumObjs s3, Obj := Obj s3, objArray := objArray s3\<rparr>"
        using s3(8) f3 by (simp add: s2_def s1_def upd_obj_def)
      have other: "core (obj_at s3 j) = core (obj_at s j)" if "j \<noteq> i" for j using s3(7) [OF that] o2 [OF that] by simp
      have oks3: "object_ok s3 (obj_at s3 j)" if "j \<in> set (live_objects s)" "j \<noteq> i" for j
        by (rule object_ok_core [OF oks [OF that(1)] other [OF that(2)]]) (simp_all add: f3 len)
      have effect: "frame_effect rf ?h ?x =
          (if o_type ?x = OBJ_BALL then Some (OBJ_BALL, ?h ! the (o_treasure ?x), None, False, MAX_OBJECT_LIFE, o_treasure ?x) else None)"
        using age False by (auto simp: frame_effect_def)
      show ?thesis
      proof (cases "o_type ?x = OBJ_BALL")
        case True
        then obtain t where t: "o_treasure ?x = Some t" "t < length (treasures s)" using x by (auto simp: object_ok_def)
        have "NumObjs s3 < MAX_TOTAL_OBJECTS" "Obj s3 ! NumObjs s3 = i" using s3(3,5) pool k by (auto simp: f2 pool_ok_def)
        from Ball_treasure_add_ok [OF s3(2) this, of t] obtain s4 where
          s4: "Ball_treasure_add t s3 = Some s4" "pool_ok s4" "NumObjs s4 = NumObjs s3 + 1"
            "set (live_objects s4) = insert i (set (live_objects s3))"
            "core (obj_at s4 i) = (OBJ_BALL, tr_team ((treasures s3)[t := (treasures s3 ! t)\<lparr>tr_have := True\<rparr>] ! t), None, False, MAX_OBJECT_LIFE, Some t)"
            "\<And>j. j \<noteq> i \<Longrightarrow> obj_at s4 j = obj_at s3 j" "map tr_team (treasures s4) = map tr_team (treasures s3)"
            "s4 = s3\<lparr>NumObjs := NumObjs s4, objArray := objArray s4, treasures := treasures s4\<rparr>"
          by blast
        have f4: "playerArray s4 = P" "Obj s4 = Obj s3" by (subst s4(8), simp add: f3)+
        have "tr_team (T[t := (T ! t)\<lparr>tr_have := True\<rparr>] ! t) = map tr_team (T[t := (T ! t)\<lparr>tr_have := True\<rparr>]) ! t"
          using t(2) len(2) by (subst nth_map) simp_all
        then have homes: "map tr_team (treasures s4) = ?h" "tr_team ((treasures s3)[t := (treasures s3 ! t)\<lparr>tr_have := True\<rparr>] ! t) = ?h ! t"
          using s4(7) kept(2) by (simp_all only: f3 tr_team_update)
        have live4: "set (live_objects s4) = set (live_objects s)" using s4(4) s3(4) live by (auto simp: f2)
        have "length (treasures s4) = length (treasures s)" by (rule map_eq_imp_length_eq [OF homes(1)])
        then have "object_ok s4 (obj_at s4 j)" if "j \<in> set (live_objects s)" for j
        proof (cases "j = i")
          case True
          then show ?thesis using s4(5) t(2) \<open>length (treasures s4) = length (treasures s)\<close> by (simp add: core_def object_ok_def)
        next
          case False
          show ?thesis
            by (rule object_ok_core [OF oks3 [OF that False]])
              (simp_all add: s4(6) [OF False] f3 f4 len \<open>length (treasures s4) = length (treasures s)\<close>)
        qed
        then have ok4: "objects_ok s4" using s4(2) live4 by (simp add: objects_ok_def)
        show ?thesis
        proof (rule that [OF _ ok4])
          show "time_out_one rf k s = Some s4" using go False rem True t(1) s4(1) by simp
          show "k \<le> NumObjs s4" using s4(3) s3(3) k by (simp add: f2)
          show "Obj s4 ! m = Obj s ! m" if "m < k" for m using s3(6) [OF that] f4 f2 by simp
          show "core (obj_at s4 j) = core (obj_at s j)" if "j \<noteq> i" for j using s4(6) [OF that] other [OF that] by simp
          show "map tr_team (treasures s4) = ?h" by (rule homes)
          show "players_kept (playerArray s) (playerArray s4)" using kept f4 by simp
          show "s4 = s\<lparr>playerArray := playerArray s4, treasures := treasures s4, NumObjs := NumObjs s4, Obj := Obj s4, objArray := objArray s4\<rparr>"
            using s4(8) rest3 f3 f4 by (cases s; cases s3; cases s4) simp
        qed (use live4 s4(5) homes(2) True t(1) effect in \<open>auto\<close>)
      next
        case notball: False
        have live3: "set (live_objects s3) = set (live_objects s) - {i}" using s3(4) by (simp add: f2)
        have ok3: "objects_ok s3" using s3(2) oks3 live3 by (simp add: objects_ok_def)
        show ?thesis
        proof (rule that [OF _ ok3])
          show "time_out_one rf k s = Some s3" using go False rem notball by (simp split: obj_type.splits)
          show "k \<le> NumObjs s3" using s3(3) k by (simp add: f2)
          show "Obj s3 ! m = Obj s ! m" if "m < k" for m using s3(6) [OF that] f2 by simp
          show "core (obj_at s3 j) = core (obj_at s j)" if "j \<noteq> i" for j by (rule other [OF that])
          show "map tr_team (treasures s3) = ?h" using kept f3 by simp
          show "players_kept (playerArray s) (playerArray s3)" using kept f3 by simp
          show "s3 = s\<lparr>playerArray := playerArray s3, treasures := treasures s3, NumObjs := NumObjs s3, Obj := Obj s3, objArray := objArray s3\<rparr>"
            by (rule rest3)
        qed (use live3 effect notball in \<open>auto\<close>)
      qed
    qed
  qed
qed

lemma time_out_loop_ok:
  assumes "objects_ok s" "k \<le> NumObjs s"
  shows "\<exists>s'. time_out_loop rf k s = Some s' \<and> objects_ok s' \<and> map tr_team (treasures s') = map tr_team (treasures s) \<and>
    players_kept (playerArray s) (playerArray s') \<and>
    s' = s\<lparr>playerArray := playerArray s', treasures := treasures s', NumObjs := NumObjs s', Obj := Obj s', objArray := objArray s'\<rparr> \<and>
    set (live_objects s') = {i \<in> set (live_objects s). i \<in> set (take k (Obj s)) \<longrightarrow>
       frame_effect rf (map tr_team (treasures s)) (obj_at s i) \<noteq> None} \<and>
    (\<forall>i \<in> set (live_objects s'). Some (core (obj_at s' i)) =
       (if i \<in> set (take k (Obj s)) then frame_effect rf (map tr_team (treasures s)) (obj_at s i) else Some (core (obj_at s i))))"
  using assms
proof (induction k arbitrary: s)
  case 0
  then show ?case by (cases s) simp
next
  case (Suc k)
  let ?i = "Obj s ! k" and ?h = "map tr_team (treasures s)"
  have d: "distinct (Obj s)" "k < length (Obj s)" using Suc.prems by (auto simp: objects_ok_def pool_ok_def)
  have "k < NumObjs s" using Suc.prems(2) by simp
  from time_out_one_ok [OF Suc.prems(1) this refl, of rf] obtain s1 where
    one: "time_out_one rf k s = Some s1" "objects_ok s1" "k \<le> NumObjs s1" "\<And>m. m < k \<Longrightarrow> Obj s1 ! m = Obj s ! m"
      "\<And>j. j \<noteq> ?i \<Longrightarrow> core (obj_at s1 j) = core (obj_at s j)" "map tr_team (treasures s1) = ?h"
      "\<And>c. frame_effect rf ?h (obj_at s ?i) = Some c \<Longrightarrow> set (live_objects s1) = set (live_objects s) \<and> core (obj_at s1 ?i) = c"
      "frame_effect rf ?h (obj_at s ?i) = None \<Longrightarrow> set (live_objects s1) = set (live_objects s) - {?i}"
      "players_kept (playerArray s) (playerArray s1)"
      "s1 = s\<lparr>playerArray := playerArray s1, treasures := treasures s1, NumObjs := NumObjs s1, Obj := Obj s1, objArray := objArray s1\<rparr>"
    by blast
  have len: "length (Obj s1) = length (Obj s)" using one(2) Suc.prems(1) by (simp add: objects_ok_def pool_ok_def)
  have tk: "take k (Obj s1) = take k (Obj s)" using one(4) len d(2) by (simp add: nth_take_lemma)
  have tS: "set (take (Suc k) (Obj s)) = insert ?i (set (take k (Obj s)))" "?i \<notin> set (take k (Obj s))"
    using d distinct_take [of "Obj s" "Suc k"] by (simp_all add: take_Suc_conv_app_nth)
  have eff: "frame_effect rf ?h (obj_at s1 j) = frame_effect rf ?h (obj_at s j)" if "j \<in> set (take k (Obj s))" for j
  proof -
    have "j \<noteq> ?i" using that tS(2) by blast
    then show ?thesis by (intro frame_effect_core one(5))
  qed
  from Suc.IH [OF one(2,3)] obtain s' where
    s': "time_out_loop rf k s1 = Some s'" "objects_ok s'" "map tr_team (treasures s') = map tr_team (treasures s1)"
      "players_kept (playerArray s1) (playerArray s')"
      "s' = s1\<lparr>playerArray := playerArray s', treasures := treasures s', NumObjs := NumObjs s', Obj := Obj s', objArray := objArray s'\<rparr>"
      "set (live_objects s') = {i \<in> set (live_objects s1). i \<in> set (take k (Obj s1)) \<longrightarrow> frame_effect rf (map tr_team (treasures s1)) (obj_at s1 i) \<noteq> None}"
      "\<forall>i \<in> set (live_objects s'). Some (core (obj_at s' i)) =
         (if i \<in> set (take k (Obj s1)) then frame_effect rf (map tr_team (treasures s1)) (obj_at s1 i) else Some (core (obj_at s1 i)))"
    by blast
  have live: "set (live_objects s1) = {i \<in> set (live_objects s). i = ?i \<longrightarrow> frame_effect rf ?h (obj_at s ?i) \<noteq> None}"
    using one(7,8) by (cases "frame_effect rf ?h (obj_at s ?i)") auto
  have "set (live_objects s') = {i \<in> set (live_objects s). i \<in> set (take (Suc k) (Obj s)) \<longrightarrow> frame_effect rf ?h (obj_at s i) \<noteq> None}"
    unfolding s'(6) tk one(6) tS(1) live using eff by auto
  moreover have "Some (core (obj_at s' i)) =
      (if i \<in> set (take (Suc k) (Obj s)) then frame_effect rf ?h (obj_at s i) else Some (core (obj_at s i)))"
    if "i \<in> set (live_objects s')" for i
  proof (cases "i = ?i")
    case True
    have "i \<in> set (live_objects s1)" using that s'(6) by blast
    then obtain c where "frame_effect rf ?h (obj_at s ?i) = Some c" using live True by auto
    then show ?thesis using bspec [OF s'(7) that] one(7) True tS by (simp add: tk)
  next
    case False
    then show ?thesis using bspec [OF s'(7) that] one(5,6) eff tS(1) by (auto simp: tk)
  qed
  moreover have "s' = s\<lparr>playerArray := playerArray s', treasures := treasures s', NumObjs := NumObjs s', Obj := Obj s', objArray := objArray s'\<rparr>"
    using s'(5) one(10) by (cases s; cases s1; cases s') simp
  ultimately show ?case
    using one(1,6) s'(1-4) players_kept_trans [OF one(9) s'(4)] by auto
qed

lemma distinct_live: "objects_ok s \<Longrightarrow> distinct (live_objects s)"
  by (simp add: objects_ok_def pool_ok_def live_objects_def)

lemma balls_kept:
  assumes "objects_ok s" "objects_ok s'"
    "set (live_objects s') = {i \<in> set (live_objects s). frame_effect rf h (obj_at s i) \<noteq> None}"
    "\<forall>i \<in> set (live_objects s'). Some (core (obj_at s' i)) = frame_effect rf h (obj_at s i)"
  shows "length (balls_of s' t) = length (balls_of s t)"
proof -
  have "i \<in> set (balls_of s' t) \<longleftrightarrow> i \<in> set (balls_of s t)" for i
  proof
    assume b: "i \<in> set (balls_of s' t)"
    then have "i \<in> set (live_objects s')" by (simp add: balls_of_def)
    with assms(3,4) have "i \<in> set (live_objects s)" "Some (core (obj_at s' i)) = frame_effect rf h (obj_at s i)" by blast+
    then show "i \<in> set (balls_of s t)"
      using b by (auto simp: balls_of_def core_def frame_effect_def split: if_splits)
  next
    assume a: "i \<in> set (balls_of s t)"
    then have i: "i \<in> set (live_objects s')" using assms(3) by (auto simp: balls_of_def frame_effect_def)
    then show "i \<in> set (balls_of s' t)"
      using a bspec [OF assms(4) i] by (auto simp: balls_of_def core_def frame_effect_def split: if_splits)
  qed
  then have "set (balls_of s' t) = set (balls_of s t)" by blast
  moreover have "distinct (balls_of s' t)" "distinct (balls_of s t)"
    using distinct_live assms(1,2) by (simp_all add: balls_of_def)
  ultimately show ?thesis by (metis distinct_card)
qed

subsection \<open>Properties\<close>

text \<open>C6. One frame removes exactly the objects whose time is over, each object ages once although the array is
  rearranged under the loop, an expired ball is put back into its treasure, and every treasure keeps its number of balls.\<close>

theorem Objects_remove_timed_out_exact:
  assumes "objects_ok s"
  shows "\<exists>s'. Objects_remove_timed_out rf s = Some s' \<and> objects_ok s' \<and>
    set (live_objects s') = {i \<in> set (live_objects s). frame_effect rf (map tr_team (treasures s)) (obj_at s i) \<noteq> None} \<and>
    (\<forall>i \<in> set (live_objects s'). Some (core (obj_at s' i)) = frame_effect rf (map tr_team (treasures s)) (obj_at s i)) \<and>
    (\<forall>t. length (balls_of s' t) = length (balls_of s t))"
proof -
  let ?h = "map tr_team (treasures s)"
  have k: "NumObjs s \<le> length (Obj s)" using assms by (simp add: objects_ok_def pool_ok_def)
  have "set (take (NumObjs s) (Obj s)) = set (live_objects s)" by (simp add: live_objects_def)
  note loop = time_out_loop_ok [OF assms order_refl, of rf, unfolded this]
  from loop obtain s' where s': "time_out_loop rf (NumObjs s) s = Some s'" "objects_ok s'"
    "set (live_objects s') = {i \<in> set (live_objects s). i \<in> set (live_objects s) \<longrightarrow> frame_effect rf ?h (obj_at s i) \<noteq> None}"
    "\<forall>i \<in> set (live_objects s'). Some (core (obj_at s' i)) =
       (if i \<in> set (live_objects s) then frame_effect rf ?h (obj_at s i) else Some (core (obj_at s i)))"
    by blast
  have live: "set (live_objects s') = {i \<in> set (live_objects s). frame_effect rf ?h (obj_at s i) \<noteq> None}"
    using s'(3) by blast
  have "\<forall>i \<in> set (live_objects s'). Some (core (obj_at s' i)) = frame_effect rf ?h (obj_at s i)"
  proof
    fix i assume i: "i \<in> set (live_objects s')"
    then have "i \<in> set (live_objects s)" using live by blast
    then show "Some (core (obj_at s' i)) = frame_effect rf ?h (obj_at s i)" using bspec [OF s'(4) i] by simp
  qed
  note s' = s'(1,2) live this
  then show ?thesis using balls_kept [OF assms s'(2-4)] unfolding Objects_remove_timed_out_def by blast
qed

subsection \<open>The limit of shots\<close>

text \<open>A player who fires \<open>n\<close> times, the gun being ready each time.\<close>

fun fire :: "int \<Rightarrow> int \<Rightarrow> nat \<Rightarrow> nat \<Rightarrow> gstate \<Rightarrow> gstate option" where
  "fire shot_max life p 0 s = Some s"
| "fire shot_max life p (Suc n) s = do { s1 \<leftarrow> Shot_add True shot_max life p s; fire shot_max life p n s1 }"

definition shots_of :: "gstate \<Rightarrow> nat \<Rightarrow> nat list" where
  "shots_of s p = filter (\<lambda>i. o_type (obj_at s i) = OBJ_SHOT \<and> o_owner (obj_at s i) = Some p) (live_objects s)"

lemma Shot_add_ok:
  assumes "pool_ok s" "NumObjs s < MAX_TOTAL_OBJECTS" "p_shots (plr_at s p) < shot_max"
  obtains s' where "Shot_add True shot_max life p s = Some s'" "pool_ok s'" "NumObjs s' = NumObjs s + 1"
    "playerArray s' = playerArray s" "shots_of s' p = shots_of s p @ [Obj s ! NumObjs s]"
proof -
  let ?i = "Obj s ! NumObjs s" and ?N = MAX_TOTAL_OBJECTS
  have p: "length (Obj s) = ?N" "length (objArray s) = ?N" "distinct (Obj s)" "set (Obj s) = {..< ?N}"
    "\<And>k. k < ?N \<Longrightarrow> o_id (obj_at s (Obj s ! k)) = k"
    using assms(1) by (auto simp: pool_ok_def)
  have i: "?i < ?N" using nth_mem [of "NumObjs s" "Obj s"] p(1,4) assms(2) by simp
  define s' where "s' = upd_obj ?i (\<lambda>x. x\<lparr>o_life := life, o_type := OBJ_SHOT, o_owner := Some p, o_team := p_team (plr_at s p),
     o_attached := False\<rparr>) (s\<lparr>NumObjs := NumObjs s + 1\<rparr>)"
  have run: "Shot_add True shot_max life p s = Some s'"
    using assms(2,3) p(1) by (simp add: Shot_add_def Object_add_def s'_def)
  have f: "Obj s' = Obj s" "NumObjs s' = NumObjs s + 1" "playerArray s' = playerArray s" "length (objArray s') = ?N"
    using p(2) by (simp_all add: s'_def upd_obj_def)
  have obj: "j \<noteq> ?i \<Longrightarrow> obj_at s' j = obj_at s j" "o_type (obj_at s' ?i) = OBJ_SHOT" "o_owner (obj_at s' ?i) = Some p" for j
    using i p(2) by (simp_all add: s'_def upd_obj_def)
  have "o_id (obj_at s' j) = o_id (obj_at s j)" for j
    using i p(2) by (cases "j = ?i") (simp_all add: s'_def upd_obj_def)
  then have "pool_ok s'" unfolding pool_ok_def f using p assms(2) by simp
  moreover have "?i \<notin> set (live_objects s)"
    using distinct_take [of "Obj s" "Suc (NumObjs s)"] p(1,3) assms(2) by (simp add: live_objects_def take_Suc_conv_app_nth)
  then have "obj_at s' x = obj_at s x" if "x \<in> set (take (NumObjs s) (Obj s))" for x
    using that obj(1) [of x] by (cases "x = ?i") (simp_all add: live_objects_def)
  then have "shots_of s' p = shots_of s p @ [?i]"
    using p(1) assms(2) obj(2,3) unfolding shots_of_def live_objects_def f
    by (simp add: take_Suc_conv_app_nth cong: filter_cong)
  ultimately show ?thesis using that run f by blast
qed

text \<open>The count of a player's shots is never raised when a shot is fired, so the limit \<open>ShotsMax\<close> holds nobody
  back: with a limit of one, a player has as many shots in the air as there are free objects.\<close>

theorem shot_limit_not_enforced:
  assumes "pool_ok s" "NumObjs s + n \<le> MAX_TOTAL_OBJECTS" "p_shots (plr_at s p) \<le> 0"
  shows "\<exists>s'. fire 1 life p n s = Some s' \<and> length (shots_of s' p) = length (shots_of s p) + n"
  using assms
proof (induction n arbitrary: s)
  case (Suc n)
  have "NumObjs s < MAX_TOTAL_OBJECTS" "p_shots (plr_at s p) < 1" using Suc.prems by simp_all
  from Shot_add_ok [OF Suc.prems(1) this, of life] obtain s1 where
    s1: "Shot_add True 1 life p s = Some s1" "pool_ok s1" "NumObjs s1 = NumObjs s + 1" "playerArray s1 = playerArray s"
      "shots_of s1 p = shots_of s p @ [Obj s ! NumObjs s]" by blast
  from Suc.IH [OF s1(2)] s1(1,3-5) Suc.prems(2,3) show ?case by auto
qed simp

subsection \<open>Witnesses\<close>

text \<open>A game without players; all objects are free.\<close>

definition empty_game :: gstate where
  "empty_game = \<lparr>Players = [], NumPlayers = 0, playerArray = [], GetInd = replicate 257 0, idq = ids_initial, teams = [], bases = [],
     treasures = [], Obj = [0..<MAX_TOTAL_OBJECTS], NumObjs = 0,
     objArray = map (\<lambda>i. object_zero\<lparr>o_id := i\<rparr>) [0..<MAX_TOTAL_OBJECTS], NumPaused = 0, NumRobots = 0, NumOperators = 0,
     game_lock = False, updateScores = False, num_pause = 0, num_unpause = 0, rules_mode = TEAM_PLAY, rules_lives = 0,
     robotTeam = 3, restrictRobots = False, reserveRobotTeam = False, keepShots = False, lockOtherTeam = True, gameSpeed = 20,
     frame_loops = 0, game_random = \<lparr>state = [0], next_ix = 0, left = 1\<rparr>, told = []\<rparr>"

lemma empty_game_pool: "pool_ok empty_game"
  by (auto simp: pool_ok_def empty_game_def)

text \<open>A ball that is lost and a spark, both at the end of their time.\<close>

definition demo_pool :: gstate where
  "demo_pool = empty_game\<lparr>treasures := [\<lparr>tr_have = False, tr_team = Some 1\<rparr>], NumObjs := 2,
     objArray := (objArray empty_game)[0 := object_zero\<lparr>o_type := OBJ_BALL, o_life := 1, o_treasure := Some 0\<rparr>,
       1 := object_zero\<lparr>o_type := OBJ_SPARK, o_life := 1, o_id := 1\<rparr>]\<rparr>"

lemma demo_pool_ok: "objects_ok demo_pool"
proof -
  have n: "1 < MAX_TOTAL_OBJECTS" by (simp add: MAX_TOTAL_OBJECTS_def)
  then have "pool_ok demo_pool" by (auto simp: pool_ok_def demo_pool_def empty_game_def nth_list_update object_zero_def)
  moreover have "set (live_objects demo_pool) = {0, 1}"
    using n by (auto simp: live_objects_def demo_pool_def empty_game_def in_set_conv_nth less_2_cases_iff)
  ultimately show ?thesis
    using n by (simp add: objects_ok_def object_ok_def demo_pool_def empty_game_def object_zero_def)
qed

theorem Objects_remove_timed_out_exact_witness:
  "\<exists>s'. Objects_remove_timed_out True demo_pool = Some s' \<and>
    set (live_objects s') = {i \<in> set (live_objects demo_pool). frame_effect True [Some 1] (obj_at demo_pool i) \<noteq> None} \<and>
    (\<forall>t. length (balls_of s' t) = length (balls_of demo_pool t))"
proof -
  have "map tr_team (treasures demo_pool) = [Some 1]" by (simp add: demo_pool_def)
  then show ?thesis using Objects_remove_timed_out_exact [OF demo_pool_ok, of True] by auto
qed

theorem shot_limit_not_enforced_witness:
  "\<exists>s'. fire 1 60 0 1000 (empty_game\<lparr>playerArray := [plr_zero]\<rparr>) = Some s' \<and>
     length (shots_of s' 0) = length (shots_of (empty_game\<lparr>playerArray := [plr_zero]\<rparr>) 0) + 1000"
proof (rule shot_limit_not_enforced)
  show "pool_ok (empty_game\<lparr>playerArray := [plr_zero]\<rparr>)" using empty_game_pool by (simp add: pool_ok_def)
  show "NumObjs (empty_game\<lparr>playerArray := [plr_zero]\<rparr>) + 1000 \<le> MAX_TOTAL_OBJECTS"
    by (simp add: empty_game_def MAX_TOTAL_OBJECTS_def)
  show "p_shots (plr_at (empty_game\<lparr>playerArray := [plr_zero]\<rparr>) 0) \<le> 0" by (simp add: plr_zero_def)
qed

end
