(* ===== verification/Game_Players.thy ===== *)
theory Game_Players
  imports Game_Objects
begin

text \<open>
  Entering and leaving the game, and the locks of players (\<open>server/player.c\<close>): the array \<open>Players\<close> of pointers, of which the
  first \<open>NumPlayers\<close> are in the game, the map \<open>GetInd\<close> from identifiers to positions, and every place where the server
  keeps a pointer to a player. The rank tables, ship shapes and the physical state of a ship are left out.
\<close>

subsection \<open>Entering\<close>

definition Player_add :: "gstate \<Rightarrow> (nat \<times> gstate) option" where
  "Player_add s =
     (if NumPlayers s < length (Players s) then do {
        let p = Players s ! NumPlayers s;
        let x = (set_state (RECOVERY_DELAY_TICKS s) PL_STATE_UNDEFINED plr_zero)\<lparr>p_type_mychar := 32, p_life := rules_lives s\<rparr>;
        (i, q) \<leftarrow> request_ID (idq s);
        g \<leftarrow> buf_set i (NumPlayers s) (GetInd s);
        Some (p, s\<lparr>playerArray := (playerArray s)[p := x\<lparr>p_id := i, p_busy := frame_loops s\<rparr>], idq := q, GetInd := g,
                   NumPlayers := NumPlayers s + 1\<rparr>) }
      else None)"

definition Player_add_to_team :: "nat \<Rightarrow> nat \<Rightarrow> gstate \<Rightarrow> gstate" where
  "Player_add_to_team p t s =
     (let s1 = upd_team t (\<lambda>x. x\<lparr>t_NumMembers := t_NumMembers x + 1\<rparr>) (upd_plr p (\<lambda>x. x\<lparr>p_team := Some t\<rparr>) s)
      in if Player_is_robot (plr_at s1 p) then upd_team t (\<lambda>x. x\<lparr>t_NumRobots := t_NumRobots x + 1\<rparr>) s1 else s1)"

definition Player_remove_from_team :: "nat \<Rightarrow> gstate \<Rightarrow> gstate option" where
  "Player_remove_from_team p s =
     do { t \<leftarrow> p_team (plr_at s p);
          let s1 = (if Player_is_robot (plr_at s p) then upd_team t (\<lambda>x. x\<lparr>t_NumRobots := t_NumRobots x - 1\<rparr>) s else s);
          Some (upd_plr p (\<lambda>x. x\<lparr>p_team := None\<rparr>) (upd_team t (\<lambda>x. x\<lparr>t_NumMembers := t_NumMembers x - 1\<rparr>) s1)) }"

subsection \<open>Leaving\<close>

text \<open>\<open>Robot_destroy\<close> frees the private data, \<open>Robot_war_on_player\<close> and \<open>Robot_reset_war\<close> read and clear the enemy in it.\<close>

definition Robot_destroy :: "nat \<Rightarrow> gstate \<Rightarrow> gstate option" where
  "Robot_destroy p s = do { d \<leftarrow> p_robot_data (plr_at s p); Some (upd_plr p (\<lambda>x. x\<lparr>p_robot_data := None\<rparr>) s) }"

text \<open>The loop over the objects of a player who leaves.\<close>

definition disown :: "nat \<Rightarrow> nat \<Rightarrow> gstate \<Rightarrow> gstate" where
  "disown p i s =
     (if o_owner (obj_at s i) = Some p then
        let s1 = (if o_type (obj_at s i) = OBJ_BALL
                  then (if o_attached (obj_at s i) then Object_expire i (Ball_detach p (Some i) s) else s)
                  else if o_type (obj_at s i) = OBJ_SHOT then (if \<not> keepShots s then Object_expire i s else s)
                  else s)
        in upd_obj i (\<lambda>x. x\<lparr>o_owner := None\<rparr>) s1
      else s)"

text \<open>What the loop over the remaining players does to one of them; \<open>n\<close> players remain.\<close>

definition forget :: "nat \<Rightarrow> nat \<Rightarrow> plr \<Rightarrow> plr" where
  "forget p n x =
     (let x1 = (if (p_lock_player x \<or> p_lock_visible x) \<and> (p_lock_object x = Some p \<or> n \<le> 1)
                then x\<lparr>p_lock_player := False, p_lock_visible := False\<rparr> else x);
          x2 = (if Player_is_robot x1 \<and> p_robot_data x1 = Some (Some p) then x1\<lparr>p_robot_data := Some None\<rparr> else x1)
      in x2\<lparr>p_lockbank := map (\<lambda>r. if r = Some p then None else r) (p_lockbank x2),
            p_shoves := map (\<lambda>r. if r = Some p then None else r) (p_shoves x2)\<rparr>)"

text \<open>The swap with the last player.\<close>

definition unlink_player :: "nat \<Rightarrow> gstate \<Rightarrow> gstate option" where
  "unlink_player p s =
     do { let n = NumPlayers s;
          ind2 \<leftarrow> buf_at (p_id (plr_at s p)) (GetInd s);
          let l = Players s ! n;
          let a = (Players s)[n := p];
          g1 \<leftarrow> buf_set (p_id (plr_at s l)) ind2 (GetInd s);
          g2 \<leftarrow> buf_set (p_id (plr_at s p)) n g1;
          Some (s\<lparr>Players := a[ind2 := l], GetInd := g2\<rparr>) }"

text \<open>Up to and with \<open>Player_remove_from_team\<close>: the robot's data, the operators, the swappers, the objects, the counts.\<close>

definition Player_leave :: "nat \<Rightarrow> gstate \<Rightarrow> gstate option" where
  "Player_leave p s =
     do { s1 \<leftarrow> (if Player_is_robot (plr_at s p) then Robot_destroy p s else Some s);
          let s2 = (if p_oper (plr_at s1 p)
                    then s1\<lparr>NumOperators := NumOperators s1 - 1, game_lock := (game_lock s1 \<and> NumOperators s1 - 1 \<noteq> 0)\<rparr> else s1);
          let s3 = s2\<lparr>teams := map (\<lambda>t. if t_Swapper t = Some p then t\<lparr>t_Swapper := None\<rparr> else t) (teams s2)\<rparr>;
          let s4 = fold (disown p) (rev (live_objects s3)) s3;
          let s5 = (if Player_is_paused (plr_at s4 p) then s4\<lparr>NumPaused := NumPaused s4 - 1\<rparr> else s4);
          let s6 = Player_set_state p PL_STATE_UNDEFINED s5;
          let s7 = s6\<lparr>NumPlayers := NumPlayers s6 - 1\<rparr>;
          let s8 = (if Player_is_robot (plr_at s7 p) then s7\<lparr>NumRobots := NumRobots s7 - 1\<rparr> else s7);
          Player_remove_from_team p s8 }"

text \<open>The loops over the players who remain. \<open>Robot_war_on_player\<close> reads the data of every robot among them.\<close>

definition forget_player :: "nat \<Rightarrow> gstate \<Rightarrow> gstate option" where
  "forget_player p s =
     (if list_ex (\<lambda>q. Player_is_robot (plr_at s q) \<and> p_robot_data (plr_at s q) = None) (playing s) then None
      else let s1 = fold (\<lambda>q. upd_plr q (forget p (NumPlayers s))) (rev (playing s)) s
           in Some (announce (map (\<lambda>c. Note_leave c (p_id (plr_at s1 p))) (rev (connps s1))) s1))"

definition Player_remove :: "nat \<Rightarrow> gstate \<Rightarrow> gstate option" where
  "Player_remove p s =
     do { s1 \<leftarrow> Player_leave p s;
          s2 \<leftarrow> unlink_player p s1;
          s3 \<leftarrow> forget_player p s2;
          q \<leftarrow> release_ID (p_id (plr_at s3 p)) (idq s3);
          Some (s3\<lparr>idq := q, playerArray := (playerArray s3)[p := plr_zero], updateScores := True\<rparr>) }"

subsection \<open>Locks\<close>

definition Player_lock_is_allowed :: "nat \<Rightarrow> nat option \<Rightarrow> gstate \<Rightarrow> bool" where
  "Player_lock_is_allowed p other s =
     (case other of
        None \<Rightarrow> False
      | Some q \<Rightarrow>
          if p = q then False
          else if Player_is_alive (plr_at s p) then True
          else if \<not> has_bit (rules_mode s) TEAM_PLAY then True
          else if p_team (plr_at s p) = p_team (plr_at s q) \<and> p_team (plr_at s p) \<noteq> None then True
          else if lockOtherTeam s then True
          else Team_is_dead (p_team (plr_at s p)) s)"

text \<open>The distance of two players is a parameter; no best distance yet stands for \<open>FLT_MAX\<close>.\<close>

definition closer :: "(nat \<Rightarrow> nat \<Rightarrow> rat) \<Rightarrow> nat \<Rightarrow> nat option \<Rightarrow> rat \<Rightarrow> gstate \<Rightarrow> nat \<Rightarrow> rat option \<times> nat option \<Rightarrow> rat option \<times> nat option" where
  "closer d p cur far s q best =
     (if Some q = cur \<or> \<not> Player_is_alive (plr_at s q) \<or> \<not> Player_lock_is_allowed p (Some q) s then best
      else if d p q \<ge> far \<and> (case fst best of None \<Rightarrow> True | Some b \<Rightarrow> d p q < b) then (Some (d p q), Some q) else best)"

definition Player_lock_closest :: "(nat \<Rightarrow> nat \<Rightarrow> rat) \<Rightarrow> nat \<Rightarrow> bool \<Rightarrow> gstate \<Rightarrow> (bool \<times> gstate) option" where
  "Player_lock_closest d p nxt s =
     (let s1 = (if \<not> nxt then upd_plr p (\<lambda>x. x\<lparr>p_lock_player := False\<rparr>) s else s) in
      if p_lock_player (plr_at s1 p) \<and> p_lock_object (plr_at s1 p) = None then None
      else
        let cur = (if p_lock_player (plr_at s1 p) then p_lock_object (plr_at s1 p) else None);
            far = (case cur of None \<Rightarrow> 0 | Some c \<Rightarrow> d p c)
        in (case snd (fold (closer d p cur far s1) (playing s1) (None, None)) of
              None \<Rightarrow> Some (False, s1)
            | Some q \<Rightarrow> Some (True, upd_plr p (\<lambda>x. x\<lparr>p_lock_player := True, p_lock_object := Some q\<rparr>) s1)))"

text \<open>The search of \<open>Player_lock_next\<close>, with fuel; \<open>st\<close> is the player it starts from.\<close>

definition unsuitable :: "nat \<Rightarrow> gstate \<Rightarrow> nat \<Rightarrow> bool" where
  "unsuitable p s q \<longleftrightarrow> q = p \<or> Player_is_waiting (plr_at s q) \<or> Player_is_dead (plr_at s q) \<or> Player_is_paused (plr_at s q) \<or>
     \<not> Player_lock_is_allowed p (Some q) s"

fun lock_search :: "nat \<Rightarrow> bool \<Rightarrow> nat \<Rightarrow> nat \<Rightarrow> nat \<Rightarrow> gstate \<Rightarrow> nat option" where
  "lock_search 0 fw p st cur s = None"
| "lock_search (Suc n) fw p st cur s =
     do { k \<leftarrow> buf_at (p_id (plr_at s cur)) (GetInd s);
          let q = (if \<not> fw then (if k = 0 then Players s ! (NumPlayers s - 1) else Players s ! (k - 1))
                   else (if k = NumPlayers s - 1 then Players s ! 0 else Players s ! (k + 1)));
          if q = st then Some q else if unsuitable p s q then lock_search n fw p st q s else Some q }"

definition Player_lock_next :: "(nat \<Rightarrow> nat \<Rightarrow> rat) \<Rightarrow> nat \<Rightarrow> nat \<Rightarrow> bool \<Rightarrow> gstate \<Rightarrow> gstate option" where
  "Player_lock_next d fuel p fw s =
     (case p_lock_object (plr_at s p) of
        Some st \<Rightarrow>
          if p_lock_player (plr_at s p) then do {
            q \<leftarrow> lock_search fuel fw p st st s;
            Some (if q = p then upd_plr p (\<lambda>x. x\<lparr>p_lock_player := False\<rparr>) s
                  else upd_plr p (\<lambda>x. x\<lparr>p_lock_object := Some q, p_lock_player := True\<rparr>) s) }
          else map_option snd (Player_lock_closest d p False s)
      | None \<Rightarrow> map_option snd (Player_lock_closest d p False s))"

definition Player_lock_is_initialized :: "nat \<Rightarrow> gstate \<Rightarrow> bool" where
  "Player_lock_is_initialized p s \<longleftrightarrow>
     p_lock_player (plr_at s p) \<and> NumPlayers s > 1 \<and> (case p_lock_object (plr_at s p) of None \<Rightarrow> False | Some q \<Rightarrow> q \<noteq> p)"

definition Player_lock_set :: "nat \<Rightarrow> nat \<Rightarrow> gstate \<Rightarrow> gstate" where
  "Player_lock_set p q = upd_plr p (\<lambda>x. x\<lparr>p_lock_player := True, p_lock_object := Some q\<rparr>)"

definition Player_lock_clear :: "nat \<Rightarrow> gstate \<Rightarrow> gstate" where
  "Player_lock_clear p = upd_plr p (\<lambda>x. x\<lparr>p_lock_player := False, p_lock_object := None\<rparr>)"

subsection \<open>The registry\<close>

text \<open>\<open>Players\<close> is a permutation of the player structures; the identifiers in use are those of the players in the game, and
  \<open>GetInd\<close> finds each of them.\<close>

definition registry_ok :: "gstate \<Rightarrow> bool" where
  "registry_ok s \<longleftrightarrow> length (Players s) = length (playerArray s) \<and> distinct (Players s) \<and>
     set (Players s) = {..< length (playerArray s)} \<and> NumPlayers s \<le> length (Players s) \<and> length (GetInd s) = 257 \<and>
     (\<exists>fr. ids_hold (idq s) fr ((\<lambda>p. p_id (plr_at s p)) ` set (playing s))) \<and>
     inj_on (\<lambda>p. p_id (plr_at s p)) (set (playing s)) \<and>
     (\<forall>k < NumPlayers s. GetInd s ! nat (p_id (plr_at s (Players s ! k))) = k)"

text \<open>No pointer leads to a player who is not in the game.\<close>

definition plr_refs :: "plr \<Rightarrow> nat set" where
  "plr_refs x = (if p_lock_player x \<or> p_lock_visible x then set_option (p_lock_object x) else {}) \<union>
     {q. Some q \<in> set (p_lockbank x)} \<union> {q. Some q \<in> set (p_shoves x)} \<union>
     (if Player_is_robot x then {q. p_robot_data x = Some (Some q)} else {})"

definition refs_ok :: "gstate \<Rightarrow> bool" where
  "refs_ok s \<longleftrightarrow> (\<forall>p \<in> set (playing s). plr_refs (plr_at s p) \<subseteq> set (playing s)) \<and>
     (\<forall>t \<in> set (teams s). \<forall>q. t_Swapper t = Some q \<longrightarrow> q \<in> set (playing s)) \<and>
     (\<forall>i \<in> set (live_objects s). \<forall>q. o_owner (obj_at s i) = Some q \<longrightarrow> q \<in> set (playing s))"

lemma playing_iff: "registry_ok s \<Longrightarrow> p \<in> set (playing s) \<longleftrightarrow> (\<exists>k < NumPlayers s. Players s ! k = p)"
  by (auto simp: registry_ok_def playing_def in_set_conv_nth)

lemma playing_less: "registry_ok s \<Longrightarrow> p \<in> set (playing s) \<Longrightarrow> p < length (playerArray s)"
  by (auto simp: registry_ok_def playing_def dest: in_set_takeD)

lemma ids_range: "ids_hold q fr us \<Longrightarrow> i \<in> us \<Longrightarrow> 1 \<le> i \<and> i \<le> 256"
  by (auto simp: ids_hold_def ring_def)

lemma player_id_range:
  assumes "registry_ok s" "p \<in> set (playing s)"
  shows "1 \<le> p_id (plr_at s p) \<and> p_id (plr_at s p) \<le> 256"
  using assms ids_range by (fastforce simp: registry_ok_def)

lemma GetInd_at:
  assumes "registry_ok s" "k < NumPlayers s"
  shows "buf_at (p_id (plr_at s (Players s ! k))) (GetInd s) = Some k"
proof -
  have "Players s ! k \<in> set (playing s)" using assms by (auto simp: playing_iff)
  from player_id_range [OF assms(1) this] assms show ?thesis by (simp add: registry_ok_def buf_at_def)
qed

subsection \<open>The search for a lock ends\<close>

text \<open>The player \<open>j\<close> places after the one at \<open>k\<close>, or before it, in the ring of players.\<close>

definition ring_at :: "bool \<Rightarrow> gstate \<Rightarrow> nat \<Rightarrow> nat \<Rightarrow> nat" where
  "ring_at fw s k j = Players s ! (if fw then (k + j) mod NumPlayers s else (k + (NumPlayers s - j)) mod NumPlayers s)"

definition ring_from :: "bool \<Rightarrow> gstate \<Rightarrow> nat \<Rightarrow> nat list" where
  "ring_from fw s k = map (ring_at fw s k) [1..<NumPlayers s]"

lemma ring_pos_next:
  assumes "j < n" "k < n"
  shows "(if (k + j) mod n = n - 1 then 0 else (k + j) mod n + 1) = (k + Suc j) mod n"
    "(if (k + (n - j)) mod n = 0 then n - 1 else (k + (n - j)) mod n - 1) = (k + (n - Suc j)) mod n"
proof -
  have m: "a mod n = (if a < n then a else a - n)" if "a < 2 * n" for a
    using that by (simp add: mod_if)
  have "k + j < 2 * n" "k + Suc j < 2 * n" "k + (n - j) < 2 * n" "k + (n - Suc j) < 2 * n" using assms by simp_all
  note m = m [OF this(1)] m [OF this(2)] m [OF this(3)] m [OF this(4)]
  show "(if (k + j) mod n = n - 1 then 0 else (k + j) mod n + 1) = (k + Suc j) mod n"
    unfolding m using assms by auto
  show "(if (k + (n - j)) mod n = 0 then n - 1 else (k + (n - j)) mod n - 1) = (k + (n - Suc j)) mod n"
    unfolding m using assms by auto
qed

lemma ring_at_next:
  assumes "registry_ok s" "j < NumPlayers s" "k < NumPlayers s"
  shows "do { i \<leftarrow> buf_at (p_id (plr_at s (ring_at fw s k j))) (GetInd s);
              Some (if \<not> fw then (if i = 0 then Players s ! (NumPlayers s - 1) else Players s ! (i - 1))
                    else (if i = NumPlayers s - 1 then Players s ! 0 else Players s ! (i + 1))) } = Some (ring_at fw s k (Suc j))"
proof -
  let ?n = "NumPlayers s"
  have lt: "(k + j) mod ?n < ?n" "(k + (?n - j)) mod ?n < ?n" using assms(2) by simp_all
  show ?thesis
  proof (cases fw)
    case True
    then show ?thesis
      using GetInd_at [OF assms(1) lt(1)] ring_pos_next(1) [OF assms(2,3)] by (auto simp: ring_at_def)
  next
    case False
    define a b where "a = (k + (?n - j)) mod ?n" and "b = (k + (?n - Suc j)) mod ?n"
    have "(if a = 0 then ?n - 1 else a - 1) = b" "a < ?n"
      unfolding a_def b_def using ring_pos_next(2) [OF assms(2,3)] lt(2) by simp_all
    moreover have "ring_at fw s k j = Players s ! a" "ring_at fw s k (Suc j) = Players s ! b"
      using False by (simp_all only: ring_at_def a_def b_def if_False)
    ultimately show ?thesis using GetInd_at [OF assms(1), of a] False by auto
  qed
qed

lemma ring_at_end:
  assumes "k < NumPlayers s"
  shows "ring_at fw s k (NumPlayers s) = Players s ! k" "ring_at fw s k 0 = Players s ! k"
  using assms by (simp_all add: ring_at_def)

lemma ring_at_start:
  assumes "registry_ok s" "k < NumPlayers s" "0 < j" "j < NumPlayers s"
  shows "ring_at fw s k j \<noteq> Players s ! k"
proof -
  let ?n = "NumPlayers s"
  have n: "distinct (Players s)" "?n \<le> length (Players s)" using assms(1) by (simp_all add: registry_ok_def)
  have ne: "Players s ! a \<noteq> Players s ! k" if "a \<noteq> k" "a < ?n" for a
    using nth_eq_iff_index_eq [OF n(1), of a k] n(2) assms(2) that by simp
  have d: "(k + j) mod ?n \<noteq> k" "(k + (?n - j)) mod ?n \<noteq> k" using assms(2-4) by (auto simp: mod_if)
  have l: "(k + j) mod ?n < ?n" "(k + (?n - j)) mod ?n < ?n" using assms(2) by simp_all
  show ?thesis unfolding ring_at_def using ne [OF d(1) l(1)] ne [OF d(2) l(2)] by (metis (full_types))
qed

lemma lock_search_ring:
  assumes "registry_ok s" "k < NumPlayers s" "j < NumPlayers s" "NumPlayers s - j \<le> fuel"
  shows "lock_search fuel fw p (Players s ! k) (ring_at fw s k j) s =
    Some (case find (\<lambda>q. \<not> unsuitable p s q) (map (ring_at fw s k) [Suc j..<NumPlayers s]) of Some q \<Rightarrow> q | None \<Rightarrow> Players s ! k)"
  using assms(3,4)
proof (induction fuel arbitrary: j)
  case (Suc fuel)
  let ?q = "ring_at fw s k (Suc j)"
  from ring_at_next [OF assms(1) Suc.prems(1) assms(2), of fw] obtain i where
    i: "buf_at (p_id (plr_at s (ring_at fw s k j))) (GetInd s) = Some i"
      "(if \<not> fw then (if i = 0 then Players s ! (NumPlayers s - 1) else Players s ! (i - 1))
        else (if i = NumPlayers s - 1 then Players s ! 0 else Players s ! (i + 1))) = ?q"
    by (auto elim!: bind_SomeE)
  have step: "lock_search (Suc fuel) fw p (Players s ! k) (ring_at fw s k j) s =
     (if ?q = Players s ! k then Some ?q
      else if unsuitable p s ?q then lock_search fuel fw p (Players s ! k) ?q s else Some ?q)"
    unfolding lock_search.simps Let_def i(1) bind.simps i(2) by (rule refl)
  show ?case
  proof (cases "Suc j = NumPlayers s")
    case True
    then show ?thesis unfolding step using ring_at_end(1) [OF assms(2), of fw] by simp
  next
    case False
    then have j: "Suc j < NumPlayers s" using Suc.prems(1) by simp
    then have "[Suc j..<NumPlayers s] = Suc j # [Suc (Suc j)..<NumPlayers s]" by (rule upt_conv_Cons)
    then show ?thesis
      unfolding step using ring_at_start [OF assms(1,2) _ j, of fw] Suc.IH [OF j] Suc.prems(2) by simp
  qed
qed simp

subsection \<open>Entering keeps the registry\<close>

lemma ids_left:
  assumes "ids_hold q fr us" "finite us" "card us < 256"
  obtains i fr' where "fr = i # fr'" "i \<notin> us" "1 \<le> i" "i \<le> 256"
proof (cases fr)
  case Nil
  then have "us = {1..256}" using assms(1) by (auto simp: ids_hold_def ring_def)
  then show ?thesis using assms(3) by simp
next
  case (Cons i fr')
  have "set fr \<inter> us = {}" "set fr \<union> us = {1..256}" using assms(1) by (auto simp: ids_hold_def ring_def)
  then have "i \<notin> us" "i \<in> {1..256}" using Cons by auto
  then show ?thesis using that Cons by simp
qed

lemma Player_add_ok:
  assumes "registry_ok s" "NumPlayers s < length (Players s)" "NumPlayers s < 256"
  obtains p s' where "Player_add s = Some (p, s')" "registry_ok s'" "p \<notin> set (playing s)" "playing s' = playing s @ [p]"
    "\<And>q. q \<noteq> p \<Longrightarrow> plr_at s' q = plr_at s q"
    "plr_at s' p = plr_zero\<lparr>p_state := PL_STATE_UNDEFINED, p_type_mychar := 32, p_life := rules_lives s, p_id := p_id (plr_at s' p),
       p_busy := frame_loops s\<rparr>"
    "s' = s\<lparr>playerArray := playerArray s', idq := idq s', GetInd := GetInd s', NumPlayers := NumPlayers s + 1\<rparr>"
    "length (playerArray s') = length (playerArray s)"
proof -
  let ?n = "NumPlayers s" and ?id = "\<lambda>p. p_id (plr_at s p)"
  define p where "p = Players s ! ?n"
  obtain fr where r: "length (Players s) = length (playerArray s)" "distinct (Players s)"
    "set (Players s) = {..< length (playerArray s)}" "length (GetInd s) = 257"
    "ids_hold (idq s) fr (?id ` set (playing s))" "inj_on ?id (set (playing s))"
    "\<And>k. k < ?n \<Longrightarrow> GetInd s ! nat (?id (Players s ! k)) = k"
    using assms(1) by (auto simp: registry_ok_def)
  have p: "p < length (playerArray s)" using nth_mem [OF assms(2)] r(3) by (simp add: p_def)
  have fresh: "p \<notin> set (playing s)"
    using distinct_take [OF r(2), of "Suc ?n"] assms(2) by (simp add: playing_def p_def take_Suc_conv_app_nth)
  have "card (?id ` set (playing s)) \<le> length (playing s)" by (metis card_image_le card_length le_trans List.finite_set)
  then have "card (?id ` set (playing s)) < 256" using assms(3) by (simp add: playing_def)
  then obtain i fr' where i: "fr = i # fr'" "i \<notin> ?id ` set (playing s)" "1 \<le> i" "i \<le> 256"
    using ids_left [OF r(5)] by auto
  from object_ids.request_some [of "idq s" i fr'] r(5) i(1) obtain q where
    q: "request_ID (idq s) = Some (i, q)" "ids_hold q fr' (insert i (?id ` set (playing s)))" by blast
  define x where "x = plr_zero\<lparr>p_state := PL_STATE_UNDEFINED, p_type_mychar := 32, p_life := rules_lives s, p_id := i, p_busy := frame_loops s\<rparr>"
  define s' where "s' = s\<lparr>playerArray := (playerArray s)[p := x], idq := q, GetInd := (GetInd s)[nat i := ?n], NumPlayers := ?n + 1\<rparr>"
  have z: "(set_state (RECOVERY_DELAY_TICKS s) PL_STATE_UNDEFINED plr_zero)\<lparr>p_type_mychar := 32, p_life := rules_lives s, p_id := i,
     p_busy := frame_loops s\<rparr> = x"
    by (simp add: x_def plr_zero_def)
  have "buf_set i ?n (GetInd s) = Some ((GetInd s)[nat i := ?n])" using i r(4) by (simp add: buf_set_def)
  then have run: "Player_add s = Some (p, s')"
    using assms(2) q(1) z by (simp add: Player_add_def Let_def p_def s'_def)
  have at: "plr_at s' a = (if a = p then x else plr_at s a)" for a using p by (simp add: s'_def)
  have play: "playing s' = playing s @ [p]" using assms(2) by (simp add: playing_def s'_def p_def take_Suc_conv_app_nth)
  have ids: "(\<lambda>a. p_id (plr_at s' a)) ` set (playing s') = insert i (?id ` set (playing s))"
    using fresh by (auto simp: play at x_def image_iff)
  have "inj_on (\<lambda>a. p_id (plr_at s' a)) (set (playing s'))"
    using r(6) i(2) fresh by (auto simp: play at x_def inj_on_def)
  moreover have "GetInd s' ! nat (p_id (plr_at s' (Players s' ! k))) = k" if "k < NumPlayers s'" for k
  proof (cases "k = ?n")
    case True
    then show ?thesis using i r(4) by (simp add: s'_def p_def [symmetric] p x_def)
  next
    case False
    then have k: "k < ?n" using that by (simp add: s'_def)
    then have m: "Players s ! k \<in> set (playing s)" using assms(1) by (auto simp: playing_iff)
    then have "?id (Players s ! k) \<noteq> i" "Players s ! k \<noteq> p" using i(2) fresh by blast+
    moreover have "1 \<le> ?id (Players s ! k)" using player_id_range [OF assms(1) m] by simp
    ultimately show ?thesis using r(7) [OF k] i by (simp add: s'_def nat_eq_iff)
  qed
  ultimately have "registry_ok s'"
    unfolding registry_ok_def ids using r(1-4) q(2) assms(2) by (auto simp: s'_def)
  then show ?thesis using that [OF run] fresh play by (simp add: at x_def) (simp add: s'_def)
qed

subsection \<open>Leaving\<close>

definition live_bound :: "gstate \<Rightarrow> bool" where
  "live_bound s \<longleftrightarrow> (\<forall>i \<in> set (live_objects s). i < length (objArray s))"

definition robots_ok :: "gstate \<Rightarrow> bool" where
  "robots_ok s \<longleftrightarrow> (\<forall>p \<in> set (playing s). Player_is_robot (plr_at s p) \<longrightarrow> p_robot_data (plr_at s p) \<noteq> None)"

text \<open>What identifies a player and places it in the game.\<close>

definition ident :: "plr \<Rightarrow> int \<times> pl_type \<times> pl_state \<times> nat option \<times> nat option \<times> nat option \<times> byte list \<times> bool \<times> int" where
  "ident x = (p_id x, p_type x, p_state x, p_team x, p_home x, p_connp x, p_name x, p_oper x, p_score x)"

lemma ball_changes_ident: "ball_changes x y \<Longrightarrow> ident y = ident x \<and> plr_refs y = plr_refs x \<and> p_robot_data y = p_robot_data x"
  by (cases x; cases y) (simp add: ball_changes_def ident_def plr_refs_def Player_is_robot_def)

lemma forget_ident: "ident (forget p n x) = ident x" "p_robot_data (forget p n x) = None \<longleftrightarrow> p_robot_data x = None"
  by (simp_all add: forget_def ident_def Let_def)

lemma forget_refs: "plr_refs (forget p n x) \<subseteq> plr_refs x - {p}"
  by (auto simp: forget_def plr_refs_def Let_def Player_is_robot_def split: if_splits)

lemma disown_ok:
  assumes "live_bound s" "p < length (playerArray s)" "i < length (objArray s)"
  shows "\<exists>P Q. disown p i s = s\<lparr>playerArray := P, objArray := Q\<rparr> \<and> players_kept (playerArray s) P \<and> length Q = length (objArray s) \<and>
    (\<forall>j. o_owner (Q ! j) = (if j = i \<and> o_owner (obj_at s j) = Some p then None else o_owner (obj_at s j)))"
proof (cases "o_owner (obj_at s i) = Some p")
  case False
  then show ?thesis by (intro exI [of _ "playerArray s"] exI [of _ "objArray s"]) (auto simp: disown_def)
next
  case True
  define s1 where "s1 = (if o_type (obj_at s i) = OBJ_BALL
                  then (if o_attached (obj_at s i) then Object_expire i (Ball_detach p (Some i) s) else s)
                  else if o_type (obj_at s i) = OBJ_SHOT then (if \<not> keepShots s then Object_expire i s else s)
                  else s)"
  have "\<exists>P Q. s1 = s\<lparr>playerArray := P, objArray := Q\<rparr> \<and> players_kept (playerArray s) P \<and> length Q = length (objArray s) \<and>
    (\<forall>j. o_owner (Q ! j) = o_owner (obj_at s j))"
  proof (cases "o_type (obj_at s i) = OBJ_BALL \<and> o_attached (obj_at s i)")
    case b: True
    obtain y Q where y: "Ball_detach p (Some i) s = s\<lparr>playerArray := (playerArray s)[p := y], objArray := Q\<rparr>"
      "freed_plr (Some i) (plr_at s p) y" "length Q = length (objArray s)"
      "\<And>j. Q ! j = (if j \<in> set (live_objects s) \<and> p_has_ball (plr_at s p) \<and> lets_go p (Some i) j (obj_at s j)
                  then (obj_at s j)\<lparr>o_attached := False\<rparr> else obj_at s j)"
      using Ball_detach_ok [of s p "Some i"] assms(1,2) unfolding live_bound_def by metis
    have "s1 = s\<lparr>playerArray := (playerArray s)[p := y], objArray := Q[i := (Q ! i)\<lparr>o_life := 0\<rparr>]\<rparr>"
      using b by (simp add: s1_def y(1) Object_expire_def upd_obj_def)
    moreover have "players_kept (playerArray s) ((playerArray s)[p := y])"
      using players_kept_update freed_plr_changes y(2) by blast
    moreover have "o_owner (Q[i := (Q ! i)\<lparr>o_life := 0\<rparr>] ! j) = o_owner (obj_at s j)" for j
      using assms(3) y(3) by (cases "j = i") (simp_all add: y(4))
    ultimately show ?thesis using y(3) by (intro exI [of _ "(playerArray s)[p := y]"] exI [of _ "Q[i := (Q ! i)\<lparr>o_life := 0\<rparr>]"]) simp
  next
    case False
    have "o_owner ((objArray s)[i := (obj_at s i)\<lparr>o_life := 0\<rparr>] ! j) = o_owner (obj_at s j)" for j
      using assms(3) by (cases "j = i") simp_all
    then show ?thesis using False
      by (intro exI [of _ "playerArray s"] exI [of _ "objArray s1"]) (auto simp: s1_def Object_expire_def upd_obj_def)
  qed
  then obtain P Q where PQ: "s1 = s\<lparr>playerArray := P, objArray := Q\<rparr>" "players_kept (playerArray s) P" "length Q = length (objArray s)"
    "\<And>j. o_owner (Q ! j) = o_owner (obj_at s j)" by blast
  have "disown p i s = s\<lparr>playerArray := P, objArray := Q[i := (Q ! i)\<lparr>o_owner := None\<rparr>]\<rparr>"
    unfolding disown_def s1_def [symmetric] Let_def using True by (simp add: PQ(1) upd_obj_def)
  moreover have "o_owner (Q[i := (Q ! i)\<lparr>o_owner := None\<rparr>] ! j) =
      (if j = i \<and> o_owner (obj_at s j) = Some p then None else o_owner (obj_at s j))" for j
    using assms(3) PQ(3,4) True by (cases "j = i") simp_all
  ultimately show ?thesis using PQ(2,3)
    by (intro exI [of _ P] exI [of _ "Q[i := (Q ! i)\<lparr>o_owner := None\<rparr>]"]) simp
qed

lemma disown_all_ok:
  assumes "live_bound s" "p < length (playerArray s)" "\<forall>i \<in> set is. i < length (objArray s)"
  shows "\<exists>P Q. fold (disown p) is s = s\<lparr>playerArray := P, objArray := Q\<rparr> \<and> players_kept (playerArray s) P \<and>
    length Q = length (objArray s) \<and>
    (\<forall>j. o_owner (Q ! j) = (if j \<in> set is \<and> o_owner (obj_at s j) = Some p then None else o_owner (obj_at s j)))"
  using assms
proof (induction "is" arbitrary: s)
  case Nil
  then show ?case by (intro exI [of _ "playerArray s"] exI [of _ "objArray s"]) simp
next
  case (Cons i "is")
  obtain P Q where 1: "disown p i s = s\<lparr>playerArray := P, objArray := Q\<rparr>" "players_kept (playerArray s) P"
    "length Q = length (objArray s)"
    "\<And>j. o_owner (Q ! j) = (if j = i \<and> o_owner (obj_at s j) = Some p then None else o_owner (obj_at s j))"
    using disown_ok [of s p i] Cons.prems by auto
  let ?s1 = "s\<lparr>playerArray := P, objArray := Q\<rparr>"
  have "live_bound ?s1" "p < length (playerArray ?s1)" "\<forall>i \<in> set is. i < length (objArray ?s1)"
    using Cons.prems 1(2,3) by (simp_all add: live_bound_def live_objects_def players_kept_def)
  from Cons.IH [OF this] obtain P2 Q2 where 2: "fold (disown p) is ?s1 = ?s1\<lparr>playerArray := P2, objArray := Q2\<rparr>"
    "players_kept P P2" "length Q2 = length Q"
    "\<And>j. o_owner (Q2 ! j) = (if j \<in> set is \<and> o_owner (Q ! j) = Some p then None else o_owner (Q ! j))"
    by auto
  show ?case
    by (intro exI [of _ P2] exI [of _ Q2]) (use 1 2 players_kept_trans [OF 1(2) 2(2)] in auto)
qed

lemma fold_upd_plr:
  assumes "distinct qs" "\<forall>q \<in> set qs. q < length (playerArray s)"
  shows "\<exists>P. fold (\<lambda>q. upd_plr q f) qs s = s\<lparr>playerArray := P\<rparr> \<and> length P = length (playerArray s) \<and>
    (\<forall>q. P ! q = (if q \<in> set qs then f (plr_at s q) else plr_at s q))"
  using assms
proof (induction qs arbitrary: s)
  case Nil
  then show ?case by (intro exI [of _ "playerArray s"]) simp
next
  case (Cons q qs)
  define s1 where "s1 = upd_plr q f s"
  have "distinct qs" "\<forall>q \<in> set qs. q < length (playerArray s1)" using Cons.prems by (simp_all add: s1_def upd_plr_def)
  from Cons.IH [OF this] obtain P where P: "fold (\<lambda>q. upd_plr q f) qs s1 = s1\<lparr>playerArray := P\<rparr>"
    "length P = length (playerArray s1)" "\<And>r. P ! r = (if r \<in> set qs then f (plr_at s1 r) else plr_at s1 r)"
    by blast
  have at: "plr_at s1 r = (if r = q then f (plr_at s q) else plr_at s r)" for r
    using Cons.prems(2) by (simp add: s1_def upd_plr_def nth_list_update)
  have "P ! r = (if r \<in> set (q # qs) then f (plr_at s r) else plr_at s r)" for r
    unfolding P(3) at using Cons.prems(1) by auto
  moreover have "fold (\<lambda>q. upd_plr q f) (q # qs) s = s1\<lparr>playerArray := P\<rparr>" using P(1) by (simp add: s1_def)
  moreover have "s1\<lparr>playerArray := P\<rparr> = s\<lparr>playerArray := P\<rparr>" "length (playerArray s1) = length (playerArray s)"
    by (simp_all add: s1_def upd_plr_def)
  ultimately show ?case using P(2) by (intro exI [of _ P]) simp
qed

lemma unlink_player_ok:
  assumes "registry_ok s" "p \<in> set (playing s)"
    "Players t = Players s" "NumPlayers t = NumPlayers s - 1" "GetInd t = GetInd s"
    "\<forall>q \<in> set (playing s). p_id (plr_at t q) = p_id (plr_at s q)"
  obtains t' where "unlink_player p t = Some t'" "t' = t\<lparr>Players := Players t', GetInd := GetInd t'\<rparr>"
    "set (playing t') = set (playing s) - {p}" "distinct (Players t')" "set (Players t') = set (Players s)"
    "length (Players t') = length (Players s)" "length (GetInd t') = 257"
    "\<And>m. m < NumPlayers t \<Longrightarrow> GetInd t' ! nat (p_id (plr_at s (Players t' ! m))) = m"
proof -
  let ?n = "NumPlayers s - 1" and ?id = "\<lambda>p. p_id (plr_at s p)"
  have r: "distinct (Players s)" "NumPlayers s \<le> length (Players s)" "length (GetInd s) = 257"
    "inj_on ?id (set (playing s))" "\<And>k. k < NumPlayers s \<Longrightarrow> GetInd s ! nat (?id (Players s ! k)) = k"
    using assms(1) by (auto simp: registry_ok_def)
  obtain k where k: "k < NumPlayers s" "Players s ! k = p" using assms(1,2) by (auto simp: playing_iff)
  define l where "l = Players s ! ?n"
  have n: "?n < length (Players s)" "k \<le> ?n" "k < length (Players s)" using k r(2) by simp_all
  have in_play: "Players s ! m \<in> set (playing s)" if "m \<le> ?n" for m
    using that k assms(1) by (auto simp: playing_iff intro!: exI [of _ m])
  have l: "l \<in> set (playing s)" using in_play [of ?n] by (simp add: l_def)
  have range: "1 \<le> ?id q \<and> ?id q \<le> 256" if "q \<in> set (playing s)" for q by (rule player_id_range [OF assms(1) that])
  define G where "G = (GetInd s)[nat (?id l) := k, nat (?id p) := ?n]"
  define t' where "t' = t\<lparr>Players := (Players s)[?n := p, k := l], GetInd := G\<rparr>"
  have run: "unlink_player p t = Some t'"
    using assms(3-6) range [OF l] range [OF assms(2)] r(3) GetInd_at [OF assms(1) k(1)] k(2) l
    by (auto simp: unlink_player_def t'_def G_def l_def Let_def buf_set_def assms(2))
  have sw: "Players t' = (Players s)[?n := Players s ! k, k := Players s ! ?n]" by (simp add: t'_def l_def k(2))
  have P: "Players t' ! m = (if m = k then l else if m = ?n then p else Players s ! m)" if "m \<le> ?n" for m
    using that n k by (auto simp: t'_def nth_list_update)
  have d: "distinct (Players t')" "set (Players t') = set (Players s)" "length (Players t') = length (Players s)"
    unfolding sw using r(1) n by (simp_all add: distinct_swap set_swap)
  have neq: "Players s ! m = Players s ! m' \<longleftrightarrow> m = m'" if "m \<le> ?n" "m' \<le> ?n" for m m'
    using nth_eq_iff_index_eq [OF r(1), of m m'] that n by simp
  have num: "NumPlayers t' = ?n" using assms(4) by (simp add: t'_def)
  have "q \<in> set (playing t') \<longleftrightarrow> q \<in> set (playing s) - {p}" for q
  proof -
    have "q \<in> set (playing t') \<longleftrightarrow> (\<exists>m < ?n. Players t' ! m = q)"
      using n d(3) by (auto simp: playing_def num in_set_conv_nth)
    also have "\<dots> \<longleftrightarrow> (\<exists>m \<le> ?n. m \<noteq> k \<and> Players s ! m = q)"
    proof
      assume "\<exists>m < ?n. Players t' ! m = q"
      then obtain m where m: "m < ?n" "Players t' ! m = q" by blast
      then show "\<exists>m \<le> ?n. m \<noteq> k \<and> Players s ! m = q"
        using P [of m] by (intro exI [of _ "if m = k then ?n else m"]) (auto simp: l_def)
    next
      assume "\<exists>m \<le> ?n. m \<noteq> k \<and> Players s ! m = q"
      then obtain m where m: "m \<le> ?n" "m \<noteq> k" "Players s ! m = q" by blast
      then show "\<exists>m < ?n. Players t' ! m = q"
        using P [of m] P [of k] n by (intro exI [of _ "if m = ?n then k else m"]) (auto simp: l_def)
    qed
    also have "\<dots> \<longleftrightarrow> q \<in> set (playing s) - {p}"
    proof -
      have "q \<in> set (playing s) \<longleftrightarrow> (\<exists>m \<le> ?n. Players s ! m = q)"
      proof -
        have "m \<le> ?n \<longleftrightarrow> m < NumPlayers s" for m using k(1) by linarith
        then show ?thesis by (simp add: playing_iff [OF assms(1)])
      qed
      moreover have "Players s ! m = p \<longleftrightarrow> m = k" if "m \<le> ?n" for m using neq [OF that n(2)] k(2) by simp
      ultimately show ?thesis by auto
    qed
    finally show ?thesis .
  qed
  then have play: "set (playing t') = set (playing s) - {p}" by blast
  have "GetInd t' ! nat (?id (Players t' ! m)) = m" if "m < NumPlayers t" for m
  proof -
    have m: "m < ?n" using that assms(4) by simp
    have idneq: "nat (?id a) \<noteq> nat (?id b)" if "a \<in> set (playing s)" "b \<in> set (playing s)" "a \<noteq> b" for a b
      using that range [OF that(1)] range [OF that(2)] r(4) by (auto simp: inj_on_def nat_eq_iff)
    have size: "nat (?id a) < 257" if "a \<in> set (playing s)" for a using range [OF that] by linarith
    show ?thesis
    proof (cases "m = k")
      case True
      then have "l \<noteq> p" using neq [of k ?n] m n(2) k(2) by (simp add: l_def)
      then show ?thesis
        using P [of m] m True idneq [OF l assms(2)] size [OF l] r(3) by (simp add: t'_def G_def)
    next
      case False
      then have "Players s ! m \<noteq> p" "Players s ! m \<noteq> l" using neq [of m k] neq [of m ?n] m n(2) k(2) by (simp_all add: l_def)
      then show ?thesis
        using P [of m] m False idneq [OF in_play [of m] assms(2)] idneq [OF in_play [of m] l] r(5) [of m] by (simp add: t'_def G_def)
    qed
  qed
  then show ?thesis
    using that [OF run _ play d] r(3) by (simp add: t'_def G_def)
qed

lemma Player_remove_from_team_eq:
  assumes "p_team (plr_at s p) = Some t"
  shows "Player_remove_from_team p s = Some (s\<lparr>playerArray := (playerArray s)[p := (plr_at s p)\<lparr>p_team := None\<rparr>],
    teams := (teams s)[t := (teams s ! t)\<lparr>t_NumRobots := t_NumRobots (teams s ! t) - of_bool (Player_is_robot (plr_at s p)),
       t_NumMembers := t_NumMembers (teams s ! t) - 1\<rparr>]\<rparr>)"
  using assms by (cases "t < length (teams s)")
    (auto simp: Player_remove_from_team_def upd_plr_def upd_team_def Let_def not_less list_update_beyond)

text \<open>What the first part leaves behind.\<close>

lemma Player_leave_ok:
  assumes "registry_ok s" "live_bound s" "robots_ok s" "p \<in> set (playing s)" "p_team (plr_at s p) = Some t"
  obtains s' where "Player_leave p s = Some s'"
    "s' = s\<lparr>NumPlayers := NumPlayers s - 1, playerArray := playerArray s', teams := teams s', objArray := objArray s',
       NumPaused := NumPaused s - of_bool (Player_is_paused (plr_at s p)), NumRobots := NumRobots s - of_bool (Player_is_robot (plr_at s p)),
       NumOperators := NumOperators s - of_bool (p_oper (plr_at s p)), game_lock := game_lock s'\<rparr>"
    "length (playerArray s') = length (playerArray s)" "length (objArray s') = length (objArray s)" "length (teams s') = length (teams s)"
    "\<And>q. q \<noteq> p \<Longrightarrow> ball_changes (plr_at s q) (plr_at s' q)" "p_id (plr_at s' p) = p_id (plr_at s p)"
    "\<And>i. i \<in> set (live_objects s) \<Longrightarrow> o_owner (obj_at s' i) = (if o_owner (obj_at s i) = Some p then None else o_owner (obj_at s i))"
    "\<And>k. k < length (teams s) \<Longrightarrow> teams s' ! k = (teams s ! k)\<lparr>
       t_NumMembers := t_NumMembers (teams s ! k) - of_bool (k = t),
       t_NumRobots := t_NumRobots (teams s ! k) - of_bool (k = t \<and> Player_is_robot (plr_at s p)),
       t_Swapper := (if t_Swapper (teams s ! k) = Some p then None else t_Swapper (teams s ! k))\<rparr>"
proof -
  let ?x = "plr_at s p"
  have p: "p < length (playerArray s)" by (rule playing_less [OF assms(1,4)])
  define P1 where "P1 = (if Player_is_robot ?x then (playerArray s)[p := ?x\<lparr>p_robot_data := None\<rparr>] else playerArray s)"
  have P1: "length P1 = length (playerArray s)" "\<And>q. q \<noteq> p \<Longrightarrow> P1 ! q = plr_at s q" "ident (P1 ! p) = ident ?x" "p_team (P1 ! p) = Some t"
    "Player_is_robot (P1 ! p) = Player_is_robot ?x" "Player_is_paused (P1 ! p) = Player_is_paused ?x" "p_oper (P1 ! p) = p_oper ?x"
    using p assms(5) by (simp_all add: P1_def ident_def player_is_defs)
  have run1: "(if Player_is_robot ?x then Robot_destroy p s else Some s) = Some (s\<lparr>playerArray := P1\<rparr>)"
    using assms(3,4) by (auto simp: Robot_destroy_def robots_ok_def P1_def upd_plr_def)
  define T where "T = map (\<lambda>t. if t_Swapper t = Some p then t\<lparr>t_Swapper := None\<rparr> else t) (teams s)"
  define s3 where "s3 = s\<lparr>playerArray := P1, NumOperators := NumOperators s - of_bool (p_oper ?x),
    game_lock := (game_lock s \<and> (p_oper ?x \<longrightarrow> NumOperators s - 1 \<noteq> 0)), teams := T\<rparr>"
  have lb: "live_bound s3" "p < length (playerArray s3)" "\<forall>i \<in> set (rev (live_objects s3)). i < length (objArray s3)" "live_objects s3 = live_objects s"
    using assms(2) p P1(1) by (simp_all add: live_bound_def live_objects_def s3_def)
  obtain P Q where PQ: "fold (disown p) (rev (live_objects s3)) s3 = s3\<lparr>playerArray := P, objArray := Q\<rparr>" "players_kept P1 P"
    "length Q = length (objArray s)"
    "\<And>j. o_owner (Q ! j) = (if j \<in> set (live_objects s) \<and> o_owner (obj_at s j) = Some p then None else o_owner (obj_at s j))"
    using disown_all_ok [OF lb(1-3)] unfolding lb(4) by (auto simp: s3_def)
  have same: "ident (P ! p) = ident ?x" "length P = length (playerArray s)"
    using ball_changes_ident [of "P1 ! p" "P ! p"] PQ(2) P1(1,3) by (simp_all add: players_kept_def)
  then have x: "p_id (P ! p) = p_id ?x" "p_team (P ! p) = Some t" "Player_is_robot (P ! p) = Player_is_robot ?x"
    "Player_is_paused (P ! p) = Player_is_paused ?x"
    using assms(5) by (simp_all add: ident_def player_is_defs)
  define y where "y = set_state (RECOVERY_DELAY_TICKS s) PL_STATE_UNDEFINED (P ! p)"
  have y: "p_team y = Some t" "Player_is_robot y = Player_is_robot ?x" "p_id y = p_id ?x"
    using x by (simp_all add: y_def player_is_defs)
  define s8 where "s8 = s\<lparr>playerArray := P[p := y], objArray := Q, teams := T, NumPlayers := NumPlayers s - 1,
     NumPaused := NumPaused s - of_bool (Player_is_paused ?x), NumRobots := NumRobots s - of_bool (Player_is_robot ?x),
     NumOperators := NumOperators s - of_bool (p_oper ?x), game_lock := (game_lock s \<and> (p_oper ?x \<longrightarrow> NumOperators s - 1 \<noteq> 0))\<rparr>"
  define s1 where "s1 = s\<lparr>playerArray := P1\<rparr>"
  define s2 where "s2 = s1\<lparr>NumOperators := NumOperators s - of_bool (p_oper ?x),
    game_lock := (game_lock s \<and> (p_oper ?x \<longrightarrow> NumOperators s - 1 \<noteq> 0))\<rparr>"
  define s4 where "s4 = s3\<lparr>playerArray := P, objArray := Q\<rparr>"
  define s5 where "s5 = s4\<lparr>NumPaused := NumPaused s - of_bool (Player_is_paused ?x)\<rparr>"
  define s7 where "s7 = s5\<lparr>playerArray := P[p := y], NumPlayers := NumPlayers s - 1\<rparr>"
  have e2: "(if p_oper (plr_at s1 p)
     then s1\<lparr>NumOperators := NumOperators s1 - 1, game_lock := (game_lock s1 \<and> NumOperators s1 - 1 \<noteq> 0)\<rparr> else s1) = s2"
    using P1(7) by (simp add: s1_def s2_def)
  have e3: "s2\<lparr>teams := map (\<lambda>t. if t_Swapper t = Some p then t\<lparr>t_Swapper := None\<rparr> else t) (teams s2)\<rparr> = s3"
    by (simp add: s2_def s1_def s3_def T_def)
  have e5: "(if Player_is_paused (plr_at s4 p) then s4\<lparr>NumPaused := NumPaused s4 - 1\<rparr> else s4) = s5"
    using x(4) by (simp add: s4_def s5_def s3_def)
  have e7: "(Player_set_state p PL_STATE_UNDEFINED s5)\<lparr>NumPlayers := NumPlayers (Player_set_state p PL_STATE_UNDEFINED s5) - 1\<rparr> = s7"
    by (simp add: Player_set_state_def upd_plr_def s7_def s5_def s4_def s3_def y_def RECOVERY_DELAY_TICKS_def)
  have e8: "(if Player_is_robot (plr_at s7 p) then s7\<lparr>NumRobots := NumRobots s7 - 1\<rparr> else s7) = s8"
    using y(2) same(2) p by (simp add: s7_def s5_def s4_def s3_def s8_def)
  have "Player_leave p s = Player_remove_from_team p s8"
    unfolding Player_leave_def run1 [folded s1_def] bind.simps Let_def e2 e3 PQ(1) s4_def [symmetric] e5 e7 e8 by (rule refl)
  moreover define s' where "s' = s8\<lparr>playerArray := P[p := y\<lparr>p_team := None\<rparr>],
     teams := T[t := (T ! t)\<lparr>t_NumRobots := t_NumRobots (T ! t) - of_bool (Player_is_robot ?x), t_NumMembers := t_NumMembers (T ! t) - 1\<rparr>]\<rparr>"
  moreover have "Player_remove_from_team p s8 = Some s'"
    using p same(2) y Player_remove_from_team_eq [of s8 p t] by (simp add: s'_def s8_def)
  ultimately have run: "Player_leave p s = Some s'" by simp
  show ?thesis
  proof (rule that [OF run])
    show "ball_changes (plr_at s q) (plr_at s' q)" if "q \<noteq> p" for q
    proof -
      have "ball_changes (P1 ! q) (P ! q)" using PQ(2) by (simp add: players_kept_def)
      then show ?thesis using P1(2) [OF that] that by (simp add: s'_def)
    qed
    show "p_id (plr_at s' p) = p_id ?x" using y(3) same(2) p by (simp add: s'_def)
    show "teams s' ! k = (teams s ! k)\<lparr>
       t_NumMembers := t_NumMembers (teams s ! k) - of_bool (k = t),
       t_NumRobots := t_NumRobots (teams s ! k) - of_bool (k = t \<and> Player_is_robot ?x),
       t_Swapper := (if t_Swapper (teams s ! k) = Some p then None else t_Swapper (teams s ! k))\<rparr>" if "k < length (teams s)" for k
    proof (cases "k = t")
      case True
      then show ?thesis using that by (intro team_t.equality) (simp_all add: s'_def T_def)
    next
      case False
      then show ?thesis using that by (intro team_t.equality) (simp_all add: s'_def s8_def T_def)
    qed
    show "o_owner (obj_at s' i) = (if o_owner (obj_at s i) = Some p then None else o_owner (obj_at s i))" if "i \<in> set (live_objects s)" for i
      using PQ(4) [of i] that by (simp add: s'_def s8_def)
  qed (use PQ(3) same(2) in \<open>simp_all add: s'_def s8_def T_def\<close>)
qed

text \<open>The loops over the players who remain.\<close>

lemma set_connps: "set (connps s) = {c. \<exists>q \<in> set (playing s). p_connp (plr_at s q) = Some c}"
  by (auto simp: connps_def split: option.splits)

lemma forget_player_ok:
  assumes "distinct (playing s)" "\<forall>q \<in> set (playing s). q < length (playerArray s)" "robots_ok s" "p \<notin> set (playing s)"
  obtains s' where "forget_player p s = Some s'" "s' = s\<lparr>playerArray := playerArray s', told := told s'\<rparr>"
    "length (playerArray s') = length (playerArray s)"
    "\<And>q. plr_at s' q = (if q \<in> set (playing s) then forget p (NumPlayers s) (plr_at s q) else plr_at s q)"
    "\<exists>ns. told s' = told s @ ns \<and>
       set ns = {Note_leave c (p_id (plr_at s p)) | c q. q \<in> set (playing s) \<and> p_connp (plr_at s q) = Some c}"
proof -
  obtain P where P: "fold (\<lambda>q. upd_plr q (forget p (NumPlayers s))) (rev (playing s)) s = s\<lparr>playerArray := P\<rparr>"
    "length P = length (playerArray s)"
    "\<And>q. P ! q = (if q \<in> set (playing s) then forget p (NumPlayers s) (plr_at s q) else plr_at s q)"
    using fold_upd_plr [of "rev (playing s)" s "forget p (NumPlayers s)"] assms(1,2) by auto
  have rob: "\<not> list_ex (\<lambda>q. Player_is_robot (plr_at s q) \<and> p_robot_data (plr_at s q) = None) (playing s)"
    using assms(3) by (auto simp: robots_ok_def list_ex_iff)
  let ?s1 = "s\<lparr>playerArray := P\<rparr>"
  define ns where "ns = map (\<lambda>c. Note_leave c (p_id (P ! p))) (rev (connps ?s1))"
  have connp: "p_connp (P ! q) = p_connp (plr_at s q)" if "q \<in> set (playing s)" for q
    using that forget_ident(1) [of p "NumPlayers s" "plr_at s q"] by (simp add: P(3) ident_def)
  have "p_id (P ! p) = p_id (plr_at s p)" "playing ?s1 = playing s" using assms(4) by (simp_all add: P(3) playing_def)
  then have "set ns = {Note_leave c (p_id (plr_at s p)) | c q. q \<in> set (playing s) \<and> p_connp (plr_at s q) = Some c}"
    by (auto simp: ns_def set_connps connp image_iff)
  then show ?thesis
    using rob P by (intro that [of "s\<lparr>playerArray := P, told := told s @ ns\<rparr>"])
      (auto simp: forget_player_def announce_def ns_def Let_def)
qed

lemma Player_remove_ok:
  assumes "registry_ok s" "live_bound s" "robots_ok s" "p \<in> set (playing s)" "p_team (plr_at s p) = Some t"
  obtains s' where "Player_remove p s = Some s'" "registry_ok s'" "robots_ok s'" "set (playing s') = set (playing s) - {p}"
    "NumPlayers s' = NumPlayers s - 1" "plr_at s' p = plr_zero"
    "\<And>q. q \<in> set (playing s') \<Longrightarrow> ident (plr_at s' q) = ident (plr_at s q) \<and> plr_refs (plr_at s' q) \<subseteq> plr_refs (plr_at s q) - {p}"
    "live_objects s' = live_objects s" "length (objArray s') = length (objArray s)"
    "\<And>i. i \<in> set (live_objects s) \<Longrightarrow> o_owner (obj_at s' i) = (if o_owner (obj_at s i) = Some p then None else o_owner (obj_at s i))"
    "s' = s\<lparr>Players := Players s', NumPlayers := NumPlayers s - 1, playerArray := playerArray s', GetInd := GetInd s', idq := idq s',
       teams := teams s', objArray := objArray s', NumPaused := NumPaused s', NumRobots := NumRobots s', NumOperators := NumOperators s',
       game_lock := game_lock s', updateScores := True, told := told s'\<rparr>" "length (playerArray s') = length (playerArray s)"
    "length (teams s') = length (teams s)"
    "\<And>k. k < length (teams s) \<Longrightarrow> teams s' ! k = (teams s ! k)\<lparr>
       t_NumMembers := t_NumMembers (teams s ! k) - of_bool (k = t),
       t_NumRobots := t_NumRobots (teams s ! k) - of_bool (k = t \<and> Player_is_robot (plr_at s p)),
       t_Swapper := (if t_Swapper (teams s ! k) = Some p then None else t_Swapper (teams s ! k))\<rparr>"
    "NumPaused s' = NumPaused s - of_bool (Player_is_paused (plr_at s p))"
    "NumRobots s' = NumRobots s - of_bool (Player_is_robot (plr_at s p))"
    "NumOperators s' = NumOperators s - of_bool (p_oper (plr_at s p))"
    "\<exists>ns. told s' = told s @ ns \<and>
       set ns = {Note_leave c (p_id (plr_at s p)) | c q. q \<in> set (playing s') \<and> p_connp (plr_at s q) = Some c}"
proof -
  let ?id = "\<lambda>q. p_id (plr_at s q)"
  obtain s1 where s1: "Player_leave p s = Some s1"
    "s1 = s\<lparr>NumPlayers := NumPlayers s - 1, playerArray := playerArray s1, teams := teams s1, objArray := objArray s1,
       NumPaused := NumPaused s - of_bool (Player_is_paused (plr_at s p)), NumRobots := NumRobots s - of_bool (Player_is_robot (plr_at s p)),
       NumOperators := NumOperators s - of_bool (p_oper (plr_at s p)), game_lock := game_lock s1\<rparr>"
    "length (playerArray s1) = length (playerArray s)" "length (objArray s1) = length (objArray s)" "length (teams s1) = length (teams s)"
    "\<And>q. q \<noteq> p \<Longrightarrow> ball_changes (plr_at s q) (plr_at s1 q)" "?id p = p_id (plr_at s1 p)"
    "\<And>i. i \<in> set (live_objects s) \<Longrightarrow> o_owner (obj_at s1 i) = (if o_owner (obj_at s i) = Some p then None else o_owner (obj_at s i))"
    "\<And>k. k < length (teams s) \<Longrightarrow> teams s1 ! k = (teams s ! k)\<lparr>
       t_NumMembers := t_NumMembers (teams s ! k) - of_bool (k = t),
       t_NumRobots := t_NumRobots (teams s ! k) - of_bool (k = t \<and> Player_is_robot (plr_at s p)),
       t_Swapper := (if t_Swapper (teams s ! k) = Some p then None else t_Swapper (teams s ! k))\<rparr>"
    by (rule Player_leave_ok [OF assms]) (rule that; (assumption | simp))
  have kept: "ident (plr_at s1 q) = ident (plr_at s q)" "plr_refs (plr_at s1 q) = plr_refs (plr_at s q)"
    "p_robot_data (plr_at s1 q) = p_robot_data (plr_at s q)" if "q \<noteq> p" for q
    using ball_changes_ident [OF s1(6) [OF that]] by simp_all
  have id1: "p_id (plr_at s1 q) = ?id q" for q
    using kept(1) [of q] s1(7) by (cases "q = p") (simp_all add: ident_def)
  have id1': "\<forall>q \<in> set (playing s). p_id (plr_at s1 q) = ?id q" using id1 by simp
  have f: "Players s1 = Players s" "NumPlayers s1 = NumPlayers s - 1" "GetInd s1 = GetInd s" "idq s1 = idq s" "told s1 = told s"
    "NumObjs s1 = NumObjs s" "Obj s1 = Obj s"
    by (subst s1(2), simp)+
  obtain s2 where s2: "unlink_player p s1 = Some s2" "s2 = s1\<lparr>Players := Players s2, GetInd := GetInd s2\<rparr>"
    "set (playing s2) = set (playing s) - {p}" "distinct (Players s2)" "set (Players s2) = set (Players s)"
    "length (Players s2) = length (Players s)" "length (GetInd s2) = 257"
    "\<And>m. m < NumPlayers s1 \<Longrightarrow> GetInd s2 ! nat (?id (Players s2 ! m)) = m"
    by (rule unlink_player_ok [OF assms(1,4) f(1-3) id1']) (rule that; assumption)
  have g: "NumPlayers s2 = NumPlayers s - 1" "playerArray s2 = playerArray s1" "idq s2 = idq s" "told s2 = told s"
    using f by (subst s2(2), simp)+
  have r: "length (Players s) = length (playerArray s)" "set (Players s) = {..< length (playerArray s)}" "inj_on ?id (set (playing s))"
    "NumPlayers s \<le> length (Players s)" using assms(1) by (simp_all add: registry_ok_def)
  obtain fr where fr: "ids_hold (idq s) fr (?id ` set (playing s))" using assms(1) by (auto simp: registry_ok_def)
  have d: "distinct (playing s2)" using s2(4) by (simp add: playing_def)
  have b: "\<forall>q \<in> set (playing s2). q < length (playerArray s2)" using playing_less [OF assms(1)] s2(3) g(2) s1(3) by auto
  have rob: "robots_ok s2"
    using assms(3) kept s2(3) by (auto simp: robots_ok_def g ident_def player_is_defs)
  have np: "p \<notin> set (playing s2)" using s2(3) by simp
  obtain s3 where s3: "forget_player p s2 = Some s3" "s3 = s2\<lparr>playerArray := playerArray s3, told := told s3\<rparr>"
    "length (playerArray s3) = length (playerArray s2)"
    "\<And>q. plr_at s3 q = (if q \<in> set (playing s2) then forget p (NumPlayers s2) (plr_at s2 q) else plr_at s2 q)"
    "\<exists>ns. told s3 = told s2 @ ns \<and>
       set ns = {Note_leave c (p_id (plr_at s2 p)) | c q. q \<in> set (playing s2) \<and> p_connp (plr_at s2 q) = Some c}"
    by (rule forget_player_ok [OF d b rob np]) (rule that; assumption)
  have h: "Players s3 = Players s2" "NumPlayers s3 = NumPlayers s - 1" "GetInd s3 = GetInd s2" "idq s3 = idq s" "playing s3 = playing s2"
    "live_objects s3 = live_objects s" "objArray s3 = objArray s1" "teams s3 = teams s1"
    "NumPaused s3 = NumPaused s - of_bool (Player_is_paused (plr_at s p))"
    "NumRobots s3 = NumRobots s - of_bool (Player_is_robot (plr_at s p))"
    "NumOperators s3 = NumOperators s - of_bool (p_oper (plr_at s p))"
    using g by ((subst s3(2))?, (subst s2(2))?, (subst s1(2))?, simp add: playing_def live_objects_def)+
  have at: "plr_at s3 q = forget p (NumPlayers s - 1) (plr_at s1 q)" if "q \<in> set (playing s2)" for q
    using that by (simp add: s3(4) g)
  have kept3: "ident (plr_at s3 q) = ident (plr_at s q)" "plr_refs (plr_at s3 q) \<subseteq> plr_refs (plr_at s q) - {p}"
    "p_robot_data (plr_at s3 q) = None \<longleftrightarrow> p_robot_data (plr_at s q) = None" if "q \<in> set (playing s2)" for q
  proof -
    have q: "q \<noteq> p" using that np by blast
    show "ident (plr_at s3 q) = ident (plr_at s q)" using kept(1) [OF q] by (simp add: at [OF that] forget_ident)
    show "plr_refs (plr_at s3 q) \<subseteq> plr_refs (plr_at s q) - {p}"
      using forget_refs [of p _ "plr_at s1 q"] kept(2) [OF q] by (simp add: at [OF that])
    show "p_robot_data (plr_at s3 q) = None \<longleftrightarrow> p_robot_data (plr_at s q) = None"
      using kept(3) [OF q] by (simp add: at [OF that] forget_ident)
  qed
  have idp: "p_id (plr_at s3 p) = ?id p" using np by (simp add: s3(4) g id1)
  obtain q where q: "release_ID (?id p) (idq s) = Some q" "ids_hold q (fr @ [?id p]) (?id ` set (playing s) - {?id p})"
    using object_ids.release_used [OF fr, of "?id p"] assms(4) by blast
  define s4 where "s4 = s3\<lparr>idq := q, playerArray := (playerArray s3)[p := plr_zero], updateScores := True\<rparr>"
  have run: "Player_remove p s = Some s4"
    by (simp add: Player_remove_def s1(1) s2(1) s3(1) h(4) idp q(1) s4_def)
  have len: "length (playerArray s3) = length (playerArray s)" using s1(3) s3(3) g(2) by simp
  then have p: "p < length (playerArray s3)" using playing_less [OF assms(1,4)] by simp
  have at4: "plr_at s4 q = plr_at s3 q" if "q \<in> set (playing s2)" for q
    using that np by (cases "q = p") (simp_all add: s4_def)
  have play: "playing s4 = playing s2" using h(1,5) by (simp add: s4_def playing_def)
  have id4: "p_id (plr_at s4 q) = ?id q" if "q \<in> set (playing s2)" for q
    using kept3(1) [OF that] by (simp add: at4 [OF that] ident_def)
  have "(\<lambda>q. p_id (plr_at s4 q)) ` set (playing s4) = ?id ` (set (playing s) - {p})"
    unfolding play s2(3) [symmetric] by (rule image_cong) (simp_all add: id4)
  also have "\<dots> = ?id ` set (playing s) - {?id p}"
    using r(3) assms(4) by (subst inj_on_image_set_diff [of _ "set (playing s)"]) auto
  finally have ids: "(\<lambda>q. p_id (plr_at s4 q)) ` set (playing s4) = ?id ` set (playing s) - {?id p}" .
  have "inj_on (\<lambda>q. p_id (plr_at s4 q)) (set (playing s4))"
    unfolding play using r(3) id4 s2(3) by (auto simp: inj_on_def)
  moreover have "GetInd s4 ! nat (p_id (plr_at s4 (Players s4 ! m))) = m" if "m < NumPlayers s4" for m
  proof -
    have m: "m < NumPlayers s - 1" using that h(2) by (simp add: s4_def)
    then have "Players s2 ! m \<in> set (playing s2)"
      using r(4) s2(6) g(1) by (auto simp: playing_def in_set_conv_nth intro!: exI [of _ m])
    then show ?thesis using s2(8) [of m] m id4 h(1,3) f(2) by (simp add: s4_def)
  qed
  ultimately have reg: "registry_ok s4"
    unfolding registry_ok_def ids using q(2) s2(4-7) r h len by (auto simp: s4_def)
  have rob4: "robots_ok s4"
    using assms(3) kept3(1,3) at4 s2(3) unfolding robots_ok_def play by (auto simp: ident_def player_is_defs)
  show ?thesis
  proof (rule that [OF run reg rob4])
    show "ident (plr_at s4 q) = ident (plr_at s q) \<and> plr_refs (plr_at s4 q) \<subseteq> plr_refs (plr_at s q) - {p}"
      if "q \<in> set (playing s4)" for q using that kept3(1,2) unfolding play by (simp add: at4)
    have connp: "p_connp (plr_at s2 q) = p_connp (plr_at s q)" if "q \<in> set (playing s2)" for q
      using that np kept(1) [of q] by (cases "q = p") (simp_all add: g ident_def)
    show "\<exists>ns. told s4 = told s @ ns \<and>
       set ns = {Note_leave c (p_id (plr_at s p)) | c q. q \<in> set (playing s4) \<and> p_connp (plr_at s q) = Some c}"
    proof -
      have "{Note_leave c (?id p) | c q. q \<in> set (playing s2) \<and> p_connp (plr_at s2 q) = Some c} =
          {Note_leave c (?id p) | c q. q \<in> set (playing s2) \<and> p_connp (plr_at s q) = Some c}"
        by (simp add: connp cong: conj_cong)
      moreover have "p_id (plr_at s2 p) = ?id p" by (simp add: g(2) id1)
      ultimately show ?thesis using s3(5) unfolding play by (simp add: s4_def g(4))
    qed
    show "o_owner (obj_at s4 i) = (if o_owner (obj_at s i) = Some p then None else o_owner (obj_at s i))" if "i \<in> set (live_objects s)" for i
      using s1(8) [OF that] by (simp add: s4_def h)
    show "teams s4 ! k = (teams s ! k)\<lparr>
       t_NumMembers := t_NumMembers (teams s ! k) - of_bool (k = t),
       t_NumRobots := t_NumRobots (teams s ! k) - of_bool (k = t \<and> Player_is_robot (plr_at s p)),
       t_Swapper := (if t_Swapper (teams s ! k) = Some p then None else t_Swapper (teams s ! k))\<rparr>" if "k < length (teams s)" for k
      using s1(9) [OF that] by (simp add: s4_def h)
    show "s4 = s\<lparr>Players := Players s4, NumPlayers := NumPlayers s - 1, playerArray := playerArray s4, GetInd := GetInd s4, idq := idq s4,
       teams := teams s4, objArray := objArray s4, NumPaused := NumPaused s4, NumRobots := NumRobots s4, NumOperators := NumOperators s4,
       game_lock := game_lock s4, updateScores := True, told := told s4\<rparr>"
      using s1(2) s2(2) s3(2) by (cases s; cases s1; cases s2; cases s3; cases s4) (simp add: s4_def)
    show "length (playerArray s4) = length (playerArray s)" using len by (simp add: s4_def)
    show "set (playing s4) = set (playing s) - {p}" unfolding play by (rule s2(3))
    show "live_objects s4 = live_objects s" using h(6) by (simp add: s4_def live_objects_def)
  qed (use h p s1(4,5) in \<open>simp_all add: s4_def\<close>)
qed

subsection \<open>The counters\<close>

definition headcount :: "(plr \<Rightarrow> bool) \<Rightarrow> gstate \<Rightarrow> int" where
  "headcount Q s = int (length (filter (\<lambda>q. Q (plr_at s q)) (playing s)))"

definition in_team :: "nat \<Rightarrow> plr \<Rightarrow> bool" where "in_team k x \<longleftrightarrow> p_team x = Some k"

definition counts_ok :: "gstate \<Rightarrow> bool" where
  "counts_ok s \<longleftrightarrow> NumPaused s = headcount Player_is_paused s \<and> NumRobots s = headcount Player_is_robot s \<and>
     NumOperators s = headcount p_oper s \<and>
     (\<forall>k < length (teams s). t_NumMembers (teams s ! k) = headcount (in_team k) s \<and>
        t_NumRobots (teams s ! k) = headcount (\<lambda>x. in_team k x \<and> Player_is_robot x) s)"

lemma distinct_playing: "registry_ok s \<Longrightarrow> distinct (playing s)"
  by (simp add: registry_ok_def playing_def)

lemma headcount_card: "distinct (playing s) \<Longrightarrow> headcount Q s = int (card {q \<in> set (playing s). Q (plr_at s q)})"
  by (simp add: headcount_def distinct_length_filter Int_def conj_commute)

text \<open>What a count depends on is what identifies a player.\<close>

definition by_ident :: "(plr \<Rightarrow> bool) \<Rightarrow> bool" where "by_ident Q \<longleftrightarrow> (\<forall>x y. ident x = ident y \<longrightarrow> Q x = Q y)"

lemma by_idents [simp]: "by_ident Player_is_paused" "by_ident Player_is_robot" "by_ident p_oper" "by_ident (in_team k)"
  "by_ident (\<lambda>x. in_team k x \<and> Player_is_robot x)"
  by (auto simp: by_ident_def ident_def player_is_defs in_team_def)

lemma headcount_removed:
  assumes "distinct (playing s)" "distinct (playing s')" "p \<in> set (playing s)" "set (playing s') = set (playing s) - {p}"
    "\<And>q. q \<in> set (playing s') \<Longrightarrow> ident (plr_at s' q) = ident (plr_at s q)" "by_ident Q"
  shows "headcount Q s' = headcount Q s - of_bool (Q (plr_at s p))"
proof -
  let ?A = "{q \<in> set (playing s). Q (plr_at s q)}"
  have "Q (plr_at s' q) = Q (plr_at s q)" if "q \<in> set (playing s')" for q
    using assms(5) [OF that] assms(6) unfolding by_ident_def by blast
  then have "{q \<in> set (playing s'). Q (plr_at s' q)} = {q \<in> set (playing s'). Q (plr_at s q)}" by blast
  then have "{q \<in> set (playing s'). Q (plr_at s' q)} = ?A - {p}" unfolding assms(4) by blast
  moreover have "int (card (?A - {p})) + of_bool (Q (plr_at s p)) = int (card ?A)"
  proof (cases "Q (plr_at s p)")
    case True
    then have "p \<in> ?A" using assms(3) by simp
    then have "card ?A = Suc (card (?A - {p}))" by (intro card.remove) auto
    then show ?thesis using True by simp
  next
    case False
    then have "?A - {p} = ?A" by auto
    then show ?thesis using False by simp
  qed
  ultimately show ?thesis unfolding headcount_card [OF assms(1)] headcount_card [OF assms(2)] by simp
qed

definition game_ok :: "gstate \<Rightarrow> bool" where
  "game_ok s \<longleftrightarrow> registry_ok s \<and> refs_ok s \<and> counts_ok s \<and> robots_ok s \<and> live_bound s"

lemma Player_remove_keeps:
  assumes "game_ok s" "p \<in> set (playing s)" "p_team (plr_at s p) = Some t"
  obtains s' where "Player_remove p s = Some s'" "game_ok s'" "set (playing s') = set (playing s) - {p}"
    "plr_at s' p = plr_zero" "\<And>q. q \<in> set (playing s') \<Longrightarrow> ident (plr_at s' q) = ident (plr_at s q)"
    "s' = s\<lparr>Players := Players s', NumPlayers := NumPlayers s - 1, playerArray := playerArray s', GetInd := GetInd s', idq := idq s',
       teams := teams s', objArray := objArray s', NumPaused := NumPaused s', NumRobots := NumRobots s', NumOperators := NumOperators s',
       game_lock := game_lock s', updateScores := True, told := told s'\<rparr>" "length (playerArray s') = length (playerArray s)"
    "length (teams s') = length (teams s)"
    "\<And>k. k < length (teams s) \<Longrightarrow> teams s' ! k = (teams s ! k)\<lparr>t_NumMembers := t_NumMembers (teams s' ! k),
       t_NumRobots := t_NumRobots (teams s' ! k), t_Swapper := t_Swapper (teams s' ! k)\<rparr>"
    "\<And>k q. k < length (teams s) \<Longrightarrow> t_Swapper (teams s' ! k) = Some q \<Longrightarrow> t_Swapper (teams s ! k) = Some q"
    "\<exists>ns. told s' = told s @ ns \<and>
       set ns = {Note_leave c (p_id (plr_at s p)) | c q. q \<in> set (playing s') \<and> p_connp (plr_at s q) = Some c}"
proof -
  from assms(1) have ok: "registry_ok s" "live_bound s" "robots_ok s" "refs_ok s" "counts_ok s" by (simp_all add: game_ok_def)
  obtain s' where r: "Player_remove p s = Some s'" "registry_ok s'" "robots_ok s'" "set (playing s') = set (playing s) - {p}"
    "plr_at s' p = plr_zero"
    "\<And>q. q \<in> set (playing s') \<Longrightarrow> ident (plr_at s' q) = ident (plr_at s q) \<and> plr_refs (plr_at s' q) \<subseteq> plr_refs (plr_at s q) - {p}"
    "live_objects s' = live_objects s" "length (objArray s') = length (objArray s)"
    "\<And>i. i \<in> set (live_objects s) \<Longrightarrow> o_owner (obj_at s' i) = (if o_owner (obj_at s i) = Some p then None else o_owner (obj_at s i))"
    "s' = s\<lparr>Players := Players s', NumPlayers := NumPlayers s - 1, playerArray := playerArray s', GetInd := GetInd s', idq := idq s',
       teams := teams s', objArray := objArray s', NumPaused := NumPaused s', NumRobots := NumRobots s', NumOperators := NumOperators s',
       game_lock := game_lock s', updateScores := True, told := told s'\<rparr>" "length (playerArray s') = length (playerArray s)"
    "length (teams s') = length (teams s)"
    "\<And>k. k < length (teams s) \<Longrightarrow> teams s' ! k = (teams s ! k)\<lparr>
       t_NumMembers := t_NumMembers (teams s ! k) - of_bool (k = t),
       t_NumRobots := t_NumRobots (teams s ! k) - of_bool (k = t \<and> Player_is_robot (plr_at s p)),
       t_Swapper := (if t_Swapper (teams s ! k) = Some p then None else t_Swapper (teams s ! k))\<rparr>"
    "NumPaused s' = NumPaused s - of_bool (Player_is_paused (plr_at s p))"
    "NumRobots s' = NumRobots s - of_bool (Player_is_robot (plr_at s p))"
    "NumOperators s' = NumOperators s - of_bool (p_oper (plr_at s p))"
    "\<exists>ns. told s' = told s @ ns \<and>
       set ns = {Note_leave c (p_id (plr_at s p)) | c q. q \<in> set (playing s') \<and> p_connp (plr_at s q) = Some c}"
    by (rule Player_remove_ok [OF ok(1-3) assms(2,3)]) (rule that; (assumption | blast))
  have hc: "headcount Q s' = headcount Q s - of_bool (Q (plr_at s p))" if "by_ident Q" for Q
    using headcount_removed [OF distinct_playing [OF ok(1)] distinct_playing [OF r(2)] assms(2) r(4) _ that] r(6) by blast
  have "counts_ok s'"
    using ok(5) assms(3) unfolding counts_ok_def by (simp add: hc r(12-16)) (simp add: in_team_def)
  moreover have "refs_ok s'"
    unfolding refs_ok_def
  proof (intro conjI ballI allI impI)
    fix q assume q: "q \<in> set (playing s')"
    then have "plr_refs (plr_at s q) \<subseteq> set (playing s)" using ok(4) r(4) by (simp add: refs_ok_def)
    then show "plr_refs (plr_at s' q) \<subseteq> set (playing s')" using r(4) r(6) [OF q] by blast
  next
    fix x q assume x: "x \<in> set (teams s')" "t_Swapper x = Some q"
    then obtain k where k: "k < length (teams s)" "x = teams s' ! k" using r(12) by (auto simp: in_set_conv_nth)
    then have "t_Swapper (teams s ! k) = Some q" "q \<noteq> p" using x(2) r(13) [OF k(1)] by (auto split: if_splits)
    then show "q \<in> set (playing s')" using ok(4) k(1) r(4) nth_mem unfolding refs_ok_def by blast
  next
    fix i q assume i: "i \<in> set (live_objects s')" "o_owner (obj_at s' i) = Some q"
    then have "o_owner (obj_at s i) = Some q" "q \<noteq> p" using r(7) r(9) [of i] by (auto split: if_splits)
    then show "q \<in> set (playing s')" using ok(4) i(1) r(4,7) by (auto simp: refs_ok_def)
  qed
  moreover have "live_bound s'" using ok(2) r(7,8) by (simp add: live_bound_def)
  ultimately have "game_ok s'" using r(2,3) by (simp add: game_ok_def)
  then show ?thesis by (rule that [OF r(1) _ r(4,5) _ r(10-12) _ _ r(17)]) (use r(6) in blast, simp add: r(13), simp add: r(13) split: if_splits)
qed

text \<open>C3. When a player leaves, whatever it owns or is referred to by, nothing is left dangling: the call returns, the rest stay
  in the game, \<open>GetInd\<close> and the identifiers in use match them again, no lock, lock bank, shove record, robot's enemy, swapper or
  owner of an object refers to the one who left, every counter counts what it says, and exactly the connections of those who
  remain are told of the identifier that left.\<close>

theorem Player_remove_safe:
  assumes "game_ok s" "p \<in> set (playing s)" "p_team (plr_at s p) \<noteq> None"
  shows "\<exists>s' ns. Player_remove p s = Some s' \<and> game_ok s' \<and> set (playing s') = set (playing s) - {p} \<and> told s' = told s @ ns \<and>
    set ns = {Note_leave c (p_id (plr_at s p)) | c q. q \<in> set (playing s') \<and> p_connp (plr_at s q) = Some c}"
proof -
  obtain t where t: "p_team (plr_at s p) = Some t" using assms(3) by blast
  obtain s' where "Player_remove p s = Some s'" "game_ok s'" "set (playing s') = set (playing s) - {p}"
    "\<exists>ns. told s' = told s @ ns \<and>
       set ns = {Note_leave c (p_id (plr_at s p)) | c q. q \<in> set (playing s') \<and> p_connp (plr_at s q) = Some c}"
    by (rule Player_remove_keeps [OF assms(1,2) t]) (rule that; assumption)
  then show ?thesis by blast
qed

text \<open>Every other player comes by once, in order.\<close>

lemma ring_from_players:
  assumes "registry_ok s" "k < NumPlayers s"
  shows "set (ring_from fw s k) = set (playing s) - {Players s ! k}"
proof -
  let ?n = "NumPlayers s"
  have "ring_at fw s k j \<in> set (playing s) - {Players s ! k}" if "0 < j" "j < ?n" for j
  proof -
    have "\<exists>i < ?n. Players s ! i = ring_at fw s k j" using assms(2) by (cases fw) (auto simp: ring_at_def intro!: exI [of _ "_ mod ?n"])
    then show ?thesis using ring_at_start [OF assms that, of fw] assms(1) by (simp add: playing_iff)
  qed
  moreover have "\<exists>j. 0 < j \<and> j < ?n \<and> ring_at fw s k j = q" if q: "q \<in> set (playing s)" "q \<noteq> Players s ! k" for q
  proof -
    obtain m where m: "m < ?n" "Players s ! m = q" using q(1) assms(1) by (auto simp: playing_iff)
    then have "m \<noteq> k" using q(2) by auto
    define a b where "a = (if k < m then m - k else m + ?n - k)" and "b = (if m < k then k - m else k + ?n - m)"
    have "0 < a" "a < ?n" "0 < b" "b < ?n" "(k + a) mod ?n = m" "(k + (?n - b)) mod ?n = m"
      using m(1) assms(2) \<open>m \<noteq> k\<close> by (auto simp: a_def b_def mod_if)
    then show ?thesis
      using m(2) by (intro exI [of _ "if fw then a else b"]) (simp add: ring_at_def)
  qed
  moreover have "set (ring_from fw s k) = ring_at fw s k ` {1..<?n}" by (simp add: ring_from_def)
  ultimately show ?thesis
    by (intro equalityI subsetI) (auto simp: Suc_le_eq, metis One_nat_def Suc_leI atLeastLessThan_iff image_eqI)
qed

text \<open>C7. The search for the next player to lock on, which loops until it is back where it began, ends within as many rounds as
  there are players: it finds the first other player in the ring, forwards or backwards from the present target, who may
  be locked on, and keeps the target when there is none; the lock is dropped when the ring leads to the player itself.\<close>

theorem Player_lock_next_finds:
  assumes "registry_ok s" "p_lock_player (plr_at s p)" "k < NumPlayers s" "p_lock_object (plr_at s p) = Some (Players s ! k)"
  shows "set (ring_from fw s k) = set (playing s) - {Players s ! k} \<and>
    Player_lock_next d (NumPlayers s) p fw s =
      Some (let q = (case find (\<lambda>q. \<not> unsuitable p s q) (ring_from fw s k) of Some q \<Rightarrow> q | None \<Rightarrow> Players s ! k)
            in if q = p then upd_plr p (\<lambda>x. x\<lparr>p_lock_player := False\<rparr>) s
               else upd_plr p (\<lambda>x. x\<lparr>p_lock_object := Some q, p_lock_player := True\<rparr>) s)"
proof -
  have "lock_search (NumPlayers s) fw p (Players s ! k) (Players s ! k) s =
     Some (case find (\<lambda>q. \<not> unsuitable p s q) (ring_from fw s k) of Some q \<Rightarrow> q | None \<Rightarrow> Players s ! k)"
    using lock_search_ring [OF assms(1,3), of 0 "NumPlayers s" fw p] assms(3)
    by (simp add: ring_from_def ring_at_end(2) One_nat_def)
  then show ?thesis using ring_from_players [OF assms(1,3)] assms(2,4) by (simp add: Player_lock_next_def Let_def)
qed

subsection \<open>Witnesses\<close>

fun take_ids :: "nat \<Rightarrow> ids \<Rightarrow> ids" where
  "take_ids 0 q = q"
| "take_ids (Suc n) q = (case request_ID q of None \<Rightarrow> q | Some (i, q') \<Rightarrow> take_ids n q')"

lemma take_ids_ok: "ids_hold q (is @ fr) us \<Longrightarrow> ids_hold (take_ids (length is) q) fr (set is \<union> us)"
proof (induction "is" arbitrary: q us)
  case (Cons i "is")
  from object_ids.request_some [of q i "is @ fr" us] Cons.prems obtain q' where
    "request_ID q = Some (i, q')" "ids_hold q' (is @ fr) (insert i us)" by auto
  with Cons.IH show ?case by fastforce
qed simp

text \<open>Three players: one on team 1, a robot of team 3 at war with it, and a paused one who has a lock on it.\<close>

definition demo_teams :: "team_t list" where
  "demo_teams = map (\<lambda>i. \<lparr>t_Num = int i, t_NumMembers = of_bool (i \<in> {0, 1, 3}), t_NumRobots = of_bool (i = 3),
     t_NumBases = (if i = 1 then 2 else if i \<in> {2, 3} then 1 else 0), t_NumTreasures = 0, t_TreasuresDestroyed = 0,
     t_TreasuresLeft = 0, t_Swapper = None, t_Properties = 0\<rparr>) [0..<MAX_TEAMS]"

definition demo_game :: gstate where
  "demo_game = empty_game\<lparr>Players := [2, 0, 1, 3], NumPlayers := 3,
     playerArray := [plr_zero\<lparr>p_id := 1, p_type := PL_TYPE_HUMAN, p_state := PL_STATE_ALIVE, p_team := Some 1, p_home := Some 0,
                        p_connp := Some 0\<rparr>,
                     plr_zero\<lparr>p_id := 2, p_type := PL_TYPE_ROBOT, p_state := PL_STATE_ALIVE, p_team := Some 3, p_home := Some 3,
                        p_robot_data := Some (Some 0)\<rparr>,
                     plr_zero\<lparr>p_id := 3, p_type := PL_TYPE_HUMAN, p_state := PL_STATE_PAUSED, p_team := Some 0, p_connp := Some 1,
                        p_lock_player := True, p_lock_object := Some 0\<rparr>,
                     plr_zero],
     GetInd := (replicate 257 0)[1 := 1, 2 := 2], idq := take_ids 3 ids_initial, teams := demo_teams,
     bases := map (\<lambda>t. \<lparr>b_bx = int t, b_by = 0, b_team = Some t\<rparr>) [1, 1, 2, 3], NumPaused := 1, NumRobots := 1\<rparr>"

lemma demo_game_ok: "game_ok demo_game"
proof -
  have play: "playing demo_game = [2, 0, 1]" by (simp add: playing_def demo_game_def)
  define L where "L = map int [4..<257]"
  have "map int [1..<257] = [1, 2, 3] @ L" unfolding L_def by (simp add: upt_conv_Cons)
  then have "ids_hold ids_initial ([1, 2, 3] @ L) {}"
    using initial_holds [of ids_initial] by (simp only:) (simp add: ids_initial_def)
  from take_ids_ok [OF this] have "ids_hold (take_ids 3 ids_initial) L {1, 2, 3}" by (simp add: numeral_3_eq_3)
  moreover have "(\<lambda>p. p_id (plr_at demo_game p)) ` set (playing demo_game) = {1, 2, 3}"
    unfolding play by (auto simp: demo_game_def)
  moreover have "set [2, 0, 1, 3] = {..<4::nat}" by auto
  ultimately have "registry_ok demo_game"
    unfolding registry_ok_def play by (auto simp: demo_game_def plr_zero_def less_Suc_eq numeral_eq_Suc)
  moreover have "live_objects demo_game = []" by (simp add: live_objects_def demo_game_def empty_game_def)
  moreover from this have "refs_ok demo_game" "live_bound demo_game"
    unfolding refs_ok_def live_bound_def play
    by (auto simp: demo_game_def plr_zero_def plr_refs_def demo_teams_def player_is_defs)
  moreover have "robots_ok demo_game"
    unfolding robots_ok_def play by (simp add: demo_game_def plr_zero_def player_is_defs)
  moreover have "counts_ok demo_game"
    unfolding counts_ok_def headcount_def play
    by (simp add: demo_game_def empty_game_def plr_zero_def player_is_defs in_team_def demo_teams_def)
  ultimately show ?thesis by (simp add: game_ok_def)
qed

theorem Player_remove_safe_witness:
  "\<exists>s' ns. Player_remove 0 demo_game = Some s' \<and> game_ok s' \<and> set (playing s') = {1, 2} \<and> told s' = ns \<and>
    set ns = {Note_leave 1 1}"
proof -
  have d: "playing demo_game = [2, 0, 1]" "p_id (plr_at demo_game 0) = 1" "p_connp (plr_at demo_game 1) = None"
    "p_connp (plr_at demo_game 2) = Some 1" "told demo_game = []" "p_team (plr_at demo_game 0) \<noteq> None"
    by (simp_all add: playing_def demo_game_def plr_zero_def empty_game_def)
  have mem: "0 \<in> set (playing demo_game)" by (simp add: d(1))
  obtain s' ns where s': "Player_remove 0 demo_game = Some s'" "game_ok s'" "set (playing s') = set (playing demo_game) - {0}"
    "told s' = told demo_game @ ns"
    "set ns = {Note_leave c (p_id (plr_at demo_game 0)) | c q. q \<in> set (playing s') \<and> p_connp (plr_at demo_game q) = Some c}"
    using Player_remove_safe [OF demo_game_ok mem d(6)] by (elim exE conjE) (rule that; assumption)
  have p: "set (playing s') = {1, 2}" unfolding s'(3) d(1) by auto
  have "q \<in> {1, 2} \<and> p_connp (plr_at demo_game q) = Some c \<longleftrightarrow> q = 2 \<and> c = 1" for q c using d(3,4) by auto
  then have "set ns = {Note_leave 1 1}" unfolding s'(5) p d(2) by simp
  then show ?thesis using s'(1,2,4) p d(5) by (intro exI [of _ s'] exI [of _ ns]) simp
qed

theorem Player_lock_next_finds_witness:
  "Player_lock_next (\<lambda>_ _. 0) 3 2 True demo_game = Some (upd_plr 2 (\<lambda>x. x\<lparr>p_lock_object := Some 1, p_lock_player := True\<rparr>) demo_game)"
proof -
  have d: "Players demo_game ! 1 = 0" "NumPlayers demo_game = 3" "p_lock_player (plr_at demo_game 2)"
    "p_lock_object (plr_at demo_game 2) = Some 0" by (simp_all add: demo_game_def)
  have "ring_from True demo_game 1 = [1, 2]" by (simp add: ring_from_def ring_at_def demo_game_def upt_conv_Cons)
  moreover have "\<not> unsuitable 2 demo_game 1"
    by (simp add: unsuitable_def Player_lock_is_allowed_def demo_game_def player_is_defs plr_zero_def empty_game_def)
  moreover have "registry_ok demo_game" using demo_game_ok by (simp add: game_ok_def)
  ultimately show ?thesis
    using Player_lock_next_finds [of demo_game 2 1 True "\<lambda>_ _. 0"] d by simp
qed

end
