(* ===== verification/Team_Play.thy ===== *)
theory Team_Play
  imports Game_Players C_Strings
begin

text \<open>
  Playing in teams: entering the game (the middle of \<open>Handle_login\<close> in \<open>server/netserver.c\<close>, \<open>Robot_add\<close> in
  \<open>server/robot.c\<close>), pausing and unpausing, changing teams and home bases (\<open>server/player.c\<close>), and what the
  command \<open>team\<close> does (\<open>Cmd_team\<close> in \<open>server/command.c\<close>). Texts shown to players are left out; what is sent as packets is kept
  as notices. Distances are the parameter \<open>d\<close> of the lock functions.
\<close>

subsection \<open>Homes\<close>

definition Player_owns_base :: "nat \<Rightarrow> gstate \<Rightarrow> nat option" where
  "Player_owns_base b s = find (\<lambda>q. p_home (plr_at s q) = Some b) (playing s)"

text \<open>Velocity, shield and weapons are left out, apart from \<open>HAS_BALL\<close>, which is not among \<open>HAS_DEFAULT\<close>.\<close>

definition Player_go_home :: "nat \<Rightarrow> gstate \<Rightarrow> gstate option" where
  "Player_go_home p s =
     do { b \<leftarrow> p_home (plr_at s p);
          Some (upd_plr p (\<lambda>x. x\<lparr>p_bx := b_bx (bases s ! b), p_by := b_by (bases s ! b), p_velocity := 0, p_has_ball := False\<rparr>) s) }"

definition Player_change_home :: "nat \<Rightarrow> nat \<Rightarrow> gstate \<Rightarrow> gstate" where
  "Player_change_home p b s =
     (let h = p_home (plr_at s p) in
      if h = Some b then s
      else if b_team (bases s ! b) \<noteq> None \<and> b_team (bases s ! b) \<noteq> p_team (plr_at s p) then s
      else
        let s1 = (case Player_owns_base b s of
                    Some q \<Rightarrow> if q \<noteq> p then announce [Note_player q PL_SEND_BASE, Note_myself q PL_SEND_BASE] (upd_plr q (\<lambda>x. x\<lparr>p_home := h\<rparr>) s)
                              else s
                  | None \<Rightarrow> s)
        in announce [Note_player p PL_SEND_BASE, Note_myself p PL_SEND_BASE] (upd_plr p (\<lambda>x. x\<lparr>p_home := Some b\<rparr>) s1))"

definition Map_get_base_by_pos :: "int \<Rightarrow> int \<Rightarrow> gstate \<Rightarrow> nat option" where
  "Map_get_base_by_pos x y s = find (\<lambda>i. b_bx (bases s ! i) = x \<and> b_by (bases s ! i) = y) [0..<length (bases s)]"

definition Player_is_close_to_base :: "nat \<Rightarrow> gstate \<Rightarrow> bool option" where
  "Player_is_close_to_base p s =
     do { h \<leftarrow> p_home (plr_at s p);
          let x = plr_at s p;
          let b = bases s ! h;
          let minv = (if b_bx b = p_bx x \<and> b_by b = p_by x then Some 3
                      else if \<bar>b_bx b - p_bx x\<bar> \<le> 2 \<and> \<bar>b_by b - p_by x\<bar> \<le> 2 then Some 5 else None);
          Some (case minv of None \<Rightarrow> False | Some v \<Rightarrow> \<not> p_velocity x > v) }"

subsection \<open>Leaving by force\<close>

text \<open>What \<open>Destroy_connection\<close> does to the game for the connection of a player.\<close>

definition drop_connection :: "nat \<Rightarrow> gstate \<Rightarrow> gstate option" where
  "drop_connection p s = do { c \<leftarrow> p_connp (plr_at s p); Player_remove p (upd_plr p (\<lambda>x. x\<lparr>p_connp := None\<rparr>) s) }"

definition Robot_kick :: "nat \<Rightarrow> gstate \<Rightarrow> gstate option" where
  "Robot_kick p s = (if Player_is_robot (plr_at s p) then Player_remove p s else Some s)"

text \<open>The robot with the lowest score, the first of several, among those with \<open>P\<close>.\<close>

definition low_robot :: "(plr \<Rightarrow> bool) \<Rightarrow> gstate \<Rightarrow> nat option" where
  "low_robot P s =
     fst (fold (\<lambda>q (r, low). if Player_is_robot (plr_at s q) \<and> P (plr_at s q) \<and> p_score (plr_at s q) < low
                            then (Some q, p_score (plr_at s q)) else (r, low)) (playing s) (None, 2147483647))"

text \<open>\<open>Kick_robot_players\<close> says whether a robot was kicked. \<open>Robot_kick\<close> reads its argument, which may be null.\<close>

definition Kick_robot_players :: "nat option \<Rightarrow> gstate \<Rightarrow> (bool \<times> gstate) option" where
  "Kick_robot_players team s =
     (if NumRobots s = 0 then Some (False, s)
      else case team of
        None \<Rightarrow>
          if has_bit (rules_mode s) TEAM_PLAY \<and> reserveRobotTeam s then
            (if list_ex (\<lambda>q. Player_is_robot (plr_at s q) \<and> p_team (plr_at s q) = None) (playing s) then None
             else case low_robot (\<lambda>x. case p_team x of None \<Rightarrow> False | Some t \<Rightarrow> t_Num (teams s ! t) \<noteq> robotTeam s) s of
                    Some q \<Rightarrow> map_option (Pair True) (Robot_kick q s)
                  | None \<Rightarrow> Some (False, s))
          else None
      | Some t \<Rightarrow>
          if t_NumRobots (teams s ! t) > 0 then
            (case low_robot (\<lambda>x. p_team x = Some t) s of
               Some q \<Rightarrow> map_option (Pair True) (Robot_kick q s)
             | None \<Rightarrow> Some (False, s))
          else Some (False, s))"

text \<open>The command \<open>kick\<close>, and the end of the server.\<close>

definition kick_out :: "nat \<Rightarrow> gstate \<Rightarrow> gstate option" where
  "kick_out p s = (if p_connp (plr_at s p) = None then Player_remove p s else drop_connection p s)"

partial_function (option) Players_remove :: "gstate \<Rightarrow> gstate option" where
  "Players_remove s =
     (if NumPlayers s > 0 then do { s1 \<leftarrow> kick_out (Players s ! (NumPlayers s - 1)) s; Players_remove s1 } else Some s)"

fun kick_loop :: "nat \<Rightarrow> int \<Rightarrow> gstate \<Rightarrow> (int \<times> gstate) option" where
  "kick_loop 0 n s = Some (n, s)"
| "kick_loop (Suc i) n s =
     (let p = Players s ! i in
      if p_connp (plr_at s p) \<noteq> None \<and> Player_is_paused (plr_at s p)
      then do { s1 \<leftarrow> drop_connection p s; kick_loop i (n + 1) s1 }
      else kick_loop i n s)"

definition Players_kick_paused :: "gstate \<Rightarrow> (int \<times> gstate) option" where
  "Players_kick_paused s = kick_loop (NumPlayers s) 0 s"

subsection \<open>Changing teams\<close>

text \<open>The end of \<open>Player_swap_team\<close>, and its part for a player who goes to a team with bases.\<close>

definition enter_team :: "nat \<Rightarrow> nat \<Rightarrow> gstate \<Rightarrow> gstate option" where
  "enter_team p t s =
     do { s1 \<leftarrow> Player_remove_from_team p s;
          let s2 = Player_add_to_team p t s1;
          let s3 = Player_set_state p (Player_compute_entry_state p t s2) s2;
          let s4 = announce [Note_myself p (PL_SEND_GENERAL OR PL_SEND_BASE), Note_player p (PL_SEND_GENERAL OR PL_SEND_BASE)] s3;
          Some (s4\<lparr>updateScores := True\<rparr>) }"

definition take_base :: "nat \<Rightarrow> nat \<Rightarrow> gstate \<Rightarrow> gstate option" where
  "take_base p t s =
     do { (r, s1) \<leftarrow> Team_pick_free_base (Some t) s;
          (case r of
             None \<Rightarrow> if Player_is_human (plr_at s1 p) then drop_connection p s1
                     else if Player_is_robot (plr_at s1 p) then Robot_kick p s1 else Some s1
           | Some b \<Rightarrow> do {
               let s2 = upd_plr p (\<lambda>x. x\<lparr>p_home := Some b\<rparr>) s1;
               s3 \<leftarrow> (if p_team (plr_at s2 p) = Some PAUSE_TEAM_NUM then Player_go_home p s2 else Some s2);
               enter_team p t s3 }) }"

definition Player_swap_team :: "(nat \<Rightarrow> nat \<Rightarrow> rat) \<Rightarrow> nat \<Rightarrow> nat \<Rightarrow> gstate \<Rightarrow> gstate option" where
  "Player_swap_team d p t s =
     (let s0 = Ball_detach p None s in
      if t = PAUSE_TEAM_NUM then do {
        let s1 = announce (map (\<lambda>c. Note_release_base c p) (connps s0)) s0;
        let s2 = upd_plr p (\<lambda>x. x\<lparr>p_home := None\<rparr>) s1;
        s3 \<leftarrow> (if \<not> Player_lock_is_initialized p s2 then map_option snd (Player_lock_closest d p False s2) else Some s2);
        enter_team p t s3 }
      else take_base p t s0)"

text \<open>The entry state of a player on the team it is in.\<close>

definition set_entry_state :: "nat \<Rightarrow> gstate \<Rightarrow> gstate option" where
  "set_entry_state p s = do { t \<leftarrow> p_team (plr_at s p); Some (Player_set_state p (Player_compute_entry_state p t s) s) }"

definition Players_swap_teams :: "nat \<Rightarrow> nat \<Rightarrow> gstate \<Rightarrow> gstate option" where
  "Players_swap_teams p1 p2 s =
     do { let b = p_home (plr_at s p2);
          let t = p_team (plr_at s p2);
          let s1 = upd_plr p2 (\<lambda>x. x\<lparr>p_team := p_team (plr_at s p1)\<rparr>) s;
          let s2 = upd_plr p1 (\<lambda>x. x\<lparr>p_team := t\<rparr>) s1;
          let s3 = upd_plr p2 (\<lambda>x. x\<lparr>p_home := p_home (plr_at s2 p1)\<rparr>) s2;
          let s4 = upd_plr p1 (\<lambda>x. x\<lparr>p_home := b\<rparr>) s3;
          let s5 = Ball_detach p2 None (Ball_detach p1 None s4);
          s6 \<leftarrow> set_entry_state p1 s5;
          s7 \<leftarrow> set_entry_state p2 s6;
          Some (announce [Note_player p1 (PL_SEND_GENERAL OR PL_SEND_BASE), Note_player p2 (PL_SEND_GENERAL OR PL_SEND_BASE)] s7) }"

subsection \<open>Pausing\<close>

definition Player_pause_forced :: "(nat \<Rightarrow> nat \<Rightarrow> rat) \<Rightarrow> nat \<Rightarrow> gstate \<Rightarrow> gstate option" where
  "Player_pause_forced d p s =
     (let s0 = upd_plr p (\<lambda>x. x\<lparr>p_pause_count := UNPAUSE_DELAY_TICKS s\<rparr>) s in
      if Player_is_paused (plr_at s0 p) then Some s0
      else do {
        s1 \<leftarrow> (if NumPaused s0 \<ge> MAX_PAUSED_PLAYERS then map_option snd (Players_kick_paused s0) else Some s0);
        s2 \<leftarrow> Player_swap_team d p PAUSE_TEAM_NUM s1;
        let s3 = (if p_has_ball (plr_at s2 p) then Ball_detach p None s2 else s2);
        let s4 = upd_plr p (\<lambda>x. x\<lparr>p_kills := 0, p_deaths := 0, p_self_deaths := 0, p_life := rules_lives s3\<rparr>) s3;
        Some (s4\<lparr>NumPaused := NumPaused s4 + 1, num_pause := num_pause s4 + 1\<rparr>) })"

definition Player_pause_self :: "(nat \<Rightarrow> nat \<Rightarrow> rat) \<Rightarrow> nat \<Rightarrow> gstate \<Rightarrow> gstate option" where
  "Player_pause_self d p s =
     do { near \<leftarrow> Player_is_close_to_base p s;
          let x = plr_at s p;
          if near \<or> Player_is_waiting x \<or> Player_is_dead x
          then if Player_is_waiting x \<or> Object_count_treasures_missing (p_team x) s = 0 \<or>
                  Team_count_active_players (p_team x) s = Team_count_active_players None s
               then Player_pause_forced d p s
               else Some s
          else Some s }"

definition Player_unpause :: "(nat \<Rightarrow> nat \<Rightarrow> rat) \<Rightarrow> nat \<Rightarrow> nat option \<Rightarrow> gstate \<Rightarrow> gstate option" where
  "Player_unpause d p team s =
     (if \<not> Player_is_paused (plr_at s p) then Some s
      else if p_pause_count (plr_at s p) \<le> 0 then do {
        r \<leftarrow> (case team of Some t \<Rightarrow> Some (Some t) | None \<Rightarrow> Team_find_available PL_TYPE_HUMAN s);
        (case r of
           Some t \<Rightarrow> do { s1 \<leftarrow> Player_swap_team d p t s;
                          Some (s1\<lparr>NumPaused := NumPaused s1 - 1, num_unpause := num_unpause s1 + 1\<rparr>) }
         | None \<Rightarrow> Some s) }
      else Some s)"

subsection \<open>The command\<close>

text \<open>A full team: change places with a paused player on it, the last one first, or wait for a place.\<close>

definition swap_paused :: "nat \<Rightarrow> nat \<Rightarrow> gstate \<Rightarrow> (bool \<times> gstate) option" where
  "swap_paused p t s =
     (case find (\<lambda>q. p_connp (plr_at s q) \<noteq> None \<and> Player_is_paused (plr_at s q) \<and> p_team (plr_at s q) = Some t) (rev (playing s)) of
        Some q \<Rightarrow> map_option (Pair True) (Players_swap_teams p q s)
      | None \<Rightarrow> Some (True, upd_team t (\<lambda>x. x\<lparr>t_Swapper := Some p\<rparr>) s))"

text \<open>\<open>Cmd_team\<close> once the arguments have been read: \<open>p\<close> is the player to move, \<open>team\<close> the number asked for. The boolean says
  whether the result is \<open>CMD_RESULT_SUCCESS\<close>. The code tests before the arguments that the sender has a team; here the
  test is made of the player to move, who is the sender unless an operator moves somebody else. In team play every player
  has a team (\<open>play_ok\<close>), so the two agree.\<close>

definition team_request :: "(nat \<Rightarrow> nat \<Rightarrow> rat) \<Rightarrow> nat \<Rightarrow> int \<Rightarrow> gstate \<Rightarrow> (bool \<times> gstate) option" where
  "team_request d p team s0 =
     (if \<not> has_bit (rules_mode s0) TEAM_PLAY then Some (False, s0)
      else case p_team (plr_at s0 p) of
        None \<Rightarrow> Some (False, s0)
      | Some own \<Rightarrow>
          let s = s0\<lparr>teams := map (\<lambda>t. if t_Swapper t = Some p then t\<lparr>t_Swapper := None\<rparr> else t) (teams s0)\<rparr>; x = plr_at s p in
          (case Team_get_by_id team of
             None \<Rightarrow> Some (False, s)
           | Some t \<Rightarrow> do {
               far \<leftarrow> (if t_Num (teams s ! t) = int PAUSE_TEAM_NUM
                      then do { near \<leftarrow> Player_is_close_to_base p s; Some (\<not> (near \<or> Player_is_waiting x \<or> Player_is_dead x)) }
                      else Some False);
               if far \<or> t = own \<or> t_NumBases (teams s ! t) = 0 \<or> reserveRobotTeam s \<and> t_Num (teams s ! t) = robotTeam s
               then Some (False, s)
               else if t_NumBases (teams s ! t) \<le> t_NumMembers (teams s ! t) then
                 (case t_Swapper (teams s ! own) of
                    Some q \<Rightarrow> if p_team (plr_at s q) = Some t then map_option (Pair True) (Players_swap_teams p q s)
                              else swap_paused p t s
                  | None \<Rightarrow> swap_paused p t s)
               else case t_Swapper (teams s ! own) of
                 Some q \<Rightarrow> map_option (Pair True) (Players_swap_teams p q s)
               | None \<Rightarrow>
                   if Player_is_paused x then map_option (Pair True) (Player_unpause d p (Some t) s)
                   else if t_Num (teams s ! t) = int PAUSE_TEAM_NUM then map_option (Pair True) (Player_pause_self d p s)
                   else if Player_is_waiting x \<or> Object_count_treasures_missing (Some own) s = 0 \<or>
                           Team_count_active_players (Some own) s = Team_count_active_players None s
                   then map_option (Pair True) (Player_swap_team d p t s)
                   else Some (True, s) }))"

definition Cmd_team :: "(nat \<Rightarrow> nat \<Rightarrow> rat) \<Rightarrow> nat \<Rightarrow> int \<Rightarrow> gstate \<Rightarrow> (bool \<times> gstate) option" where
  "Cmd_team d p team s =
     do { (b, s1) \<leftarrow> team_request d p team s; Some (b, if b then s1\<lparr>updateScores := True\<rparr> else s1) }"

subsection \<open>Entering the game\<close>

text \<open>\<open>Handle_login\<close> up to the takeover of the connection: \<open>team\<close> is what was chosen for the connection before, \<open>nick\<close> its
  name. \<open>None\<close> as player means that the login is refused.\<close>

fun name_in_use :: "byte list \<Rightarrow> gstate \<Rightarrow> nat list \<Rightarrow> bool option" where
  "name_in_use nick s [] = Some False"
| "name_in_use nick s (q # qs) =
     do { r \<leftarrow> strcasecmp (p_name (plr_at s q)) nick; if r = 0 then Some True else name_in_use nick s qs }"

definition login_team :: "nat option \<Rightarrow> gstate \<Rightarrow> nat option option" where
  "login_team team s =
     (if has_bit (rules_mode s) TEAM_PLAY
      then (case team of Some t \<Rightarrow> Some (Some t) | None \<Rightarrow> Team_find_available PL_TYPE_HUMAN s)
      else Some None)"

definition seat_player :: "nat \<Rightarrow> nat option \<Rightarrow> nat \<Rightarrow> gstate \<Rightarrow> gstate option" where
  "seat_player p team c s =
     do { let s1 = (case team of Some t \<Rightarrow> Player_add_to_team p t s | None \<Rightarrow> s);
          (r, s2) \<leftarrow> Team_pick_free_base (p_team (plr_at s1 p)) s1;
          b \<leftarrow> r;
          s3 \<leftarrow> Player_go_home p (upd_plr p (\<lambda>x. x\<lparr>p_home := Some b\<rparr>) s2);
          s4 \<leftarrow> set_entry_state p s3;
          Some (upd_plr p (\<lambda>x. x\<lparr>p_connp := Some c\<rparr>) s4) }"

definition Login_player :: "nat option \<Rightarrow> byte list \<Rightarrow> nat \<Rightarrow> gstate \<Rightarrow> (nat option \<times> gstate) option" where
  "Login_player team nick c s =
     (if int (NumPlayers s) \<ge> int (length (bases s)) + MAX_PAUSED_PLAYERS then Some (None, s)
      else do {
        t \<leftarrow> login_team team s;
        if has_bit (rules_mode s) TEAM_PLAY \<and> t = None then Some (None, s)
        else do {
          used \<leftarrow> name_in_use nick s (playing s);
          if used then Some (None, s)
          else do {
            (p, s1) \<leftarrow> Player_add s;
            s2 \<leftarrow> seat_player p t c (upd_plr p (\<lambda>x. x\<lparr>p_type := PL_TYPE_HUMAN, p_name := nick\<rparr>) s1);
            Some (Some p, s2) } } })"

text \<open>The queue of the contact port (\<open>Queue_loop\<close>): whether the client at its head, who asks for \<open>team\<close>, may connect, and for
  which team; \<open>logins\<close> is \<open>login_in_progress\<close>.\<close>

definition base_left :: "int \<Rightarrow> gstate \<Rightarrow> bool" where
  "base_left logins s \<longleftrightarrow> int (NumPlayers s) - NumPaused s + logins < int (length (bases s))"

definition queue_team :: "nat option \<Rightarrow> gstate \<Rightarrow> (nat option \<times> gstate) option" where
  "queue_team team s =
     do { (t, s1) \<leftarrow> (case team of
            None \<Rightarrow> Some (None, s)
          | Some t \<Rightarrow>
              if t_NumMembers (teams s ! t) \<ge> t_NumBases (teams s ! t) then
                (if t_Num (teams s ! t) = robotTeam s \<and> reserveRobotTeam s then Some (None, s)
                 else do { (k, s1) \<leftarrow> Kick_robot_players (Some t) s; Some (if k then Some t else None, s1) })
              else Some (Some t, s));
          (case t of
             Some t \<Rightarrow> Some (Some t, s1)
           | None \<Rightarrow> do {
               r \<leftarrow> Team_find_available PL_TYPE_HUMAN s1;
               if r = None \<and> \<not> reserveRobotTeam s1
               then do { (k, s2) \<leftarrow> Kick_robot_players None s1; r2 \<leftarrow> Team_find_available PL_TYPE_HUMAN s2; Some (r2, s2) }
               else Some (r, s1) }) }"

definition queue_admit :: "int \<Rightarrow> nat option \<Rightarrow> gstate \<Rightarrow> (nat option \<times> gstate) option" where
  "queue_admit logins team s =
     do { (go, s1) \<leftarrow> (if base_left logins s then Some (True, s)
                      else do { (k, s1) \<leftarrow> Kick_robot_players None s; Some (k \<and> base_left logins s1, s1) });
          if \<not> go then Some (None, s1)
          else if has_bit (rules_mode s1) TEAM_PLAY then queue_team team s1
          else Some (team, s1) }"

definition Robot_remove :: "nat option \<Rightarrow> gstate \<Rightarrow> gstate option" where
  "Robot_remove pl s =
     (case (case pl of Some p \<Rightarrow> Some p | None \<Rightarrow> low_robot (\<lambda>x. True) s) of
        Some p \<Rightarrow> if Player_is_robot (plr_at s p) then Player_remove p s else Some s
      | None \<Rightarrow> Some s)"

text \<open>\<open>Robot_add\<close> from \<open>Player_add\<close> on; \<open>name\<close> is the robot's name.\<close>

definition Robot_add :: "byte list \<Rightarrow> gstate \<Rightarrow> (bool \<times> gstate) option" where
  "Robot_add name s =
     do { (p, s1) \<leftarrow> Player_add s;
          let s2 = upd_plr p (\<lambda>x. x\<lparr>p_type := PL_TYPE_ROBOT\<rparr>) (s1\<lparr>NumRobots := NumRobots s1 + 1\<rparr>);
          t \<leftarrow> (if has_bit (rules_mode s) TEAM_PLAY then Team_find_available PL_TYPE_ROBOT s2 else Some None);
          if has_bit (rules_mode s) TEAM_PLAY \<and> t = None
          then do { s3 \<leftarrow> Robot_remove (Some p) s2; Some (False, s3\<lparr>updateScores := True\<rparr>) }
          else do {
            let s3 = (case t of Some k \<Rightarrow> Player_add_to_team p k s2 | None \<Rightarrow> s2);
            let s4 = upd_plr p (\<lambda>x. x\<lparr>p_type_mychar := 82, p_robot_data := Some None, p_name := name\<rparr>) s3;
            s5 \<leftarrow> set_entry_state p s4;
            (r, s6) \<leftarrow> Team_pick_free_base (p_team (plr_at s5 p)) s5;
            (case r of
               None \<Rightarrow> do { s7 \<leftarrow> Robot_remove (Some p) s6; Some (False, s7\<lparr>updateScores := True\<rparr>) }
             | Some b \<Rightarrow> do {
                 s7 \<leftarrow> Player_go_home p (upd_plr p (\<lambda>x. x\<lparr>p_home := Some b\<rparr>) s6);
                 Some (True, (announce [Note_player p (PL_SEND_GENERAL OR PL_SEND_SCORE OR PL_SEND_BASE)] s7)\<lparr>updateScores := True\<rparr>) }) } }"

subsection \<open>Finding a base\<close>

definition rng_ok :: "mt \<Rightarrow> bool" where "rng_ok g \<longleftrightarrow> (\<exists>x n. mt_after x n g)"

lemma rfrac_ok:
  assumes "rng_ok g"
  obtains r g' where "rfrac g = Some (r, g')" "0 \<le> r" "r < 1" "rng_ok g'"
proof -
  obtain x n where "mt_after x n g" using assms by (auto simp: rng_ok_def)
  from randomMT_ok [OF this] obtain g' where
    g': "randomMT g = Some (temper (mt_seq x (624 + n)), g')" "mt_after x (Suc n) g'" by blast
  let ?y = "temper (mt_seq x (624 + n))"
  have "0 \<le> uint ?y" "uint ?y < 2 ^ 32" using uint_lt2p [of ?y] by simp_all
  then have "0 \<le> real_of_int (uint ?y)" "real_of_int (uint ?y) < real_of_int (2 ^ 32)" by (simp_all only: of_int_less_iff of_int_0_le_iff)
  then show ?thesis using that [of "real_of_int (uint ?y) * (1 / 2 ^ 32)" g'] g' by (auto simp: rfrac_def rng_ok_def)
qed

definition nobody_home :: "gstate \<Rightarrow> nat list \<Rightarrow> nat \<Rightarrow> bool" where
  "nobody_home s ps h \<longleftrightarrow> (\<forall>p \<in> set ps. p_home (plr_at s p) \<noteq> Some h)"

lemma count_unmark: "h < length fb \<Longrightarrow> fb ! h \<Longrightarrow> length (filter id fb) = Suc (length (filter id (fb[h := False])))"
proof (induction fb arbitrary: h)
  case (Cons b fb)
  then show ?case by (cases h) auto
qed simp

lemma clear_homes_ok:
  assumes "\<forall>p \<in> set ps. \<forall>h. p_home (plr_at s p) = Some h \<longrightarrow> h < length fb"
  shows "\<exists>fb'. clear_homes s ps (fb, int (length (filter id fb))) = (fb', int (length (filter id fb'))) \<and> length fb' = length fb \<and>
    (\<forall>h < length fb. fb' ! h \<longleftrightarrow> fb ! h \<and> nobody_home s ps h)"
  using assms
proof (induction ps arbitrary: fb)
  case (Cons p ps)
  show ?case
  proof (cases "p_home (plr_at s p)")
    case None
    then show ?thesis using Cons by (simp add: nobody_home_def)
  next
    case (Some h)
    then have h: "h < length fb" using Cons.prems by simp
    define fb1 where "fb1 = (if fb ! h then fb[h := False] else fb)"
    have "clear_homes s (p # ps) (fb, int (length (filter id fb))) = clear_homes s ps (fb1, int (length (filter id fb1)))"
      using Some count_unmark [OF h] by (simp add: fb1_def)
    moreover have "\<forall>q \<in> set ps. \<forall>h. p_home (plr_at s q) = Some h \<longrightarrow> h < length fb1" using Cons.prems by (simp add: fb1_def)
    from Cons.IH [OF this] obtain fb' where
      "clear_homes s ps (fb1, int (length (filter id fb1))) = (fb', int (length (filter id fb')))" "length fb' = length fb1"
      "\<forall>k < length fb1. fb' ! k \<longleftrightarrow> fb1 ! k \<and> nobody_home s ps k" by blast
    moreover have "fb1 ! k \<longleftrightarrow> fb ! k \<and> k \<noteq> h" if "k < length fb" for k using that h by (auto simp: fb1_def nth_list_update)
    ultimately show ?thesis using Some by (intro exI [of _ fb']) (auto simp: fb1_def nobody_home_def id_def)
  qed
qed (simp add: nobody_home_def)

lemma pick_base_ok:
  "seen \<le> pick \<Longrightarrow> pick - seen < int (length (filter id bs)) \<Longrightarrow>
   \<exists>j < length bs. pick_base pick seen bs i = i + j \<and> bs ! j"
proof (induction bs arbitrary: seen i)
  case (Cons b bs)
  show ?case
  proof (cases "b \<and> \<not> seen < pick")
    case True
    then show ?thesis by (intro exI [of _ 0]) simp
  next
    case False
    define seen' where "seen' = (if b then seen + 1 else seen)"
    have "seen' \<le> pick" "pick - seen' < int (length (filter id bs))" using Cons.prems False by (auto simp: seen'_def id_def)
    from Cons.IH [OF this, of "Suc i"] obtain j where "j < length bs" "pick_base pick seen' bs (Suc i) = Suc i + j" "bs ! j" by blast
    then show ?thesis using False by (intro exI [of _ "Suc j"]) (auto simp: seen'_def)
  qed
qed simp

lemma pick_base_none: "\<forall>b \<in> set bs. \<not> b \<Longrightarrow> pick_base pick seen bs i = i + length bs"
  by (induction bs arbitrary: i) auto

text \<open>A base of the team on which nobody lives is found whenever there is one.\<close>

definition free_base :: "gstate \<Rightarrow> nat option \<Rightarrow> nat \<Rightarrow> bool" where
  "free_base s t h \<longleftrightarrow> h < length (bases s) \<and> b_team (bases s ! h) = t \<and> nobody_home s (playing s) h"

lemma pick_free:
  assumes "rng_ok (game_random s)" "\<forall>p \<in> set (playing s). \<forall>h. p_home (plr_at s p) = Some h \<longrightarrow> h < length (bases s)"
  obtains r g where "Team_pick_free_base t s = Some (r, s\<lparr>game_random := g\<rparr>)" "rng_ok g"
    "case r of Some h \<Rightarrow> free_base s t h | None \<Rightarrow> \<forall>h. \<not> free_base s t h"
proof -
  let ?fb0 = "mark_team t s"
  have "\<forall>p \<in> set (playing s). \<forall>h. p_home (plr_at s p) = Some h \<longrightarrow> h < length ?fb0" using assms(2) by (simp add: mark_team_def)
  from clear_homes_ok [OF this] obtain fb where
    fb: "clear_homes s (playing s) (?fb0, int (length (filter id ?fb0))) = (fb, int (length (filter id fb)))" "length fb = length (bases s)"
      "\<And>h. h < length (bases s) \<Longrightarrow> fb ! h \<longleftrightarrow> free_base s t h"
    by (auto simp: mark_team_def free_base_def)
  obtain r g where r: "rfrac (game_random s) = Some (r, g)" "0 \<le> r" "r < 1" "rng_ok g" using rfrac_ok [OF assms(1)] by blast
  let ?n = "length (filter id fb)"
  define i where "i = pick_base \<lfloor>r * of_int (int ?n)\<rfloor> 0 fb 0"
  have run: "Team_pick_free_base t s = Some (if i = length (bases s) then None else Some i, s\<lparr>game_random := g\<rparr>)"
    unfolding Team_pick_free_base_def Let_def fb(1) prod.case r(1) bind.simps i_def by simp
  show ?thesis
  proof (cases "?n = 0")
    case True
    then have none: "\<forall>b \<in> set fb. \<not> b" by (simp add: filter_empty_conv)
    then have "i = length (bases s)" using pick_base_none [OF none] fb(2) by (simp add: i_def)
    moreover have "\<not> free_base s t h" for h
    proof (cases "h < length (bases s)")
      case True
      then have "fb ! h \<in> set fb" using fb(2) by simp
      then show ?thesis using none fb(3) [OF True] by blast
    qed (simp add: free_base_def)
    ultimately show ?thesis using that [of None g] run r(4) by simp
  next
    case False
    have "r * real ?n < 1 * real ?n" using r(3) False by (intro mult_strict_right_mono) simp_all
    then have "\<lfloor>r * of_int (int ?n)\<rfloor> < int ?n" by (simp add: floor_less_iff)
    moreover have "0 \<le> \<lfloor>r * of_int (int ?n)\<rfloor>" using r(2) by simp
    ultimately obtain j where "j < length fb" "i = j" "fb ! j"
      using pick_base_ok [of 0 "\<lfloor>r * of_int (int ?n)\<rfloor>" fb 0] by (auto simp: i_def)
    then show ?thesis using that [of "Some i" g] run r(4) fb(2,3) by simp
  qed
qed

subsection \<open>The invariant\<close>

text \<open>A player in the game belongs to a team; who is on the team of the pausers is paused and has no home, everybody else has
  a home on a base of his team. Humans, and only they, have a connection. Scores stay far from the limits of the
  type, and names are C strings.\<close>

definition seat_ok :: "home_base list \<Rightarrow> plr \<Rightarrow> bool" where
  "seat_ok bs x \<longleftrightarrow> (\<exists>t < MAX_TEAMS. p_team x = Some t \<and> (Player_is_paused x \<longleftrightarrow> t = PAUSE_TEAM_NUM) \<and>
     (case p_home x of None \<Rightarrow> Player_is_paused x
      | Some h \<Rightarrow> \<not> Player_is_paused x \<and> h < length bs \<and> b_team (bs ! h) = Some t)) \<and>
     (p_connp x \<noteq> None \<longleftrightarrow> Player_is_human x) \<and> (Player_is_human x \<or> Player_is_robot x) \<and> p_score x < 2 ^ 22 \<and> terminated (p_name x)"

definition homes_distinct :: "gstate \<Rightarrow> bool" where
  "homes_distinct s \<longleftrightarrow> (\<forall>p \<in> set (playing s). \<forall>q \<in> set (playing s). p_home (plr_at s p) \<noteq> None \<longrightarrow>
     p_home (plr_at s p) = p_home (plr_at s q) \<longrightarrow> p = q)"

text \<open>The teams as the map file leaves them; only humans wait for a place on another team.\<close>

definition team_bases :: "home_base list \<Rightarrow> nat \<Rightarrow> nat set" where
  "team_bases bs k = {h. h < length bs \<and> b_team (bs ! h) = Some k}"

definition teams_ok :: "gstate \<Rightarrow> bool" where
  "teams_ok s \<longleftrightarrow> length (teams s) = MAX_TEAMS \<and> t_Properties (teams s ! PAUSE_TEAM_NUM) = TEAM_ONLY_PAUSERS \<and>
     (\<forall>b \<in> set (bases s). b_team b \<noteq> None) \<and>
     (\<forall>k < MAX_TEAMS. t_Num (teams s ! k) = int k \<and> t_NumBases (teams s ! k) = int (card (team_bases (bases s) k)) \<and>
        (\<forall>q. t_Swapper (teams s ! k) = Some q \<longrightarrow> Player_is_human (plr_at s q)))"

text \<open>\<open>Players_allocate\<close> makes room for \<open>MAX_PSEUDO_PLAYERS\<close> more players than there are bases; there are no more than
  \<open>NUM_IDS\<close> identifiers.\<close>

definition MAX_PSEUDO_PLAYERS :: nat where "MAX_PSEUDO_PLAYERS = 16"

definition play_ok :: "gstate \<Rightarrow> bool" where
  "play_ok s \<longleftrightarrow> has_bit (rules_mode s) TEAM_PLAY \<and> length (Players s) = length (bases s) + MAX_PSEUDO_PLAYERS \<and> length (Players s) \<le> 256 \<and>
     game_ok s \<and> teams_ok s \<and> homes_distinct s \<and> rng_ok (game_random s) \<and>
     (\<forall>p \<in> set (playing s). seat_ok (bases s) (plr_at s p))"

text \<open>What most operations keep.\<close>

definition fixed :: "plr \<Rightarrow> int \<times> pl_type \<times> nat option \<times> byte list \<times> bool \<times> int \<times> bool" where
  "fixed x = (p_id x, p_type x, p_connp x, p_name x, p_oper x, p_score x, p_robot_data x = None)"

definition seat :: "plr \<Rightarrow> nat option \<times> nat option \<times> pl_state" where "seat x = (p_team x, p_home x, p_state x)"

definition fixed_team :: "team_t \<Rightarrow> int \<times> int \<times> i32" where "fixed_team t = (t_Num t, t_NumBases t, t_Properties t)"

definition like :: "gstate \<Rightarrow> gstate \<Rightarrow> bool" where
  "like s s' \<longleftrightarrow>
     s' = s\<lparr>playerArray := playerArray s', teams := teams s', objArray := objArray s', NumPaused := NumPaused s',
       updateScores := updateScores s', num_pause := num_pause s', num_unpause := num_unpause s', game_random := game_random s',
       told := told s'\<rparr> \<and>
     length (playerArray s') = length (playerArray s) \<and> length (teams s') = length (teams s) \<and> length (objArray s') = length (objArray s) \<and>
     (\<forall>q. fixed (plr_at s' q) = fixed (plr_at s q)) \<and>
     (\<forall>q \<in> set (playing s). plr_refs (plr_at s' q) \<subseteq> plr_refs (plr_at s q) \<union> set (playing s)) \<and>
     (\<forall>j. o_owner (obj_at s' j) = o_owner (obj_at s j)) \<and>
     (\<forall>k < length (teams s). fixed_team (teams s' ! k) = fixed_team (teams s ! k) \<and>
        (\<forall>q. t_Swapper (teams s' ! k) = Some q \<longrightarrow> t_Swapper (teams s ! k) = Some q \<or> q \<in> set (playing s) \<and> Player_is_human (plr_at s q))) \<and>
     (rng_ok (game_random s) \<longrightarrow> rng_ok (game_random s'))"

text \<open>Operations that move nobody.\<close>

definition quiet :: "gstate \<Rightarrow> gstate \<Rightarrow> bool" where
  "quiet s s' \<longleftrightarrow> like s s' \<and> (\<forall>q. seat (plr_at s' q) = seat (plr_at s q)) \<and> NumPaused s' = NumPaused s \<and>
     (\<forall>k < length (teams s). t_NumMembers (teams s' ! k) = t_NumMembers (teams s ! k) \<and> t_NumRobots (teams s' ! k) = t_NumRobots (teams s ! k))"

lemma like_fields:
  assumes "like s s'"
  shows "Players s' = Players s" "NumPlayers s' = NumPlayers s" "GetInd s' = GetInd s" "idq s' = idq s" "bases s' = bases s" "treasures s' = treasures s"
    "Obj s' = Obj s" "NumObjs s' = NumObjs s" "NumRobots s' = NumRobots s" "NumOperators s' = NumOperators s" "rules_mode s' = rules_mode s"
    "robotTeam s' = robotTeam s" "playing s' = playing s" "live_objects s' = live_objects s" "gameSpeed s' = gameSpeed s"
    "reserveRobotTeam s' = reserveRobotTeam s"
proof -
  have "s' = s\<lparr>playerArray := playerArray s', teams := teams s', objArray := objArray s', NumPaused := NumPaused s',
       updateScores := updateScores s', num_pause := num_pause s', num_unpause := num_unpause s', game_random := game_random s',
       told := told s'\<rparr>" (is "_ = ?t") using assms by (simp add: like_def)
  then have eq: "f s' = f ?t" for f :: "gstate \<Rightarrow> 'z" by (rule arg_cong)
  show "Players s' = Players s" "NumPlayers s' = NumPlayers s" "GetInd s' = GetInd s" "idq s' = idq s" "bases s' = bases s" "treasures s' = treasures s"
    "Obj s' = Obj s" "NumObjs s' = NumObjs s" "NumRobots s' = NumRobots s" "NumOperators s' = NumOperators s" "rules_mode s' = rules_mode s"
    "robotTeam s' = robotTeam s" "playing s' = playing s" "live_objects s' = live_objects s" "gameSpeed s' = gameSpeed s"
    "reserveRobotTeam s' = reserveRobotTeam s"
    by (subst eq, simp add: playing_def live_objects_def)+
qed

lemma like_refl [simp]: "like s s"
  by (simp add: like_def)

lemma like_human: "like s s' \<Longrightarrow> Player_is_human (plr_at s' q) = Player_is_human (plr_at s q)"
  "like s s' \<Longrightarrow> Player_is_robot (plr_at s' q) = Player_is_robot (plr_at s q)"
  by (simp_all add: like_def fixed_def player_is_defs)

lemma like_shape:
  "like s s' \<Longrightarrow> s' = s\<lparr>playerArray := playerArray s', teams := teams s', objArray := objArray s', NumPaused := NumPaused s',
     updateScores := updateScores s', num_pause := num_pause s', num_unpause := num_unpause s', game_random := game_random s',
     told := told s'\<rparr>"
  by (simp add: like_def)

lemma like_data:
  assumes "like s s'"
  shows "length (playerArray s') = length (playerArray s)" "length (teams s') = length (teams s)" "length (objArray s') = length (objArray s)"
    "\<And>q. fixed (plr_at s' q) = fixed (plr_at s q)" "\<And>j. o_owner (obj_at s' j) = o_owner (obj_at s j)"
    "\<And>k. k < length (teams s) \<Longrightarrow> fixed_team (teams s' ! k) = fixed_team (teams s ! k)"
    "rng_ok (game_random s) \<Longrightarrow> rng_ok (game_random s')"
    "\<And>q. q \<in> set (playing s) \<Longrightarrow> plr_refs (plr_at s' q) \<subseteq> plr_refs (plr_at s q) \<union> set (playing s)"
    "\<And>k q. k < length (teams s) \<Longrightarrow> t_Swapper (teams s' ! k) = Some q \<Longrightarrow>
       t_Swapper (teams s ! k) = Some q \<or> q \<in> set (playing s) \<and> Player_is_human (plr_at s q)"
  using assms by (simp_all add: like_def)

lemma like_trans:
  assumes a: "like s1 s2" and b: "like s2 s3"
  shows "like s1 s3"
  unfolding like_def
proof (intro conjI ballI allI impI)
  show "s3 = s1\<lparr>playerArray := playerArray s3, teams := teams s3, objArray := objArray s3, NumPaused := NumPaused s3,
       updateScores := updateScores s3, num_pause := num_pause s3, num_unpause := num_unpause s3, game_random := game_random s3,
       told := told s3\<rparr>"
    using like_shape [OF a] like_shape [OF b] by (cases s1; cases s2; cases s3) simp
  show "plr_refs (plr_at s3 q) \<subseteq> plr_refs (plr_at s1 q) \<union> set (playing s1)" if "q \<in> set (playing s1)" for q
    using like_data(8) [OF a that] like_data(8) [OF b, of q] that unfolding like_fields(13) [OF a] by blast
  show "t_Swapper (teams s1 ! k) = Some q \<or> q \<in> set (playing s1) \<and> Player_is_human (plr_at s1 q)"
    if "k < length (teams s1)" "t_Swapper (teams s3 ! k) = Some q" for k q
    using like_data(9) [OF a that(1), of q] like_data(9) [OF b _ that(2)] that(1) like_data(2) [OF a] like_human(1) [OF a, of q]
    unfolding like_fields(13) [OF a] by auto
  show "rng_ok (game_random s3)" if "rng_ok (game_random s1)" by (rule like_data(7) [OF b like_data(7) [OF a that]])
qed (use like_data [OF a] like_data [OF b] in simp_all)

lemma like_kept:
  assumes "like s s'" "\<And>q. seat (plr_at s' q) = seat (plr_at s q)" "NumPaused s' = NumPaused s"
    "\<And>k. k < length (teams s) \<Longrightarrow> t_NumMembers (teams s' ! k) = t_NumMembers (teams s ! k) \<and> t_NumRobots (teams s' ! k) = t_NumRobots (teams s ! k)"
  shows "quiet s s'"
  using assms by (simp add: quiet_def)

lemma quiet_refl [simp]: "quiet s s" by (simp add: quiet_def)

lemma quiet_like: "quiet s s' \<Longrightarrow> like s s'" by (simp add: quiet_def)

lemma quiet_data:
  assumes "quiet s s'"
  shows "\<And>q. seat (plr_at s' q) = seat (plr_at s q)" "NumPaused s' = NumPaused s"
    "\<And>k. k < length (teams s) \<Longrightarrow> t_NumMembers (teams s' ! k) = t_NumMembers (teams s ! k)"
    "\<And>k. k < length (teams s) \<Longrightarrow> t_NumRobots (teams s' ! k) = t_NumRobots (teams s ! k)"
  using assms by (simp_all add: quiet_def)

lemma quiet_trans:
  assumes "quiet s1 s2" "quiet s2 s3"
  shows "quiet s1 s3"
  by (rule like_kept [OF like_trans [OF quiet_like [OF assms(1)] quiet_like [OF assms(2)]]])
    (use quiet_data [OF assms(1)] quiet_data [OF assms(2)] like_data(2) [OF quiet_like [OF assms(1)]] in simp_all)

subsection \<open>Operations that move nobody\<close>

lemma like_upd_plr:
  assumes "fixed (f (plr_at s p)) = fixed (plr_at s p)" "plr_refs (f (plr_at s p)) \<subseteq> plr_refs (plr_at s p) \<union> set (playing s)"
  shows "like s (upd_plr p f s)"
proof -
  have "plr_at (upd_plr p f s) q = plr_at s q \<or> q = p \<and> plr_at (upd_plr p f s) q = f (plr_at s p)" for q
    by (cases "q = p"; cases "p < length (playerArray s)") (simp_all add: upd_plr_def not_less list_update_beyond)
  then have "fixed (plr_at (upd_plr p f s) q) = fixed (plr_at s q)"
    "plr_refs (plr_at (upd_plr p f s) q) \<subseteq> plr_refs (plr_at s q) \<union> set (playing s)" for q
    using assms by (metis, metis Un_upper1)
  then show ?thesis by (simp add: like_def) (simp add: upd_plr_def)
qed

lemma quiet_upd_plr:
  assumes "fixed (f (plr_at s p)) = fixed (plr_at s p)" "seat (f (plr_at s p)) = seat (plr_at s p)"
    "plr_refs (f (plr_at s p)) \<subseteq> plr_refs (plr_at s p) \<union> set (playing s)"
  shows "quiet s (upd_plr p f s)"
proof (rule like_kept [OF like_upd_plr [of f, OF assms(1,3)]])
  show "seat (plr_at (upd_plr p f s) q) = seat (plr_at s q)" for q
    using assms(2) by (cases "q = p"; cases "p < length (playerArray s)") (simp_all add: upd_plr_def not_less list_update_beyond)
qed (simp_all add: upd_plr_def)

lemma quiet_fields [simp]: "quiet s (s\<lparr>told := ns\<rparr>)" "quiet s (s\<lparr>updateScores := u\<rparr>)" "quiet s (s\<lparr>num_pause := i\<rparr>)" "quiet s (s\<lparr>num_unpause := i\<rparr>)"
  "rng_ok g \<Longrightarrow> quiet s (s\<lparr>game_random := g\<rparr>)"
  by (simp_all add: quiet_def like_def)

lemma quiet_announce [simp]: "quiet s (announce ns s)"
  by (simp add: announce_def)

lemma quiet_Ball_detach:
  assumes "live_bound s" "p < length (playerArray s)"
  shows "quiet s (Ball_detach p ball s)"
proof -
  obtain y Q where y: "Ball_detach p ball s = s\<lparr>playerArray := (playerArray s)[p := y], objArray := Q\<rparr>" "freed_plr ball (plr_at s p) y"
      "length Q = length (objArray s)"
      "\<And>j. Q ! j = (if j \<in> set (live_objects s) \<and> p_has_ball (plr_at s p) \<and> lets_go p ball j (obj_at s j)
                  then (obj_at s j)\<lparr>o_attached := False\<rparr> else obj_at s j)"
    using Ball_detach_ok [of s p ball] assms unfolding live_bound_def by metis
  have same: "ident y = ident (plr_at s p)" "plr_refs y = plr_refs (plr_at s p)" "p_robot_data y = p_robot_data (plr_at s p)"
    using ball_changes_ident [OF freed_plr_changes [OF y(2)]] by simp_all
  have "quiet s (upd_plr p (\<lambda>_. y) s)"
    using same by (intro quiet_upd_plr) (auto simp: ident_def fixed_def seat_def)
  moreover have "quiet (upd_plr p (\<lambda>_. y) s) (Ball_detach p ball s)"
    using y(3) by (simp add: quiet_def like_def y(1,4) upd_plr_def playing_def)
  ultimately show ?thesis by (rule quiet_trans)
qed

lemma lock_candidate:
  "snd (fold (closer d p cur far s) qs best) \<in> insert (snd best) (Some ` set qs)"
  by (induction qs arbitrary: best) (fastforce simp: closer_def split: if_splits)+

lemma plr_at_upd: "p < length (playerArray s) \<Longrightarrow> plr_at (upd_plr p f s) q = (if q = p then f (plr_at s p) else plr_at s q)"
  by (simp add: upd_plr_def)

lemma quiet_lock_closest:
  assumes "p \<in> set (playing s)" "p < length (playerArray s)"
  obtains b s' where "Player_lock_closest d p False s = Some (b, s')" "quiet s s'"
proof -
  define s1 where "s1 = upd_plr p (\<lambda>x. x\<lparr>p_lock_player := False\<rparr>) s"
  have q1: "quiet s s1" unfolding s1_def
    by (rule quiet_upd_plr) (auto simp: fixed_def seat_def plr_refs_def player_is_defs)
  have lock: "\<not> p_lock_player (plr_at s1 p)" using assms(2) by (simp add: s1_def plr_at_upd)
  define new where "new = snd (fold (closer d p None 0 s1) (playing s1) (None, None))"
  have run: "Player_lock_closest d p False s = (case new of None \<Rightarrow> Some (False, s1)
      | Some q \<Rightarrow> Some (True, upd_plr p (\<lambda>x. x\<lparr>p_lock_player := True, p_lock_object := Some q\<rparr>) s1))"
    using lock by (simp add: Player_lock_closest_def Let_def s1_def [symmetric] new_def)
  show ?thesis
  proof (cases new)
    case None
    then show ?thesis using that [of False s1] run q1 by simp
  next
    case (Some q)
    have "new \<in> insert None (Some ` set (playing s1))" using lock_candidate [of d p None 0 s1 "playing s1" "(None, None)"] by (simp add: new_def)
    then have "q \<in> set (playing s1)" using Some by auto
    then have "quiet s1 (upd_plr p (\<lambda>x. x\<lparr>p_lock_player := True, p_lock_object := Some q\<rparr>) s1)"
      by (intro quiet_upd_plr) (auto simp: fixed_def seat_def plr_refs_def player_is_defs)
    then show ?thesis using that [of True] run Some quiet_trans [OF q1] by simp
  qed
qed

subsection \<open>What keeps the invariant\<close>

lemma count_sum: "distinct xs \<Longrightarrow> int (length (filter P xs)) = (\<Sum>x \<in> set xs. of_bool (P x))"
  by (induction xs) auto

lemma headcount_sum: "registry_ok s \<Longrightarrow> headcount Q s = (\<Sum>q \<in> set (playing s). of_bool (Q (plr_at s q)))"
  unfolding headcount_def by (rule count_sum [OF distinct_playing])

lemma headcount_one:
  assumes "registry_ok s" "registry_ok s'" "p \<in> set (playing s)" "playing s' = playing s"
    "\<And>q. q \<noteq> p \<Longrightarrow> Q (plr_at s' q) = Q (plr_at s q)"
  shows "headcount Q s' = headcount Q s - of_bool (Q (plr_at s p)) + of_bool (Q (plr_at s' p))"
proof -
  let ?f = "\<lambda>q. of_bool (Q (plr_at s q)) :: int" and ?g = "\<lambda>q. of_bool (Q (plr_at s' q)) :: int" and ?A = "set (playing s)"
  have "sum ?f ?A = ?f p + sum ?f (?A - {p})" "sum ?g ?A = ?g p + sum ?g (?A - {p})" using assms(3) by (simp_all only: sum.remove List.finite_set)
  moreover have "sum ?g (?A - {p}) = sum ?f (?A - {p})" using assms(5) by (intro sum.cong) auto
  ultimately show ?thesis
    unfolding headcount_sum [OF assms(1)] headcount_sum [OF assms(2)] assms(4) by linarith
qed

lemma registry_like: "like s s' \<Longrightarrow> registry_ok s \<Longrightarrow> registry_ok s'"
  using like_data(4) [of s s'] by (simp add: registry_ok_def like_fields like_data(1) fixed_def)

lemma play_okD:
  assumes "play_ok s"
  shows "registry_ok s" "refs_ok s" "counts_ok s" "robots_ok s" "live_bound s" "game_ok s" "teams_ok s" "homes_distinct s" "rng_ok (game_random s)"
    "\<And>p. p \<in> set (playing s) \<Longrightarrow> seat_ok (bases s) (plr_at s p)" "\<And>p. p \<in> set (playing s) \<Longrightarrow> p < length (playerArray s)"
    "length (teams s) = MAX_TEAMS" "has_bit (rules_mode s) TEAM_PLAY" "length (Players s) = length (bases s) + MAX_PSEUDO_PLAYERS" "length (Players s) \<le> 256"
  using assms playing_less [of s] by (auto simp: play_ok_def game_ok_def teams_ok_def)

lemma refs_like:
  assumes "like s s'" "refs_ok s"
  shows "refs_ok s'"
  unfolding refs_ok_def like_fields(13) [OF assms(1)] like_fields(14) [OF assms(1)]
proof (intro conjI ballI allI impI)
  show "plr_refs (plr_at s' q) \<subseteq> set (playing s)" if "q \<in> set (playing s)" for q
    using like_data(8) [OF assms(1) that] assms(2) that unfolding refs_ok_def by blast
  show "q \<in> set (playing s)" if x: "x \<in> set (teams s')" "t_Swapper x = Some q" for x q
  proof -
    obtain k where k: "k < length (teams s)" "x = teams s' ! k" using x(1) like_data(2) [OF assms(1)] by (auto simp: in_set_conv_nth)
    have "teams s ! k \<in> set (teams s)" using k(1) by simp
    then show ?thesis using like_data(9) [OF assms(1) k(1), of q] x(2) k(2) assms(2) unfolding refs_ok_def by blast
  qed
  show "q \<in> set (playing s)" if "i \<in> set (live_objects s)" "o_owner (obj_at s' i) = Some q" for i q
    using that assms(2) like_data(5) [OF assms(1)] unfolding refs_ok_def by auto
qed

lemma teams_like:
  assumes "like s s'" "teams_ok s"
  shows "teams_ok s'"
  unfolding teams_ok_def
proof (intro conjI allI ballI impI)
  have len: "length (teams s) = MAX_TEAMS" using assms(2) by (simp add: teams_ok_def)
  show "length (teams s') = MAX_TEAMS" using len like_data(2) [OF assms(1)] by simp
  have t: "fixed_team (teams s' ! k) = fixed_team (teams s ! k)" if "k < MAX_TEAMS" for k using like_data(6) [OF assms(1)] that len by simp
  show "b_team b \<noteq> None" if "b \<in> set (bases s')" for b
    using that assms(2) like_fields(5) [OF assms(1)] by (simp add: teams_ok_def)
  show "t_Properties (teams s' ! PAUSE_TEAM_NUM) = TEAM_ONLY_PAUSERS"
    using t [of PAUSE_TEAM_NUM] assms(2) by (simp add: fixed_team_def teams_ok_def MAX_TEAMS_def PAUSE_TEAM_NUM_def)
  fix k assume k: "k < MAX_TEAMS"
  show "t_Num (teams s' ! k) = int k" "t_NumBases (teams s' ! k) = int (card (team_bases (bases s') k))"
    using t [OF k] k assms(2) like_fields(5) [OF assms(1)] by (simp_all add: fixed_team_def teams_ok_def)
  show "Player_is_human (plr_at s' q)" if "t_Swapper (teams s' ! k) = Some q" for q
    using like_data(9) [OF assms(1) _ that] k len assms(2) like_human(1) [OF assms(1)] by (auto simp: teams_ok_def)
qed

lemma play_ok_like:
  assumes "play_ok s" "like s s'" "counts_ok s'" "homes_distinct s'" "\<And>p. p \<in> set (playing s) \<Longrightarrow> seat_ok (bases s) (plr_at s' p)"
  shows "play_ok s'"
proof -
  have "robots_ok s'"
    using play_okD(4) [OF assms(1)] like_data(4) [OF assms(2)] by (simp add: robots_ok_def like_fields(13) [OF assms(2)] fixed_def player_is_defs)
  moreover have "live_bound s'"
    using play_okD(5) [OF assms(1)] by (simp add: live_bound_def like_fields(14) [OF assms(2)] like_data(3) [OF assms(2)])
  ultimately show ?thesis
    using assms(3-5) registry_like [OF assms(2)] refs_like [OF assms(2)] teams_like [OF assms(2)] like_data(7) [OF assms(2)]
      play_okD(1,2,7,9,13-15) [OF assms(1)] unfolding play_ok_def game_ok_def like_fields(1,5,11,13) [OF assms(2)] by blast
qed

lemma seat_ok_cong: "seat x = seat y \<Longrightarrow> fixed x = fixed y \<Longrightarrow> seat_ok bs x = seat_ok bs y"
proof -
  assume "seat x = seat y" "fixed x = fixed y"
  then have "p_team x = p_team y" "p_home x = p_home y" "Player_is_paused x = Player_is_paused y" "p_connp x = p_connp y"
    "Player_is_human x = Player_is_human y" "Player_is_robot x = Player_is_robot y" "p_score x = p_score y" "p_name x = p_name y"
    by (simp_all add: seat_def fixed_def player_is_defs)
  then show ?thesis by (simp only: seat_ok_def)
qed

lemma ident_cong: "seat x = seat y \<Longrightarrow> fixed x = fixed y \<Longrightarrow> ident x = ident y"
  by (simp add: ident_def seat_def fixed_def)

lemma by_identD: "by_ident Q \<Longrightarrow> ident x = ident y \<Longrightarrow> Q x = Q y"
  unfolding by_ident_def by blast

lemma headcount_NumPaused [simp]: "headcount Q (s\<lparr>NumPaused := n\<rparr>) = headcount Q s"
  by (simp add: headcount_def playing_def)

lemma play_ok_quiet:
  assumes "play_ok s" "quiet s s'"
  shows "play_ok s'"
proof (rule play_ok_like [OF assms(1) quiet_like [OF assms(2)]])
  note l = quiet_like [OF assms(2)]
  have same: "Q (plr_at s' q) = Q (plr_at s q)" if "by_ident Q" for Q q
    by (rule by_identD [OF that ident_cong [OF quiet_data(1) [OF assms(2)] like_data(4) [OF l]]])
  have "headcount Q s' = headcount Q s" if "by_ident Q" for Q
    by (simp add: headcount_def like_fields(13) [OF l] same [OF that])
  then show "counts_ok s'"
    using play_okD(3) [OF assms(1)] quiet_data(2-4) [OF assms(2)] like_fields(9,10) [OF l] like_data(2) [OF l] by (simp add: counts_ok_def)
  show "homes_distinct s'"
    using play_okD(8) [OF assms(1)] quiet_data(1) [OF assms(2)] like_fields(13) [OF l] by (simp add: homes_distinct_def seat_def)
  show "seat_ok (bases s) (plr_at s' p)" if "p \<in> set (playing s)" for p
    using play_okD(10) [OF assms(1) that] seat_ok_cong [OF quiet_data(1) [OF assms(2), of p] like_data(4) [OF l, of p]] by blast
qed

subsection \<open>One player moves\<close>

text \<open>The player goes to a team and a home; the counts of the teams follow, \<open>NumPaused\<close> does not yet.\<close>

definition moved :: "nat \<Rightarrow> nat \<Rightarrow> nat option \<Rightarrow> gstate \<Rightarrow> gstate \<Rightarrow> bool" where
  "moved p t h s s' \<longleftrightarrow> like s s' \<and> NumPaused s' = NumPaused s \<and> (\<forall>q. q \<noteq> p \<longrightarrow> seat (plr_at s' q) = seat (plr_at s q)) \<and>
     p_team (plr_at s' p) = Some t \<and> p_home (plr_at s' p) = h \<and> (Player_is_paused (plr_at s' p) \<longleftrightarrow> t = PAUSE_TEAM_NUM) \<and>
     (\<forall>k < length (teams s).
        t_NumMembers (teams s' ! k) = t_NumMembers (teams s ! k) - of_bool (in_team k (plr_at s p)) + of_bool (k = t) \<and>
        t_NumRobots (teams s' ! k) = t_NumRobots (teams s ! k) -
          of_bool (in_team k (plr_at s p) \<and> Player_is_robot (plr_at s p)) + of_bool (k = t \<and> Player_is_robot (plr_at s p)))"

lemma moved_data:
  assumes "moved p t h s s'"
  shows "like s s'" "NumPaused s' = NumPaused s" "\<And>q. q \<noteq> p \<Longrightarrow> seat (plr_at s' q) = seat (plr_at s q)"
    "p_team (plr_at s' p) = Some t" "p_home (plr_at s' p) = h" "Player_is_paused (plr_at s' p) \<longleftrightarrow> t = PAUSE_TEAM_NUM"
    "\<And>k. k < length (teams s) \<Longrightarrow>
       t_NumMembers (teams s' ! k) = t_NumMembers (teams s ! k) - of_bool (in_team k (plr_at s p)) + of_bool (k = t)"
    "\<And>k. k < length (teams s) \<Longrightarrow> t_NumRobots (teams s' ! k) = t_NumRobots (teams s ! k) -
          of_bool (in_team k (plr_at s p) \<and> Player_is_robot (plr_at s p)) + of_bool (k = t \<and> Player_is_robot (plr_at s p))"
  using assms by (simp_all add: moved_def)

lemma moved_play_ok:
  assumes "play_ok s" "moved p t h s s'" "p \<in> set (playing s)" "t < MAX_TEAMS"
    "case h of None \<Rightarrow> t = PAUSE_TEAM_NUM
     | Some b \<Rightarrow> t \<noteq> PAUSE_TEAM_NUM \<and> b < length (bases s) \<and> b_team (bases s ! b) = Some t \<and>
         (\<forall>q \<in> set (playing s). q \<noteq> p \<longrightarrow> p_home (plr_at s q) \<noteq> Some b)"
  shows "play_ok (s'\<lparr>NumPaused := NumPaused s' + of_bool (t = PAUSE_TEAM_NUM) - of_bool (Player_is_paused (plr_at s p))\<rparr>)"
proof -
  let ?s = "s'\<lparr>NumPaused := NumPaused s' + of_bool (t = PAUSE_TEAM_NUM) - of_bool (Player_is_paused (plr_at s p))\<rparr>"
  note m = moved_data [OF assms(2)]
  have l: "like s ?s" using like_trans [OF m(1), of ?s] by (simp add: like_def playing_def)
  note reg = play_okD(1) [OF assms(1)]
  have same: "Q (plr_at ?s q) = Q (plr_at s q)" if "by_ident Q" "q \<noteq> p" for Q q
    using by_identD [OF that(1) ident_cong [OF m(3) [OF that(2)] like_data(4) [OF m(1), of q]]] by simp
  have count: "headcount Q s' = headcount Q s - of_bool (Q (plr_at s p)) + of_bool (Q (plr_at s' p))" if "by_ident Q" for Q
    using headcount_one [OF reg registry_like [OF l reg] assms(3) like_fields(13) [OF l], of Q] same [OF that] by simp
  have f: "Player_is_robot (plr_at s' p) = Player_is_robot (plr_at s p)" "p_oper (plr_at s' p) = p_oper (plr_at s p)"
    using like_data(4) [OF m(1), of p] by (simp_all add: fixed_def player_is_defs)
  have it: "in_team k (plr_at s' p) \<longleftrightarrow> k = t" for k using m(4) by (auto simp: in_team_def)
  note c = play_okD(3) [OF assms(1), unfolded counts_ok_def]
  have "counts_ok ?s"
    unfolding counts_ok_def
  proof (intro conjI allI impI)
    show "NumPaused ?s = headcount Player_is_paused ?s" using c m(2,6) by (simp add: count)
    show "NumRobots ?s = headcount Player_is_robot ?s" using c like_fields(9) [OF m(1)] f(1) by (simp add: count)
    show "NumOperators ?s = headcount p_oper ?s" using c like_fields(10) [OF m(1)] f(2) by (simp add: count)
    fix k assume "k < length (teams ?s)"
    then have k: "k < length (teams s)" using like_data(2) [OF m(1)] by simp
    show "t_NumMembers (teams ?s ! k) = headcount (in_team k) ?s" using c k m(7) [OF k] by (simp add: count it)
    show "t_NumRobots (teams ?s ! k) = headcount (\<lambda>x. in_team k x \<and> Player_is_robot x) ?s"
      using c k m(8) [OF k] f(1) by (simp add: count it)
  qed
  moreover have "homes_distinct ?s"
  proof -
    have home: "p_home (plr_at ?s q) = (if q = p then h else p_home (plr_at s q))" for q
      using m(3) [of q] m(5) by (simp add: seat_def)
    show ?thesis unfolding homes_distinct_def like_fields(13) [OF l] home
      using play_okD(8) [OF assms(1)] assms(5) by (auto simp: homes_distinct_def split: option.splits)
  qed
  moreover have "seat_ok (bases s) (plr_at ?s q)" if q: "q \<in> set (playing s)" for q
  proof (cases "q = p")
    case False
    then show ?thesis using play_okD(10) [OF assms(1) q] seat_ok_cong [OF m(3) [OF False] like_data(4) [OF m(1), of q]] by simp
  next
    case True
    have "seat_ok (bases s) (plr_at s p)" by (rule play_okD(10) [OF assms(1,3)])
    then have "(p_connp (plr_at s' p) \<noteq> None \<longleftrightarrow> Player_is_human (plr_at s' p)) \<and> (Player_is_human (plr_at s' p) \<or> Player_is_robot (plr_at s' p)) \<and>
        p_score (plr_at s' p) < 2 ^ 22 \<and> terminated (p_name (plr_at s' p))"
      using like_data(4) [OF m(1), of p] by (simp add: seat_ok_def fixed_def player_is_defs)
    then show ?thesis using True m(4-6) assms(4,5) by (auto simp: seat_ok_def split: option.splits)
  qed
  ultimately show ?thesis by (rule play_ok_like [OF assms(1) l])
qed

lemma Player_add_to_team_eq:
  assumes "p < length (playerArray s)" "t < length (teams s)"
  shows "Player_add_to_team p t s = s\<lparr>playerArray := (playerArray s)[p := (plr_at s p)\<lparr>p_team := Some t\<rparr>],
    teams := (teams s)[t := (teams s ! t)\<lparr>t_NumMembers := t_NumMembers (teams s ! t) + 1,
       t_NumRobots := t_NumRobots (teams s ! t) + of_bool (Player_is_robot (plr_at s p))\<rparr>]\<rparr>"
  using assms by (simp add: Player_add_to_team_def upd_plr_def upd_team_def Let_def player_is_defs)

lemma set_state_same [simp]:
  "fixed (set_state d st x) = fixed x" "plr_refs (set_state d st x) = plr_refs x" "p_team (set_state d st x) = p_team x"
  "p_home (set_state d st x) = p_home x" "p_state (set_state d st x) = st" "p_connp (set_state d st x) = p_connp x"
  "p_type (set_state d st x) = p_type x"
  by (cases st; simp add: fixed_def plr_refs_def player_is_defs)+

lemma entry_paused:
  "t_Num (teams s ! t) = int t \<Longrightarrow> Player_compute_entry_state p t s = PL_STATE_PAUSED \<longleftrightarrow> t = PAUSE_TEAM_NUM"
  by (simp add: Player_compute_entry_state_def Let_def)

lemma enter_team_ok:
  assumes "p < length (playerArray s)" "p_team (plr_at s p) = Some own" "own < length (teams s)" "t < length (teams s)"
    "t_Num (teams s ! t) = int t"
  obtains s' where "enter_team p t s = Some s'" "moved p t (p_home (plr_at s p)) s s'"
proof -
  let ?x = "plr_at s p" and ?r = "of_bool (Player_is_robot (plr_at s p)) :: int"
  define T1 where "T1 = (teams s)[own := (teams s ! own)\<lparr>t_NumRobots := t_NumRobots (teams s ! own) - ?r,
       t_NumMembers := t_NumMembers (teams s ! own) - 1\<rparr>]"
  define T2 where "T2 = T1[t := (T1 ! t)\<lparr>t_NumMembers := t_NumMembers (T1 ! t) + 1, t_NumRobots := t_NumRobots (T1 ! t) + ?r\<rparr>]"
  define s1 where "s1 = s\<lparr>playerArray := (playerArray s)[p := ?x\<lparr>p_team := None\<rparr>], teams := T1\<rparr>"
  define s2 where "s2 = s\<lparr>playerArray := (playerArray s)[p := ?x\<lparr>p_team := Some t\<rparr>], teams := T2\<rparr>"
  have r1: "Player_remove_from_team p s = Some s1"
    using Player_remove_from_team_eq [of s p own] assms(1,2) by (simp add: s1_def T1_def)
  have len: "length T1 = length (teams s)" "length T2 = length (teams s)" by (simp_all add: T1_def T2_def)
  have rob: "Player_is_robot (?x\<lparr>p_team := None\<rparr>) = Player_is_robot ?x" by (simp add: player_is_defs)
  have r2: "Player_add_to_team p t s1 = s2"
    using Player_add_to_team_eq [of p s1 t] assms(1,4) len by (simp add: s1_def s2_def T2_def rob)
  define st where "st = Player_compute_entry_state p t s2"
  define y where "y = set_state (RECOVERY_DELAY_TICKS s2) st (?x\<lparr>p_team := Some t\<rparr>)"
  define s' where "s' = (announce [Note_myself p (PL_SEND_GENERAL OR PL_SEND_BASE), Note_player p (PL_SEND_GENERAL OR PL_SEND_BASE)]
    (s2\<lparr>playerArray := (playerArray s)[p := y]\<rparr>))\<lparr>updateScores := True\<rparr>"
  have run: "enter_team p t s = Some s'"
    unfolding enter_team_def r1 bind.simps Let_def r2 s'_def
    using assms(1) by (simp add: Player_set_state_def upd_plr_def y_def st_def) (simp add: s2_def)
  have T1: "T1 ! k = (teams s ! k)\<lparr>t_NumRobots := t_NumRobots (teams s ! k) - (if k = own then ?r else 0),
     t_NumMembers := t_NumMembers (teams s ! k) - of_bool (k = own)\<rparr>" if "k < length (teams s)" for k
    using that by (cases "k = own") (simp_all add: T1_def)
  have T2: "T2 ! k = (teams s ! k)\<lparr>t_NumRobots := t_NumRobots (teams s ! k) - (if k = own then ?r else 0) + (if k = t then ?r else 0),
     t_NumMembers := t_NumMembers (teams s ! k) - of_bool (k = own) + of_bool (k = t)\<rparr>" if "k < length (teams s)" for k
    using that len T1 [OF that] by (cases "k = t") (simp_all add: T2_def)
  have f: "playerArray s' = (playerArray s)[p := y]" "teams s' = T2" "playing s' = playing s" by (simp_all add: s'_def announce_def s2_def playing_def)
  have y: "fixed y = fixed ?x" "plr_refs y = plr_refs ?x" "p_team y = Some t" "p_home y = p_home ?x" "p_state y = st"
    by (simp_all add: y_def) (simp_all add: fixed_def plr_refs_def player_is_defs)
  have at: "plr_at s' q = (if q = p then y else plr_at s q)" for q using assms(1) by (simp add: f(1))
  have "like s s'"
    unfolding like_def
  proof (intro conjI)
    show "s' = s\<lparr>playerArray := playerArray s', teams := teams s', objArray := objArray s', NumPaused := NumPaused s',
       updateScores := updateScores s', num_pause := num_pause s', num_unpause := num_unpause s', game_random := game_random s',
       told := told s'\<rparr>" by (simp add: s'_def announce_def s2_def)
    show "\<forall>q. fixed (plr_at s' q) = fixed (plr_at s q)" using y(1) by (simp add: at)
    show "\<forall>q \<in> set (playing s). plr_refs (plr_at s' q) \<subseteq> plr_refs (plr_at s q) \<union> set (playing s)" using y(2) by (auto simp: at)
    show "\<forall>k < length (teams s). fixed_team (teams s' ! k) = fixed_team (teams s ! k) \<and>
        (\<forall>q. t_Swapper (teams s' ! k) = Some q \<longrightarrow> t_Swapper (teams s ! k) = Some q \<or> q \<in> set (playing s) \<and> Player_is_human (plr_at s q))"
      using T2 by (simp add: f(2) fixed_team_def)
  qed (use len in \<open>simp_all add: f, simp_all add: s'_def announce_def s2_def\<close>)
  moreover have "Player_is_paused y \<longleftrightarrow> t = PAUSE_TEAM_NUM"
    using entry_paused [of s2 t p] assms(5) T2 [OF assms(4)] y(5) by (simp add: s2_def [symmetric] st_def Player_is_paused_def) (simp add: s2_def)
  ultimately have "moved p t (p_home ?x) s s'"
    unfolding moved_def using y(3,4) T2 assms(2)
    by (simp add: at f(2)) (auto simp: s'_def announce_def s2_def in_team_def)
  with run show ?thesis using that by blast
qed

text \<open>Before the player moves it may lose its home.\<close>

definition stays :: "nat \<Rightarrow> gstate \<Rightarrow> gstate \<Rightarrow> bool" where
  "stays p s s' \<longleftrightarrow> like s s' \<and> NumPaused s' = NumPaused s \<and> (\<forall>q. q \<noteq> p \<longrightarrow> seat (plr_at s' q) = seat (plr_at s q)) \<and>
     p_team (plr_at s' p) = p_team (plr_at s p) \<and>
     (\<forall>k < length (teams s). t_NumMembers (teams s' ! k) = t_NumMembers (teams s ! k) \<and> t_NumRobots (teams s' ! k) = t_NumRobots (teams s ! k))"

lemma quiet_stays: "quiet s s' \<Longrightarrow> stays p s s'"
  by (simp add: quiet_def stays_def seat_def)

lemma stays_trans:
  assumes "stays p s1 s2" "stays p s2 s3"
  shows "stays p s1 s3"
  using assms like_trans [of s1 s2 s3] like_data(2) [of s1 s2] by (simp add: stays_def)

lemma stays_moved:
  assumes "stays p s1 s2" "moved p t h s2 s3"
  shows "moved p t h s1 s3"
proof -
  note m = moved_data [OF assms(2)]
  have st: "like s1 s2" "NumPaused s2 = NumPaused s1" "\<And>q. q \<noteq> p \<Longrightarrow> seat (plr_at s2 q) = seat (plr_at s1 q)"
     "p_team (plr_at s2 p) = p_team (plr_at s1 p)"
     "\<And>k. k < length (teams s1) \<Longrightarrow> t_NumMembers (teams s2 ! k) = t_NumMembers (teams s1 ! k)"
     "\<And>k. k < length (teams s1) \<Longrightarrow> t_NumRobots (teams s2 ! k) = t_NumRobots (teams s1 ! k)"
    using assms(1) by (simp_all add: stays_def)
  have "in_team k (plr_at s2 p) = in_team k (plr_at s1 p)" for k using st(4) by (simp add: in_team_def)
  then show ?thesis
    unfolding moved_def using m like_trans [OF st(1) m(1)] st(2,3,5,6) like_human(2) [OF st(1)] like_data(2) [OF st(1)] by simp
qed

lemma moved_quiet:
  assumes "moved p t h s1 s2" "quiet s2 s3"
  shows "moved p t h s1 s3"
proof -
  note m = moved_data [OF assms(1)] and q = quiet_data [OF assms(2)]
  have "p_team (plr_at s3 p) = p_team (plr_at s2 p)" "p_home (plr_at s3 p) = p_home (plr_at s2 p)"
    "Player_is_paused (plr_at s3 p) = Player_is_paused (plr_at s2 p)"
    using q(1) [of p] by (simp_all add: seat_def Player_is_paused_def)
  then show ?thesis
    unfolding moved_def using m like_trans [OF m(1) quiet_like [OF assms(2)]] q like_data(2) [OF m(1)] by simp
qed

lemma homes_below:
  assumes "play_ok s" "q \<in> set (playing s)" "p_home (plr_at s q) = Some h"
  shows "h < length (bases s)"
  using play_okD(10) [OF assms(1,2)] assms(3) by (auto simp: seat_ok_def)

text \<open>A team with fewer members than bases has a free base.\<close>

lemma free_base_exists:
  assumes "play_ok s" "t < MAX_TEAMS" "t_NumMembers (teams s ! t) < t_NumBases (teams s ! t)"
  shows "\<exists>h. free_base s (Some t) h"
proof -
  let ?M = "{q \<in> set (playing s). in_team t (plr_at s q)}" and ?B = "team_bases (bases s) t"
  let ?H = "(\<lambda>q. the (p_home (plr_at s q))) ` ?M"
  have "t_NumMembers (teams s ! t) = int (card ?M)"
    using play_okD(3,12) [OF assms(1)] assms(2) headcount_card [OF distinct_playing [OF play_okD(1) [OF assms(1)]]]
    by (simp add: counts_ok_def)
  moreover have "t_NumBases (teams s ! t) = int (card ?B)" using play_okD(7) [OF assms(1)] assms(2) by (simp add: teams_ok_def)
  moreover have "card ?H \<le> card ?M" by (rule card_image_le) simp
  ultimately have "card ?H < card ?B" using assms(3) by simp
  then have "\<not> ?B \<subseteq> ?H" using card_mono [of ?H ?B] by auto
  then obtain h where h: "h \<in> ?B" "h \<notin> ?H" by blast
  have "p_home (plr_at s q) \<noteq> Some h" if q: "q \<in> set (playing s)" for q
  proof
    assume home: "p_home (plr_at s q) = Some h"
    then have "in_team t (plr_at s q)"
      using play_okD(10) [OF assms(1) q] h(1) by (auto simp: seat_ok_def team_bases_def in_team_def)
    then show False using h(2) q home by force
  qed
  then show ?thesis using h(1) by (auto simp: free_base_def nobody_home_def team_bases_def)
qed

lemma free_base_quiet: "quiet s s' \<Longrightarrow> free_base s' t h = free_base s t h"
  using quiet_data(1) [of s s'] by (simp add: free_base_def nobody_home_def like_fields [OF quiet_like] seat_def)

lemma Player_swap_team_ok:
  assumes "play_ok s" "p \<in> set (playing s)" "t < MAX_TEAMS" "t \<noteq> PAUSE_TEAM_NUM \<Longrightarrow> \<exists>h. free_base s (Some t) h"
  obtains s' h where "Player_swap_team d p t s = Some s'" "moved p t h s s'"
    "case h of None \<Rightarrow> t = PAUSE_TEAM_NUM | Some b \<Rightarrow> t \<noteq> PAUSE_TEAM_NUM \<and> free_base s (Some t) b"
proof -
  have p: "p < length (playerArray s)" by (rule play_okD(11) [OF assms(1,2)])
  obtain own where own: "p_team (plr_at s p) = Some own" "own < MAX_TEAMS" using play_okD(10) [OF assms(1,2)] by (auto simp: seat_ok_def)
  define s0 where "s0 = Ball_detach p None s"
  have q0: "quiet s s0" unfolding s0_def by (rule quiet_Ball_detach [OF play_okD(5) [OF assms(1)] p])
  have enter: "\<exists>s'. enter_team p t s1 = Some s' \<and> moved p t (p_home (plr_at s1 p)) s s'" if "stays p s s1" for s1
  proof -
    have l: "like s s1" "p_team (plr_at s1 p) = Some own" using that own(1) by (simp_all add: stays_def)
    have "p < length (playerArray s1)" "own < length (teams s1)" "t < length (teams s1)"
      using p own(2) assms(3) play_okD(12) [OF assms(1)] like_data(1,2) [OF l(1)] by simp_all
    moreover have "t_Num (teams s1 ! t) = int t"
      using teams_like [OF l(1) play_okD(7) [OF assms(1)]] assms(3) by (simp add: teams_ok_def)
    ultimately obtain s' where "enter_team p t s1 = Some s'" "moved p t (p_home (plr_at s1 p)) s1 s'"
      using enter_team_ok [OF _ l(2)] by blast
    then show ?thesis using stays_moved [OF that] by blast
  qed
  have clear: "stays p u (upd_plr p (\<lambda>x. x\<lparr>p_home := h\<rparr>) u)" "p_home (plr_at (upd_plr p (\<lambda>x. x\<lparr>p_home := h\<rparr>) u) p) = h"
    if "quiet s u" for u h
  proof -
    have pu: "p < length (playerArray u)" using like_data(1) [OF quiet_like [OF that]] p by simp
    have "like u (upd_plr p (\<lambda>x. x\<lparr>p_home := h\<rparr>) u)" by (rule like_upd_plr) (auto simp: fixed_def plr_refs_def player_is_defs)
    then show "stays p u (upd_plr p (\<lambda>x. x\<lparr>p_home := h\<rparr>) u)"
      using pu by (simp add: stays_def plr_at_upd) (simp add: upd_plr_def)
    show "p_home (plr_at (upd_plr p (\<lambda>x. x\<lparr>p_home := h\<rparr>) u) p) = h" using pu by (simp add: plr_at_upd)
  qed
  show ?thesis
  proof (cases "t = PAUSE_TEAM_NUM")
    case True
    define s1 where "s1 = announce (map (\<lambda>c. Note_release_base c p) (connps s0)) s0"
    define s2 where "s2 = upd_plr p (\<lambda>x. x\<lparr>p_home := None\<rparr>) s1"
    have q1: "quiet s s1" unfolding s1_def by (rule quiet_trans [OF q0 quiet_announce])
    have st2: "stays p s s2" "p_home (plr_at s2 p) = None" unfolding s2_def
      using stays_trans [OF quiet_stays [OF q1] clear(1) [OF q1]] clear(2) [OF q1] by simp_all
    have l2: "like s s2" using st2(1) by (simp add: stays_def)
    obtain s3 where s3: "(if \<not> Player_lock_is_initialized p s2 then map_option snd (Player_lock_closest d p False s2) else Some s2) = Some s3"
      "quiet s2 s3"
    proof (cases "Player_lock_is_initialized p s2")
      case False
      have "p \<in> set (playing s2)" "p < length (playerArray s2)" using assms(2) p like_fields(13) [OF l2] like_data(1) [OF l2] by simp_all
      from quiet_lock_closest [OF this] obtain b s3 where "Player_lock_closest d p False s2 = Some (b, s3)" "quiet s2 s3" by blast
      then show ?thesis using that False by simp
    qed (use that in simp)
    have "p_home (plr_at s3 p) = None" using quiet_data(1) [OF s3(2), of p] st2(2) by (simp add: seat_def)
    with enter [OF stays_trans [OF st2(1) quiet_stays [OF s3(2)]]] obtain s' where
      s': "enter_team p t s3 = Some s'" "moved p t None s s'" by auto
    have "Player_swap_team d p t s = Some s'"
      unfolding Player_swap_team_def Let_def s0_def [symmetric] s1_def [symmetric] s2_def [symmetric]
      using True s3(1) s'(1) by simp
    then show ?thesis using that [of s' None] s'(2) True by simp
  next
    case False
    have "play_ok s0" by (rule play_ok_quiet [OF assms(1) q0])
    then have "rng_ok (game_random s0)" "\<forall>q \<in> set (playing s0). \<forall>h. p_home (plr_at s0 q) = Some h \<longrightarrow> h < length (bases s0)"
      using play_okD(9) homes_below by blast+
    from pick_free [OF this, of "Some t"] obtain r g where
      r: "Team_pick_free_base (Some t) s0 = Some (r, s0\<lparr>game_random := g\<rparr>)" "rng_ok g"
        "case r of Some h \<Rightarrow> free_base s0 (Some t) h | None \<Rightarrow> \<forall>h. \<not> free_base s0 (Some t) h" by blast
    then obtain b where b: "r = Some b" "free_base s (Some t) b"
      using assms(4) [OF False] free_base_quiet [OF q0] by (cases r) auto
    define s1 where "s1 = s0\<lparr>game_random := g\<rparr>"
    define s2 where "s2 = upd_plr p (\<lambda>x. x\<lparr>p_home := Some b\<rparr>) s1"
    have q1: "quiet s s1" unfolding s1_def by (rule quiet_trans [OF q0 quiet_fields(5) [OF r(2)]])
    have st2: "stays p s s2" "p_home (plr_at s2 p) = Some b" unfolding s2_def
      using stays_trans [OF quiet_stays [OF q1] clear(1) [OF q1]] clear(2) [OF q1] by simp_all
    obtain s3 where s3: "(if p_team (plr_at s2 p) = Some PAUSE_TEAM_NUM then Player_go_home p s2 else Some s2) = Some s3" "quiet s2 s3"
    proof (cases "p_team (plr_at s2 p) = Some PAUSE_TEAM_NUM")
      case True
      define s3 where "s3 = upd_plr p (\<lambda>x. x\<lparr>p_bx := b_bx (bases s2 ! b), p_by := b_by (bases s2 ! b), p_velocity := 0, p_has_ball := False\<rparr>) s2"
      have "quiet s2 s3" unfolding s3_def by (rule quiet_upd_plr) (auto simp: fixed_def seat_def plr_refs_def player_is_defs)
      then show ?thesis using that True st2(2) by (simp add: Player_go_home_def s3_def)
    qed (use that in simp)
    have "p_home (plr_at s3 p) = Some b" using quiet_data(1) [OF s3(2), of p] st2(2) by (simp add: seat_def)
    with enter [OF stays_trans [OF st2(1) quiet_stays [OF s3(2)]]] obtain s' where
      s': "enter_team p t s3 = Some s'" "moved p t (Some b) s s'" by auto
    have "Player_swap_team d p t s = Some s'"
      unfolding Player_swap_team_def Let_def s0_def [symmetric] using False r(1) b(1) s3(1) s'(1)
      by (simp add: take_base_def s1_def [symmetric] s2_def [symmetric])
    then show ?thesis using that [of s' "Some b"] s'(2) False b(2) by simp
  qed
qed

subsection \<open>Players who leave\<close>

lemma game_ok_connp:
  assumes "game_ok s" "p < length (playerArray s)"
  shows "game_ok (upd_plr p (\<lambda>x. x\<lparr>p_connp := c\<rparr>) s)"
proof -
  let ?s = "upd_plr p (\<lambda>x. x\<lparr>p_connp := c\<rparr>) s"
  have f: "Players ?s = Players s" "NumPlayers ?s = NumPlayers s" "GetInd ?s = GetInd s" "idq ?s = idq s" "teams ?s = teams s" "playing ?s = playing s"
    "live_objects ?s = live_objects s" "objArray ?s = objArray s" "NumPaused ?s = NumPaused s" "NumRobots ?s = NumRobots s"
    "NumOperators ?s = NumOperators s" "length (playerArray ?s) = length (playerArray s)"
    by (simp_all add: upd_plr_def playing_def live_objects_def)
  have at: "plr_at ?s q = (if q = p then (plr_at s p)\<lparr>p_connp := c\<rparr> else plr_at s q)" for q using assms(2) by (simp add: plr_at_upd)
  have same: "p_id (plr_at ?s q) = p_id (plr_at s q)" "plr_refs (plr_at ?s q) = plr_refs (plr_at s q)"
    "Player_is_robot (plr_at ?s q) = Player_is_robot (plr_at s q)" "p_robot_data (plr_at ?s q) = p_robot_data (plr_at s q)"
    "Player_is_paused (plr_at ?s q) = Player_is_paused (plr_at s q)" "p_oper (plr_at ?s q) = p_oper (plr_at s q)"
    "in_team k (plr_at ?s q) = in_team k (plr_at s q)" for q k
    by (simp_all add: at plr_refs_def player_is_defs in_team_def)
  have "registry_ok ?s" using assms(1) by (simp add: game_ok_def registry_ok_def f same)
  moreover have "refs_ok ?s" using assms(1) by (simp add: game_ok_def refs_ok_def f same)
  moreover have "counts_ok ?s" using assms(1) by (simp add: game_ok_def counts_ok_def headcount_def f same)
  moreover have "robots_ok ?s" "live_bound ?s" using assms(1) by (simp_all add: game_ok_def robots_ok_def live_bound_def f same)
  ultimately show ?thesis by (simp add: game_ok_def)
qed

lemma seat_ok_ident: "ident x = ident y \<Longrightarrow> seat_ok bs x = seat_ok bs y"
proof -
  assume "ident x = ident y"
  then have "p_team x = p_team y" "p_home x = p_home y" "Player_is_paused x = Player_is_paused y" "p_connp x = p_connp y"
    "Player_is_human x = Player_is_human y" "Player_is_robot x = Player_is_robot y" "p_score x = p_score y" "p_name x = p_name y"
    by (simp_all add: ident_def player_is_defs)
  then show ?thesis by (simp only: seat_ok_def)
qed

text \<open>The player may have lost its connection already.\<close>

lemma Player_remove_play_ok:
  assumes "game_ok s" "teams_ok s" "homes_distinct s" "rng_ok (game_random s)" "p \<in> set (playing s)" "p_team (plr_at s p) \<noteq> None"
    "has_bit (rules_mode s) TEAM_PLAY" "length (Players s) = length (bases s) + MAX_PSEUDO_PLAYERS" "length (Players s) \<le> 256"
    "\<And>q. q \<in> set (playing s) \<Longrightarrow> q \<noteq> p \<Longrightarrow> seat_ok (bases s) (plr_at s q)"
  obtains s' where "Player_remove p s = Some s'" "play_ok s'" "set (playing s') = set (playing s) - {p}" "NumPlayers s' = NumPlayers s - 1"
    "\<And>q. q \<in> set (playing s') \<Longrightarrow> ident (plr_at s' q) = ident (plr_at s q)" "bases s' = bases s" "rules_mode s' = rules_mode s"
    "robotTeam s' = robotTeam s" "length (Players s') = length (Players s)" "reserveRobotTeam s' = reserveRobotTeam s"
proof -
  obtain t where t: "p_team (plr_at s p) = Some t" using assms(6) by blast
  obtain s' where r: "Player_remove p s = Some s'" "game_ok s'" "set (playing s') = set (playing s) - {p}"
    "\<And>q. q \<in> set (playing s') \<Longrightarrow> ident (plr_at s' q) = ident (plr_at s q)"
    "s' = s\<lparr>Players := Players s', NumPlayers := NumPlayers s - 1, playerArray := playerArray s', GetInd := GetInd s', idq := idq s',
       teams := teams s', objArray := objArray s', NumPaused := NumPaused s', NumRobots := NumRobots s', NumOperators := NumOperators s',
       game_lock := game_lock s', updateScores := True, told := told s'\<rparr>" "length (playerArray s') = length (playerArray s)"
    "length (teams s') = length (teams s)"
    "\<And>k. k < length (teams s) \<Longrightarrow> teams s' ! k = (teams s ! k)\<lparr>t_NumMembers := t_NumMembers (teams s' ! k),
       t_NumRobots := t_NumRobots (teams s' ! k), t_Swapper := t_Swapper (teams s' ! k)\<rparr>"
    "\<And>k q. k < length (teams s) \<Longrightarrow> t_Swapper (teams s' ! k) = Some q \<Longrightarrow> t_Swapper (teams s ! k) = Some q"
    by (rule Player_remove_keeps [OF assms(1,5) t]) (rule that; assumption)
  have f: "bases s' = bases s" "rules_mode s' = rules_mode s" "robotTeam s' = robotTeam s" "game_random s' = game_random s" "NumPlayers s' = NumPlayers s - 1"
    "reserveRobotTeam s' = reserveRobotTeam s"
    by (subst r(5), simp)+
  have same: "p_home (plr_at s' q) = p_home (plr_at s q)" "Player_is_human (plr_at s' q) = Player_is_human (plr_at s q)" if "q \<in> set (playing s')" for q
    using r(4) [OF that] by (simp_all add: ident_def player_is_defs)
  have "homes_distinct s'"
    unfolding homes_distinct_def
  proof (intro ballI impI)
    fix a b assume ab: "a \<in> set (playing s')" "b \<in> set (playing s')" "p_home (plr_at s' a) \<noteq> None" "p_home (plr_at s' a) = p_home (plr_at s' b)"
    then have "a \<in> set (playing s)" "b \<in> set (playing s)" using r(3) by blast+
    then show "a = b" using assms(3) ab(3,4) unfolding homes_distinct_def same(1) [OF ab(1)] same(1) [OF ab(2)] by blast
  qed
  moreover have "seat_ok (bases s') (plr_at s' q)" if q: "q \<in> set (playing s')" for q
    using assms(10) [of q] q r(3) seat_ok_ident [OF r(4) [OF q]] f(1) by simp
  moreover have "teams_ok s'"
  proof -
    have "Player_is_human (plr_at s' q)" if "k < MAX_TEAMS" "t_Swapper (teams s' ! k) = Some q" for k q
    proof -
      have k: "k < length (teams s)" using that(1) assms(2) by (simp add: teams_ok_def)
      then have "teams s' ! k \<in> set (teams s')" using r(7) by simp
      then have "q \<in> set (playing s')" using r(2) that(2) unfolding game_ok_def refs_ok_def by blast
      then show ?thesis using same(2) r(9) [OF k that(2)] that(1) assms(2) by (simp add: teams_ok_def)
    qed
    moreover have "t_Num (teams s' ! k) = t_Num (teams s ! k)" "t_NumBases (teams s' ! k) = t_NumBases (teams s ! k)"
      "t_Properties (teams s' ! k) = t_Properties (teams s ! k)" if "k < MAX_TEAMS" for k
    proof -
      have k: "k < length (teams s)" using that assms(2) by (simp add: teams_ok_def)
      from arg_cong [OF r(8) [OF k], of fixed_team]
      show "t_Num (teams s' ! k) = t_Num (teams s ! k)" "t_NumBases (teams s' ! k) = t_NumBases (teams s ! k)"
        "t_Properties (teams s' ! k) = t_Properties (teams s ! k)" by (simp_all add: fixed_team_def)
    qed
    moreover have "PAUSE_TEAM_NUM < MAX_TEAMS" by (simp add: PAUSE_TEAM_NUM_def MAX_TEAMS_def)
    ultimately show ?thesis using assms(2) r(7) f(1) by (simp add: teams_ok_def)
  qed
  moreover have "length (Players s') = length (Players s)"
    using r(2,6) assms(1) by (simp add: game_ok_def registry_ok_def)
  ultimately have "play_ok s'" "length (Players s') = length (Players s)" using r(2) assms(4,7-9) f(1,2,4) by (simp_all add: play_ok_def)
  then show ?thesis using that [OF r(1) _ r(3) f(5) r(4) f(1-3) _ f(6)] by blast
qed

lemma seat_team: "seat_ok bs x \<Longrightarrow> p_team x \<noteq> None"
  by (auto simp: seat_ok_def)

text \<open>Some players have left, the others are where they were.\<close>

definition fewer :: "nat set \<Rightarrow> gstate \<Rightarrow> gstate \<Rightarrow> bool" where
  "fewer A s s' \<longleftrightarrow> play_ok s' \<and> set (playing s') = set (playing s) - A \<and>
     (\<forall>q \<in> set (playing s'). ident (plr_at s' q) = ident (plr_at s q)) \<and> bases s' = bases s \<and> rules_mode s' = rules_mode s \<and>
     robotTeam s' = robotTeam s \<and> reserveRobotTeam s' = reserveRobotTeam s \<and> length (Players s') = length (Players s)"

lemma drop_connection_ok:
  assumes "play_ok s" "p \<in> set (playing s)" "p_connp (plr_at s p) \<noteq> None"
  obtains s' where "drop_connection p s = Some s'" "fewer {p} s s'" "NumPlayers s' = NumPlayers s - 1"
proof -
  let ?s = "upd_plr p (\<lambda>x. x\<lparr>p_connp := None\<rparr>) s"
  have p: "p < length (playerArray s)" by (rule play_okD(11) [OF assms(1,2)])
  have f: "playing ?s = playing s" "teams ?s = teams s" "bases ?s = bases s" "game_random ?s = game_random s" "Players ?s = Players s"
    "rules_mode ?s = rules_mode s" "robotTeam ?s = robotTeam s" "NumPlayers ?s = NumPlayers s" "reserveRobotTeam ?s = reserveRobotTeam s"
    by (simp_all add: upd_plr_def playing_def)
  have at: "plr_at ?s q = plr_at s q" if "q \<noteq> p" for q using that p by (simp add: plr_at_upd)
  have same: "p_home (plr_at ?s q) = p_home (plr_at s q)" "Player_is_human (plr_at ?s q) = Player_is_human (plr_at s q)"
    "p_team (plr_at ?s q) = p_team (plr_at s q)" for q
    using p by (simp_all add: plr_at_upd player_is_defs)
  have a: "teams_ok ?s" "homes_distinct ?s" "rng_ok (game_random ?s)" "p \<in> set (playing ?s)" "p_team (plr_at ?s p) \<noteq> None"
    "has_bit (rules_mode ?s) TEAM_PLAY" "length (Players ?s) = length (bases ?s) + MAX_PSEUDO_PLAYERS" "length (Players ?s) \<le> 256"
    using play_okD(7-9,13-15) [OF assms(1)] assms(2) seat_team [OF play_okD(10) [OF assms(1,2)]]
    by (simp_all add: f same teams_ok_def homes_distinct_def)
  have b: "seat_ok (bases ?s) (plr_at ?s q)" if "q \<in> set (playing ?s)" "q \<noteq> p" for q
    using play_okD(10) [OF assms(1), of q] that at by (simp add: f)
  obtain s' where "Player_remove p ?s = Some s'" "play_ok s'" "set (playing s') = set (playing ?s) - {p}" "NumPlayers s' = NumPlayers ?s - 1"
    "\<And>q. q \<in> set (playing s') \<Longrightarrow> ident (plr_at s' q) = ident (plr_at ?s q)" "bases s' = bases ?s" "rules_mode s' = rules_mode ?s"
    "robotTeam s' = robotTeam ?s" "length (Players s') = length (Players ?s)" "reserveRobotTeam s' = reserveRobotTeam ?s"
    by (rule Player_remove_play_ok [OF game_ok_connp [OF play_okD(6) [OF assms(1)] p] a])
      (rule b, assumption, assumption, (rule that; assumption))
  then show ?thesis using assms(3) by (intro that [of s']) (auto simp: drop_connection_def fewer_def f at)
qed

lemma fewer_trans: "fewer A s1 s2 \<Longrightarrow> fewer B s2 s3 \<Longrightarrow> fewer (A \<union> B) s1 s3"
  by (auto simp: fewer_def)

lemma kick_loop_ok:
  assumes "play_ok s" "i \<le> NumPlayers s"
  shows "\<exists>n' s' A. kick_loop i n s = Some (n', s') \<and> fewer A s s' \<and>
    A \<subseteq> {q. p_connp (plr_at s q) \<noteq> None \<and> Player_is_paused (plr_at s q)}"
  using assms
proof (induction i arbitrary: n s)
  case 0
  then show ?case by (intro exI [of _ n] exI [of _ s] exI [of _ "{}"]) (simp add: fewer_def)
next
  case (Suc i)
  define p where "p = Players s ! i"
  let ?out = "p_connp (plr_at s p) \<noteq> None \<and> Player_is_paused (plr_at s p)"
  have p: "p \<in> set (playing s)" using Suc.prems(2) playing_iff [OF play_okD(1) [OF Suc.prems(1)], of p] by (auto simp: p_def intro!: exI [of _ i])
  show ?case
  proof (cases ?out)
    case False
    then have "kick_loop (Suc i) n s = kick_loop i n s" by (auto simp: p_def Let_def)
    then show ?thesis using Suc.IH [OF Suc.prems(1), of n] Suc.prems(2) by (simp del: kick_loop.simps)
  next
    case True
    obtain s1 where s1: "drop_connection p s = Some s1" "fewer {p} s s1" "NumPlayers s1 = NumPlayers s - 1"
      using drop_connection_ok [OF Suc.prems(1) p] True by blast
    have "play_ok s1" "i \<le> NumPlayers s1" using s1(2,3) Suc.prems(2) by (simp_all add: fewer_def)
    from Suc.IH [OF this, of "n + 1"] obtain n' s' A where
      r: "kick_loop i (n + 1) s1 = Some (n', s')" "fewer A s1 s'" "A \<subseteq> {q. p_connp (plr_at s1 q) \<noteq> None \<and> Player_is_paused (plr_at s1 q)}" by blast
    define B where "B = A \<inter> set (playing s1)"
    have "fewer B s1 s'" using r(2) by (auto simp: fewer_def B_def)
    have id: "ident (plr_at s1 q) = ident (plr_at s q)" if "q \<in> set (playing s1)" for q using s1(2) that by (simp add: fewer_def)
    have "p_connp (plr_at s q) \<noteq> None \<and> Player_is_paused (plr_at s q)" if "q \<in> B" for q
    proof -
      have "q \<in> set (playing s1)" "p_connp (plr_at s1 q) \<noteq> None \<and> Player_is_paused (plr_at s1 q)" using that r(3) by (auto simp: B_def)
      then show ?thesis using id [of q] by (simp add: ident_def player_is_defs)
    qed
    then have "insert p B \<subseteq> {q. p_connp (plr_at s q) \<noteq> None \<and> Player_is_paused (plr_at s q)}" using True by blast
    moreover have "fewer (insert p B) s s'" using fewer_trans [OF s1(2) \<open>fewer B s1 s'\<close>] by simp
    moreover have "kick_loop (Suc i) n s = Some (n', s')" using True s1(1) r(1) by (simp add: p_def [symmetric] Let_def)
    ultimately show ?thesis by blast
  qed
qed

subsection \<open>Pausing and unpausing\<close>

lemma life_quiet: "quiet s (upd_plr p (\<lambda>x. x\<lparr>p_kills := a, p_deaths := b, p_self_deaths := c, p_life := l\<rparr>) s)"
  by (rule quiet_upd_plr) (auto simp: fixed_def seat_def plr_refs_def player_is_defs)

text \<open>What an operation that keeps the invariant may do: players may leave, but not the one it is about.\<close>

definition who :: "plr \<Rightarrow> int \<times> pl_type \<times> nat option \<times> byte list \<times> bool \<times> int" where
  "who x = (p_id x, p_type x, p_connp x, p_name x, p_oper x, p_score x)"

lemma who_fixed: "fixed x = fixed y \<Longrightarrow> who x = who y"
  by (simp add: fixed_def who_def)

lemma who_ident: "ident x = ident y \<Longrightarrow> who x = who y"
  by (simp add: ident_def who_def)

definition kept_by :: "nat \<Rightarrow> gstate \<Rightarrow> gstate \<Rightarrow> bool" where
  "kept_by p s s' \<longleftrightarrow> play_ok s' \<and> p \<in> set (playing s') \<and> set (playing s') \<subseteq> set (playing s) \<and>
     who (plr_at s' p) = who (plr_at s p) \<and> bases s' = bases s \<and> rules_mode s' = rules_mode s \<and> robotTeam s' = robotTeam s \<and>
     length (Players s') = length (Players s)"

lemma kept_like: "play_ok s' \<Longrightarrow> like s s' \<Longrightarrow> p \<in> set (playing s) \<Longrightarrow> kept_by p s s'"
  by (simp add: kept_by_def like_fields who_fixed [OF like_data(4)])

lemma kept_trans: "kept_by p s1 s2 \<Longrightarrow> kept_by p s2 s3 \<Longrightarrow> kept_by p s1 s3"
  by (auto simp: kept_by_def)

lemma fewer_kept: "fewer A s s' \<Longrightarrow> p \<in> set (playing s') \<Longrightarrow> kept_by p s s'"
  by (auto simp: fewer_def kept_by_def intro: who_ident)

lemma quiet_NumPaused: "like s s' \<Longrightarrow> like s (s'\<lparr>NumPaused := n\<rparr>)"
  by (erule like_trans) (simp add: like_def)

lemma Player_swap_team_play_ok:
  assumes "play_ok s" "p \<in> set (playing s)" "t < MAX_TEAMS" "t \<noteq> PAUSE_TEAM_NUM \<Longrightarrow> \<exists>h. free_base s (Some t) h"
  obtains s' h where "Player_swap_team d p t s = Some s'" "moved p t h s s'"
    "\<And>s2. moved p t h s s2 \<Longrightarrow>
       play_ok (s2\<lparr>NumPaused := NumPaused s2 + of_bool (t = PAUSE_TEAM_NUM) - of_bool (Player_is_paused (plr_at s p))\<rparr>)"
proof -
  obtain s' h where s': "Player_swap_team d p t s = Some s'" "moved p t h s s'"
    "case h of None \<Rightarrow> t = PAUSE_TEAM_NUM | Some b \<Rightarrow> t \<noteq> PAUSE_TEAM_NUM \<and> free_base s (Some t) b"
    using Player_swap_team_ok [OF assms(1-3), of d] assms(4) by metis
  have "case h of None \<Rightarrow> t = PAUSE_TEAM_NUM
     | Some b \<Rightarrow> t \<noteq> PAUSE_TEAM_NUM \<and> b < length (bases s) \<and> b_team (bases s ! b) = Some t \<and>
         (\<forall>q \<in> set (playing s). q \<noteq> p \<longrightarrow> p_home (plr_at s q) \<noteq> Some b)"
    using s'(3) by (auto simp: free_base_def nobody_home_def split: option.splits)
  from that [OF s'(1,2) moved_play_ok [OF assms(1) _ assms(2,3) this]] show ?thesis by blast
qed

lemma Player_pause_forced_ok:
  assumes "play_ok s" "p \<in> set (playing s)"
  obtains s' where "Player_pause_forced d p s = Some s'" "kept_by p s s'"
proof -
  define s0 where "s0 = upd_plr p (\<lambda>x. x\<lparr>p_pause_count := UNPAUSE_DELAY_TICKS s\<rparr>) s"
  have q0: "quiet s s0" unfolding s0_def by (rule quiet_upd_plr) (auto simp: fixed_def seat_def plr_refs_def player_is_defs)
  have ok0: "play_ok s0" "p \<in> set (playing s0)" using play_ok_quiet [OF assms(1) q0] assms(2) like_fields(13) [OF quiet_like [OF q0]] by simp_all
  have k0: "kept_by p s s0" by (rule kept_like [OF ok0(1) quiet_like [OF q0] assms(2)])
  show ?thesis
  proof (cases "Player_is_paused (plr_at s0 p)")
    case True
    then show ?thesis using that [of s0] k0 by (simp add: Player_pause_forced_def Let_def s0_def [symmetric])
  next
    case False
    obtain s1 where s1: "(if NumPaused s0 \<ge> MAX_PAUSED_PLAYERS then map_option snd (Players_kick_paused s0) else Some s0) = Some s1"
      "play_ok s1" "p \<in> set (playing s1)" "kept_by p s0 s1" "\<not> Player_is_paused (plr_at s1 p)"
    proof (cases "NumPaused s0 \<ge> MAX_PAUSED_PLAYERS")
      case True
      from kick_loop_ok [OF ok0(1), of "NumPlayers s0" 0] obtain n s1 A where
        k: "Players_kick_paused s0 = Some (n, s1)" "fewer A s0 s1" "A \<subseteq> {q. p_connp (plr_at s0 q) \<noteq> None \<and> Player_is_paused (plr_at s0 q)}"
        unfolding Players_kick_paused_def by blast
      have p1: "p \<in> set (playing s1)" using k(2,3) ok0(2) False by (auto simp: fewer_def)
      have ok1: "play_ok s1" using k(2) by (simp add: fewer_def)
      have id: "ident (plr_at s1 p) = ident (plr_at s0 p)" using k(2) p1 by (simp add: fewer_def)
      show ?thesis
        by (rule that [of s1]) (use True k(1) p1 ok1 id False fewer_kept [OF k(2) p1] in \<open>simp_all add: ident_def player_is_defs\<close>)
    qed (use that ok0 False in \<open>simp_all add: kept_by_def\<close>)
    have pause: "PAUSE_TEAM_NUM < MAX_TEAMS" by (simp add: PAUSE_TEAM_NUM_def MAX_TEAMS_def)
    obtain s2 h where s2: "Player_swap_team d p PAUSE_TEAM_NUM s1 = Some s2" "moved p PAUSE_TEAM_NUM h s1 s2"
      "\<And>s3. moved p PAUSE_TEAM_NUM h s1 s3 \<Longrightarrow>
         play_ok (s3\<lparr>NumPaused := NumPaused s3 + of_bool (PAUSE_TEAM_NUM = PAUSE_TEAM_NUM) - of_bool (Player_is_paused (plr_at s1 p))\<rparr>)"
      using Player_swap_team_play_ok [OF s1(2,3) pause] by blast
    have l2: "like s1 s2" by (rule moved_data(1) [OF s2(2)])
    have b2: "live_bound s2" "p < length (playerArray s2)"
      using play_okD(5,11) [OF s1(2)] s1(3) by (simp_all add: live_bound_def like_fields(14) [OF l2] like_data(1,3) [OF l2])
    define s3 where "s3 = (if p_has_ball (plr_at s2 p) then Ball_detach p None s2 else s2)"
    define s4 where "s4 = upd_plr p (\<lambda>x. x\<lparr>p_kills := 0, p_deaths := 0, p_self_deaths := 0, p_life := rules_lives s3\<rparr>) s3"
    have "quiet s2 s3" using quiet_Ball_detach [OF b2] by (simp add: s3_def)
    then have m4: "moved p PAUSE_TEAM_NUM h s1 s4" unfolding s4_def by (rule moved_quiet [OF moved_quiet [OF s2(2)] life_quiet])
    define s5 where "s5 = s4\<lparr>NumPaused := NumPaused s4 + 1\<rparr>"
    have "play_ok s5" using s2(3) [OF m4] s1(5) by (simp add: s5_def)
    moreover have q5: "quiet s5 (s5\<lparr>num_pause := num_pause s4 + 1\<rparr>)" by simp
    ultimately have ok: "play_ok (s5\<lparr>num_pause := num_pause s4 + 1\<rparr>)" by (rule play_ok_quiet)
    have "like s1 (s5\<lparr>num_pause := num_pause s4 + 1\<rparr>)"
      using like_trans [OF quiet_NumPaused [OF moved_data(1) [OF m4], of "NumPaused s4 + 1", folded s5_def] quiet_like [OF q5]] .
    then have "kept_by p s (s5\<lparr>num_pause := num_pause s4 + 1\<rparr>)"
      using kept_trans [OF kept_trans [OF k0 s1(4)] kept_like [OF ok _ s1(3)]] by blast
    moreover have "Player_pause_forced d p s = Some (s5\<lparr>num_pause := num_pause s4 + 1\<rparr>)"
      unfolding Player_pause_forced_def Let_def s0_def [symmetric] using False s1(1) s2(1)
      by (simp add: s3_def [symmetric]) (simp add: s4_def [symmetric] s5_def)
    ultimately show ?thesis using that by blast
  qed
qed

lemma home_of_active:
  assumes "play_ok s" "p \<in> set (playing s)" "\<not> Player_is_paused (plr_at s p)"
  shows "p_home (plr_at s p) \<noteq> None"
  using play_okD(10) [OF assms(1,2)] assms(3) by (auto simp: seat_ok_def split: option.splits)

lemma Player_pause_self_ok:
  assumes "play_ok s" "p \<in> set (playing s)" "\<not> Player_is_paused (plr_at s p)"
  obtains s' where "Player_pause_self d p s = Some s'" "kept_by p s s'"
proof -
  obtain h where h: "p_home (plr_at s p) = Some h" using home_of_active [OF assms] by blast
  obtain s' where s': "Player_pause_forced d p s = Some s'" "kept_by p s s'" using Player_pause_forced_ok [OF assms(1,2)] by blast
  have k: "kept_by p s s" by (rule kept_like [OF assms(1) like_refl assms(2)])
  have "Player_pause_self d p s = Some s' \<or> Player_pause_self d p s = Some s"
    using s'(1) h by (simp add: Player_pause_self_def Player_is_close_to_base_def Let_def)
  then show ?thesis using that s'(2) k by blast
qed

text \<open>The team an unpausing player is given has room.\<close>

definition has_room :: "gstate \<Rightarrow> nat \<Rightarrow> bool" where
  "has_room s t \<longleftrightarrow> t < MAX_TEAMS \<and> t \<noteq> PAUSE_TEAM_NUM \<and> t_NumMembers (teams s ! t) < t_NumBases (teams s ! t)"

lemma room_base: "play_ok s \<Longrightarrow> has_room s t \<Longrightarrow> \<exists>h. free_base s (Some t) h"
  using free_base_exists by (simp add: has_room_def)

lemma count_playing_ok:
  assumes "play_ok s" "set ps \<subseteq> set (playing s)" "length pl = MAX_TEAMS" "length sc = MAX_TEAMS" "\<forall>k < MAX_TEAMS. sc ! k \<le> c"
  shows "\<exists>pl' pt' sc'. count_playing s ps (pl, pt, sc) = Some (pl', pt', sc') \<and> length pl' = MAX_TEAMS \<and> length sc' = MAX_TEAMS \<and>
    (\<forall>k < MAX_TEAMS. sc' ! k \<le> c + int (length ps) * 2 ^ 22)"
  using assms(2-5)
proof (induction ps arbitrary: pl pt sc c)
  case (Cons p ps)
  have ok: "seat_ok (bases s) (plr_at s p)" using play_okD(10) [OF assms(1)] Cons.prems(1) by simp
  then obtain t where t: "p_team (plr_at s p) = Some t" "t < MAX_TEAMS" "p_score (plr_at s p) < 2 ^ 22" by (auto simp: seat_ok_def)
  define sc1 where "sc1 = (if Player_is_human (plr_at s p) \<or> Player_is_robot (plr_at s p) then sc[t := sc ! t + p_score (plr_at s p)] else sc)"
  have "set ps \<subseteq> set (playing s)" using Cons.prems(1) by simp
  note IH = Cons.IH [OF this]
  have sc1: "length sc1 = MAX_TEAMS" "\<forall>k < MAX_TEAMS. sc1 ! k \<le> c + 2 ^ 22"
    using Cons.prems(3,4) t(2,3) by (auto simp: sc1_def nth_list_update intro: order_trans [of _ c] add_mono)
  have more: "c + 2 ^ 22 + int (length ps) * 2 ^ 22 = c + int (length (p # ps)) * 2 ^ 22" by (simp add: algebra_simps)
  show ?case
  proof (cases "p_state (plr_at s p) \<in> {PL_STATE_ALIVE, PL_STATE_APPEARING, PL_STATE_DEAD, PL_STATE_WAITING}")
    case True
    have "length (pl[t := pl ! t + 1]) = MAX_TEAMS" using Cons.prems(2) by simp
    from IH [OF this sc1, of "if pl ! t = 0 then pt + 1 else pt"] show ?thesis
      unfolding more using True t(1) by (simp add: sc1_def)
  next
    case False
    have "\<forall>k < MAX_TEAMS. sc ! k \<le> c + 2 ^ 22" using Cons.prems(4) by auto
    from IH [OF Cons.prems(2,3) this, of pt] show ?thesis unfolding more using False by simp
  qed
qed simp

lemma available_ok:
  assumes "i \<in> set (available_teams pl pt fb n)"
  shows "i < MAX_TEAMS" "fb ! i > 0"
  using assms by (auto simp: available_teams_def Let_def split: if_splits)

lemma losing_team_ok:
  assumes "\<exists>i \<in> set av. sc ! i < ls \<and> int i \<noteq> rt"
  shows "\<exists>i \<in> set av. fst (fold (\<lambda>i (lt, ls). if sc ! i < ls \<and> int i \<noteq> rt then (int i, sc ! i) else (lt, ls)) av (lt, ls)) = int i"
  using assms
proof (induction av arbitrary: lt ls)
  case (Cons a av)
  let ?f = "\<lambda>i (lt, ls). if sc ! i < ls \<and> int i \<noteq> rt then (int i, sc ! i) else (lt, ls)"
  show ?case
  proof (cases "sc ! a < ls \<and> int a \<noteq> rt")
    case True
    show ?thesis
    proof (cases "\<exists>i \<in> set av. sc ! i < sc ! a \<and> int i \<noteq> rt")
      case a: True
      from Cons.IH [OF a, of "int a"] True show ?thesis by auto
    next
      case False
      then have "fold ?f av (int a, sc ! a) = (int a, sc ! a)" by (induction av) auto
      then show ?thesis using True by simp
    qed
  next
    case False
    then have "\<exists>i \<in> set av. sc ! i < ls \<and> int i \<noteq> rt" using Cons.prems by auto
    from Cons.IH [OF this, of lt] False show ?thesis by auto
  qed
qed simp

lemma few_players:
  assumes "registry_ok s"
  shows "NumPlayers s \<le> 256"
proof -
  let ?id = "\<lambda>p. p_id (plr_at s p)"
  have "?id ` set (playing s) \<subseteq> {1..256}" using player_id_range [OF assms] by auto
  then have "card (?id ` set (playing s)) \<le> card {1..256::int}" by (intro card_mono) simp_all
  moreover have "card (?id ` set (playing s)) = card (set (playing s))" using assms by (intro card_image) (simp add: registry_ok_def)
  moreover have "card (set (playing s)) = NumPlayers s"
    using distinct_card [OF distinct_playing [OF assms]] assms by (simp add: playing_def registry_ok_def)
  ultimately show ?thesis by simp
qed

lemma find_available_ok:
  assumes "play_ok s"
  obtains r where "Team_find_available PL_TYPE_HUMAN s = Some r" "case r of None \<Rightarrow> True | Some t \<Rightarrow> has_room s t"
proof -
  let ?fb = "map (\<lambda>i. free_bases s (teams s ! i)) [0..<MAX_TEAMS]"
  obtain pl pt sc where c: "count_playing s (playing s) (replicate MAX_TEAMS 0, 0, replicate MAX_TEAMS 0) = Some (pl, pt, sc)"
    "\<forall>k < MAX_TEAMS. sc ! k \<le> 0 + int (length (playing s)) * 2 ^ 22"
    using count_playing_ok [OF assms order_refl, of "replicate MAX_TEAMS 0" "replicate MAX_TEAMS 0" 0 0] by auto
  have "length (playing s) \<le> 256" using few_players [OF play_okD(1) [OF assms]] by (simp add: playing_def)
  then have "int (length (playing s)) * 2 ^ 22 \<le> 256 * 2 ^ 22" by simp
  then have small: "sc ! k < 2147483647" if "k < MAX_TEAMS" for k using c(2) [rule_format, OF that] by simp
  define av where "av = available_teams pl pt ?fb (int (NumPlayers s))"
  have run: "Team_find_available PL_TYPE_HUMAN s = (case av of [] \<Rightarrow> Some None | [i] \<Rightarrow> Some (Some i)
     | _ \<Rightarrow> if fst (losing_team sc (robotTeam s) av) < 0 then None else Some (Some (nat (fst (losing_team sc (robotTeam s) av)))))"
    unfolding av_def Team_find_available_def Let_def by (simp add: c(1))
  have room: "has_room s i" if "i \<in> set av" for i
  proof -
    have i: "i < MAX_TEAMS" "free_bases s (teams s ! i) > 0" using available_ok that by (fastforce simp: av_def)+
    have "t_Properties (teams s ! i) \<noteq> TEAM_ONLY_PAUSERS" using i(2) by (auto simp: free_bases_def)
    then have "i \<noteq> PAUSE_TEAM_NUM" using play_okD(7) [OF assms] by (auto simp: teams_ok_def)
    then show ?thesis using i by (auto simp: has_room_def free_bases_def split: if_splits)
  qed
  show ?thesis
  proof (cases av rule: list.exhaust [case_names Nil Cons])
    case Nil
    then show ?thesis using that [of None] run by simp
  next
    case (Cons a as)
    show ?thesis
    proof (cases as)
      case Nil
      then show ?thesis using that [of "Some a"] run Cons room by simp
    next
      case two: (Cons b bs)
      have "distinct av" by (simp add: av_def available_teams_def Let_def)
      then have "a \<noteq> b" using Cons two by simp
      then have "\<exists>i \<in> set av. int i \<noteq> robotTeam s" using Cons two by (cases "int a = robotTeam s") auto
      then have "\<exists>i \<in> set av. sc ! i < 2147483647 \<and> int i \<noteq> robotTeam s" using small room by (auto simp: has_room_def)
      from losing_team_ok [OF this, of "- 1"] obtain i where i: "i \<in> set av" "fst (losing_team sc (robotTeam s) av) = int i"
        by (auto simp: losing_team_def)
      have "Team_find_available PL_TYPE_HUMAN s = Some (Some i)" unfolding run using Cons two i(2) by simp
      then show ?thesis using that [of "Some i"] room [OF i(1)] by simp
    qed
  qed
qed

lemma Player_unpause_ok:
  assumes "play_ok s" "p \<in> set (playing s)" "\<And>t. team = Some t \<Longrightarrow> has_room s t"
  obtains s' where "Player_unpause d p team s = Some s'" "kept_by p s s'"
proof -
  have k: "kept_by p s s" by (rule kept_like [OF assms(1) like_refl assms(2)])
  obtain r where r: "(case team of Some t \<Rightarrow> Some (Some t) | None \<Rightarrow> Team_find_available PL_TYPE_HUMAN s) = Some r"
    "case r of None \<Rightarrow> True | Some t \<Rightarrow> has_room s t"
  proof (cases team)
    case None
    obtain r where "Team_find_available PL_TYPE_HUMAN s = Some r" "case r of None \<Rightarrow> True | Some t \<Rightarrow> has_room s t"
      using find_available_ok [OF assms(1)] by blast
    then show ?thesis using that None by simp
  next
    case (Some t)
    then show ?thesis using that [of "Some t"] assms(3) by simp
  qed
  show ?thesis
  proof (cases "Player_is_paused (plr_at s p) \<and> p_pause_count (plr_at s p) \<le> 0 \<and> r \<noteq> None")
    case False
    then have "Player_unpause d p team s = Some s" using r(1) by (auto simp: Player_unpause_def)
    then show ?thesis using that k by blast
  next
    case True
    then obtain t where t: "r = Some t" by blast
    then have room: "t < MAX_TEAMS" "t \<noteq> PAUSE_TEAM_NUM" "\<exists>h. free_base s (Some t) h" using r(2) room_base [OF assms(1)] by (auto simp: has_room_def)
    obtain s1 h where s1: "Player_swap_team d p t s = Some s1" "moved p t h s s1"
      "\<And>s2. moved p t h s s2 \<Longrightarrow>
       play_ok (s2\<lparr>NumPaused := NumPaused s2 + of_bool (t = PAUSE_TEAM_NUM) - of_bool (Player_is_paused (plr_at s p))\<rparr>)"
      using Player_swap_team_play_ok [OF assms(1,2) room(1)] room(3) by blast
    define s2 where "s2 = s1\<lparr>NumPaused := NumPaused s1 - 1\<rparr>"
    have ok2: "play_ok s2" using s1(3) [OF s1(2)] room(2) True by (simp add: s2_def)
    have q: "quiet s2 (s2\<lparr>num_unpause := num_unpause s1 + 1\<rparr>)" by simp
    have "kept_by p s (s2\<lparr>num_unpause := num_unpause s1 + 1\<rparr>)"
      by (rule kept_like [OF play_ok_quiet [OF ok2 q] like_trans [OF _ quiet_like [OF q]] assms(2)])
        (unfold s2_def, rule quiet_NumPaused [OF moved_data(1) [OF s1(2)]])
    moreover have "Player_unpause d p team s = Some (s2\<lparr>num_unpause := num_unpause s1 + 1\<rparr>)"
      using True r(1) t s1(1) by (simp add: Player_unpause_def s2_def)
    ultimately show ?thesis using that by blast
  qed
qed

subsection \<open>Two players change places\<close>

lemma headcount_two:
  assumes "registry_ok s" "registry_ok s'" "p1 \<in> set (playing s)" "p2 \<in> set (playing s)" "p1 \<noteq> p2" "playing s' = playing s"
    "\<And>q. q \<noteq> p1 \<Longrightarrow> q \<noteq> p2 \<Longrightarrow> Q (plr_at s' q) = Q (plr_at s q)"
  shows "headcount Q s' = headcount Q s - of_bool (Q (plr_at s p1)) - of_bool (Q (plr_at s p2)) +
    of_bool (Q (plr_at s' p1)) + of_bool (Q (plr_at s' p2))"
proof -
  let ?f = "\<lambda>q. of_bool (Q (plr_at s q)) :: int" and ?g = "\<lambda>q. of_bool (Q (plr_at s' q)) :: int" and ?A = "set (playing s)"
  have two: "sum h ?A = h p1 + (h p2 + sum h (?A - {p1} - {p2}))" for h :: "nat \<Rightarrow> int"
    using assms(3-5) by (simp add: sum.remove [of ?A p1] sum.remove [of "?A - {p1}" p2])
  have "sum ?g (?A - {p1} - {p2}) = sum ?f (?A - {p1} - {p2})" using assms(7) by (intro sum.cong) auto
  then show ?thesis
    unfolding headcount_sum [OF assms(1)] headcount_sum [OF assms(2)] assms(6) using two [of ?f] two [of ?g] by linarith
qed

lemma set_entry_state_ok:
  assumes "p < length (playerArray s)" "p_team (plr_at s p) = Some t" "t_Num (teams s ! t) = int t"
  obtains s' where "set_entry_state p s = Some s'" "like s s'" "teams s' = teams s" "NumPaused s' = NumPaused s"
    "\<And>q. q \<noteq> p \<Longrightarrow> seat (plr_at s' q) = seat (plr_at s q)" "p_team (plr_at s' p) = p_team (plr_at s p)"
    "p_home (plr_at s' p) = p_home (plr_at s p)" "Player_is_paused (plr_at s' p) \<longleftrightarrow> t = PAUSE_TEAM_NUM"
proof -
  define st where "st = Player_compute_entry_state p t s"
  let ?s = "upd_plr p (set_state (RECOVERY_DELAY_TICKS s) st) s"
  have "set_entry_state p s = Some ?s" using assms(2) by (simp add: set_entry_state_def Player_set_state_def st_def)
  moreover have "like s ?s" by (rule like_upd_plr) simp_all
  moreover have "teams ?s = teams s" "NumPaused ?s = NumPaused s" by (simp_all add: upd_plr_def)
  moreover have "st = PL_STATE_PAUSED \<longleftrightarrow> t = PAUSE_TEAM_NUM" unfolding st_def by (rule entry_paused [OF assms(3)])
  ultimately show ?thesis using assms(1) by (intro that [of ?s]) (simp_all add: plr_at_upd Player_is_paused_def)
qed

lemma Players_swap_teams_ok:
  assumes "play_ok s" "p1 \<in> set (playing s)" "p2 \<in> set (playing s)" "p1 \<noteq> p2" "p_type (plr_at s p1) = p_type (plr_at s p2)"
  obtains s' where "Players_swap_teams p1 p2 s = Some s'" "play_ok s'" "like s s'"
proof -
  let ?x1 = "plr_at s p1" and ?x2 = "plr_at s p2"
  have p: "p1 < length (playerArray s)" "p2 < length (playerArray s)" using play_okD(11) [OF assms(1)] assms(2,3) by simp_all
  have so: "seat_ok (bases s) ?x1" "seat_ok (bases s) ?x2" using play_okD(10) [OF assms(1)] assms(2,3) by simp_all
  obtain t1 t2 where t: "p_team ?x1 = Some t1" "p_team ?x2 = Some t2" "t1 < MAX_TEAMS" "t2 < MAX_TEAMS"
    "Player_is_paused ?x1 \<longleftrightarrow> t1 = PAUSE_TEAM_NUM" "Player_is_paused ?x2 \<longleftrightarrow> t2 = PAUSE_TEAM_NUM"
    using so unfolding seat_ok_def by blast
  define s4 where "s4 = upd_plr p1 (\<lambda>x. x\<lparr>p_team := p_team ?x2, p_home := p_home ?x2\<rparr>) (upd_plr p2 (\<lambda>x. x\<lparr>p_team := p_team ?x1, p_home := p_home ?x1\<rparr>) s)"
  have l4: "like s s4"
    unfolding s4_def by (rule like_trans [OF like_upd_plr like_upd_plr]) (auto simp: fixed_def plr_refs_def player_is_defs)
  have at4: "plr_at s4 q = (if q = p1 then ?x1\<lparr>p_team := p_team ?x2, p_home := p_home ?x2\<rparr>
      else if q = p2 then ?x2\<lparr>p_team := p_team ?x1, p_home := p_home ?x1\<rparr> else plr_at s q)" for q
    using p assms(4) by (simp add: s4_def upd_plr_def)
  have start: "upd_plr p1 (\<lambda>x. x\<lparr>p_home := p_home ?x2\<rparr>) (upd_plr p2 (\<lambda>x. x\<lparr>p_home := p_home (plr_at (upd_plr p1 (\<lambda>x. x\<lparr>p_team := p_team ?x2\<rparr>)
      (upd_plr p2 (\<lambda>x. x\<lparr>p_team := p_team ?x1\<rparr>) s)) p1)\<rparr>) (upd_plr p1 (\<lambda>x. x\<lparr>p_team := p_team ?x2\<rparr>) (upd_plr p2 (\<lambda>x. x\<lparr>p_team := p_team ?x1\<rparr>) s))) = s4"
    using p assms(4) by (simp add: s4_def upd_plr_def list_update_swap)
  have lb4: "live_bound s4" "p1 < length (playerArray s4)" using play_okD(5) [OF assms(1)] p(1) l4 by (simp_all add: live_bound_def like_fields like_data)
  have q4: "quiet s4 (Ball_detach p1 None s4)" by (rule quiet_Ball_detach [OF lb4])
  define s5 where "s5 = Ball_detach p2 None (Ball_detach p1 None s4)"
  have "live_bound (Ball_detach p1 None s4)" "p2 < length (playerArray (Ball_detach p1 None s4))"
    using lb4 p(2) l4 quiet_like [OF q4] by (simp_all add: live_bound_def like_fields like_data)
  then have q5: "quiet s4 s5" unfolding s5_def by (rule quiet_trans [OF q4 quiet_Ball_detach])
  have l5: "like s s5" by (rule like_trans [OF l4 quiet_like [OF q5]])
  have num: "t_Num (teams u ! k) = int k" if "like s u" "k < MAX_TEAMS" for u k
    using teams_like [OF that(1) play_okD(7) [OF assms(1)]] that(2) by (simp add: teams_ok_def)
  have seat5: "seat (plr_at s5 q) = seat (plr_at s4 q)" for q by (rule quiet_data(1) [OF q5])
  have "p_team (plr_at s5 p1) = Some t2" "p1 < length (playerArray s5)" "t_Num (teams s5 ! t2) = int t2"
    using seat5 [of p1] t(2) num [OF l5 t(4)] p(1) like_data(1) [OF l5] by (simp_all add: seat_def at4)
  then obtain s6 where s6: "set_entry_state p1 s5 = Some s6" "like s5 s6" "teams s6 = teams s5" "NumPaused s6 = NumPaused s5"
    "\<And>q. q \<noteq> p1 \<Longrightarrow> seat (plr_at s6 q) = seat (plr_at s5 q)" "p_team (plr_at s6 p1) = p_team (plr_at s5 p1)"
    "p_home (plr_at s6 p1) = p_home (plr_at s5 p1)" "Player_is_paused (plr_at s6 p1) \<longleftrightarrow> t2 = PAUSE_TEAM_NUM"
    using set_entry_state_ok by metis
  have l6: "like s s6" by (rule like_trans [OF l5 s6(2)])
  have "p_team (plr_at s6 p2) = Some t1" "p2 < length (playerArray s6)" "t_Num (teams s6 ! t1) = int t1"
    using s6(5) [of p2] seat5 [of p2] assms(4) t(1) num [OF l6 t(3)] p(2) like_data(1) [OF l6] by (simp_all add: seat_def at4)
  then obtain s7 where s7: "set_entry_state p2 s6 = Some s7" "like s6 s7" "teams s7 = teams s6" "NumPaused s7 = NumPaused s6"
    "\<And>q. q \<noteq> p2 \<Longrightarrow> seat (plr_at s7 q) = seat (plr_at s6 q)" "p_team (plr_at s7 p2) = p_team (plr_at s6 p2)"
    "p_home (plr_at s7 p2) = p_home (plr_at s6 p2)" "Player_is_paused (plr_at s7 p2) \<longleftrightarrow> t1 = PAUSE_TEAM_NUM"
    using set_entry_state_ok by metis
  have l7: "like s s7" by (rule like_trans [OF l6 s7(2)])
  define s8 where "s8 = announce [Note_player p1 (PL_SEND_GENERAL OR PL_SEND_BASE), Note_player p2 (PL_SEND_GENERAL OR PL_SEND_BASE)] s7"
  have run: "Players_swap_teams p1 p2 s = Some s8"
    unfolding Players_swap_teams_def Let_def start s5_def [symmetric] s6(1) bind.simps s7(1) s8_def by simp
  have seat7: "seat (plr_at s7 q) = seat (plr_at s q)" if "q \<noteq> p1" "q \<noteq> p2" for q
    using s7(5) [OF that(2)] s6(5) [OF that(1)] seat5 [of q] that by (simp add: at4)
  have y1: "p_team (plr_at s7 p1) = p_team ?x2" "p_home (plr_at s7 p1) = p_home ?x2" "Player_is_paused (plr_at s7 p1) = Player_is_paused ?x2"
    using s7(5) [OF assms(4)] s6(6-8) seat5 [of p1] t(6) by (simp_all add: seat_def at4 Player_is_paused_def)
  have y2: "p_team (plr_at s7 p2) = p_team ?x1" "p_home (plr_at s7 p2) = p_home ?x1" "Player_is_paused (plr_at s7 p2) = Player_is_paused ?x1"
    using s7(6-8) s6(5) [OF assms(4) [symmetric]] seat5 [of p2] t(5) assms(4) by (simp_all add: seat_def at4)
  have robot: "Player_is_robot ?x1 = Player_is_robot ?x2" "Player_is_robot (plr_at s7 p1) = Player_is_robot ?x2" "Player_is_robot (plr_at s7 p2) = Player_is_robot ?x2"
    "p_oper (plr_at s7 p1) = p_oper ?x1" "p_oper (plr_at s7 p2) = p_oper ?x2"
    using assms(5) like_data(4) [OF l7, of p1] like_data(4) [OF l7, of p2] by (simp_all add: fixed_def player_is_defs)
  note reg = play_okD(1) [OF assms(1)]
  have same: "Q (plr_at s7 q) = Q (plr_at s q)" if "by_ident Q" "q \<noteq> p1" "q \<noteq> p2" for Q q
    by (rule by_identD [OF that(1) ident_cong [OF seat7 [OF that(2,3)] like_data(4) [OF l7]]])
  have count: "headcount Q s7 = headcount Q s" if "by_ident Q"
    "(of_bool (Q (plr_at s7 p1)) + of_bool (Q (plr_at s7 p2)) :: int) = of_bool (Q ?x1) + of_bool (Q ?x2)" for Q
    using headcount_two [OF reg registry_like [OF l7 reg] assms(2-4) like_fields(13) [OF l7], of Q] same [OF that(1)] that(2) by simp
  have team7: "t_NumMembers (teams s7 ! k) = t_NumMembers (teams s ! k)" "t_NumRobots (teams s7 ! k) = t_NumRobots (teams s ! k)" if "k < length (teams s)" for k
  proof -
    have "teams s4 = teams s" by (simp add: s4_def upd_plr_def)
    then show "t_NumMembers (teams s7 ! k) = t_NumMembers (teams s ! k)" "t_NumRobots (teams s7 ! k) = t_NumRobots (teams s ! k)"
      using that quiet_data(3,4) [OF q5, of k] by (simp_all add: s7(3) s6(3))
  qed
  have paused7: "NumPaused s7 = NumPaused s" using quiet_data(2) [OF q5] by (simp add: s7(4) s6(4) s4_def upd_plr_def)
  have it: "in_team k (plr_at s7 p1) = in_team k ?x2" "in_team k (plr_at s7 p2) = in_team k ?x1" for k
    using y1(1) y2(1) by (simp_all add: in_team_def)
  have "counts_ok s7"
    using play_okD(3) [OF assms(1)] paused7 like_fields(9,10) [OF l7] like_data(2) [OF l7]
    by (simp add: counts_ok_def count y1(3) y2(3) robot it team7)
  moreover have "homes_distinct s7"
  proof -
    define f where "f q = (if q = p1 then p2 else if q = p2 then p1 else q)" for q
    have f: "f q \<in> set (playing s)" if "q \<in> set (playing s)" for q using that assms(2,3) by (simp add: f_def)
    have inj: "f a = f b \<Longrightarrow> a = b" for a b using assms(4) by (auto simp: f_def split: if_splits)
    have home: "p_home (plr_at s7 q) = p_home (plr_at s (f q))" for q
      using seat7 [of q] y1(2) y2(2) by (simp add: seat_def f_def)
    show ?thesis unfolding homes_distinct_def like_fields(13) [OF l7] home
    proof (intro ballI impI)
      fix a b assume ab: "a \<in> set (playing s)" "b \<in> set (playing s)" "p_home (plr_at s (f a)) \<noteq> None" "p_home (plr_at s (f a)) = p_home (plr_at s (f b))"
      then have "f a = f b" using play_okD(8) [OF assms(1)] f [OF ab(1)] f [OF ab(2)] unfolding homes_distinct_def by blast
      then show "a = b" by (rule inj)
    qed
  qed
  moreover have "seat_ok (bases s) (plr_at s7 q)" if q: "q \<in> set (playing s)" for q
  proof -
    have other: "seat_ok (bases s) y" if "seat_ok (bases s) a" "seat_ok (bases s) b" "p_team y = p_team a" "p_home y = p_home a"
      "Player_is_paused y = Player_is_paused a" "fixed y = fixed b" for y a b
    proof -
      have e: "p_connp y = p_connp b" "Player_is_human y = Player_is_human b" "Player_is_robot y = Player_is_robot b" "p_score y = p_score b" "p_name y = p_name b"
        using that(6) by (simp_all add: fixed_def player_is_defs)
      show ?thesis using that(1,2) unfolding seat_ok_def that(3-5) e by blast
    qed
    consider "q = p1" | "q = p2" | "q \<noteq> p1" "q \<noteq> p2" by blast
    then show ?thesis
    proof cases
      case 1
      then show ?thesis using other [OF so(2,1) y1 like_data(4) [OF l7]] by simp
    next
      case 2
      then show ?thesis using other [OF so y2 like_data(4) [OF l7]] by simp
    next
      case 3
      then show ?thesis using seat_ok_cong [OF seat7 [OF 3] like_data(4) [OF l7]] play_okD(10) [OF assms(1) q] by blast
    qed
  qed
  ultimately have "play_ok s7" by (rule play_ok_like [OF assms(1) l7])
  moreover have "quiet s7 s8" by (simp add: s8_def)
  ultimately show ?thesis using that [OF run] play_ok_quiet like_trans [OF l7 quiet_like] by blast
qed

subsection \<open>The command\<close>

lemma quiet_teams:
  assumes "length T = length (teams s)"
    "\<And>k. k < length (teams s) \<Longrightarrow> \<exists>w. T ! k = (teams s ! k)\<lparr>t_Swapper := w\<rparr> \<and>
       (\<forall>q. w = Some q \<longrightarrow> t_Swapper (teams s ! k) = Some q \<or> q \<in> set (playing s) \<and> Player_is_human (plr_at s q))"
  shows "quiet s (s\<lparr>teams := T\<rparr>)"
proof (rule like_kept)
  have T: "fixed_team (T ! k) = fixed_team (teams s ! k) \<and> t_NumMembers (T ! k) = t_NumMembers (teams s ! k) \<and> t_NumRobots (T ! k) = t_NumRobots (teams s ! k) \<and>
     (\<forall>q. t_Swapper (T ! k) = Some q \<longrightarrow> t_Swapper (teams s ! k) = Some q \<or> q \<in> set (playing s) \<and> Player_is_human (plr_at s q))"
    if "k < length (teams s)" for k
    using assms(2) [OF that] by (auto simp: fixed_team_def)
  then show "like s (s\<lparr>teams := T\<rparr>)" using assms(1) by (simp add: like_def)
  show "t_NumMembers (teams (s\<lparr>teams := T\<rparr>) ! k) = t_NumMembers (teams s ! k) \<and> t_NumRobots (teams (s\<lparr>teams := T\<rparr>) ! k) = t_NumRobots (teams s ! k)"
    if "k < length (teams s)" for k using T [OF that] by simp
qed simp_all

lemma kept_swap:
  assumes "play_ok s" "p \<in> set (playing s)" "q \<in> set (playing s)" "p \<noteq> q" "Player_is_human (plr_at s p)" "Player_is_human (plr_at s q)"
  obtains s' where "Players_swap_teams p q s = Some s'" "kept_by p s s'"
proof -
  have "p_type (plr_at s p) = p_type (plr_at s q)" using assms(5,6) by (simp add: player_is_defs)
  from Players_swap_teams_ok [OF assms(1-4) this] obtain s' where "Players_swap_teams p q s = Some s'" "play_ok s'" "like s s'" by blast
  then show ?thesis using that kept_like assms(2) by blast
qed

lemma find_mem: "find P xs = Some q \<Longrightarrow> P q \<and> q \<in> set xs"
  by (induction xs) (auto split: if_splits)

lemma swap_paused_ok:
  assumes "play_ok s" "p \<in> set (playing s)" "Player_is_human (plr_at s p)" "p_team (plr_at s p) \<noteq> Some t"
  obtains s' where "swap_paused p t s = Some (True, s')" "kept_by p s s'"
proof (cases "find (\<lambda>q. p_connp (plr_at s q) \<noteq> None \<and> Player_is_paused (plr_at s q) \<and> p_team (plr_at s q) = Some t) (rev (playing s))")
  case None
  have "quiet s (upd_team t (\<lambda>x. x\<lparr>t_Swapper := Some p\<rparr>) s)"
    unfolding upd_team_def
  proof (rule quiet_teams)
    fix k assume k: "k < length (teams s)"
    have "(teams s ! k)\<lparr>t_Swapper := t_Swapper (teams s ! k)\<rparr> = teams s ! k" by simp
    then show "\<exists>w. (teams s)[t := (teams s ! t)\<lparr>t_Swapper := Some p\<rparr>] ! k = (teams s ! k)\<lparr>t_Swapper := w\<rparr> \<and>
       (\<forall>q. w = Some q \<longrightarrow> t_Swapper (teams s ! k) = Some q \<or> q \<in> set (playing s) \<and> Player_is_human (plr_at s q))"
      using assms(2,3) k by (cases "k = t") (force, metis nth_list_update_neq)
  qed simp
  then have "kept_by p s (upd_team t (\<lambda>x. x\<lparr>t_Swapper := Some p\<rparr>) s)"
    using kept_like [OF play_ok_quiet [OF assms(1)] quiet_like assms(2)] by blast
  then show ?thesis using that None by (simp add: swap_paused_def)
next
  case (Some q)
  have q: "p_connp (plr_at s q) \<noteq> None" "p_team (plr_at s q) = Some t" "q \<in> set (playing s)" using find_mem [OF Some] by auto
  have "Player_is_human (plr_at s q)" using play_okD(10) [OF assms(1) q(3)] q(1) by (simp add: seat_ok_def)
  moreover have "p \<noteq> q" using assms(4) q(2) by auto
  ultimately obtain s' where "Players_swap_teams p q s = Some s'" "kept_by p s s'" using kept_swap [OF assms(1,2) q(3) _ assms(3)] by blast
  then show ?thesis using that Some by (simp add: swap_paused_def)
qed

lemma team_request_ok:
  assumes "play_ok s" "p \<in> set (playing s)" "Player_is_human (plr_at s p)" "\<not> (Player_is_paused (plr_at s p) \<and> team = int PAUSE_TEAM_NUM)"
  obtains b s' where "team_request d p team s = Some (b, s')" "kept_by p s s'"
proof -
  let ?x = "plr_at s p"
  obtain own where own: "p_team ?x = Some own" "own < MAX_TEAMS" "Player_is_paused ?x \<longleftrightarrow> own = PAUSE_TEAM_NUM"
    using play_okD(10) [OF assms(1,2)] by (auto simp: seat_ok_def)
  define u where "u = s\<lparr>teams := map (\<lambda>t. if t_Swapper t = Some p then t\<lparr>t_Swapper := None\<rparr> else t) (teams s)\<rparr>"
  have q: "quiet s u"
    unfolding u_def
  proof (rule quiet_teams)
    fix k assume k: "k < length (teams s)"
    have same: "(teams s ! k)\<lparr>t_Swapper := t_Swapper (teams s ! k)\<rparr> = teams s ! k" by simp
    show "\<exists>w. map (\<lambda>t. if t_Swapper t = Some p then t\<lparr>t_Swapper := None\<rparr> else t) (teams s) ! k = (teams s ! k)\<lparr>t_Swapper := w\<rparr> \<and>
       (\<forall>q. w = Some q \<longrightarrow> t_Swapper (teams s ! k) = Some q \<or> q \<in> set (playing s) \<and> Player_is_human (plr_at s q))"
    proof (cases "t_Swapper (teams s ! k) = Some p")
      case True
      then show ?thesis using k by (intro exI [of _ None]) simp
    next
      case False
      then show ?thesis using k same by (intro exI [of _ "t_Swapper (teams s ! k)"]) simp
    qed
  qed simp
  have ok: "play_ok u" "p \<in> set (playing u)" "plr_at u = plr_at s" "playing u = playing s" "rules_mode u = rules_mode s"
    using play_ok_quiet [OF assms(1) q] assms(2) by (simp_all add: u_def playing_def)
  have ku: "kept_by p s u" by (rule kept_like [OF ok(1) quiet_like [OF q] assms(2)])
  have kk: "kept_by p u u" by (rule kept_like [OF ok(1) like_refl ok(2)])
  have "\<exists>b s'. team_request d p team s = Some (b, s') \<and> (s' = s \<or> kept_by p u s')"
  proof (cases "has_bit (rules_mode s) TEAM_PLAY")
    case False
    then show ?thesis by (intro exI [of _ False] exI [of _ s]) (simp add: team_request_def)
  next
    case play: True
    show ?thesis
    proof (cases "Team_get_by_id team")
      case None
      then show ?thesis using play own(1) kk
        by (intro exI [of _ False] exI [of _ u]) (simp add: team_request_def Let_def u_def [symmetric])
    next
      case (Some t)
      then have t: "t < MAX_TEAMS" "team = int t" by (auto simp: Team_get_by_id_def split: if_splits)
      have num: "t_Num (teams u ! t) = int t" using play_okD(7) [OF ok(1)] t(1) by (simp add: teams_ok_def)
      obtain far where far: "(if t_Num (teams u ! t) = int PAUSE_TEAM_NUM
         then do { near \<leftarrow> Player_is_close_to_base p u; Some (\<not> (near \<or> Player_is_waiting (plr_at u p) \<or> Player_is_dead (plr_at u p))) }
         else Some False) = Some far"
      proof (cases "t = PAUSE_TEAM_NUM")
        case True
        then have "\<not> Player_is_paused (plr_at u p)" using assms(4) t(2) ok(3) by simp
        then obtain h where "p_home (plr_at u p) = Some h" using home_of_active [OF ok(1,2)] by blast
        then show ?thesis using that True num by (simp add: Player_is_close_to_base_def Let_def)
      qed (use that num in simp)
      let ?early = "far \<or> t = own \<or> t_NumBases (teams u ! t) = 0 \<or> reserveRobotTeam u \<and> t_Num (teams u ! t) = robotTeam u"
      let ?free = "Player_is_waiting (plr_at u p) \<or> Object_count_treasures_missing (Some own) u = 0 \<or>
                           Team_count_active_players (Some own) u = Team_count_active_players None u"
      have run: "team_request d p team s =
          (if ?early then Some (False, u)
           else if t_NumBases (teams u ! t) \<le> t_NumMembers (teams u ! t) then
             (case t_Swapper (teams u ! own) of
                Some q \<Rightarrow> if p_team (plr_at u q) = Some t then map_option (Pair True) (Players_swap_teams p q u) else swap_paused p t u
              | None \<Rightarrow> swap_paused p t u)
           else case t_Swapper (teams u ! own) of
             Some q \<Rightarrow> map_option (Pair True) (Players_swap_teams p q u)
           | None \<Rightarrow>
               if Player_is_paused (plr_at u p) then map_option (Pair True) (Player_unpause d p (Some t) u)
               else if t_Num (teams u ! t) = int PAUSE_TEAM_NUM then map_option (Pair True) (Player_pause_self d p u)
               else if ?free then map_option (Pair True) (Player_swap_team d p t u) else Some (True, u))"
        using play own(1) Some far by (simp add: team_request_def Let_def u_def [symmetric])
      have swapper: "\<exists>s'. Players_swap_teams p q u = Some s' \<and> kept_by p u s'" if q: "t_Swapper (teams u ! own) = Some q" for q
      proof -
        have o: "own < length (teams u)" using own(2) play_okD(12) [OF ok(1)] by simp
        then have "teams u ! own \<in> set (teams u)" by simp
        then have "q \<in> set (playing u)" using q play_okD(2) [OF ok(1)] unfolding refs_ok_def by blast
        moreover have "Player_is_human (plr_at u q)" using q play_okD(7) [OF ok(1)] own(2) unfolding teams_ok_def by blast
        moreover have "p \<noteq> q" using q o by (auto simp: u_def split: if_splits)
        ultimately show ?thesis using kept_swap [OF ok(1,2)] assms(3) ok(3) by metis
      qed
      show ?thesis
      proof (cases ?early)
        case True
        then show ?thesis unfolding run using kk by auto
      next
        case early: False
        show ?thesis
        proof (cases "t_Swapper (teams u ! own)")
          case Sw: (Some q)
          obtain s1 where s1: "Players_swap_teams p q u = Some s1" "kept_by p u s1" using swapper [OF Sw] by blast
          obtain s2 where s2: "swap_paused p t u = Some (True, s2)" "kept_by p u s2"
            using swap_paused_ok [OF ok(1,2)] assms(3) own(1) early ok(3) by (metis option.inject)
          show ?thesis unfolding run using early Sw s1 s2 by auto
        next
          case No: None
          obtain s2 where s2: "swap_paused p t u = Some (True, s2)" "kept_by p u s2"
            using swap_paused_ok [OF ok(1,2)] assms(3) own(1) early ok(3) by (metis option.inject)
          show ?thesis
          proof (cases "t_NumBases (teams u ! t) \<le> t_NumMembers (teams u ! t)")
            case True
            then show ?thesis unfolding run using early No s2 by auto
          next
            case space: False
            have room: "has_room u t" if "t \<noteq> PAUSE_TEAM_NUM" using that space t(1) by (simp add: has_room_def)
            show ?thesis
            proof (cases "Player_is_paused (plr_at u p)")
              case True
              then have "t \<noteq> PAUSE_TEAM_NUM" using early own(3) ok(3) by auto
              from Player_unpause_ok [OF ok(1,2), of "Some t" d] room [OF this] obtain s1 where
                "Player_unpause d p (Some t) u = Some s1" "kept_by p u s1" by blast
              then show ?thesis unfolding run using early No space True by auto
            next
              case active: False
              show ?thesis
              proof (cases "t = PAUSE_TEAM_NUM")
                case True
                obtain s1 where "Player_pause_self d p u = Some s1" "kept_by p u s1" using Player_pause_self_ok [OF ok(1,2) active] by blast
                then show ?thesis unfolding run using early No space active True num by auto
              next
                case False
                obtain s1 h where s1: "Player_swap_team d p t u = Some s1" "moved p t h u s1"
                  "\<And>s2. moved p t h u s2 \<Longrightarrow>
                     play_ok (s2\<lparr>NumPaused := NumPaused s2 + of_bool (t = PAUSE_TEAM_NUM) - of_bool (Player_is_paused (plr_at u p))\<rparr>)"
                  using Player_swap_team_play_ok [OF ok(1,2) t(1)] room_base [OF ok(1) room] False by blast
                have "play_ok s1" using s1(3) [OF s1(2)] False active by simp
                then have "kept_by p u s1" by (rule kept_like [OF _ moved_data(1) [OF s1(2)] ok(2)])
                then show ?thesis unfolding run using early No space active False num s1(1) kk by auto
              qed
            qed
          qed
        qed
      qed
    qed
  qed
  then show ?thesis using that kept_trans [OF ku] kept_like [OF assms(1) like_refl assms(2)] by blast
qed

lemma Cmd_team_ok:
  assumes "play_ok s" "p \<in> set (playing s)" "Player_is_human (plr_at s p)" "\<not> (Player_is_paused (plr_at s p) \<and> team = int PAUSE_TEAM_NUM)"
  obtains b s' where "Cmd_team d p team s = Some (b, s')" "kept_by p s s'"
proof -
  obtain b s1 where r: "team_request d p team s = Some (b, s1)" "kept_by p s s1" using team_request_ok [OF assms] by blast
  define s' where "s' = (if b then s1\<lparr>updateScores := True\<rparr> else s1)"
  have q: "quiet s1 s'" by (simp add: s'_def)
  have "kept_by p s1 s'"
    using r(2) by (intro kept_like [OF play_ok_quiet [OF _ q] quiet_like [OF q]]) (simp_all add: kept_by_def)
  moreover have "Cmd_team d p team s = Some (b, s')" by (simp add: Cmd_team_def r(1) s'_def)
  ultimately show ?thesis using that kept_trans [OF r(2)] by blast
qed

end
