(* ===== verification/Team_Entry.thy ===== *)
theory Team_Entry
  imports Team_Play
begin

text \<open>
  Changing homes, entering and leaving in a team game: what the operations of \<open>Team_Play\<close> keep when a player arrives
  or goes, the queue of clients (\<open>server/contact.c\<close>), and the invariant of all of them together. Shown: from a state
  with the invariant every operation its guards allow returns and keeps it, so a player always has a place; a client
  the queue has let in is seated; and the inputs on which the code fails.
\<close>

subsection \<open>Changing homes\<close>

lemma home_owner:
  assumes "play_ok s" "p_home (plr_at s q) = Some b" "q \<in> set (playing s)"
  shows "Player_owns_base b s = Some q"
proof (cases "Player_owns_base b s")
  case None
  then show ?thesis using assms(2,3) by (auto simp: Player_owns_base_def find_None_iff)
next
  case (Some r)
  then have "p_home (plr_at s r) = Some b" "r \<in> set (playing s)" using find_mem [of _ "playing s" r] by (auto simp: Player_owns_base_def)
  then have "r = q" using play_okD(8) [OF assms(1)] assms(2,3) unfolding homes_distinct_def by (metis option.distinct(1))
  then show ?thesis using Some by simp
qed

text \<open>A change of homes that keeps everybody on bases of his team and no base shared.\<close>

lemma rehome:
  assumes "play_ok s" "like s s'" "NumPaused s' = NumPaused s" "teams s' = teams s"
    "\<And>q. p_team (plr_at s' q) = p_team (plr_at s q) \<and> p_state (plr_at s' q) = p_state (plr_at s q)" "homes_distinct s'"
    "\<And>q. q \<in> set (playing s) \<Longrightarrow> p_home (plr_at s' q) = p_home (plr_at s q) \<or>
       (\<exists>h t. p_home (plr_at s' q) = Some h \<and> h < length (bases s) \<and> b_team (bases s ! h) = Some t \<and> p_team (plr_at s q) = Some t \<and>
          \<not> Player_is_paused (plr_at s q))"
  shows "play_ok s'"
proof (rule play_ok_like [OF assms(1,2) _ assms(6)])
  have same: "Player_is_paused (plr_at s' q) = Player_is_paused (plr_at s q)" "in_team k (plr_at s' q) = in_team k (plr_at s q)"
    "Player_is_robot (plr_at s' q) = Player_is_robot (plr_at s q)" "p_oper (plr_at s' q) = p_oper (plr_at s q)" for q k
    using assms(5) [of q] like_data(4) [OF assms(2), of q] by (simp_all add: Player_is_paused_def in_team_def fixed_def Player_is_robot_def)
  show "counts_ok s'"
    using play_okD(3) [OF assms(1)] like_fields(9,10,13) [OF assms(2)] assms(3,4) by (simp add: counts_ok_def headcount_def same)
  show "seat_ok (bases s) (plr_at s' q)" if q: "q \<in> set (playing s)" for q
  proof -
    have eq: "p_connp (plr_at s' q) = p_connp (plr_at s q)" "Player_is_human (plr_at s' q) = Player_is_human (plr_at s q)"
      "p_score (plr_at s' q) = p_score (plr_at s q)" "p_name (plr_at s' q) = p_name (plr_at s q)" "p_team (plr_at s' q) = p_team (plr_at s q)"
      using like_data(4) [OF assms(2), of q] assms(5) [of q] by (simp_all add: fixed_def Player_is_human_def)
    show ?thesis using play_okD(10) [OF assms(1) q] assms(7) [OF q] unfolding seat_ok_def same eq by fastforce
  qed
qed

lemma announce_last:
  "\<exists>ns. announce m z = z\<lparr>told := ns\<rparr>" "\<exists>ns. announce m (upd_plr p f (announce k z)) = (upd_plr p f z)\<lparr>told := ns\<rparr>"
  by (cases z; simp add: announce_def upd_plr_def; blast)+

lemma Player_change_home_ok:
  assumes "play_ok s" "p \<in> set (playing s)" "\<not> Player_is_paused (plr_at s p)" "b < length (bases s)"
  shows "kept_by p s (Player_change_home p b s)"
proof -
  let ?h = "p_home (plr_at s p)" and ?c = "Player_change_home p b s"
  obtain t where t: "p_team (plr_at s p) = Some t" using play_okD(10) [OF assms(1,2)] by (auto simp: seat_ok_def)
  obtain h where h: "?h = Some h" using home_of_active [OF assms(1-3)] by blast
  have ht: "b_team (bases s ! h) = Some t" "h < length (bases s)" using play_okD(10) [OF assms(1,2)] t h by (auto simp: seat_ok_def)
  have p: "p < length (playerArray s)" by (rule play_okD(11) [OF assms(1,2)])
  have "b_team (bases s ! b) \<noteq> None" using play_okD(7) [OF assms(1)] assms(4) by (simp add: teams_ok_def)
  show ?thesis
  proof (cases "?h = Some b \<or> b_team (bases s ! b) \<noteq> Some t")
    case True
    then have "?c = s" using t \<open>b_team (bases s ! b) \<noteq> None\<close> by (auto simp: Player_change_home_def Let_def)
    then show ?thesis using kept_like [OF assms(1) like_refl assms(2)] by simp
  next
    case False
    define own where "own = Player_owns_base b s"
    define s1 where "s1 = (case own of None \<Rightarrow> s | Some q \<Rightarrow> upd_plr q (\<lambda>x. x\<lparr>p_home := ?h\<rparr>) s)"
    define s2 where "s2 = upd_plr p (\<lambda>x. x\<lparr>p_home := Some b\<rparr>) s1"
    have owner: "q \<in> set (playing s) \<and> q \<noteq> p \<and> p_home (plr_at s q) = Some b" if "own = Some q" for q
    proof -
      have "q \<in> set (playing s)" "p_home (plr_at s q) = Some b"
        using that find_mem [of _ "playing s" q] by (auto simp: own_def Player_owns_base_def)
      then show ?thesis using False by auto
    qed
    have l1: "like s s1" unfolding s1_def
      by (auto split: option.split intro!: like_upd_plr simp: fixed_def plr_refs_def player_is_defs)
    have l2: "like s s2" unfolding s2_def
      by (rule like_trans [OF l1 like_upd_plr]) (auto simp: fixed_def plr_refs_def player_is_defs)
    have len: "q < length (playerArray s)" if "own = Some q" for q using owner [OF that] play_okD(11) [OF assms(1)] by blast
    have at1: "plr_at s1 r = (if own = Some r then (plr_at s r)\<lparr>p_home := ?h\<rparr> else plr_at s r)" for r
      using len by (auto simp: s1_def plr_at_upd split: option.splits)
    have at2: "plr_at s2 r = (if r = p then (plr_at s r)\<lparr>p_home := Some b\<rparr> else if own = Some r then (plr_at s r)\<lparr>p_home := ?h\<rparr> else plr_at s r)" for r
      using p like_data(1) [OF l1] owner by (auto simp: s2_def plr_at_upd at1)
    have "play_ok s2"
    proof (rule rehome [OF assms(1) l2])
      show "NumPaused s2 = NumPaused s" "teams s2 = teams s" by (simp_all add: s2_def s1_def upd_plr_def split: option.splits)
      show "p_team (plr_at s2 q) = p_team (plr_at s q) \<and> p_state (plr_at s2 q) = p_state (plr_at s q)" for q by (simp add: at2)
      have none: "p_home (plr_at s r) \<noteq> Some b" if "own = None" "r \<in> set (playing s)" for r
        using that home_owner [OF assms(1) _ that(2)] by (auto simp: own_def)
      show "homes_distinct s2"
        unfolding homes_distinct_def like_fields(13) [OF l2]
      proof (intro ballI impI)
        fix x y assume xy: "x \<in> set (playing s)" "y \<in> set (playing s)" "p_home (plr_at s2 x) \<noteq> None" "p_home (plr_at s2 x) = p_home (plr_at s2 y)"
        have dist: "p_home (plr_at s u) = p_home (plr_at s v) \<Longrightarrow> p_home (plr_at s u) \<noteq> None \<Longrightarrow> u = v" if "u \<in> set (playing s)" "v \<in> set (playing s)" for u v
          using play_okD(8) [OF assms(1)] that unfolding homes_distinct_def by blast
        show "x = y"
        proof (cases own)
          case None
          then show ?thesis using xy dist [OF xy(1,2)] none [OF None xy(1)] none [OF None xy(2)] by (auto simp: at2 split: if_splits)
        next
          case (Some q)
          have home: "p_home (plr_at s2 r) = p_home (plr_at s (if r = p then q else if r = q then p else r))" for r
            using owner [OF Some] Some by (auto simp: at2)
          have "(if x = p then q else if x = q then p else x) = (if y = p then q else if y = q then p else y)"
            using xy owner [OF Some] assms(2) unfolding home by (intro dist) auto
          then show ?thesis using owner [OF Some] by (auto split: if_splits)
        qed
      qed
      show "p_home (plr_at s2 q) = p_home (plr_at s q) \<or> (\<exists>h t. p_home (plr_at s2 q) = Some h \<and> h < length (bases s) \<and>
          b_team (bases s ! h) = Some t \<and> p_team (plr_at s q) = Some t \<and> \<not> Player_is_paused (plr_at s q))" if q: "q \<in> set (playing s)" for q
      proof (cases "own = Some q")
        case True
        then have "q \<noteq> p" "p_home (plr_at s q) = Some b" using owner by blast+
        moreover from this have "p_team (plr_at s q) = Some t" "\<not> Player_is_paused (plr_at s q)"
          using play_okD(10) [OF assms(1) q] False by (auto simp: seat_ok_def)
        ultimately show ?thesis using True h ht by (simp add: at2)
      next
        case no: False
        then show ?thesis using False assms(3,4) t by (auto simp: at2)
      qed
    qed
    then have k2: "kept_by p s s2" by (rule kept_like [OF _ l2 assms(2)])
    have c: "\<exists>ns. ?c = s2\<lparr>told := ns\<rparr>"
    proof -
      have go: "?c = announce [Note_player p PL_SEND_BASE, Note_myself p PL_SEND_BASE] (upd_plr p (\<lambda>x. x\<lparr>p_home := Some b\<rparr>)
         (case own of None \<Rightarrow> s
          | Some q \<Rightarrow> if q \<noteq> p then announce [Note_player q PL_SEND_BASE, Note_myself q PL_SEND_BASE] (upd_plr q (\<lambda>x. x\<lparr>p_home := ?h\<rparr>) s) else s))"
        using False unfolding Player_change_home_def Let_def own_def t by (simp split: option.split)
      show ?thesis
      proof (cases own)
        case None
        show ?thesis unfolding go s2_def s1_def None option.case by (rule announce_last(1))
      next
        case (Some q)
        then have "q \<noteq> p" using owner by blast
        show ?thesis unfolding go s2_def s1_def Some option.case if_P [OF \<open>q \<noteq> p\<close>] by (rule announce_last(2))
      qed
    qed
    then have "quiet s2 ?c" using quiet_fields(1) [of s2] by metis
    then have "kept_by p s2 ?c" using k2 by (intro kept_like [OF play_ok_quiet _] quiet_like) (simp_all add: kept_by_def)
    with k2 show ?thesis by (rule kept_trans)
  qed
qed

subsection \<open>Entering\<close>

text \<open>A new player, last in the list, who is on a team but has no place yet.\<close>

definition joined :: "nat \<Rightarrow> nat \<Rightarrow> gstate \<Rightarrow> gstate \<Rightarrow> bool" where
  "joined p t s s' \<longleftrightarrow> registry_ok s' \<and> playing s' = playing s @ [p] \<and> p \<notin> set (playing s) \<and> (\<forall>q. q \<noteq> p \<longrightarrow> plr_at s' q = plr_at s q) \<and>
     plr_refs (plr_at s' p) = {} \<and> \<not> p_oper (plr_at s' p) \<and> p_team (plr_at s' p) = Some t \<and> p_score (plr_at s' p) = 0 \<and>
     s' = s\<lparr>playerArray := playerArray s', idq := idq s', GetInd := GetInd s', NumPlayers := NumPlayers s + 1,
       NumRobots := NumRobots s + of_bool (Player_is_robot (plr_at s' p)), teams := teams s', game_random := game_random s',
       updateScores := updateScores s', told := told s'\<rparr> \<and>
     length (playerArray s') = length (playerArray s) \<and> length (teams s') = length (teams s) \<and>
     (\<forall>k < length (teams s). fixed_team (teams s' ! k) = fixed_team (teams s ! k) \<and> t_Swapper (teams s' ! k) = t_Swapper (teams s ! k) \<and>
        t_NumMembers (teams s' ! k) = t_NumMembers (teams s ! k) + of_bool (k = t) \<and>
        t_NumRobots (teams s' ! k) = t_NumRobots (teams s ! k) + of_bool (k = t \<and> Player_is_robot (plr_at s' p)))"

lemma joinedD:
  assumes "joined p t s s'"
  shows "registry_ok s'" "playing s' = playing s @ [p]" "p \<notin> set (playing s)" "\<And>q. q \<noteq> p \<Longrightarrow> plr_at s' q = plr_at s q"
    "plr_refs (plr_at s' p) = {}" "\<not> p_oper (plr_at s' p)" "p_team (plr_at s' p) = Some t" "p_score (plr_at s' p) = 0"
    "length (playerArray s') = length (playerArray s)" "length (teams s') = length (teams s)"
    "\<And>k. k < length (teams s) \<Longrightarrow> fixed_team (teams s' ! k) = fixed_team (teams s ! k)"
    "\<And>k. k < length (teams s) \<Longrightarrow> t_Swapper (teams s' ! k) = t_Swapper (teams s ! k)"
    "\<And>k. k < length (teams s) \<Longrightarrow> t_NumMembers (teams s' ! k) = t_NumMembers (teams s ! k) + of_bool (k = t)"
    "\<And>k. k < length (teams s) \<Longrightarrow> t_NumRobots (teams s' ! k) = t_NumRobots (teams s ! k) + of_bool (k = t \<and> Player_is_robot (plr_at s' p))"
    "p < length (playerArray s')"
  using assms playing_less [of s' p] by (simp_all add: joined_def)

lemma joined_frame:
  assumes "joined p t s s'"
  shows "bases s' = bases s" "rules_mode s' = rules_mode s" "robotTeam s' = robotTeam s" "NumPaused s' = NumPaused s"
    "NumOperators s' = NumOperators s" "NumRobots s' = NumRobots s + of_bool (Player_is_robot (plr_at s' p))" "live_objects s' = live_objects s"
    "objArray s' = objArray s" "Players s' = Players s"
proof -
  have eq: "s' = s\<lparr>playerArray := playerArray s', idq := idq s', GetInd := GetInd s', NumPlayers := NumPlayers s + 1,
       NumRobots := NumRobots s + of_bool (Player_is_robot (plr_at s' p)), teams := teams s', game_random := game_random s',
       updateScores := updateScores s', told := told s'\<rparr>" using assms by (simp add: joined_def)
  show "bases s' = bases s" "rules_mode s' = rules_mode s" "robotTeam s' = robotTeam s" "NumPaused s' = NumPaused s"
    "NumOperators s' = NumOperators s" "NumRobots s' = NumRobots s + of_bool (Player_is_robot (plr_at s' p))" "live_objects s' = live_objects s"
    "objArray s' = objArray s" "Players s' = Players s"
    by (subst eq, simp add: live_objects_def)+
qed

lemma joined_old:
  assumes "joined p t s s'" "q \<in> set (playing s)"
  shows "plr_at s' q = plr_at s q"
  by (rule joinedD(4) [OF assms(1)]) (use assms(2) joinedD(3) [OF assms(1)] in blast)

lemma headcount_joined:
  assumes "joined p t s s'"
  shows "headcount Q s' = headcount Q s + of_bool (Q (plr_at s' p))"
proof -
  have "filter (\<lambda>q. Q (plr_at s' q)) (playing s) = filter (\<lambda>q. Q (plr_at s q)) (playing s)"
    by (intro filter_cong) (simp_all add: joined_old [OF assms])
  then show ?thesis by (simp add: headcount_def joinedD(2) [OF assms])
qed

text \<open>With a free base of its team the player completes the game.\<close>

lemma joined_play_ok:
  assumes "play_ok s" "joined p t s s'" "seat_ok (bases s) (plr_at s' p)" "p_home (plr_at s' p) = Some h" "free_base s (Some t) h"
    "Player_is_robot (plr_at s' p) \<Longrightarrow> p_robot_data (plr_at s' p) \<noteq> None" "rng_ok (game_random s')"
  shows "play_ok s'"
proof -
  note j = joinedD [OF assms(2)] and f = joined_frame [OF assms(2)]
  have mem: "set (playing s') = insert p (set (playing s))" by (simp add: j(2))
  have old: "plr_at s' q = plr_at s q" if "q \<in> set (playing s)" for q by (rule joined_old [OF assms(2) that])
  have active: "\<not> Player_is_paused (plr_at s' p)" using assms(3,4) by (auto simp: seat_ok_def)
  have refs: "refs_ok s'"
    unfolding refs_ok_def mem f(7,8)
  proof (intro conjI ballI allI impI)
    show "plr_refs (plr_at s' q) \<subseteq> insert p (set (playing s))" if "q \<in> insert p (set (playing s))" for q
      using that j(5) old [of q] play_okD(2) [OF assms(1)] unfolding refs_ok_def by (cases "q = p") auto
    show "q \<in> insert p (set (playing s))" if x: "x \<in> set (teams s')" "t_Swapper x = Some q" for x q
    proof -
      obtain k where k: "k < length (teams s)" "x = teams s' ! k" using x(1) j(10) by (auto simp: in_set_conv_nth)
      have "teams s ! k \<in> set (teams s)" "t_Swapper (teams s ! k) = Some q" using k x(2) j(12) [OF k(1)] by simp_all
      then show ?thesis using play_okD(2) [OF assms(1)] unfolding refs_ok_def by blast
    qed
    show "q \<in> insert p (set (playing s))" if "i \<in> set (live_objects s)" "o_owner (obj_at s i) = Some q" for i q
      using that play_okD(2) [OF assms(1)] unfolding refs_ok_def by blast
  qed
  have counts: "counts_ok s'"
    using play_okD(3) [OF assms(1)] active j(6,7) unfolding counts_ok_def headcount_joined [OF assms(2)] f(4-6) j(10)
    by (auto simp: j(13,14) in_team_def)
  have rest: "robots_ok s'" "live_bound s'" "\<forall>q \<in> set (playing s'). seat_ok (bases s') (plr_at s' q)"
    using play_okD(4,5,10) [OF assms(1)] assms(3,6) unfolding robots_ok_def live_bound_def mem f(1,7,8) by (simp_all add: old)
  have homes: "homes_distinct s'"
    unfolding homes_distinct_def
  proof (intro ballI impI)
    fix a b assume ab: "a \<in> set (playing s')" "b \<in> set (playing s')" "p_home (plr_at s' a) \<noteq> None" "p_home (plr_at s' a) = p_home (plr_at s' b)"
    have lone: "p_home (plr_at s' q) \<noteq> Some h" if "q \<in> set (playing s)" for q
      using assms(5) that old [OF that] by (simp add: free_base_def nobody_home_def)
    show "a = b"
    proof (cases "a = p \<or> b = p")
      case True
      then show ?thesis using ab lone assms(4) unfolding mem by (metis insert_iff)
    next
      case False
      then have m: "a \<in> set (playing s)" "b \<in> set (playing s)" using ab(1,2) mem by simp_all
      then show ?thesis using ab(3,4) play_okD(8) [OF assms(1)] unfolding homes_distinct_def old [OF m(1)] old [OF m(2)] by blast
    qed
  qed
  have len: "length (teams s) = MAX_TEAMS" by (rule play_okD(12) [OF assms(1)])
  have tm: "t_Num (teams s' ! k) = t_Num (teams s ! k)" "t_NumBases (teams s' ! k) = t_NumBases (teams s ! k)"
    "t_Properties (teams s' ! k) = t_Properties (teams s ! k)" if "k < MAX_TEAMS" for k
    using j(11) [of k] that len by (simp_all add: fixed_team_def)
  have swap: "Player_is_human (plr_at s' q)" if "k < MAX_TEAMS" "t_Swapper (teams s' ! k) = Some q" for k q
  proof -
    have k: "k < length (teams s)" using that(1) len by simp
    have "t_Swapper (teams s ! k) = Some q" "teams s ! k \<in> set (teams s)" using k that(2) j(12) [OF k] by simp_all
    then have "q \<in> set (playing s)" "Player_is_human (plr_at s q)"
      using play_okD(2,7) [OF assms(1)] that(1) unfolding refs_ok_def teams_ok_def by blast+
    then show ?thesis by (simp add: old)
  qed
  have "PAUSE_TEAM_NUM < MAX_TEAMS" by (simp add: PAUSE_TEAM_NUM_def MAX_TEAMS_def)
  then have "teams_ok s'" using play_okD(7) [OF assms(1)] tm swap j(10) by (simp add: teams_ok_def f(1))
  then show ?thesis
    using j(1) refs counts rest homes assms(7) play_okD(13-15) [OF assms(1)] unfolding play_ok_def game_ok_def by (simp add: f)
qed

text \<open>What the new player is given after that.\<close>

lemma joined_upd:
  assumes "joined p t s s'" "p_id (f (plr_at s' p)) = p_id (plr_at s' p)" "p_type (f (plr_at s' p)) = p_type (plr_at s' p)"
    "p_team (f (plr_at s' p)) = p_team (plr_at s' p)" "p_oper (f (plr_at s' p)) = p_oper (plr_at s' p)"
    "p_score (f (plr_at s' p)) = p_score (plr_at s' p)" "plr_refs (f (plr_at s' p)) = plr_refs (plr_at s' p)"
  shows "joined p t s (upd_plr p f s')"
proof -
  let ?s = "upd_plr p f s'"
  note j = joinedD [OF assms(1)]
  have g: "Players ?s = Players s'" "NumPlayers ?s = NumPlayers s'" "GetInd ?s = GetInd s'" "idq ?s = idq s'" "teams ?s = teams s'"
    "playing ?s = playing s'" "length (playerArray ?s) = length (playerArray s')"
    by (simp_all add: upd_plr_def playing_def)
  have at: "plr_at ?s q = (if q = p then f (plr_at s' p) else plr_at s' q)" for q using j(15) by (simp add: plr_at_upd)
  have id: "p_id (plr_at ?s q) = p_id (plr_at s' q)" for q using assms(2) by (simp add: at)
  have "registry_ok ?s" using j(1) by (simp add: registry_ok_def g id)
  moreover have "s' = s\<lparr>playerArray := playerArray s', idq := idq s', GetInd := GetInd s', NumPlayers := NumPlayers s + 1,
       NumRobots := NumRobots s + of_bool (Player_is_robot (plr_at s' p)), teams := teams s', game_random := game_random s',
       updateScores := updateScores s', told := told s'\<rparr>" using assms(1) by (simp add: joined_def)
  then have "?s = s\<lparr>playerArray := playerArray ?s, idq := idq ?s, GetInd := GetInd ?s, NumPlayers := NumPlayers s + 1,
       NumRobots := NumRobots s + of_bool (Player_is_robot (plr_at s' p)), teams := teams ?s, game_random := game_random ?s,
       updateScores := updateScores ?s, told := told ?s\<rparr>"
    unfolding upd_plr_def by (cases s; cases s') simp
  ultimately show ?thesis using assms(3-7) j by (simp add: joined_def at g Player_is_robot_def)
qed

lemma joined_fields:
  assumes "joined p t s s'"
  shows "joined p t s (s'\<lparr>game_random := g, updateScores := u, told := ns\<rparr>)" (is "joined p t s ?s")
proof -
  have "s' = s\<lparr>playerArray := playerArray s', idq := idq s', GetInd := GetInd s', NumPlayers := NumPlayers s + 1,
       NumRobots := NumRobots s + of_bool (Player_is_robot (plr_at s' p)), teams := teams s', game_random := game_random s',
       updateScores := updateScores s', told := told s'\<rparr>" using assms by (simp add: joined_def)
  then have "?s = s\<lparr>playerArray := playerArray ?s, idq := idq ?s, GetInd := GetInd ?s, NumPlayers := NumPlayers s + 1,
       NumRobots := NumRobots s + of_bool (Player_is_robot (plr_at s' p)), teams := teams ?s, game_random := game_random ?s,
       updateScores := updateScores ?s, told := told ?s\<rparr>"
    by (cases s; cases s') simp
  moreover have "playing ?s = playing s'" by (simp add: playing_def)
  moreover have "registry_ok ?s" using joinedD(1) [OF assms] by (simp add: registry_ok_def calculation(2))
  ultimately show ?thesis using joinedD [OF assms] unfolding joined_def by simp
qed

lemma joined_field:
  assumes "joined p t s s'"
  shows "joined p t s (s'\<lparr>game_random := g\<rparr>)" "joined p t s (announce ns s')" "joined p t s (s'\<lparr>updateScores := u\<rparr>)"
  using joined_fields [OF assms, of "told s'" "updateScores s'" g] joined_fields [OF assms, of "told s' @ ns" "updateScores s'" "game_random s'"]
    joined_fields [OF assms, of "told s'" u "game_random s'"] by (simp_all add: announce_def)

text \<open>A free structure, filled in and put on a team; \<open>y\<close> is the player so far.\<close>

lemma joined_start:
  assumes "play_ok s" "NumPlayers s < length (Players s)" "t < MAX_TEAMS"
  obtains p s1 where "Player_add s = Some (p, s1)" "NumRobots s1 = NumRobots s" "teams s1 = teams s" "robotTeam s1 = robotTeam s"
    "p < length (playerArray s1)" "p_home (plr_at s1 p) = None" "p_score (plr_at s1 p) = 0" "\<not> p_oper (plr_at s1 p)"
    "\<And>y. p_id y = p_id (plr_at s1 p) \<Longrightarrow> plr_refs y = {} \<Longrightarrow> \<not> p_oper y \<Longrightarrow> p_score y = 0 \<Longrightarrow>
       joined p t s (Player_add_to_team p t (s1\<lparr>NumRobots := NumRobots s + of_bool (Player_is_robot y), playerArray := (playerArray s1)[p := y]\<rparr>))"
    "\<And>y n. plr_at (Player_add_to_team p t (s1\<lparr>NumRobots := n, playerArray := (playerArray s1)[p := y]\<rparr>)) p = y\<lparr>p_team := Some t\<rparr>"
    "\<And>y n. game_random (Player_add_to_team p t (s1\<lparr>NumRobots := n, playerArray := (playerArray s1)[p := y]\<rparr>)) = game_random s"
    "p_lock_player (plr_at s1 p) = False"
    "p_lock_visible (plr_at s1 p) = False" "p_lockbank (plr_at s1 p) = replicate LOCKBANK_MAX None" "p_shoves (plr_at s1 p) = replicate MAX_RECORDED_SHOVES None"
    "p_connp (plr_at s1 p) = None" "p_robot_data (plr_at s1 p) = None"
proof -
  have few: "NumPlayers s < 256" using assms(2) play_okD(15) [OF assms(1)] by simp
  obtain p s1 where a: "Player_add s = Some (p, s1)" "registry_ok s1" "p \<notin> set (playing s)" "playing s1 = playing s @ [p]"
    "\<And>q. q \<noteq> p \<Longrightarrow> plr_at s1 q = plr_at s q"
    "plr_at s1 p = plr_zero\<lparr>p_state := PL_STATE_UNDEFINED, p_type_mychar := 32, p_life := rules_lives s, p_id := p_id (plr_at s1 p),
       p_busy := frame_loops s\<rparr>"
    "s1 = s\<lparr>playerArray := playerArray s1, idq := idq s1, GetInd := GetInd s1, NumPlayers := NumPlayers s + 1\<rparr>"
    "length (playerArray s1) = length (playerArray s)"
    by (rule Player_add_ok [OF play_okD(1) [OF assms(1)] assms(2) few]) (rule that; (assumption | blast))
  have p: "p < length (playerArray s1)" using playing_less [OF a(2)] a(4) by simp
  have f: "NumRobots s1 = NumRobots s" "teams s1 = teams s" "robotTeam s1 = robotTeam s" "game_random s1 = game_random s" by (subst a(7), simp)+
  have len: "length (teams s) = MAX_TEAMS" by (rule play_okD(12) [OF assms(1)])
  have join: "joined p t s (Player_add_to_team p t (s1\<lparr>NumRobots := NumRobots s + of_bool (Player_is_robot y), playerArray := (playerArray s1)[p := y]\<rparr>))"
    if y: "p_id y = p_id (plr_at s1 p)" "plr_refs y = {}" "\<not> p_oper y" "p_score y = 0" for y
  proof -
    let ?s1 = "s1\<lparr>NumRobots := NumRobots s + of_bool (Player_is_robot y), playerArray := (playerArray s1)[p := y]\<rparr>"
    define s2 where "s2 = Player_add_to_team p t ?s1"
    have s2: "s2 = ?s1\<lparr>playerArray := (playerArray s1)[p := y\<lparr>p_team := Some t\<rparr>], teams := (teams s)[t := (teams s ! t)\<lparr>
        t_NumMembers := t_NumMembers (teams s ! t) + 1, t_NumRobots := t_NumRobots (teams s ! t) + of_bool (Player_is_robot y)\<rparr>]\<rparr>"
      unfolding s2_def using p assms(3) len by (subst Player_add_to_team_eq) (simp_all add: f)
    have at: "plr_at s2 q = (if q = p then y\<lparr>p_team := Some t\<rparr> else plr_at s1 q)" for q using p by (simp add: s2)
    have g: "Players s2 = Players s1" "NumPlayers s2 = NumPlayers s1" "GetInd s2 = GetInd s1" "idq s2 = idq s1" "playing s2 = playing s1"
      "length (playerArray s2) = length (playerArray s1)" by (simp_all add: s2 playing_def)
    have id: "p_id (plr_at s2 q) = p_id (plr_at s1 q)" for q using y(1) by (simp add: at)
    have "registry_ok s2" using a(2) by (simp add: registry_ok_def g id)
    moreover have "s2 = s\<lparr>playerArray := playerArray s2, idq := idq s2, GetInd := GetInd s2, NumPlayers := NumPlayers s + 1,
       NumRobots := NumRobots s + of_bool (Player_is_robot y), teams := teams s2, game_random := game_random s2,
       updateScores := updateScores s2, told := told s2\<rparr>"
      using a(7) unfolding s2 by (cases s; cases s1) simp
    moreover have "plr_refs (y\<lparr>p_team := Some t\<rparr>) = plr_refs y" "Player_is_robot (y\<lparr>p_team := Some t\<rparr>) = Player_is_robot y"
      by (simp_all add: plr_refs_def player_is_defs)
    moreover have "teams s2 = (teams s)[t := (teams s ! t)\<lparr>
        t_NumMembers := t_NumMembers (teams s ! t) + 1, t_NumRobots := t_NumRobots (teams s ! t) + of_bool (Player_is_robot y)\<rparr>]"
      by (simp add: s2)
    ultimately show ?thesis
      unfolding s2_def [symmetric] joined_def using y a(3-5,8) assms(3) len
      by (simp add: g at nth_list_update fixed_team_def)
  qed
  have fin: "plr_at (Player_add_to_team p t (s1\<lparr>NumRobots := n, playerArray := (playerArray s1)[p := y]\<rparr>)) p = y\<lparr>p_team := Some t\<rparr>"
    "game_random (Player_add_to_team p t (s1\<lparr>NumRobots := n, playerArray := (playerArray s1)[p := y]\<rparr>)) = game_random s" for y n
    using p assms(3) len f(4) by (subst Player_add_to_team_eq; simp add: f(2))+
  have z: "p_home (plr_at s1 p) = None" "p_score (plr_at s1 p) = 0" "\<not> p_oper (plr_at s1 p)"
    "p_lock_player (plr_at s1 p) = False" "p_lock_visible (plr_at s1 p) = False" "p_lockbank (plr_at s1 p) = replicate LOCKBANK_MAX None"
    "p_shoves (plr_at s1 p) = replicate MAX_RECORDED_SHOVES None" "p_connp (plr_at s1 p) = None" "p_robot_data (plr_at s1 p) = None"
    by (subst a(6), simp add: plr_zero_def)+
  show ?thesis by (rule that [OF a(1) f(1-3) p z(1-3) join fin z(4-9)])
qed

text \<open>Its team has a free base, which is found.\<close>

lemma pick_new:
  assumes "play_ok s" "joined p t s s1" "p_home (plr_at s1 p) = None" "rng_ok (game_random s1)"
  obtains r g where "Team_pick_free_base (Some t) s1 = Some (r, s1\<lparr>game_random := g\<rparr>)" "rng_ok g"
    "case r of Some h \<Rightarrow> free_base s (Some t) h | None \<Rightarrow> \<forall>h. \<not> free_base s (Some t) h"
proof -
  note j = joinedD [OF assms(2)] and f = joined_frame [OF assms(2)]
  have old: "plr_at s1 q = plr_at s q" if "q \<in> set (playing s)" for q by (rule joined_old [OF assms(2) that])
  have "\<forall>q \<in> set (playing s1). \<forall>h. p_home (plr_at s1 q) = Some h \<longrightarrow> h < length (bases s1)"
    using homes_below [OF assms(1)] assms(3) by (simp add: j(2) f(1) old)
  from pick_free [OF assms(4) this, of "Some t"] obtain r g where
    r: "Team_pick_free_base (Some t) s1 = Some (r, s1\<lparr>game_random := g\<rparr>)" "rng_ok g"
      "case r of Some h \<Rightarrow> free_base s1 (Some t) h | None \<Rightarrow> \<forall>h. \<not> free_base s1 (Some t) h" by blast
  have same: "free_base s1 (Some t) h = free_base s (Some t) h" for h
    using assms(3) by (simp add: free_base_def nobody_home_def j(2) f(1) old)
  show ?thesis by (rule that [OF r(1,2)]) (use r(3) in \<open>simp only: same\<close>)
qed

lemma pick_joined:
  assumes "play_ok s" "joined p t s s1" "p_home (plr_at s1 p) = None" "\<exists>h. free_base s (Some t) h" "rng_ok (game_random s1)"
  obtains h g where "Team_pick_free_base (Some t) s1 = Some (Some h, s1\<lparr>game_random := g\<rparr>)" "rng_ok g" "free_base s (Some t) h"
proof -
  obtain r g where r: "Team_pick_free_base (Some t) s1 = Some (r, s1\<lparr>game_random := g\<rparr>)" "rng_ok g"
    "case r of Some h \<Rightarrow> free_base s (Some t) h | None \<Rightarrow> \<forall>h. \<not> free_base s (Some t) h"
    by (rule pick_new [OF assms(1-3,5)])
  then have "r \<noteq> None" using assms(4) by (auto split: option.splits)
  then obtain h where h: "r = Some h" by blast
  then have "free_base s (Some t) h" using r(3) by simp
  then show ?thesis using r(1,2) unfolding h by (intro that)
qed

lemma set_entry_state_eq:
  assumes "p_team (plr_at s p) = Some t"
  shows "set_entry_state p s = Some (upd_plr p (set_state (RECOVERY_DELAY_TICKS s) (Player_compute_entry_state p t s)) s)"
  using assms by (simp add: set_entry_state_def Player_set_state_def)

lemma set_state_rest [simp]:
  "p_id (set_state d st x) = p_id x" "p_oper (set_state d st x) = p_oper x" "p_score (set_state d st x) = p_score x"
  "p_name (set_state d st x) = p_name x" "p_robot_data (set_state d st x) = p_robot_data x"
  by (cases st; simp)+

lemma seat_player_ok:
  assumes "play_ok s" "joined p t s (Player_add_to_team p t s1)" "has_room s t" "rng_ok (game_random (Player_add_to_team p t s1))"
    "p_home (plr_at (Player_add_to_team p t s1) p) = None" "p_type (plr_at (Player_add_to_team p t s1) p) = PL_TYPE_HUMAN"
    "terminated (p_name (plr_at (Player_add_to_team p t s1) p))"
  obtains s' where "seat_player p (Some t) c s1 = Some s'" "play_ok s'" "joined p t s s'" "p_connp (plr_at s' p) = Some c"
    "p_name (plr_at s' p) = p_name (plr_at (Player_add_to_team p t s1) p)" "p_type (plr_at s' p) = PL_TYPE_HUMAN" "p_home (plr_at s' p) \<noteq> None"
proof -
  define s2 where "s2 = Player_add_to_team p t s1"
  note j2 = assms(2) [folded s2_def]
  have p: "p < length (playerArray s2)" by (rule joinedD(15) [OF j2])
  have room: "t < MAX_TEAMS" "t \<noteq> PAUSE_TEAM_NUM" using assms(3) by (simp_all add: has_room_def)
  obtain h g where h: "Team_pick_free_base (Some t) s2 = Some (Some h, s2\<lparr>game_random := g\<rparr>)" "rng_ok g" "free_base s (Some t) h"
    using pick_joined [OF assms(1) j2 assms(5) [folded s2_def] room_base [OF assms(1,3)] assms(4) [folded s2_def]] by blast
  define s3 where "s3 = upd_plr p (\<lambda>x. x\<lparr>p_home := Some h\<rparr>) (s2\<lparr>game_random := g\<rparr>)"
  have j3: "joined p t s s3" unfolding s3_def
    by (rule joined_upd [OF joined_field(1) [OF j2]]) (simp_all add: plr_refs_def player_is_defs)
  have at3: "plr_at s3 p = (plr_at s2 p)\<lparr>p_home := Some h\<rparr>" using p by (simp add: s3_def plr_at_upd)
  obtain s4 where s4: "Player_go_home p s3 = Some s4" "s4 = upd_plr p (\<lambda>x. x\<lparr>p_bx := b_bx (bases s3 ! h), p_by := b_by (bases s3 ! h),
     p_velocity := 0, p_has_ball := False\<rparr>) s3"
    using at3 by (simp add: Player_go_home_def)
  have j4: "joined p t s s4" unfolding s4(2) by (rule joined_upd [OF j3]) (simp_all add: plr_refs_def player_is_defs)
  have at4: "plr_at s4 p = (plr_at s3 p)\<lparr>p_bx := b_bx (bases s3 ! h), p_by := b_by (bases s3 ! h), p_velocity := 0, p_has_ball := False\<rparr>"
    using joinedD(15) [OF j3] by (simp add: s4(2) plr_at_upd)
  define st where "st = Player_compute_entry_state p t s4"
  define s5 where "s5 = upd_plr p (set_state (RECOVERY_DELAY_TICKS s4) st) s4"
  have r5: "set_entry_state p s4 = Some s5"
    unfolding s5_def st_def by (rule set_entry_state_eq) (rule joinedD(7) [OF j4])
  have j5: "joined p t s s5" unfolding s5_def by (rule joined_upd [OF j4]) simp_all
  have at5: "plr_at s5 p = set_state (RECOVERY_DELAY_TICKS s4) st (plr_at s4 p)" using joinedD(15) [OF j4] by (simp add: s5_def plr_at_upd)
  define s6 where "s6 = upd_plr p (\<lambda>x. x\<lparr>p_connp := Some c\<rparr>) s5"
  have j6: "joined p t s s6" unfolding s6_def by (rule joined_upd [OF j5]) (simp_all add: plr_refs_def player_is_defs)
  have at6: "plr_at s6 p = (plr_at s5 p)\<lparr>p_connp := Some c\<rparr>" using joinedD(15) [OF j5] by (simp add: s6_def plr_at_upd)
  have run: "seat_player p (Some t) c s1 = Some s6"
    unfolding seat_player_def option.case Let_def s2_def [symmetric] joinedD(7) [OF j2] h(1) bind.simps prod.case s3_def [symmetric]
      s4(1) r5 s6_def by (rule refl)
  have num: "t_Num (teams s4 ! t) = int t"
    using joinedD(11) [OF j4, of t] room(1) play_okD(7,12) [OF assms(1)] by (simp add: fixed_team_def teams_ok_def)
  have paused: "st \<noteq> PL_STATE_PAUSED" unfolding st_def using entry_paused [where p = p, OF num] room(2) by simp
  have rng: "game_random s6 = g" by (simp add: s6_def s5_def s4(2) s3_def upd_plr_def)
  have x: "p_home (plr_at s6 p) = Some h" "p_type (plr_at s6 p) = PL_TYPE_HUMAN" "p_name (plr_at s6 p) = p_name (plr_at s2 p)"
    "p_state (plr_at s6 p) = st" "p_connp (plr_at s6 p) = Some c"
    using assms(6) by (simp_all add: at6 at5 at4 at3 s2_def [symmetric])
  have "seat_ok (bases s) (plr_at s6 p)"
    using x h(3) room paused assms(7) joinedD(7,8) [OF j6] by (simp add: seat_ok_def s2_def [symmetric] player_is_defs free_base_def)
  then have "play_ok s6"
    by (rule joined_play_ok [OF assms(1) j6 _ x(1) h(3)]) (use x(2) rng h(2) in \<open>simp_all add: player_is_defs\<close>)
  then show ?thesis using that [OF run _ j6 x(5)] x by (simp add: s2_def)
qed

text \<open>The name is compared with that of every player.\<close>

lemma strcasecmp_total:
  assumes "terminated x" "terminated y"
  obtains r where "strcasecmp x y = Some r" "r = 0 \<longleftrightarrow> map lower (cstr x) = map lower (cstr y)"
proof -
  define n where "n = Suc (length x + length y)"
  have "length (cstr x) < n" "length (cstr y) < n" using length_cstr_less [OF assms(1)] length_cstr_less [OF assms(2)] by (simp_all add: n_def)
  then have "take n (cstr x) = cstr x" "take n (cstr y) = cstr y" "strncasecmp x y n = strcasecmp x y"
    using assms by (simp_all add: strncasecmp_long)
  then show ?thesis using that strncasecmp_ok [OF assms, of n] by metis
qed

lemma name_in_use_ok:
  assumes "terminated nick" "\<And>q. q \<in> set qs \<Longrightarrow> terminated (p_name (plr_at s q))"
  shows "name_in_use nick s qs = Some (\<exists>q \<in> set qs. map lower (cstr (p_name (plr_at s q))) = map lower (cstr nick))"
  using assms(2)
proof (induction qs)
  case (Cons q qs)
  then have "terminated (p_name (plr_at s q))" by simp
  from strcasecmp_total [OF this assms(1)] obtain r where
    r: "strcasecmp (p_name (plr_at s q)) nick = Some r" "r = 0 \<longleftrightarrow> map lower (cstr (p_name (plr_at s q))) = map lower (cstr nick)" by blast
  then show ?case using Cons by simp
qed simp

lemma seat_name: "seat_ok bs x \<Longrightarrow> terminated (p_name x)"
  by (simp add: seat_ok_def)

definition name_taken :: "byte list \<Rightarrow> gstate \<Rightarrow> bool" where
  "name_taken nick s \<longleftrightarrow> (\<exists>q \<in> set (playing s). map lower (cstr (p_name (plr_at s q))) = map lower (cstr nick))"

text \<open>A new human on team \<open>t\<close>.\<close>

lemma new_human:
  assumes "play_ok s" "NumPlayers s < length (Players s)" "t < MAX_TEAMS"
  obtains p s1 s2 where "Player_add s = Some (p, s1)" "upd_plr p (\<lambda>x. x\<lparr>p_type := PL_TYPE_HUMAN, p_name := nick\<rparr>) s1 = s2"
    "joined p t s (Player_add_to_team p t s2)" "p_home (plr_at (Player_add_to_team p t s2) p) = None"
    "p_type (plr_at (Player_add_to_team p t s2) p) = PL_TYPE_HUMAN" "p_name (plr_at (Player_add_to_team p t s2) p) = nick"
    "game_random (Player_add_to_team p t s2) = game_random s"
proof -
  obtain p s1 where a: "Player_add s = Some (p, s1)" "NumRobots s1 = NumRobots s" "p < length (playerArray s1)"
    "p_home (plr_at s1 p) = None" "p_score (plr_at s1 p) = 0" "\<not> p_oper (plr_at s1 p)"
    "\<And>y. p_id y = p_id (plr_at s1 p) \<Longrightarrow> plr_refs y = {} \<Longrightarrow> \<not> p_oper y \<Longrightarrow> p_score y = 0 \<Longrightarrow>
     joined p t s (Player_add_to_team p t (s1\<lparr>NumRobots := NumRobots s + of_bool (Player_is_robot y), playerArray := (playerArray s1)[p := y]\<rparr>))"
    "\<And>y n. plr_at (Player_add_to_team p t (s1\<lparr>NumRobots := n, playerArray := (playerArray s1)[p := y]\<rparr>)) p = y\<lparr>p_team := Some t\<rparr>"
    "\<And>y n. game_random (Player_add_to_team p t (s1\<lparr>NumRobots := n, playerArray := (playerArray s1)[p := y]\<rparr>)) = game_random s"
    "p_lock_player (plr_at s1 p) = False" "p_lock_visible (plr_at s1 p) = False" "p_lockbank (plr_at s1 p) = replicate LOCKBANK_MAX None"
    "p_shoves (plr_at s1 p) = replicate MAX_RECORDED_SHOVES None"
    by (rule joined_start [OF assms]) (rule that; (assumption | blast))
  define y where "y = (plr_at s1 p)\<lparr>p_type := PL_TYPE_HUMAN, p_name := nick\<rparr>"
  define s2 where "s2 = s1\<lparr>NumRobots := NumRobots s, playerArray := (playerArray s1)[p := y]\<rparr>"
  have s2: "upd_plr p (\<lambda>x. x\<lparr>p_type := PL_TYPE_HUMAN, p_name := nick\<rparr>) s1 = s2"
    using a(2) by (cases s1) (simp add: s2_def upd_plr_def y_def)
  have y: "p_id y = p_id (plr_at s1 p)" "plr_refs y = {}" "\<not> p_oper y" "p_score y = 0" "\<not> Player_is_robot y" "p_home y = None"
    "p_type y = PL_TYPE_HUMAN" "p_name y = nick"
    using a(4-6,10-13) by (simp_all add: y_def plr_refs_def player_is_defs)
  have j: "joined p t s (Player_add_to_team p t s2)" using a(7) [OF y(1-4)] y(5) by (simp add: s2_def)
  have at: "plr_at (Player_add_to_team p t s2) p = y\<lparr>p_team := Some t\<rparr>" "game_random (Player_add_to_team p t s2) = game_random s"
    by (simp_all add: s2_def a(8,9))
  show ?thesis by (rule that [OF a(1) s2 j]) (simp_all add: at y)
qed

text \<open>A client who is on a team without a free base brings the server down.\<close>

lemma Login_no_base:
  assumes "play_ok s" "t < MAX_TEAMS" "\<And>h. \<not> free_base s (Some t) h" "terminated nick" "\<not> name_taken nick s"
    "int (NumPlayers s) < int (length (bases s)) + MAX_PAUSED_PLAYERS"
  shows "Login_player (Some t) nick c s = None"
proof -
  have "NumPlayers s < length (Players s)"
    using assms(6) play_okD(14) [OF assms(1)] by (simp add: MAX_PAUSED_PLAYERS_def MAX_PSEUDO_PLAYERS_def)
  then obtain p s1 s2 where a: "Player_add s = Some (p, s1)"
    "upd_plr p (\<lambda>x. x\<lparr>p_type := PL_TYPE_HUMAN, p_name := nick\<rparr>) s1 = s2" "joined p t s (Player_add_to_team p t s2)"
    "p_home (plr_at (Player_add_to_team p t s2) p) = None" "game_random (Player_add_to_team p t s2) = game_random s"
    by (rule new_human [OF assms(1) _ assms(2)])
  obtain r g where "Team_pick_free_base (Some t) (Player_add_to_team p t s2) = Some (r, (Player_add_to_team p t s2)\<lparr>game_random := g\<rparr>)"
    "case r of Some h \<Rightarrow> free_base s (Some t) h | None \<Rightarrow> \<forall>h. \<not> free_base s (Some t) h"
    using pick_new [OF assms(1) a(3,4)] play_okD(9) [OF assms(1)] by (simp add: a(5)) blast
  then have "Team_pick_free_base (Some t) (Player_add_to_team p t s2) = Some (None, (Player_add_to_team p t s2)\<lparr>game_random := g\<rparr>)"
    using assms(3) by (cases r) simp_all
  then have "seat_player p (Some t) c s2 = None" using joinedD(7) [OF a(3)] by (simp add: seat_player_def)
  moreover have "name_in_use nick s (playing s) = Some (name_taken nick s)"
    unfolding name_taken_def by (rule name_in_use_ok [OF assms(4)]) (rule seat_name [OF play_okD(10) [OF assms(1)]])
  ultimately show ?thesis using assms(5,6) a(1,2) play_okD(13) [OF assms(1)] by (simp add: Login_player_def login_team_def)
qed

text \<open>A login of a client whose team, if it was chosen before, still has room: it is refused, or a new human player of that
  name and connection is seated.\<close>

lemma Login_player_ok:
  assumes "play_ok s" "\<And>t. team = Some t \<Longrightarrow> has_room s t" "terminated nick"
  obtains (refused) "Login_player team nick c s = Some (None, s)"
      "int (NumPlayers s) \<ge> int (length (bases s)) + MAX_PAUSED_PLAYERS \<or> name_taken nick s \<or> team = None"
  | (seated) p t s' where "Login_player team nick c s = Some (Some p, s')" "play_ok s'" "joined p t s s'" "has_room s t" "team \<noteq> None \<Longrightarrow> team = Some t" "\<not> name_taken nick s"
      "p_connp (plr_at s' p) = Some c" "p_name (plr_at s' p) = nick" "p_type (plr_at s' p) = PL_TYPE_HUMAN" "p_home (plr_at s' p) \<noteq> None"
proof -
  obtain r where r: "login_team team s = Some r" "case r of None \<Rightarrow> True | Some t \<Rightarrow> has_room s t"
    "team \<noteq> None \<Longrightarrow> r = team"
  proof (cases team)
    case None
    obtain r where r: "Team_find_available PL_TYPE_HUMAN s = Some r" "case r of None \<Rightarrow> True | Some t \<Rightarrow> has_room s t"
      using find_available_ok [OF assms(1)] by blast
    have "login_team team s = Some r" using r(1) None play_okD(13) [OF assms(1)] by (simp add: login_team_def)
    then show ?thesis by (rule that [OF _ r(2)]) (simp add: None)
  next
    case (Some t)
    have "login_team team s = Some (Some t)" using Some play_okD(13) [OF assms(1)] by (simp add: login_team_def)
    then show ?thesis by (rule that) (use assms(2) Some in simp_all)
  qed
  have used: "name_in_use nick s (playing s) = Some (name_taken nick s)"
    unfolding name_taken_def by (rule name_in_use_ok [OF assms(3)]) (rule seat_name [OF play_okD(10) [OF assms(1)]])
  show ?thesis
  proof (cases "int (NumPlayers s) \<ge> int (length (bases s)) + MAX_PAUSED_PLAYERS \<or> r = None \<or> name_taken nick s")
    case True
    then have "Login_player team nick c s = Some (None, s)"
      using r(1) used play_okD(13) [OF assms(1)] by (auto simp: Login_player_def)
    then show ?thesis by (rule refused) (use True r(3) in auto)
  next
    case False
    then obtain t where t: "r = Some t" "has_room s t" using r(2) by (cases r) auto
    have "NumPlayers s < length (Players s)"
      using False play_okD(14) [OF assms(1)] by (simp add: MAX_PAUSED_PLAYERS_def MAX_PSEUDO_PLAYERS_def)
    moreover have "t < MAX_TEAMS" using t(2) by (simp add: has_room_def)
    ultimately obtain p s1 s2 where a: "Player_add s = Some (p, s1)"
      "upd_plr p (\<lambda>x. x\<lparr>p_type := PL_TYPE_HUMAN, p_name := nick\<rparr>) s1 = s2" "joined p t s (Player_add_to_team p t s2)"
      "p_home (plr_at (Player_add_to_team p t s2) p) = None" "p_type (plr_at (Player_add_to_team p t s2) p) = PL_TYPE_HUMAN"
      "p_name (plr_at (Player_add_to_team p t s2) p) = nick" "game_random (Player_add_to_team p t s2) = game_random s"
      by (rule new_human [OF assms(1)])
    obtain s' where s': "seat_player p (Some t) c s2 = Some s'" "play_ok s'" "joined p t s s'" "p_connp (plr_at s' p) = Some c"
      "p_name (plr_at s' p) = p_name (plr_at (Player_add_to_team p t s2) p)" "p_type (plr_at s' p) = PL_TYPE_HUMAN" "p_home (plr_at s' p) \<noteq> None"
      using seat_player_ok [OF assms(1) a(3) t(2)] play_okD(9) [OF assms(1)] assms(3) by (simp add: a(4-7)) blast
    have "Login_player team nick c s = Some (Some p, s')"
      using False r(1) t(1) used a(1) s'(1) by (simp add: Login_player_def a(2))
    then show ?thesis by (rule seated [OF _ s'(2,3) t(2) _ _ s'(4) _ s'(6,7)]) (use False s'(5) a(6) r(3) t(1) in simp_all)
  qed
qed

text \<open>A robot enters when the robot team has room.\<close>

lemma Robot_add_ok:
  assumes "play_ok s" "Team_get_by_id (robotTeam s) = Some t" "has_room s t" "NumPlayers s < length (Players s)" "terminated name"
  obtains p s' where "Robot_add name s = Some (True, s')" "play_ok s'" "joined p t s s'" "p_name (plr_at s' p) = name"
    "p_type (plr_at s' p) = PL_TYPE_ROBOT" "p_home (plr_at s' p) \<noteq> None"
proof -
  have room: "t < MAX_TEAMS" "t \<noteq> PAUSE_TEAM_NUM" "t_NumMembers (teams s ! t) < t_NumBases (teams s ! t)" using assms(3) by (simp_all add: has_room_def)
  obtain p s1 where a: "Player_add s = Some (p, s1)" "NumRobots s1 = NumRobots s" "teams s1 = teams s" "robotTeam s1 = robotTeam s"
    "p < length (playerArray s1)" "p_home (plr_at s1 p) = None" "p_score (plr_at s1 p) = 0" "\<not> p_oper (plr_at s1 p)"
    "\<And>y. p_id y = p_id (plr_at s1 p) \<Longrightarrow> plr_refs y = {} \<Longrightarrow> \<not> p_oper y \<Longrightarrow> p_score y = 0 \<Longrightarrow>
       joined p t s (Player_add_to_team p t (s1\<lparr>NumRobots := NumRobots s + of_bool (Player_is_robot y), playerArray := (playerArray s1)[p := y]\<rparr>))"
    "\<And>y n. plr_at (Player_add_to_team p t (s1\<lparr>NumRobots := n, playerArray := (playerArray s1)[p := y]\<rparr>)) p = y\<lparr>p_team := Some t\<rparr>"
    "\<And>y n. game_random (Player_add_to_team p t (s1\<lparr>NumRobots := n, playerArray := (playerArray s1)[p := y]\<rparr>)) = game_random s"
    "p_lock_player (plr_at s1 p) = False" "p_lock_visible (plr_at s1 p) = False" "p_lockbank (plr_at s1 p) = replicate LOCKBANK_MAX None"
    "p_shoves (plr_at s1 p) = replicate MAX_RECORDED_SHOVES None" "p_connp (plr_at s1 p) = None" "p_robot_data (plr_at s1 p) = None"
    by (rule joined_start [OF assms(1,4) room(1)]) (rule that; (assumption | blast))
  define y where "y = (plr_at s1 p)\<lparr>p_type := PL_TYPE_ROBOT\<rparr>"
  define s2 where "s2 = s1\<lparr>NumRobots := NumRobots s + 1, playerArray := (playerArray s1)[p := y]\<rparr>"
  have s2: "upd_plr p (\<lambda>x. x\<lparr>p_type := PL_TYPE_ROBOT\<rparr>) (s1\<lparr>NumRobots := NumRobots s1 + 1\<rparr>) = s2"
    using a(2) by (simp add: s2_def upd_plr_def y_def)
  have y: "p_id y = p_id (plr_at s1 p)" "plr_refs y = {}" "\<not> p_oper y" "p_score y = 0" "Player_is_robot y" "p_home y = None"
    "p_type y = PL_TYPE_ROBOT" "p_connp y = None" "p_robot_data y = None"
    using a(6-8,12-17) by (simp_all add: y_def plr_refs_def player_is_defs)
  have find: "Team_find_available PL_TYPE_ROBOT s2 = Some (Some t)"
    using assms(2) room(3) a(3,4) by (simp add: Team_find_available_def s2_def)
  define s3 where "s3 = Player_add_to_team p t s2"
  have j3: "joined p t s s3" using a(9) [OF y(1-4)] y(5) by (simp add: s3_def s2_def)
  have at3: "plr_at s3 p = y\<lparr>p_team := Some t\<rparr>" "game_random s3 = game_random s" by (simp_all add: s3_def s2_def a(10,11))
  define s4 where "s4 = upd_plr p (\<lambda>x. x\<lparr>p_type_mychar := 82, p_robot_data := Some None, p_name := name\<rparr>) s3"
  have j4: "joined p t s s4" unfolding s4_def
    by (rule joined_upd [OF j3]) (use y(9) in \<open>simp_all add: plr_refs_def player_is_defs at3\<close>)
  have at4: "plr_at s4 p = (plr_at s3 p)\<lparr>p_type_mychar := 82, p_robot_data := Some None, p_name := name\<rparr>"
    using joinedD(15) [OF j3] by (simp add: s4_def plr_at_upd)
  define st where "st = Player_compute_entry_state p t s4"
  define s5 where "s5 = upd_plr p (set_state (RECOVERY_DELAY_TICKS s4) st) s4"
  have r5: "set_entry_state p s4 = Some s5" unfolding s5_def st_def by (rule set_entry_state_eq) (rule joinedD(7) [OF j4])
  have j5: "joined p t s s5" unfolding s5_def by (rule joined_upd [OF j4]) simp_all
  have at5: "plr_at s5 p = set_state (RECOVERY_DELAY_TICKS s4) st (plr_at s4 p)" using joinedD(15) [OF j4] by (simp add: s5_def plr_at_upd)
  have g5: "game_random s5 = game_random s" using at3(2) by (simp add: s5_def s4_def upd_plr_def)
  obtain h g where h: "Team_pick_free_base (Some t) s5 = Some (Some h, s5\<lparr>game_random := g\<rparr>)" "rng_ok g" "free_base s (Some t) h"
    using pick_joined [OF assms(1) j5 _ room_base [OF assms(1,3)]] play_okD(9) [OF assms(1)] y(6) by (simp add: g5 at5 at4 at3) blast
  define s6 where "s6 = upd_plr p (\<lambda>x. x\<lparr>p_home := Some h\<rparr>) (s5\<lparr>game_random := g\<rparr>)"
  have j6: "joined p t s s6" unfolding s6_def
    by (rule joined_upd [OF joined_field(1) [OF j5]]) (simp_all add: plr_refs_def player_is_defs)
  have at6: "plr_at s6 p = (plr_at s5 p)\<lparr>p_home := Some h\<rparr>" using joinedD(15) [OF j5] by (simp add: s6_def plr_at_upd)
  define s7 where "s7 = upd_plr p (\<lambda>x. x\<lparr>p_bx := b_bx (bases s6 ! h), p_by := b_by (bases s6 ! h), p_velocity := 0, p_has_ball := False\<rparr>) s6"
  have r7: "Player_go_home p s6 = Some s7" using at6 by (simp add: Player_go_home_def s7_def)
  have j7: "joined p t s s7" unfolding s7_def by (rule joined_upd [OF j6]) (simp_all add: plr_refs_def player_is_defs)
  have at7: "plr_at s7 p = (plr_at s6 p)\<lparr>p_bx := b_bx (bases s6 ! h), p_by := b_by (bases s6 ! h), p_velocity := 0, p_has_ball := False\<rparr>"
    using joinedD(15) [OF j6] by (simp add: s7_def plr_at_upd)
  define s8 where "s8 = (announce [Note_player p (PL_SEND_GENERAL OR PL_SEND_SCORE OR PL_SEND_BASE)] s7)\<lparr>updateScores := True\<rparr>"
  have j8: "joined p t s s8" unfolding s8_def by (rule joined_field(3) [OF joined_field(2) [OF j7]])
  have at8: "plr_at s8 p = plr_at s7 p" by (simp add: s8_def announce_def)
  have run: "Robot_add name s = Some (True, s8)"
    unfolding Robot_add_def a(1) bind.simps prod.case Let_def s2 if_P [OF play_okD(13) [OF assms(1)]] find option.case
      s3_def [symmetric] s4_def [symmetric] r5 joinedD(7) [OF j5] h(1) s6_def [symmetric] r7 s8_def by simp
  have num: "t_Num (teams s4 ! t) = int t"
    using joinedD(11) [OF j4, of t] room(1) play_okD(7,12) [OF assms(1)] by (simp add: fixed_team_def teams_ok_def)
  have paused: "st \<noteq> PL_STATE_PAUSED" unfolding st_def using entry_paused [where p = p, OF num] room(2) by simp
  have rng: "game_random s8 = g" by (simp add: s8_def announce_def s7_def s6_def upd_plr_def)
  have x: "p_home (plr_at s8 p) = Some h" "p_type (plr_at s8 p) = PL_TYPE_ROBOT" "p_name (plr_at s8 p) = name"
    "p_state (plr_at s8 p) = st" "p_connp (plr_at s8 p) = None" "p_robot_data (plr_at s8 p) = Some None"
    using y(7,8) by (simp_all add: at8 at7 at6 at5 at4 at3)
  have "seat_ok (bases s) (plr_at s8 p)"
    using x h(3) room paused assms(5) joinedD(7,8) [OF j8] by (simp add: seat_ok_def player_is_defs free_base_def)
  then have "play_ok s8"
    by (rule joined_play_ok [OF assms(1) j8 _ x(1) h(3)]) (use x(6) rng h(2) in simp_all)
  then show ?thesis using that [OF run _ j8 x(3,2)] x by simp
qed

subsection \<open>Kicking\<close>

lemma low_robot_fold:
  fixes sc :: "nat \<Rightarrow> int"
  assumes "\<exists>q \<in> set qs. P q \<and> sc q < low"
  obtains q where "fst (fold (\<lambda>q (r, low). if P q \<and> sc q < low then (Some q, sc q) else (r, low)) qs (r, low)) = Some q"
    "q \<in> set qs" "P q" "\<And>r. r \<in> set qs \<Longrightarrow> P r \<Longrightarrow> sc q \<le> sc r"
proof -
  let ?f = "\<lambda>q (r, low). if P q \<and> sc q < low then (Some q, sc q) else (r, low)"
  have "\<exists>q. fst (fold ?f qs (r, low)) = Some q \<and> (q \<in> set qs \<and> P q \<and> sc q < low) \<and> (\<forall>r \<in> set qs. P r \<longrightarrow> sc q \<le> sc r)"
    using assms
  proof (induction qs arbitrary: r low)
    case (Cons a qs)
    define low1 where "low1 = (if P a \<and> sc a < low then sc a else low)"
    show ?case
    proof (cases "\<exists>q \<in> set qs. P q \<and> sc q < low1")
      case True
      from Cons.IH [OF this, of "if P a \<and> sc a < low then Some a else r"] obtain q where
        q: "fst (fold ?f qs (if P a \<and> sc a < low then Some a else r, low1)) = Some q" "q \<in> set qs" "P q" "sc q < low1"
          "\<forall>r \<in> set qs. P r \<longrightarrow> sc q \<le> sc r" by blast
      then show ?thesis by (intro exI [of _ q]) (auto simp: low1_def split: if_splits)
    next
      case False
      then have skip: "fold ?f qs (x, low1) = (x, low1)" for x
        by (induction qs arbitrary: x) auto
      have "P a \<and> sc a < low" using Cons.prems False by (auto simp: low1_def split: if_splits)
      then show ?thesis using False skip [of "Some a"] by (intro exI [of _ a]) (auto simp: low1_def not_less)
    qed
  qed simp
  then show ?thesis using that by blast
qed

lemma low_robot_ok:
  assumes "play_ok s" "\<exists>q \<in> set (playing s). Player_is_robot (plr_at s q) \<and> P (plr_at s q)"
  obtains q where "low_robot P s = Some q" "q \<in> set (playing s)" "Player_is_robot (plr_at s q)" "P (plr_at s q)"
    "\<And>r. r \<in> set (playing s) \<Longrightarrow> Player_is_robot (plr_at s r) \<Longrightarrow> P (plr_at s r) \<Longrightarrow> p_score (plr_at s q) \<le> p_score (plr_at s r)"
proof -
  let ?P = "\<lambda>q. Player_is_robot (plr_at s q) \<and> P (plr_at s q)"
  have "\<exists>q \<in> set (playing s). ?P q \<and> p_score (plr_at s q) < 2147483647"
  proof -
    obtain q where q: "q \<in> set (playing s)" "?P q" using assms(2) by blast
    moreover have "p_score (plr_at s q) < 2 ^ 22" using play_okD(10) [OF assms(1) q(1)] by (simp add: seat_ok_def)
    ultimately show ?thesis by fastforce
  qed
  from low_robot_fold [of "playing s" ?P "\<lambda>q. p_score (plr_at s q)", OF this, of None] obtain q where
    "low_robot P s = Some q" "q \<in> set (playing s)" "?P q" "\<And>r. r \<in> set (playing s) \<Longrightarrow> ?P r \<Longrightarrow> p_score (plr_at s q) \<le> p_score (plr_at s r)"
    unfolding low_robot_def by (simp only: conj_assoc) blast
  then show ?thesis using that by blast
qed

lemma low_robot_none:
  assumes "\<And>q. q \<in> set (playing s) \<Longrightarrow> \<not> (Player_is_robot (plr_at s q) \<and> P (plr_at s q))"
  shows "low_robot P s = None"
proof -
  have "fst (fold (\<lambda>q (r, low). if Player_is_robot (plr_at s q) \<and> P (plr_at s q) \<and> p_score (plr_at s q) < low
     then (Some q, p_score (plr_at s q)) else (r, low)) qs (None, l)) = None" if "set qs \<subseteq> set (playing s)" for qs l
    using that by (induction qs) (use assms in auto)
  then show ?thesis by (simp add: low_robot_def)
qed

lemma player_removed:
  assumes "play_ok s" "p \<in> set (playing s)"
  obtains s' where "Player_remove p s = Some s'" "fewer {p} s s'" "NumPlayers s' = NumPlayers s - 1"
proof -
  have seat: "seat_ok (bases s) (plr_at s q)" if "q \<in> set (playing s)" for q by (rule play_okD(10) [OF assms(1) that])
  obtain s' where "Player_remove p s = Some s'" "play_ok s'" "set (playing s') = set (playing s) - {p}" "NumPlayers s' = NumPlayers s - 1"
    "\<And>q. q \<in> set (playing s') \<Longrightarrow> ident (plr_at s' q) = ident (plr_at s q)" "bases s' = bases s" "rules_mode s' = rules_mode s"
    "robotTeam s' = robotTeam s" "length (Players s') = length (Players s)" "reserveRobotTeam s' = reserveRobotTeam s"
    by (rule Player_remove_play_ok [OF play_okD(6-9) [OF assms(1)] assms(2) seat_team [OF seat [OF assms(2)]] play_okD(13-15) [OF assms(1)]])
      (rule seat, assumption, (rule that; assumption))
  then show ?thesis by (intro that [of s']) (simp_all add: fewer_def)
qed

lemma kick_out_ok:
  assumes "play_ok s" "p \<in> set (playing s)"
  obtains s' where "kick_out p s = Some s'" "fewer {p} s s'" "NumPlayers s' = NumPlayers s - 1"
proof (cases "p_connp (plr_at s p) = None")
  case True
  obtain s' where "Player_remove p s = Some s'" "fewer {p} s s'" "NumPlayers s' = NumPlayers s - 1" using player_removed [OF assms] by blast
  then show ?thesis by (intro that [of s']) (simp_all add: kick_out_def True)
next
  case False
  obtain s' where "drop_connection p s = Some s'" "fewer {p} s s'" "NumPlayers s' = NumPlayers s - 1"
    using drop_connection_ok [OF assms False] by blast
  then show ?thesis by (intro that [of s']) (simp_all only: kick_out_def if_not_P [OF False])
qed

lemma headcount_pos:
  assumes "headcount Q s > 0"
  obtains q where "q \<in> set (playing s)" "Q (plr_at s q)"
proof -
  have "filter (\<lambda>q. Q (plr_at s q)) (playing s) \<noteq> []" using assms by (auto simp: headcount_def)
  then show ?thesis using that by (auto simp: filter_empty_conv)
qed

lemma seat_team_some:
  assumes "play_ok s" "q \<in> set (playing s)"
  obtains t where "p_team (plr_at s q) = Some t" "t < MAX_TEAMS"
  using play_okD(10) [OF assms] that by (auto simp: seat_ok_def)

lemma Robot_kick_ok:
  assumes "play_ok s" "q \<in> set (playing s)" "Player_is_robot (plr_at s q)"
  obtains s' where "Robot_kick q s = Some s'" "fewer {q} s s'" "NumPlayers s' = NumPlayers s - 1"
proof -
  obtain s' where "Player_remove q s = Some s'" "fewer {q} s s'" "NumPlayers s' = NumPlayers s - 1" using player_removed [OF assms(1,2)] by blast
  then show ?thesis by (intro that [of s']) (simp_all add: Robot_kick_def assms(3))
qed

text \<open>Whom \<open>Kick_robot_players\<close> may kick for a client who asked for \<open>team\<close>.\<close>

definition kickable :: "nat option \<Rightarrow> gstate \<Rightarrow> nat \<Rightarrow> bool" where
  "kickable team s q \<longleftrightarrow> q \<in> set (playing s) \<and> Player_is_robot (plr_at s q) \<and>
     (case team of Some t \<Rightarrow> p_team (plr_at s q) = Some t | None \<Rightarrow> \<forall>t. p_team (plr_at s q) = Some t \<longrightarrow> int t \<noteq> robotTeam s)"

lemma kick_low:
  assumes "play_ok s"
    "\<And>q. q \<in> set (playing s) \<Longrightarrow> Player_is_robot (plr_at s q) \<Longrightarrow> P (plr_at s q) \<longleftrightarrow> kickable team s q"
  obtains (kicked) q s' where "(case low_robot P s of Some q \<Rightarrow> map_option (Pair True) (Robot_kick q s) | None \<Rightarrow> Some (False, s)) = Some (True, s')"
      "kickable team s q" "fewer {q} s s'" "NumPlayers s' = NumPlayers s - 1"
      "\<And>r. kickable team s r \<Longrightarrow> p_score (plr_at s q) \<le> p_score (plr_at s r)"
  | (nobody) "(case low_robot P s of Some q \<Rightarrow> map_option (Pair True) (Robot_kick q s) | None \<Rightarrow> Some (False, s)) = Some (False, s)"
      "\<And>r. \<not> kickable team s r"
proof (cases "\<exists>q \<in> set (playing s). Player_is_robot (plr_at s q) \<and> P (plr_at s q)")
  case True
  obtain q where q: "low_robot P s = Some q" "q \<in> set (playing s)" "Player_is_robot (plr_at s q)" "P (plr_at s q)"
    "\<And>r. r \<in> set (playing s) \<Longrightarrow> Player_is_robot (plr_at s r) \<Longrightarrow> P (plr_at s r) \<Longrightarrow> p_score (plr_at s q) \<le> p_score (plr_at s r)"
    by (rule low_robot_ok [OF assms(1) True]) (rule that; (assumption | blast))
  obtain s' where s': "Robot_kick q s = Some s'" "fewer {q} s s'" "NumPlayers s' = NumPlayers s - 1"
    using Robot_kick_ok [OF assms(1) q(2,3)] by blast
  have low: "p_score (plr_at s q) \<le> p_score (plr_at s r)" if "kickable team s r" for r
  proof -
    have "r \<in> set (playing s)" "Player_is_robot (plr_at s r)" using that by (simp_all add: kickable_def)
    then show ?thesis using q(5) assms(2) that by blast
  qed
  have k: "kickable team s q" using assms(2) [OF q(2,3)] q(4) by blast
  show ?thesis by (rule kicked [of s' q]) (use q(1) s' low k in simp_all)
next
  case False
  then have "low_robot P s = None" by (intro low_robot_none) blast
  moreover have "\<not> kickable team s r" for r using False assms(2) [of r] by (auto simp: kickable_def)
  ultimately show ?thesis by (intro nobody) simp_all
qed

lemma Kick_robot_players_ok:
  assumes "play_ok s" "case team of None \<Rightarrow> reserveRobotTeam s | Some t \<Rightarrow> t < MAX_TEAMS"
  obtains (kicked) q s' where "Kick_robot_players team s = Some (True, s')" "kickable team s q" "fewer {q} s s'" "NumPlayers s' = NumPlayers s - 1"
      "\<And>r. kickable team s r \<Longrightarrow> p_score (plr_at s q) \<le> p_score (plr_at s r)"
  | (nobody) "Kick_robot_players team s = Some (False, s)" "\<And>r. \<not> kickable team s r"
proof (cases "NumRobots s = 0")
  case True
  then have "headcount Player_is_robot s = 0" using play_okD(3) [OF assms(1)] by (simp add: counts_ok_def)
  then have "\<not> Player_is_robot (plr_at s q)" if "q \<in> set (playing s)" for q
    using that by (simp add: headcount_def filter_empty_conv)
  then have "\<not> kickable team s r" for r by (auto simp: kickable_def)
  then show ?thesis by (intro nobody) (simp add: Kick_robot_players_def True)
next
  case robots: False
  show ?thesis
  proof (cases team)
    case None
    let ?P = "\<lambda>x. case p_team x of None \<Rightarrow> False | Some t \<Rightarrow> t_Num (teams s ! t) \<noteq> robotTeam s"
    have "\<not> list_ex (\<lambda>q. Player_is_robot (plr_at s q) \<and> p_team (plr_at s q) = None) (playing s)"
      using seat_team [OF play_okD(10) [OF assms(1)]] by (auto simp: list_ex_iff)
    then have run: "Kick_robot_players team s = (case low_robot ?P s of Some q \<Rightarrow> map_option (Pair True) (Robot_kick q s) | None \<Rightarrow> Some (False, s))"
      using robots None assms(2) play_okD(13) [OF assms(1)] by (simp add: Kick_robot_players_def)
    have "?P (plr_at s q) \<longleftrightarrow> kickable team s q" if q: "q \<in> set (playing s)" "Player_is_robot (plr_at s q)" for q
    proof -
      obtain t where "p_team (plr_at s q) = Some t" "t < MAX_TEAMS" by (rule seat_team_some [OF assms(1) q(1)])
      then show ?thesis using q None play_okD(7) [OF assms(1)] by (simp add: kickable_def teams_ok_def)
    qed
    from kick_low [OF assms(1) this] show ?thesis unfolding run [symmetric] using kicked nobody by blast
  next
    case (Some t)
    let ?P = "\<lambda>x. p_team x = Some t"
    have n: "t_NumRobots (teams s ! t) = headcount (\<lambda>x. in_team t x \<and> Player_is_robot x) s"
      using play_okD(3,12) [OF assms(1)] assms(2) Some by (simp add: counts_ok_def)
    show ?thesis
    proof (cases "t_NumRobots (teams s ! t) > 0")
      case True
      then have run: "Kick_robot_players team s = (case low_robot ?P s of Some q \<Rightarrow> map_option (Pair True) (Robot_kick q s) | None \<Rightarrow> Some (False, s))"
        using robots Some by (simp add: Kick_robot_players_def)
      have "?P (plr_at s q) \<longleftrightarrow> kickable team s q" if "q \<in> set (playing s)" "Player_is_robot (plr_at s q)" for q
        using that Some by (simp add: kickable_def)
      from kick_low [OF assms(1) this] show ?thesis unfolding run [symmetric] using kicked nobody by blast
    next
      case False
      then have "\<not> kickable team s r" for r
        unfolding n using Some by (auto simp: headcount_def kickable_def in_team_def filter_empty_conv)
      then show ?thesis using robots Some False by (intro nobody) (simp_all add: Kick_robot_players_def)
    qed
  qed
qed

subsection \<open>The queue\<close>

text \<open>No more players are on a team than it has bases.\<close>

lemma team_homes:
  assumes "play_ok s" "t < MAX_TEAMS" "t \<noteq> PAUSE_TEAM_NUM"
  obtains H where "H \<subseteq> team_bases (bases s) t" "t_NumMembers (teams s ! t) = int (card H)" "\<And>h. h \<in> H \<Longrightarrow> \<not> free_base s (Some t) h"
proof -
  let ?M = "{q \<in> set (playing s). in_team t (plr_at s q)}" and ?B = "team_bases (bases s) t" and ?h = "\<lambda>q. the (p_home (plr_at s q))"
  have home: "\<exists>h. p_home (plr_at s q) = Some h \<and> h \<in> ?B" if "q \<in> ?M" for q
    using play_okD(10) [OF assms(1), of q] that assms(3) by (auto simp: seat_ok_def in_team_def team_bases_def split: option.splits)
  have "inj_on ?h ?M"
  proof (rule inj_onI)
    fix a b assume ab: "a \<in> ?M" "b \<in> ?M" "?h a = ?h b"
    obtain h k where "p_home (plr_at s a) = Some h" "p_home (plr_at s b) = Some k" using home [OF ab(1)] home [OF ab(2)] by blast
    then show "a = b" using ab play_okD(8) [OF assms(1)] unfolding homes_distinct_def by (metis (no_types, lifting) mem_Collect_eq option.distinct(1) option.sel)
  qed
  then have "card (?h ` ?M) = card ?M" by (rule card_image)
  moreover have "t_NumMembers (teams s ! t) = int (card ?M)"
    using play_okD(3,12) [OF assms(1)] assms(2) headcount_card [OF distinct_playing [OF play_okD(1) [OF assms(1)]]]
    by (simp add: counts_ok_def)
  moreover have "?h ` ?M \<subseteq> ?B" using home by force
  moreover have "\<not> free_base s (Some t) h" if "h \<in> ?h ` ?M" for h
    using that home by (force simp: free_base_def nobody_home_def)
  ultimately show ?thesis using that [of "?h ` ?M"] by simp
qed

lemma base_count: "play_ok s \<Longrightarrow> t < MAX_TEAMS \<Longrightarrow> t_NumBases (teams s ! t) = int (card (team_bases (bases s) t))"
  using play_okD(7) [of s] by (simp add: teams_ok_def)

lemma finite_team_bases [simp]: "finite (team_bases bs t)"
  by (simp add: team_bases_def)

lemma members_le:
  assumes "play_ok s" "t < MAX_TEAMS" "t \<noteq> PAUSE_TEAM_NUM"
  shows "t_NumMembers (teams s ! t) \<le> t_NumBases (teams s ! t)"
proof -
  obtain H where "H \<subseteq> team_bases (bases s) t" "t_NumMembers (teams s ! t) = int (card H)" by (rule team_homes [OF assms])
  then show ?thesis using card_mono [of "team_bases (bases s) t" H] base_count [OF assms(1,2)] by simp
qed

lemma full_no_base:
  assumes "play_ok s" "t < MAX_TEAMS" "t \<noteq> PAUSE_TEAM_NUM" "t_NumMembers (teams s ! t) = t_NumBases (teams s ! t)"
  shows "\<not> free_base s (Some t) h"
proof -
  obtain H where H: "H \<subseteq> team_bases (bases s) t" "t_NumMembers (teams s ! t) = int (card H)" "\<And>h. h \<in> H \<Longrightarrow> \<not> free_base s (Some t) h"
    by (rule team_homes [OF assms(1-3)]) (rule that; assumption)
  then have "H = team_bases (bases s) t" using assms(4) base_count [OF assms(1,2)] by (intro card_subset_eq) simp_all
  then show ?thesis using H(3) [of h] by (auto simp: team_bases_def free_base_def)
qed

lemma kick_makes_room:
  assumes "play_ok s" "fewer {q} s s'" "q \<in> set (playing s)" "p_team (plr_at s q) = Some t" "t < MAX_TEAMS" "t \<noteq> PAUSE_TEAM_NUM"
  shows "has_room s' t"
proof -
  have f: "play_ok s'" "set (playing s') = set (playing s) - {q}" "\<And>r. r \<in> set (playing s') \<Longrightarrow> ident (plr_at s' r) = ident (plr_at s r)"
    "bases s' = bases s" using assms(2) by (simp_all add: fewer_def)
  have "headcount (in_team t) s' = headcount (in_team t) s - of_bool (in_team t (plr_at s q))"
    by (rule headcount_removed [OF distinct_playing [OF play_okD(1) [OF assms(1)]] distinct_playing [OF play_okD(1) [OF f(1)]] assms(3) f(2,3)])
      simp_all
  then have "t_NumMembers (teams s' ! t) = t_NumMembers (teams s ! t) - 1"
    using play_okD(3,12) [OF assms(1)] play_okD(3,12) [OF f(1)] assms(4,5) by (simp add: counts_ok_def in_team_def)
  moreover have "t_NumBases (teams s' ! t) = t_NumBases (teams s ! t)"
    using play_okD(7) [OF assms(1)] play_okD(7) [OF f(1)] assms(5) f(4) by (simp add: teams_ok_def)
  ultimately show ?thesis using members_le [OF assms(1,5,6)] assms(5,6) by (simp add: has_room_def)
qed

text \<open>The players of the one state that are in the other, or that state itself.\<close>

definition leaves :: "gstate \<Rightarrow> gstate \<Rightarrow> bool" where "leaves s s' \<longleftrightarrow> s' = s \<or> (\<exists>q. Player_is_robot (plr_at s q) \<and> fewer {q} s s')"

lemma queue_team_ok:
  assumes "play_ok s" "reserveRobotTeam s" "\<And>t. team = Some t \<Longrightarrow> t < MAX_TEAMS \<and> t \<noteq> PAUSE_TEAM_NUM"
  obtains r s' where "queue_team team s = Some (r, s')" "play_ok s'" "leaves s s'" "case r of None \<Rightarrow> True | Some t \<Rightarrow> has_room s' t"
proof -
  obtain v where v: "Team_find_available PL_TYPE_HUMAN s = Some v" "case v of None \<Rightarrow> True | Some t \<Rightarrow> has_room s t"
    using find_available_ok [OF assms(1)] by blast
  have pick: "queue_team team s = Some (v, s)"
    if "(case team of None \<Rightarrow> Some (None, s)
          | Some t \<Rightarrow>
              if t_NumMembers (teams s ! t) \<ge> t_NumBases (teams s ! t) then
                (if t_Num (teams s ! t) = robotTeam s \<and> reserveRobotTeam s then Some (None, s)
                 else do { (k, s1) \<leftarrow> Kick_robot_players (Some t) s; Some (if k then Some t else None, s1) })
              else Some (Some t, s)) = Some (None, s)"
    unfolding queue_team_def that using v(1) assms(2) by simp
  have l: "leaves s s" by (simp add: leaves_def)
  note stay = that [OF pick assms(1) l v(2)]
  show ?thesis
  proof (cases team)
    case None
    then show ?thesis by (intro stay) simp
  next
    case (Some t)
    note t = assms(3) [OF Some]
    show ?thesis
    proof (cases "t_NumMembers (teams s ! t) \<ge> t_NumBases (teams s ! t)")
      case False
      then have run: "queue_team team s = Some (Some t, s)" by (simp add: queue_team_def Some)
      have "case Some t of None \<Rightarrow> True | Some t \<Rightarrow> has_room s t" using False t by (simp add: has_room_def)
      then show ?thesis by (rule that [OF run assms(1) l])
    next
      case full: True
      show ?thesis
      proof (cases "t_Num (teams s ! t) = robotTeam s")
        case True
        then show ?thesis using full Some assms(2) by (intro stay) simp
      next
        case False
        have "case Some t of None \<Rightarrow> reserveRobotTeam s | Some t \<Rightarrow> t < MAX_TEAMS" using t by simp
        from Kick_robot_players_ok [OF assms(1) this] consider
            (kicked) q s' where "Kick_robot_players (Some t) s = Some (True, s')" "kickable (Some t) s q" "fewer {q} s s'"
          | (nobody) "Kick_robot_players (Some t) s = Some (False, s)" by metis
        then show ?thesis
        proof cases
          case kicked
          have q: "q \<in> set (playing s)" "p_team (plr_at s q) = Some t" "Player_is_robot (plr_at s q)" using kicked(2) by (simp_all add: kickable_def)
          have run: "queue_team team s = Some (Some t, s')" using full False kicked(1) by (simp add: queue_team_def Some)
          have l: "leaves s s'" "play_ok s'" using q(3) kicked(3) by (auto simp: leaves_def fewer_def)
          have "case Some t of None \<Rightarrow> True | Some t \<Rightarrow> has_room s' t"
            using kick_makes_room [OF assms(1) kicked(3) q(1,2)] t by simp
          then show ?thesis by (rule that [OF run l(2,1)])
        next
          case nobody
          then show ?thesis using full Some False by (intro stay) simp
        qed
      qed
    qed
  qed
qed

lemma queue_admit_ok:
  assumes "play_ok s" "reserveRobotTeam s" "\<And>t. team = Some t \<Longrightarrow> t < MAX_TEAMS \<and> t \<noteq> PAUSE_TEAM_NUM"
  obtains r s' where "queue_admit logins team s = Some (r, s')" "play_ok s'" "set (playing s') \<subseteq> set (playing s)"
    "\<And>q. q \<in> set (playing s) \<Longrightarrow> \<not> Player_is_robot (plr_at s q) \<Longrightarrow> q \<in> set (playing s')"
    "case r of None \<Rightarrow> True | Some t \<Rightarrow> has_room s' t" "r \<noteq> None \<Longrightarrow> base_left logins s \<or> NumPlayers s' < NumPlayers s"
proof -
  have lv: "set (playing s') \<subseteq> set (playing s)" "\<And>q. q \<in> set (playing s) \<Longrightarrow> \<not> Player_is_robot (plr_at s q) \<Longrightarrow> q \<in> set (playing s')"
    if "leaves s s'" for s s' using that by (auto simp: leaves_def fewer_def)
  have rob: "Player_is_robot (plr_at s' q) = Player_is_robot (plr_at s q)" if "leaves s s'" "q \<in> set (playing s')" for s s' q
    using that by (auto simp: leaves_def fewer_def ident_def player_is_defs)
  have num: "NumPlayers s' = length (playing s')" if "play_ok s'" for s'
    using play_okD(1) [OF that] by (simp add: playing_def registry_ok_def)
  show ?thesis
  proof (cases "base_left logins s")
    case True
    obtain r s' where r: "queue_team team s = Some (r, s')" "play_ok s'" "leaves s s'" "case r of None \<Rightarrow> True | Some t \<Rightarrow> has_room s' t"
      by (rule queue_team_ok [OF assms])
    have "queue_admit logins team s = Some (r, s')" using True r(1) play_okD(13) [OF assms(1)] by (simp add: queue_admit_def)
    then show ?thesis by (rule that [OF _ r(2) lv(1) [OF r(3)] lv(2) [OF r(3)] r(4)]) (use True in simp_all)
  next
    case False
    have "case None of None \<Rightarrow> reserveRobotTeam s | Some t \<Rightarrow> t < MAX_TEAMS" using assms(2) by simp
    from Kick_robot_players_ok [OF assms(1) this] consider
        (kicked) q s1 where "Kick_robot_players None s = Some (True, s1)" "kickable None s q" "fewer {q} s s1" "NumPlayers s1 = NumPlayers s - 1"
      | (nobody) "Kick_robot_players None s = Some (False, s)" by metis
    then show ?thesis
    proof cases
      case nobody
      then have "queue_admit logins team s = Some (None, s)" using False by (simp add: queue_admit_def)
      then show ?thesis by (rule that [OF _ assms(1)]) simp_all
    next
      case kicked
      have l1: "leaves s s1" using kicked(2,3) by (auto simp: leaves_def kickable_def)
      have s1: "play_ok s1" "reserveRobotTeam s1" using kicked(3) assms(2) by (simp_all add: fewer_def)
      have "q \<in> set (playing s)" using kicked(2) by (simp add: kickable_def)
      then have "playing s \<noteq> []" by auto
      then have less: "NumPlayers s1 < NumPlayers s" using kicked(4) num [OF assms(1)] by simp
      show ?thesis
      proof (cases "base_left logins s1")
        case no: False
        then have "queue_admit logins team s = Some (None, s1)" using False kicked(1) by (simp add: queue_admit_def)
        then show ?thesis by (rule that [OF _ s1(1) lv(1) [OF l1] lv(2) [OF l1]]) simp_all
      next
        case True
        obtain r s' where r: "queue_team team s1 = Some (r, s')" "play_ok s'" "leaves s1 s'" "case r of None \<Rightarrow> True | Some t \<Rightarrow> has_room s' t"
          by (rule queue_team_ok [OF s1 assms(3)])
        have "queue_admit logins team s = Some (r, s')" using True False kicked(1) r(1) play_okD(13) [OF s1(1)] by (simp add: queue_admit_def)
        moreover have "set (playing s') \<subseteq> set (playing s)" using lv(1) [OF l1] lv(1) [OF r(3)] by blast
        moreover have "q \<in> set (playing s')" if "q \<in> set (playing s)" "\<not> Player_is_robot (plr_at s q)" for q
        proof -
          have "q \<in> set (playing s1)" by (rule lv(2) [OF l1 that])
          then show ?thesis using lv(2) [OF r(3)] rob [OF l1] that(2) by blast
        qed
        moreover have "NumPlayers s' < NumPlayers s"
        proof -
          have "length (playing s') = card (set (playing s'))" "length (playing s1) = card (set (playing s1))"
            using distinct_card [OF distinct_playing [OF play_okD(1) [OF r(2)]]] distinct_card [OF distinct_playing [OF play_okD(1) [OF s1(1)]]] by simp_all
          moreover have "card (set (playing s')) \<le> card (set (playing s1))" using lv(1) [OF r(3)] by (intro card_mono) simp_all
          ultimately show ?thesis using less num [OF r(2)] num [OF s1(1)] by simp
        qed
        ultimately show ?thesis using that [OF _ r(2) _ _ r(4)] by blast
      qed
    qed
  qed
qed

end
