(* ===== verification/Team_Ops.thy ===== *)
theory Team_Ops
  imports Team_Entry
begin

text \<open>
  All operations of a team game together: the keys of a player (\<open>server/event.c\<close>), commands, arrivals and departures as a
  step relation, and what holds in every state it reaches. The last part has the inputs on which the code fails.
\<close>

subsection \<open>Keys\<close>

text \<open>A block is a base if a base stands there.\<close>

definition home_key :: "nat \<Rightarrow> gstate \<Rightarrow> gstate option" where
  "home_key p s =
     (case Map_get_base_by_pos (p_bx (plr_at s p)) (p_by (plr_at s p)) s of
        None \<Rightarrow> Some s
      | Some b \<Rightarrow> Some (Player_change_home p b s))"

definition pause_key :: "(nat \<Rightarrow> nat \<Rightarrow> rat) \<Rightarrow> nat \<Rightarrow> gstate \<Rightarrow> gstate option" where
  "pause_key d p s = (if \<not> Player_is_paused (plr_at s p) then Player_pause_self d p s else Player_unpause d p None s)"

lemma get_base_some: "Map_get_base_by_pos x y s = Some b \<Longrightarrow> b < length (bases s)"
  using find_mem [of _ "[0..<length (bases s)]" b] by (auto simp: Map_get_base_by_pos_def)

subsection \<open>The steps\<close>

datatype team_op = Login "nat option" "byte list" nat | Robot_enters "byte list" | Kicked nat | Robot_leaves | Pause_key nat
  | Pause_forced nat | Team_command nat int | Home_key nat

fun perform :: "(nat \<Rightarrow> nat \<Rightarrow> rat) \<Rightarrow> team_op \<Rightarrow> gstate \<Rightarrow> gstate option" where
  "perform d (Login team nick c) s = map_option snd (Login_player team nick c s)"
| "perform d (Robot_enters name) s = map_option snd (Robot_add name s)"
| "perform d (Kicked p) s = kick_out p s"
| "perform d Robot_leaves s = Robot_remove None s"
| "perform d (Pause_key p) s = pause_key d p s"
| "perform d (Pause_forced p) s = Player_pause_forced d p s"
| "perform d (Team_command p t) s = map_option snd (Cmd_team d p t s)"
| "perform d (Home_key p) s = home_key p s"

text \<open>Names are C strings; the team chosen for a client, if any, still has room; a robot comes when there is room for it on
  the robot team; a paused player does not ask for the team of the pausers.\<close>

fun allowed :: "team_op \<Rightarrow> gstate \<Rightarrow> bool" where
  "allowed (Login team nick c) s \<longleftrightarrow> terminated nick \<and> (case team of None \<Rightarrow> True | Some t \<Rightarrow> has_room s t)"
| "allowed (Robot_enters name) s \<longleftrightarrow> terminated name \<and> NumPlayers s < length (bases s) \<and>
     (case Team_get_by_id (robotTeam s) of None \<Rightarrow> False | Some t \<Rightarrow> has_room s t)"
| "allowed (Kicked p) s \<longleftrightarrow> p \<in> set (playing s)"
| "allowed Robot_leaves s \<longleftrightarrow> True"
| "allowed (Pause_key p) s \<longleftrightarrow> p \<in> set (playing s)"
| "allowed (Pause_forced p) s \<longleftrightarrow> p \<in> set (playing s)"
| "allowed (Team_command p t) s \<longleftrightarrow> p \<in> set (playing s) \<and> Player_is_human (plr_at s p) \<and>
     \<not> (Player_is_paused (plr_at s p) \<and> t = int PAUSE_TEAM_NUM)"
| "allowed (Home_key p) s \<longleftrightarrow> p \<in> set (playing s) \<and> Player_is_alive (plr_at s p)"

lemma Robot_remove_ok:
  assumes "play_ok s"
  obtains s' where "Robot_remove None s = Some s'" "play_ok s'"
proof (cases "\<exists>q \<in> set (playing s). Player_is_robot (plr_at s q) \<and> True")
  case True
  obtain q where q: "low_robot (\<lambda>x. True) s = Some q" "q \<in> set (playing s)" "Player_is_robot (plr_at s q)"
    by (rule low_robot_ok [OF assms True]) (rule that)
  obtain s' where "Player_remove q s = Some s'" "fewer {q} s s'" using player_removed [OF assms q(2)] by blast
  then show ?thesis by (intro that [of s']) (use q(1,3) in \<open>simp_all add: Robot_remove_def fewer_def\<close>)
next
  case False
  then have "low_robot (\<lambda>x. True) s = None" by (intro low_robot_none) blast
  then show ?thesis by (intro that [OF _ assms]) (simp add: Robot_remove_def)
qed

lemma kept_play_ok: "kept_by p s s' \<Longrightarrow> play_ok s'"
  by (simp add: kept_by_def)

lemma perform_ok:
  assumes "play_ok s" "allowed a s"
  shows "\<exists>s'. perform d a s = Some s' \<and> play_ok s'"
proof (cases a)
  case (Login team nick c)
  have room: "has_room s t" if "team = Some t" for t using assms(2) that by (simp add: Login)
  have nick: "terminated nick" using assms(2) by (simp add: Login)
  from Login_player_ok [OF assms(1) room nick, of team c] consider "Login_player team nick c s = Some (None, s)"
    | p s' where "Login_player team nick c s = Some (Some p, s')" "play_ok s'" by metis
  then show ?thesis using assms(1) by cases (simp_all add: Login)
next
  case (Robot_enters name)
  then obtain t where t: "Team_get_by_id (robotTeam s) = Some t" "has_room s t" "terminated name" "NumPlayers s < length (Players s)"
    using assms(2) play_okD(14) [OF assms(1)] by (auto split: option.splits)
  obtain s' where "Robot_add name s = Some (True, s')" "play_ok s'" using Robot_add_ok [OF assms(1) t(1,2,4,3)] by blast
  then show ?thesis by (simp add: Robot_enters)
next
  case (Kicked p)
  then have "p \<in> set (playing s)" using assms(2) by simp
  then obtain s' where "kick_out p s = Some s'" "fewer {p} s s'" using kick_out_ok [OF assms(1)] by blast
  then show ?thesis by (simp add: Kicked fewer_def)
next
  case Robot_leaves
  obtain s' where "Robot_remove None s = Some s'" "play_ok s'" by (rule Robot_remove_ok [OF assms(1)])
  then show ?thesis by (simp add: Robot_leaves)
next
  case (Pause_key p)
  then have p: "p \<in> set (playing s)" using assms(2) by simp
  show ?thesis
  proof (cases "Player_is_paused (plr_at s p)")
    case True
    obtain s' where "Player_unpause d p None s = Some s'" "kept_by p s s'" using Player_unpause_ok [OF assms(1) p, of None] by blast
    then show ?thesis using True kept_play_ok by (simp add: Pause_key pause_key_def)
  next
    case False
    obtain s' where "Player_pause_self d p s = Some s'" "kept_by p s s'" using Player_pause_self_ok [OF assms(1) p False] by blast
    then show ?thesis using False kept_play_ok by (simp add: Pause_key pause_key_def)
  qed
next
  case (Pause_forced p)
  then have "p \<in> set (playing s)" using assms(2) by simp
  then obtain s' where "Player_pause_forced d p s = Some s'" "kept_by p s s'" using Player_pause_forced_ok [OF assms(1)] by blast
  then show ?thesis using kept_play_ok by (simp add: Pause_forced)
next
  case (Team_command p t)
  then have p: "p \<in> set (playing s)" "Player_is_human (plr_at s p)" "\<not> (Player_is_paused (plr_at s p) \<and> t = int PAUSE_TEAM_NUM)"
    using assms(2) by simp_all
  obtain b s' where "Cmd_team d p t s = Some (b, s')" "kept_by p s s'" using Cmd_team_ok [OF assms(1) p] by blast
  then show ?thesis using kept_play_ok by (simp add: Team_command)
next
  case (Home_key p)
  then have p: "p \<in> set (playing s)" "\<not> Player_is_paused (plr_at s p)" using assms(2) by (simp_all add: player_is_defs)
  show ?thesis
  proof (cases "Map_get_base_by_pos (p_bx (plr_at s p)) (p_by (plr_at s p)) s")
    case None
    then show ?thesis using assms(1) by (simp add: Home_key home_key_def)
  next
    case (Some b)
    have "kept_by p s (Player_change_home p b s)" by (rule Player_change_home_ok [OF assms(1) p get_base_some [OF Some]])
    then show ?thesis using Some kept_play_ok by (simp add: Home_key home_key_def)
  qed
qed

inductive team_reach :: "(nat \<Rightarrow> nat \<Rightarrow> rat) \<Rightarrow> gstate \<Rightarrow> gstate \<Rightarrow> bool" for d and s0 where
  start: "team_reach d s0 s0"
| step: "team_reach d s0 s \<Longrightarrow> allowed a s \<Longrightarrow> perform d a s = Some s' \<Longrightarrow> team_reach d s0 s'"

lemma reach_play_ok:
  assumes "team_reach d s0 s" "play_ok s0"
  shows "play_ok s"
  using assms
proof (induction rule: team_reach.induct)
  case (step s a s')
  then show ?case using perform_ok [of s a d] by auto
qed

text \<open>Where everybody sits.\<close>

lemma play_ok_seats:
  assumes "play_ok s" "p \<in> set (playing s)"
  shows "\<exists>t < MAX_TEAMS. p_team (plr_at s p) = Some t \<and>
    (if t = PAUSE_TEAM_NUM then Player_is_paused (plr_at s p) \<and> p_home (plr_at s p) = None
     else \<not> Player_is_paused (plr_at s p) \<and> (\<exists>h < length (bases s). p_home (plr_at s p) = Some h \<and> b_team (bases s ! h) = Some t \<and>
       (\<forall>q \<in> set (playing s). p_home (plr_at s q) = Some h \<longrightarrow> q = p)))"
proof -
  obtain t where t: "t < MAX_TEAMS" "p_team (plr_at s p) = Some t" "Player_is_paused (plr_at s p) \<longleftrightarrow> t = PAUSE_TEAM_NUM"
    "case p_home (plr_at s p) of None \<Rightarrow> Player_is_paused (plr_at s p)
     | Some h \<Rightarrow> \<not> Player_is_paused (plr_at s p) \<and> h < length (bases s) \<and> b_team (bases s ! h) = Some t"
    using play_okD(10) [OF assms] unfolding seat_ok_def by blast
  show ?thesis
  proof (cases "p_home (plr_at s p)")
    case None
    then show ?thesis using t by (intro exI [of _ t]) simp
  next
    case (Some h)
    have "\<forall>q \<in> set (playing s). p_home (plr_at s q) = Some h \<longrightarrow> q = p"
      using play_okD(8) [OF assms(1)] assms(2) Some unfolding homes_distinct_def by (metis option.distinct(1))
    then show ?thesis using t Some by (intro exI [of _ t]) simp
  qed
qed

subsection \<open>A game that has just started\<close>

definition start_game :: gstate where
  "start_game = empty_game\<lparr>Players := [0..<20], playerArray := replicate 20 plr_zero,
     teams := map (\<lambda>i. \<lparr>t_Num = int i, t_NumMembers = 0, t_NumRobots = 0,
       t_NumBases = (if i = 1 then 2 else if i \<in> {2, 3} then 1 else 0), t_NumTreasures = 0, t_TreasuresDestroyed = 0,
       t_TreasuresLeft = 0, t_Swapper = None, t_Properties = (if i = PAUSE_TEAM_NUM then TEAM_ONLY_PAUSERS else 0)\<rparr>) [0..<MAX_TEAMS],
     bases := map (\<lambda>t. \<lparr>b_bx = int t, b_by = 0, b_team = Some t\<rparr>) [1, 1, 2, 3], reserveRobotTeam := True,
     game_random := the (seedMT 1 mt_initial)\<rparr>"

lemma team_bases_card: "card (team_bases bs k) = length (filter (\<lambda>b. b_team b = Some k) bs)"
  by (simp add: team_bases_def length_filter_conv_card)

lemma start_rng: "rng_ok (the (seedMT 1 mt_initial))"
proof -
  have "length (state mt_initial) = 625" by (simp add: mt_initial_def)
  then obtain g where "seedMT 1 mt_initial = Some g" "left g = 0" "holds_window (1 OR 1) 0 (state g)" by (rule seedMT_ok)
  then have "mt_after 1 0 g" by (auto simp: mt_after_def intro: exI [of _ 0])
  then show ?thesis using \<open>seedMT 1 mt_initial = Some g\<close> by (auto simp: rng_ok_def)
qed

lemma start_simps:
  "Players start_game = [0..<20]" "NumPlayers start_game = 0" "playing start_game = []" "live_objects start_game = []"
  "length (bases start_game) = 4" "reserveRobotTeam start_game" "rules_mode start_game = TEAM_PLAY" "robotTeam start_game = 3"
  "length (teams start_game) = MAX_TEAMS" "length (playerArray start_game) = 20" "NumPaused start_game = 0" "NumRobots start_game = 0"
  by (simp_all add: start_game_def empty_game_def playing_def live_objects_def)

lemma start_team:
  assumes "k < MAX_TEAMS"
  shows "t_Num (teams start_game ! k) = int k" "t_NumMembers (teams start_game ! k) = 0" "t_NumRobots (teams start_game ! k) = 0"
    "t_NumBases (teams start_game ! k) = (if k = 1 then 2 else if k \<in> {2, 3} then 1 else 0)" "t_Swapper (teams start_game ! k) = None"
    "t_Properties (teams start_game ! k) = (if k = PAUSE_TEAM_NUM then TEAM_ONLY_PAUSERS else 0)"
  using assms by (simp_all add: start_game_def empty_game_def)

lemma start_game_ok: "play_ok start_game"
proof -
  have "ids_hold ids_initial (map int [1..<257]) {}"
    by (rule initial_holds) (simp_all add: ids_initial_def)
  then have "registry_ok start_game"
    unfolding registry_ok_def start_simps by (auto simp: start_game_def empty_game_def)
  moreover have "refs_ok start_game"
    unfolding refs_ok_def start_simps by (auto simp: in_set_conv_nth start_simps start_team)
  moreover have "counts_ok start_game"
    unfolding counts_ok_def headcount_def start_simps by (simp add: start_team) (simp add: start_game_def empty_game_def)
  moreover have "robots_ok start_game" "live_bound start_game" "homes_distinct start_game"
    by (simp_all add: robots_ok_def live_bound_def homes_distinct_def start_simps)
  moreover have "teams_ok start_game"
  proof -
    have bs: "bases start_game = map (\<lambda>t. \<lparr>b_bx = int t, b_by = 0, b_team = Some t\<rparr>) [1, 1, 2, 3]" by (simp add: start_game_def)
    have "t_NumBases (teams start_game ! k) = int (card (team_bases (bases start_game) k))" if "k < MAX_TEAMS" for k
      using start_team(4) [OF that] by (auto simp: team_bases_card bs)
    moreover have "PAUSE_TEAM_NUM < MAX_TEAMS" by (simp add: PAUSE_TEAM_NUM_def MAX_TEAMS_def)
    moreover have "\<forall>b \<in> set (bases start_game). b_team b \<noteq> None" by (simp add: bs)
    ultimately show ?thesis by (simp add: teams_ok_def start_simps start_team)
  qed
  moreover have "rng_ok (game_random start_game)" using start_rng by (simp add: start_game_def)
  ultimately show ?thesis
    by (simp add: play_ok_def game_ok_def start_simps MAX_PSEUDO_PLAYERS_def has_bit_def TEAM_PLAY_def)
qed

lemma start_room: "has_room start_game 1" "has_room start_game 2" "has_room start_game 3"
  using start_team [of 1] start_team [of 2] start_team [of 3] by (simp_all add: has_room_def MAX_TEAMS_def PAUSE_TEAM_NUM_def)

lemma start_with_robot:
  obtains p s where "play_ok s" "joined p 3 start_game s" "p_type (plr_at s p) = PL_TYPE_ROBOT"
proof -
  have t: "Team_get_by_id (robotTeam start_game) = Some 3" "NumPlayers start_game < length (Players start_game)" "terminated [65, 0]"
    by (simp_all add: Team_get_by_id_def start_simps MAX_TEAMS_def)
  show ?thesis using Robot_add_ok [OF start_game_ok t(1) start_room(3) t(2,3)] that by blast
qed

subsection \<open>Every player has a place\<close>

text \<open>C2. Whatever sequence of logins, kicks, arrivals and departures of robots, pauses, team commands and changes of homes
  happens, the game never gets stuck or fails: every allowed operation returns. In every state reached each active player
  lives alone on a base of his own team and the paused ones, exactly those on the pausers' team, have given theirs up; no
  team has more members than bases, and the counts of members and paused players are right.\<close>

theorem team_play_safe:
  assumes "play_ok s0" "team_reach d s0 s"
  shows "(\<forall>a. allowed a s \<longrightarrow> (\<exists>s'. perform d a s = Some s' \<and> team_reach d s0 s')) \<and>
    (\<forall>p \<in> set (playing s). \<exists>t < MAX_TEAMS. p_team (plr_at s p) = Some t \<and>
      (if t = PAUSE_TEAM_NUM then Player_is_paused (plr_at s p) \<and> p_home (plr_at s p) = None
       else \<not> Player_is_paused (plr_at s p) \<and> (\<exists>h < length (bases s). p_home (plr_at s p) = Some h \<and> b_team (bases s ! h) = Some t \<and>
         (\<forall>q \<in> set (playing s). p_home (plr_at s q) = Some h \<longrightarrow> q = p)))) \<and>
    (\<forall>t < MAX_TEAMS. t_NumMembers (teams s ! t) = headcount (in_team t) s \<and>
      (t \<noteq> PAUSE_TEAM_NUM \<longrightarrow> t_NumMembers (teams s ! t) \<le> t_NumBases (teams s ! t))) \<and>
    NumPaused s = headcount Player_is_paused s"
proof -
  have ok: "play_ok s" by (rule reach_play_ok [OF assms(2,1)])
  have "\<exists>s'. perform d a s = Some s' \<and> team_reach d s0 s'" if "allowed a s" for a
    using perform_ok [OF ok that, of d] team_reach.step [OF assms(2) that] by blast
  moreover have "\<forall>t < MAX_TEAMS. t_NumMembers (teams s ! t) = headcount (in_team t) s \<and>
      (t \<noteq> PAUSE_TEAM_NUM \<longrightarrow> t_NumMembers (teams s ! t) \<le> t_NumBases (teams s ! t))" "NumPaused s = headcount Player_is_paused s"
    using play_okD(3,12) [OF ok] members_le [OF ok] by (simp_all add: counts_ok_def)
  ultimately show ?thesis using play_ok_seats [OF ok] by blast
qed

theorem team_play_safe_witness:
  "\<exists>s. perform (\<lambda>_ _. 0) (Login None [65, 0] 7) start_game = Some s \<and> team_reach (\<lambda>_ _. 0) start_game s"
proof -
  have "allowed (Login None [65, 0] 7) start_game" by simp
  then show ?thesis using conjunct1 [OF team_play_safe [OF start_game_ok team_reach.start, of "\<lambda>_ _. 0"]] by blast
qed

text \<open>C5. A client who logs in to a team with room, under a name nobody uses, becomes the last player of the list: it is put
  on that team and on a base of it on which nobody lives, and nobody else notices.\<close>

theorem Login_player_seats:
  assumes "play_ok s" "has_room s t" "terminated nick" "\<not> name_taken nick s"
    "int (NumPlayers s) < int (length (bases s)) + MAX_PAUSED_PLAYERS"
  shows "\<exists>p s'. Login_player (Some t) nick c s = Some (Some p, s') \<and> play_ok s' \<and> playing s' = playing s @ [p] \<and> p \<notin> set (playing s) \<and>
    (\<forall>q. q \<noteq> p \<longrightarrow> plr_at s' q = plr_at s q) \<and> p_team (plr_at s' p) = Some t \<and> p_name (plr_at s' p) = nick \<and>
    p_connp (plr_at s' p) = Some c \<and>
    (\<exists>h < length (bases s'). p_home (plr_at s' p) = Some h \<and> b_team (bases s' ! h) = Some t \<and>
       (\<forall>q \<in> set (playing s'). p_home (plr_at s' q) = Some h \<longrightarrow> q = p))"
proof (rule Login_player_ok [OF assms(1) _ assms(3), of "Some t" c])
  show "has_room s k" if "Some t = Some k" for k using assms(2) that by simp
next
  assume "int (length (bases s)) + MAX_PAUSED_PLAYERS \<le> int (NumPlayers s) \<or> name_taken nick s \<or> Some t = None"
  then show ?thesis using assms(4,5) by simp
next
  fix p k s'
  assume l: "Login_player (Some t) nick c s = Some (Some p, s')" "play_ok s'" "joined p k s s'" "Some t \<noteq> None \<Longrightarrow> Some t = Some k"
    "p_connp (plr_at s' p) = Some c" "p_name (plr_at s' p) = nick" "p_home (plr_at s' p) \<noteq> None"
  have "k = t" using l(4) by simp
  note j = joinedD [OF l(3)]
  have "p \<in> set (playing s')" by (simp add: j(2))
  from play_ok_seats [OF l(2) this] obtain h where h: "h < length (bases s')" "p_home (plr_at s' p) = Some h" "b_team (bases s' ! h) = Some t"
    "\<forall>q \<in> set (playing s'). p_home (plr_at s' q) = Some h \<longrightarrow> q = p"
    using l(7) j(7) \<open>k = t\<close> by (metis option.inject)
  then have "\<exists>h < length (bases s'). p_home (plr_at s' p) = Some h \<and> b_team (bases s' ! h) = Some t \<and>
       (\<forall>q \<in> set (playing s'). p_home (plr_at s' q) = Some h \<longrightarrow> q = p)" by blast
  with l(1,2,5,6) j(2-4,7) \<open>k = t\<close> show ?thesis by blast
qed

theorem Login_player_seats_witness:
  "\<exists>p s'. Login_player (Some 2) [65, 0] 7 start_game = Some (Some p, s') \<and> p_name (plr_at s' p) = [65, 0] \<and> p_team (plr_at s' p) = Some 2"
proof -
  have "\<not> name_taken [65, 0] start_game" by (simp add: name_taken_def start_simps)
  moreover have "int (NumPlayers start_game) < int (length (bases start_game)) + MAX_PAUSED_PLAYERS" by (simp add: start_simps MAX_PAUSED_PLAYERS_def)
  ultimately show ?thesis using Login_player_seats [OF start_game_ok start_room(2), of "[65, 0]" 7] by auto
qed

text \<open>C4. A client whom the queue lets in is seated when it logs in, and no human player is kicked for it, under these
  conditions: robots have a team of their own (\<open>reserveRobotTeam\<close>), the client did not ask for the pausers' team, it
  logs in before anything else happens in the game, in particular before another client does
  (otherwise the server may crash, as shown below), nobody has its name and the limit of players is not reached. Then the queue has chosen a
  team with room or made room by kicking a robot.\<close>

theorem admitted_client_seated:
  assumes "play_ok s" "reserveRobotTeam s" "case team of None \<Rightarrow> True | Some t \<Rightarrow> t < MAX_TEAMS \<and> t \<noteq> PAUSE_TEAM_NUM"
    "queue_admit logins team s = Some (Some t, s1)" "terminated nick" "\<not> name_taken nick s1"
    "int (NumPlayers s1) < int (length (bases s1)) + MAX_PAUSED_PLAYERS"
  shows "\<exists>p s2. Login_player (Some t) nick c s1 = Some (Some p, s2) \<and> play_ok s2 \<and> p_connp (plr_at s2 p) = Some c \<and>
    p_home (plr_at s2 p) \<noteq> None \<and> (\<forall>q \<in> set (playing s). \<not> Player_is_robot (plr_at s q) \<longrightarrow> q \<in> set (playing s2))"
proof -
  have team: "k < MAX_TEAMS \<and> k \<noteq> PAUSE_TEAM_NUM" if "team = Some k" for k using assms(3) that by simp
  obtain r s' where r: "queue_admit logins team s = Some (r, s')" "play_ok s'"
    "\<And>q. q \<in> set (playing s) \<Longrightarrow> \<not> Player_is_robot (plr_at s q) \<Longrightarrow> q \<in> set (playing s')"
    "case r of None \<Rightarrow> True | Some t \<Rightarrow> has_room s' t"
    by (rule queue_admit_ok [OF assms(1,2), of team logins]) (rule team, assumption, (rule that; (assumption | blast)))
  have eq: "r = Some t" "s' = s1" using r(1) assms(4) by simp_all
  have room: "has_room s1 t" using r(4) unfolding eq by simp
  show ?thesis
  proof (rule Login_player_ok [OF r(2) [unfolded eq(2)] _ assms(5), of "Some t" c])
    show "has_room s1 k" if "Some t = Some k" for k using room that by simp
  next
    assume "int (length (bases s1)) + MAX_PAUSED_PLAYERS \<le> int (NumPlayers s1) \<or> name_taken nick s1 \<or> Some t = None"
    then show ?thesis using assms(6,7) by simp
  next
    fix p k s2
    assume l: "Login_player (Some t) nick c s1 = Some (Some p, s2)" "play_ok s2" "joined p k s1 s2"
      "p_connp (plr_at s2 p) = Some c" "p_home (plr_at s2 p) \<noteq> None"
    have "q \<in> set (playing s2)" if "q \<in> set (playing s)" "\<not> Player_is_robot (plr_at s q)" for q
      using r(3) [OF that] joinedD(2) [OF l(3)] by (simp add: eq)
    with l show ?thesis by blast
  qed
qed

theorem admitted_client_seated_witness:
  "queue_admit 0 (Some 1) start_game = Some (Some 1, start_game) \<and>
   (\<exists>p s2. Login_player (Some 1) [65, 0] 7 start_game = Some (Some p, s2) \<and> p_connp (plr_at s2 p) = Some 7)"
proof -
  have one: "1 < MAX_TEAMS" "1 \<noteq> PAUSE_TEAM_NUM" by (simp_all add: MAX_TEAMS_def PAUSE_TEAM_NUM_def)
  have q: "queue_admit 0 (Some 1) start_game = Some (Some 1, start_game)"
    using start_team [OF one(1)] by (simp add: queue_admit_def queue_team_def base_left_def start_simps has_bit_def TEAM_PLAY_def)
  moreover have "\<not> name_taken [65, 0] start_game" by (simp add: name_taken_def start_simps)
  moreover have "int (NumPlayers start_game) < int (length (bases start_game)) + MAX_PAUSED_PLAYERS" by (simp add: start_simps MAX_PAUSED_PLAYERS_def)
  ultimately show ?thesis
    using admitted_client_seated [OF start_game_ok start_simps(6), of "Some 1" 0 1 start_game "[65, 0]" 7] one by auto
qed

subsection \<open>Kicking and leaving\<close>

lemma no_robots_kickable:
  assumes "play_ok s" "NumRobots s = 0"
  shows "\<not> kickable team s q"
proof -
  have "headcount Player_is_robot s = 0" using play_okD(3) [OF assms(1)] assms(2) by (simp add: counts_ok_def)
  then have "\<not> Player_is_robot (plr_at s q)" if "q \<in> set (playing s)" for q
    using that by (simp add: headcount_def filter_empty_conv)
  then show ?thesis by (auto simp: kickable_def)
qed

text \<open>C36. To make room for a client the server kicks exactly one robot, one with the lowest score among those on the
  (existing) team asked for, or on other teams than that of the robots when no team was asked for; if there is no such
  robot nothing changes. There is one exception: when no team was asked for, the robots have no team of their own
  (\<open>reserveRobotTeam\<close> off) and there are robots, \<open>Robot_kick\<close> gets the null pointer and the server crashes.\<close>

theorem Kick_robot_players_lowest:
  assumes "play_ok s" "\<forall>t. team = Some t \<longrightarrow> t < MAX_TEAMS"
  shows "if team = None \<and> \<not> reserveRobotTeam s \<and> NumRobots s \<noteq> 0 then Kick_robot_players team s = None
    else if \<exists>q. kickable team s q
    then \<exists>q s'. Kick_robot_players team s = Some (True, s') \<and> kickable team s q \<and>
      (\<forall>r. kickable team s r \<longrightarrow> p_score (plr_at s q) \<le> p_score (plr_at s r)) \<and> play_ok s' \<and> set (playing s') = set (playing s) - {q}
    else Kick_robot_players team s = Some (False, s)" (is "if _ then _ else ?R")
proof -
  consider (null) "team = None" "\<not> reserveRobotTeam s" "NumRobots s \<noteq> 0" | (none) "NumRobots s = 0"
    | (kick) "case team of None \<Rightarrow> reserveRobotTeam s | Some t \<Rightarrow> t < MAX_TEAMS"
    using assms(2) by (cases team) auto
  then show ?thesis
  proof cases
    case null
    then show ?thesis by (simp add: Kick_robot_players_def)
  next
    case none
    have "Kick_robot_players team s = Some (False, s)" by (simp add: Kick_robot_players_def none)
    then show ?thesis using no_robots_kickable [OF assms(1) none] none by simp
  next
    case kick
    have no_null: "\<not> (team = None \<and> \<not> reserveRobotTeam s \<and> NumRobots s \<noteq> 0)" using kick by (cases team) auto
    have ?R
    proof (rule Kick_robot_players_ok [OF assms(1) kick])
      fix q s'
      assume k: "Kick_robot_players team s = Some (True, s')" "kickable team s q" "fewer {q} s s'"
        "\<And>r. kickable team s r \<Longrightarrow> p_score (plr_at s q) \<le> p_score (plr_at s r)"
      have "play_ok s'" "set (playing s') = set (playing s) - {q}" using k(3) by (simp_all add: fewer_def)
      with k(1,2,4) show ?R by auto
    next
      assume "Kick_robot_players team s = Some (False, s)" "\<And>r. \<not> kickable team s r"
      then show ?R by simp
    qed
    then show ?thesis unfolding if_not_P [OF no_null] .
  qed
qed

theorem Kick_robot_players_lowest_witness:
  "\<exists>s q s'. play_ok s \<and> kickable (Some 3) s q \<and> Kick_robot_players (Some 3) s = Some (True, s') \<and> set (playing s') = set (playing s) - {q}"
proof -
  have t: "3 < MAX_TEAMS" by (simp add: MAX_TEAMS_def)
  obtain p s where s: "play_ok s" "joined p 3 start_game s" "p_type (plr_at s p) = PL_TYPE_ROBOT" by (rule start_with_robot)
  have "kickable (Some 3) s p" using s(3) joinedD(2,7) [OF s(2)] by (simp add: kickable_def player_is_defs)
  then have ex: "\<exists>q. kickable (Some 3) s q" by blast
  have no_null: "\<not> (Some 3 = None \<and> \<not> reserveRobotTeam s \<and> NumRobots s \<noteq> 0)" by simp
  have "\<forall>t. Some 3 = Some t \<longrightarrow> t < MAX_TEAMS" using t by simp
  from Kick_robot_players_lowest [OF s(1) this, unfolded if_not_P [OF no_null] if_P [OF ex]] s(1) show ?thesis by blast
qed

lemma Players_remove_ends: "play_ok s \<Longrightarrow> \<exists>s'. Players_remove s = Some s' \<and> play_ok s' \<and> NumPlayers s' = 0"
proof (induction "NumPlayers s" arbitrary: s)
  case 0
  then show ?case by (subst Players_remove.simps) simp
next
  case (Suc n)
  let ?p = "Players s ! (NumPlayers s - 1)"
  have e: "NumPlayers s - 1 = n" using Suc.hyps(2) by simp
  have "?p \<in> set (playing s)"
    unfolding playing_iff [OF play_okD(1) [OF Suc.prems]] e using Suc.hyps(2) by (intro exI [of _ n]) simp
  then obtain s1 where s1: "kick_out ?p s = Some s1" "fewer {?p} s s1" "NumPlayers s1 = NumPlayers s - 1"
    using kick_out_ok [OF Suc.prems] by blast
  have "n = NumPlayers s1" "play_ok s1" using s1(2,3) Suc.hyps(2) by (simp_all add: fewer_def)
  from Suc.hyps(1) [OF this] obtain s' where "Players_remove s1 = Some s'" "play_ok s'" "NumPlayers s' = 0" by blast
  then show ?case using s1(1) Suc.hyps(2) by (subst Players_remove.simps) simp
qed

text \<open>C37. When the server ends it removes all players: the loop ends, nobody is left, no count is left over and every
  identifier is free again.\<close>

theorem Players_remove_empties:
  assumes "play_ok s"
  shows "\<exists>s' fr. Players_remove s = Some s' \<and> playing s' = [] \<and> NumPaused s' = 0 \<and> NumRobots s' = 0 \<and> NumOperators s' = 0 \<and>
    (\<forall>t < MAX_TEAMS. t_NumMembers (teams s' ! t) = 0) \<and> ids_hold (idq s') fr {}"
proof -
  obtain s' where s': "Players_remove s = Some s'" "play_ok s'" "NumPlayers s' = 0" using Players_remove_ends [OF assms] by blast
  have e: "playing s' = []" using s'(3) by (simp add: playing_def)
  obtain fr where "ids_hold (idq s') fr {}" using play_okD(1) [OF s'(2)] e by (auto simp: registry_ok_def)
  moreover have "NumPaused s' = 0" "NumRobots s' = 0" "NumOperators s' = 0" "\<forall>t < MAX_TEAMS. t_NumMembers (teams s' ! t) = 0"
    using play_okD(3,12) [OF s'(2)] by (simp_all add: counts_ok_def headcount_def e)
  ultimately show ?thesis using s'(1) e by blast
qed

theorem Players_remove_empties_witness:
  "\<exists>s. play_ok s \<and> playing s \<noteq> [] \<and> (\<exists>s'. Players_remove s = Some s' \<and> playing s' = [])"
proof -
  obtain p s where s: "play_ok s" "joined p 3 start_game s" by (rule start_with_robot)
  have "playing s \<noteq> []" using joinedD(2) [OF s(2)] by simp
  then show ?thesis using Players_remove_empties [OF s(1)] s(1) by blast
qed

subsection \<open>Taking over a home base\<close>

lemma change_home_takes:
  assumes ok: "play_ok s" and p: "p \<in> set (playing s)"
    and "b_team (bases s ! b) = p_team (plr_at s p)" "p_home (plr_at s p) \<noteq> Some b"
  shows "p_home (plr_at (Player_change_home p b s) p) = Some b \<and>
    (\<forall>q \<in> set (playing s). q \<noteq> p \<longrightarrow> p_home (plr_at (Player_change_home p b s) q) =
       (if p_home (plr_at s q) = Some b then p_home (plr_at s p) else p_home (plr_at s q)))"
proof -
  let ?s = "Player_change_home p b s" and ?h = "p_home (plr_at s p)"
  have len: "q < length (playerArray s)" if "q \<in> set (playing s)" for q by (rule play_okD(11) [OF ok that])
  show ?thesis
  proof (cases "Player_owns_base b s")
    case None
    then have "p_home (plr_at s q) \<noteq> Some b" if "q \<in> set (playing s)" for q
      using that home_owner [OF ok _ that] by auto
    moreover have "plr_at ?s q = (if q = p then (plr_at s p)\<lparr>p_home := Some b\<rparr> else plr_at s q)" for q
      using assms(3,4) None len [OF p] by (simp add: Player_change_home_def Let_def announce_def upd_plr_def)
    ultimately show ?thesis by simp
  next
    case (Some r)
    have r: "r \<in> set (playing s)" "p_home (plr_at s r) = Some b"
      using Some find_mem [of _ "playing s" r] by (auto simp: Player_owns_base_def)
    then have "r \<noteq> p" using assms(4) by blast
    have at: "plr_at ?s q = (if q = p then (plr_at s p)\<lparr>p_home := Some b\<rparr> else if q = r then (plr_at s r)\<lparr>p_home := ?h\<rparr> else plr_at s q)" for q
      using assms(3,4) Some \<open>r \<noteq> p\<close> len [OF p] len [OF r(1)]
      by (simp add: Player_change_home_def Let_def announce_def upd_plr_def nth_list_update)
    have "p_home (plr_at ?s q) = (if p_home (plr_at s q) = Some b then ?h else p_home (plr_at s q))"
      if q: "q \<in> set (playing s)" "q \<noteq> p" for q
    proof (cases "q = r")
      case True
      then show ?thesis using q(2) r(2) by (simp add: at)
    next
      case False
      then have "p_home (plr_at s q) \<noteq> Some b" using home_owner [OF ok _ q(1)] Some by auto
      then show ?thesis using False q(2) by (simp add: at)
    qed
    moreover have "p_home (plr_at ?s p) = Some b" by (simp add: at)
    ultimately show ?thesis by simp
  qed
qed

text \<open>C38. A player who claims a base of his own team gets it, and who lived there gets his old one; a base of another team
  is not given away. Nobody else is moved, and still nobody shares a base.\<close>

theorem Player_change_home_swaps:
  assumes "play_ok s" "p \<in> set (playing s)" "\<not> Player_is_paused (plr_at s p)" "b < length (bases s)"
  shows "play_ok (Player_change_home p b s) \<and> playing (Player_change_home p b s) = playing s \<and>
    (if b_team (bases s ! b) = p_team (plr_at s p)
     then p_home (plr_at (Player_change_home p b s) p) = Some b \<and>
       (\<forall>q \<in> set (playing s). q \<noteq> p \<longrightarrow> p_home (plr_at (Player_change_home p b s) q) =
          (if p_home (plr_at s q) = Some b then p_home (plr_at s p) else p_home (plr_at s q)))
     else Player_change_home p b s = s)"
proof -
  let ?s = "Player_change_home p b s" and ?h = "p_home (plr_at s p)"
  have ok: "play_ok ?s" using Player_change_home_ok [OF assms] by (simp add: kept_by_def)
  have nn: "b_team (bases s ! b) \<noteq> None" using play_okD(7) [OF assms(1)] assms(4) by (simp add: teams_ok_def)
  consider (other) "b_team (bases s ! b) \<noteq> p_team (plr_at s p)" | (home) "b_team (bases s ! b) = p_team (plr_at s p)" "?h = Some b"
    | (take) "b_team (bases s ! b) = p_team (plr_at s p)" "?h \<noteq> Some b" by blast
  then show ?thesis
  proof cases
    case other
    then have "?s = s" using nn by (simp add: Player_change_home_def Let_def)
    then show ?thesis using other assms(1) by simp
  next
    case home
    then have e: "?s = s" by (simp add: Player_change_home_def Let_def)
    have "p_home (plr_at s q) \<noteq> Some b" if "q \<in> set (playing s)" "q \<noteq> p" for q
      using play_okD(8) [OF assms(1)] that assms(2) home(2) unfolding homes_distinct_def by (metis option.distinct(1))
    then show ?thesis unfolding e using home assms(1) by simp
  next
    case take
    have play: "playing ?s = playing s"
      by (simp add: Player_change_home_def Let_def announce_def upd_plr_def playing_def split: option.split)
    show ?thesis using change_home_takes [OF assms(1,2) take] ok play take(1) by simp
  qed
qed

theorem Player_change_home_swaps_witness:
  "\<exists>s p. play_ok s \<and> p \<in> set (playing s) \<and> p_home (plr_at (Player_change_home p 3 s) p) = Some 3"
proof -
  obtain p s where s: "play_ok s" "joined p 3 start_game s" "p_type (plr_at s p) = PL_TYPE_ROBOT" by (rule start_with_robot)
  note j = joinedD [OF s(2)] and f = joined_frame [OF s(2)]
  have p: "p \<in> set (playing s)" by (simp add: j(2))
  have "\<not> Player_is_paused (plr_at s p)"
    using play_okD(10) [OF s(1) p] j(7) by (auto simp: seat_ok_def PAUSE_TEAM_NUM_def)
  moreover have "b_team (bases s ! 3) = p_team (plr_at s p)" "3 < length (bases s)"
    using j(7) by (simp_all add: f(1) start_game_def)
  ultimately show ?thesis using Player_change_home_swaps [OF s(1) p, of 3] s(1) p by auto
qed

subsection \<open>Inputs on which the code fails\<close>

text \<open>C39. A paused player who sends the command \<open>team 0\<close> crashes the server: the guard for the pausers' team asks whether
  he is close to his home base before it is known that he has one.\<close>

theorem Cmd_team_paused_crashes:
  assumes "has_bit (rules_mode s) TEAM_PLAY" "p_team (plr_at s p) = Some t" "p_home (plr_at s p) = None"
    "PAUSE_TEAM_NUM < length (teams s)" "t_Num (teams s ! PAUSE_TEAM_NUM) = int PAUSE_TEAM_NUM"
  shows "Cmd_team d p (int PAUSE_TEAM_NUM) s = None"
proof -
  let ?s = "s\<lparr>teams := map (\<lambda>t. if t_Swapper t = Some p then t\<lparr>t_Swapper := None\<rparr> else t) (teams s)\<rparr>"
  have "Team_get_by_id (int PAUSE_TEAM_NUM) = Some PAUSE_TEAM_NUM" by (simp add: Team_get_by_id_def PAUSE_TEAM_NUM_def MAX_TEAMS_def)
  moreover have "t_Num (teams ?s ! PAUSE_TEAM_NUM) = int PAUSE_TEAM_NUM" using assms(4,5) by simp
  moreover have "Player_is_close_to_base p ?s = None" using assms(3) by (simp add: Player_is_close_to_base_def)
  ultimately show ?thesis using assms(1,2) by (simp add: Cmd_team_def team_request_def)
qed

theorem Cmd_team_paused_crashes_witness:
  "Player_is_paused (plr_at demo_game 2) \<and> p_connp (plr_at demo_game 2) = Some 1 \<and> Cmd_team (\<lambda>_ _. 0) 2 (int PAUSE_TEAM_NUM) demo_game = None"
proof -
  have d: "p_team (plr_at demo_game 2) = Some 0" "p_home (plr_at demo_game 2) = None" "Player_is_paused (plr_at demo_game 2)"
    "p_connp (plr_at demo_game 2) = Some 1" "has_bit (rules_mode demo_game) TEAM_PLAY"
    "PAUSE_TEAM_NUM < length (teams demo_game)" "t_Num (teams demo_game ! PAUSE_TEAM_NUM) = int PAUSE_TEAM_NUM"
    by (simp_all add: demo_game_def plr_zero_def player_is_defs demo_teams_def MAX_TEAMS_def PAUSE_TEAM_NUM_def empty_game_def
      has_bit_def TEAM_PLAY_def)
  show ?thesis using Cmd_team_paused_crashes [OF d(5,1,2,6,7)] d(3,4) by simp
qed

text \<open>C40. Two clients may be let in for the last place of a team before either logs in, as the queue counts the members of the
  team only. The first one is seated; the login of the second one crashes the server.\<close>

theorem login_race_crashes:
  assumes "play_ok s" "has_room s t" "t_NumMembers (teams s ! t) + 1 = t_NumBases (teams s ! t)" "terminated a" "terminated b"
    "\<not> name_taken a s" "\<not> name_taken b s" "map lower (cstr a) \<noteq> map lower (cstr b)"
    "int (NumPlayers s) + 1 < int (length (bases s)) + MAX_PAUSED_PLAYERS"
  shows "\<exists>p s1. Login_player (Some t) a c s = Some (Some p, s1) \<and> p_home (plr_at s1 p) \<noteq> None \<and> Login_player (Some t) b c' s1 = None"
proof (rule Login_player_ok [OF assms(1) _ assms(4), of "Some t" c])
  show "has_room s k" if "Some t = Some k" for k using assms(2) that by simp
next
  assume "int (length (bases s)) + MAX_PAUSED_PLAYERS \<le> int (NumPlayers s) \<or> name_taken a s \<or> Some t = None"
  then show ?thesis using assms(6,9) by simp
next
  fix p k s1
  assume l: "Login_player (Some t) a c s = Some (Some p, s1)" "play_ok s1" "joined p k s s1" "Some t \<noteq> None \<Longrightarrow> Some t = Some k"
    "p_name (plr_at s1 p) = a" "p_home (plr_at s1 p) \<noteq> None"
  have k: "k = t" using l(4) by simp
  note j = joinedD [OF l(3)] and f = joined_frame [OF l(3)]
  have t: "t < MAX_TEAMS" "t \<noteq> PAUSE_TEAM_NUM" "t < length (teams s)" using assms(2) play_okD(12) [OF assms(1)] by (simp_all add: has_room_def)
  have "t_NumBases (teams s1 ! t) = t_NumBases (teams s ! t)" using j(11) [OF t(3)] by (simp add: fixed_team_def)
  then have "t_NumMembers (teams s1 ! t) = t_NumBases (teams s1 ! t)" using j(13) [OF t(3)] assms(3) k by simp
  from full_no_base [OF l(2) t(1,2) this] have full: "\<not> free_base s1 (Some t) h" for h .
  have "\<not> name_taken b s1"
    using assms(7,8) joined_old [OF l(3)] l(5) by (auto simp: name_taken_def j(2))
  moreover have "NumPlayers s1 = NumPlayers s + 1"
  proof -
    have "length (playing s1) = length (playing s) + 1" by (simp add: j(2))
    then show ?thesis using play_okD(1) [OF assms(1)] j(1) by (simp add: playing_def registry_ok_def)
  qed
  ultimately have "Login_player (Some t) b c' s1 = None"
    using Login_no_base [OF l(2) t(1) full assms(5)] assms(9) by (simp add: f(1))
  with l(1,6) show ?thesis by blast
qed

theorem login_race_crashes_witness:
  "queue_admit 0 (Some 2) start_game = Some (Some 2, start_game) \<and> queue_admit 1 (Some 2) start_game = Some (Some 2, start_game) \<and>
   (\<exists>p s1. Login_player (Some 2) [65, 0] 7 start_game = Some (Some p, s1) \<and> Login_player (Some 2) [66, 0] 8 s1 = None)"
proof -
  have two: "2 < MAX_TEAMS" by (simp add: MAX_TEAMS_def)
  have "queue_admit n (Some 2) start_game = Some (Some 2, start_game)" if "n < 4" for n
    using start_team [OF two] that by (simp add: queue_admit_def queue_team_def base_left_def start_simps has_bit_def TEAM_PLAY_def)
  moreover have "\<not> name_taken x start_game" for x by (simp add: name_taken_def start_simps)
  moreover have "int (NumPlayers start_game) + 1 < int (length (bases start_game)) + MAX_PAUSED_PLAYERS"
    by (simp add: start_simps MAX_PAUSED_PLAYERS_def)
  moreover have "t_NumMembers (teams start_game ! 2) + 1 = t_NumBases (teams start_game ! 2)" using start_team [OF two] by simp
  moreover have "map lower (cstr [65, 0]) \<noteq> map lower (cstr [66, 0])" by (simp add: lower_def tolower_def)
  ultimately show ?thesis
    using login_race_crashes [OF start_game_ok start_room(2), of "[65, 0]" "[66, 0]" 7 8] by auto
qed

end
