(* ===== verification/Spec2Isabelle.thy ===== *)
theory Spec2Isabelle
  imports List_Laws Random_MT C_Strings Id_Queue Net_Session Net_Send Net_Input File_Parser Team_Ops
begin

text \<open>
  A verification development for the XPilot server xpilot-fxi (\<open>src/common\<close>, \<open>src/server\<close>).

  The server talks to its clients over UDP. Every client has a connection (\<open>server/netserver.c\<close>) with
  three buffers (\<open>common/net.c\<close>): one for the datagrams it receives, one for the datagram being
  composed, and one for a reliable byte stream that is cut into datagrams, acknowledged and retransmitted.
  Packets are written to and read from the buffers by two format interpreters. The input scheduler
  (\<open>server/sched.c\<close>) calls the connection code when a socket becomes readable. Lists, random numbers,
  bounded strings, names and player identifiers are services the rest of the server shares.

  \<^bold>\<open>Theories.\<close>

  \<^item> \<open>XP_Prelude\<close>: blocks of memory, signed 32-bit results, C division, the simplification collections.
  \<^item> \<open>Sockbuf\<close>, \<open>Packet\<close> (\<open>common/net.c\<close>): \<open>sockbuf_t\<close> as the record \<open>sockbuf\<close>, a function per operation,
    over a scripted operating system; \<open>Packet_printf\<close> and \<open>Packet_scanf\<close> directive by directive. Shown: a flush
    hands the buffer over as one datagram, writes lose nothing, what is printed is exactly the prefix of the
    bytes asked for that fits (a packet of numbers whole or not at all, one with strings cut at the end of the
    buffer), scanning arbitrary bytes is safe, and scanning undoes printing when nothing was cut.
  \<^item> \<open>Linked_List\<close>, \<open>List_Laws\<close> (\<open>common/list.c\<close>): a heap of nodes. Shown: insertion and removal at the
    level of sequences, the queue and stack laws, searching, clearing, copying to a buffer.
  \<^item> \<open>Random_MT\<close> (\<open>common/randommt.c\<close>): the Mersenne Twister on words, equal to its recurrence.
  \<^item> \<open>C_Strings\<close> (\<open>strlcpy.c\<close>, \<open>strcasecmp.c\<close>, \<open>math.c\<close>), \<open>Check_Names\<close> (\<open>checknames.c\<close>): byte strings
    with a terminating NUL in a block; what repairing a name establishes.
  \<^item> \<open>Id_Queue\<close> (\<open>server/id.c\<close>): the ring of free identifiers refines a queue.
  \<^item> \<open>Sched_Input\<close> (\<open>server/sched.c\<close>): the handler table refines a map; one round of \<open>sched\<close>.
  \<^item> \<open>Map_Setup\<close> (\<open>server/netserver.c\<close>): the setup structure and the compression of the map.
  \<^item> \<open>Connection\<close> (\<open>server/netserver.c\<close>): the connection array, \<open>Conn_set_state\<close>,
    \<open>Setup_connection\<close>, \<open>Destroy_connection\<close>; the counters and the uniqueness of nick names are invariants of
    all states reachable by these operations (\<open>reachable\<close>, \<open>nick_reachable\<close>), as long as the removal of a player
    by the rest of the server revives and renames no connection (\<open>keeps_conns\<close>, \<open>keeps_nicks\<close>).
  \<^item> \<open>Net_Reliable\<close>, \<open>Net_Session\<close> (\<open>server/netserver.c\<close>): \<open>Send_reliable\<close>, \<open>Receive_ack\<close> and the
    retransmission timer; a session is a step relation of the server and an honest client over a network
    that may lose, repeat and reorder datagrams, and in every reachable state the client has a
    prefix of the stream. \<open>Send_reliable\<close> alone is described exactly, with a pending frame in front: the slices
    it sends, the highest position sent and the time of the next retransmission, which stays bounded.
  \<^item> \<open>Net_Receive\<close> (\<open>server/netserver.c\<close>): the handlers of the packets of a client, the dispatch tables,
    \<open>Handle_listening\<close> and \<open>Handle_input\<close>.
  \<^item> \<open>Net_Send\<close> (\<open>server/netserver.c\<close>): the packets of a frame and the news about players. Shown: the packets
    copied by hand stay inside the buffer, and when no reliable data is waiting the datagram handed to the
    socket is the whole frame with its start and end marks; what becomes of it is up to the system.
  \<^item> \<open>Net_Input\<close> (\<open>server/netserver.c\<close>): \<open>Handle_setup\<close> and the round \<open>Input\<close> over all connections. The locale
    \<open>conn_invariant\<close> says what an invariant of the connection array needs to survive every handler;
    the counters are its interpretation.
  \<^item> \<open>Options\<close> (\<open>server/option.c\<close>): the hash table of option names with shared, reference-counted values. Shown:
    it refines a store of options, the value that wins is the one the precedence of the sources says,
    and freeing the table frees everything once.
  \<^item> \<open>File_Parser\<close> (\<open>server/fileparser.c\<close>, the start of \<open>Parser\<close> in \<open>server/parser.c\<close>, \<open>Init_options\<close> in
    \<open>server/cmdline.c\<close>): lines of configuration files, opening map files, arguments. The locale \<open>table_invariant\<close>
    says what a property of the table needs to survive every file; that an option set on the
    command line keeps its value is an interpretation (for arguments without comment signs and line ends; a lemma
    shows why).
  \<^item> \<open>Game_World\<close> (\<open>server/player.h\<close>, \<open>team.h\<close>, \<open>map.h\<close>, \<open>object.h\<close>, \<open>team.c\<close>, \<open>player.c\<close>): the record \<open>gstate\<close> of
    players, teams, bases, treasures and objects; choosing a team and a base, the state a player enters in.
  \<^item> \<open>Game_Objects\<close> (\<open>server/object.c\<close>, \<open>shot.c\<close>): the pool of objects. Shown: the frame loop treats every object
    exactly once although removal reorders the array, and every treasure keeps its ball.
  \<^item> \<open>Game_Players\<close> (\<open>server/player.c\<close>): entering, leaving and locks. Shown: the registry of players, the
    identifiers in use and the counters stay right, and no pointer to a removed player is left.
  \<^item> \<open>Team_Play\<close> (\<open>server/player.c\<close>, \<open>command.c\<close>, \<open>robot.c\<close>, \<open>contact.c\<close>, \<open>netserver.c\<close>): the operations of a team
    game: logging in, robots, the queue of waiting clients, pausing, \<open>Cmd_team\<close>, home bases, kicking; the invariant
    \<open>play_ok\<close> and the operations that move players who are in the game. \<open>Team_Entry\<close>: arrivals, departures, changes of
    homes and the queue keep it. \<open>Team_Ops\<close> (\<open>server/event.c\<close> for the keys): all operations as a step relation. Shown:
    in every reachable state every allowed operation returns and every active player lives alone on a base of his
    team; a client whom the queue lets in is seated if it logs in next and robots have a team of their own; whom
    \<open>Kick_robot_players\<close> kicks; three inputs on which the server crashes.

  \<^bold>\<open>Conventions.\<close> \<open>None\<close> is undefined behaviour of C: an access outside a block, a null pointer, a
  signed overflow where a client controls the operands, and, for the option table and the parser, the end of
  the program by \<open>fatal\<close> or \<open>dumpcore\<close> and a recursion that exhausts the stack (\<open>expandKeyword\<close> has the
  depth of the stack as an argument). Errors the code reports are ordinary
  results. A loop whose end depends on input has fuel, and a theorem that the fuel given is enough
  (\<open>Handle_input_ends\<close>: a round per byte of the datagram, as each handler consumes at least one);
  the loops of the scheduler and of retries end by structural recursion on the operating system's script. A
  float that holds a 16-bit number of 256ths is a rational number. In the game theories a pointer is an index into
  the array it points into, time is in ticks, and what only the physics uses is left out of the records.

  \<^bold>\<open>Parameters.\<close> What the operating system and the allocator answer is data (\<open>os\<close>, \<open>setup_env\<close>,
  \<open>listen_env\<close>). The rest of the server is the record \<open>game\<close> of functions on the server state; what
  a theorem needs of it is a hypothesis (\<open>keeps_conns\<close>, \<open>keeps_nicks\<close>, \<open>calm_game\<close>). The client of a session is
  any function with \<open>honest_client\<close>.

  \<^bold>\<open>Not modelled.\<close> The physics of the game (\<open>walls.c\<close>, \<open>collision.c\<close>, \<open>update.c\<close>, movement in \<open>shot.c\<close>), scores and
  the end of a round, the steering of robots, most keys of \<open>event.c\<close> and commands of \<open>command.c\<close>, the queries of
  the contact port, frames, ranking, ship shapes and map parsing work on floating-point numbers or large tables. Of
  \<open>Handle_login\<close> the part up to the new player is \<open>Login_player\<close>, the part after it is in the connection theories,
  where the first part is a parameter. Text written to the log
  and texts copied for the log only are left out, as is freeing of the strings of a connection. The signal-driven
  frame timer of \<open>sched.c\<close> and the wrappers of system calls in \<open>socklib.c\<close> are not modelled.
\<close>

end
